(* ===== verification/Prelude.thy ===== *)
theory Prelude
  imports Main "HOL-Library.Word" "HOL-Library.List_Lexorder" "HOL-Library.Multiset" "HOL-Library.AList" "HOL-Library.Code_Target_Nat"
begin

text \<open>
  Shared vocabulary of the development: bytes and machine integers, Rust's checked and
  saturating arithmetic, the decimal printing of \<^verbatim>\<open>to_string\<close>, ordered maps
  (\<^verbatim>\<open>BTreeMap\<close>), big-endian 32-bit fields, fixed-size chunks, and the interfaces
  (locales) that several components implement. \<^verbatim>\<open>usize\<close> is 64 bits wide: the
  program supports \<^verbatim>\<open>x86_64\<close>, \<^verbatim>\<open>aarch64\<close> and \<^verbatim>\<open>riscv64\<close> only.
\<close>

named_theorems codec_simps \<open>unfolding rules that carry the codec proofs\<close>
named_theorems inv_intros \<open>an operation keeps its component's invariant\<close>

subsection \<open>Bytes and machine integers\<close>

type_synonym byte = "8 word"
type_synonym bytes = "byte list"

definition ascii :: "string \<Rightarrow> bytes" where
  "ascii s = map of_char s"

lemma ascii_inj [simp]: "ascii a = ascii b \<longleftrightarrow> a = b"
proof
  have "inj (of_char :: char \<Rightarrow> byte)"
  proof (rule injI)
    fix c d :: char assume "(of_char c :: byte) = of_char d"
    then have "(of_nat (of_char c) :: byte) = of_nat (of_char d)" by (simp add: of_nat_of_char)
    then have "unat (of_nat (of_char c) :: byte) = unat (of_nat (of_char d) :: byte)" by simp
    then have "(of_char c :: nat) = of_char d"
      using nat_of_char_less_256 [of c] nat_of_char_less_256 [of d] by (simp only: unat_of_nat) simp
    then show "c = d" by simp
  qed
  then show "ascii a = ascii b \<Longrightarrow> a = b" by (simp add: ascii_def inj_map_eq_map)
qed simp

lemma length_ascii [simp]: "length (ascii s) = length s"
  by (simp add: ascii_def)

definition i64_max :: int where "i64_max = 2 ^ 63 - 1"
definition i64_min :: int where "i64_min = - (2 ^ 63)"
definition usize_max :: nat where "usize_max = 2 ^ 64 - 1"
definition u64_max :: nat where "u64_max = 2 ^ 64 - 1"
definition u32_max :: nat where "u32_max = 2 ^ 32 - 1"

definition in_i64 :: "int \<Rightarrow> bool" where
  "in_i64 n \<longleftrightarrow> i64_min \<le> n \<and> n \<le> i64_max"

definition checked_i64 :: "int \<Rightarrow> int option" where
  "checked_i64 n = (if in_i64 n then Some n else None)"

definition checked_usize :: "nat \<Rightarrow> nat option" where
  "checked_usize n = (if n \<le> usize_max then Some n else None)"

definition checked_u64 :: "nat \<Rightarrow> nat option" where
  "checked_u64 n = (if n \<le> u64_max then Some n else None)"

text \<open>Conversions between widths: \<^verbatim>\<open>u32::try_from\<close>, \<^verbatim>\<open>u64::try_from\<close>,
  \<^verbatim>\<open>usize::try_from\<close> of an \<^verbatim>\<open>i64\<close>, and \<^verbatim>\<open>i64::try_from\<close> of a
  \<^verbatim>\<open>u64\<close> with the saturating default the encoders use.\<close>

definition u32_of_i64 :: "int \<Rightarrow> nat option" where
  "u32_of_i64 n = (if 0 \<le> n \<and> n \<le> int u32_max then Some (nat n) else None)"

definition u64_of_i64 :: "int \<Rightarrow> nat option" where
  "u64_of_i64 n = (if 0 \<le> n \<and> n \<le> int u64_max then Some (nat n) else None)"

definition i64_of_u64_sat :: "nat \<Rightarrow> int" where
  "i64_of_u64_sat n = (if int n \<le> i64_max then int n else i64_max)"

text \<open>\<^verbatim>\<open>saturating_add\<close> and wrapping \<^verbatim>\<open>+\<close> of a release build on \<^verbatim>\<open>u32\<close>.\<close>

definition u32_sat_add :: "nat \<Rightarrow> nat \<Rightarrow> nat" where
  "u32_sat_add a b = min (a + b) u32_max"

definition u32_sat_mul :: "nat \<Rightarrow> nat \<Rightarrow> nat" where
  "u32_sat_mul a b = min (a * b) u32_max"

definition u32_add :: "nat \<Rightarrow> nat \<Rightarrow> nat" where
  "u32_add a b = (a + b) mod 2 ^ 32"

definition u64_sat_add :: "nat \<Rightarrow> nat \<Rightarrow> nat" where
  "u64_sat_add a b = min (a + b) u64_max"

definition u64_add :: "nat \<Rightarrow> nat \<Rightarrow> nat" where
  "u64_add a b = (a + b) mod 2 ^ 64"

text \<open>\<^verbatim>\<open>u32::try_from(n).unwrap_or(u32::MAX)\<close>.\<close>

definition u32_clamp :: "nat \<Rightarrow> nat" where
  "u32_clamp n = (if n \<le> u32_max then n else u32_max)"

definition div_ceil :: "nat \<Rightarrow> nat \<Rightarrow> nat" where
  "div_ceil a b = a div b + (if 0 < a mod b then 1 else 0)"

lemma i64_sat_in: "in_i64 (i64_of_u64_sat n)"
  by (simp add: i64_of_u64_sat_def in_i64_def i64_min_def i64_max_def)

lemma u32_clamp_id [simp]: "n \<le> u32_max \<Longrightarrow> u32_clamp n = n"
  by (simp add: u32_clamp_def)

lemma u32_clamp_le: "u32_clamp n \<le> n"
  by (simp add: u32_clamp_def)

lemma div_ceil_less_iff: "0 < b \<Longrightarrow> k < div_ceil a b \<longleftrightarrow> k * b < a"
proof -
  assume b: "0 < b"
  have a: "a = a div b * b + a mod b" by simp
  have m: "a mod b < b" using b by simp
  show ?thesis
  proof (cases "a mod b = 0")
    case True
    then obtain c where c: "a = b * c" by (auto simp: dvd_def mod_eq_0_iff_dvd)
    then show ?thesis using b by (simp add: div_ceil_def mult.commute)
  next
    case False
    have "k < a div b + 1 \<longleftrightarrow> k * b < a"
    proof
      assume "k < a div b + 1"
      then have "k * b \<le> a div b * b" by simp
      also have "\<dots> < a" using a False by linarith
      finally show "k * b < a" .
    next
      assume "k * b < a"
      then have "k \<le> a div b"
        using b by (metis div_le_mono div_mult_self_is_m less_imp_le mult.commute)
      then show "k < a div b + 1" by simp
    qed
    then show ?thesis using False by (simp add: div_ceil_def)
  qed
qed

lemma div_ceil_le: "0 < b \<Longrightarrow> a \<le> div_ceil a b * b"
  using div_ceil_less_iff [of b "div_ceil a b" a] by simp

lemma sum_chunks: "(\<Sum>k < m. min (n - k * b) b) = min n (m * b)" for n b :: nat
proof (induction m)
  case (Suc m)
  have "min n (m * b) + min (n - m * b) b = min n (m * b + b)" by linarith
  then show ?case using Suc by (simp add: add.commute)
qed simp

lemma sum_chunks_ceil: "0 < b \<Longrightarrow> (\<Sum>k < div_ceil n b. min (n - k * b) b) = n"
  using div_ceil_le [of b n] by (simp add: sum_chunks)

subsection \<open>Results\<close>

text \<open>The \<^verbatim>\<open>?\<close> operator on a \<^verbatim>\<open>Result\<close>, and \<^verbatim>\<open>Option::ok_or\<close>.\<close>

definition bindE :: "'e + 'a \<Rightarrow> ('a \<Rightarrow> 'e + 'b) \<Rightarrow> 'e + 'b" where
  "bindE r f = (case r of Inl e \<Rightarrow> Inl e | Inr v \<Rightarrow> f v)"

definition ok_or :: "'e \<Rightarrow> 'a option \<Rightarrow> 'e + 'a" where
  "ok_or e x = (case x of None \<Rightarrow> Inl e | Some v \<Rightarrow> Inr v)"

lemma bindE_simps [simp]: "bindE (Inl e) f = Inl e" "bindE (Inr v) f = f v"
  by (simp_all add: bindE_def)

lemma bindE_Inr: "bindE r f = Inr y \<longleftrightarrow> (\<exists>v. r = Inr v \<and> f v = Inr y)"
  by (cases r) simp_all

lemma ok_or_simps [simp]: "ok_or e None = Inl e" "ok_or e (Some v) = Inr v"
  by (simp_all add: ok_or_def)

lemma ok_or_Inr [simp]: "ok_or e x = Inr v \<longleftrightarrow> x = Some v"
  by (cases x) simp_all

subsection \<open>Big-endian 32-bit fields\<close>

text \<open>\<^verbatim>\<open>u32::to_be_bytes\<close> and \<^verbatim>\<open>u32::from_be_bytes\<close>.\<close>

definition be32 :: "nat \<Rightarrow> bytes" where
  "be32 n = [of_nat (n div 2 ^ 24), of_nat (n div 2 ^ 16), of_nat (n div 2 ^ 8), of_nat n]"

definition from_be32 :: "byte \<Rightarrow> byte \<Rightarrow> byte \<Rightarrow> byte \<Rightarrow> nat" where
  "from_be32 a b c d = unat a * 2 ^ 24 + unat b * 2 ^ 16 + unat c * 2 ^ 8 + unat d"

lemma length_be32 [simp]: "length (be32 n) = 4"
  by (simp add: be32_def)

lemma unat_byte_of_nat: "unat (of_nat n :: byte) = n mod 256"
  by (simp add: unat_of_nat)

lemma from_be32_be32 [simp]:
  assumes "n \<le> u32_max"
  shows "from_be32 (of_nat (n div 16777216)) (of_nat (n div 65536)) (of_nat (n div 256)) (of_nat n) = n"
proof -
  let ?x = "n div 256" and ?y = "n div 256 div 256" and ?z = "n div 256 div 256 div 256"
  have s: "n div 65536 = ?y" "n div 16777216 = ?z"
    by (simp_all add: div_mult2_eq [symmetric])
  have "?z < 256" using assms by (simp add: u32_max_def div_mult2_eq [symmetric])
  then have "?z mod 256 = ?z" by simp
  moreover have "n = ?x * 256 + n mod 256" "?x = ?y * 256 + ?x mod 256" "?y = ?z * 256 + ?y mod 256"
    by (rule div_mult_mod_eq [symmetric])+
  ultimately have "?z mod 256 * 16777216 + ?y mod 256 * 65536 + ?x mod 256 * 256 + n mod 256 = n"
    by linarith
  then show ?thesis unfolding from_be32_def unat_byte_of_nat s by simp
qed

lemma unat_byte_less: "unat (b :: byte) < 256"
  using unsigned_less [of b, where ?'a = nat] by simp

lemma from_be32_le [simp]: "from_be32 a b c d \<le> u32_max"
  using unat_byte_less [of a] unat_byte_less [of b] unat_byte_less [of c] unat_byte_less [of d]
  by (simp add: from_be32_def u32_max_def)

lemma be32_from_be32 [simp]: "be32 (from_be32 a b c d) = [a, b, c, d]"
proof -
  note l = unat_byte_less [of a] unat_byte_less [of b] unat_byte_less [of c] unat_byte_less [of d]
  let ?n = "from_be32 a b c d"
  have "?n div 2 ^ 24 = unat a" "?n div 2 ^ 16 = unat a * 256 + unat b"
    "?n div 2 ^ 8 = (unat a * 256 + unat b) * 256 + unat c"
    "?n = ((unat a * 256 + unat b) * 256 + unat c) * 256 + unat d"
    using l by (simp_all add: from_be32_def)
  moreover have z: "(256 :: byte) = 0" "(65536 :: byte) = 0" "(16777216 :: byte) = 0" by simp_all
  have "x * 256 = 0" "65536 * x = 0" "16777216 * x = 0" for x :: byte
    unfolding z by (rule mult_zero_right mult_zero_left)+
  ultimately show ?thesis by (simp add: be32_def)
qed

subsection \<open>Slices\<close>

text \<open>\<^verbatim>\<open>out[off..off + bs.len()].copy_from_slice(bs)\<close>.\<close>

definition copy_at :: "nat \<Rightarrow> 'a list \<Rightarrow> 'a list \<Rightarrow> 'a list" where
  "copy_at off bs out = take off out @ bs @ drop (off + length bs) out"

definition byte_range :: "nat \<times> nat \<Rightarrow> 'a list \<Rightarrow> 'a list" where
  "byte_range r xs = take (snd r - fst r) (drop (fst r) xs)"

lemma length_copy_at [simp]: "off + length bs \<le> length out \<Longrightarrow> length (copy_at off bs out) = length out"
  by (simp add: copy_at_def)

subsection \<open>Decimal printing\<close>

text \<open>\<^verbatim>\<open>usize::to_string\<close> and \<^verbatim>\<open>i64::to_string\<close>, as bytes.\<close>

definition is_digit :: "byte \<Rightarrow> bool" where
  "is_digit b \<longleftrightarrow> 48 \<le> b \<and> b \<le> 57"

definition digit_val :: "byte \<Rightarrow> nat" where
  "digit_val b = unat (b - 48)"

fun dec_digits :: "nat \<Rightarrow> bytes" where
  "dec_digits n = (if n < 10 then [48 + of_nat n] else dec_digits (n div 10) @ [48 + of_nat (n mod 10)])"

declare dec_digits.simps [simp del]

definition dec_int :: "int \<Rightarrow> bytes" where
  "dec_int i = (if i < 0 then 45 # dec_digits (nat (- i)) else dec_digits (nat i))"

definition digits_val :: "nat \<Rightarrow> bytes \<Rightarrow> nat" where
  "digits_val acc ds = foldl (\<lambda>a b. 10 * a + digit_val b) acc ds"

lemma unat_48_plus: "k < 10 \<Longrightarrow> unat (48 + of_nat k :: byte) = 48 + k"
  by (simp add: unat_word_ariths unat_of_nat)

lemma digit_val_of_nat [simp]: "k < 10 \<Longrightarrow> digit_val (48 + of_nat k) = k"
  by (simp add: digit_val_def unat_of_nat)

lemma is_digit_of_nat [simp]: "k < 10 \<Longrightarrow> is_digit (48 + of_nat k)"
  unfolding is_digit_def word_le_nat_alt by (simp add: unat_48_plus)

lemma digit_val_less: "is_digit b \<Longrightarrow> digit_val b < 10"
  unfolding is_digit_def digit_val_def word_le_nat_alt by (auto simp: unat_sub word_le_nat_alt)

lemma digit_eq_48: "is_digit b \<Longrightarrow> b = 48 + of_nat (digit_val b)"
  unfolding digit_val_def by simp

lemma is_digit_colon [simp]: "\<not> is_digit 58"
  and is_digit_e [simp]: "\<not> is_digit 101"
  and is_digit_minus [simp]: "\<not> is_digit 45"
  and is_digit_i [simp]: "\<not> is_digit 105"
  and is_digit_l [simp]: "\<not> is_digit 108"
  and is_digit_d [simp]: "\<not> is_digit 100"
  by (simp_all add: is_digit_def)

lemma dec_digits_is_digit: "b \<in> set (dec_digits n) \<Longrightarrow> is_digit b"
proof (induction n rule: dec_digits.induct)
  case (1 n)
  show ?case
    using "1.IH" "1.prems" by (cases "n < 10") (auto simp: dec_digits.simps[of n])
qed

lemma dec_digits_nonempty [simp]: "dec_digits n \<noteq> []"
  by (subst dec_digits.simps) simp

lemma digits_val_append [simp]: "digits_val a (xs @ ys) = digits_val (digits_val a xs) ys"
  by (simp add: digits_val_def)

lemma digits_val_Nil [simp]: "digits_val a [] = a"
  and digits_val_Cons [simp]: "digits_val a (x # xs) = digits_val (10 * a + digit_val x) xs"
  by (simp_all add: digits_val_def)

lemma digits_val_mono: "a \<le> digits_val a xs"
proof (induction xs arbitrary: a)
  case (Cons x xs)
  have "a \<le> 10 * a + digit_val x" by simp
  also have "\<dots> \<le> digits_val (10 * a + digit_val x) xs" by (rule Cons.IH)
  finally show ?case by simp
qed simp

lemma digits_val_dec_digits [simp]: "digits_val 0 (dec_digits n) = n"
proof (induction n rule: dec_digits.induct)
  case (1 n)
  show ?case
    using "1.IH" by (cases "n < 10") (auto simp: dec_digits.simps[of n])
qed

lemma dec_digits_hd_zero: "hd (dec_digits n) = 48 \<Longrightarrow> n = 0"
proof (induction n rule: dec_digits.induct)
  case (1 n)
  show ?case
  proof (cases "n < 10")
    case True
    then have "(of_nat n :: byte) = 0" using "1.prems" by (simp add: dec_digits.simps[of n])
    then have "unat (of_nat n :: byte) = 0" by simp
    then show ?thesis using True by (simp add: unat_of_nat)
  next
    case False
    then have "hd (dec_digits (n div 10)) = 48"
      using "1.prems" by (simp add: dec_digits.simps[of n])
    then have "n div 10 = 0" using "1.IH" False by blast
    then show ?thesis using False by simp
  qed
qed

text \<open>Numerals without superfluous zeros are exactly what the printer produces.\<close>

lemma dec_digits_snoc:
  "0 < n \<Longrightarrow> k < 10 \<Longrightarrow> dec_digits (10 * n + k) = dec_digits n @ [48 + of_nat k]"
  by (subst dec_digits.simps) simp

lemma dec_digits_digits_val:
  assumes "\<forall>b \<in> set ds. is_digit b" and "ds \<noteq> []" and "hd ds = 48 \<longrightarrow> length ds = 1"
  shows "dec_digits (digits_val 0 ds) = ds"
  using assms
proof (induction ds rule: rev_induct)
  case (snoc d ds)
  show ?case
  proof (cases "ds = []")
    case True
    have "digit_val d < 10" "d = 48 + of_nat (digit_val d)"
      using snoc.prems digit_val_less digit_eq_48 by auto
    then show ?thesis using True by (simp add: dec_digits.simps[of "digit_val d"])
  next
    case False
    then have hd: "hd ds \<noteq> 48" using snoc.prems by auto
    then have IH: "dec_digits (digits_val 0 ds) = ds"
      using snoc.IH snoc.prems False by auto
    have "digits_val 0 ds \<noteq> 0"
    proof
      assume "digits_val 0 ds = 0"
      then have "ds = [48]" using IH by (simp add: dec_digits.simps[of 0])
      then show False using hd by simp
    qed
    moreover have "digit_val d < 10" "d = 48 + of_nat (digit_val d)"
      using snoc.prems digit_val_less digit_eq_48 by auto
    ultimately show ?thesis using IH by (simp add: dec_digits_snoc)
  qed
qed simp

lemma dec_digits_length: "length (dec_digits n) \<le> n + 1"
proof (induction n rule: dec_digits.induct)
  case (1 n)
  show ?case
  proof (cases "n < 10")
    case False
    then have "length (dec_digits (n div 10)) \<le> n div 10 + 1" by (rule "1.IH")
    then show ?thesis using False by (simp add: dec_digits.simps [of n])
  qed (simp add: dec_digits.simps [of n])
qed

subsection \<open>Splitting\<close>

text \<open>\<^verbatim>\<open>str::split\<close> on one character; never empty.\<close>

fun split_on :: "'a \<Rightarrow> 'a list \<Rightarrow> 'a list list" where
  "split_on c [] = [[]]"
| "split_on c (b # bs) =
     (if b = c then [] # split_on c bs
      else case split_on c bs of [] \<Rightarrow> [[b]] | l # ls \<Rightarrow> (b # l) # ls)"

text \<open>\<^verbatim>\<open>str::find\<close> of one character, as the two sides of the split.\<close>

definition cut_at :: "'a \<Rightarrow> 'a list \<Rightarrow> ('a list \<times> 'a list) option" where
  "cut_at c bs = (if c \<in> set bs then Some (takeWhile (\<lambda>b. b \<noteq> c) bs, dropWhile (\<lambda>b. b \<noteq> c) bs) else None)"

text \<open>\<^verbatim>\<open>str::rsplit_once\<close> of one character.\<close>

definition rsplit_once :: "'a \<Rightarrow> 'a list \<Rightarrow> ('a list \<times> 'a list) option" where
  "rsplit_once c bs =
     (case cut_at c (rev bs) of
        None \<Rightarrow> None
      | Some (after, before) \<Rightarrow> Some (rev (tl before), rev after))"

definition strip_prefix :: "'a list \<Rightarrow> 'a list \<Rightarrow> 'a list option" where
  "strip_prefix p bs = (if take (length p) bs = p then Some (drop (length p) bs) else None)"

lemma split_on_nonempty [simp]: "split_on c bs \<noteq> []"
  by (induction bs) (auto split: list.splits)

lemma split_on_Cons:
  obtains l ls where "split_on c bs = l # ls"
  using split_on_nonempty by (metis neq_Nil_conv)

lemma split_on_free: "l \<in> set (split_on c bs) \<Longrightarrow> c \<notin> set l \<and> set l \<subseteq> set bs"
proof (induction bs arbitrary: l)
  case (Cons b bs)
  obtain m ms where s: "split_on c bs = m # ms" by (rule split_on_Cons)
  have IH: "\<forall>l \<in> set (m # ms). c \<notin> set l \<and> set l \<subseteq> set bs" using Cons.IH s by simp
  show ?case
  proof (cases "b = c")
    case True
    then have "l = [] \<or> l \<in> set (m # ms)" using Cons.prems s by auto
    then show ?thesis using IH by auto
  next
    case False
    then have "l = b # m \<or> l \<in> set ms" using Cons.prems s by auto
    then show ?thesis using IH False by auto
  qed
qed simp

text \<open>Joining the parts again gives the text.\<close>

fun join_on :: "'a \<Rightarrow> 'a list list \<Rightarrow> 'a list" where
  "join_on c [] = []"
| "join_on c [l] = l"
| "join_on c (l # ls) = l @ c # join_on c ls"

lemma join_split_on: "join_on c (split_on c bs) = bs"
proof (induction bs)
  case (Cons b bs)
  obtain l ls where s: "split_on c bs = l # ls" by (rule split_on_Cons)
  show ?case using Cons s by (cases ls) auto
qed simp

lemma cut_at_SomeD:
  assumes "cut_at c bs = Some (a, p)"
  shows "bs = a @ p \<and> c \<notin> set a \<and> p \<noteq> [] \<and> hd p = c"
proof -
  have c: "c \<in> set bs" and ap: "a = takeWhile (\<lambda>b. b \<noteq> c) bs" "p = dropWhile (\<lambda>b. b \<noteq> c) bs"
    using assms by (auto simp: cut_at_def split: if_splits)
  have "p \<noteq> []" using c ap by (auto simp: dropWhile_eq_Nil_conv)
  moreover have "hd p = c" using hd_dropWhile [of "\<lambda>b. b \<noteq> c" bs] calculation ap by simp
  moreover have "c \<notin> set a" using ap set_takeWhileD by fastforce
  ultimately show ?thesis using ap by simp
qed

lemma cut_at_None [simp]: "cut_at c bs = None \<longleftrightarrow> c \<notin> set bs"
  by (simp add: cut_at_def)

lemma rsplit_once_SomeD: "rsplit_once c bs = Some (a, b) \<Longrightarrow> bs = a @ c # b \<and> c \<notin> set b"
proof -
  assume r: "rsplit_once c bs = Some (a, b)"
  then obtain x y where c: "cut_at c (rev bs) = Some (x, y)" "a = rev (tl y)" "b = rev x"
    by (auto simp: rsplit_once_def split: option.splits prod.splits)
  from cut_at_SomeD [OF c(1)] have "rev bs = x @ y" "c \<notin> set x" "y = c # tl y" by (auto simp: neq_Nil_conv)
  then show ?thesis using c by (metis append_Cons append_Nil append_assoc rev.simps(2) rev_append rev_rev_ident set_rev)
qed

lemma strip_prefix_SomeD: "strip_prefix p bs = Some r \<Longrightarrow> bs = p @ r"
  by (auto simp: strip_prefix_def split: if_splits) (metis append_take_drop_id)

lemma split_on_append: "c \<notin> set l \<Longrightarrow> split_on c (l @ c # r) = l # split_on c r"
  by (induction l) auto

lemma split_on_append_both: "split_on c (x @ c # y) = split_on c x @ split_on c y"
proof (induction x)
  case (Cons b x)
  obtain l ls where "split_on c x = l # ls" by (rule split_on_Cons)
  then show ?case using Cons by simp
qed simp

lemma split_on_id [simp]: "c \<notin> set l \<Longrightarrow> split_on c l = [l]"
  by (induction l) auto

lemma split_on_join:
  assumes "\<forall>l \<in> set ls. c \<notin> set l" "ls \<noteq> []"
  shows "split_on c (join_on c ls) = ls"
  using assms by (induction c ls rule: join_on.induct) (auto simp: split_on_append)

lemma first_split_eq: "c \<notin> set a \<Longrightarrow> c \<notin> set b \<Longrightarrow> a @ c # x = b @ c # y \<longleftrightarrow> a = b \<and> x = y"
proof (induction a arbitrary: b)
  case (Cons d a)
  then show ?case by (cases b) auto
next
  case Nil
  then show ?case by (cases b) auto
qed

text \<open>\<^verbatim>\<open>str::split_once\<close> of one character.\<close>

definition split_once :: "'a \<Rightarrow> 'a list \<Rightarrow> ('a list \<times> 'a list) option" where
  "split_once c s = map_option (\<lambda>(a, b). (a, tl b)) (cut_at c s)"

lemma split_once_None [simp]: "split_once c s = None \<longleftrightarrow> c \<notin> set s"
  by (simp add: split_once_def)

lemma split_once_Some: "split_once c s = Some (a, b) \<longleftrightarrow> s = a @ c # b \<and> c \<notin> set a"
proof
  assume "split_once c s = Some (a, b)"
  then obtain p where p: "cut_at c s = Some (a, p)" "b = tl p" by (auto simp: split_once_def)
  from cut_at_SomeD [OF p(1)] show "s = a @ c # b \<and> c \<notin> set a" using p(2) by (cases p) auto
next
  assume s: "s = a @ c # b \<and> c \<notin> set a"
  have "c \<notin> set a \<Longrightarrow> takeWhile (\<lambda>b. b \<noteq> c) (a @ c # b) = a \<and> dropWhile (\<lambda>b. b \<noteq> c) (a @ c # b) = c # b" for a
    by (induction a) auto
  then show "split_once c s = Some (a, b)" using s by (simp add: split_once_def cut_at_def)
qed

subsection \<open>UTF-8\<close>

text \<open>\<^verbatim>\<open>std::str::from_utf8\<close>: shortest-form sequences of one to four bytes, without
  surrogates and nothing above U+10FFFF. A Rust \<^verbatim>\<open>str\<close> is its UTF-8 bytes.\<close>

definition byte_in :: "byte \<Rightarrow> byte \<Rightarrow> byte \<Rightarrow> bool" where
  "byte_in lo hi b \<longleftrightarrow> lo \<le> b \<and> b \<le> hi"

fun utf8_valid :: "bytes \<Rightarrow> bool" where
  "utf8_valid [] = True"
| "utf8_valid (a # r) =
     (if a < 0x80 then utf8_valid r
      else if byte_in 0xC2 0xDF a then
        (case r of b # r' \<Rightarrow> byte_in 0x80 0xBF b \<and> utf8_valid r' | _ \<Rightarrow> False)
      else if byte_in 0xE0 0xEF a then
        (case r of
           b # c # r' \<Rightarrow>
             byte_in (if a = 0xE0 then 0xA0 else 0x80) (if a = 0xED then 0x9F else 0xBF) b \<and>
             byte_in 0x80 0xBF c \<and> utf8_valid r'
         | _ \<Rightarrow> False)
      else if byte_in 0xF0 0xF4 a then
        (case r of
           b # c # d # r' \<Rightarrow>
             byte_in (if a = 0xF0 then 0x90 else 0x80) (if a = 0xF4 then 0x8F else 0xBF) b \<and>
             byte_in 0x80 0xBF c \<and> byte_in 0x80 0xBF d \<and> utf8_valid r'
         | _ \<Rightarrow> False)
      else False)"

lemma utf8_valid_ascii: "\<forall>b \<in> set bs. b < 0x80 \<Longrightarrow> utf8_valid bs"
  by (induction bs) simp_all

text \<open>\<^verbatim>\<open>u8::is_ascii_hexdigit\<close> and \<^verbatim>\<open>to_ascii_lowercase\<close>.\<close>

definition is_hexdigit :: "byte \<Rightarrow> bool" where
  "is_hexdigit b \<longleftrightarrow> is_digit b \<or> byte_in 65 70 b \<or> byte_in 97 102 b"

definition ascii_lower :: "byte \<Rightarrow> byte" where
  "ascii_lower b = (if byte_in 65 90 b then b + 32 else b)"

subsection \<open>Lists\<close>

lemma fold_upt_update:
  assumes "n \<le> length xs"
  shows "fold (\<lambda>i ys. if P i then ys[i := f i (ys ! i)] else ys) [0..<n] xs =
    map (\<lambda>j. if j < n \<and> P j then f j (xs ! j) else xs ! j) [0..<length xs]"
  using assms
proof (induction n)
  case 0
  then show ?case by (simp add: map_nth)
next
  case (Suc n)
  let ?m = "map (\<lambda>j. if j < n \<and> P j then f j (xs ! j) else xs ! j) [0..<length xs]"
  have "fold (\<lambda>i ys. if P i then ys[i := f i (ys ! i)] else ys) [0..<Suc n] xs =
      (if P n then ?m[n := f n (?m ! n)] else ?m)"
    using Suc by simp
  also have "\<dots> = map (\<lambda>j. if j < Suc n \<and> P j then f j (xs ! j) else xs ! j) [0..<length xs]"
    using Suc.prems by (cases "P n") (auto intro!: nth_equalityI simp: nth_list_update less_Suc_eq)
  finally show ?case .
qed

lemma length_filter_remove1:
  assumes "distinct xs" "a \<in> set xs" "P a"
  shows "length (filter P xs) = Suc (length (filter (\<lambda>x. P x \<and> x \<noteq> a) xs))"
  using assms
proof (induction xs)
  case (Cons x xs)
  show ?case
  proof (cases "x = a")
    case True
    then have "filter (\<lambda>x. P x \<and> x \<noteq> a) xs = filter P xs" using Cons.prems by (intro filter_cong) auto
    then show ?thesis using True Cons.prems by simp
  next
    case False
    then show ?thesis using Cons by simp
  qed
qed simp

lemma sum_list_update_nat:
  fixes xs :: "nat list"
  shows "i < length xs \<Longrightarrow> sum_list (xs[i := v]) + xs ! i = sum_list xs + v"
  by (induction xs arbitrary: i) (auto split: nat.splits)

lemma length_concat_const: "\<forall>x \<in> set xss. length x = n \<Longrightarrow> length (concat xss) = n * length xss"
  by (induction xss) simp_all

text \<open>\<^verbatim>\<open>chunks_exact\<close>.\<close>

function chunks :: "nat \<Rightarrow> 'a list \<Rightarrow> 'a list list" where
  "chunks n xs = (if n = 0 \<or> length xs < n then [] else take n xs # chunks n (drop n xs))"
  by pat_completeness auto
termination
  by (relation "measure (\<lambda>(n, xs). length xs)") auto

declare chunks.simps [simp del]

lemma chunks_concat: "0 < n \<Longrightarrow> \<forall>x \<in> set xss. length x = n \<Longrightarrow> chunks n (concat xss) = xss"
  by (induction xss) (simp_all add: chunks.simps [of n])

lemma chunks_length: "x \<in> set (chunks n xs) \<Longrightarrow> length x = n"
proof (induction n xs rule: chunks.induct)
  case (1 n xs)
  then show ?case by (subst (asm) chunks.simps) (auto split: if_splits)
qed

lemma concat_chunks: "0 < n \<Longrightarrow> n dvd length xs \<Longrightarrow> concat (chunks n xs) = xs"
proof (induction n xs rule: chunks.induct)
  case (1 n xs)
  show ?case
  proof (cases "length xs < n")
    case True
    then have "length xs = 0" using "1.prems" by (metis dvd_imp_le not_le gr_zeroI)
    then show ?thesis using True by (simp add: chunks.simps [of n])
  next
    case False
    then have "concat (chunks n (drop n xs)) = drop n xs" using 1 by (simp add: dvd_minus_self)
    then show ?thesis using False "1.prems" by (simp add: chunks.simps [of n xs])
  qed
qed

lemma length_chunks: "0 < n \<Longrightarrow> length (chunks n xs) = length xs div n"
proof (induction n xs rule: chunks.induct)
  case (1 n xs)
  show ?case
  proof (cases "length xs < n")
    case False
    then have "length (chunks n (drop n xs)) = (length xs - n) div n" using 1 by simp
    then show ?thesis using False "1.prems" by (simp add: chunks.simps [of n xs] le_div_geq)
  qed (simp add: chunks.simps [of n])
qed

subsection \<open>Ordered maps\<close>

text \<open>A \<^verbatim>\<open>BTreeMap\<close> is its entries in ascending key order; iteration follows that order.\<close>

type_synonym ('k, 'v) btree = "('k \<times> 'v) list"

definition bt_wf :: "('k::linorder, 'v) btree \<Rightarrow> bool" where
  "bt_wf m \<longleftrightarrow> sorted_wrt (<) (map fst m)"

fun bt_insert :: "'k::linorder \<Rightarrow> 'v \<Rightarrow> ('k, 'v) btree \<Rightarrow> ('k, 'v) btree" where
  "bt_insert k v [] = [(k, v)]"
| "bt_insert k v ((k', v') # m) =
     (if k < k' then (k, v) # (k', v') # m
      else if k = k' then (k, v) # m
      else (k', v') # bt_insert k v m)"

abbreviation bt_get :: "('k, 'v) btree \<Rightarrow> 'k \<Rightarrow> 'v option" where
  "bt_get m k \<equiv> map_of m k"

lemma bt_wf_Nil [simp]: "bt_wf []"
  by (simp add: bt_wf_def)

lemma bt_wf_Cons [simp]: "bt_wf ((k, v) # m) \<longleftrightarrow> (\<forall>k' \<in> fst ` set m. k < k') \<and> bt_wf m"
  by (auto simp: bt_wf_def)

lemma bt_keys_insert [simp]: "fst ` set (bt_insert k v m) = insert k (fst ` set m)"
  by (induction k v m rule: bt_insert.induct) (simp_all add: insert_commute)

lemma bt_wf_insert [simp]: "bt_wf m \<Longrightarrow> bt_wf (bt_insert k v m)"
proof (induction m)
  case (Cons e m)
  then show ?case by (cases e) (force simp: not_less)
qed simp

lemma bt_get_insert [simp]:
  "bt_get (bt_insert k v m) k' = (if k' = k then Some v else bt_get m k')"
  by (induction m) auto

lemma bt_wf_distinct: "bt_wf m \<Longrightarrow> distinct (map fst m)"
  unfolding bt_wf_def using strict_sorted_iff by blast

lemma bt_unique:
  assumes "bt_wf m1" "bt_wf m2" "mset m1 = mset m2"
  shows "m1 = m2"
proof -
  have d: "distinct (map fst m1)" "distinct (map fst m2)"
    and s: "sorted (map fst m1)" "sorted (map fst m2)"
    using assms(1,2) by (auto simp: bt_wf_def strict_sorted_iff)
  have eq: "set m1 = set m2" using assms(3) by (rule mset_eq_setD)
  then have "inj_on fst (set m1 \<union> set m2)" using d by (simp add: distinct_map)
  then show ?thesis using d s eq by (intro map_sorted_distinct_set_unique)
qed

lemma bt_insert_last:
  "(\<forall>k' \<in> fst ` set m. k' < k) \<Longrightarrow> bt_insert k v m = m @ [(k, v)]"
  by (induction m) (auto simp: not_less)

lemma bt_insert_mset:
  "bt_get m k = None \<Longrightarrow> mset (bt_insert k v m) = add_mset (k, v) (mset m)"
  by (induction m) (auto split: if_splits)

definition bt_remove :: "'k \<Rightarrow> ('k, 'v) btree \<Rightarrow> ('k, 'v) btree" where
  "bt_remove k m = filter (\<lambda>e. fst e \<noteq> k) m"

lemma bt_get_remove [simp]: "bt_get (bt_remove k m) k' = (if k' = k then None else bt_get m k')"
  by (induction m) (auto simp: bt_remove_def)

lemma bt_wf_remove [simp]: "bt_wf m \<Longrightarrow> bt_wf (bt_remove k m)"
  unfolding bt_remove_def by (induction m) auto

lemma set_bt_remove [simp]: "set (bt_remove k m) = {e \<in> set m. fst e \<noteq> k}"
  by (auto simp: bt_remove_def)

lemma set_bt_insert:
  "bt_wf m \<Longrightarrow> set (bt_insert k v m) = insert (k, v) {e \<in> set m. fst e \<noteq> k}"
  by (induction m) force+

lemma bt_get_in: "bt_wf m \<Longrightarrow> bt_get m k = Some v \<longleftrightarrow> (k, v) \<in> set m"
  using bt_wf_distinct by (metis map_of_eq_Some_iff)

subsection \<open>Hash maps and clocks\<close>

text \<open>A \<^verbatim>\<open>HashMap\<close> is an association list with distinct keys, in some order; an \<^verbatim>\<open>Instant\<close> and a
  \<^verbatim>\<open>Duration\<close> count nanoseconds.\<close>

type_synonym ('k, 'v) hashmap = "('k \<times> 'v) list"

definition hm_insert :: "'k \<Rightarrow> 'v \<Rightarrow> ('k, 'v) hashmap \<Rightarrow> ('k, 'v) hashmap" where
  "hm_insert k v m = AList.update k v m"

abbreviation hm_remove :: "'k \<Rightarrow> ('k, 'v) hashmap \<Rightarrow> ('k, 'v) hashmap" where
  "hm_remove k m \<equiv> bt_remove k m"

lemma hm_insert_keys [simp]: "fst ` set (hm_insert k v m) = insert k (fst ` set m)"
  by (simp add: hm_insert_def dom_update)

lemma map_of_hm_insert [simp]: "map_of (hm_insert k v m) k' = (if k' = k then Some v else map_of m k')"
  by (simp add: hm_insert_def update_conv')

lemma hm_insert_distinct: "distinct (map fst m) \<Longrightarrow> distinct (map fst (hm_insert k v m))"
  by (simp add: hm_insert_def distinct_update)

lemma hm_insert_length: "length (hm_insert k v m) = (if k \<in> fst ` set m then length m else Suc (length m))"
  by (induction m) (auto simp: hm_insert_def)

lemma hm_remove_distinct: "distinct (map fst m) \<Longrightarrow> distinct (map fst (hm_remove k m))"
  by (simp add: bt_remove_def distinct_map_filter)

lemma hm_remove_keys [simp]: "fst ` set (hm_remove k m) = fst ` set m - {k}"
  by (auto simp: bt_remove_def)

definition secs :: "nat \<Rightarrow> nat" where "secs n = n * 1000000000"

subsection \<open>Interfaces\<close>

text \<open>A codec: what the writer produces for an admissible value, the reader returns. It is
  canonical when the reader accepts nothing else.\<close>

locale codec =
  fixes enc :: "'a \<Rightarrow> 'b" and dec :: "'b \<Rightarrow> 'e + 'a" and ok :: "'a \<Rightarrow> bool"
  assumes dec_enc: "ok v \<Longrightarrow> dec (enc v) = Inr v"
begin

lemma enc_inj: "ok v \<Longrightarrow> ok w \<Longrightarrow> enc v = enc w \<longleftrightarrow> v = w"
  using dec_enc by (metis sum.inject(2))

lemma inj_on_enc: "inj_on enc (Collect ok)"
  using enc_inj by (auto simp: inj_on_def)

end

locale canonical_codec = codec +
  assumes dec_canonical: "dec b = Inr v \<Longrightarrow> ok v \<and> enc v = b"
begin

lemma dec_iff: "dec b = Inr v \<longleftrightarrow> ok v \<and> b = enc v"
  using dec_enc dec_canonical by blast

lemma bij_enc: "bij_betw enc (Collect ok) {b. \<exists>v. dec b = Inr v}"
  using inj_on_enc dec_iff by (auto simp: bij_betw_def image_def)

lemma dec_inj: "dec a = Inr v \<Longrightarrow> dec b = Inr v \<Longrightarrow> a = b"
  using dec_canonical by blast

end

text \<open>A self-delimiting codec: the reader finds the end of the value by itself, whatever bytes
  follow, as long as the whole buffer satisfies \<open>lim\<close>.\<close>

locale prefix_codec =
  fixes enc :: "'a \<Rightarrow> 'b list" and decp :: "'b list \<Rightarrow> 'e + ('a \<times> nat)"
    and ok :: "'a \<Rightarrow> bool" and lim :: "'b list \<Rightarrow> bool"
  assumes decp_enc: "ok v \<Longrightarrow> lim (enc v @ rest) \<Longrightarrow> decp (enc v @ rest) = Inr (v, length (enc v))"
begin

lemma prefix_free:
  assumes "ok v" "ok w" "lim (enc v @ r)" "enc v @ r = enc w @ s"
  shows "v = w" and "r = s"
proof -
  have "decp (enc v @ r) = Inr (v, length (enc v))" "decp (enc v @ r) = Inr (w, length (enc w))"
    using assms decp_enc by metis+
  then show "v = w" by simp
  then show "r = s" using assms(4) by simp
qed

end

text \<open>A transition system with an invariant: every reachable state satisfies it.\<close>

locale transition_system =
  fixes start :: "'s \<Rightarrow> bool" and step :: "'s \<Rightarrow> 's \<Rightarrow> bool" and inv :: "'s \<Rightarrow> bool"
  assumes inv_start: "start s \<Longrightarrow> inv s"
    and inv_step: "inv s \<Longrightarrow> step s s' \<Longrightarrow> inv s'"
begin

lemma inv_steps: "step\<^sup>*\<^sup>* s s' \<Longrightarrow> inv s \<Longrightarrow> inv s'"
  by (induction rule: rtranclp_induct) (auto intro: inv_step)

lemma inv_reachable: "start s \<Longrightarrow> step\<^sup>*\<^sup>* s s' \<Longrightarrow> inv s'"
  using inv_start inv_steps by blast

end

end
