(* ===== verification/Bencode.thy ===== *)
theory Bencode
  imports Prelude
begin

text \<open>
  The bencode codec (\<^verbatim>\<open>crates/clove-core/src/bencode.rs\<close>): the strict decoder with its
  depth limit, node budget, duplicate-key check and span of one wanted outer-level entry, and
  the canonical encoder. The decoder state is the record \<open>bdecoder\<close>; every method
  returns the error with its offset or the result with the new state.
\<close>

subsection \<open>Values, errors, decoder state\<close>

definition MAX_DEPTH :: nat where "MAX_DEPTH = 32"
definition MIN_NODE_BYTES :: nat where "MIN_NODE_BYTES = 2"

definition node_budget :: "nat \<Rightarrow> nat" where
  "node_budget input_len = input_len div MIN_NODE_BYTES"

datatype bvalue =
    BBytes bytes
  | BInt int
  | BList "bvalue list"
  | BDict "(bytes \<times> bvalue) list"

fun as_bytes :: "bvalue \<Rightarrow> bytes option" where
  "as_bytes (BBytes b) = Some b"
| "as_bytes _ = None"

definition as_str :: "bvalue \<Rightarrow> bytes option" where
  "as_str v = Option.bind (as_bytes v) (\<lambda>b. if utf8_valid b then Some b else None)"

fun as_int :: "bvalue \<Rightarrow> int option" where
  "as_int (BInt i) = Some i"
| "as_int _ = None"

fun as_list :: "bvalue \<Rightarrow> bvalue list option" where
  "as_list (BList l) = Some l"
| "as_list _ = None"

fun as_dict :: "bvalue \<Rightarrow> (bytes, bvalue) btree option" where
  "as_dict (BDict m) = Some m"
| "as_dict _ = None"

definition bget :: "bvalue \<Rightarrow> bytes \<Rightarrow> bvalue option" where
  "bget v key = (case as_dict v of Some m \<Rightarrow> bt_get m key | None \<Rightarrow> None)"

datatype bkind =
    Truncated | TrailingData | BadInt | BadLength | BadKey | TooDeep | BadValueStart | TooManyNodes

record berror =
  be_offset :: nat
  be_kind :: bkind

record bdecoder =
  d_input :: bytes
  d_pos :: nat
  d_nodes :: nat
  d_budget :: nat
  d_want :: bytes
  d_span :: "(nat \<times> nat) option"

definition decoder_new :: "bytes \<Rightarrow> bytes \<Rightarrow> bdecoder" where
  "decoder_new input want =
     \<lparr>d_input = input, d_pos = 0, d_nodes = 0, d_budget = node_budget (length input),
      d_want = want, d_span = None\<rparr>"

definition derr :: "bdecoder \<Rightarrow> bkind \<Rightarrow> berror" where
  "derr d k = \<lparr>be_offset = d_pos d, be_kind = k\<rparr>"

definition peek :: "bdecoder \<Rightarrow> berror + byte" where
  "peek d = (if d_pos d < length (d_input d) then Inr (d_input d ! d_pos d)
             else Inl (derr d Truncated))"

abbreviation advance :: "nat \<Rightarrow> bdecoder \<Rightarrow> bdecoder" where
  "advance n d \<equiv> d\<lparr>d_pos := d_pos d + n\<rparr>"

subsection \<open>Integers and byte strings\<close>

text \<open>The digit loop of \<^verbatim>\<open>Decoder::int\<close> accumulates negatively, so that the least
  64-bit integer is read without overflow.\<close>

function int_loop :: "nat \<Rightarrow> bdecoder \<Rightarrow> int \<Rightarrow> berror + (bdecoder \<times> int)" where
  "int_loop start d n =
     (case peek d of
        Inl e \<Rightarrow> Inl e
      | Inr b \<Rightarrow>
          if b = 101 then Inr (d, n)
          else if \<not> is_digit b then Inl \<lparr>be_offset = start, be_kind = BadInt\<rparr>
          else (case Option.bind (checked_i64 (n * 10)) (\<lambda>v. checked_i64 (v - int (digit_val b))) of
                  None \<Rightarrow> Inl \<lparr>be_offset = start, be_kind = BadInt\<rparr>
                | Some n' \<Rightarrow> int_loop start (advance 1 d) n'))"
  by pat_completeness auto
termination
  by (relation "measure (\<lambda>(start, d, n). length (d_input d) - d_pos d)")
    (auto simp: peek_def split: if_splits)

definition parse_int :: "bdecoder \<Rightarrow> berror + (int \<times> bdecoder)" where
  "parse_int d =
     (let start = d_pos d; d1 = advance 1 d in
      case peek d1 of
        Inl e \<Rightarrow> Inl e
      | Inr c \<Rightarrow>
          (let negative = (c = 45);
               d2 = (if negative then advance 1 d1 else d1);
               digits_start = d_pos d2 in
           case int_loop start d2 0 of
             Inl e \<Rightarrow> Inl e
           | Inr (d3, n) \<Rightarrow>
               (let ndigits = d_pos d3 - digits_start;
                    bad = (ndigits = 0 \<or> (ndigits > 1 \<and> d_input d3 ! digits_start = 48)
                           \<or> (negative \<and> n = 0)) in
                if bad then Inl \<lparr>be_offset = start, be_kind = BadInt\<rparr>
                else let d4 = advance 1 d3 in
                  if negative then Inr (n, d4)
                  else (case checked_i64 (- n) of
                          None \<Rightarrow> Inl \<lparr>be_offset = start, be_kind = BadInt\<rparr>
                        | Some m \<Rightarrow> Inr (m, d4)))))"

function len_loop :: "nat \<Rightarrow> bdecoder \<Rightarrow> nat \<Rightarrow> nat \<Rightarrow> berror + (bdecoder \<times> nat \<times> nat)" where
  "len_loop start d len ndigits =
     (case peek d of
        Inl e \<Rightarrow> Inl e
      | Inr b \<Rightarrow>
          if b = 58 then Inr (d, len, ndigits)
          else if \<not> is_digit b then Inl \<lparr>be_offset = start, be_kind = BadLength\<rparr>
          else (case Option.bind (checked_usize (len * 10)) (\<lambda>v. checked_usize (v + digit_val b)) of
                  None \<Rightarrow> Inl \<lparr>be_offset = start, be_kind = BadLength\<rparr>
                | Some len' \<Rightarrow> len_loop start (advance 1 d) len' (ndigits + 1)))"
  by pat_completeness auto
termination
  by (relation "measure (\<lambda>(start, d, len, ndigits). length (d_input d) - d_pos d)")
    (auto simp: peek_def split: if_splits)

declare int_loop.simps [simp del] len_loop.simps [simp del]

definition bytes_span :: "bdecoder \<Rightarrow> berror + ((nat \<times> nat) \<times> bdecoder)" where
  "bytes_span d =
     (let start = d_pos d in
      case len_loop start d 0 0 of
        Inl e \<Rightarrow> Inl e
      | Inr (d1, len, ndigits) \<Rightarrow>
          if ndigits = 0 \<or> (ndigits > 1 \<and> d_input d1 ! start = 48)
          then Inl \<lparr>be_offset = start, be_kind = BadLength\<rparr>
          else let d2 = advance 1 d1 in
            (case checked_usize (d_pos d2 + len) of
               Some e \<Rightarrow> if e \<le> length (d_input d2) then Inr ((d_pos d2, e), d2\<lparr>d_pos := e\<rparr>)
                         else Inl (derr d2 Truncated)
             | None \<Rightarrow> Inl (derr d2 Truncated)))"

definition parse_bytes :: "bdecoder \<Rightarrow> berror + (bytes \<times> bdecoder)" where
  "parse_bytes d =
     (case bytes_span d of Inl e \<Rightarrow> Inl e | Inr (r, d') \<Rightarrow> Inr (byte_range r (d_input d'), d'))"

subsection \<open>Nodes\<close>

text \<open>
  The loops of \<^verbatim>\<open>Decoder::node\<close> over list items and dictionary entries. \<open>rec\<close> is
  the recursive \<^verbatim>\<open>value(depth + 1)\<close>. The first argument counts the bytes left: every
  round consumes at least one, and with none left the loop's own peek reports the
  truncation. \<open>list_loop_unfold\<close> and \<open>dict_loop_unfold\<close> below show that the counter
  never decides anything else.
\<close>

type_synonym 'a bparser = "bdecoder \<Rightarrow> berror + ('a \<times> bdecoder)"

fun list_loop :: "bvalue bparser \<Rightarrow> nat \<Rightarrow> bvalue list \<Rightarrow> bvalue bparser" where
  "list_loop rec 0 items d = Inl (derr d Truncated)"
| "list_loop rec (Suc n) items d =
     (case peek d of
        Inl e \<Rightarrow> Inl e
      | Inr b \<Rightarrow>
          if b = 101 then Inr (BList items, advance 1 d)
          else (case rec d of
                  Inl e \<Rightarrow> Inl e
                | Inr (v, d') \<Rightarrow> list_loop rec n (items @ [v]) d'))"

fun dict_loop :: "bvalue bparser \<Rightarrow> bool \<Rightarrow> nat \<Rightarrow> (bytes, bvalue) btree \<Rightarrow> bvalue bparser" where
  "dict_loop rec outer 0 m d = Inl (derr d Truncated)"
| "dict_loop rec outer (Suc n) m d =
     (case peek d of
        Inl e \<Rightarrow> Inl e
      | Inr b \<Rightarrow>
          if b = 101 then Inr (BDict m, advance 1 d)
          else let key_offset = d_pos d in
            if \<not> is_digit b then Inl \<lparr>be_offset = key_offset, be_kind = BadKey\<rparr>
            else (case parse_bytes d of
                    Inl e \<Rightarrow> Inl e
                  | Inr (key, d1) \<Rightarrow>
                      (case rec d1 of
                         Inl e \<Rightarrow> Inl e
                       | Inr (val, d2) \<Rightarrow>
                           (let d3 = (if outer \<and> key = d_want d2
                                      then d2\<lparr>d_span := Some (d_pos d1, d_pos d2)\<rparr> else d2) in
                            if bt_get m key \<noteq> None
                            then Inl \<lparr>be_offset = key_offset, be_kind = BadKey\<rparr>
                            else dict_loop rec outer n (bt_insert key val m) d3))))"

definition remaining :: "bdecoder \<Rightarrow> nat" where
  "remaining d = length (d_input d) - d_pos d"

definition node :: "bvalue bparser \<Rightarrow> bool \<Rightarrow> bvalue bparser" where
  "node rec outer d =
     (case peek d of
        Inl e \<Rightarrow> Inl e
      | Inr b \<Rightarrow>
          if b = 105 then
            (case parse_int d of Inl e \<Rightarrow> Inl e | Inr (i, d') \<Rightarrow> Inr (BInt i, d'))
          else if is_digit b then
            (case parse_bytes d of Inl e \<Rightarrow> Inl e | Inr (s, d') \<Rightarrow> Inr (BBytes s, d'))
          else if b = 108 then (let d1 = advance 1 d in list_loop rec (remaining d1) [] d1)
          else if b = 100 then (let d1 = advance 1 d in dict_loop rec outer (remaining d1) [] d1)
          else Inl (derr d BadValueStart))"

text \<open>\<^verbatim>\<open>Decoder::value(depth)\<close>, with the levels left \<open>MAX_DEPTH - depth\<close> as the
  structural argument; \<open>value_unfold\<close> below restates it over the depth.\<close>

fun value_left :: "nat \<Rightarrow> bvalue bparser" where
  "value_left 0 d = Inl (derr d TooDeep)"
| "value_left (Suc k) d =
     (case node (value_left k) (Suc k = MAX_DEPTH) d of
        Inl e \<Rightarrow> Inl e
      | Inr (v, d1) \<Rightarrow>
          (let d2 = d1\<lparr>d_nodes := d_nodes d1 + 1\<rparr> in
           if d_nodes d2 > d_budget d2 then Inl (derr d2 TooManyNodes) else Inr (v, d2)))"

definition dec_value :: "nat \<Rightarrow> bvalue bparser" where
  "dec_value depth d = value_left (MAX_DEPTH - depth) d"

subsection \<open>Entry points\<close>

definition decode_with_entry :: "bytes \<Rightarrow> bytes \<Rightarrow> berror + (bvalue \<times> (nat \<times> nat) option)" where
  "decode_with_entry input key =
     (case dec_value 0 (decoder_new input key) of
        Inl e \<Rightarrow> Inl e
      | Inr (v, d) \<Rightarrow> if d_pos d = length input then Inr (v, d_span d) else Inl (derr d TrailingData))"

definition decode :: "bytes \<Rightarrow> berror + bvalue" where
  "decode input = map_sum id fst (decode_with_entry input [])"

definition decode_prefix :: "bytes \<Rightarrow> berror + (bvalue \<times> nat)" where
  "decode_prefix input =
     (case dec_value 0 (decoder_new input []) of Inl e \<Rightarrow> Inl e | Inr (v, d) \<Rightarrow> Inr (v, d_pos d))"

definition raw_entry :: "bytes \<Rightarrow> bytes \<Rightarrow> berror + (nat \<times> nat) option" where
  "raw_entry input key = map_sum id snd (decode_with_entry input key)"

subsection \<open>Encoder\<close>

definition put_bytes :: "bytes \<Rightarrow> bytes" where
  "put_bytes b = dec_digits (length b) @ 58 # b"

fun encode :: "bvalue \<Rightarrow> bytes" where
  "encode (BBytes b) = put_bytes b"
| "encode (BInt i) = 105 # dec_int i @ [101]"
| "encode (BList items) = 108 # concat (map encode items) @ [101]"
| "encode (BDict m) = 100 # concat (map (\<lambda>(k, v). put_bytes k @ encode v) m) @ [101]"


lemma put_bytes_bound: "length (put_bytes b) \<le> 2 * length b + 2"
  using dec_digits_length [of "length b"] by (simp add: put_bytes_def)

subsection \<open>What the input holds at the decoder's position\<close>

definition reads :: "bdecoder \<Rightarrow> bytes \<Rightarrow> bool" where
  "reads d bs \<longleftrightarrow> take (length bs) (drop (d_pos d) (d_input d)) = bs"

lemma reads_Nil [simp]: "reads d []"
  by (simp add: reads_def)

lemma reads_Cons:
  "reads d (b # bs) \<longleftrightarrow>
     d_pos d < length (d_input d) \<and> d_input d ! d_pos d = b \<and> reads (advance 1 d) bs"
proof (cases "d_pos d < length (d_input d)")
  case True
  then have "drop (d_pos d) (d_input d) = d_input d ! d_pos d # drop (Suc (d_pos d)) (d_input d)"
    by (rule Cons_nth_drop_Suc [symmetric])
  then show ?thesis using True by (simp add: reads_def)
qed (simp add: reads_def)

lemma reads_append:
  "reads d (xs @ ys) \<longleftrightarrow> reads d xs \<and> reads (advance (length xs) d) ys"
proof (induction xs arbitrary: d)
  case (Cons x xs)
  show ?case
    by (simp add: reads_Cons Cons.IH)
qed simp

lemma reads_length: "reads d bs \<Longrightarrow> d_pos d \<le> length (d_input d) \<Longrightarrow>
    d_pos d + length bs \<le> length (d_input d)"
  unfolding reads_def by (metis add.commute add_le_cancel_left drop_drop length_drop
      le_add_diff_inverse length_take min.cobounded1 nle_le)

lemma reads_slice: "reads d bs \<Longrightarrow> byte_range (d_pos d, d_pos d + length bs) (d_input d) = bs"
  by (simp add: reads_def byte_range_def)

lemma reads_cong:
  "d_input d = d_input d' \<Longrightarrow> d_pos d = d_pos d' \<Longrightarrow> reads d bs = reads d' bs"
  by (simp add: reads_def)

lemma peek_Inr: "peek d = Inr b \<longleftrightarrow> reads d [b]"
  by (auto simp: peek_def reads_Cons)

lemma peek_reads: "reads d (b # bs) \<Longrightarrow> peek d = Inr b"
  by (simp add: peek_def reads_Cons)

lemma advance_advance [simp]: "advance m (advance n d) = advance (n + m) d"
  by simp

subsection \<open>Integers and byte strings, exactly\<close>

lemma in_i64_neg_mono: "b \<le> a \<Longrightarrow> in_i64 (- int a) \<Longrightarrow> in_i64 (- int b)"
  by (auto simp: in_i64_def i64_min_def i64_max_def)

lemma int_loop_digit:
  assumes "peek d = Inr b" "b \<noteq> 101" "int_loop start d (- int a) = Inr r"
  shows "is_digit b" and "in_i64 (- int (10 * a + digit_val b))"
    and "int_loop start (advance 1 d) (- int (10 * a + digit_val b)) = Inr r"
proof -
  let ?r = "Option.bind (checked_i64 (- int a * 10)) (\<lambda>v. checked_i64 (v - int (digit_val b)))"
  have eq: "int_loop start d (- int a) =
      (if \<not> is_digit b then Inl \<lparr>be_offset = start, be_kind = BadInt\<rparr>
       else case ?r of None \<Rightarrow> Inl \<lparr>be_offset = start, be_kind = BadInt\<rparr>
            | Some n' \<Rightarrow> int_loop start (advance 1 d) n')"
    using assms(1,2) by (simp add: int_loop.simps [of start d "- int a"])
  from eq assms(3) show "is_digit b" by (simp split: if_splits)
  from eq assms(3) obtain n where n: "?r = Some n" and l: "int_loop start (advance 1 d) n = Inr r"
    by (auto split: if_splits option.splits)
  from n have "n = - int (10 * a + digit_val b)" and "in_i64 n"
    by (auto simp: checked_i64_def split: Option.bind_splits if_splits)
  then show "in_i64 (- int (10 * a + digit_val b))"
    and "int_loop start (advance 1 d) (- int (10 * a + digit_val b)) = Inr r"
    using l by simp_all
qed

lemma int_loop_sound:
  "int_loop start d (- int a) = Inr (d', m) \<Longrightarrow>
     \<exists>ds. (\<forall>b \<in> set ds. is_digit b) \<and> d' = advance (length ds) d \<and> reads d (ds @ [101]) \<and>
          m = - int (digits_val a ds) \<and> (ds \<noteq> [] \<longrightarrow> in_i64 m)"
proof (induction "remaining d" arbitrary: a d rule: less_induct)
  case less
  obtain b where b: "peek d = Inr b"
    using less.prems by (cases "peek d") (simp_all add: int_loop.simps [of start d "- int a"])
  show ?case
  proof (cases "b = 101")
    case True
    then have "d' = d \<and> m = - int a"
      using less.prems b by (simp add: int_loop.simps [of start d "- int a"])
    then show ?thesis using b True by (intro exI [of _ "[]"]) (simp add: peek_Inr)
  next
    case False
    let ?a = "10 * a + digit_val b"
    note step = int_loop_digit [OF b False less.prems]
    have "remaining (advance 1 d) < remaining d"
      using b by (auto simp: remaining_def peek_def split: if_splits)
    from less.hyps [OF this step(3)] obtain ds where ds: "\<forall>b \<in> set ds. is_digit b"
        "d' = advance (length ds) (advance 1 d)" "reads (advance 1 d) (ds @ [101])"
        "m = - int (digits_val ?a ds)" "ds \<noteq> [] \<longrightarrow> in_i64 m"
      by blast
    have "in_i64 m" using ds(4,5) step(2) by (cases "ds = []") auto
    then show ?thesis
      using ds step(1) b by (intro exI [of _ "b # ds"]) (auto simp: peek_Inr reads_Cons)
  qed
qed

lemma int_loop_complete:
  "\<forall>b \<in> set ds. is_digit b \<Longrightarrow> reads d (ds @ [101]) \<Longrightarrow> in_i64 (- int (digits_val a ds)) \<Longrightarrow>
     int_loop start d (- int a) = Inr (advance (length ds) d, - int (digits_val a ds))"
proof (induction ds arbitrary: a d)
  case Nil
  then show ?case by (subst int_loop.simps) (simp add: peek_reads)
next
  case (Cons b ds)
  let ?a = "10 * a + digit_val b"
  have b: "peek d = Inr b" "b \<noteq> 101" "is_digit b"
    using Cons.prems by (auto simp: peek_reads)
  have ok: "in_i64 (- int ?a)"
    using Cons.prems(3) unfolding digits_val_Cons by (rule in_i64_neg_mono [OF digits_val_mono])
  then have ok': "in_i64 (- int (10 * a))"
    by (rule in_i64_neg_mono [rotated]) simp
  have "int_loop start (advance 1 d) (- int ?a)
        = Inr (advance (length ds) (advance 1 d), - int (digits_val ?a ds))"
    using Cons.prems by (intro Cons.IH) (auto simp: reads_Cons)
  moreover have "- int a * 10 = - int (10 * a)" "- int a * 10 - int (digit_val b) = - int ?a"
    by simp_all
  ultimately show ?case
    using b ok ok' by (subst int_loop.simps) (simp add: checked_i64_def mult.commute)
qed

lemma parse_int_eq:
  assumes c: "peek (advance 1 d) = Inr c" and d2: "d2 = (if c = 45 then advance 2 d else advance 1 d)"
    and loop: "int_loop (d_pos d) d2 0 = Inr (advance (length ds) d2, n)" and r: "reads d2 (ds @ [101])"
  shows "parse_int d =
    (if ds = [] \<or> (1 < length ds \<and> hd ds = 48) \<or> (c = 45 \<and> n = 0)
     then Inl \<lparr>be_offset = d_pos d, be_kind = BadInt\<rparr>
     else if c = 45 then Inr (n, advance (length ds + 1) d2)
     else case checked_i64 (- n) of None \<Rightarrow> Inl \<lparr>be_offset = d_pos d, be_kind = BadInt\<rparr>
          | Some m \<Rightarrow> Inr (m, advance (length ds + 1) d2))"
proof -
  have hd: "d_input d2 ! d_pos d2 = hd ds" if "ds \<noteq> []"
    using r that by (cases ds) (auto simp: reads_Cons)
  show ?thesis
  proof (cases "c = 45")
    case True
    then show ?thesis
      using c loop hd unfolding d2 by (cases "ds = []") (simp_all add: parse_int_def Let_def)
  next
    case False
    then show ?thesis
      using c loop hd unfolding d2
      by (cases "ds = []") (simp_all add: parse_int_def Let_def split: option.split)
  qed
qed

lemma parse_int_sound:
  assumes "reads d [105]" and ok: "parse_int d = Inr (i, d')"
  shows "in_i64 i" and "reads d (encode (BInt i))" and "d' = advance (length (encode (BInt i))) d"
proof -
  obtain c where c: "peek (advance 1 d) = Inr c"
    using ok by (cases "peek (advance 1 d)") (simp_all add: parse_int_def Let_def)
  define d2 where d2: "d2 = (if c = 45 then advance 2 d else advance 1 d)"
  obtain d3 n where loop: "int_loop (d_pos d) d2 0 = Inr (d3, n)"
  proof (cases "int_loop (d_pos d) d2 0")
    case (Inl e)
    then have "parse_int d = Inl e"
      using c unfolding d2 by (cases "c = 45") (simp_all add: parse_int_def Let_def)
    then show ?thesis using ok by simp
  qed (auto intro: that)
  then have "int_loop (d_pos d) d2 (- int 0) = Inr (d3, n)" by simp
  from int_loop_sound [OF this] obtain ds where ds: "\<forall>b \<in> set ds. is_digit b"
      "d3 = advance (length ds) d2" "reads d2 (ds @ [101])" "n = - int (digits_val 0 ds)"
      "ds \<noteq> [] \<longrightarrow> in_i64 n"
    by blast
  note eq = parse_int_eq [OF c d2 loop [unfolded ds(2)] ds(3)]
  have "\<not> (ds = [] \<or> (1 < length ds \<and> hd ds = 48) \<or> (c = 45 \<and> n = 0))"
    (is "\<not> ?bad")
  proof
    assume ?bad
    then have "parse_int d = Inl \<lparr>be_offset = d_pos d, be_kind = BadInt\<rparr>"
      unfolding eq by (rule if_P)
    then show False using ok by simp
  qed
  then have good: "ds \<noteq> []" "hd ds = 48 \<longrightarrow> length ds = 1" and neg: "c = 45 \<longrightarrow> n \<noteq> 0"
    by (blast, metis One_nat_def length_0_conv less_one linorder_neqE_nat, blast)
  have digits: "dec_digits (digits_val 0 ds) = ds"
    by (rule dec_digits_digits_val [OF ds(1) good])
  have dec: "dec_int i = (if c = 45 then 45 # ds else ds) \<and> in_i64 i \<and> d' = advance (length ds + 1) d2"
    using ok good neg ds(4,5) digits unfolding eq
    by (cases "c = 45") (auto simp: dec_int_def checked_i64_def split: if_splits)
  then show "in_i64 i" by simp
  show "reads d (encode (BInt i))"
    using dec assms(1) c ds(3) d2 by (cases "c = 45") (auto simp: reads_Cons peek_Inr)
  show "d' = advance (length (encode (BInt i))) d"
    using dec d2 by (cases "c = 45") auto
qed

lemma parse_int_complete:
  assumes r: "reads d (encode (BInt i))" and i: "in_i64 i"
  shows "parse_int d = Inr (i, advance (length (encode (BInt i))) d)"
proof -
  define ds where "ds = dec_digits (nat \<bar>i\<bar>)"
  define d2 where "d2 = (if i < 0 then advance 2 d else advance 1 d)"
  have dec: "dec_int i = (if i < 0 then 45 # ds else ds)" by (simp add: dec_int_def ds_def)
  have r2: "reads d2 (ds @ [101])"
    using r dec by (cases "i < 0") (auto simp: d2_def reads_Cons)
  have dig: "\<forall>b \<in> set ds. is_digit b" and ne: "ds \<noteq> []"
    unfolding ds_def by (auto dest: dec_digits_is_digit)
  have v: "digits_val 0 ds = nat \<bar>i\<bar>" by (simp add: ds_def)
  have "int_loop (d_pos d) d2 (- int 0) = Inr (advance (length ds) d2, - int (digits_val 0 ds))"
    using r2 dig i by (intro int_loop_complete) (auto simp: v in_i64_def i64_min_def i64_max_def)
  then have loop: "int_loop (d_pos d) d2 0 = Inr (advance (length ds) d2, - \<bar>i\<bar>)" by (simp add: v)
  have "peek (advance 1 d) = Inr (hd (dec_int i))"
    using r ne unfolding encode.simps
    by (cases "dec_int i") (auto simp: dec reads_Cons peek_def split: if_splits)
  moreover have "hd (dec_int i) = 45 \<longleftrightarrow> i < 0"
    using ne dig by (cases ds) (auto simp: dec)
  ultimately obtain c where c: "peek (advance 1 d) = Inr c" "c = 45 \<longleftrightarrow> i < 0" by blast
  have "hd ds = 48 \<longrightarrow> length ds = 1 \<and> i = 0"
    using dec_digits_hd_zero [of "nat \<bar>i\<bar>"] unfolding ds_def by (auto simp: dec_digits.simps [of 0])
  moreover have "d2 = (if c = 45 then advance 2 d else advance 1 d)" using c(2) by (simp add: d2_def)
  ultimately show ?thesis
    using parse_int_eq [OF c(1) _ loop r2] c(2) ne i by (auto simp: dec d2_def checked_i64_def)
qed

lemma len_loop_digit:
  assumes "peek d = Inr b" "b \<noteq> 58" "len_loop start d a nd = Inr r"
  shows "is_digit b" and "10 * a + digit_val b \<le> usize_max"
    and "len_loop start (advance 1 d) (10 * a + digit_val b) (nd + 1) = Inr r"
proof -
  let ?r = "Option.bind (checked_usize (a * 10)) (\<lambda>v. checked_usize (v + digit_val b))"
  have eq: "len_loop start d a nd =
      (if \<not> is_digit b then Inl \<lparr>be_offset = start, be_kind = BadLength\<rparr>
       else case ?r of None \<Rightarrow> Inl \<lparr>be_offset = start, be_kind = BadLength\<rparr>
            | Some n' \<Rightarrow> len_loop start (advance 1 d) n' (nd + 1))"
    using assms(1,2) by (simp add: len_loop.simps [of start d a])
  from eq assms(3) show "is_digit b" by (simp split: if_splits)
  from eq assms(3) obtain n where n: "?r = Some n"
      and l: "len_loop start (advance 1 d) n (nd + 1) = Inr r"
    by (auto split: if_splits option.splits)
  from n have "n = 10 * a + digit_val b" and "n \<le> usize_max"
    by (auto simp: checked_usize_def split: Option.bind_splits if_splits)
  then show "10 * a + digit_val b \<le> usize_max"
    and "len_loop start (advance 1 d) (10 * a + digit_val b) (nd + 1) = Inr r"
    using l by simp_all
qed

lemma len_loop_sound:
  "len_loop start d a nd = Inr (d', len, nd') \<Longrightarrow>
     \<exists>ds. (\<forall>b \<in> set ds. is_digit b) \<and> d' = advance (length ds) d \<and> reads d (ds @ [58]) \<and>
          len = digits_val a ds \<and> nd' = nd + length ds"
proof (induction "remaining d" arbitrary: a nd d rule: less_induct)
  case less
  obtain b where b: "peek d = Inr b"
    using less.prems by (cases "peek d") (simp_all add: len_loop.simps [of start d a])
  show ?case
  proof (cases "b = 58")
    case True
    then have "d' = d \<and> len = a \<and> nd' = nd"
      using less.prems b by (simp add: len_loop.simps [of start d a])
    then show ?thesis using b True by (intro exI [of _ "[]"]) (simp add: peek_Inr)
  next
    case False
    note step = len_loop_digit [OF b False less.prems]
    have "remaining (advance 1 d) < remaining d"
      using b by (auto simp: remaining_def peek_def split: if_splits)
    from less.hyps [OF this step(3)] obtain ds where "\<forall>b \<in> set ds. is_digit b"
        "d' = advance (length ds) (advance 1 d)" "reads (advance 1 d) (ds @ [58])"
        "len = digits_val (10 * a + digit_val b) ds" "nd' = nd + 1 + length ds"
      by blast
    then show ?thesis
      using step(1) b by (intro exI [of _ "b # ds"]) (auto simp: peek_Inr reads_Cons)
  qed
qed

lemma len_loop_complete:
  "\<forall>b \<in> set ds. is_digit b \<Longrightarrow> reads d (ds @ [58]) \<Longrightarrow> digits_val a ds \<le> usize_max \<Longrightarrow>
     len_loop start d a nd = Inr (advance (length ds) d, digits_val a ds, nd + length ds)"
proof (induction ds arbitrary: a nd d)
  case Nil
  then show ?case by (subst len_loop.simps) (simp add: peek_reads)
next
  case (Cons b ds)
  let ?a = "10 * a + digit_val b"
  have b: "peek d = Inr b" "b \<noteq> 58" "is_digit b"
    using Cons.prems by (auto simp: peek_reads)
  have ok: "?a \<le> usize_max"
    using Cons.prems(3) digits_val_mono [of ?a ds] by simp
  have "len_loop start (advance 1 d) ?a (nd + 1)
        = Inr (advance (length ds) (advance 1 d), digits_val ?a ds, nd + 1 + length ds)"
    using Cons.prems by (intro Cons.IH) (auto simp: reads_Cons)
  then show ?case
    using b ok by (subst len_loop.simps) (simp add: checked_usize_def mult.commute)
qed

lemma parse_bytes_sound:
  assumes "parse_bytes d = Inr (s, d')"
  shows "reads d (put_bytes s)" and "d' = advance (length (put_bytes s)) d"
    and "d_pos d' \<le> length (d_input d)"
proof -
  obtain d1 len nd where loop: "len_loop (d_pos d) d 0 0 = Inr (d1, len, nd)"
    using assms by (auto simp: parse_bytes_def bytes_span_def Let_def split: sum.splits)
  from len_loop_sound [OF loop] obtain ds where ds: "\<forall>b \<in> set ds. is_digit b"
      "d1 = advance (length ds) d" "reads d (ds @ [58])" "len = digits_val 0 ds" "nd = length ds"
    by auto
  let ?d2 = "advance 1 d1"
  have hd: "ds \<noteq> [] \<Longrightarrow> d_input d ! d_pos d = hd ds"
    using ds(3) by (cases ds) (auto simp: reads_Cons)
  have good: "ds \<noteq> []" "\<not> (length ds > 1 \<and> d_input d ! d_pos d = 48)"
    and e: "d_pos ?d2 + len \<le> length (d_input d)"
    and s: "s = byte_range (d_pos ?d2, d_pos ?d2 + len) (d_input d)" "d' = ?d2\<lparr>d_pos := d_pos ?d2 + len\<rparr>"
    using assms loop ds(2,5)
    by (auto simp: parse_bytes_def bytes_span_def Let_def checked_usize_def split: if_splits)
  have "dec_digits len = ds"
    unfolding ds(4) using ds(1) good hd by (intro dec_digits_digits_val) (cases ds; auto)+
  moreover have "length s = len" using s(1) e by (simp add: byte_range_def)
  ultimately have ps: "put_bytes s = ds @ 58 # s" by (simp add: put_bytes_def)
  have "reads ?d2 s" using s(1) e ds(2) by (simp add: reads_def byte_range_def)
  then show "reads d (put_bytes s)"
    using ds(2,3) unfolding ps by (simp add: reads_append reads_Cons)
  show "d' = advance (length (put_bytes s)) d"
    using s(2) ds(2) \<open>length s = len\<close> unfolding ps by simp
  show "d_pos d' \<le> length (d_input d)" using s(2) e by simp
qed

lemma parse_bytes_complete:
  assumes "reads d (put_bytes s)" and "length (d_input d) \<le> usize_max"
  shows "parse_bytes d = Inr (s, advance (length (put_bytes s)) d)"
proof -
  let ?ds = "dec_digits (length s)"
  let ?d2 = "advance 1 (advance (length ?ds) d)"
  have r: "reads d (?ds @ [58])" "reads ?d2 s"
    using assms(1) by (auto simp: put_bytes_def reads_append reads_Cons)
  have pos: "d_pos ?d2 \<le> length (d_input d)" using r(1) by (auto simp: reads_append reads_Cons)
  then have e: "d_pos ?d2 + length s \<le> length (d_input d)" using reads_length [OF r(2)] by simp
  have loop: "len_loop (d_pos d) d 0 0 = Inr (advance (length ?ds) d, length s, length ?ds)"
    using r(1) e assms(2) by (subst len_loop_complete [of ?ds]) (auto dest: dec_digits_is_digit)
  obtain b bs where b: "?ds = b # bs" by (cases ?ds) auto
  have "d_input d ! d_pos d = hd ?ds" using r(1) b by (simp add: reads_Cons)
  moreover have "hd ?ds = 48 \<longrightarrow> length ?ds = 1"
    using dec_digits_hd_zero [of "length s"] by (auto simp: dec_digits.simps [of 0])
  moreover have "byte_range (d_pos ?d2, d_pos ?d2 + length s) (d_input d) = s"
    using r(2) reads_slice [of ?d2 s] by simp
  ultimately show ?thesis
    using loop e assms(2)
    by (auto simp: parse_bytes_def bytes_span_def Let_def checked_usize_def put_bytes_def)
qed

subsection \<open>The grammar the decoder accepts\<close>

text \<open>
  \<open>enc_of k v bs\<close>: \<open>bs\<close> is a bencoding of \<open>v\<close> that nests at most \<open>k\<close>
  levels. Integers are canonical and fit 64 bits, string lengths are canonical, dictionary
  keys are distinct and may come in any order. This is the specification the decoder is
  measured against.
\<close>

inductive enc_of :: "nat \<Rightarrow> bvalue \<Rightarrow> bytes \<Rightarrow> bool" where
  enc_int: "in_i64 i \<Longrightarrow> enc_of (Suc k) (BInt i) (105 # dec_int i @ [101])"
| enc_bytes: "enc_of (Suc k) (BBytes b) (put_bytes b)"
| enc_list: "list_all2 (enc_of k) vs bss \<Longrightarrow> enc_of (Suc k) (BList vs) (108 # concat bss @ [101])"
| enc_dict: "bt_wf m \<Longrightarrow> mset es = mset m \<Longrightarrow>
    list_all2 (\<lambda>e bs. enc_of k (snd e) bs) es bss \<Longrightarrow>
    enc_of (Suc k) (BDict m) (100 # concat (map2 (\<lambda>e bs. put_bytes (fst e) @ bs) es bss) @ [101])"
monos list_all2_mono

inductive_cases enc_of_IntE: "enc_of k (BInt i) bs"
inductive_cases enc_of_BytesE: "enc_of k (BBytes b) bs"
inductive_cases enc_of_ListE: "enc_of k (BList vs) bs"
inductive_cases enc_of_DictE: "enc_of k (BDict m) bs"
inductive_cases enc_of_0E: "enc_of 0 v bs"

fun count_nodes :: "bvalue \<Rightarrow> nat" where
  "count_nodes (BBytes b) = 1"
| "count_nodes (BInt i) = 1"
| "count_nodes (BList vs) = 1 + sum_list (map count_nodes vs)"
| "count_nodes (BDict m) = 1 + sum_list (map (\<lambda>e. count_nodes (snd e)) m)"

text \<open>Values the encoder may be given: 64-bit integers, ordered maps, at most \<open>k\<close> levels.\<close>

fun fits :: "nat \<Rightarrow> bvalue \<Rightarrow> bool" where
  "fits k (BInt i) = (0 < k \<and> in_i64 i)"
| "fits k (BBytes b) = (0 < k)"
| "fits k (BList vs) = (0 < k \<and> (\<forall>v \<in> set vs. fits (k - 1) v))"
| "fits k (BDict m) = (0 < k \<and> bt_wf m \<and> (\<forall>e \<in> set m. fits (k - 1) (snd e)))"

lemma put_bytes_length: "2 \<le> length (put_bytes b)"
  using dec_digits_nonempty [of "length b"] by (cases "dec_digits (length b)") (auto simp: put_bytes_def)

lemma put_bytes_hd: "\<exists>c cs. put_bytes b = c # cs \<and> is_digit c"
  using dec_digits_is_digit [of _ "length b"]
  by (cases "dec_digits (length b)") (auto simp: put_bytes_def)

lemma enc_of_mono: "enc_of k v bs \<Longrightarrow> k \<le> k' \<Longrightarrow> enc_of k' v bs"
proof (induction arbitrary: k' rule: enc_of.induct)
  case (enc_list k vs bss)
  then obtain j where j: "k' = Suc j" "k \<le> j" by (cases k') auto
  have "list_all2 (enc_of j) vs bss"
    using enc_list.IH by (rule list_all2_mono) (simp add: j)
  then show ?case unfolding j by (rule enc_of.enc_list)
next
  case (enc_dict m es k bss)
  then obtain j where j: "k' = Suc j" "k \<le> j" by (cases k') auto
  have "list_all2 (\<lambda>e. enc_of j (snd e)) es bss"
    using enc_dict.IH by (rule list_all2_mono) (simp add: j)
  then show ?case unfolding j using enc_dict.hyps by (intro enc_of.enc_dict)
qed (auto simp: Suc_le_D dest!: Suc_le_D intro: enc_of.intros)

text \<open>The structural induction the list and dictionary cases share.\<close>

lemma list_all2_sum_le:
  assumes "list_all2 (\<lambda>x y. (f x :: nat) \<le> g y) xs ys"
  shows "sum_list (map f xs) \<le> sum_list (map g ys)"
  using assms by (induction rule: list_all2_induct) auto

lemma sum_list_mset_cong:
  "mset xs = mset ys \<Longrightarrow> sum_list (map (f :: _ \<Rightarrow> nat) xs) = sum_list (map f ys)"
  by (metis mset_map sum_mset_sum_list)

lemma length_concat_map2:
  "length es = length bss \<Longrightarrow>
     length (concat (map2 (\<lambda>e bs. put_bytes (fst e) @ bs) es bss))
     = sum_list (map (\<lambda>e. length (put_bytes (fst e))) es) + sum_list (map length bss)"
  by (induction es bss rule: list_induct2) auto

lemma enc_of_count: "enc_of k v bs \<Longrightarrow> 2 * count_nodes v \<le> length bs"
proof (induction rule: enc_of.induct)
  case (enc_list k vs bss)
  have "list_all2 (\<lambda>v bs. 2 * count_nodes v \<le> length bs) vs bss"
    using enc_list.IH by (rule list_all2_mono) simp
  from list_all2_sum_le [OF this] show ?case
    by (simp add: length_concat sum_list_const_mult)
next
  case (enc_dict m es k bss)
  have "list_all2 (\<lambda>e bs. 2 * count_nodes (snd e) \<le> length bs) es bss"
    using enc_dict.IH by (rule list_all2_mono) simp
  from list_all2_sum_le [OF this]
  have "2 * sum_list (map (\<lambda>e. count_nodes (snd e)) es) \<le> sum_list (map length bss)"
    by (simp add: sum_list_const_mult)
  moreover have "sum_list (map (\<lambda>e. count_nodes (snd e)) m) = sum_list (map (\<lambda>e. count_nodes (snd e)) es)"
    using sum_list_mset_cong [OF enc_dict.hyps(2)] by metis
  moreover have "length es = length bss" using enc_dict.IH by (rule list_all2_lengthD)
  ultimately show ?case by (simp add: length_concat_map2)
qed (auto simp: put_bytes_length dec_int_def)

lemma enc_of_length: "enc_of k v bs \<Longrightarrow> length (encode v) = length bs"
proof (induction rule: enc_of.induct)
  case (enc_list k vs bss)
  have "list_all2 (\<lambda>v bs. length (encode v) = length bs) vs bss"
    using enc_list.IH by (rule list_all2_mono) simp
  then have "map (\<lambda>v. length (encode v)) vs = map length bss"
    by (induction rule: list_all2_induct) auto
  then show ?case by (simp add: length_concat comp_def)
next
  case (enc_dict m es k bss)
  let ?len = "\<lambda>e. length (put_bytes (fst e)) + length (encode (snd e))"
  have all: "list_all2 (\<lambda>e bs. length (encode (snd e)) = length bs) es bss"
    using enc_dict.IH by (rule list_all2_mono) simp
  then have "length (concat (map2 (\<lambda>e bs. put_bytes (fst e) @ bs) es bss)) = sum_list (map ?len es)"
    by (induction rule: list_all2_induct) auto
  also have "\<dots> = sum_list (map ?len m)"
    using sum_list_mset_cong [OF enc_dict.hyps(2)] by metis
  finally show ?case by (simp add: length_concat comp_def case_prod_unfold)
qed simp_all

lemma fits_enc_of: "fits k v \<Longrightarrow> enc_of k v (encode v)"
proof (induction v arbitrary: k)
  case (BList vs)
  obtain j where j: "k = Suc j" using BList.prems by (cases k) auto
  have "list_all2 (enc_of j) vs (map encode vs)"
    using BList j by (auto simp: list_all2_conv_all_nth)
  then show ?case unfolding j using enc_of.enc_list by simp
next
  case (BDict m)
  obtain j where j: "k = Suc j" using BDict.prems by (cases k) auto
  have "list_all2 (\<lambda>e. enc_of j (snd e)) m (map (\<lambda>e. encode (snd e)) m)"
    using BDict j by (auto simp: list_all2_conv_all_nth snds.simps)
  moreover have "map2 (\<lambda>e bs. put_bytes (fst e) @ bs) m (map (\<lambda>e. encode (snd e)) m)
      = map (\<lambda>(k, v). put_bytes k @ encode v) m"
    by (induction m) auto
  ultimately show ?case unfolding j
    using enc_of.enc_dict [of m m j "map (\<lambda>e. encode (snd e)) m"] BDict.prems by simp
next
  case (BBytes b)
  then show ?case by (cases k) (auto intro: enc_of.intros)
next
  case (BInt i)
  then show ?case by (cases k) (auto intro: enc_of.intros)
qed

lemma enc_of_fits: "enc_of k v bs \<Longrightarrow> fits k v"
proof (induction rule: enc_of.induct)
  case (enc_list k vs bss)
  then show ?case by (auto simp: list_all2_conv_all_nth in_set_conv_nth)
next
  case (enc_dict m es k bss)
  have "\<forall>i < length es. fits k (snd (es ! i))"
    using enc_dict.IH by (simp add: list_all2_conv_all_nth)
  then have "\<forall>e \<in> set es. fits k (snd e)" by (metis in_set_conv_nth)
  moreover have "set es = set m" using enc_dict.hyps(2) by (rule mset_eq_setD)
  ultimately show ?case using enc_dict.hyps(1) by simp
qed auto

subsection \<open>The decoder accepts only the grammar\<close>

definition same_frame :: "bdecoder \<Rightarrow> bdecoder \<Rightarrow> bool" where
  "same_frame d d' \<longleftrightarrow> d_input d' = d_input d \<and> d_budget d' = d_budget d \<and> d_want d' = d_want d"

definition sound_parser :: "nat \<Rightarrow> bvalue bparser \<Rightarrow> bool" where
  "sound_parser k p \<longleftrightarrow>
     (\<forall>d v d'. p d = Inr (v, d') \<longrightarrow> d_pos d \<le> length (d_input d) \<longrightarrow>
        (\<exists>bs. enc_of k v bs \<and> reads d bs \<and> d_pos d' = d_pos d + length bs \<and> same_frame d d' \<and>
              d_nodes d' = d_nodes d + count_nodes v \<and> d_span d' = d_span d))"

lemma sound_parserE:
  assumes "sound_parser k p" "p d = Inr (v, d')" "d_pos d \<le> length (d_input d)"
  obtains bs where "enc_of k v bs" "reads d bs" "d_pos d' = d_pos d + length bs"
    "same_frame d d'" "d_nodes d' = d_nodes d + count_nodes v" "d_span d' = d_span d"
    "d_pos d' \<le> length (d_input d')"
proof -
  from assms obtain bs where bs: "enc_of k v bs" "reads d bs" "d_pos d' = d_pos d + length bs"
    "same_frame d d'" "d_nodes d' = d_nodes d + count_nodes v" "d_span d' = d_span d"
    unfolding sound_parser_def by blast
  then show thesis
    using reads_length [OF bs(2) assms(3)] by (intro that) (auto simp: same_frame_def)
qed

lemma list_loop_sound:
  assumes "sound_parser k rec"
  shows "list_loop rec n items d = Inr (v, d') \<Longrightarrow> d_pos d \<le> length (d_input d) \<Longrightarrow>
     \<exists>vs bss. v = BList (items @ vs) \<and> list_all2 (enc_of k) vs bss \<and> reads d (concat bss @ [101]) \<and>
        d_pos d' = d_pos d + length (concat bss) + 1 \<and> same_frame d d' \<and>
        d_nodes d' = d_nodes d + sum_list (map count_nodes vs) \<and> d_span d' = d_span d"
proof (induction n arbitrary: items d)
  case (Suc n)
  obtain b where b: "peek d = Inr b"
    using Suc.prems(1) by (cases "peek d") simp_all
  show ?case
  proof (cases "b = 101")
    case True
    then show ?thesis
      using Suc.prems b by (intro exI [of _ "[]"]) (auto simp: peek_Inr same_frame_def)
  next
    case False
    then obtain w d1 where w: "rec d = Inr (w, d1)"
      and rest: "list_loop rec n (items @ [w]) d1 = Inr (v, d')"
      using Suc.prems(1) b by (cases "rec d") auto
    obtain bs where bs: "enc_of k w bs" "reads d bs" "d_pos d1 = d_pos d + length bs"
      "same_frame d d1" "d_nodes d1 = d_nodes d + count_nodes w" "d_span d1 = d_span d"
      "d_pos d1 \<le> length (d_input d1)"
      using sound_parserE [OF assms w Suc.prems(2)] by blast
    from Suc.IH [OF rest bs(7)] obtain vs bss where
      IH: "v = BList ((items @ [w]) @ vs)" "list_all2 (enc_of k) vs bss" "reads d1 (concat bss @ [101])"
        "d_pos d' = d_pos d1 + length (concat bss) + 1" "same_frame d1 d'"
        "d_nodes d' = d_nodes d1 + sum_list (map count_nodes vs)" "d_span d' = d_span d1"
      by blast
    have "reads (advance (length bs) d) (concat bss @ [101])"
      using IH(3) bs(3,4) reads_cong [of d1 "advance (length bs) d"] by (simp add: same_frame_def)
    then show ?thesis
      using IH bs
      by (intro exI [of _ "w # vs"] exI [of _ "bs # bss"]) (simp add: reads_append same_frame_def)
  qed
qed simp

text \<open>Where the wanted entry's bytes are recorded, and only at the outermost dictionary.\<close>

definition span_ok :: "nat \<Rightarrow> bdecoder \<Rightarrow> bvalue option \<Rightarrow> bdecoder \<Rightarrow> bool" where
  "span_ok k d w d' \<longleftrightarrow>
     (case w of
        None \<Rightarrow> d_span d' = d_span d
      | Some v \<Rightarrow> (\<exists>a b. d_span d' = Some (a, b) \<and> a \<le> b \<and> b \<le> length (d_input d) \<and>
                         enc_of k v (byte_range (a, b) (d_input d))))"

lemma span_ok_advance [simp]: "span_ok k (d\<lparr>d_pos := n\<rparr>) w d' = span_ok k d w d'"
  by (cases w) (simp_all add: span_ok_def)

definition dict_bytes :: "(bytes \<times> bvalue) list \<Rightarrow> bytes list \<Rightarrow> bytes" where
  "dict_bytes es bss = concat (map2 (\<lambda>e bs. put_bytes (fst e) @ bs) es bss)"

lemma dict_bytes_Nil [simp]: "dict_bytes [] bss = []"
  and dict_bytes_Cons [simp]:
    "dict_bytes (e # es) (bs # bss) = put_bytes (fst e) @ bs @ dict_bytes es bss"
  by (simp_all add: dict_bytes_def)

text \<open>One round of the dictionary loop, in terms of what it consumed.\<close>

lemma dict_round:
  assumes "sound_parser k rec" "dict_loop rec outer (Suc n) m d = Inr (v, d')"
    "d_pos d \<le> length (d_input d)" "peek d = Inr b" "b \<noteq> 101"
  obtains key w bs d2 where "bt_get m key = None" "enc_of k w bs" "reads d (put_bytes key @ bs)"
    "d_pos d2 = d_pos d + length (put_bytes key @ bs)" "same_frame d d2"
    "d_pos d2 \<le> length (d_input d2)" "d_nodes d2 = d_nodes d + count_nodes w"
    "d_span d2 = (if outer \<and> key = d_want d
                  then Some (d_pos d + length (put_bytes key), d_pos d2) else d_span d)"
    "dict_loop rec outer n (bt_insert key w m) d2 = Inr (v, d')"
proof -
  obtain key d1 where kb: "parse_bytes d = Inr (key, d1)"
    using assms(2,4,5) by (cases "parse_bytes d") (auto simp: Let_def split: if_splits)
  obtain w d2 where wd: "rec d1 = Inr (w, d2)"
    using assms(2,4,5) kb by (cases "rec d1") (auto simp: Let_def split: if_splits)
  let ?d3 = "if outer \<and> key = d_want d2 then d2\<lparr>d_span := Some (d_pos d1, d_pos d2)\<rparr> else d2"
  have res: "bt_get m key = None" "dict_loop rec outer n (bt_insert key w m) ?d3 = Inr (v, d')"
    using assms(2,4,5) kb wd by (auto simp: Let_def split: if_splits)
  note k = parse_bytes_sound [OF kb]
  have "d_pos d1 \<le> length (d_input d1)" using k by simp
  from sound_parserE [OF assms(1) wd this] obtain bs where bs: "enc_of k w bs" "reads d1 bs"
      "d_pos d2 = d_pos d1 + length bs" "same_frame d1 d2" "d_nodes d2 = d_nodes d1 + count_nodes w"
      "d_span d2 = d_span d1" "d_pos d2 \<le> length (d_input d2)"
    by blast
  show thesis
    using k bs res by (intro that [of key w bs ?d3]) (auto simp: same_frame_def reads_append)
qed

lemma dict_loop_sound:
  assumes "sound_parser k rec"
  shows "dict_loop rec outer n m d = Inr (v, d') \<Longrightarrow> d_pos d \<le> length (d_input d) \<Longrightarrow> bt_wf m \<Longrightarrow>
     \<exists>m' es bss. v = BDict m' \<and> bt_wf m' \<and> mset m' = mset m + mset es \<and>
        list_all2 (\<lambda>e. enc_of k (snd e)) es bss \<and> reads d (dict_bytes es bss @ [101]) \<and>
        d_pos d' = d_pos d + length (dict_bytes es bss) + 1 \<and> same_frame d d' \<and>
        d_nodes d' = d_nodes d + sum_list (map (\<lambda>e. count_nodes (snd e)) es) \<and>
        span_ok k d (if outer then map_of es (d_want d) else None) d'"
proof (induction n arbitrary: m d)
  case (Suc n)
  obtain b where b: "peek d = Inr b"
    using Suc.prems(1) by (cases "peek d") simp_all
  show ?case
  proof (cases "b = 101")
    case True
    then show ?thesis
      using Suc.prems b
      by (rule_tac exI [of _ m], rule_tac exI [of _ "[]"], rule_tac exI [of _ "[]"])
        (auto simp: peek_Inr same_frame_def span_ok_def)
  next
    case False
    from dict_round [OF assms Suc.prems(1,2) b False] obtain key w bs d2 where
      r: "bt_get m key = None" "enc_of k w bs" "reads d (put_bytes key @ bs)"
        "d_pos d2 = d_pos d + length (put_bytes key @ bs)" "same_frame d d2"
        "d_pos d2 \<le> length (d_input d2)" "d_nodes d2 = d_nodes d + count_nodes w"
        "d_span d2 = (if outer \<and> key = d_want d
                      then Some (d_pos d + length (put_bytes key), d_pos d2) else d_span d)"
        "dict_loop rec outer n (bt_insert key w m) d2 = Inr (v, d')"
      by metis
    from Suc.IH [OF r(9,6)] Suc.prems(3) obtain m' es bss where
      IH: "v = BDict m'" "bt_wf m'" "mset m' = mset (bt_insert key w m) + mset es"
        "list_all2 (\<lambda>e. enc_of k (snd e)) es bss" "reads d2 (dict_bytes es bss @ [101])"
        "d_pos d' = d_pos d2 + length (dict_bytes es bss) + 1" "same_frame d2 d'"
        "d_nodes d' = d_nodes d2 + sum_list (map (\<lambda>e. count_nodes (snd e)) es)"
        "span_ok k d2 (if outer then map_of es (d_want d2) else None) d'"
      by auto
    have ms: "mset m' = mset m + mset ((key, w) # es)"
      using IH(3) bt_insert_mset [OF r(1)] by simp
    have "mset (map fst m') = mset (map fst m) + add_mset key (mset (map fst es))"
      using ms by (metis mset.simps(2) mset_append mset_map map_append list.simps(9) fst_conv)
    moreover have "distinct (map fst m')" using IH(2) by (rule bt_wf_distinct)
    ultimately have fresh: "map_of es key = None"
      by (metis distinct_append distinct.simps(2) mset.simps(2) mset_append mset_eq_imp_distinct_iff
          map_of_eq_None_iff list.set_map)
    have rd: "reads (advance (length (put_bytes key @ bs)) d) (dict_bytes es bss @ [101])"
      using IH(5) r(4,5) reads_cong [of d2 "advance (length (put_bytes key @ bs)) d"]
      by (simp add: same_frame_def)
    have "reads (advance (length (put_bytes key)) d) bs" using r(3) by (simp add: reads_append)
    then have sl: "byte_range (d_pos d + length (put_bytes key), d_pos d2) (d_input d) = bs"
      using reads_slice [of "advance (length (put_bytes key)) d" bs] r(4) by (simp add: add.assoc)
    have sp: "span_ok k d (if outer then map_of ((key, w) # es) (d_want d) else None) d'"
      using IH(9) r(2,4,5,6,8) fresh sl
      by (cases outer; cases "key = d_want d") (auto simp: span_ok_def same_frame_def split: option.splits)
    show ?thesis
      using IH(1,2,4,6-8) r(2,3,4,5,7) ms rd sp
      by (rule_tac exI [of _ m'], rule_tac exI [of _ "(key, w) # es"], rule_tac exI [of _ "bs # bss"])
        (simp add: reads_append same_frame_def add.assoc)
  qed
qed simp

lemma node_eqs:
  "reads d (105 # bs) \<Longrightarrow> node rec outer d =
     (case parse_int d of Inl e \<Rightarrow> Inl e | Inr (i, d') \<Rightarrow> Inr (BInt i, d'))"
  "reads d (b # bs) \<Longrightarrow> is_digit b \<Longrightarrow> node rec outer d =
     (case parse_bytes d of Inl e \<Rightarrow> Inl e | Inr (s, d') \<Rightarrow> Inr (BBytes s, d'))"
  "reads d (108 # bs) \<Longrightarrow> node rec outer d = list_loop rec (remaining (advance 1 d)) [] (advance 1 d)"
  "reads d (100 # bs) \<Longrightarrow> node rec outer d = dict_loop rec outer (remaining (advance 1 d)) [] (advance 1 d)"
  using is_digit_i by (auto simp: node_def peek_reads Let_def)

lemma node_sound:
  assumes rec: "sound_parser k rec" and ok: "node rec outer d = Inr (v, d')"
    and pos: "d_pos d \<le> length (d_input d)"
  shows "\<exists>bs. enc_of (Suc k) v bs \<and> reads d bs \<and> d_pos d' = d_pos d + length bs \<and> same_frame d d' \<and>
     d_nodes d' + 1 = d_nodes d + count_nodes v \<and>
     span_ok k d (if outer then bget v (d_want d) else None) d'"
proof -
  obtain b where b: "peek d = Inr b"
    using ok by (cases "peek d") (simp_all add: node_def)
  then have r1: "reads d [b]" by (simp add: peek_Inr)
  then have pos1: "d_pos (advance 1 d) \<le> length (d_input (advance 1 d))" by (simp add: reads_Cons)
  consider (int) "b = 105" | (str) "is_digit b" | (lst) "b = 108" | (dict) "b = 100"
    using ok b by (fastforce simp: node_def split: if_splits)
  then show ?thesis
  proof cases
    case int
    then obtain i where i: "parse_int d = Inr (i, d')" "v = BInt i"
      using ok r1 by (cases "parse_int d") (auto simp: node_eqs)
    from parse_int_sound [OF r1 [unfolded int] i(1)] show ?thesis
      using i(2) enc_of.enc_int [of i k]
      by (intro exI [of _ "encode (BInt i)"]) (auto simp: same_frame_def span_ok_def bget_def)
  next
    case str
    then obtain s where s: "parse_bytes d = Inr (s, d')" "v = BBytes s"
      using ok node_eqs(2) [OF r1 str] by (cases "parse_bytes d") auto
    from parse_bytes_sound [OF s(1)] show ?thesis
      using s(2) enc_of.enc_bytes [of k s]
      by (intro exI [of _ "put_bytes s"]) (auto simp: same_frame_def span_ok_def bget_def)
  next
    case lst
    then have l: "list_loop rec (remaining (advance 1 d)) [] (advance 1 d) = Inr (v, d')"
      using ok r1 by (simp add: node_eqs)
    from list_loop_sound [OF rec l pos1] obtain vs bss where
      h: "v = BList vs" "list_all2 (enc_of k) vs bss" "reads (advance 1 d) (concat bss @ [101])"
        "d_pos d' = d_pos d + 1 + length (concat bss) + 1" "same_frame (advance 1 d) d'"
        "d_nodes d' = d_nodes d + sum_list (map count_nodes vs)" "d_span d' = d_span d"
      by auto
    then show ?thesis
      using r1 lst enc_of.enc_list [OF h(2)]
      by (intro exI [of _ "108 # concat bss @ [101]"])
        (auto simp: reads_Cons same_frame_def span_ok_def bget_def)
  next
    case dict
    then have l: "dict_loop rec outer (remaining (advance 1 d)) [] (advance 1 d) = Inr (v, d')"
      using ok r1 by (simp add: node_eqs)
    from dict_loop_sound [OF rec l pos1] obtain m es bss where
      h: "v = BDict m" "bt_wf m" "mset m = mset es" "list_all2 (\<lambda>e. enc_of k (snd e)) es bss"
        "reads (advance 1 d) (dict_bytes es bss @ [101])"
        "d_pos d' = d_pos d + 1 + length (dict_bytes es bss) + 1" "same_frame (advance 1 d) d'"
        "d_nodes d' = d_nodes d + sum_list (map (\<lambda>e. count_nodes (snd e)) es)"
        "span_ok k (advance 1 d) (if outer then map_of es (d_want (advance 1 d)) else None) d'"
      by auto
    have "distinct (map fst es)"
      using bt_wf_distinct [OF h(2)] h(3) by (metis mset_eq_imp_distinct_iff mset_map)
    then have "map_of es = map_of m"
      using bt_wf_distinct [OF h(2)] mset_eq_setD [OF h(3)] by (simp add: map_of_inject_set)
    then show ?thesis
      using h r1 dict enc_of.enc_dict [OF h(2) h(3) [symmetric] h(4)]
        sum_list_mset_cong [OF h(3), of "\<lambda>e. count_nodes (snd e)"]
      by (intro exI [of _ "100 # dict_bytes es bss @ [101]"])
        (auto simp: reads_Cons same_frame_def bget_def dict_bytes_def)
  qed
qed

lemma value_sound: "k < MAX_DEPTH \<Longrightarrow> sound_parser k (value_left k)"
proof (induction k)
  case 0
  then show ?case by (simp add: sound_parser_def)
next
  case (Suc k)
  then have IH: "sound_parser k (value_left k)" by simp
  show ?case
    unfolding sound_parser_def
  proof (intro allI impI)
    fix d v d'
    assume ok: "value_left (Suc k) d = Inr (v, d')" and pos: "d_pos d \<le> length (d_input d)"
    from ok obtain d1 where d1: "node (value_left k) False d = Inr (v, d1)"
        "d' = d1\<lparr>d_nodes := d_nodes d1 + 1\<rparr>"
      using Suc.prems by (auto simp: Let_def split: sum.splits if_splits)
    from node_sound [OF IH d1(1) pos] show "\<exists>bs. enc_of (Suc k) v bs \<and> reads d bs \<and>
        d_pos d' = d_pos d + length bs \<and> same_frame d d' \<and>
        d_nodes d' = d_nodes d + count_nodes v \<and> d_span d' = d_span d"
      using d1(2) by (auto simp: same_frame_def span_ok_def)
  qed
qed

lemma value_top_sound:
  assumes ok: "value_left MAX_DEPTH d = Inr (v, d')" and pos: "d_pos d \<le> length (d_input d)"
  shows "\<exists>bs. enc_of MAX_DEPTH v bs \<and> reads d bs \<and> d_pos d' = d_pos d + length bs \<and> same_frame d d' \<and>
     d_nodes d' = d_nodes d + count_nodes v \<and> span_ok (MAX_DEPTH - 1) d (bget v (d_want d)) d'"
proof -
  have M: "MAX_DEPTH = Suc 31" by (simp add: MAX_DEPTH_def)
  have sound: "sound_parser 31 (value_left 31)" by (rule value_sound) (simp add: MAX_DEPTH_def)
  from ok obtain d1 where d1: "node (value_left 31) True d = Inr (v, d1)"
      "d' = d1\<lparr>d_nodes := d_nodes d1 + 1\<rparr>"
    unfolding M value_left.simps by (auto simp: M Let_def split: sum.splits if_splits)
  from node_sound [OF sound d1(1) pos] show ?thesis
    using d1(2) by (auto simp: M same_frame_def span_ok_def split: option.splits)
qed

subsection \<open>The decoder accepts all of the grammar\<close>

definition room :: "nat \<Rightarrow> bdecoder \<Rightarrow> bool" where
  "room n d \<longleftrightarrow> d_pos d \<le> length (d_input d) \<and> length (d_input d) \<le> usize_max \<and>
     d_nodes d + n \<le> d_budget d"

definition complete_parser :: "nat \<Rightarrow> bvalue bparser \<Rightarrow> bool" where
  "complete_parser k p \<longleftrightarrow>
     (\<forall>d v bs. enc_of k v bs \<longrightarrow> reads d bs \<longrightarrow> room (count_nodes v) d \<longrightarrow> (\<exists>d'. p d = Inr (v, d')))"

text \<open>A parser that is sound and complete consumes exactly the encoding it is given.\<close>

lemma parser_step:
  assumes "sound_parser k p" "complete_parser k p" "enc_of k v bs" "reads d bs"
    "room (count_nodes v + n) d"
  obtains d' where "p d = Inr (v, d')" "d_pos d' = d_pos d + length bs" "same_frame d d'"
    "d_nodes d' = d_nodes d + count_nodes v" "room n d'"
    "\<And>cs. reads (advance (length bs) d) cs \<Longrightarrow> reads d' cs"
proof -
  have "room (count_nodes v) d" and pos: "d_pos d \<le> length (d_input d)"
    using assms(5) by (auto simp: room_def)
  then obtain d' where d': "p d = Inr (v, d')" using assms(2-4) unfolding complete_parser_def by blast
  from sound_parserE [OF assms(1) d' pos] obtain bs' where bs': "enc_of k v bs'"
      "d_pos d' = d_pos d + length bs'" "same_frame d d'" "d_nodes d' = d_nodes d + count_nodes v"
      "d_pos d' \<le> length (d_input d')"
    by blast
  have "length bs' = length bs"
    using enc_of_length [OF bs'(1)] enc_of_length [OF assms(3)] by simp
  then show thesis
    using d' bs' assms(5) reads_cong [of d' "advance (length bs) d"]
    by (intro that [of d']) (auto simp: room_def same_frame_def)
qed

lemma enc_of_hd:
  assumes "enc_of k v bs"
  shows "\<exists>c cs. bs = c # cs \<and> c \<noteq> 101"
  using assms
proof (cases rule: enc_of.cases)
  case (enc_bytes k' b)
  then show ?thesis using put_bytes_hd [of b] is_digit_e by metis
qed auto

lemma list_loop_complete:
  assumes "sound_parser k rec" "complete_parser k rec"
  shows "list_all2 (enc_of k) vs bss \<Longrightarrow> reads d (concat bss @ [101]) \<Longrightarrow>
     room (sum_list (map count_nodes vs)) d \<Longrightarrow> length vs < n \<Longrightarrow>
     \<exists>d'. list_loop rec n items d = Inr (BList (items @ vs), d')"
proof (induction vs arbitrary: bss d n items)
  case Nil
  then obtain n' where "n = Suc n'" by (cases n) auto
  then show ?case using Nil by (simp add: peek_reads)
next
  case (Cons v vs)
  from Cons.prems(1) obtain bs bss' where bs: "bss = bs # bss'" "enc_of k v bs" "list_all2 (enc_of k) vs bss'"
    by (auto simp: list_all2_Cons1)
  obtain n' where n: "n = Suc n'" "length vs < n'" using Cons.prems(4) by (cases n) auto
  have r: "reads d bs" "reads (advance (length bs) d) (concat bss' @ [101])"
    using Cons.prems(2) bs(1) by (auto simp: reads_append)
  obtain c cs where c: "bs = c # cs" "c \<noteq> 101" using enc_of_hd [OF bs(2)] by blast
  have "room (count_nodes v + sum_list (map count_nodes vs)) d" using Cons.prems(3) by simp
  from parser_step [OF assms bs(2) r(1) this] obtain d1 where d1: "rec d = Inr (v, d1)"
      "room (sum_list (map count_nodes vs)) d1"
      "\<And>cs. reads (advance (length bs) d) cs \<Longrightarrow> reads d1 cs"
    by metis
  from Cons.IH [OF bs(3) d1(3) [OF r(2)] d1(2) n(2), of "items @ [v]"] show ?case
    using n(1) d1(1) r(1) c by (simp add: peek_reads)
qed

definition bt_inserts :: "(bytes, bvalue) btree \<Rightarrow> (bytes \<times> bvalue) list \<Rightarrow> (bytes, bvalue) btree" where
  "bt_inserts m es = foldl (\<lambda>m e. bt_insert (fst e) (snd e) m) m es"

lemma bt_inserts_wf_mset:
  "bt_wf m \<Longrightarrow> distinct (map fst es) \<Longrightarrow> fst ` set es \<inter> fst ` set m = {} \<Longrightarrow>
     bt_wf (bt_inserts m es) \<and> mset (bt_inserts m es) = mset m + mset es"
proof (induction es arbitrary: m)
  case (Cons e es)
  have "bt_get m (fst e) = None" using Cons.prems(3) by (auto simp: map_of_eq_None_iff)
  then have "mset (bt_insert (fst e) (snd e) m) = add_mset e (mset m)"
    by (simp add: bt_insert_mset)
  then show ?case
    using Cons.IH [of "bt_insert (fst e) (snd e) m"] Cons.prems by (auto simp: bt_inserts_def)
qed (simp add: bt_inserts_def)

lemma dict_loop_complete:
  assumes "sound_parser k rec" "complete_parser k rec"
  shows "list_all2 (\<lambda>e. enc_of k (snd e)) es bss \<Longrightarrow> reads d (dict_bytes es bss @ [101]) \<Longrightarrow>
     room (sum_list (map (\<lambda>e. count_nodes (snd e)) es)) d \<Longrightarrow> length es < n \<Longrightarrow>
     distinct (map fst es) \<Longrightarrow> fst ` set es \<inter> fst ` set m = {} \<Longrightarrow>
     \<exists>d'. dict_loop rec outer n m d = Inr (BDict (bt_inserts m es), d')"
proof (induction es arbitrary: bss d n m)
  case Nil
  then obtain n' where "n = Suc n'" by (cases n) auto
  then show ?case using Nil by (simp add: peek_reads bt_inserts_def)
next
  case (Cons e es)
  from Cons.prems(1) obtain bs bss' where
    bs: "bss = bs # bss'" "enc_of k (snd e) bs" "list_all2 (\<lambda>e. enc_of k (snd e)) es bss'"
    by (auto simp: list_all2_Cons1)
  obtain n' where n: "n = Suc n'" "length es < n'" using Cons.prems(4) by (cases n) auto
  let ?d1 = "advance (length (put_bytes (fst e))) d"
  let ?n = "sum_list (map (\<lambda>e. count_nodes (snd e)) es)"
  have r: "reads d (put_bytes (fst e))" "reads ?d1 bs"
      "reads (advance (length bs) ?d1) (dict_bytes es bss' @ [101])"
    using Cons.prems(2) bs(1) by (auto simp: reads_append)
  obtain c cs where c: "put_bytes (fst e) = c # cs" "is_digit c" using put_bytes_hd by blast
  have usz: "length (d_input d) \<le> usize_max" using Cons.prems(3) by (simp add: room_def)
  have key: "parse_bytes d = Inr (fst e, ?d1)" by (rule parse_bytes_complete [OF r(1) usz])
  have "room (count_nodes (snd e) + ?n) ?d1"
    using Cons.prems(3) parse_bytes_sound(3) [OF key] by (simp add: room_def)
  from parser_step [OF assms bs(2) r(2) this] obtain d2 where
    d2: "rec ?d1 = Inr (snd e, d2)" "room ?n d2"
      "\<And>cs. reads (advance (length bs) ?d1) cs \<Longrightarrow> reads d2 cs"
    by metis
  let ?d3 = "if outer \<and> fst e = d_want d2 then d2\<lparr>d_span := Some (d_pos ?d1, d_pos d2)\<rparr> else d2"
  have "reads ?d3 (dict_bytes es bss' @ [101])" "room ?n ?d3"
    using d2(2) d2(3) [OF r(3)] reads_cong [of ?d3 d2] by (simp_all add: room_def)
  from Cons.IH [OF bs(3) this n(2), of "bt_insert (fst e) (snd e) m"] Cons.prems(5,6)
  obtain d' where "dict_loop rec outer n' (bt_insert (fst e) (snd e) m) ?d3
      = Inr (BDict (bt_inserts (bt_insert (fst e) (snd e) m) es), d')"
    by auto
  moreover have "bt_get m (fst e) = None" using Cons.prems(6) by (auto simp: map_of_eq_None_iff)
  moreover have "peek d = Inr c" "c \<noteq> 101" using c r(1) by (auto simp: peek_reads)
  ultimately show ?case
    using n(1) key d2(1) c(2) by (auto simp: Let_def bt_inserts_def split: if_splits)
qed

lemma enc_list_length: "list_all2 (enc_of k) vs bss \<Longrightarrow> length vs \<le> length (concat bss)"
  by (induction rule: list_all2_induct) (auto dest: enc_of_hd)

lemma enc_dict_length:
  "list_all2 (\<lambda>e. enc_of k (snd e)) es bss \<Longrightarrow> length es \<le> length (dict_bytes es bss)"
  by (induction rule: list_all2_induct) (auto dest: enc_of_hd)

lemma reads_remaining: "reads d bs \<Longrightarrow> length bs \<le> remaining d"
  unfolding reads_def remaining_def by (metis length_drop length_take min.cobounded1)

lemma node_complete:
  assumes sc: "sound_parser k rec" "complete_parser k rec" and enc: "enc_of (Suc k) v bs"
    and r: "reads d bs" and room: "room (count_nodes v) d"
  shows "\<exists>d'. node rec outer d = Inr (v, d')"
  using enc
proof (cases rule: enc_of.cases)
  case (enc_int i)
  then show ?thesis using r parse_int_complete [of d i] by (simp add: node_eqs)
next
  case (enc_bytes b)
  obtain c cs where c: "put_bytes b = c # cs" "is_digit c" using put_bytes_hd by blast
  have "parse_bytes d = Inr (b, advance (length (put_bytes b)) d)"
    using r room enc_bytes by (intro parse_bytes_complete) (simp_all add: room_def)
  then show ?thesis using r enc_bytes c node_eqs(2) [of d c cs rec outer] by simp
next
  case (enc_list vs bss)
  let ?d1 = "advance 1 d"
  have r1: "reads ?d1 (concat bss @ [101])" using r enc_list by (simp add: reads_Cons)
  have "room (sum_list (map count_nodes vs)) ?d1"
    using room r enc_list by (auto simp: room_def reads_Cons)
  moreover have "length vs < remaining ?d1"
    using reads_remaining [OF r1] enc_list_length [of k vs bss] enc_list by simp
  ultimately show ?thesis
    using list_loop_complete [OF sc, of vs bss ?d1 "remaining ?d1" "[]"] r1 r enc_list
    by (simp add: node_eqs)
next
  case (enc_dict m es bss)
  let ?d1 = "advance 1 d"
  have r1: "reads ?d1 (dict_bytes es bss @ [101])"
    using r enc_dict by (simp add: reads_Cons dict_bytes_def)
  have cnt: "sum_list (map (\<lambda>e. count_nodes (snd e)) es) < count_nodes v"
    using sum_list_mset_cong [OF enc_dict(4), of "\<lambda>e. count_nodes (snd e)"] enc_dict(1) by simp
  then have rm: "room (sum_list (map (\<lambda>e. count_nodes (snd e)) es)) ?d1"
    using room r enc_dict by (auto simp: room_def reads_Cons)
  have len: "length es < remaining ?d1"
    using reads_remaining [OF r1] enc_dict_length [of k es bss] enc_dict by simp
  have dist: "distinct (map fst es)"
    using bt_wf_distinct [of m] enc_dict by (metis mset_eq_imp_distinct_iff mset_map)
  have "bt_inserts [] es = m"
    using bt_inserts_wf_mset [of "[]" es] dist enc_dict by (intro bt_unique) auto
  then show ?thesis
    using dict_loop_complete [OF sc _ r1 rm len dist, of "[]" outer] r enc_dict
    by (simp add: node_eqs)
qed

lemma value_complete: "k \<le> MAX_DEPTH \<Longrightarrow> complete_parser k (value_left k)"
proof (induction k)
  case 0
  then show ?case by (auto simp: complete_parser_def elim: enc_of_0E)
next
  case (Suc k)
  have sc: "sound_parser k (value_left k)" "complete_parser k (value_left k)"
    using Suc value_sound by auto
  show ?case
    unfolding complete_parser_def
  proof (intro allI impI)
    fix d v bs
    assume enc: "enc_of (Suc k) v bs" "reads d bs" "room (count_nodes v) d"
    then obtain d1 where d1: "node (value_left k) (Suc k = MAX_DEPTH) d = Inr (v, d1)"
      using node_complete [OF sc] by blast
    have "d_pos d \<le> length (d_input d)" using enc(3) by (simp add: room_def)
    from node_sound [OF sc(1) d1 this] have "d_nodes d1 + 1 = d_nodes d + count_nodes v"
        "d_budget d1 = d_budget d"
      by (auto simp: same_frame_def)
    then show "\<exists>d'. value_left (Suc k) d = Inr (v, d')"
      using d1 enc(3) by (simp add: room_def Let_def)
  qed
qed

subsection \<open>The node budget is never exceeded\<close>

definition paid :: "bdecoder \<Rightarrow> bool" where
  "paid d \<longleftrightarrow> 2 * d_nodes d \<le> d_pos d \<and> d_pos d \<le> length (d_input d) \<and>
     d_budget d = node_budget (length (d_input d))"

definition quiet_parser :: "bvalue bparser \<Rightarrow> bool" where
  "quiet_parser p \<longleftrightarrow> (\<forall>d e. p d = Inl e \<longrightarrow> paid d \<longrightarrow> be_kind e \<noteq> TooManyNodes)"

lemma peek_quiet: "peek d = Inl e \<Longrightarrow> be_kind e \<noteq> TooManyNodes"
  by (auto simp: peek_def derr_def split: if_splits)

lemma int_loop_quiet: "int_loop start d n = Inl e \<Longrightarrow> be_kind e \<noteq> TooManyNodes"
proof (induction start d n rule: int_loop.induct)
  case (1 start d n)
  show ?case
  proof (cases "peek d")
    case (Inl e')
    then show ?thesis using "1.prems" peek_quiet by (simp add: int_loop.simps [of start d n])
  next
    case (Inr b)
    then show ?thesis
      using "1.prems" "1.IH" [OF Inr]
      by (auto simp: int_loop.simps [of start d n] split: if_splits option.splits)
  qed
qed

lemma len_loop_quiet: "len_loop start d n nd = Inl e \<Longrightarrow> be_kind e \<noteq> TooManyNodes"
proof (induction start d n nd rule: len_loop.induct)
  case (1 start d n nd)
  show ?case
  proof (cases "peek d")
    case (Inl e')
    then show ?thesis using "1.prems" peek_quiet by (simp add: len_loop.simps [of start d n])
  next
    case (Inr b)
    then show ?thesis
      using "1.prems" "1.IH" [OF Inr]
      by (auto simp: len_loop.simps [of start d n] split: if_splits option.splits)
  qed
qed

lemma parse_int_quiet: "parse_int d = Inl e \<Longrightarrow> be_kind e \<noteq> TooManyNodes"
  by (auto simp: parse_int_def Let_def split: sum.splits prod.splits if_splits option.splits
      dest: peek_quiet int_loop_quiet)

lemma parse_bytes_quiet: "parse_bytes d = Inl e \<Longrightarrow> be_kind e \<noteq> TooManyNodes"
  by (auto simp: parse_bytes_def bytes_span_def Let_def derr_def
      split: sum.splits prod.splits if_splits option.splits dest: len_loop_quiet)

lemma paid_step:
  assumes "sound_parser k p" "p d = Inr (v, d')" "paid d"
  shows "paid d'"
proof -
  have "d_pos d \<le> length (d_input d)" using assms(3) by (simp add: paid_def)
  from sound_parserE [OF assms(1,2) this] obtain bs where "enc_of k v bs"
      "d_pos d' = d_pos d + length bs" "same_frame d d'" "d_nodes d' = d_nodes d + count_nodes v"
      "d_pos d' \<le> length (d_input d')"
    by blast
  then show ?thesis
    using assms(3) enc_of_count [of k v bs] by (simp add: paid_def same_frame_def)
qed

lemma list_loop_quiet:
  assumes "sound_parser k rec" "quiet_parser rec"
  shows "list_loop rec n items d = Inl e \<Longrightarrow> paid d \<Longrightarrow> be_kind e \<noteq> TooManyNodes"
proof (induction n arbitrary: items d)
  case (Suc n)
  show ?case
  proof (cases "rec d")
    case (Inl e')
    then show ?thesis
      using Suc.prems assms(2)
      by (auto simp: quiet_parser_def split: sum.splits if_splits dest: peek_quiet)
  next
    case (Inr r)
    then show ?thesis
      using Suc.prems Suc.IH paid_step [OF assms(1), of d "fst r" "snd r"]
      by (cases r) (auto split: sum.splits if_splits dest: peek_quiet)
  qed
qed (auto simp: derr_def)

lemma dict_loop_quiet:
  assumes "sound_parser k rec" "quiet_parser rec"
  shows "dict_loop rec outer n m d = Inl e \<Longrightarrow> paid d \<Longrightarrow> be_kind e \<noteq> TooManyNodes"
proof (induction n arbitrary: m d)
  case (Suc n)
  show ?case
  proof (cases "parse_bytes d")
    case (Inl e')
    then show ?thesis
      using Suc.prems
      by (auto simp: Let_def split: sum.splits if_splits dest: peek_quiet parse_bytes_quiet)
  next
    case (Inr r)
    obtain key d1 where r: "r = (key, d1)" by (cases r)
    have p1: "paid d1"
      using parse_bytes_sound [of d key d1] Inr r Suc.prems(2) by (simp add: paid_def)
    show ?thesis
    proof (cases "rec d1")
      case (Inl e')
      then show ?thesis
        using Suc.prems Inr r p1 assms(2)
        by (auto simp: Let_def quiet_parser_def split: sum.splits if_splits dest: peek_quiet)
    next
      case (Inr q)
      obtain w d2 where q: "q = (w, d2)" by (cases q)
      let ?d3 = "if outer \<and> key = d_want d2 then d2\<lparr>d_span := Some (d_pos d1, d_pos d2)\<rparr> else d2"
      have "paid ?d3" using paid_step [OF assms(1) _ p1, of w d2] Inr q by (simp add: paid_def)
      from Suc.IH [OF _ this] show ?thesis
        using Suc.prems(1) Inr q r \<open>parse_bytes d = Inr r\<close>
        by (auto simp: Let_def split: sum.splits if_splits dest: peek_quiet)
    qed
  qed
qed (auto simp: derr_def)

lemma value_quiet: "k \<le> MAX_DEPTH \<Longrightarrow> quiet_parser (value_left k)"
proof (induction k)
  case 0
  then show ?case by (simp add: quiet_parser_def derr_def)
next
  case (Suc k)
  have sq: "sound_parser k (value_left k)" "quiet_parser (value_left k)"
    using Suc value_sound by auto
  show ?case
    unfolding quiet_parser_def
  proof (intro allI impI)
    fix d e
    assume err: "value_left (Suc k) d = Inl e" and paid: "paid d"
    let ?node = "node (value_left k) (Suc k = MAX_DEPTH) d"
    have paid1: "paid (advance 1 d)" if "reads d [b]" for b
      using paid that by (simp add: paid_def reads_Cons)
    show "be_kind e \<noteq> TooManyNodes"
    proof (cases ?node)
      case (Inl e')
      have "be_kind e' \<noteq> TooManyNodes"
        using Inl [unfolded node_def] paid1 list_loop_quiet [OF sq] dict_loop_quiet [OF sq]
        by (auto simp: Let_def peek_Inr derr_def split: sum.splits if_splits
            dest: peek_quiet parse_int_quiet parse_bytes_quiet)
      then show ?thesis using err Inl by simp
    next
      case (Inr r)
      obtain v d1 where r: "r = (v, d1)" by (cases r)
      have pos: "d_pos d \<le> length (d_input d)" using paid by (simp add: paid_def)
      from node_sound [OF sq(1) Inr [unfolded r] pos] obtain bs where
        bs: "enc_of (Suc k) v bs" "reads d bs" "d_pos d1 = d_pos d + length bs" "same_frame d d1"
          "d_nodes d1 + 1 = d_nodes d + count_nodes v"
        by blast
      have "2 * (d_nodes d1 + 1) \<le> length (d_input d1)"
        using bs enc_of_count [OF bs(1)] paid reads_length [OF bs(2) pos]
        by (auto simp: paid_def same_frame_def)
      then have "d_nodes d1 + 1 \<le> d_budget d1"
        using paid bs(4) by (simp add: paid_def same_frame_def node_budget_def MIN_NODE_BYTES_def)
      then show ?thesis using err Inr r by (simp add: Let_def)
    qed
  qed
qed

subsection \<open>The source's recursion\<close>

lemma remaining_step:
  assumes "sound_parser k rec" "rec d = Inr (v, d')" "d_pos d \<le> length (d_input d)"
  shows "remaining d' < remaining d" "d_pos d' \<le> length (d_input d')"
proof -
  from sound_parserE [OF assms] obtain bs where "enc_of k v bs" "d_pos d' = d_pos d + length bs"
      "same_frame d d'" "d_pos d' \<le> length (d_input d')"
    by metis
  moreover have "0 < length bs" using enc_of_hd [OF \<open>enc_of k v bs\<close>] by auto
  ultimately have "d_pos d < d_pos d'" "d_input d' = d_input d" "d_pos d' \<le> length (d_input d')"
    by (auto simp: same_frame_def)
  then show "remaining d' < remaining d" "d_pos d' \<le> length (d_input d')"
    by (simp_all add: remaining_def diff_less_mono2)
qed

lemma list_loop_counter:
  assumes "sound_parser k rec"
  shows "remaining d \<le> n \<Longrightarrow> remaining d \<le> n' \<Longrightarrow> d_pos d \<le> length (d_input d) \<Longrightarrow>
    list_loop rec n items d = list_loop rec n' items d"
proof (induction n arbitrary: n' items d)
  case 0
  then have "peek d = Inl (derr d Truncated)" by (simp add: peek_def remaining_def)
  then show ?case by (cases n') simp_all
next
  case (Suc n)
  show ?case
  proof (cases n')
    case 0
    then have "peek d = Inl (derr d Truncated)" using Suc.prems by (simp add: peek_def remaining_def)
    then show ?thesis using 0 by simp
  next
    case (Suc j)
    have "list_loop rec n its d' = list_loop rec j its d'" if "rec d = Inr (v, d')" for v d' its
      using remaining_step [OF assms that Suc.prems(3)] Suc.prems Suc \<open>n' = Suc j\<close>
      by (intro Suc.IH) auto
    then show ?thesis using Suc by (auto split: sum.splits)
  qed
qed

text \<open>The loop over list items is the source's \<^verbatim>\<open>while\<close>, whatever the counter.\<close>

lemma list_loop_unfold:
  assumes "k < MAX_DEPTH" "d_pos d \<le> length (d_input d)"
  shows "list_loop (value_left k) (remaining d) items d =
     (case peek d of
        Inl e \<Rightarrow> Inl e
      | Inr b \<Rightarrow>
          if b = 101 then Inr (BList items, advance 1 d)
          else (case value_left k d of
                  Inl e \<Rightarrow> Inl e
                | Inr (v, d') \<Rightarrow> list_loop (value_left k) (remaining d') (items @ [v]) d'))"
proof -
  note sound = value_sound [OF assms(1)]
  have eq: "list_loop (value_left k) n its d' = list_loop (value_left k) (remaining d') its d'"
    if "value_left k d = Inr (v, d')" "remaining d = Suc n" for v d' n its
    using remaining_step [OF sound that(1) assms(2)] that(2)
    by (intro list_loop_counter [OF sound]) auto
  show ?thesis
  proof (cases "remaining d")
    case 0
    then have "peek d = Inl (derr d Truncated)" by (simp add: peek_def remaining_def)
    then show ?thesis using 0 by simp
  next
    case (Suc n)
    then show ?thesis using eq by (auto split: sum.splits)
  qed
qed

lemma dict_step:
  assumes "sound_parser k rec" "parse_bytes d = Inr (key, d1)" "rec d1 = Inr (v, d2)"
  shows "remaining d2 < remaining d" "d_pos d2 \<le> length (d_input d2)"
proof -
  note k = parse_bytes_sound [OF assms(2)]
  have "remaining d1 \<le> remaining d" "d_pos d1 \<le> length (d_input d1)"
    using k(2,3) by (simp_all add: remaining_def)
  then show "remaining d2 < remaining d" "d_pos d2 \<le> length (d_input d2)"
    using remaining_step [OF assms(1,3)] by simp_all
qed

lemma remaining_span [simp]: "remaining (d\<lparr>d_span := s\<rparr>) = remaining d"
  by (simp add: remaining_def)

lemma dict_loop_counter:
  assumes "sound_parser k rec"
  shows "remaining d \<le> n \<Longrightarrow> remaining d \<le> n' \<Longrightarrow> d_pos d \<le> length (d_input d) \<Longrightarrow>
    dict_loop rec outer n m d = dict_loop rec outer n' m d"
proof (induction n arbitrary: n' m d)
  case 0
  then have "peek d = Inl (derr d Truncated)" by (simp add: peek_def remaining_def)
  then show ?case by (cases n') simp_all
next
  case (Suc n)
  show ?case
  proof (cases n')
    case 0
    then have "peek d = Inl (derr d Truncated)" using Suc.prems by (simp add: peek_def remaining_def)
    then show ?thesis using 0 by simp
  next
    case (Suc j)
    have "dict_loop rec outer n m' d2 = dict_loop rec outer j m' d2"
        "dict_loop rec outer n m' (d2\<lparr>d_span := s\<rparr>) = dict_loop rec outer j m' (d2\<lparr>d_span := s\<rparr>)"
      if "parse_bytes d = Inr (key, d1)" "rec d1 = Inr (v, d2)" for key d1 v d2 m' s
      using dict_step [OF assms that] Suc.prems Suc \<open>n' = Suc j\<close> by (intro Suc.IH; simp)+
    then show ?thesis using Suc by (auto simp: Let_def split: sum.splits)
  qed
qed

text \<open>So is the loop over dictionary entries.\<close>

lemma dict_loop_unfold:
  assumes "k < MAX_DEPTH" "d_pos d \<le> length (d_input d)"
  shows "dict_loop (value_left k) outer (remaining d) m d =
     (case peek d of
        Inl e \<Rightarrow> Inl e
      | Inr b \<Rightarrow>
          if b = 101 then Inr (BDict m, advance 1 d)
          else if \<not> is_digit b then Inl \<lparr>be_offset = d_pos d, be_kind = BadKey\<rparr>
          else (case parse_bytes d of
                  Inl e \<Rightarrow> Inl e
                | Inr (key, d1) \<Rightarrow>
                    (case value_left k d1 of
                       Inl e \<Rightarrow> Inl e
                     | Inr (val, d2) \<Rightarrow>
                         (let d3 = (if outer \<and> key = d_want d2
                                    then d2\<lparr>d_span := Some (d_pos d1, d_pos d2)\<rparr> else d2) in
                          if bt_get m key \<noteq> None
                          then Inl \<lparr>be_offset = d_pos d, be_kind = BadKey\<rparr>
                          else dict_loop (value_left k) outer (remaining d3) (bt_insert key val m) d3))))"
proof -
  note sound = value_sound [OF assms(1)]
  have eq: "dict_loop (value_left k) outer n m' d2 = dict_loop (value_left k) outer (remaining d2) m' d2"
      "dict_loop (value_left k) outer n m' (d2\<lparr>d_span := s\<rparr>) =
       dict_loop (value_left k) outer (remaining (d2\<lparr>d_span := s\<rparr>)) m' (d2\<lparr>d_span := s\<rparr>)"
    if "parse_bytes d = Inr (key, d1)" "value_left k d1 = Inr (v, d2)" "remaining d = Suc n"
    for key d1 v d2 n m' s
    using dict_step [OF sound that(1,2)] that(3) by (intro dict_loop_counter [OF sound]; simp)+
  show ?thesis
  proof (cases "remaining d")
    case 0
    then have "peek d = Inl (derr d Truncated)" by (simp add: peek_def remaining_def)
    then show ?thesis using 0 by simp
  next
    case (Suc n)
    then show ?thesis using eq by (auto simp: Let_def split: sum.splits)
  qed
qed

lemma value_unfold:
  "dec_value depth d =
     (if depth \<ge> MAX_DEPTH then Inl (derr d TooDeep)
      else case node (dec_value (depth + 1)) (depth = 0) d of
        Inl e \<Rightarrow> Inl e
      | Inr (v, d1) \<Rightarrow>
          (let d2 = d1\<lparr>d_nodes := d_nodes d1 + 1\<rparr> in
           if d_nodes d2 > d_budget d2 then Inl (derr d2 TooManyNodes) else Inr (v, d2)))"
proof (cases "depth \<ge> MAX_DEPTH")
  case True
  then show ?thesis by (simp add: dec_value_def)
next
  case False
  then have k: "MAX_DEPTH - depth = Suc (MAX_DEPTH - (depth + 1))" by simp
  have "dec_value (depth + 1) = value_left (MAX_DEPTH - (depth + 1))"
    by (simp add: dec_value_def fun_eq_iff)
  moreover have "(Suc (MAX_DEPTH - (depth + 1)) = MAX_DEPTH) = (depth = 0)" using False by auto
  ultimately show ?thesis using False unfolding dec_value_def [of depth] k by simp
qed

subsection \<open>Properties\<close>

lemma decoder_new_simps [simp]:
  "d_input (decoder_new input want) = input" "d_pos (decoder_new input want) = 0"
  "d_nodes (decoder_new input want) = 0" "d_want (decoder_new input want) = want"
  "d_budget (decoder_new input want) = node_budget (length input)"
  "d_span (decoder_new input want) = None"
  by (simp_all add: decoder_new_def)

lemma reads_new: "reads (decoder_new input want) bs \<longleftrightarrow> take (length bs) input = bs"
  by (simp add: reads_def)

lemma paid_new: "paid (decoder_new input want)"
  by (simp add: paid_def)

lemma dec_value_new_sound:
  assumes "dec_value 0 (decoder_new input want) = Inr (v, d)"
  shows "enc_of MAX_DEPTH v (take (d_pos d) input)" "d_pos d \<le> length input"
    "d_pos d = length (encode v)" "span_ok (MAX_DEPTH - 1) (decoder_new input want) (bget v want) d"
proof -
  have "value_left MAX_DEPTH (decoder_new input want) = Inr (v, d)"
    using assms by (simp add: dec_value_def)
  from value_top_sound [OF this] obtain bs where bs: "enc_of MAX_DEPTH v bs"
      "take (length bs) input = bs" "d_pos d = length bs"
      "span_ok (MAX_DEPTH - 1) (decoder_new input want) (bget v want) d"
    by (auto simp: reads_new)
  then show "enc_of MAX_DEPTH v (take (d_pos d) input)"
    "span_ok (MAX_DEPTH - 1) (decoder_new input want) (bget v want) d" by simp_all
  show "d_pos d \<le> length input" using bs(2,3) by (metis length_take min.cobounded1)
  show "d_pos d = length (encode v)" using bs(1,3) enc_of_length by simp
qed

lemma dec_value_new_complete:
  assumes "enc_of MAX_DEPTH v bs" "length (bs @ rest) \<le> usize_max"
  shows "\<exists>d. dec_value 0 (decoder_new (bs @ rest) want) = Inr (v, d) \<and> d_pos d = length bs"
proof -
  let ?d = "decoder_new (bs @ rest) want"
  have "room (count_nodes v) ?d"
    using assms(2) enc_of_count [OF assms(1)]
    by (simp add: room_def node_budget_def MIN_NODE_BYTES_def)
  moreover have "reads ?d bs" by (simp add: reads_new)
  ultimately obtain d where d: "value_left MAX_DEPTH ?d = Inr (v, d)"
    using value_complete [of MAX_DEPTH] assms(1) unfolding complete_parser_def by blast
  then have ok: "dec_value 0 ?d = Inr (v, d)" by (simp add: dec_value_def)
  have "d_pos d = length bs"
    using dec_value_new_sound(3) [OF ok] enc_of_length [OF assms(1)] by simp
  then show ?thesis using ok by blast
qed

lemma decode_with_entry_sound:
  assumes "decode_with_entry input key = Inr (v, r)"
  shows "enc_of MAX_DEPTH v input"
    and "case bget v key of
           None \<Rightarrow> r = None
         | Some w \<Rightarrow> \<exists>a b. r = Some (a, b) \<and> a \<le> b \<and> b \<le> length input \<and>
                           enc_of (MAX_DEPTH - 1) w (byte_range (a, b) input)"
proof -
  obtain d where d: "dec_value 0 (decoder_new input key) = Inr (v, d)" "d_pos d = length input" "r = d_span d"
    using assms by (auto simp: decode_with_entry_def split: sum.splits if_splits)
  note s = dec_value_new_sound [OF d(1)]
  show "enc_of MAX_DEPTH v input" using s(1) d(2) by simp
  show "case bget v key of None \<Rightarrow> r = None
         | Some w \<Rightarrow> \<exists>a b. r = Some (a, b) \<and> a \<le> b \<and> b \<le> length input \<and>
                           enc_of (MAX_DEPTH - 1) w (byte_range (a, b) input)"
    using s(4) d(3) by (simp add: span_ok_def split: option.splits)
qed

lemma decode_sound: "decode input = Inr v \<Longrightarrow> enc_of MAX_DEPTH v input"
  using decode_with_entry_sound(1) [of input "[]" v]
  by (cases "decode_with_entry input []") (auto simp: decode_def)

lemma decode_complete:
  "enc_of MAX_DEPTH v input \<Longrightarrow> length input \<le> usize_max \<Longrightarrow> decode input = Inr v"
  using dec_value_new_complete [of v input "[]" "[]"]
  by (auto simp: decode_def decode_with_entry_def)

text \<open>A dictionary of one entry: where that entry's bytes are.\<close>

lemma decode_with_entry_single:
  assumes enc: "enc_of (MAX_DEPTH - 1) v bs" and len: "length (100 # put_bytes key @ bs @ [101]) \<le> usize_max"
  shows "decode_with_entry (100 # put_bytes key @ bs @ [101]) key =
    Inr (BDict [(key, v)], Some (1 + length (put_bytes key), 1 + length (put_bytes key) + length bs))"
proof -
  let ?in = "100 # put_bytes key @ bs @ [101]"
  let ?d0 = "decoder_new ?in key" and ?k = "MAX_DEPTH - 1"
  let ?d1 = "advance 1 ?d0" and ?d2 = "advance (1 + length (put_bytes key)) ?d0"
  have k: "MAX_DEPTH = Suc ?k" by (simp add: MAX_DEPTH_def)
  have r: "reads ?d0 ?in" by (simp add: reads_new)
  then have r1: "reads ?d1 (put_bytes key @ bs @ [101])" by (simp only: reads_Cons)
  have r2: "reads ?d1 (put_bytes key)" "reads ?d2 bs" "reads (advance (length bs) ?d2) [101]"
    using r1 by (auto simp: reads_append)
  have key: "parse_bytes ?d1 = Inr (key, ?d2)"
    using parse_bytes_complete [OF r2(1)] len by simp
  have room: "room (count_nodes v + 1) ?d2"
    using enc_of_count [OF enc] put_bytes_length [of key] len
    by (simp add: room_def node_budget_def MIN_NODE_BYTES_def)
  have sc: "sound_parser ?k (value_left ?k)" "complete_parser ?k (value_left ?k)"
    using value_sound value_complete by (simp_all add: MAX_DEPTH_def)
  obtain d3 where d3: "value_left ?k ?d2 = Inr (v, d3)" "d_pos d3 = d_pos ?d2 + length bs" "same_frame ?d2 d3"
      "room 1 d3" "\<And>cs. reads (advance (length bs) ?d2) cs \<Longrightarrow> reads d3 cs"
    using parser_step [OF sc enc r2(2) room] by metis
  let ?d4 = "d3\<lparr>d_span := Some (d_pos ?d2, d_pos d3)\<rparr>"
  have r4: "peek ?d4 = Inr 101" using d3(5) [OF r2(3)] reads_cong [of ?d4 d3] by (simp add: peek_Inr)
  obtain c cs where c: "put_bytes key = c # cs" "is_digit c" using put_bytes_hd by blast
  have p1: "peek ?d1 = Inr c" "c \<noteq> 101" using c r2(1) by (auto simp: peek_reads)
  have "2 \<le> remaining ?d1" using reads_remaining [OF r1] put_bytes_length [of key] by simp
  then obtain n where n: "remaining ?d1 = Suc (Suc n)" by (metis add_2_eq_Suc le_Suc_ex)
  have want: "d_want d3 = key" using d3(3) by (simp add: same_frame_def)
  have loop: "dict_loop (value_left ?k) True (Suc (Suc n)) [] ?d1 = Inr (BDict [(key, v)], advance 1 ?d4)"
    using p1 c key d3(1) want r4 by (simp add: Let_def)
  have "node (value_left ?k) True ?d0 = Inr (BDict [(key, v)], advance 1 ?d4)"
    using peek_reads [OF r] n loop by (simp add: node_def Let_def)
  then have "value_left (Suc ?k) ?d0 = Inr (BDict [(key, v)], (advance 1 ?d4)\<lparr>d_nodes := d_nodes d3 + 1\<rparr>)"
    using d3(4) by (subst value_left.simps(2), subst k [symmetric]) (simp add: room_def)
  then have "dec_value 0 ?d0 = Inr (BDict [(key, v)], (advance 1 ?d4)\<lparr>d_nodes := d_nodes d3 + 1\<rparr>)"
    unfolding dec_value_def k [symmetric] by simp
  then show ?thesis using d3(2) by (simp add: decode_with_entry_def)
qed

text \<open>C29. The decoder accepts exactly the bencode grammar: for any input that fits memory,
  \<^verbatim>\<open>decode\<close> returns a value if and only if the whole input is an encoding of that value
  that nests at most 32 levels, has canonical 64-bit integers and string lengths and repeats
  no dictionary key. In particular the decoder is total and unambiguous.\<close>

theorem decode_accepts_grammar:
  assumes "length input \<le> usize_max"
  shows "decode input = Inr v \<longleftrightarrow> enc_of MAX_DEPTH v input"
  using assms decode_sound decode_complete by blast

theorem decode_accepts_grammar_witness:
  "decode (ascii ''d1:bi2e1:ai1ee'') = Inr (BDict [(ascii ''a'', BInt 1), (ascii ''b'', BInt 2)])
   \<and> enc_of MAX_DEPTH (BDict [(ascii ''a'', BInt 1), (ascii ''b'', BInt 2)]) (ascii ''d1:bi2e1:ai1ee'')"
proof -
  have h: "length (ascii ''d1:bi2e1:ai1ee'') \<le> usize_max" by (simp add: ascii_def usize_max_def)
  have "decode (ascii ''d1:bi2e1:ai1ee'') = Inr (BDict [(ascii ''a'', BInt 1), (ascii ''b'', BInt 2)])"
    by code_simp
  then show ?thesis using decode_accepts_grammar [OF h] by blast
qed

text \<open>Round trip: whatever the canonical encoder writes, the decoder reads back, for every
  value of 64-bit integers, ordered maps and at most 32 levels.\<close>

theorem decode_encode:
  assumes "fits MAX_DEPTH v" and "length (encode v) \<le> usize_max"
  shows "decode (encode v) = Inr v"
  using assms by (intro decode_complete fits_enc_of)

theorem decode_encode_witness:
  "decode (encode (BDict [(ascii ''k'', BList [BInt (- 7), BBytes (ascii ''spam'')])]))
   = Inr (BDict [(ascii ''k'', BList [BInt (- 7), BBytes (ascii ''spam'')])])"
  by (rule decode_encode)
    (simp_all add: MAX_DEPTH_def in_i64_def i64_min_def i64_max_def usize_max_def ascii_def
      put_bytes_def dec_int_def dec_digits.simps)

text \<open>Memory bound: the decoder never reports \<^verbatim>\<open>TooManyNodes\<close> (the grammar cannot
  exceed the budget), and the tree it builds has at most one node per two input bytes.\<close>

theorem decode_node_budget:
  "(\<forall>e. decode input = Inl e \<longrightarrow> be_kind e \<noteq> TooManyNodes) \<and>
   (\<forall>v. decode input = Inr v \<longrightarrow> count_nodes v \<le> node_budget (length input))"
proof (intro conjI allI impI)
  fix e assume "decode input = Inl e"
  then have "(\<exists>d. e = derr d TrailingData) \<or> dec_value 0 (decoder_new input []) = Inl e"
    by (auto simp: decode_def decode_with_entry_def split: sum.splits if_splits)
  then show "be_kind e \<noteq> TooManyNodes"
    using value_quiet [of MAX_DEPTH] paid_new [of input "[]"]
    by (auto simp: dec_value_def quiet_parser_def derr_def)
next
  fix v assume "decode input = Inr v"
  from enc_of_count [OF decode_sound [OF this]] show "count_nodes v \<le> node_budget (length input)"
    by (simp add: node_budget_def MIN_NODE_BYTES_def)
qed

theorem decode_node_budget_witness:
  "decode (ascii ''lleleledee'') = Inr (BList [BList [], BList [], BList [], BDict []])
   \<and> count_nodes (BList [BList [], BList [], BList [], BDict []]) \<le> node_budget 10"
proof -
  have d: "decode (ascii ''lleleledee'') = Inr (BList [BList [], BList [], BList [], BDict []])"
    by code_simp
  have len: "length (ascii ''lleleledee'') = 10" by simp
  have "count_nodes (BList [BList [], BList [], BList [], BDict []]) \<le> node_budget (length (ascii ''lleleledee''))"
    using decode_node_budget d by blast
  then show ?thesis using d unfolding len by blast
qed

text \<open>The span of a top-level entry is exact: when the whole input decodes, \<^verbatim>\<open>raw_entry\<close>
  answers a range exactly when the top-level dictionary holds the key, and the bytes of that
  range are themselves a complete bencoding of the value stored there. This is what makes an
  info-hash over the range the hash of the \<^verbatim>\<open>info\<close> dictionary as it was written.\<close>

theorem raw_entry_exact:
  assumes "length input \<le> usize_max" and "decode input = Inr v"
  shows "\<exists>r. raw_entry input key = Inr r \<and>
     (case bget v key of
        None \<Rightarrow> r = None
      | Some w \<Rightarrow> \<exists>a b. r = Some (a, b) \<and> a \<le> b \<and> b \<le> length input \<and>
                        decode (byte_range (a, b) input) = Inr w)"
proof -
  have enc: "enc_of MAX_DEPTH v input" using assms(2) by (rule decode_sound)
  obtain r where r: "decode_with_entry input key = Inr (v, r)"
    using dec_value_new_complete [OF enc, of "[]" key] assms(1)
    by (auto simp: decode_with_entry_def)
  have dec: "decode (byte_range (a, b) input) = Inr w"
    if "enc_of (MAX_DEPTH - 1) w (byte_range (a, b) input)" for a b w
  proof (rule decode_complete)
    show "enc_of MAX_DEPTH w (byte_range (a, b) input)" using that by (rule enc_of_mono) simp
    have "length (byte_range (a, b) input) \<le> length input" by (simp add: byte_range_def)
    then show "length (byte_range (a, b) input) \<le> usize_max" using assms(1) by simp
  qed
  have "case bget v key of None \<Rightarrow> r = None
      | Some w \<Rightarrow> \<exists>a b. r = Some (a, b) \<and> a \<le> b \<and> b \<le> length input \<and>
                        decode (byte_range (a, b) input) = Inr w"
    using decode_with_entry_sound(2) [OF r] dec by (auto split: option.splits)
  moreover have "raw_entry input key = Inr r" by (simp add: raw_entry_def r)
  ultimately show ?thesis by blast
qed

theorem raw_entry_exact_witness:
  "\<exists>r. raw_entry (ascii ''d4:infod1:xi2ee1:zi3ee'') (ascii ''info'') = Inr r \<and>
     (\<exists>a b. r = Some (a, b) \<and> a \<le> b \<and> b \<le> 22 \<and>
            decode (byte_range (a, b) (ascii ''d4:infod1:xi2ee1:zi3ee'')) = Inr (BDict [(ascii ''x'', BInt 2)]))"
proof -
  let ?i = "ascii ''d4:infod1:xi2ee1:zi3ee''"
  let ?v = "BDict [(ascii ''info'', BDict [(ascii ''x'', BInt 2)]), (ascii ''z'', BInt 3)]"
  have h: "length ?i \<le> usize_max" "length ?i = 22" by (simp_all add: ascii_def usize_max_def)
  have d: "decode ?i = Inr ?v" by code_simp
  have g: "bget ?v (ascii ''info'') = Some (BDict [(ascii ''x'', BInt 2)])" by (simp add: bget_def)
  show ?thesis using raw_entry_exact [OF h(1) d, of "ascii ''info''"] unfolding g h(2) by simp
qed

text \<open>Framing: a bencoded header followed by any raw bytes is read back with its exact
  length, which is how \<^verbatim>\<open>ut_metadata\<close> finds where the piece data starts.\<close>

theorem decode_prefix_encode:
  assumes "fits MAX_DEPTH v" and "length (encode v @ rest) \<le> usize_max"
  shows "decode_prefix (encode v @ rest) = Inr (v, length (encode v))"
  using dec_value_new_complete [OF fits_enc_of [OF assms(1)] assms(2), of "[]"]
  by (auto simp: decode_prefix_def)

theorem decode_prefix_encode_witness:
  "decode_prefix (encode (BDict [(ascii ''a'', BInt 1)]) @ [0, 255]) = Inr (BDict [(ascii ''a'', BInt 1)], 8)"
proof -
  let ?v = "BDict [(ascii ''a'', BInt 1)]"
  have "length (encode ?v) = 8"
    by (simp add: put_bytes_def dec_int_def dec_digits.simps ascii_def)
  moreover from this have "length (encode ?v @ [0, 255]) \<le> usize_max" by (simp add: usize_max_def)
  ultimately show ?thesis
    using decode_prefix_encode [of ?v "[0, 255]"]
    by (simp add: MAX_DEPTH_def in_i64_def i64_min_def i64_max_def)
qed

text \<open>The comment beside \<^verbatim>\<open>Decoder::want\<close> says that an empty key can never match since keys
  are never empty. The grammar allows the empty key, and it does match.\<close>

lemma empty_key_matches: "raw_entry (ascii ''d0:i1ee'') [] = Inr (Some (3, 6))"
  by code_simp

subsection \<open>The codec interfaces\<close>

interpretation ben: codec encode decode "\<lambda>v. fits MAX_DEPTH v \<and> length (encode v) \<le> usize_max"
  by unfold_locales (simp add: decode_complete fits_enc_of)

interpretation benp: prefix_codec encode decode_prefix "fits MAX_DEPTH" "\<lambda>b. length b \<le> usize_max"
proof
  fix v rest assume "fits MAX_DEPTH v" "length (encode v @ rest) \<le> usize_max"
  then show "decode_prefix (encode v @ rest) = Inr (v, length (encode v))"
    using dec_value_new_complete [OF fits_enc_of, of v rest "[]"]
    by (auto simp: decode_prefix_def)
qed

end
