(* ===== verification/Bitfield.thy ===== *)
theory Bitfield
  imports Prelude
begin

text \<open>
  Piece bitfields (\<^verbatim>\<open>crates/clove-core/src/bitfield.rs\<close>): \<open>len\<close> bits, most
  significant bit first, in \<open>\<lceil>len / 8\<rceil>\<close> bytes whose spare trailing bits are zero. A bitfield is
  the set of piece indices it holds; the locale \<open>piece_set\<close> states that contract for the
  picker, the resume file and the torrent, and the interpretation at the end discharges it.
\<close>

unbundle bit_operations_syntax

subsection \<open>Model\<close>

record bitfield =
  bf_bits :: bytes
  bf_len :: nat

datatype bad_bitfield = WrongLength | SpareBitsSet

definition byte_len :: "nat \<Rightarrow> nat" where
  "byte_len len = div_ceil len 8"

definition bf_empty :: "nat \<Rightarrow> bitfield" where
  "bf_empty len = \<lparr>bf_bits = replicate (byte_len len) 0, bf_len = len\<rparr>"

definition clear_spare_bits :: "bitfield \<Rightarrow> bitfield" where
  "clear_spare_bits bf =
     (let used = bf_len bf mod 8 in
      if used \<noteq> 0 \<and> bf_bits bf \<noteq> []
      then bf\<lparr>bf_bits := butlast (bf_bits bf) @ [last (bf_bits bf) AND NOT (drop_bit used 0xFF)]\<rparr>
      else bf)"

definition bf_full :: "nat \<Rightarrow> bitfield" where
  "bf_full len = clear_spare_bits \<lparr>bf_bits = replicate (byte_len len) 0xFF, bf_len = len\<rparr>"

definition bf_from_bytes :: "bytes \<Rightarrow> nat \<Rightarrow> bad_bitfield + bitfield" where
  "bf_from_bytes bs len =
     (if length bs \<noteq> byte_len len then Inl WrongLength
      else let used = len mod 8 in
        if used \<noteq> 0 \<and> bs \<noteq> [] \<and> last bs AND drop_bit used 0xFF \<noteq> 0 then Inl SpareBitsSet
        else Inr \<lparr>bf_bits = bs, bf_len = len\<rparr>)"

abbreviation bf_as_bytes :: "bitfield \<Rightarrow> bytes" where
  "bf_as_bytes bf \<equiv> bf_bits bf"

definition bf_is_empty :: "bitfield \<Rightarrow> bool" where
  "bf_is_empty bf \<longleftrightarrow> bf_len bf = 0"

text \<open>The mask \<^verbatim>\<open>1 << (7 - index % 8)\<close>.\<close>

definition bf_mask :: "nat \<Rightarrow> byte" where
  "bf_mask i = push_bit (7 - i mod 8) 1"

definition bf_has :: "bitfield \<Rightarrow> nat \<Rightarrow> bool" where
  "bf_has bf i = (if i \<ge> bf_len bf then False else bf_bits bf ! (i div 8) AND bf_mask i \<noteq> 0)"

definition bf_set :: "bitfield \<Rightarrow> nat \<Rightarrow> bitfield" where
  "bf_set bf i =
     (if i \<ge> bf_len bf then bf
      else bf\<lparr>bf_bits := (bf_bits bf)[i div 8 := bf_bits bf ! (i div 8) OR bf_mask i]\<rparr>)"

definition bf_clear :: "bitfield \<Rightarrow> nat \<Rightarrow> bitfield" where
  "bf_clear bf i =
     (if i \<ge> bf_len bf then bf
      else bf\<lparr>bf_bits := (bf_bits bf)[i div 8 := bf_bits bf ! (i div 8) AND NOT (bf_mask i)]\<rparr>)"

definition count_ones :: "byte \<Rightarrow> nat" where
  "count_ones b = length (filter (bit b) [0..<8])"

definition bf_count :: "bitfield \<Rightarrow> nat" where
  "bf_count bf = sum_list (map count_ones (bf_bits bf))"

definition bf_is_full :: "bitfield \<Rightarrow> bool" where
  "bf_is_full bf \<longleftrightarrow> bf_count bf = bf_len bf"

definition iter_present :: "bitfield \<Rightarrow> nat list" where
  "iter_present bf = filter (bf_has bf) [0..<bf_len bf]"

subsection \<open>Bits by index\<close>

definition flag :: "bytes \<Rightarrow> nat \<Rightarrow> bool" where
  "flag bs i \<longleftrightarrow> bit (bs ! (i div 8)) (7 - i mod 8)"

definition bf_wf :: "bitfield \<Rightarrow> bool" where
  "bf_wf bf \<longleftrightarrow>
     length (bf_bits bf) = byte_len (bf_len bf) \<and>
     (\<forall>i < 8 * length (bf_bits bf). bf_len bf \<le> i \<longrightarrow> \<not> flag (bf_bits bf) i)"

lemma byte_len_bound: "n \<le> 8 * byte_len n"
  using div_ceil_le [of 8 n] by (simp add: byte_len_def mult.commute)

lemma byte_len_less: "i < n \<Longrightarrow> i div 8 < byte_len n"
  by (simp add: byte_len_def div_ceil_less_iff)

lemma byte_len_0 [simp]: "byte_len 0 = 0"
  by (simp add: byte_len_def div_ceil_def)

lemma byte_len_last: "n mod 8 \<noteq> 0 \<Longrightarrow> byte_len n - 1 = n div 8"
  by (simp add: byte_len_def div_ceil_def)

lemma and_mask_iff: "b AND bf_mask i \<noteq> 0 \<longleftrightarrow> bit b (7 - i mod 8)"
proof -
  have "b AND bf_mask i = (if bit b (7 - i mod 8) then bf_mask i else 0)"
    by (rule bit_word_eqI) (auto simp: bf_mask_def bit_simps)
  moreover have "bf_mask i \<noteq> 0"
  proof
    assume "bf_mask i = 0"
    then have "bit (bf_mask i) (7 - i mod 8) = bit (0 :: byte) (7 - i mod 8)" by simp
    then show False by (simp add: bf_mask_def bit_simps)
  qed
  ultimately show ?thesis by simp
qed

lemma has_flag: "bf_has bf i \<longleftrightarrow> i < bf_len bf \<and> flag (bf_bits bf) i"
  by (simp add: bf_has_def flag_def and_mask_iff)

lemma has_less_len: "bf_has bf i \<Longrightarrow> i < bf_len bf"
  by (simp add: has_flag)

lemma bit_index_eq:
  fixes i j :: nat
  assumes "i div 8 = j div 8"
  shows "7 - i mod 8 = 7 - j mod 8 \<longleftrightarrow> i = j"
proof -
  have "i mod 8 < 8" "j mod 8 < 8" by simp_all
  then have "7 - i mod 8 = 7 - j mod 8 \<longleftrightarrow> i mod 8 = j mod 8" by arith
  also have "\<dots> \<longleftrightarrow> i = j" using assms by (metis div_mult_mod_eq)
  finally show ?thesis .
qed

lemma flag_set:
  assumes "i div 8 < length bs"
  shows "flag (bs[i div 8 := bs ! (i div 8) OR bf_mask i]) j \<longleftrightarrow> i = j \<or> flag bs j"
proof (cases "i div 8 = j div 8")
  case True
  then show ?thesis
    using assms bit_index_eq [OF True] by (auto simp: flag_def bf_mask_def bit_simps)
qed (auto simp: flag_def)

lemma flag_clear:
  assumes "i div 8 < length bs"
  shows "flag (bs[i div 8 := bs ! (i div 8) AND NOT (bf_mask i)]) j \<longleftrightarrow> i \<noteq> j \<and> flag bs j"
proof (cases "i div 8 = j div 8")
  case True
  then show ?thesis
    using assms bit_index_eq [OF True] by (auto simp: flag_def bf_mask_def bit_simps)
qed (auto simp: flag_def)

subsection \<open>Well-formedness is kept\<close>

lemma bf_len_ops [simp]:
  "bf_len (bf_set bf i) = bf_len bf" "bf_len (bf_clear bf i) = bf_len bf"
  "bf_len (bf_empty n) = n" "bf_len (bf_full n) = n"
  by (simp_all add: bf_set_def bf_clear_def bf_empty_def bf_full_def clear_spare_bits_def Let_def)

lemma wf_index: "bf_wf bf \<Longrightarrow> i < bf_len bf \<Longrightarrow> i div 8 < length (bf_bits bf)"
  by (simp add: bf_wf_def byte_len_less)

lemma set_wf [inv_intros]: "bf_wf bf \<Longrightarrow> bf_wf (bf_set bf i)"
  using wf_index [of bf i] by (auto simp: bf_wf_def bf_set_def flag_set)

lemma clear_wf [inv_intros]: "bf_wf bf \<Longrightarrow> bf_wf (bf_clear bf i)"
  using wf_index [of bf i] by (auto simp: bf_wf_def bf_clear_def flag_clear)

lemma has_set: "bf_wf bf \<Longrightarrow> bf_has (bf_set bf i) j \<longleftrightarrow> bf_has bf j \<or> (i = j \<and> i < bf_len bf)"
  using wf_index [of bf i] by (auto simp: has_flag bf_set_def flag_set)

lemma has_clear: "bf_wf bf \<Longrightarrow> bf_has (bf_clear bf i) j \<longleftrightarrow> bf_has bf j \<and> i \<noteq> j"
  using wf_index [of bf i] by (auto simp: has_flag bf_clear_def flag_clear)

lemma flag_zero: "i < 8 * n \<Longrightarrow> \<not> flag (replicate n 0) i"
  by (simp add: flag_def less_mult_imp_div_less mult.commute)

lemma bit_ones [simp]: "bit (255 :: int) k \<longleftrightarrow> k < 8"
proof -
  have "bit (mask 8 :: int) k \<longleftrightarrow> k < 8" by (auto simp: bit_simps)
  then show ?thesis by (simp add: mask_eq_exp_minus_1)
qed

lemma flag_ones: "i < 8 * n \<Longrightarrow> flag (replicate n 0xFF) i"
  by (simp add: flag_def less_mult_imp_div_less mult.commute)

lemma empty_wf [inv_intros]: "bf_wf (bf_empty n)"
  by (simp add: bf_wf_def bf_empty_def flag_zero)

lemma has_empty [simp]: "\<not> bf_has (bf_empty n) i"
  using byte_len_bound [of n] by (simp add: has_flag bf_empty_def flag_zero)

text \<open>The spare mask \<^verbatim>\<open>0xFF >> used\<close> covers exactly the bits after the first \<open>used\<close>.\<close>

lemma bit_spare: "bit (drop_bit used 0xFF :: byte) k \<longleftrightarrow> k < 8 - used"
  by (auto simp: bit_drop_bit_eq)

lemma and_spare_zero: "b AND drop_bit used 0xFF = 0 \<longleftrightarrow> (\<forall>k < 8 - used. \<not> bit b k)" for b :: byte
proof
  assume "b AND drop_bit used 0xFF = 0"
  then have "\<not> bit (b AND drop_bit used 0xFF) k" for k by simp
  then show "\<forall>k < 8 - used. \<not> bit b k" by (auto simp: bit_and_iff bit_spare)
next
  assume "\<forall>k < 8 - used. \<not> bit b k"
  then show "b AND drop_bit used 0xFF = 0"
    by (intro bit_word_eqI) (auto simp: bit_and_iff bit_spare)
qed

lemma spare_index:
  fixes n i :: nat
  assumes "n mod 8 \<noteq> 0" "n \<le> i" "i < 8 * byte_len n"
  shows "i div 8 = n div 8" "7 - i mod 8 < 8 - n mod 8"
proof -
  have b: "byte_len n = n div 8 + 1" using assms(1) by (simp add: byte_len_def div_ceil_def)
  have "n div 8 \<le> i div 8" using assms(2) by (rule div_le_mono)
  moreover have "i div 8 < n div 8 + 1" using assms(3) b by (simp add: less_mult_imp_div_less mult.commute)
  ultimately show eq: "i div 8 = n div 8" by simp
  have "n = n div 8 * 8 + n mod 8" "i = i div 8 * 8 + i mod 8" by simp_all
  then have "n mod 8 \<le> i mod 8" using eq assms(2) by linarith
  moreover have "i mod 8 < 8" by simp
  ultimately show "7 - i mod 8 < 8 - n mod 8" by arith
qed

lemma byte_len_aligned: "n mod 8 = 0 \<Longrightarrow> 8 * byte_len n = n" for n :: nat
  by (auto simp: byte_len_def div_ceil_def)

text \<open>The last byte decides: its low bits are zero exactly when every spare index is absent.\<close>

lemma spare_iff:
  assumes "length bs = byte_len n" "n mod 8 \<noteq> 0"
  shows "last bs AND drop_bit (n mod 8) 0xFF = 0 \<longleftrightarrow> (\<forall>i < 8 * length bs. n \<le> i \<longrightarrow> \<not> flag bs i)"
proof -
  have "byte_len n = n div 8 + 1" using assms(2) by (simp add: byte_len_def div_ceil_def)
  then have len: "length bs = n div 8 + 1" using assms(1) by simp
  then have "bs \<noteq> []" by auto
  then have last: "last bs = bs ! (n div 8)" using len by (simp add: last_conv_nth)
  have "(\<forall>k < 8 - n mod 8. \<not> bit (last bs) k) \<longleftrightarrow> (\<forall>i < 8 * length bs. n \<le> i \<longrightarrow> \<not> flag bs i)"
  proof
    assume low: "\<forall>k < 8 - n mod 8. \<not> bit (last bs) k"
    show "\<forall>i < 8 * length bs. n \<le> i \<longrightarrow> \<not> flag bs i"
    proof (intro allI impI)
      fix i assume "i < 8 * length bs" and i: "n \<le> i"
      then have "i < 8 * byte_len n" using assms(1) by simp
      note sp = spare_index [OF assms(2) i this]
      show "\<not> flag bs i" using low sp(2) unfolding flag_def sp(1) last by blast
    qed
  next
    assume sp: "\<forall>i < 8 * length bs. n \<le> i \<longrightarrow> \<not> flag bs i"
    show "\<forall>k < 8 - n mod 8. \<not> bit (last bs) k"
    proof (intro allI impI)
      fix k assume k: "k < 8 - n mod 8"
      let ?i = "8 * (n div 8) + (7 - k)"
      have i: "?i div 8 = n div 8" "?i mod 8 = 7 - k" by simp_all
      have "n = 8 * (n div 8) + n mod 8" by simp
      then have "n \<le> ?i" using k by linarith
      moreover have "?i < 8 * length bs" unfolding len by simp
      ultimately have "\<not> flag bs ?i" using sp by blast
      then have "\<not> bit (last bs) (7 - (7 - k))" unfolding flag_def i last .
      moreover have "7 - (7 - k) = k" using k by arith
      ultimately show "\<not> bit (last bs) k" by simp
    qed
  qed
  then show ?thesis unfolding and_spare_zero .
qed

lemma from_bytes_iff:
  "bf_from_bytes bs n = Inr bf \<longleftrightarrow> bf_wf bf \<and> bf_as_bytes bf = bs \<and> bf_len bf = n"
proof (cases "length bs = byte_len n")
  case True
  have "bf_from_bytes bs n = Inr bf \<longleftrightarrow>
      (n mod 8 \<noteq> 0 \<and> bs \<noteq> [] \<longrightarrow> last bs AND drop_bit (n mod 8) 0xFF = 0) \<and> bf = \<lparr>bf_bits = bs, bf_len = n\<rparr>"
    using True by (auto simp: bf_from_bytes_def Let_def)
  also have "(n mod 8 \<noteq> 0 \<and> bs \<noteq> [] \<longrightarrow> last bs AND drop_bit (n mod 8) 0xFF = 0) \<longleftrightarrow>
      (\<forall>i < 8 * length bs. n \<le> i \<longrightarrow> \<not> flag bs i)"
    using spare_iff [OF True] byte_len_aligned [of n] True by (cases "n mod 8 = 0") auto
  finally show ?thesis using True by (cases bf) (auto simp: bf_wf_def)
next
  case False
  then show ?thesis by (auto simp: bf_from_bytes_def bf_wf_def)
qed

lemma full_flag:
  assumes "i < 8 * byte_len n"
  shows "flag (bf_bits (bf_full n)) i \<longleftrightarrow> i < n"
proof (cases "n mod 8 = 0")
  case True
  then show ?thesis
    using assms flag_ones [OF assms] by (auto simp: bf_full_def clear_spare_bits_def Let_def byte_len_aligned)
next
  case False
  let ?b = "replicate (byte_len n) (0xFF :: byte)"
  have len: "byte_len n = n div 8 + 1" using False by (simp add: byte_len_def div_ceil_def)
  then have bits: "bf_bits (bf_full n) = replicate (n div 8) 0xFF @ [0xFF AND NOT (drop_bit (n mod 8) 0xFF)]"
    using False by (simp add: bf_full_def clear_spare_bits_def Let_def butlast_append replicate_append_same [symmetric])
  show ?thesis
  proof (cases "i div 8 = n div 8")
    case True
    have "i = i div 8 * 8 + i mod 8" "n = n div 8 * 8 + n mod 8" by simp_all
    then have "i < n \<longleftrightarrow> i mod 8 < n mod 8" using True by linarith
    moreover have "i mod 8 < 8" "n mod 8 < 8" by simp_all
    ultimately show ?thesis
      using True by (auto simp: flag_def bits nth_append bit_simps)
  next
    case other: False
    have "i div 8 < n div 8 + 1" using assms len by (simp add: less_mult_imp_div_less mult.commute)
    then have lt: "i div 8 < n div 8" using other by simp
    then have "i < n" by (meson div_le_mono leD leI)
    then show ?thesis using lt by (simp add: flag_def bits nth_append)
  qed
qed

lemma full_wf [inv_intros]: "bf_wf (bf_full n)"
proof -
  have "length (bf_bits (bf_full n)) = byte_len n"
    by (auto simp: bf_full_def clear_spare_bits_def Let_def)
  then show ?thesis by (simp add: bf_wf_def full_flag)
qed

lemma has_full [simp]: "bf_has (bf_full n) i \<longleftrightarrow> i < n"
  using byte_len_bound [of n] by (auto simp: has_flag full_flag)

subsection \<open>Counting\<close>

lemma length_filter_sum: "length (filter P xs) = (\<Sum>x \<leftarrow> xs. if P x then 1 else 0)"
  by (induction xs) simp_all

lemma count_ones_reversed: "count_ones b = length (filter (\<lambda>k. bit b (7 - k)) [0..<8])"
  by (simp add: count_ones_def length_filter_sum upt_rec numeral_eq_Suc ac_simps)

lemma count_flags: "sum_list (map count_ones bs) = length (filter (flag bs) [0..<8 * length bs])"
proof (induction bs rule: rev_induct)
  case (snoc b bs)
  let ?n = "8 * length bs"
  have up: "[0..<8 * length (bs @ [b])] = [0..<?n] @ map (\<lambda>k. ?n + k) [0..<8]"
  proof -
    have "[0..<?n + 8] = [0..<?n] @ [?n..<?n + 8]" by (rule upt_add_eq_append) simp
    moreover have "map (\<lambda>k. ?n + k) [0..<8] = [?n..<?n + 8]"
      using map_add_upt [of ?n 8] by (simp add: add.commute)
    ultimately show ?thesis by (simp add: add.commute)
  qed
  have low: "filter (flag (bs @ [b])) [0..<?n] = filter (flag bs) [0..<?n]"
    by (rule filter_cong) (auto simp: flag_def nth_append less_mult_imp_div_less mult.commute)
  have "filter (flag (bs @ [b]) \<circ> (\<lambda>k. ?n + k)) [0..<8] = filter (\<lambda>k. bit b (7 - k)) [0..<8]"
    by (rule filter_cong) (auto simp: flag_def nth_append)
  then have "length (filter (flag (bs @ [b])) [0..<8 * length (bs @ [b])])
      = length (filter (flag bs) [0..<?n]) + count_ones b"
    unfolding up by (simp add: low filter_map count_ones_reversed)
  then show ?case using snoc by simp
qed simp

lemma count_iter: "bf_wf bf \<Longrightarrow> bf_count bf = length (iter_present bf)"
proof -
  assume wf: "bf_wf bf"
  let ?n = "bf_len bf" and ?m = "8 * length (bf_bits bf)"
  have le: "?n \<le> ?m" using wf byte_len_bound by (simp add: bf_wf_def)
  have "[0..<?m] = [0..<?n] @ [?n..<?m]" using le by (metis le_add_diff_inverse upt_add_eq_append zero_le)
  moreover have "filter (flag (bf_bits bf)) [?n..<?m] = []"
    using wf by (auto simp: bf_wf_def filter_empty_conv)
  moreover have "filter (flag (bf_bits bf)) [0..<?n] = iter_present bf"
    unfolding iter_present_def by (rule filter_cong) (auto simp: has_flag)
  ultimately show ?thesis by (simp add: bf_count_def count_flags)
qed

lemma present_finite [simp]: "finite {i. bf_has bf i}"
  by (rule finite_subset [of _ "{..<bf_len bf}"]) (auto simp: has_flag)

lemma count_card: "bf_wf bf \<Longrightarrow> bf_count bf = card {i. bf_has bf i}"
proof -
  have "set (iter_present bf) = {i. bf_has bf i}" "distinct (iter_present bf)"
    by (auto simp: iter_present_def has_flag)
  then show "bf_wf bf \<Longrightarrow> ?thesis" using distinct_card count_iter by metis
qed

lemma wf_ext:
  assumes "bf_wf a" "bf_wf b" "bf_len a = bf_len b" "bf_has a = bf_has b"
  shows "a = b"
proof -
  have len: "length (bf_bits a) = length (bf_bits b)" using assms(1-3) by (simp add: bf_wf_def)
  have flag: "flag (bf_bits a) i = flag (bf_bits b) i" if "i < 8 * length (bf_bits a)" for i
  proof (cases "i < bf_len a")
    case True
    then show ?thesis using assms(3) fun_cong [OF assms(4), of i] by (simp add: has_flag)
  next
    case False
    then show ?thesis using assms(1-3) that len by (simp add: bf_wf_def)
  qed
  have "bf_bits a = bf_bits b"
  proof (rule nth_equalityI [OF len])
    fix j assume j: "j < length (bf_bits a)"
    show "bf_bits a ! j = bf_bits b ! j"
    proof (rule bit_word_eqI)
      fix k assume k: "k < LENGTH(8)"
      let ?i = "8 * j + (7 - k)"
      have "?i div 8 = j" "?i mod 8 = 7 - k" "?i < 8 * length (bf_bits a)" using j by auto
      then show "bit (bf_bits a ! j) k = bit (bf_bits b ! j) k"
        using flag [of ?i] k by (simp add: flag_def)
    qed
  qed
  then show ?thesis using assms(3) by simp
qed

subsection \<open>The contract\<close>

text \<open>
  What the picker, the resume file and the torrent rely on: a bitfield is a set of indices below
  its length, \<open>set\<close> and \<open>clear\<close> add and remove one index and ignore the others, counting is
  cardinality, and equal sets are equal bitfields. The lemmas inside are proved from these laws
  alone.
\<close>

locale piece_set =
  fixes inv :: "'b \<Rightarrow> bool" and len :: "'b \<Rightarrow> nat" and has :: "'b \<Rightarrow> nat \<Rightarrow> bool"
    and ins :: "'b \<Rightarrow> nat \<Rightarrow> 'b" and del :: "'b \<Rightarrow> nat \<Rightarrow> 'b"
    and none :: "nat \<Rightarrow> 'b" and cnt :: "'b \<Rightarrow> nat"
  assumes inv_ins: "inv b \<Longrightarrow> inv (ins b i)" and inv_del: "inv b \<Longrightarrow> inv (del b i)"
    and inv_none: "inv (none n)"
    and len_ins: "len (ins b i) = len b" and len_del: "len (del b i) = len b"
    and len_none: "len (none n) = n"
    and has_less: "has b i \<Longrightarrow> i < len b"
    and has_ins: "inv b \<Longrightarrow> has (ins b i) j \<longleftrightarrow> has b j \<or> (i = j \<and> i < len b)"
    and has_del: "inv b \<Longrightarrow> has (del b i) j \<longleftrightarrow> has b j \<and> i \<noteq> j"
    and has_none: "\<not> has (none n) i"
    and cnt_card: "inv b \<Longrightarrow> cnt b = card {i. has b i}"
    and eqI: "inv a \<Longrightarrow> inv b \<Longrightarrow> len a = len b \<Longrightarrow> has a = has b \<Longrightarrow> a = b"
begin

lemma fin_has: "finite {i. has b i}"
  by (rule finite_subset [of _ "{..<len b}"]) (auto dest: has_less)

lemma cnt_le: "inv b \<Longrightarrow> cnt b \<le> len b"
proof -
  assume "inv b"
  have "card {i. has b i} \<le> card {..<len b}"
    by (rule card_mono) (auto dest: has_less)
  then show ?thesis using \<open>inv b\<close> by (simp add: cnt_card)
qed

lemma cnt_full: "inv b \<Longrightarrow> cnt b = len b \<longleftrightarrow> (\<forall>i < len b. has b i)"
proof -
  assume i: "inv b"
  have sub: "{i. has b i} \<subseteq> {..<len b}" by (auto dest: has_less)
  show ?thesis
  proof
    assume "cnt b = len b"
    then have "card {i. has b i} = card {..<len b}" using i by (simp add: cnt_card)
    then have "{i. has b i} = {..<len b}" using sub by (intro card_subset_eq) simp_all
    then show "\<forall>i < len b. has b i" by auto
  next
    assume "\<forall>i < len b. has b i"
    then have "{i. has b i} = {..<len b}" using sub by auto
    then show "cnt b = len b" using i by (simp add: cnt_card)
  qed
qed

lemma cnt_ins: "inv b \<Longrightarrow> i < len b \<Longrightarrow> \<not> has b i \<Longrightarrow> cnt (ins b i) = Suc (cnt b)"
proof -
  assume a: "inv b" "i < len b" "\<not> has b i"
  have "{j. has (ins b i) j} = insert i {j. has b j}" using a by (auto simp: has_ins)
  then show ?thesis using a by (simp add: cnt_card inv_ins fin_has)
qed

lemma cnt_del: "inv b \<Longrightarrow> has b i \<Longrightarrow> Suc (cnt (del b i)) = cnt b"
proof -
  assume a: "inv b" "has b i"
  have "{j. has (del b i) j} = {j. has b j} - {i}" using a by (auto simp: has_del)
  moreover have "Suc (card ({j. has b j} - {i})) = card {j. has b j}"
    using a(2) by (intro card_Suc_Diff1 fin_has) simp
  ultimately show ?thesis using a by (simp add: cnt_card inv_del)
qed

lemma ins_twice: "inv b \<Longrightarrow> ins (ins b i) i = ins b i"
  by (rule eqI) (auto simp: inv_ins len_ins has_ins fun_eq_iff)

lemma del_ins: "inv b \<Longrightarrow> \<not> has b i \<Longrightarrow> del (ins b i) i = b"
  by (rule eqI) (auto simp: inv_ins inv_del len_ins len_del has_ins has_del fun_eq_iff)

text \<open>Setting every index of a list, as the loops of the callers do.\<close>

lemma fold_ins:
  "inv b \<Longrightarrow> inv (fold (\<lambda>i c. ins c i) is b) \<and> len (fold (\<lambda>i c. ins c i) is b) = len b \<and>
     (\<forall>j. has (fold (\<lambda>i c. ins c i) is b) j \<longleftrightarrow> has b j \<or> (j \<in> set is \<and> j < len b))"
proof (induction "is" arbitrary: b)
  case (Cons i "is")
  show ?case using Cons.IH [OF inv_ins [OF Cons.prems, of i]] Cons.prems
    by (auto simp: len_ins has_ins)
qed simp

end

interpretation bf: piece_set bf_wf bf_len bf_has bf_set bf_clear bf_empty bf_count
  by unfold_locales
    (auto simp: set_wf clear_wf empty_wf has_set has_clear count_card intro: wf_ext dest: has_less_len)

subsection \<open>Properties\<close>

text \<open>\<^verbatim>\<open>Bitfield::from_bytes\<close> accepts exactly the byte strings of the right length with zero
  spare bits, which are the raw bytes of a well-formed bitfield, and gives that bitfield back.\<close>

theorem from_bytes_exact:
  "bf_from_bytes bs n = Inr bf \<longleftrightarrow> bf_wf bf \<and> bf_as_bytes bf = bs \<and> bf_len bf = n"
  by (rule from_bytes_iff)

lemma bitfield_refines_sets_facts:
  assumes "bf_wf bf"
  shows "bf_wf (bf_set bf i) \<and> {j. bf_has (bf_set bf i) j} = {j. bf_has bf j} \<union> ({i} \<inter> {..<bf_len bf})"
    and "bf_wf (bf_clear bf i) \<and> {j. bf_has (bf_clear bf i) j} = {j. bf_has bf j} - {i}"
    and "bf_wf (bf_empty n) \<and> {j. bf_has (bf_empty n) j} = {}"
    and "bf_wf (bf_full n) \<and> {j. bf_has (bf_full n) j} = {..<n}"
    and "bf_count bf = card {j. bf_has bf j}"
    and "bf_is_full bf \<longleftrightarrow> {j. bf_has bf j} = {..<bf_len bf}"
    and "set (iter_present bf) = {j. bf_has bf j} \<and> sorted_wrt (<) (iter_present bf)"
proof -
  show "bf_is_full bf \<longleftrightarrow> {j. bf_has bf j} = {..<bf_len bf}"
    using bf.cnt_full [OF assms] by (auto simp: bf_is_full_def dest: has_less_len)
  show "set (iter_present bf) = {j. bf_has bf j} \<and> sorted_wrt (<) (iter_present bf)"
    by (auto simp: iter_present_def sorted_wrt_filter dest: has_less_len)
qed (use assms in \<open>auto simp: set_wf clear_wf empty_wf full_wf has_set has_clear count_card\<close>)
text \<open>C34. A bitfield implements a set of piece indices below its length: \<^verbatim>\<open>set\<close>, \<^verbatim>\<open>clear\<close>,
  \<^verbatim>\<open>empty\<close> and \<^verbatim>\<open>full\<close> keep the representation well-formed and act as insertion, removal,
  the empty and the full set; \<^verbatim>\<open>count\<close> (a population count over bytes) is the set's cardinality
  and \<^verbatim>\<open>is_full\<close> holds exactly when every index is present.\<close>

theorem bitfield_refines_sets:
  assumes "bf_wf bf"
  shows "(bf_wf (bf_set bf i) \<and> {j. bf_has (bf_set bf i) j} = {j. bf_has bf j} \<union> ({i} \<inter> {..<bf_len bf})) \<and>
    (bf_wf (bf_clear bf i) \<and> {j. bf_has (bf_clear bf i) j} = {j. bf_has bf j} - {i}) \<and>
    (bf_wf (bf_empty n) \<and> {j. bf_has (bf_empty n) j} = {}) \<and>
    (bf_wf (bf_full n) \<and> {j. bf_has (bf_full n) j} = {..<n}) \<and>
    (bf_count bf = card {j. bf_has bf j}) \<and>
    (bf_is_full bf \<longleftrightarrow> {j. bf_has bf j} = {..<bf_len bf}) \<and>
    (set (iter_present bf) = {j. bf_has bf j} \<and> sorted_wrt (<) (iter_present bf))"
  by (simp only: bitfield_refines_sets_facts [OF assms] simp_thms)

theorem bitfield_refines_sets_witness:
  "{j. bf_has (bf_set (bf_empty 10) 9) j} = {9} \<and> bf_count (bf_empty 10) = 0"
proof -
  have wf: "bf_wf (bf_empty 10)" by (rule empty_wf)
  show ?thesis
    using bitfield_refines_sets [OF wf, of 9] by simp
qed

end
