(* ===== verification/Wire.thy ===== *)
theory Wire
  imports Prelude
begin

text \<open>
  The peer wire protocol (\<^verbatim>\<open>crates/clove-core/src/wire.rs\<close>): messages, their bodies and
  frames, the handshake, and blocking framing over a byte stream. A reader is the bytes it
  will still deliver before end of file; \<^verbatim>\<open>read_exact\<close> fails when there are too few.
  Multi-byte fields are 32-bit naturals in big-endian order.
\<close>

unbundle bit_operations_syntax

subsection \<open>Messages\<close>

definition PROTOCOL :: bytes where "PROTOCOL = ascii ''BitTorrent protocol''"
definition BLOCK_LEN :: nat where "BLOCK_LEN = 16 * 1024"
definition MAX_MESSAGE_LEN :: nat where "MAX_MESSAGE_LEN = 1024 * 1024"

record block_request =
  br_index :: nat
  br_begin :: nat
  br_length :: nat

datatype message =
    KeepAlive
  | Choke
  | Unchoke
  | Interested
  | NotInterested
  | Have nat
  | BitfieldMsg bytes
  | Request block_request
  | Piece nat nat bytes
  | Cancel block_request
  | HaveAll
  | HaveNone
  | SuggestPiece nat
  | RejectRequest block_request
  | AllowedFast nat
  | Extended byte bytes

datatype wire_error = UnknownId byte | BadLength | BlockTooLarge

definition ID_CHOKE :: byte where "ID_CHOKE = 0"
definition ID_UNCHOKE :: byte where "ID_UNCHOKE = 1"
definition ID_INTERESTED :: byte where "ID_INTERESTED = 2"
definition ID_NOT_INTERESTED :: byte where "ID_NOT_INTERESTED = 3"
definition ID_HAVE :: byte where "ID_HAVE = 4"
definition ID_BITFIELD :: byte where "ID_BITFIELD = 5"
definition ID_REQUEST :: byte where "ID_REQUEST = 6"
definition ID_PIECE :: byte where "ID_PIECE = 7"
definition ID_CANCEL :: byte where "ID_CANCEL = 8"
definition ID_SUGGEST :: byte where "ID_SUGGEST = 13"
definition ID_HAVE_ALL :: byte where "ID_HAVE_ALL = 14"
definition ID_HAVE_NONE :: byte where "ID_HAVE_NONE = 15"
definition ID_REJECT :: byte where "ID_REJECT = 16"
definition ID_ALLOWED_FAST :: byte where "ID_ALLOWED_FAST = 17"
definition ID_EXTENDED :: byte where "ID_EXTENDED = 20"

lemmas wire_ids = ID_CHOKE_def ID_UNCHOKE_def ID_INTERESTED_def ID_NOT_INTERESTED_def ID_HAVE_def
  ID_BITFIELD_def ID_REQUEST_def ID_PIECE_def ID_CANCEL_def ID_SUGGEST_def ID_HAVE_ALL_def
  ID_HAVE_NONE_def ID_REJECT_def ID_ALLOWED_FAST_def ID_EXTENDED_def

definition empty_body :: "bytes \<Rightarrow> message \<Rightarrow> wire_error + message" where
  "empty_body rest msg = (if rest = [] then Inr msg else Inl BadLength)"

fun u32_at :: "bytes \<Rightarrow> wire_error + nat" where
  "u32_at [a, b, c, d] = Inr (from_be32 a b c d)"
| "u32_at _ = Inl BadLength"

fun parse_block_request :: "bytes \<Rightarrow> wire_error + block_request" where
  "parse_block_request [i0, i1, i2, i3, b0, b1, b2, b3, l0, l1, l2, l3] =
     (let len = from_be32 l0 l1 l2 l3 in
      if len > BLOCK_LEN then Inl BlockTooLarge
      else Inr \<lparr>br_index = from_be32 i0 i1 i2 i3, br_begin = from_be32 b0 b1 b2 b3, br_length = len\<rparr>)"
| "parse_block_request _ = Inl BadLength"

definition put_block :: "byte \<Rightarrow> block_request \<Rightarrow> bytes" where
  "put_block mid b = mid # be32 (br_index b) @ be32 (br_begin b) @ be32 (br_length b)"

definition msg_parse :: "bytes \<Rightarrow> wire_error + message" where
  "msg_parse body =
     (case body of
        [] \<Rightarrow> Inr KeepAlive
      | mid # rest \<Rightarrow>
          if mid = ID_CHOKE then empty_body rest Choke
          else if mid = ID_UNCHOKE then empty_body rest Unchoke
          else if mid = ID_INTERESTED then empty_body rest Interested
          else if mid = ID_NOT_INTERESTED then empty_body rest NotInterested
          else if mid = ID_HAVE then map_sum (\<lambda>e. e) Have (u32_at rest)
          else if mid = ID_BITFIELD then Inr (BitfieldMsg rest)
          else if mid = ID_REQUEST then map_sum (\<lambda>e. e) Request (parse_block_request rest)
          else if mid = ID_CANCEL then map_sum (\<lambda>e. e) Cancel (parse_block_request rest)
          else if mid = ID_PIECE then
            (if length rest < 8 then Inl BadLength
             else
               let index = from_be32 (rest ! 0) (rest ! 1) (rest ! 2) (rest ! 3);
                   begn = from_be32 (rest ! 4) (rest ! 5) (rest ! 6) (rest ! 7);
                   block = drop 8 rest in
               if length block > BLOCK_LEN then Inl BlockTooLarge else Inr (Piece index begn block))
          else if mid = ID_SUGGEST then map_sum (\<lambda>e. e) SuggestPiece (u32_at rest)
          else if mid = ID_HAVE_ALL then empty_body rest HaveAll
          else if mid = ID_HAVE_NONE then empty_body rest HaveNone
          else if mid = ID_REJECT then map_sum (\<lambda>e. e) RejectRequest (parse_block_request rest)
          else if mid = ID_ALLOWED_FAST then map_sum (\<lambda>e. e) AllowedFast (u32_at rest)
          else if mid = ID_EXTENDED then
            (case rest of [] \<Rightarrow> Inl BadLength | sub # payload \<Rightarrow> Inr (Extended sub payload))
          else Inl (UnknownId mid))"

fun put_body :: "message \<Rightarrow> bytes" where
  "put_body KeepAlive = []"
| "put_body Choke = [ID_CHOKE]"
| "put_body Unchoke = [ID_UNCHOKE]"
| "put_body Interested = [ID_INTERESTED]"
| "put_body NotInterested = [ID_NOT_INTERESTED]"
| "put_body (Have index) = ID_HAVE # be32 index"
| "put_body (BitfieldMsg bits) = ID_BITFIELD # bits"
| "put_body (Request b) = put_block ID_REQUEST b"
| "put_body (Cancel b) = put_block ID_CANCEL b"
| "put_body (Piece index begn block) = ID_PIECE # be32 index @ be32 begn @ block"
| "put_body (SuggestPiece index) = ID_SUGGEST # be32 index"
| "put_body HaveAll = [ID_HAVE_ALL]"
| "put_body HaveNone = [ID_HAVE_NONE]"
| "put_body (RejectRequest b) = put_block ID_REJECT b"
| "put_body (AllowedFast index) = ID_ALLOWED_FAST # be32 index"
| "put_body (Extended sub payload) = ID_EXTENDED # sub # payload"

text \<open>\<^verbatim>\<open>encode_into\<close> reserves four bytes, appends the body and patches the length.\<close>

definition msg_encode_into :: "message \<Rightarrow> bytes \<Rightarrow> bytes" where
  "msg_encode_into msg out =
     (let start = length out;
          out1 = out @ [0, 0, 0, 0] @ put_body msg;
          body_len = u32_clamp (length out1 - start - 4) in
      copy_at start (be32 body_len) out1)"

definition msg_encode :: "message \<Rightarrow> bytes" where
  "msg_encode msg = msg_encode_into msg []"

subsection \<open>Handshake\<close>

record extensions =
  ext_extended :: bool
  ext_fast :: bool

record handshake =
  hs_info_hash :: bytes
  hs_peer_id :: bytes
  hs_extensions :: extensions

datatype handshake_error = BadProtocol

definition HANDSHAKE_LEN :: nat where "HANDSHAKE_LEN = 68"

definition hs_encode :: "handshake \<Rightarrow> bytes" where
  "hs_encode h =
     (let out = replicate HANDSHAKE_LEN 0;
          out = out[0 := 19];
          out = copy_at 1 PROTOCOL out;
          out = (if ext_fast (hs_extensions h) then out[27 := out ! 27 OR 0x04] else out);
          out = (if ext_extended (hs_extensions h) then out[25 := out ! 25 OR 0x10] else out);
          out = copy_at 28 (hs_info_hash h) out in
      copy_at 48 (hs_peer_id h) out)"

definition hs_parse :: "bytes \<Rightarrow> handshake_error + handshake" where
  "hs_parse buf =
     (if buf ! 0 \<noteq> 19 \<or> byte_range (1, 20) buf \<noteq> PROTOCOL then Inl BadProtocol
      else Inr \<lparr>hs_info_hash = byte_range (28, 48) buf, hs_peer_id = byte_range (48, 68) buf,
                hs_extensions = \<lparr>ext_extended = buf ! 25 AND 0x10 \<noteq> 0, ext_fast = buf ! 27 AND 0x04 \<noteq> 0\<rparr>\<rparr>)"

subsection \<open>Framing over a stream\<close>

datatype io_error = UnexpectedEof | InvalidData

definition read_exact :: "nat \<Rightarrow> bytes \<Rightarrow> io_error + (bytes \<times> bytes)" where
  "read_exact n reader =
     (if n \<le> length reader then Inr (take n reader, drop n reader) else Inl UnexpectedEof)"

definition read_frame_into :: "bytes \<Rightarrow> nat \<Rightarrow> io_error + (bytes \<times> bytes)" where
  "read_frame_into reader max_len =
     (case read_exact 4 reader of
        Inl e \<Rightarrow> Inl e
      | Inr (len_buf, reader1) \<Rightarrow>
          let len = from_be32 (len_buf ! 0) (len_buf ! 1) (len_buf ! 2) (len_buf ! 3) in
          if len > min max_len MAX_MESSAGE_LEN then Inl InvalidData
          else read_exact len reader1)"

abbreviation read_frame :: "bytes \<Rightarrow> nat \<Rightarrow> io_error + (bytes \<times> bytes)" where
  "read_frame reader max_len \<equiv> read_frame_into reader max_len"

definition write_message :: "bytes \<Rightarrow> message \<Rightarrow> bytes" where
  "write_message writer msg = writer @ msg_encode msg"

text \<open>A peer's reader thread: read a frame, parse it, until the stream ends or a frame is bad.\<close>

datatype read_end = ReadIo io_error | ReadBad wire_error

function read_messages :: "bytes \<Rightarrow> nat \<Rightarrow> message list \<times> read_end" where
  "read_messages reader max_len =
     (case read_frame reader max_len of
        Inl e \<Rightarrow> ([], ReadIo e)
      | Inr (body, reader') \<Rightarrow>
          (case msg_parse body of
             Inl e \<Rightarrow> ([], ReadBad e)
           | Inr m \<Rightarrow> (let (ms, e) = read_messages reader' max_len in (m # ms, e))))"
  by pat_completeness auto
termination
  by (relation "measure (\<lambda>(reader, max_len). length reader)")
    (auto simp: read_frame_into_def read_exact_def Let_def split: if_splits)

declare read_messages.simps [simp del]

subsection \<open>Bodies\<close>

definition br_ok :: "block_request \<Rightarrow> bool" where
  "br_ok b \<longleftrightarrow> br_index b \<le> u32_max \<and> br_begin b \<le> u32_max \<and> br_length b \<le> BLOCK_LEN"

text \<open>The values a \<^verbatim>\<open>Message\<close> of the program can have, with blocks within the cap.\<close>

fun msg_ok :: "message \<Rightarrow> bool" where
  "msg_ok (Have i) = (i \<le> u32_max)"
| "msg_ok (SuggestPiece i) = (i \<le> u32_max)"
| "msg_ok (AllowedFast i) = (i \<le> u32_max)"
| "msg_ok (Request b) = br_ok b"
| "msg_ok (Cancel b) = br_ok b"
| "msg_ok (RejectRequest b) = br_ok b"
| "msg_ok (Piece i b d) = (i \<le> u32_max \<and> b \<le> u32_max \<and> length d \<le> BLOCK_LEN)"
| "msg_ok _ = True"

lemma block_len_u32: "n \<le> BLOCK_LEN \<Longrightarrow> n \<le> u32_max"
  by (simp add: BLOCK_LEN_def u32_max_def)

lemma u32_at_be32 [simp]: "n \<le> u32_max \<Longrightarrow> u32_at (be32 n) = Inr n"
  by (simp add: be32_def)

lemma u32_at_Inr: "u32_at bs = Inr n \<longleftrightarrow> n \<le> u32_max \<and> bs = be32 n"
proof
  assume "u32_at bs = Inr n"
  then show "n \<le> u32_max \<and> bs = be32 n" by (cases bs rule: u32_at.cases) auto
qed simp

lemma parse_block_request_put [simp]:
  "br_ok b \<Longrightarrow> parse_block_request (be32 (br_index b) @ be32 (br_begin b) @ be32 (br_length b)) = Inr b"
  using from_be32_be32 [of "br_index b"] from_be32_be32 [of "br_begin b"]
    from_be32_be32 [of "br_length b"] block_len_u32 [of "br_length b"]
  by (simp add: br_ok_def be32_def Let_def)

lemma parse_block_request_Inr:
  "parse_block_request bs = Inr b \<longleftrightarrow>
     br_ok b \<and> bs = be32 (br_index b) @ be32 (br_begin b) @ be32 (br_length b)"
proof
  assume "parse_block_request bs = Inr b"
  then show "br_ok b \<and> bs = be32 (br_index b) @ be32 (br_begin b) @ be32 (br_length b)"
    by (cases bs rule: parse_block_request.cases) (auto simp: Let_def br_ok_def split: if_splits)
qed auto

lemma map_sum_Inr: "map_sum f g s = Inr y \<longleftrightarrow> (\<exists>x. s = Inr x \<and> y = g x)"
  by (cases s) auto

lemma list_8_cases:
  assumes "8 \<le> length xs"
  obtains a b c d e f g h ys where "xs = a # b # c # d # e # f # g # h # ys"
  using assms by (auto simp: numeral_eq_Suc Suc_le_length_iff)

lemma msg_parse_put: "msg_ok m \<Longrightarrow> msg_parse (put_body m) = Inr m"
  by (cases m)
    (simp_all add: msg_parse_def wire_ids empty_body_def put_block_def,
     simp add: be32_def)

lemma msg_parse_Inr: "msg_parse body = Inr m \<Longrightarrow> msg_ok m \<and> put_body m = body"
proof (cases body)
  case (Cons mid rest)
  assume p: "msg_parse body = Inr m"
  have "mid = ID_PIECE \<Longrightarrow> ?thesis"
  proof -
    assume mid: "mid = ID_PIECE"
    then have "8 \<le> length rest" using p Cons by (auto simp: msg_parse_def wire_ids split: if_splits)
    then obtain a b c d e f g h ys where r: "rest = a # b # c # d # e # f # g # h # ys"
      by (rule list_8_cases)
    show ?thesis
      using p Cons mid r by (auto simp: msg_parse_def wire_ids Let_def split: if_splits)
  qed
  moreover have "mid \<noteq> ID_PIECE \<Longrightarrow> ?thesis"
    using p Cons
    by (auto simp: msg_parse_def empty_body_def put_block_def map_sum_Inr u32_at_Inr
        parse_block_request_Inr split: if_splits list.splits)
  ultimately show ?thesis by blast
qed (auto simp: msg_parse_def)

interpretation body: canonical_codec put_body msg_parse msg_ok
  by unfold_locales (auto simp: msg_parse_put dest: msg_parse_Inr)

subsection \<open>Frames\<close>

lemma msg_encode_into_frame:
  "msg_encode_into m out = out @ be32 (u32_clamp (length (put_body m))) @ put_body m"
  by (simp add: msg_encode_into_def copy_at_def Let_def)

lemma msg_encode_frame: "msg_encode m = be32 (u32_clamp (length (put_body m))) @ put_body m"
  by (simp add: msg_encode_def msg_encode_into_frame)

lemma read_exact_append [simp]: "read_exact (length a) (a @ r) = Inr (a, r)"
  by (simp add: read_exact_def)

lemma read_exact_4 [simp]: "read_exact 4 (be32 n @ r) = Inr (be32 n, r)"
  using read_exact_append [of "be32 n" r] by simp

lemma max_message_u32: "n \<le> MAX_MESSAGE_LEN \<Longrightarrow> n \<le> u32_max"
  by (simp add: MAX_MESSAGE_LEN_def u32_max_def)

lemma be32_field: "n \<le> u32_max \<Longrightarrow> from_be32 (be32 n ! 0) (be32 n ! Suc 0) (be32 n ! 2) (be32 n ! 3) = n"
  by (simp add: be32_def)

text \<open>A frame is read back whole, whatever follows it on the stream.\<close>

lemma read_frame_encode:
  assumes "length (put_body m) \<le> min max_len MAX_MESSAGE_LEN"
  shows "read_frame (msg_encode m @ rest) max_len = Inr (put_body m, rest)"
proof -
  have "length (put_body m) \<le> u32_max" using assms max_message_u32 by simp
  then show ?thesis
    using assms by (simp add: read_frame_into_def msg_encode_frame be32_field Let_def not_less)
qed

text \<open>The buffer a frame is read into never exceeds the caller's bound nor the global one, and
  the bytes consumed are exactly the prefix and the body.\<close>

lemma read_frame_sound:
  assumes "read_frame reader max_len = Inr (body, rest)"
  shows "reader = be32 (length body) @ body @ rest" "length body \<le> min max_len MAX_MESSAGE_LEN"
proof -
  have "4 \<le> length reader"
    using assms by (auto simp: read_frame_into_def read_exact_def split: if_splits)
  then obtain a b c d tl where r: "reader = a # b # c # d # tl"
    by (auto simp: numeral_eq_Suc Suc_le_length_iff)
  let ?n = "from_be32 a b c d"
  have n: "?n \<le> min max_len MAX_MESSAGE_LEN" "?n \<le> length tl" "body = take ?n tl" "rest = drop ?n tl"
    using assms by (auto simp: r read_frame_into_def read_exact_def Let_def split: if_splits)
  then show "length body \<le> min max_len MAX_MESSAGE_LEN" by simp
  show "reader = be32 (length body) @ body @ rest" using n by (simp add: r min_absorb2)
qed

lemma read_messages_cons:
  assumes "msg_ok m" "length (put_body m) \<le> min max_len MAX_MESSAGE_LEN"
  shows "read_messages (msg_encode m @ rest) max_len =
     (let (ms, e) = read_messages rest max_len in (m # ms, e))"
  using assms by (subst read_messages.simps) (simp add: read_frame_encode msg_parse_put)

lemma read_messages_eof: "read_messages [] max_len = ([], ReadIo UnexpectedEof)"
  by (subst read_messages.simps) (simp add: read_frame_into_def read_exact_def)

lemma read_messages_concat:
  "\<forall>m \<in> set ms. msg_ok m \<and> length (put_body m) \<le> min max_len MAX_MESSAGE_LEN \<Longrightarrow>
   read_messages (concat (map msg_encode ms)) max_len = (ms, ReadIo UnexpectedEof)"
  by (induction ms) (simp_all add: read_messages_eof read_messages_cons)

interpretation frame: prefix_codec msg_encode
    "\<lambda>b. case read_frame b MAX_MESSAGE_LEN of
           Inl e \<Rightarrow> Inl (ReadIo e)
         | Inr (body, rest) \<Rightarrow> (case msg_parse body of Inl e \<Rightarrow> Inl (ReadBad e)
                                | Inr m \<Rightarrow> Inr (m, length b - length rest))"
    "\<lambda>m. msg_ok m \<and> length (put_body m) \<le> MAX_MESSAGE_LEN" "\<lambda>_. True"
  by unfold_locales (simp add: read_frame_encode msg_parse_put)

subsection \<open>Handshakes\<close>

definition hs_ok :: "handshake \<Rightarrow> bool" where
  "hs_ok h \<longleftrightarrow> length (hs_info_hash h) = 20 \<and> length (hs_peer_id h) = 20"

definition hs_reserved :: "extensions \<Rightarrow> bytes" where
  "hs_reserved e =
     [0, 0, 0, 0, 0, if ext_extended e then 0x10 else 0, 0, if ext_fast e then 0x04 else 0]"

lemma length_protocol: "length PROTOCOL = 19"
  by (simp add: PROTOCOL_def ascii_def)

lemma hs_encode_layout:
  assumes "hs_ok h"
  shows "hs_encode h = (19 # PROTOCOL) @ hs_reserved (hs_extensions h) @ hs_info_hash h @ hs_peer_id h"
proof -
  note len = length_protocol assms [unfolded hs_ok_def]
  have "replicate 68 (0 :: byte) = 0 # replicate 67 0" by (simp flip: replicate_Suc)
  moreover have "replicate 48 (0 :: byte) = replicate 8 0 @ replicate 40 0" by (simp flip: replicate_add)
  ultimately have start: "copy_at 1 PROTOCOL ((replicate HANDSHAKE_LEN 0)[0 := 19]) =
      (19 # PROTOCOL) @ replicate 8 0 @ replicate 40 0"
    using len by (simp add: HANDSHAKE_LEN_def copy_at_def)
  have upd: "((19 # PROTOCOL) @ r @ z)[27 := x] = (19 # PROTOCOL) @ r[7 := x] @ z"
      "((19 # PROTOCOL) @ r @ z)[25 := x] = (19 # PROTOCOL) @ r[5 := x] @ z"
      "((19 # PROTOCOL) @ r @ z) ! 27 = r ! 7" "((19 # PROTOCOL) @ r @ z) ! 25 = r ! 5"
    if "length r = 8" for r z :: bytes and x :: byte
    using that len by (simp_all only: list_update_append nth_append) simp_all
  have fin: "copy_at 48 (hs_peer_id h) (copy_at 28 (hs_info_hash h) ((19 # PROTOCOL) @ r @ replicate 40 0))
      = (19 # PROTOCOL) @ r @ hs_info_hash h @ hs_peer_id h" if "length r = 8" for r
    using that len by (simp add: copy_at_def)
  have r8: "replicate 8 (0 :: byte) = [0, 0, 0, 0, 0, 0, 0, 0]" by (simp add: numeral_eq_Suc)
  show ?thesis
    unfolding hs_encode_def Let_def start
    by (simp add: upd fin hs_reserved_def r8 del: append_Cons cong: if_cong)
qed

lemma hs_parse_encode: "hs_ok h \<Longrightarrow> hs_parse (hs_encode h) = Inr h"
proof -
  assume ok: "hs_ok h"
  obtain ih pid ex fa where h: "h = \<lparr>hs_info_hash = ih, hs_peer_id = pid,
      hs_extensions = \<lparr>ext_extended = ex, ext_fast = fa\<rparr>\<rparr>"
    by (metis handshake.cases extensions.cases)
  have l: "length ih = 20" "length pid = 20" using ok h by (simp_all add: hs_ok_def)
  show ?thesis
    unfolding hs_encode_layout [OF ok]
    using l by (simp add: h hs_parse_def byte_range_def hs_reserved_def length_protocol nth_append)
qed

subsection \<open>Properties\<close>

text \<open>C30. \<^verbatim>\<open>Message::parse\<close> is canonical: a body parses to a message exactly when it is the body
  that message is written with and the message is within the protocol's bounds (32-bit fields,
  requests and blocks of at most 16 KiB). Every other body is refused.\<close>

theorem wire_parse_canonical: "msg_parse body = Inr m \<longleftrightarrow> msg_ok m \<and> body = put_body m"
  by (rule body.dec_iff)

text \<open>Framing: any sequence of admissible messages, written back to back, is read back as the same
  sequence by the reader loop, which then reports the end of the stream.\<close>

theorem wire_stream_roundtrip:
  assumes "\<forall>m \<in> set ms. msg_ok m \<and> length (put_body m) \<le> min max_len MAX_MESSAGE_LEN"
  shows "read_messages (foldl write_message [] ms) max_len = (ms, ReadIo UnexpectedEof)"
proof -
  have "foldl write_message out ms = out @ concat (map msg_encode ms)" for out
    by (induction ms arbitrary: out) (simp_all add: write_message_def)
  then show ?thesis using read_messages_concat [OF assms] by simp
qed

theorem wire_stream_roundtrip_witness:
  "read_messages (foldl write_message [] [KeepAlive, Have 258, Piece 1 16384 [7, 8, 9], Extended 0 [100, 101]]) 16393
   = ([KeepAlive, Have 258, Piece 1 16384 [7, 8, 9], Extended 0 [100, 101]], ReadIo UnexpectedEof)"
  by (rule wire_stream_roundtrip) (simp add: u32_max_def BLOCK_LEN_def MAX_MESSAGE_LEN_def)

text \<open>Allocation bound: a frame is delivered exactly when the stream starts with its length prefix
  and that many bytes, and the length is within the caller's ceiling and the global 1 MiB cap;
  nothing else of the stream is consumed, and every other stream is an error.\<close>

theorem read_frame_exact:
  "read_frame reader max_len = Inr (body, rest) \<longleftrightarrow>
     reader = be32 (length body) @ body @ rest \<and> length body \<le> min max_len MAX_MESSAGE_LEN"
proof
  assume "reader = be32 (length body) @ body @ rest \<and> length body \<le> min max_len MAX_MESSAGE_LEN"
  then show "read_frame reader max_len = Inr (body, rest)"
    using be32_field [OF max_message_u32, of "length body"]
    by (simp add: read_frame_into_def Let_def not_less)
qed (use read_frame_sound in blast)

lemma handshake_roundtrip_facts:
  assumes "hs_ok h"
  shows "length (hs_encode h) = HANDSHAKE_LEN" and "hs_parse (hs_encode h) = Inr h"
    and "length buf = HANDSHAKE_LEN \<Longrightarrow>
      (hs_parse buf = Inl BadProtocol \<longleftrightarrow> take 20 buf \<noteq> take 20 (hs_encode h))"
proof -
  show "length (hs_encode h) = HANDSHAKE_LEN"
    using assms by (simp add: hs_encode_layout length_protocol hs_reserved_def HANDSHAKE_LEN_def hs_ok_def)
  show "hs_parse (hs_encode h) = Inr h" using assms by (rule hs_parse_encode)
  assume len: "length buf = HANDSHAKE_LEN"
  then obtain b bs where b: "buf = b # bs" by (cases buf) (auto simp: HANDSHAKE_LEN_def)
  have "take 20 (hs_encode h) = 19 # PROTOCOL"
    unfolding hs_encode_layout [OF assms] by (simp add: length_protocol)
  then show "hs_parse buf = Inl BadProtocol \<longleftrightarrow> take 20 buf \<noteq> take 20 (hs_encode h)"
    by (simp add: b hs_parse_def byte_range_def)
qed
text \<open>The handshake is 68 bytes long, is parsed back to the same info-hash, peer id and extension
  bits, and any 68 bytes are refused exactly when the length byte or the protocol name differ.\<close>

theorem handshake_roundtrip:
  assumes "hs_ok h"
  shows "(length (hs_encode h) = HANDSHAKE_LEN) \<and>
    (hs_parse (hs_encode h) = Inr h) \<and>
    ((length buf = HANDSHAKE_LEN) \<longrightarrow> ((hs_parse buf = Inl BadProtocol \<longleftrightarrow> take 20 buf \<noteq> take 20 (hs_encode h))))"
  using handshake_roundtrip_facts [OF assms] by blast

theorem handshake_roundtrip_witness:
  "hs_parse (hs_encode \<lparr>hs_info_hash = replicate 20 7, hs_peer_id = replicate 20 9,
      hs_extensions = \<lparr>ext_extended = True, ext_fast = False\<rparr>\<rparr>)
   = Inr \<lparr>hs_info_hash = replicate 20 7, hs_peer_id = replicate 20 9,
      hs_extensions = \<lparr>ext_extended = True, ext_fast = False\<rparr>\<rparr>"
  by (rule handshake_roundtrip [THEN conjunct2, THEN conjunct1]) (simp add: hs_ok_def)

end
