(* ===== verification/Picker.thy ===== *)
theory Picker
  imports Bitfield Wire "HOL-Library.Product_Lexorder"
begin

text \<open>
  Piece selection (\<^verbatim>\<open>crates/clove-core/src/picker.rs\<close>): availability, verified pieces, block
  accounting of started pieces, priorities, and the choice of the next blocks to request from a
  peer. The record follows \<^verbatim>\<open>struct Picker\<close>; \<^verbatim>\<open>check_invariants\<close> is the source's own
  invariant check, proved here for every reachable picker. \<^verbatim>\<open>+=\<close> on 32-bit counters wraps, as
  in a release build; lookups of an index past the end of a table, which panic in the source, do
  not arise under the invariant.
\<close>

subsection \<open>State\<close>

definition DEFAULT_ENDGAME_BLOCKS :: nat where "DEFAULT_ENDGAME_BLOCKS = 32"

datatype pick_mode = RarestFirst | Sequential

record progress =
  pr_received :: "bool list"
  pr_in_flight :: "nat list"

definition progress_new :: "nat \<Rightarrow> progress" where
  "progress_new blocks = \<lparr>pr_received = replicate blocks False, pr_in_flight = replicate blocks 0\<rparr>"

definition received_count :: "progress \<Rightarrow> nat" where
  "received_count p = u32_clamp (length (filter (\<lambda>r. r) (pr_received p)))"

record picker =
  pk_num_pieces :: nat
  pk_piece_length :: nat
  pk_total_length :: nat
  pk_mode :: pick_mode
  pk_endgame_blocks :: nat
  pk_availability :: "nat list"
  pk_have :: bitfield
  pk_progress :: "(nat, progress) btree"
  pk_priority :: "nat list"
  pk_missing_wanted :: nat

definition picker_new :: "nat \<Rightarrow> nat \<Rightarrow> nat \<Rightarrow> pick_mode \<Rightarrow> picker" where
  "picker_new num_pieces piece_length total_length mode =
     \<lparr>pk_num_pieces = num_pieces, pk_piece_length = piece_length, pk_total_length = total_length,
      pk_mode = mode, pk_endgame_blocks = DEFAULT_ENDGAME_BLOCKS,
      pk_availability = replicate num_pieces 0, pk_have = bf_empty num_pieces, pk_progress = [],
      pk_priority = replicate num_pieces 1, pk_missing_wanted = num_pieces\<rparr>"

subsection \<open>Geometry and queries\<close>

definition piece_len :: "picker \<Rightarrow> nat \<Rightarrow> nat" where
  "piece_len p index =
     (let start = index * pk_piece_length p in
      if start \<ge> pk_total_length p then 0
      else u32_clamp (min (pk_total_length p - start) (pk_piece_length p)))"

definition blocks_in_piece :: "picker \<Rightarrow> nat \<Rightarrow> nat" where
  "blocks_in_piece p index = div_ceil (piece_len p index) BLOCK_LEN"

definition block_len :: "picker \<Rightarrow> nat \<Rightarrow> nat \<Rightarrow> nat" where
  "block_len p index block =
     (let plen = piece_len p index; begn = u32_sat_mul block BLOCK_LEN in
      if begn \<ge> plen then 0 else min (plen - begn) BLOCK_LEN)"

definition wants :: "picker \<Rightarrow> nat \<Rightarrow> bool" where
  "wants p index \<longleftrightarrow> index < length (pk_priority p) \<and> pk_priority p ! index > 0"

definition pk_has :: "picker \<Rightarrow> nat \<Rightarrow> bool" where
  "pk_has p index = bf_has (pk_have p) index"

definition wanted_count :: "picker \<Rightarrow> nat" where
  "wanted_count p =
     (let n = length (filter (\<lambda>x. x > 0) (pk_priority p)) in if n \<le> u32_max then n else pk_num_pieces p)"

definition missing :: "picker \<Rightarrow> nat list" where
  "missing p = filter (\<lambda>i. wants p i \<and> \<not> bf_has (pk_have p) i) [0..<pk_num_pieces p]"

definition bytes_left :: "picker \<Rightarrow> nat" where
  "bytes_left p = sum_list (map (piece_len p) (missing p))"

definition is_complete :: "picker \<Rightarrow> bool" where
  "is_complete p \<longleftrightarrow> pk_missing_wanted p = 0"

definition availability :: "picker \<Rightarrow> nat \<Rightarrow> nat" where
  "availability p index =
     (if index < length (pk_availability p) then pk_availability p ! index else 0)"

definition started_pieces :: "picker \<Rightarrow> nat" where
  "started_pieces p = length (pk_progress p)"

definition in_flight_total :: "picker \<Rightarrow> nat" where
  "in_flight_total p = sum_list (map (\<lambda>e. sum_list (pr_in_flight (snd e))) (pk_progress p))"

definition is_received :: "picker \<Rightarrow> nat \<Rightarrow> nat \<Rightarrow> bool" where
  "is_received p index block =
     (case bt_get (pk_progress p) index of
        None \<Rightarrow> False
      | Some pr \<Rightarrow> block < length (pr_received pr) \<and> pr_received pr ! block)"

definition check_invariants :: "picker \<Rightarrow> bool" where
  "check_invariants p \<longleftrightarrow>
     length (pk_availability p) = pk_num_pieces p \<and>
     bf_len (pk_have p) = pk_num_pieces p \<and>
     list_all (\<lambda>(index, pr).
       index < pk_num_pieces p \<and>
       length (pr_received pr) = blocks_in_piece p index \<and>
       length (pr_in_flight pr) = blocks_in_piece p index \<and>
       \<not> bf_has (pk_have p) index) (pk_progress p) \<and>
     length (pk_priority p) = pk_num_pieces p \<and>
     pk_missing_wanted p = length (missing p) \<and>
     is_complete p = list_all (\<lambda>i. \<not> wants p i \<or> bf_has (pk_have p) i) [0..<pk_num_pieces p] \<and>
     (bf_count (pk_have p) = pk_num_pieces p \<longrightarrow> is_complete p)"

subsection \<open>Operations\<close>

definition recount_missing :: "picker \<Rightarrow> picker" where
  "recount_missing p = p\<lparr>pk_missing_wanted := u32_clamp (length (missing p))\<rparr>"

definition set_piece_priorities :: "picker \<Rightarrow> nat list \<Rightarrow> picker" where
  "set_piece_priorities p per_piece =
     recount_missing
       (p\<lparr>pk_priority :=
           fold (\<lambda>i pri. pri[i := (if i < length per_piece then per_piece ! i else 1)])
             [0..<pk_num_pieces p] (pk_priority p)\<rparr>)"

definition set_mode :: "picker \<Rightarrow> pick_mode \<Rightarrow> picker" where
  "set_mode p mode = p\<lparr>pk_mode := mode\<rparr>"

definition set_endgame_blocks :: "picker \<Rightarrow> nat \<Rightarrow> picker" where
  "set_endgame_blocks p blocks = p\<lparr>pk_endgame_blocks := blocks\<rparr>"

definition add_bitfield :: "picker \<Rightarrow> bitfield \<Rightarrow> picker" where
  "add_bitfield p field =
     p\<lparr>pk_availability :=
         fold (\<lambda>i av. if bf_has field i then av[i := u32_add (av ! i) 1] else av)
           [0..<pk_num_pieces p] (pk_availability p)\<rparr>"

definition remove_bitfield :: "picker \<Rightarrow> bitfield \<Rightarrow> picker" where
  "remove_bitfield p field =
     p\<lparr>pk_availability :=
         fold (\<lambda>i av. if bf_has field i then av[i := av ! i - 1] else av)
           [0..<pk_num_pieces p] (pk_availability p)\<rparr>"

definition add_single :: "picker \<Rightarrow> nat \<Rightarrow> picker" where
  "add_single p index =
     (if index < pk_num_pieces p
      then p\<lparr>pk_availability := (pk_availability p)[index := u32_add (pk_availability p ! index) 1]\<rparr>
      else p)"

definition set_have :: "picker \<Rightarrow> nat \<Rightarrow> picker" where
  "set_have p index =
     (if index < pk_num_pieces p then
        (let p1 = (if \<not> bf_has (pk_have p) index \<and> wants p index
                   then p\<lparr>pk_missing_wanted := pk_missing_wanted p - 1\<rparr> else p) in
         p1\<lparr>pk_have := bf_set (pk_have p1) index, pk_progress := bt_remove index (pk_progress p1)\<rparr>)
      else p)"

definition reset_piece :: "picker \<Rightarrow> nat \<Rightarrow> picker" where
  "reset_piece p index =
     (if index < pk_num_pieces p then
        (let p1 = (if bf_has (pk_have p) index \<and> wants p index
                   then p\<lparr>pk_missing_wanted := u32_sat_add (pk_missing_wanted p) 1\<rparr> else p) in
         p1\<lparr>pk_progress := bt_remove index (pk_progress p1), pk_have := bf_clear (pk_have p1) index\<rparr>)
      else p)"

definition progress_mut :: "picker \<Rightarrow> nat \<Rightarrow> nat \<Rightarrow> (progress \<times> picker) option" where
  "progress_mut p index blocks =
     (if index \<ge> pk_num_pieces p \<or> bf_has (pk_have p) index then None
      else case bt_get (pk_progress p) index of
        Some pr \<Rightarrow> Some (pr, p)
      | None \<Rightarrow> (let pr = progress_new blocks in
                 Some (pr, p\<lparr>pk_progress := bt_insert index pr (pk_progress p)\<rparr>)))"

abbreviation put_progress :: "picker \<Rightarrow> nat \<Rightarrow> progress \<Rightarrow> picker" where
  "put_progress p index pr \<equiv> p\<lparr>pk_progress := bt_insert index pr (pk_progress p)\<rparr>"

definition block_received :: "picker \<Rightarrow> nat \<Rightarrow> nat \<Rightarrow> picker \<times> bool" where
  "block_received p index block =
     (let blocks = blocks_in_piece p index in
      case progress_mut p index blocks of
        None \<Rightarrow> (p, False)
      | Some (prog, p1) \<Rightarrow>
          if block < length (pr_received prog) then
            (let prog1 = prog\<lparr>pr_in_flight := (pr_in_flight prog)[block := pr_in_flight prog ! block - 1],
                              pr_received := (pr_received prog)[block := True]\<rparr> in
             (put_progress p1 index prog1, received_count prog1 = blocks))
          else (p1, False))"

definition block_failed :: "picker \<Rightarrow> nat \<Rightarrow> nat \<Rightarrow> picker" where
  "block_failed p index block =
     (case bt_get (pk_progress p) index of
        Some prog \<Rightarrow>
          if block < length (pr_in_flight prog)
          then put_progress p index
                 (prog\<lparr>pr_in_flight := (pr_in_flight prog)[block := pr_in_flight prog ! block - 1]\<rparr>)
          else p
      | None \<Rightarrow> p)"

subsection \<open>Choosing blocks\<close>

fun endgame_loop :: "picker \<Rightarrow> nat list \<Rightarrow> nat \<Rightarrow> bool" where
  "endgame_loop p [] remaining = True"
| "endgame_loop p (i # is) remaining =
     (if bf_has (pk_have p) i \<or> \<not> wants p i then endgame_loop p is remaining
      else
        (let received = (case bt_get (pk_progress p) i of Some pr \<Rightarrow> received_count pr | None \<Rightarrow> 0);
             remaining' = u32_sat_add remaining (blocks_in_piece p i - received) in
         if remaining' > pk_endgame_blocks p then False else endgame_loop p is remaining'))"

definition in_endgame :: "picker \<Rightarrow> bool" where
  "in_endgame p = (if pk_endgame_blocks p = 0 then False else endgame_loop p [0..<pk_num_pieces p] 0)"

definition pick_key :: "picker \<Rightarrow> nat \<Rightarrow> nat \<times> nat \<times> nat \<times> nat" where
  "pick_key p i =
     (let started = bt_get (pk_progress p) i \<noteq> None;
          grp = (if started then 0 else 1);
          urgency = 255 - pk_priority p ! i;
          rarity = (case pk_mode p of RarestFirst \<Rightarrow> pk_availability p ! i | Sequential \<Rightarrow> 0) in
      (grp, urgency, rarity, i))"

definition candidate_order :: "picker \<Rightarrow> bitfield \<Rightarrow> nat list" where
  "candidate_order p peer_has =
     sort_key (pick_key p)
       (filter (\<lambda>i. bf_has peer_has i \<and> \<not> bf_has (pk_have p) i \<and> wants p i) [0..<pk_num_pieces p])"

text \<open>The request for one block of a piece of length \<open>plen\<close>.\<close>

definition block_req :: "nat \<Rightarrow> nat \<Rightarrow> nat \<Rightarrow> block_request" where
  "block_req plen index block =
     (let begn = block * BLOCK_LEN in
      \<lparr>br_index = index, br_begin = begn, br_length = min (plen - begn) BLOCK_LEN\<rparr>)"

fun pick_blocks ::
  "bool \<Rightarrow> nat \<Rightarrow> nat \<Rightarrow> nat \<Rightarrow> nat list \<Rightarrow> progress \<Rightarrow> block_request list \<Rightarrow> progress \<times> block_request list" where
  "pick_blocks endgame want plen index [] prog out = (prog, out)"
| "pick_blocks endgame want plen index (b # bs) prog out =
     (if length out \<ge> want then (prog, out)
      else if pr_received prog ! b then pick_blocks endgame want plen index bs prog out
      else if \<not> endgame \<and> pr_in_flight prog ! b > 0 then pick_blocks endgame want plen index bs prog out
      else pick_blocks endgame want plen index bs
             (prog\<lparr>pr_in_flight := (pr_in_flight prog)[b := u32_add (pr_in_flight prog ! b) 1]\<rparr>)
             (out @ [block_req plen index b]))"

fun pick_pieces ::
  "bool \<Rightarrow> nat \<Rightarrow> nat list \<Rightarrow> picker \<Rightarrow> block_request list \<Rightarrow> picker \<times> block_request list" where
  "pick_pieces endgame want [] p out = (p, out)"
| "pick_pieces endgame want (index # is) p out =
     (if length out \<ge> want then (p, out)
      else
        (let blocks = blocks_in_piece p index; plen = piece_len p index in
         case progress_mut p index blocks of
           None \<Rightarrow> pick_pieces endgame want is p out
         | Some (prog, p1) \<Rightarrow>
             (let (prog1, out1) = pick_blocks endgame want plen index [0..<blocks] prog out in
              pick_pieces endgame want is (put_progress p1 index prog1) out1)))"

definition pick :: "picker \<Rightarrow> bitfield \<Rightarrow> nat \<Rightarrow> picker \<times> block_request list" where
  "pick p peer_has want =
     (if want = 0 then (p, [])
      else pick_pieces (in_endgame p) want (candidate_order p peer_has) p [])"

subsection \<open>The invariant\<close>

definition picker_inv :: "picker \<Rightarrow> bool" where
  "picker_inv p \<longleftrightarrow>
     bf_wf (pk_have p) \<and> bt_wf (pk_progress p) \<and> pk_num_pieces p \<le> u32_max \<and>
     length (pk_availability p) = pk_num_pieces p \<and> bf_len (pk_have p) = pk_num_pieces p \<and>
     length (pk_priority p) = pk_num_pieces p \<and> pk_missing_wanted p = length (missing p) \<and>
     (\<forall>i pr. bt_get (pk_progress p) i = Some pr \<longrightarrow>
        i < pk_num_pieces p \<and> length (pr_received pr) = blocks_in_piece p i \<and>
        length (pr_in_flight pr) = blocks_in_piece p i \<and> \<not> bf_has (pk_have p) i)"

lemma geometry_simps [simp]:
  "piece_len (p\<lparr>pk_have := h\<rparr>) = piece_len p" "piece_len (p\<lparr>pk_progress := g\<rparr>) = piece_len p"
  "piece_len (p\<lparr>pk_availability := a\<rparr>) = piece_len p" "piece_len (p\<lparr>pk_priority := r\<rparr>) = piece_len p"
  "piece_len (p\<lparr>pk_missing_wanted := m\<rparr>) = piece_len p" "piece_len (p\<lparr>pk_mode := d\<rparr>) = piece_len p"
  "piece_len (p\<lparr>pk_endgame_blocks := e\<rparr>) = piece_len p"
  by (simp_all add: piece_len_def fun_eq_iff Let_def)

lemma blocks_simps [simp]:
  "blocks_in_piece (p\<lparr>pk_have := h\<rparr>) = blocks_in_piece p"
  "blocks_in_piece (p\<lparr>pk_progress := g\<rparr>) = blocks_in_piece p"
  "blocks_in_piece (p\<lparr>pk_availability := a\<rparr>) = blocks_in_piece p"
  "blocks_in_piece (p\<lparr>pk_priority := r\<rparr>) = blocks_in_piece p"
  "blocks_in_piece (p\<lparr>pk_missing_wanted := m\<rparr>) = blocks_in_piece p"
  "blocks_in_piece (p\<lparr>pk_mode := d\<rparr>) = blocks_in_piece p"
  "blocks_in_piece (p\<lparr>pk_endgame_blocks := e\<rparr>) = blocks_in_piece p"
  by (simp_all add: blocks_in_piece_def fun_eq_iff)

lemma wants_simps [simp]:
  "wants (p\<lparr>pk_have := h\<rparr>) = wants p" "wants (p\<lparr>pk_progress := g\<rparr>) = wants p"
  "wants (p\<lparr>pk_availability := a\<rparr>) = wants p" "wants (p\<lparr>pk_missing_wanted := m\<rparr>) = wants p"
  "wants (p\<lparr>pk_mode := d\<rparr>) = wants p" "wants (p\<lparr>pk_endgame_blocks := e\<rparr>) = wants p"
  by (simp_all add: wants_def fun_eq_iff)

lemma missing_simps [simp]:
  "missing (p\<lparr>pk_progress := g\<rparr>) = missing p" "missing (p\<lparr>pk_availability := a\<rparr>) = missing p"
  "missing (p\<lparr>pk_missing_wanted := m\<rparr>) = missing p" "missing (p\<lparr>pk_mode := d\<rparr>) = missing p"
  "missing (p\<lparr>pk_endgame_blocks := e\<rparr>) = missing p"
  "missing (p\<lparr>pk_progress := g, pk_have := h\<rparr>) = missing (p\<lparr>pk_have := h\<rparr>)"
  "missing (p\<lparr>pk_missing_wanted := m, pk_have := h\<rparr>) = missing (p\<lparr>pk_have := h\<rparr>)"
  by (simp_all add: missing_def)

lemma missing_le: "length (missing p) \<le> pk_num_pieces p"
  unfolding missing_def by (metis length_filter_le length_upt minus_nat.diff_0)

lemma missing_empty: "missing p = [] \<longleftrightarrow> (\<forall>i < pk_num_pieces p. wants p i \<longrightarrow> bf_has (pk_have p) i)"
  by (auto simp: missing_def filter_empty_conv)

lemma inv_progressD:
  assumes "picker_inv p" "bt_get (pk_progress p) i = Some pr"
  shows "i < pk_num_pieces p" "length (pr_received pr) = blocks_in_piece p i"
    "length (pr_in_flight pr) = blocks_in_piece p i" "\<not> bf_has (pk_have p) i"
  using assms by (auto simp: picker_inv_def)

lemma picker_inv_check:
  assumes "picker_inv p"
  shows "check_invariants p"
proof -
  have complete: "is_complete p \<longleftrightarrow> (\<forall>i < pk_num_pieces p. wants p i \<longrightarrow> bf_has (pk_have p) i)"
    using assms missing_empty [of p] by (auto simp: is_complete_def picker_inv_def)
  have "is_complete p" if "bf_count (pk_have p) = pk_num_pieces p"
  proof -
    have "\<forall>i < pk_num_pieces p. bf_has (pk_have p) i"
      using assms that bf.cnt_full [of "pk_have p"] by (simp add: picker_inv_def)
    then show ?thesis by (simp add: complete)
  qed
  moreover have "list_all (\<lambda>(index, pr). index < pk_num_pieces p \<and>
       length (pr_received pr) = blocks_in_piece p index \<and>
       length (pr_in_flight pr) = blocks_in_piece p index \<and>
       \<not> bf_has (pk_have p) index) (pk_progress p)"
    using assms bt_get_in [of "pk_progress p"] by (fastforce simp: picker_inv_def list_all_iff)
  ultimately show ?thesis
    using assms complete by (auto simp: check_invariants_def picker_inv_def list_all_iff)
qed

lemma picker_new_inv [inv_intros]: "n \<le> u32_max \<Longrightarrow> picker_inv (picker_new n plen tlen mode)"
  by (simp add: picker_inv_def picker_new_def missing_def wants_def empty_wf)

lemma put_progress_inv:
  assumes "picker_inv p" "i < pk_num_pieces p" "\<not> bf_has (pk_have p) i"
    "length (pr_received pr) = blocks_in_piece p i" "length (pr_in_flight pr) = blocks_in_piece p i"
  shows "picker_inv (put_progress p i pr)"
  using assms by (simp add: picker_inv_def)

lemma progress_new_length [simp]:
  "length (pr_received (progress_new n)) = n" "length (pr_in_flight (progress_new n)) = n"
  by (simp_all add: progress_new_def)

lemma progress_mut_inv:
  assumes "picker_inv p" "progress_mut p i (blocks_in_piece p i) = Some (pr, p1)"
  shows "picker_inv p1" "i < pk_num_pieces p" "\<not> bf_has (pk_have p) i"
    "length (pr_received pr) = blocks_in_piece p i" "length (pr_in_flight pr) = blocks_in_piece p i"
    "\<exists>g. p1 = p\<lparr>pk_progress := g\<rparr>"
proof -
  show i: "i < pk_num_pieces p" "\<not> bf_has (pk_have p) i"
    using assms(2) by (auto simp: progress_mut_def split: if_splits)
  have "picker_inv p1 \<and> length (pr_received pr) = blocks_in_piece p i \<and>
    length (pr_in_flight pr) = blocks_in_piece p i \<and> (\<exists>g. p1 = p\<lparr>pk_progress := g\<rparr>)"
  proof (cases "bt_get (pk_progress p) i")
    case None
    then have new: "pr = progress_new (blocks_in_piece p i)" "p1 = put_progress p i pr"
      using assms(2) i by (auto simp: progress_mut_def Let_def)
    then have "picker_inv p1" using put_progress_inv [OF assms(1) i, of pr] by simp
    moreover have "\<exists>g. p1 = p\<lparr>pk_progress := g\<rparr>" unfolding new(2) by (rule exI) (rule refl)
    ultimately show ?thesis using new(1) by simp
  next
    case (Some pr')
    then have old: "pr' = pr" "p1 = p" using assms(2) i by (simp_all add: progress_mut_def)
    moreover have "\<exists>g. p = p\<lparr>pk_progress := g\<rparr>" by (rule exI [of _ "pk_progress p"]) simp
    ultimately show ?thesis using assms(1) inv_progressD(2,3) [OF assms(1)] Some by simp
  qed
  then show "picker_inv p1" "length (pr_received pr) = blocks_in_piece p i"
    "length (pr_in_flight pr) = blocks_in_piece p i" "\<exists>g. p1 = p\<lparr>pk_progress := g\<rparr>"
    by blast+
qed

lemma block_received_inv [inv_intros]:
  assumes "picker_inv p"
  shows "picker_inv (fst (block_received p i b))"
proof (cases "progress_mut p i (blocks_in_piece p i)")
  case None
  then show ?thesis using assms by (simp add: block_received_def)
next
  case (Some r)
  obtain pr p1 where r: "r = (pr, p1)" by (cases r)
  note m = progress_mut_inv [OF assms Some [unfolded r]]
  obtain g where "p1 = p\<lparr>pk_progress := g\<rparr>" using m(6) by blast
  then have "picker_inv (put_progress p1 i pr')"
    if "length (pr_received pr') = blocks_in_piece p i" "length (pr_in_flight pr') = blocks_in_piece p i" for pr'
    using put_progress_inv [OF m(1)] m(2,3) that by simp
  then show ?thesis using m(1,4,5) Some r by (simp add: block_received_def Let_def)
qed

lemma block_failed_inv [inv_intros]: "picker_inv p \<Longrightarrow> picker_inv (block_failed p i b)"
  using inv_progressD [of p i]
  by (auto simp: block_failed_def intro!: put_progress_inv split: option.splits)

lemma add_single_inv [inv_intros]: "picker_inv p \<Longrightarrow> picker_inv (add_single p i)"
  by (simp add: add_single_def picker_inv_def)

lemma set_mode_inv [inv_intros]: "picker_inv p \<Longrightarrow> picker_inv (set_mode p m)"
  and set_endgame_blocks_inv [inv_intros]: "picker_inv p \<Longrightarrow> picker_inv (set_endgame_blocks p b)"
  by (simp_all add: set_mode_def set_endgame_blocks_def picker_inv_def)

lemma add_bitfield_avail:
  "length (pk_availability p) = pk_num_pieces p \<Longrightarrow>
   pk_availability (add_bitfield p f) =
     map (\<lambda>i. if bf_has f i then u32_add (pk_availability p ! i) 1 else pk_availability p ! i)
       [0..<pk_num_pieces p]"
  using fold_upt_update [of "pk_num_pieces p" "pk_availability p" "bf_has f" "\<lambda>i a. u32_add a 1"]
  by (auto simp: add_bitfield_def)

lemma remove_bitfield_avail:
  "length (pk_availability p) = pk_num_pieces p \<Longrightarrow>
   pk_availability (remove_bitfield p f) =
     map (\<lambda>i. if bf_has f i then pk_availability p ! i - 1 else pk_availability p ! i)
       [0..<pk_num_pieces p]"
  using fold_upt_update [of "pk_num_pieces p" "pk_availability p" "bf_has f" "\<lambda>i a. a - 1"]
  by (auto simp: remove_bitfield_def)

lemma add_bitfield_inv [inv_intros]: "picker_inv p \<Longrightarrow> picker_inv (add_bitfield p f)"
  using add_bitfield_avail [of p f] by (simp add: picker_inv_def) (simp add: add_bitfield_def)

lemma remove_bitfield_inv [inv_intros]: "picker_inv p \<Longrightarrow> picker_inv (remove_bitfield p f)"
  using remove_bitfield_avail [of p f] by (simp add: picker_inv_def) (simp add: remove_bitfield_def)

lemma recount_inv:
  assumes "bf_wf (pk_have p)" "bt_wf (pk_progress p)" "pk_num_pieces p \<le> u32_max"
    "length (pk_availability p) = pk_num_pieces p" "bf_len (pk_have p) = pk_num_pieces p"
    "length (pk_priority p) = pk_num_pieces p"
    "\<And>i pr. bt_get (pk_progress p) i = Some pr \<Longrightarrow>
        i < pk_num_pieces p \<and> length (pr_received pr) = blocks_in_piece p i \<and>
        length (pr_in_flight pr) = blocks_in_piece p i \<and> \<not> bf_has (pk_have p) i"
  shows "picker_inv (recount_missing p)"
  using assms missing_le [of p] by (simp add: picker_inv_def recount_missing_def)

lemma fold_priorities:
  "length pri = n \<Longrightarrow>
   fold (\<lambda>i pri. pri[i := (if i < length per then per ! i else 1)]) [0..<n] pri =
     map (\<lambda>i. if i < length per then per ! i else 1) [0..<n]"
  using fold_upt_update [of n pri "\<lambda>_. True" "\<lambda>i _. if i < length per then per ! i else 1"]
  by (auto intro!: map_cong)

lemma set_piece_priorities_inv [inv_intros]: "picker_inv p \<Longrightarrow> picker_inv (set_piece_priorities p per)"
  unfolding set_piece_priorities_def
  by (rule recount_inv) (auto simp: picker_inv_def fold_priorities)

lemma missing_set:
  assumes "bf_wf (pk_have p)" "bf_len (pk_have p) = pk_num_pieces p" "i < pk_num_pieces p"
  shows "length (missing (p\<lparr>pk_have := bf_set (pk_have p) i\<rparr>)) =
    length (missing p) - (if \<not> bf_has (pk_have p) i \<and> wants p i then 1 else 0)"
proof -
  let ?P = "\<lambda>j. wants p j \<and> \<not> bf_has (pk_have p) j"
  have eq: "missing (p\<lparr>pk_have := bf_set (pk_have p) i\<rparr>) = filter (\<lambda>j. ?P j \<and> j \<noteq> i) [0..<pk_num_pieces p]"
    unfolding missing_def using assms by (intro filter_cong) (auto simp: has_set)
  show ?thesis
  proof (cases "?P i")
    case True
    then show ?thesis
      using length_filter_remove1 [of "[0..<pk_num_pieces p]" i ?P] assms(3)
      unfolding eq by (simp add: missing_def)
  next
    case False
    then have "filter (\<lambda>j. ?P j \<and> j \<noteq> i) [0..<pk_num_pieces p] = missing p"
      unfolding missing_def by (intro filter_cong) auto
    then show ?thesis using False unfolding eq by auto
  qed
qed

lemma missing_clear:
  assumes "bf_wf (pk_have p)" "bf_len (pk_have p) = pk_num_pieces p" "i < pk_num_pieces p"
  shows "length (missing (p\<lparr>pk_have := bf_clear (pk_have p) i\<rparr>)) =
    length (missing p) + (if bf_has (pk_have p) i \<and> wants p i then 1 else 0)"
proof (cases "bf_has (pk_have p) i")
  case True
  let ?h = "bf_clear (pk_have p) i"
  define q where "q = p\<lparr>pk_have := ?h\<rparr>"
  have wf: "bf_wf ?h" "bf_wf (bf_set ?h i)" using assms(1) by (simp_all add: clear_wf set_wf)
  have "bf_has (bf_set ?h i) = bf_has (pk_have p)"
    using assms True by (auto simp: clear_wf has_set has_clear fun_eq_iff)
  then have "bf_set ?h i = pk_have p" using wf assms(1) by (intro wf_ext) simp_all
  then have p: "q\<lparr>pk_have := bf_set (pk_have q) i\<rparr> = p" by (simp add: q_def)
  have q: "bf_wf (pk_have q)" "bf_len (pk_have q) = pk_num_pieces q" "i < pk_num_pieces q"
      "\<not> bf_has (pk_have q) i" "wants q i = wants p i"
    using assms wf(1) by (simp_all add: q_def has_clear)
  have "length (missing p) = length (missing q) - (if wants p i then 1 else 0)"
    using missing_set [OF q(1-3)] q(4,5) unfolding p by simp
  moreover have "i \<in> set (missing q)" if "wants p i" using q that by (simp add: missing_def)
  then have "0 < length (missing q)" if "wants p i" using that by (auto simp: length_pos_if_in_set)
  ultimately show ?thesis using True unfolding q_def by auto
next
  case False
  then have "bf_clear (pk_have p) i = pk_have p"
    using assms by (intro wf_ext) (auto simp: clear_wf has_clear fun_eq_iff)
  then show ?thesis using False by simp
qed

lemma set_have_inv [inv_intros]:
  assumes "picker_inv p"
  shows "picker_inv (set_have p i)"
proof (cases "i < pk_num_pieces p")
  case True
  then show ?thesis
    using assms missing_set [of p i]
    by (auto simp: picker_inv_def set_have_def Let_def set_wf has_set split: if_splits)
qed (use assms in \<open>simp add: set_have_def\<close>)

lemma reset_piece_inv [inv_intros]:
  assumes "picker_inv p"
  shows "picker_inv (reset_piece p i)"
proof (cases "i < pk_num_pieces p")
  case True
  have "length (missing p) + 1 \<le> u32_max" if "bf_has (pk_have p) i" "wants p i"
  proof -
    have "length (missing (p\<lparr>pk_have := bf_clear (pk_have p) i\<rparr>)) \<le> pk_num_pieces p"
      using missing_le [of "p\<lparr>pk_have := bf_clear (pk_have p) i\<rparr>"] by simp
    then show ?thesis using that missing_clear [of p i] True assms by (simp add: picker_inv_def)
  qed
  then show ?thesis
    using assms True missing_clear [of p i]
    by (auto simp: picker_inv_def reset_piece_def Let_def clear_wf has_clear u32_sat_add_def split: if_splits)
qed (use assms in \<open>simp add: reset_piece_def\<close>)

subsection \<open>What a pick returns\<close>

text \<open>
  The reference: the blocks of a piece that may be handed out, in order, and the requests for
  them. \<open>progress_of\<close> is the block accounting a piece has or would be given.
\<close>

definition progress_of :: "picker \<Rightarrow> nat \<Rightarrow> progress" where
  "progress_of p i =
     (case bt_get (pk_progress p) i of Some pr \<Rightarrow> pr | None \<Rightarrow> progress_new (blocks_in_piece p i))"

definition free_block :: "bool \<Rightarrow> progress \<Rightarrow> nat \<Rightarrow> bool" where
  "free_block endgame pr b \<longleftrightarrow> \<not> pr_received pr ! b \<and> (endgame \<or> pr_in_flight pr ! b = 0)"

definition free_reqs :: "bool \<Rightarrow> picker \<Rightarrow> nat \<Rightarrow> block_request list" where
  "free_reqs endgame p i =
     map (block_req (piece_len p i) i)
       (filter (free_block endgame (progress_of p i)) [0..<blocks_in_piece p i])"

definition in_flight_of :: "picker \<Rightarrow> nat \<Rightarrow> nat \<Rightarrow> nat" where
  "in_flight_of p i b =
     (case bt_get (pk_progress p) i of
        None \<Rightarrow> 0
      | Some pr \<Rightarrow> if b < length (pr_in_flight pr) then pr_in_flight pr ! b else 0)"

text \<open>The block a request asks for, as the torrent computes it from \<^verbatim>\<open>begin\<close>.\<close>

definition req_block :: "block_request \<Rightarrow> nat \<times> nat" where
  "req_block r = (br_index r, br_begin r div BLOCK_LEN)"

lemma BLOCK_LEN_pos [simp]: "0 < BLOCK_LEN"
  by (simp add: BLOCK_LEN_def)

lemma req_block_req [simp]: "req_block (block_req plen i b) = (i, b)"
  by (simp add: req_block_def block_req_def Let_def)

lemma br_index_req [simp]: "br_index (block_req plen i b) = i"
  by (simp add: block_req_def Let_def)

lemma block_req_inj [simp]: "block_req plen i b = block_req plen i c \<longleftrightarrow> b = c"
  by (metis req_block_req prod.inject)

definition bump :: "progress \<Rightarrow> nat list \<Rightarrow> progress" where
  "bump pr cs =
     pr\<lparr>pr_in_flight := map (\<lambda>b. if b \<in> set cs then u32_add (pr_in_flight pr ! b) 1 else pr_in_flight pr ! b)
                         [0..<length (pr_in_flight pr)]\<rparr>"

lemma bump_simps [simp]:
  "pr_received (bump pr cs) = pr_received pr" "length (pr_in_flight (bump pr cs)) = length (pr_in_flight pr)"
  "b < length (pr_in_flight pr) \<Longrightarrow> pr_in_flight (bump pr cs) ! b =
     (if b \<in> set cs then u32_add (pr_in_flight pr ! b) 1 else pr_in_flight pr ! b)"
  by (simp_all add: bump_def)

lemma bump_Nil [simp]: "bump pr [] = pr"
  by (simp add: bump_def map_nth)

lemma bump_Cons:
  assumes "b < length (pr_in_flight pr)" "b \<notin> set cs"
  shows "bump (pr\<lparr>pr_in_flight := (pr_in_flight pr)[b := u32_add (pr_in_flight pr ! b) 1]\<rparr>) cs = bump pr (b # cs)"
  by (rule progress.equality)
    (use assms in \<open>auto intro!: nth_equalityI simp: bump_def nth_list_update\<close>)

lemma pick_blocks_spec:
  assumes "distinct bs" "\<forall>b \<in> set bs. b < length (pr_in_flight pr)" "length out \<le> want"
    "cs = take (want - length out) (filter (free_block eg pr) bs)"
  shows "pick_blocks eg want plen i bs pr out = (bump pr cs, out @ map (block_req plen i) cs)"
  using assms
proof (induction bs arbitrary: pr out cs)
  case (Cons b bs)
  consider (full) "length out = want" | (taken) "length out < want" "\<not> free_block eg pr b"
    | (free) "length out < want" "free_block eg pr b"
    using Cons.prems(3) by linarith
  then show ?case
  proof cases
    case full
    then show ?thesis using Cons.prems by simp
  next
    case taken
    then have "pick_blocks eg want plen i (b # bs) pr out = pick_blocks eg want plen i bs pr out"
      by (auto simp: free_block_def)
    then show ?thesis using Cons taken by simp
  next
    case free
    let ?pr = "pr\<lparr>pr_in_flight := (pr_in_flight pr)[b := u32_add (pr_in_flight pr ! b) 1]\<rparr>"
    let ?out = "out @ [block_req plen i b]"
    have same: "filter (free_block eg ?pr) bs = filter (free_block eg pr) bs"
    proof (rule filter_cong [OF refl])
      fix x assume "x \<in> set bs"
      then have "b \<noteq> x" using Cons.prems(1) by auto
      then show "free_block eg ?pr x = free_block eg pr x" by (simp add: free_block_def)
    qed
    define cs' where "cs' = take (want - length ?out) (filter (free_block eg ?pr) bs)"
    have cs: "cs = b # cs'"
      using Cons.prems(4) free unfolding cs'_def same by (simp add: take_Cons' Suc_diff_Suc [symmetric])
    have "b \<notin> set cs'" using Cons.prems(1) by (auto simp: cs'_def dest: in_set_takeD)
    then have "bump ?pr cs' = bump pr cs" using Cons.prems(2) unfolding cs by (intro bump_Cons) simp
    moreover have "pick_blocks eg want plen i (b # bs) pr out = pick_blocks eg want plen i bs ?pr ?out"
      using free by (auto simp: free_block_def)
    moreover have "\<dots> = (bump ?pr cs', ?out @ map (block_req plen i) cs')"
      using Cons.prems free by (intro Cons.IH) (auto simp: cs'_def)
    ultimately show ?thesis by (simp add: cs)
  qed
qed simp

text \<open>One round of the loop over pieces.\<close>

definition chosen :: "bool \<Rightarrow> nat \<Rightarrow> picker \<Rightarrow> nat \<Rightarrow> nat list" where
  "chosen eg k p i = take k (filter (free_block eg (progress_of p i)) [0..<blocks_in_piece p i])"

lemma progress_of_length:
  assumes "picker_inv p"
  shows "length (pr_received (progress_of p i)) = blocks_in_piece p i"
    "length (pr_in_flight (progress_of p i)) = blocks_in_piece p i"
  using inv_progressD [OF assms, of i] by (auto simp: progress_of_def split: option.splits)

lemma bt_insert_twice: "bt_insert k v (bt_insert k w m) = bt_insert k v m"
  by (induction m) auto

lemma pick_pieces_step:
  assumes "picker_inv p" "i < pk_num_pieces p" "\<not> bf_has (pk_have p) i" "length out < want"
  shows "pick_pieces eg want (i # is) p out =
     pick_pieces eg want is (put_progress p i (bump (progress_of p i) (chosen eg (want - length out) p i)))
       (out @ map (block_req (piece_len p i) i) (chosen eg (want - length out) p i))"
proof -
  let ?cs = "chosen eg (want - length out) p i"
  have blocks: "pick_blocks eg want (piece_len p i) i [0..<blocks_in_piece p i] (progress_of p i) out
      = (bump (progress_of p i) ?cs, out @ map (block_req (piece_len p i) i) ?cs)"
    using assms(1,4) by (intro pick_blocks_spec) (auto simp: chosen_def progress_of_length)
  obtain p1 where p1: "progress_mut p i (blocks_in_piece p i) = Some (progress_of p i, p1)"
      "put_progress p1 i pr = put_progress p i pr" for pr
    using assms(2,3)
    by (cases "bt_get (pk_progress p) i")
      (auto simp: progress_mut_def progress_of_def Let_def bt_insert_twice)
  show ?thesis using assms(4) by (simp add: p1 blocks)
qed

lemma pick_step_inv:
  assumes "picker_inv p" "i < pk_num_pieces p" "\<not> bf_has (pk_have p) i"
  shows "picker_inv (put_progress p i (bump (progress_of p i) cs))"
  using assms by (intro put_progress_inv) (simp_all add: progress_of_length)

lemma progress_of_put [simp]: "progress_of (put_progress p i pr) j = (if j = i then pr else progress_of p j)"
  by (cases "bt_get (pk_progress p) j") (simp_all add: progress_of_def)

lemma free_reqs_put: "j \<noteq> i \<Longrightarrow> free_reqs eg (put_progress p i pr) j = free_reqs eg p j"
  by (simp add: free_reqs_def)

text \<open>The requests are a prefix of all admissible ones, piece after piece.\<close>

lemma pick_pieces_out:
  assumes "picker_inv p" "distinct is" "\<forall>i \<in> set is. i < pk_num_pieces p \<and> \<not> bf_has (pk_have p) i"
    "length out \<le> want"
  shows "snd (pick_pieces eg want is p out) = take want (out @ concat (map (free_reqs eg p) is))"
  using assms
proof (induction "is" arbitrary: p out)
  case (Cons i "is")
  show ?case
  proof (cases "length out = want")
    case False
    then have lt: "length out < want" using Cons.prems(4) by simp
    let ?cs = "chosen eg (want - length out) p i"
    let ?p = "put_progress p i (bump (progress_of p i) ?cs)"
    let ?out = "out @ map (block_req (piece_len p i) i) ?cs"
    have cs: "map (block_req (piece_len p i) i) ?cs = take (want - length out) (free_reqs eg p i)"
      by (simp add: chosen_def free_reqs_def take_map)
    have "snd (pick_pieces eg want (i # is) p out) = snd (pick_pieces eg want is ?p ?out)"
      using pick_pieces_step [of p i out want eg "is"] Cons.prems lt by simp
    also have "\<dots> = take want (?out @ concat (map (free_reqs eg ?p) is))"
      using Cons.prems lt pick_step_inv [of p i] by (intro Cons.IH) (auto simp: chosen_def)
    also have "map (free_reqs eg ?p) is = map (free_reqs eg p) is"
      using Cons.prems(2) by (intro map_cong [OF refl] free_reqs_put) auto
    also have "take want (?out @ concat (map (free_reqs eg p) is)) =
        take want (out @ concat (map (free_reqs eg p) (i # is)))"
      unfolding cs using lt by (cases "want - length out \<le> length (free_reqs eg p i)") auto
    finally show ?thesis .
  qed (use Cons in simp)
qed simp

lemma pick_pieces_inv:
  assumes "picker_inv p" "\<forall>i \<in> set is. i < pk_num_pieces p \<and> \<not> bf_has (pk_have p) i" "length out \<le> want"
  shows "picker_inv (fst (pick_pieces eg want is p out)) \<and>
    (\<exists>g. fst (pick_pieces eg want is p out) = p\<lparr>pk_progress := g\<rparr>)"
  using assms
proof (induction "is" arbitrary: p out)
  case Nil
  have "p = p\<lparr>pk_progress := pk_progress p\<rparr>" by simp
  then show ?case using Nil by (simp add: exI [of _ "pk_progress p"])
next
  case (Cons i "is")
  show ?case
  proof (cases "length out = want")
    case True
    have "p = p\<lparr>pk_progress := pk_progress p\<rparr>" by simp
    then show ?thesis using True Cons.prems by (simp add: exI [of _ "pk_progress p"])
  next
    case False
    then have lt: "length out < want" using Cons.prems(3) by simp
    let ?cs = "chosen eg (want - length out) p i"
    let ?p = "put_progress p i (bump (progress_of p i) ?cs)"
    let ?out = "out @ map (block_req (piece_len p i) i) ?cs"
    have "fst (pick_pieces eg want (i # is) p out) = fst (pick_pieces eg want is ?p ?out)"
      using pick_pieces_step [of p i out want eg "is"] Cons.prems lt by simp
    moreover have "picker_inv (fst (pick_pieces eg want is ?p ?out)) \<and>
        (\<exists>g. fst (pick_pieces eg want is ?p ?out) = ?p\<lparr>pk_progress := g\<rparr>)"
      using Cons.prems lt pick_step_inv [of p i] by (intro Cons.IH) (auto simp: chosen_def)
    ultimately show ?thesis by auto
  qed
qed

lemma in_flight_of_put:
  "in_flight_of (put_progress p i pr) j b =
     (if j = i then (if b < length (pr_in_flight pr) then pr_in_flight pr ! b else 0) else in_flight_of p j b)"
  by (simp add: in_flight_of_def)

lemma is_received_put:
  "is_received (put_progress p i pr) j b =
     (if j = i then b < length (pr_received pr) \<and> pr_received pr ! b else is_received p j b)"
  by (simp add: is_received_def)

lemma progress_of_views:
  assumes "picker_inv p" "b < blocks_in_piece p i"
  shows "pr_in_flight (progress_of p i) ! b = in_flight_of p i b"
    "pr_received (progress_of p i) ! b = is_received p i b"
  using assms inv_progressD [OF assms(1), of i]
  by (cases "bt_get (pk_progress p) i"; simp add: progress_of_def in_flight_of_def is_received_def progress_new_def)+

lemma in_flight_of_out_of_range:
  assumes "picker_inv p" "\<not> b < blocks_in_piece p i"
  shows "in_flight_of p i b = 0"
  using assms inv_progressD [OF assms(1), of i]
  by (cases "bt_get (pk_progress p) i") (simp_all add: in_flight_of_def)

lemma is_received_out_of_range:
  assumes "picker_inv p" "\<not> b < blocks_in_piece p i"
  shows "\<not> is_received p i b"
  using assms inv_progressD [OF assms(1), of i]
  by (cases "bt_get (pk_progress p) i") (simp_all add: is_received_def)

text \<open>One round of the loop: received blocks are untouched, chosen blocks gain one request.\<close>

lemma pick_step_views:
  assumes "picker_inv p" "set cs \<subseteq> {..<blocks_in_piece p i}"
  shows "is_received (put_progress p i (bump (progress_of p i) cs)) j b = is_received p j b"
    "in_flight_of (put_progress p i (bump (progress_of p i) cs)) j b =
       (if (j, b) \<in> Pair i ` set cs then u32_add (in_flight_of p j b) 1 else in_flight_of p j b)"
proof -
  note len = progress_of_length [OF assms(1), of i]
  show "is_received (put_progress p i (bump (progress_of p i) cs)) j b = is_received p j b"
    using is_received_out_of_range [OF assms(1), of b i] progress_of_views(2) [OF assms(1), of b i]
    by (auto simp: is_received_put len)
  show "in_flight_of (put_progress p i (bump (progress_of p i) cs)) j b =
       (if (j, b) \<in> Pair i ` set cs then u32_add (in_flight_of p j b) 1 else in_flight_of p j b)"
    using in_flight_of_out_of_range [OF assms(1), of b i] progress_of_views(1) [OF assms(1), of b i] assms(2)
    by (auto simp: in_flight_of_put len)
qed

lemma pick_pieces_views:
  assumes "picker_inv p" "distinct is" "\<forall>i \<in> set is. i < pk_num_pieces p \<and> \<not> bf_has (pk_have p) i"
    "length out \<le> want"
  shows "\<exists>new. snd (pick_pieces eg want is p out) = out @ new \<and> fst ` req_block ` set new \<subseteq> set is \<and>
      (\<forall>j b. is_received (fst (pick_pieces eg want is p out)) j b = is_received p j b \<and>
        in_flight_of (fst (pick_pieces eg want is p out)) j b =
        (if (j, b) \<in> req_block ` set new then u32_add (in_flight_of p j b) 1 else in_flight_of p j b))"
  using assms
proof (induction "is" arbitrary: p out)
  case (Cons i "is")
  show ?case
  proof (cases "length out = want")
    case False
    then have lt: "length out < want" using Cons.prems(4) by simp
    let ?cs = "chosen eg (want - length out) p i"
    define q where "q = put_progress p i (bump (progress_of p i) ?cs)"
    define news where "news = map (block_req (piece_len p i) i) ?cs"
    have sub: "set ?cs \<subseteq> {..<blocks_in_piece p i}" by (auto simp: chosen_def dest: in_set_takeD)
    have step: "pick_pieces eg want (i # is) p out = pick_pieces eg want is q (out @ news)"
      using pick_pieces_step [of p i out want eg "is"] Cons.prems lt by (simp add: q_def news_def)
    have "picker_inv q" using Cons.prems by (simp add: q_def pick_step_inv)
    moreover have "pk_num_pieces q = pk_num_pieces p" "pk_have q = pk_have p" by (simp_all add: q_def)
    moreover have "length (out @ news) \<le> want" using lt by (simp add: news_def chosen_def)
    ultimately obtain new where new:
        "snd (pick_pieces eg want is q (out @ news)) = (out @ news) @ new" "fst ` req_block ` set new \<subseteq> set is"
        "\<And>j b. is_received (fst (pick_pieces eg want is q (out @ news))) j b = is_received q j b"
        "\<And>j b. in_flight_of (fst (pick_pieces eg want is q (out @ news))) j b =
          (if (j, b) \<in> req_block ` set new then u32_add (in_flight_of q j b) 1 else in_flight_of q j b)"
      using Cons.IH [of q "out @ news"] Cons.prems by auto
    have rb: "req_block ` set news = Pair i ` set ?cs" by (auto simp: news_def image_image)
    have disj: "(j, b) \<notin> req_block ` set new" if "(j, b) \<in> req_block ` set news" for j b
    proof
      assume "(j, b) \<in> req_block ` set new"
      then have "fst (j, b) \<in> set is" using new(2) by blast
      then have "j \<in> set is" by simp
      moreover have "j = i" using that unfolding rb by auto
      ultimately show False using Cons.prems(2) by simp
    qed
    note v = pick_step_views [OF Cons.prems(1) sub, folded q_def]
    show ?thesis
    proof (rule exI [of _ "news @ new"], intro conjI allI)
      show "snd (pick_pieces eg want (i # is) p out) = out @ news @ new" using new(1) step by simp
      show "fst ` req_block ` set (news @ new) \<subseteq> set (i # is)" using new(2) by (simp add: image_Un rb image_image) blast
      show "is_received (fst (pick_pieces eg want (i # is) p out)) j b = is_received p j b" for j b
        using new(3) v(1) step by simp
      show "in_flight_of (fst (pick_pieces eg want (i # is) p out)) j b =
          (if (j, b) \<in> req_block ` set (news @ new) then u32_add (in_flight_of p j b) 1 else in_flight_of p j b)"
        for j b
        using new(4) [of j b] v(2) [of j b] disj [of j b] unfolding step rb [symmetric] by (auto simp: image_Un)
    qed
  qed (auto intro: exI [of _ "[]"])
qed (auto intro: exI [of _ "[]"])

lemma candidate_set:
  "set (candidate_order p f) = {i. i < pk_num_pieces p \<and> bf_has f i \<and> \<not> bf_has (pk_have p) i \<and> wants p i}"
  by (auto simp: candidate_order_def)

lemma candidate_distinct: "distinct (candidate_order p f)"
  by (simp add: candidate_order_def)

lemma pick_out:
  "picker_inv p \<Longrightarrow>
   snd (pick p f want) = take want (concat (map (free_reqs (in_endgame p) p) (candidate_order p f)))"
  using pick_pieces_out [of p "candidate_order p f" "[]" want]
  by (simp add: pick_def candidate_distinct candidate_set)

lemma pick_inv [inv_intros]: "picker_inv p \<Longrightarrow> picker_inv (fst (pick p f want))"
  using pick_pieces_inv [of p "candidate_order p f" "[]" want]
  by (simp add: pick_def candidate_set)

lemma pick_frame: "picker_inv p \<Longrightarrow> \<exists>g. fst (pick p f want) = p\<lparr>pk_progress := g\<rparr>"
  using pick_pieces_inv [of p "candidate_order p f" "[]" want] exI [of _ "pk_progress p"]
  by (auto simp: pick_def candidate_set)

lemma pick_views:
  assumes "picker_inv p"
  shows "is_received (fst (pick p f want)) j b = is_received p j b"
    "in_flight_of (fst (pick p f want)) j b =
       (if (j, b) \<in> req_block ` set (snd (pick p f want))
        then u32_add (in_flight_of p j b) 1 else in_flight_of p j b)"
  using pick_pieces_views [OF assms candidate_distinct, of p f "[]" want "in_endgame p"]
  by (auto simp: pick_def candidate_set)

lemma free_reqs_set:
  assumes "picker_inv p"
  shows "r \<in> set (free_reqs eg p i) \<longleftrightarrow>
    (\<exists>b < blocks_in_piece p i. r = block_req (piece_len p i) i b \<and> \<not> is_received p i b \<and>
       (eg \<or> in_flight_of p i b = 0))"
  using progress_of_views [OF assms, of _ i] by (auto simp: free_reqs_def free_block_def)

lemma block_in_piece: "b < blocks_in_piece p i \<longleftrightarrow> b * BLOCK_LEN < piece_len p i"
  by (simp add: blocks_in_piece_def div_ceil_less_iff)

lemma block_req_fits:
  assumes "b < blocks_in_piece p i"
  shows "br_begin (block_req (piece_len p i) i b) + br_length (block_req (piece_len p i) i b) \<le> piece_len p i"
    "0 < br_length (block_req (piece_len p i) i b)" "br_length (block_req (piece_len p i) i b) \<le> BLOCK_LEN"
  using assms by (auto simp: block_in_piece block_req_def Let_def)

lemma distinct_concat_indexed:
  assumes "distinct is" "\<And>i. i \<in> set is \<Longrightarrow> distinct (f i)" "\<And>i r. r \<in> set (f i) \<Longrightarrow> g r = i"
  shows "distinct (concat (map f is))"
  using assms
proof (induction "is")
  case (Cons i "is")
  then show ?case by (auto dest!: Cons.prems(3))
qed simp

lemma free_reqs_distinct: "distinct (concat (map (free_reqs eg p) (candidate_order p f)))"
  by (rule distinct_concat_indexed [OF candidate_distinct, where g = br_index])
    (auto simp: free_reqs_def distinct_map inj_on_def)

lemma pick_member:
  assumes "picker_inv p" "r \<in> set (snd (pick p f want))"
  obtains i b where "i < pk_num_pieces p" "bf_has f i" "\<not> bf_has (pk_have p) i" "wants p i"
    "b < blocks_in_piece p i" "r = block_req (piece_len p i) i b" "\<not> is_received p i b"
    "in_endgame p \<or> in_flight_of p i b = 0"
proof -
  have "r \<in> set (concat (map (free_reqs (in_endgame p) p) (candidate_order p f)))"
    using assms by (auto simp: pick_out dest: in_set_takeD)
  then show thesis using that by (auto simp: candidate_set free_reqs_set [OF assms(1)])
qed

subsection \<open>Reachable pickers\<close>

inductive picker_step :: "picker \<Rightarrow> picker \<Rightarrow> bool" where
  "picker_step p (set_piece_priorities p per)"
| "picker_step p (set_mode p m)"
| "picker_step p (set_endgame_blocks p n)"
| "picker_step p (add_bitfield p f)"
| "picker_step p (remove_bitfield p f)"
| "picker_step p (add_single p i)"
| "picker_step p (set_have p i)"
| "picker_step p (reset_piece p i)"
| "picker_step p (fst (block_received p i b))"
| "picker_step p (block_failed p i b)"
| "picker_step p (fst (pick p f want))"

lemma picker_step_inv: "picker_inv p \<Longrightarrow> picker_step p p' \<Longrightarrow> picker_inv p'"
  by (erule picker_step.cases) (auto intro: inv_intros)

interpretation pks: transition_system
  "\<lambda>p. \<exists>n plen tlen mode. n \<le> u32_max \<and> p = picker_new n plen tlen mode" picker_step picker_inv
  by unfold_locales (auto intro: picker_new_inv picker_step_inv)

subsection \<open>Geometry\<close>

lemma piece_len_u32: "piece_len p i \<le> u32_max"
  by (simp add: piece_len_def u32_clamp_def Let_def)

lemma piece_len_eq:
  "pk_piece_length p \<le> u32_max \<Longrightarrow>
   piece_len p i = min (pk_total_length p - i * pk_piece_length p) (pk_piece_length p)"
  by (auto simp: piece_len_def u32_clamp_def Let_def)

lemma block_len_eq: "b < blocks_in_piece p i \<Longrightarrow> block_len p i b = min (piece_len p i - b * BLOCK_LEN) BLOCK_LEN"
  using piece_len_u32 [of p i]
  by (simp add: block_in_piece block_len_def u32_sat_mul_def Let_def)

lemma block_req_len: "b < blocks_in_piece p i \<Longrightarrow>
    block_req (piece_len p i) i b = \<lparr>br_index = i, br_begin = b * BLOCK_LEN, br_length = block_len p i b\<rparr>"
  by (simp add: block_req_def block_len_eq Let_def)

lemma block_len_sum: "(\<Sum>b < blocks_in_piece p i. block_len p i b) = piece_len p i"
proof -
  have "(\<Sum>b < blocks_in_piece p i. block_len p i b) =
      (\<Sum>b < blocks_in_piece p i. min (piece_len p i - b * BLOCK_LEN) BLOCK_LEN)"
    by (rule sum.cong) (auto simp: block_len_eq)
  then show ?thesis by (simp add: blocks_in_piece_def sum_chunks_ceil)
qed

lemma piece_len_sum:
  assumes "0 < pk_piece_length p" "pk_piece_length p \<le> u32_max"
    "pk_num_pieces p = div_ceil (pk_total_length p) (pk_piece_length p)"
  shows "(\<Sum>i < pk_num_pieces p. piece_len p i) = pk_total_length p"
  using assms by (simp add: piece_len_eq sum_chunks_ceil)

lemma piece_len_pos:
  assumes "0 < pk_piece_length p" "pk_num_pieces p = div_ceil (pk_total_length p) (pk_piece_length p)"
    "i < pk_num_pieces p"
  shows "0 < piece_len p i"
  using assms by (auto simp: piece_len_def u32_clamp_def u32_max_def div_ceil_less_iff Let_def)

subsection \<open>Endgame\<close>

definition outstanding :: "picker \<Rightarrow> nat \<Rightarrow> nat" where
  "outstanding p i =
     (if bf_has (pk_have p) i \<or> \<not> wants p i then 0
      else blocks_in_piece p i -
        (case bt_get (pk_progress p) i of Some pr \<Rightarrow> received_count pr | None \<Rightarrow> 0))"

lemma endgame_loop_sum:
  assumes "pk_endgame_blocks p < u32_max" "r \<le> pk_endgame_blocks p"
  shows "endgame_loop p is r \<longleftrightarrow> r + sum_list (map (outstanding p) is) \<le> pk_endgame_blocks p"
  using assms(2)
proof (induction "is" arbitrary: r)
  case (Cons i "is")
  show ?case
  proof (cases "bf_has (pk_have p) i \<or> \<not> wants p i")
    case True
    then show ?thesis using Cons by (simp add: outstanding_def)
  next
    case False
    let ?r = "u32_sat_add r (outstanding p i)"
    have step: "endgame_loop p (i # is) r \<longleftrightarrow> ?r \<le> pk_endgame_blocks p \<and> endgame_loop p is ?r"
      using False by (auto simp: outstanding_def Let_def not_less)
    have r: "?r \<le> pk_endgame_blocks p \<longleftrightarrow> r + outstanding p i \<le> pk_endgame_blocks p"
        "?r \<le> pk_endgame_blocks p \<Longrightarrow> ?r = r + outstanding p i"
      using assms(1) by (auto simp: u32_sat_add_def min_def split: if_splits)
    show ?thesis
    proof (cases "?r \<le> pk_endgame_blocks p")
      case True
      then show ?thesis unfolding step using Cons.IH [OF True] r(2) [OF True] by (simp add: add.assoc)
    next
      case False
      then show ?thesis unfolding step using r(1) by simp
    qed
  qed
qed simp

subsection \<open>Properties\<close>

text \<open>C22. The picker's own debug check never fails: after any sequence of operations from
  \<^verbatim>\<open>Picker::new\<close>, with any arguments, every assertion of \<^verbatim>\<open>check_invariants\<close> holds (tables span
  the torrent, block accounting only for pieces in range that we do not hold, and the incremental
  wanted-and-missing count agrees with the tables).\<close>

theorem picker_check_never_fails:
  assumes "n \<le> u32_max" and "picker_step\<^sup>*\<^sup>* (picker_new n plen tlen mode) p"
  shows "check_invariants p"
  using pks.inv_reachable [OF _ assms(2)] assms(1) by (blast intro: picker_inv_check)

theorem picker_check_never_fails_witness:
  "check_invariants (set_have (fst (pick (picker_new 2 32768 40000 RarestFirst) (bf_full 2) 3)) 0)"
proof -
  let ?p = "picker_new 2 32768 40000 RarestFirst"
  have "picker_step\<^sup>*\<^sup>* ?p (set_have (fst (pick ?p (bf_full 2) 3)) 0)"
    by (rule rtranclp.intros(2) [OF rtranclp.intros(2) [OF rtranclp.intros(1)]]) (rule picker_step.intros)+
  then show ?thesis by (intro picker_check_never_fails) (simp_all add: u32_max_def)
qed

text \<open>C23. \<^verbatim>\<open>pick\<close>, which interleaves lazy creation of block accounting, in-flight marking and two
  early exits, returns exactly the first \<open>want\<close> admissible blocks: the pieces the peer has, that
  we want and lack, in candidate order, and within each piece the blocks neither received nor
  (outside the endgame) already requested, in ascending order.\<close>

theorem pick_equals_reference:
  assumes "picker_inv p"
  shows "snd (pick p peer_has want) =
    take want (concat (map (free_reqs (in_endgame p) p) (candidate_order p peer_has)))"
  using assms by (rule pick_out)

theorem pick_equals_reference_witness:
  "snd (pick (picker_new 2 32768 40000 RarestFirst) (bf_full 2) 3) =
    take 3 (concat (map (free_reqs (in_endgame (picker_new 2 32768 40000 RarestFirst)) (picker_new 2 32768 40000 RarestFirst))
      (candidate_order (picker_new 2 32768 40000 RarestFirst) (bf_full 2))))"
  by (rule pick_equals_reference) (simp add: picker_new_inv u32_max_def)

lemma pick_sound_facts:
  assumes "picker_inv p"
  shows "length (snd (pick p peer_has want)) \<le> want" and "distinct (snd (pick p peer_has want))"
    and "\<forall>r \<in> set (snd (pick p peer_has want)). \<exists>i b.
      req_block r = (i, b) \<and> i < pk_num_pieces p \<and> bf_has peer_has i \<and> \<not> pk_has p i \<and> wants p i \<and>
      \<not> is_received p i b \<and> (in_endgame p \<or> in_flight_of p i b = 0) \<and>
      br_begin r = b * BLOCK_LEN \<and> br_length r = block_len p i b \<and> 0 < br_length r \<and>
      br_length r \<le> BLOCK_LEN \<and> br_begin r + br_length r \<le> piece_len p i"
    and "in_flight_of (fst (pick p peer_has want)) i b =
      (if (i, b) \<in> req_block ` set (snd (pick p peer_has want))
       then u32_add (in_flight_of p i b) 1 else in_flight_of p i b)"
    and "is_received (fst (pick p peer_has want)) i b = is_received p i b"
    and "\<exists>g. fst (pick p peer_has want) = p\<lparr>pk_progress := g\<rparr>"
proof -
  show "length (snd (pick p peer_has want)) \<le> want" by (simp add: pick_out [OF assms])
  show "distinct (snd (pick p peer_has want))"
    by (simp add: pick_out [OF assms] free_reqs_distinct)
  show "\<forall>r \<in> set (snd (pick p peer_has want)). \<exists>i b.
      req_block r = (i, b) \<and> i < pk_num_pieces p \<and> bf_has peer_has i \<and> \<not> pk_has p i \<and> wants p i \<and>
      \<not> is_received p i b \<and> (in_endgame p \<or> in_flight_of p i b = 0) \<and>
      br_begin r = b * BLOCK_LEN \<and> br_length r = block_len p i b \<and> 0 < br_length r \<and>
      br_length r \<le> BLOCK_LEN \<and> br_begin r + br_length r \<le> piece_len p i"
  proof
    fix r assume "r \<in> set (snd (pick p peer_has want))"
    then obtain i b where ib: "i < pk_num_pieces p" "bf_has peer_has i" "\<not> bf_has (pk_have p) i" "wants p i"
        "b < blocks_in_piece p i" "r = block_req (piece_len p i) i b" "\<not> is_received p i b"
        "in_endgame p \<or> in_flight_of p i b = 0"
      by (rule pick_member [OF assms])
    note f = block_req_fits [OF ib(5)]
    show "\<exists>i b. req_block r = (i, b) \<and> i < pk_num_pieces p \<and> bf_has peer_has i \<and> \<not> pk_has p i \<and> wants p i \<and>
      \<not> is_received p i b \<and> (in_endgame p \<or> in_flight_of p i b = 0) \<and>
      br_begin r = b * BLOCK_LEN \<and> br_length r = block_len p i b \<and> 0 < br_length r \<and>
      br_length r \<le> BLOCK_LEN \<and> br_begin r + br_length r \<le> piece_len p i"
      by (rule exI [where x = i], rule exI [where x = b])
        (use ib f in \<open>simp add: pk_has_def block_req_len req_block_def\<close>)
  qed
qed (use pick_views pick_frame assms in blast)+
text \<open>Every block \<^verbatim>\<open>pick\<close> hands out is one the peer has, of a piece we want and do not hold, not
  yet received, lies inside its piece, and is at most 16 KiB; no block is handed out twice in one
  call, at most \<open>want\<close> are, and outside the endgame none was already in flight. The picker marks
  exactly these blocks as in flight once more and touches nothing else.\<close>

theorem pick_sound:
  assumes "picker_inv p"
  shows "(length (snd (pick p peer_has want)) \<le> want) \<and>
    (distinct (snd (pick p peer_has want))) \<and>
    (\<forall>r \<in> set (snd (pick p peer_has want)). \<exists>i b.
      req_block r = (i, b) \<and> i < pk_num_pieces p \<and> bf_has peer_has i \<and> \<not> pk_has p i \<and> wants p i \<and>
      \<not> is_received p i b \<and> (in_endgame p \<or> in_flight_of p i b = 0) \<and>
      br_begin r = b * BLOCK_LEN \<and> br_length r = block_len p i b \<and> 0 < br_length r \<and>
      br_length r \<le> BLOCK_LEN \<and> br_begin r + br_length r \<le> piece_len p i) \<and>
    (in_flight_of (fst (pick p peer_has want)) i b =
      (if (i, b) \<in> req_block ` set (snd (pick p peer_has want))
       then u32_add (in_flight_of p i b) 1 else in_flight_of p i b)) \<and>
    (is_received (fst (pick p peer_has want)) i b = is_received p i b) \<and>
    (\<exists>g. fst (pick p peer_has want) = p\<lparr>pk_progress := g\<rparr>)"
  using pick_sound_facts [OF assms] by blast

theorem pick_sound_witness:
  "length (snd (pick (picker_new 2 32768 40000 Sequential) (bf_full 2) 3)) \<le> 3 \<and>
   distinct (snd (pick (picker_new 2 32768 40000 Sequential) (bf_full 2) 3))"
proof -
  have "picker_inv (picker_new 2 32768 40000 Sequential)" by (simp add: picker_new_inv u32_max_def)
  from pick_sound [OF this] show ?thesis by blast
qed

text \<open>No starvation: when \<^verbatim>\<open>pick\<close> returns fewer blocks than asked for, it left out nothing. Every
  block of every wanted piece the peer has and we lack is received, requested now, or (outside the
  endgame) already in flight.\<close>

theorem pick_exhaustive:
  assumes "picker_inv p" and "length (snd (pick p peer_has want)) < want"
    and "i < pk_num_pieces p" and "bf_has peer_has i" and "\<not> pk_has p i" and "wants p i"
    and "b < blocks_in_piece p i"
  shows "is_received p i b \<or> (i, b) \<in> req_block ` set (snd (pick p peer_has want)) \<or>
    (\<not> in_endgame p \<and> in_flight_of p i b > 0)"
proof -
  let ?all = "concat (map (free_reqs (in_endgame p) p) (candidate_order p peer_has))"
  have all: "snd (pick p peer_has want) = ?all" using assms(1,2) by (simp add: pick_out)
  have "i \<in> set (candidate_order p peer_has)" using assms by (simp add: candidate_set pk_has_def)
  moreover have "block_req (piece_len p i) i b \<in> set (free_reqs (in_endgame p) p i)"
    if "\<not> is_received p i b" "in_endgame p \<or> in_flight_of p i b = 0"
    using that assms(7) by (auto simp: free_reqs_set [OF assms(1)])
  ultimately have "block_req (piece_len p i) i b \<in> set ?all"
    if "\<not> is_received p i b" "in_endgame p \<or> in_flight_of p i b = 0"
    using that by auto
  then have "(i, b) \<in> req_block ` set ?all"
    if "\<not> is_received p i b" "in_endgame p \<or> in_flight_of p i b = 0"
    using that by (metis imageI req_block_req)
  then show ?thesis unfolding all by auto
qed

theorem pick_exhaustive_witness:
  "let p = picker_new 2 32768 40000 RarestFirst in
   is_received p 1 0 \<or> (1, 0) \<in> req_block ` set (snd (pick p (bf_full 2) 9)) \<or>
   (\<not> in_endgame p \<and> in_flight_of p 1 0 > 0)"
proof -
  let ?p = "picker_new 2 32768 40000 RarestFirst"
  have inv: "picker_inv ?p" by (simp add: picker_new_inv u32_max_def)
  have "length (snd (pick ?p (bf_full 2) 9)) < 9" "(1 :: nat) < pk_num_pieces ?p" "bf_has (bf_full 2) 1"
    "\<not> pk_has ?p 1" "wants ?p 1" "(0 :: nat) < blocks_in_piece ?p 1"
    by code_simp+
  from pick_exhaustive [OF inv this] show ?thesis by (simp add: Let_def)
qed

lemma candidate_order_preference_facts:
  "set (candidate_order p peer_has) =
     {i. i < pk_num_pieces p \<and> bf_has peer_has i \<and> \<not> pk_has p i \<and> wants p i}"
  "sorted_wrt (\<lambda>i j.
     let started = (\<lambda>i. bt_get (pk_progress p) i \<noteq> None); pri = (\<lambda>i. 255 - pk_priority p ! i);
         rare = (\<lambda>i. case pk_mode p of RarestFirst \<Rightarrow> pk_availability p ! i | Sequential \<Rightarrow> 0) in
     (started i \<and> \<not> started j) \<or>
     (started i = started j \<and>
       (pri i < pri j \<or> (pri i = pri j \<and> (rare i < rare j \<or> (rare i = rare j \<and> i < j))))))
   (candidate_order p peer_has)"
proof -
  show "set (candidate_order p peer_has) =
     {i. i < pk_num_pieces p \<and> bf_has peer_has i \<and> \<not> pk_has p i \<and> wants p i}"
    by (simp add: candidate_set pk_has_def)
  have "sorted (map (pick_key p) (candidate_order p peer_has))" by (simp add: candidate_order_def)
  moreover have "inj (pick_key p)" by (auto simp: inj_on_def pick_key_def Let_def)
  then have "distinct (map (pick_key p) (candidate_order p peer_has))"
    by (simp add: distinct_map candidate_distinct inj_on_subset [of _ UNIV])
  ultimately have "sorted_wrt (<) (map (pick_key p) (candidate_order p peer_has))"
    by (simp add: strict_sorted_iff)
  then have "sorted_wrt (\<lambda>i j. pick_key p i < pick_key p j) (candidate_order p peer_has)"
    by (simp add: sorted_wrt_map)
  then show "sorted_wrt (\<lambda>i j.
     let started = (\<lambda>i. bt_get (pk_progress p) i \<noteq> None); pri = (\<lambda>i. 255 - pk_priority p ! i);
         rare = (\<lambda>i. case pk_mode p of RarestFirst \<Rightarrow> pk_availability p ! i | Sequential \<Rightarrow> 0) in
     (started i \<and> \<not> started j) \<or>
     (started i = started j \<and>
       (pri i < pri j \<or> (pri i = pri j \<and> (rare i < rare j \<or> (rare i = rare j \<and> i < j))))))
   (candidate_order p peer_has)"
    by (rule sorted_wrt_mono_rel [rotated]) (auto simp: pick_key_def Let_def split: if_splits)
qed
text \<open>Candidates are ordered by the documented preference: started pieces first, then higher
  priority, then (rarest-first mode) fewer peers holding the piece, then the index; no candidate is
  missing or repeated.\<close>

theorem candidate_order_preference:
  "(set (candidate_order p peer_has) =
     {i. i < pk_num_pieces p \<and> bf_has peer_has i \<and> \<not> pk_has p i \<and> wants p i}) \<and>
    (sorted_wrt (\<lambda>i j.
     let started = (\<lambda>i. bt_get (pk_progress p) i \<noteq> None); pri = (\<lambda>i. 255 - pk_priority p ! i);
         rare = (\<lambda>i. case pk_mode p of RarestFirst \<Rightarrow> pk_availability p ! i | Sequential \<Rightarrow> 0) in
     (started i \<and> \<not> started j) \<or>
     (started i = started j \<and>
       (pri i < pri j \<or> (pri i = pri j \<and> (rare i < rare j \<or> (rare i = rare j \<and> i < j))))))
   (candidate_order p peer_has))"
  using candidate_order_preference_facts by blast

lemma picker_geometry_facts:
  assumes "picker_inv p" and "0 < pk_piece_length p" and "pk_piece_length p \<le> u32_max"
    and "pk_num_pieces p = div_ceil (pk_total_length p) (pk_piece_length p)"
  shows "(\<Sum>b < blocks_in_piece p i. block_len p i b) = piece_len p i"
    and "(\<Sum>j < pk_num_pieces p. piece_len p j) = pk_total_length p"
    and "is_complete p \<longleftrightarrow> (\<forall>j < pk_num_pieces p. wants p j \<longrightarrow> pk_has p j)"
    and "bytes_left p = 0 \<longleftrightarrow> is_complete p"
proof -
  show "(\<Sum>b < blocks_in_piece p i. block_len p i b) = piece_len p i" by (rule block_len_sum)
  show "(\<Sum>j < pk_num_pieces p. piece_len p j) = pk_total_length p" using assms by (intro piece_len_sum)
  have complete: "is_complete p \<longleftrightarrow> missing p = []"
    using assms(1) by (simp add: is_complete_def picker_inv_def)
  show "is_complete p \<longleftrightarrow> (\<forall>j < pk_num_pieces p. wants p j \<longrightarrow> pk_has p j)"
    unfolding complete missing_empty by (simp add: pk_has_def)
  have "0 < piece_len p j" if "j \<in> set (missing p)" for j
    using piece_len_pos [OF assms(2,4)] that by (simp add: missing_def)
  then have "bytes_left p = 0 \<longleftrightarrow> missing p = []"
    by (cases "missing p") (auto simp: bytes_left_def)
  then show "bytes_left p = 0 \<longleftrightarrow> is_complete p" by (simp add: complete)
qed
text \<open>Geometry: the blocks of a piece tile it, the pieces tile the torrent, and \<^verbatim>\<open>bytes_left\<close> is
  zero exactly when the torrent is complete, for the piece counts metainfo admits.\<close>

theorem picker_geometry:
  assumes "picker_inv p" and "0 < pk_piece_length p" and "pk_piece_length p \<le> u32_max"
    and "pk_num_pieces p = div_ceil (pk_total_length p) (pk_piece_length p)"
  shows "((\<Sum>b < blocks_in_piece p i. block_len p i b) = piece_len p i) \<and>
    ((\<Sum>j < pk_num_pieces p. piece_len p j) = pk_total_length p) \<and>
    (is_complete p \<longleftrightarrow> (\<forall>j < pk_num_pieces p. wants p j \<longrightarrow> pk_has p j)) \<and>
    (bytes_left p = 0 \<longleftrightarrow> is_complete p)"
  using picker_geometry_facts [OF assms] by blast

theorem picker_geometry_witness:
  "(\<Sum>j < 2. piece_len (picker_new 2 32768 40000 Sequential) j) = 40000"
proof -
  let ?p = "picker_new 2 32768 40000 Sequential"
  have "picker_inv ?p" by (simp add: picker_new_inv u32_max_def)
  moreover have "0 < pk_piece_length ?p" "pk_piece_length ?p \<le> u32_max"
      "pk_num_pieces ?p = div_ceil (pk_total_length ?p) (pk_piece_length ?p)"
    by (simp_all add: picker_new_def u32_max_def div_ceil_def)
  ultimately have "(\<Sum>j < pk_num_pieces ?p. piece_len ?p j) = pk_total_length ?p"
    by (rule picker_geometry [THEN conjunct2, THEN conjunct1])
  then show ?thesis by (simp add: picker_new_def)
qed

text \<open>The endgame starts exactly when it is enabled and the blocks not yet received of wanted
  pieces number at most the threshold; the early exit and the saturating counter change nothing.\<close>

theorem in_endgame_exact:
  assumes "pk_endgame_blocks p < u32_max"
  shows "in_endgame p \<longleftrightarrow> pk_endgame_blocks p > 0 \<and>
    (\<Sum>i < pk_num_pieces p. outstanding p i) \<le> pk_endgame_blocks p"
proof -
  have "sum_list (map (outstanding p) [0..<pk_num_pieces p]) = (\<Sum>i < pk_num_pieces p. outstanding p i)"
    by (simp add: sum_list_distinct_conv_sum_set atLeast0LessThan)
  then show ?thesis
    using endgame_loop_sum [OF assms, of 0 "[0..<pk_num_pieces p]"] by (simp add: in_endgame_def)
qed

theorem in_endgame_exact_witness:
  "in_endgame (picker_new 2 32768 40000 Sequential) \<longleftrightarrow>
    pk_endgame_blocks (picker_new 2 32768 40000 Sequential) > 0 \<and>
    (\<Sum>i < pk_num_pieces (picker_new 2 32768 40000 Sequential).
       outstanding (picker_new 2 32768 40000 Sequential) i)
    \<le> pk_endgame_blocks (picker_new 2 32768 40000 Sequential)"
  by (rule in_endgame_exact) (simp add: picker_new_def DEFAULT_ENDGAME_BLOCKS_def u32_max_def)

end
