(* ===== verification/Choker.thy ===== *)
theory Choker
  imports Prelude "HOL-Library.Product_Lexorder"
begin

text \<open>
  Choke decisions (\<^verbatim>\<open>crates/clove-core/src/choker.rs\<close>): once per round the interested peers are
  ranked by rate, the best \<^verbatim>\<open>max_unchoked\<close> are chosen, and every third round the last regular
  slot goes to a rotating optimistic pick. The chosen set is then turned into the choke and
  unchoke messages to send. \<^verbatim>\<open>sort_by\<close> is stable, as is \<open>sort_key\<close>.
\<close>

subsection \<open>Model\<close>

definition DEFAULT_MAX_UNCHOKED :: nat where "DEFAULT_MAX_UNCHOKED = 4"

record peer_snapshot =
  ps_id :: nat
  ps_interested :: bool
  ps_rate :: nat
  ps_unchoked :: bool

record decision =
  dc_unchoke :: "nat list"
  dc_choke :: "nat list"

record choker =
  ck_max_unchoked :: nat
  ck_round :: nat

definition choker_new :: "nat \<Rightarrow> choker" where
  "choker_new max_unchoked = \<lparr>ck_max_unchoked = max max_unchoked 1, ck_round = 0\<rparr>"

definition choker_default :: choker where
  "choker_default = choker_new DEFAULT_MAX_UNCHOKED"

text \<open>\<^verbatim>\<open>b.rate.cmp(&a.rate).then(a.id.cmp(&b.id))\<close>: descending rate, then ascending id.\<close>

definition rank_key :: "peer_snapshot \<Rightarrow> int \<times> nat" where
  "rank_key p = (- int (ps_rate p), ps_id p)"

definition ranked :: "peer_snapshot list \<Rightarrow> peer_snapshot list" where
  "ranked peers = sort_key rank_key (filter ps_interested peers)"

text \<open>The chosen ids of the round numbered \<open>round\<close>.\<close>

definition choose_ids :: "nat \<Rightarrow> nat \<Rightarrow> peer_snapshot list \<Rightarrow> nat list" where
  "choose_ids max_unchoked round peers =
     (let interested = ranked peers;
          chosen = map ps_id (take max_unchoked interested) in
      if round mod 3 = 0 then
        (let candidates = filter (\<lambda>i. i \<notin> set chosen) (map ps_id interested) in
         if candidates \<noteq> [] then
           (let idx = (round div 3) mod length candidates;
                pick = candidates ! idx;
                chosen = (if length chosen \<ge> max_unchoked then butlast chosen else chosen) in
            chosen @ [pick])
         else chosen)
      else chosen)"

definition decide :: "nat list \<Rightarrow> peer_snapshot list \<Rightarrow> decision" where
  "decide chosen peers =
     \<lparr>dc_unchoke = map ps_id (filter (\<lambda>p. ps_id p \<in> set chosen \<and> \<not> ps_unchoked p) peers),
      dc_choke = map ps_id (filter (\<lambda>p. ps_id p \<notin> set chosen \<and> ps_unchoked p) peers)\<rparr>"

definition plan :: "choker \<Rightarrow> peer_snapshot list \<Rightarrow> choker \<times> decision" where
  "plan ck peers =
     (let round = u64_add (ck_round ck) 1 in
      (ck\<lparr>ck_round := round\<rparr>, decide (choose_ids (ck_max_unchoked ck) round peers) peers))"

text \<open>What the debug build asserts of every plan.\<close>

definition after_decision :: "decision \<Rightarrow> peer_snapshot \<Rightarrow> bool" where
  "after_decision d p \<longleftrightarrow> ps_id p \<in> set (dc_unchoke d) \<or> (ps_unchoked p \<and> ps_id p \<notin> set (dc_choke d))"

definition check_decision :: "decision \<Rightarrow> peer_snapshot list \<Rightarrow> nat \<Rightarrow> bool" where
  "check_decision d peers max_unchoked \<longleftrightarrow>
     list_all (\<lambda>i. i \<notin> set (dc_choke d) \<and> i \<in> ps_id ` set peers) (dc_unchoke d) \<and>
     list_all (\<lambda>i. i \<in> ps_id ` set peers) (dc_choke d) \<and>
     length (filter (after_decision d) peers) \<le> max_unchoked"

text \<open>The engine applies a decision to its peer table and plans again at the next tick.\<close>

definition apply_decision :: "decision \<Rightarrow> peer_snapshot list \<Rightarrow> peer_snapshot list" where
  "apply_decision d peers = map (\<lambda>p. p\<lparr>ps_unchoked := after_decision d p\<rparr>) peers"

fun run_rounds :: "nat \<Rightarrow> choker \<Rightarrow> peer_snapshot list \<Rightarrow> choker \<times> peer_snapshot list" where
  "run_rounds 0 ck peers = (ck, peers)"
| "run_rounds (Suc n) ck peers =
     (let (ck', d) = plan ck peers in run_rounds n ck' (apply_decision d peers))"

subsection \<open>The chosen set\<close>

lemma ranked_set [simp]: "set (ranked peers) = {p \<in> set peers. ps_interested p}"
  by (simp add: ranked_def)

lemma ranked_distinct: "distinct (map ps_id peers) \<Longrightarrow> distinct (map ps_id (ranked peers))"
proof -
  assume d: "distinct (map ps_id peers)"
  have "mset (map ps_id (ranked peers)) = mset (map ps_id (filter ps_interested peers))"
    by (simp add: ranked_def)
  then show ?thesis using d distinct_map_filter mset_eq_imp_distinct_iff by blast
qed

lemma ranked_length: "length (ranked peers) = length (filter ps_interested peers)"
  by (simp add: ranked_def)

lemma ranked_sorted: "sorted (map rank_key (ranked peers))"
  by (simp add: ranked_def)

lemma candidates_drop:
  assumes "distinct (map ps_id xs)"
  shows "filter (\<lambda>i. i \<notin> set (map ps_id (take m xs))) (map ps_id xs) = map ps_id (drop m xs)"
proof -
  have split: "map ps_id xs = map ps_id (take m xs) @ map ps_id (drop m xs)"
    by (metis append_take_drop_id map_append)
  then have "set (map ps_id (take m xs)) \<inter> set (map ps_id (drop m xs)) = {}"
    using assms by (metis distinct_append)
  then have "filter (\<lambda>i. i \<notin> set (map ps_id (take m xs))) (map ps_id (drop m xs)) = map ps_id (drop m xs)"
    by (intro filter_True) blast
  moreover have "filter (\<lambda>i. i \<notin> set (map ps_id (take m xs))) (map ps_id (take m xs)) = []"
    by (simp add: filter_empty_conv)
  ultimately show ?thesis using split by (metis append_Nil filter_append)
qed

text \<open>With distinct ids: the best \<open>m\<close>, or the best \<open>m - 1\<close> and the rotating pick among the rest.\<close>

lemma choose_ids_eq:
  assumes "distinct (map ps_id peers)"
  shows "choose_ids m r peers =
    (let xs = ranked peers; rest = drop m xs in
     if r mod 3 = 0 \<and> rest \<noteq> []
     then map ps_id (take (m - 1) xs) @ [ps_id (rest ! ((r div 3) mod length rest))]
     else map ps_id (take m xs))"
proof -
  let ?xs = "ranked peers"
  have c: "filter (\<lambda>i. i \<notin> set (map ps_id (take m ?xs))) (map ps_id ?xs) = map ps_id (drop m ?xs)"
    by (rule candidates_drop) (rule ranked_distinct [OF assms])
  show ?thesis
  proof (cases "r mod 3 = 0 \<and> drop m ?xs \<noteq> []")
    case True
    then have "m < length ?xs" by simp
    then have "butlast (map ps_id (take m ?xs)) = map ps_id (take (m - 1) ?xs)"
      by (simp add: map_butlast [symmetric] butlast_take)
    moreover have "(r div 3) mod length (drop m ?xs) < length (drop m ?xs)" using True by simp
    ultimately show ?thesis
      using True \<open>m < length ?xs\<close> unfolding choose_ids_def Let_def c by (simp add: nth_map)
  next
    case False
    then show ?thesis unfolding choose_ids_def Let_def c by auto
  qed
qed

lemma choose_ids_distinct:
  assumes "distinct (map ps_id peers)"
  shows "distinct (choose_ids m r peers)"
proof -
  let ?xs = "ranked peers"
  have d: "distinct (map ps_id ?xs)" using ranked_distinct [OF assms] .
  have "ps_id (drop m ?xs ! k) \<notin> set (map ps_id (take (m - 1) ?xs))" if "k < length (drop m ?xs)" for k
  proof
    have mk: "m + k < length ?xs" using that by simp
    assume "ps_id (drop m ?xs ! k) \<in> set (map ps_id (take (m - 1) ?xs))"
    then obtain j where j: "j < m - 1" "j < length ?xs" "map ps_id ?xs ! j = map ps_id ?xs ! (m + k)"
      using mk by (auto simp: in_set_conv_nth)
    then have "j = m + k" using d that nth_eq_iff_index_eq [OF d, of j "m + k"] by simp
    then show False using j by simp
  qed
  moreover have "distinct (map ps_id (take n ?xs))" for n
    using d by (metis distinct_take take_map)
  ultimately show ?thesis
    unfolding choose_ids_eq [OF assms] Let_def by (auto simp: distinct_append)
qed

lemma choose_ids_length:
  assumes "distinct (map ps_id peers)" "0 < m"
  shows "length (choose_ids m r peers) = min m (length (ranked peers))"
  using assms(2) unfolding choose_ids_eq [OF assms(1)] Let_def by auto

lemma choose_ids_sub:
  assumes "distinct (map ps_id peers)"
  shows "set (choose_ids m r peers) \<subseteq> ps_id ` set (ranked peers)"
proof -
  have "set (take n (ranked peers)) \<subseteq> set (ranked peers)" for n by (rule set_take_subset)
  moreover have "drop m (ranked peers) \<noteq> [] \<Longrightarrow>
      drop m (ranked peers) ! (k mod length (drop m (ranked peers))) \<in> set (ranked peers)" for k
    by (meson in_set_dropD length_greater_0_conv mod_less_divisor nth_mem)
  ultimately show ?thesis
    unfolding choose_ids_eq [OF assms] Let_def by (auto simp del: ranked_set)
qed

subsection \<open>Applying a plan\<close>

lemma after_decide:
  assumes "distinct (map ps_id peers)" "p \<in> set peers"
  shows "after_decision (decide chosen peers) p \<longleftrightarrow> ps_id p \<in> set chosen"
proof -
  have "q = p" if "q \<in> set peers" "ps_id q = ps_id p" for q
    using assms that by (simp add: distinct_map inj_on_def)
  then show ?thesis using assms(2) by (auto simp: after_decision_def decide_def)
qed

lemma unchoked_ids:
  assumes "distinct (map ps_id peers)" "set chosen \<subseteq> ps_id ` set peers" "distinct chosen"
  shows "length (filter (after_decision (decide chosen peers)) peers) = length chosen"
proof -
  have "filter (after_decision (decide chosen peers)) peers = filter (\<lambda>p. ps_id p \<in> set chosen) peers"
    by (rule filter_cong) (auto simp: after_decide [OF assms(1)])
  moreover have "distinct (map ps_id (filter (\<lambda>p. ps_id p \<in> set chosen) peers))"
    using assms(1) by (rule distinct_map_filter)
  then have "length (filter (\<lambda>p. ps_id p \<in> set chosen) peers) =
      card (ps_id ` {p \<in> set peers. ps_id p \<in> set chosen})"
    using distinct_card by (metis length_map set_filter set_map)
  moreover have "ps_id ` {p \<in> set peers. ps_id p \<in> set chosen} = set chosen" using assms(2) by auto
  ultimately show ?thesis using assms(3) by (simp add: distinct_card)
qed

lemma choose_ids_peers: "distinct (map ps_id peers) \<Longrightarrow> set (choose_ids m r peers) \<subseteq> ps_id ` set peers"
  using choose_ids_sub [of peers m r] by auto

subsection \<open>Rounds\<close>

lemma sort_key_map: "sort_key k (map f xs) = map f (sort_key (\<lambda>x. k (f x)) xs)"
proof -
  have "insort_key k (f x) (map f ys) = map f (insort_key (\<lambda>x. k (f x)) x ys)" for x ys
    by (induction ys) auto
  then show ?thesis by (induction xs) auto
qed

lemma choose_ids_unchoked:
  "choose_ids m r (map (\<lambda>p. p\<lparr>ps_unchoked := f p\<rparr>) peers) = choose_ids m r peers"
proof -
  let ?g = "\<lambda>p. p\<lparr>ps_unchoked := f p\<rparr>"
  have "ranked (map ?g peers) = map ?g (ranked peers)"
    by (simp add: ranked_def filter_map sort_key_map rank_key_def [abs_def] comp_def)
  then show ?thesis by (simp add: choose_ids_def Let_def take_map [symmetric] comp_def)
qed

lemma apply_ids [simp]: "map ps_id (apply_decision d peers) = map ps_id peers"
  by (simp add: apply_decision_def comp_def)

text \<open>After \<open>n\<close> rounds over the same peers, the unchoked peers are those chosen in the last one.\<close>

lemma run_rounds_unchoked:
  assumes "distinct (map ps_id peers)" "ck_round ck + Suc n < 2 ^ 64"
  shows "ck_round (fst (run_rounds (Suc n) ck peers)) = ck_round ck + Suc n \<and>
    map ps_id (snd (run_rounds (Suc n) ck peers)) = map ps_id peers \<and>
    (\<forall>p \<in> set (snd (run_rounds (Suc n) ck peers)).
       ps_unchoked p \<longleftrightarrow> ps_id p \<in> set (choose_ids (ck_max_unchoked ck) (ck_round ck + Suc n) peers))"
  using assms
proof (induction n arbitrary: ck peers)
  case 0
  have "u64_add (ck_round ck) 1 = ck_round ck + 1" using 0 by (simp add: u64_add_def)
  then show ?case
    using 0 by (auto simp: plan_def Let_def apply_decision_def after_decide comp_def)
next
  case (Suc n)
  define d where "d = decide (choose_ids (ck_max_unchoked ck) (ck_round ck + 1) peers) peers"
  define ck' where "ck' = ck\<lparr>ck_round := ck_round ck + 1\<rparr>"
  have "u64_add (ck_round ck) 1 = ck_round ck + 1" using Suc.prems(2) by (simp add: u64_add_def)
  then have step: "run_rounds (Suc (Suc n)) ck peers = run_rounds (Suc n) ck' (apply_decision d peers)"
    by (simp add: plan_def Let_def d_def ck'_def)
  have "choose_ids m r (apply_decision d peers) = choose_ids m r peers" for m r
    by (simp add: apply_decision_def choose_ids_unchoked)
  then show ?case
    using Suc.IH [of "apply_decision d peers" ck'] Suc.prems unfolding step by (simp add: ck'_def)
qed

lemma rotation_hits:
  fixes t L k :: nat
  assumes "k < L"
  obtains j where "0 < j" "j \<le> L" "(t + j) mod L = k"
proof -
  define j where "j = (if (k + L - t mod L) mod L = 0 then L else (k + L - t mod L) mod L)"
  have "t mod L + (k + L - t mod L) = k + L" using assms mod_less_divisor [of L t] by linarith
  then have "(t mod L + (k + L - t mod L) mod L) mod L = k"
    using assms by (simp add: mod_add_right_eq)
  then have "(t + j) mod L = k" unfolding j_def by (auto simp: mod_add_left_eq)
  moreover have "0 < j" "j \<le> L" using assms by (auto simp: j_def less_imp_le)
  ultimately show thesis using that by blast
qed

lemma chosen_eventually:
  assumes "distinct (map ps_id peers)" "p \<in> set peers" "ps_interested p" "0 < m"
  obtains n where "0 < n" "n \<le> 3 * length peers" "ps_id p \<in> set (choose_ids m (r + n) peers)"
proof -
  let ?xs = "ranked peers"
  obtain k where k: "k < length ?xs" "?xs ! k = p"
    using assms(2,3) by (metis (mono_tags, lifting) in_set_conv_nth mem_Collect_eq ranked_set)
  have len: "length ?xs \<le> length peers" "0 < length peers"
    using assms(2) by (auto simp: ranked_length length_pos_if_in_set)
  show thesis
  proof (cases "k < m")
    case True
    define n where "n = (if (r + 1) mod 3 = 0 then 2 else 1 :: nat)"
    have "(r + n) mod 3 \<noteq> 0" unfolding n_def by presburger
    moreover have "p \<in> set (take m ?xs)" using True k by (auto simp: in_set_conv_nth)
    ultimately have "ps_id p \<in> set (choose_ids m (r + n) peers)"
      by (simp add: choose_ids_eq [OF assms(1)] Let_def)
    moreover have "0 < n" "n \<le> 2" by (simp_all add: n_def)
    then have "0 < n" "n \<le> 3 * length peers" using len(2) by linarith+
    ultimately show thesis using that by blast
  next
    case False
    define rest where "rest = drop m ?xs"
    have rest: "k - m < length rest" "rest ! (k - m) = p"
      using False k by (auto simp: rest_def)
    from rotation_hits [OF rest(1), of "r div 3"] obtain j
      where j: "0 < j" "j \<le> length rest" "(r div 3 + j) mod length rest = k - m" .
    define n where "n = 3 * (r div 3 + j) - r"
    have rn: "r + n = 3 * (r div 3 + j)" "0 < n" "n \<le> 3 * j"
      using j(1) unfolding n_def by presburger+
    have "rest \<noteq> []" using rest(1) by auto
    then have "ps_id p \<in> set (choose_ids m (r + n) peers)"
      unfolding choose_ids_eq [OF assms(1)] Let_def rn(1) using rest(2) j(3) by (simp add: rest_def)
    moreover have "n \<le> 3 * length peers" using rn(3) j(2) len(1) by (simp add: rest_def)
    ultimately show thesis using that rn(2) by blast
  qed
qed

subsection \<open>Properties\<close>

lemma choker_plan_slots_facts:
  assumes "distinct (map ps_id peers)" and "0 < ck_max_unchoked ck" and "plan ck peers = (ck', d)"
  shows "check_decision d peers (ck_max_unchoked ck)"
    and "length (filter (after_decision d) peers) =
      min (ck_max_unchoked ck) (length (filter ps_interested peers))"
    and "\<forall>p \<in> set peers. after_decision d p \<longrightarrow> ps_interested p"
proof -
  let ?c = "choose_ids (ck_max_unchoked ck) (u64_add (ck_round ck) 1) peers"
  have d: "d = decide ?c peers" using assms(3) by (simp add: plan_def Let_def)
  note sub = choose_ids_peers [OF assms(1)]
  have n: "length (filter (after_decision d) peers) = length ?c"
    unfolding d by (rule unchoked_ids [OF assms(1) sub choose_ids_distinct [OF assms(1)]])
  then show eq: "length (filter (after_decision d) peers) =
      min (ck_max_unchoked ck) (length (filter ps_interested peers))"
    by (simp add: choose_ids_length [OF assms(1,2)] ranked_length)
  have "p = q" if "p \<in> set peers" "q \<in> set peers" "ps_id p = ps_id q" for p q
    using assms(1) that by (simp add: distinct_map inj_on_def)
  then show "check_decision d peers (ck_max_unchoked ck)"
    unfolding check_decision_def using eq by (auto simp: d decide_def list_all_iff)
  show "\<forall>p \<in> set peers. after_decision d p \<longrightarrow> ps_interested p"
  proof (intro ballI impI)
    fix p assume p: "p \<in> set peers" "after_decision d p"
    then have "ps_id p \<in> ps_id ` set (ranked peers)"
      using after_decide [OF assms(1)] choose_ids_sub [OF assms(1)] unfolding d by blast
    then obtain q where q: "q \<in> set peers" "ps_interested q" "ps_id q = ps_id p" by auto
    then have "q = p" using assms(1) p(1) by (simp add: distinct_map inj_on_def)
    then show "ps_interested p" using q(2) by simp
  qed
qed
text \<open>The debug check of a plan never fails: for peers with distinct ids no peer is told to choke and
  unchoke at once, only connected peers are named, and applying the plan leaves at most
  \<^verbatim>\<open>max_unchoked\<close> peers unchoked. The slots are also used: exactly as many peers are unchoked as
  there are slots, or interested peers, and every one of them is interested.\<close>

theorem choker_plan_slots:
  assumes "distinct (map ps_id peers)" and "0 < ck_max_unchoked ck" and "plan ck peers = (ck', d)"
  shows "(check_decision d peers (ck_max_unchoked ck)) \<and>
    (length (filter (after_decision d) peers) =
      min (ck_max_unchoked ck) (length (filter ps_interested peers))) \<and>
    (\<forall>p \<in> set peers. after_decision d p \<longrightarrow> ps_interested p)"
  using choker_plan_slots_facts [OF assms] by blast

theorem choker_plan_slots_witness:
  "\<exists>d. snd (plan (choker_new 1) [\<lparr>ps_id = 7, ps_interested = True, ps_rate = 5, ps_unchoked = False\<rparr>,
       \<lparr>ps_id = 8, ps_interested = True, ps_rate = 9, ps_unchoked = False\<rparr>]) = d \<and>
     check_decision d [\<lparr>ps_id = 7, ps_interested = True, ps_rate = 5, ps_unchoked = False\<rparr>,
       \<lparr>ps_id = 8, ps_interested = True, ps_rate = 9, ps_unchoked = False\<rparr>] 1"
proof -
  let ?ps = "[\<lparr>ps_id = 7, ps_interested = True, ps_rate = 5, ps_unchoked = False\<rparr>,
       \<lparr>ps_id = 8, ps_interested = True, ps_rate = 9, ps_unchoked = False\<rparr>]"
  obtain ck' d where d: "plan (choker_new 1) ?ps = (ck', d)" by fastforce
  have "check_decision d ?ps (ck_max_unchoked (choker_new 1))"
    by (rule choker_plan_slots [OF _ _ d, THEN conjunct1]) (simp_all add: choker_new_def)
  then show ?thesis using d by (simp add: choker_new_def)
qed

text \<open>Tit-for-tat: outside optimistic rounds no choked interested peer has a higher rate than an
  unchoked one (ties going to the lower id).\<close>

theorem choker_rewards_rate:
  assumes "distinct (map ps_id peers)" and "plan ck peers = (ck', d)" and "ck_round ck' mod 3 \<noteq> 0"
    and "p \<in> set peers" and "after_decision d p" and "q \<in> set peers" and "ps_interested q"
    and "\<not> after_decision d q"
  shows "ps_rate q < ps_rate p \<or> (ps_rate q = ps_rate p \<and> ps_id p < ps_id q)"
proof -
  let ?r = "u64_add (ck_round ck) 1" and ?m = "ck_max_unchoked ck" and ?xs = "ranked peers"
  have d: "d = decide (choose_ids ?m ?r peers) peers" "ck_round ck' = ?r"
    using assms(2) by (auto simp: plan_def Let_def)
  then have c: "choose_ids ?m ?r peers = map ps_id (take ?m ?xs)"
    using assms(3) by (simp add: choose_ids_eq [OF assms(1)] Let_def)
  have inj: "a = b" if "a \<in> set peers" "b \<in> set peers" "ps_id a = ps_id b" for a b
    using assms(1) that by (simp add: distinct_map inj_on_def)
  have "ps_id p \<in> ps_id ` set (take ?m ?xs)" "q \<notin> set (take ?m ?xs)"
    using after_decide [OF assms(1)] assms(4-8) unfolding d(1) c by auto
  moreover have "set (take ?m ?xs) \<subseteq> set peers" using set_take_subset [of ?m ?xs] by auto
  ultimately have p: "p \<in> set (take ?m ?xs)" and q: "q \<in> set (drop ?m ?xs)"
    using inj assms(4,6,7) by (auto, metis (mono_tags, lifting) UnE append_take_drop_id mem_Collect_eq ranked_set set_append)
  have "sorted (map rank_key (take ?m ?xs) @ map rank_key (drop ?m ?xs))"
    using ranked_sorted [of peers] by (simp flip: map_append)
  then have "rank_key p \<le> rank_key q" using p q by (auto simp: sorted_append)
  moreover have "ps_id p \<noteq> ps_id q" using inj assms(4-8) by blast
  ultimately show ?thesis by (auto simp: rank_key_def less_eq_prod_def)
qed

theorem choker_rewards_rate_witness:
  "let a = \<lparr>ps_id = 7, ps_interested = True, ps_rate = 5, ps_unchoked = False\<rparr>;
       b = \<lparr>ps_id = 8, ps_interested = True, ps_rate = 9, ps_unchoked = False\<rparr>;
       d = snd (plan (choker_new 1) [a, b]) in
   after_decision d b \<and> \<not> after_decision d a \<and>
   (ps_rate a < ps_rate b \<or> (ps_rate a = ps_rate b \<and> ps_id b < ps_id a))"
proof -
  let ?a = "\<lparr>ps_id = 7, ps_interested = True, ps_rate = 5, ps_unchoked = False\<rparr>"
  let ?b = "\<lparr>ps_id = 8, ps_interested = True, ps_rate = 9, ps_unchoked = False\<rparr>"
  have h: "distinct (map ps_id [?a, ?b])"
    "plan (choker_new 1) [?a, ?b] = (\<lparr>ck_max_unchoked = 1, ck_round = 1\<rparr>, \<lparr>dc_unchoke = [8], dc_choke = []\<rparr>)"
    "ck_round \<lparr>ck_max_unchoked = 1, ck_round = 1\<rparr> mod 3 \<noteq> 0"
    by code_simp+
  have k: "?b \<in> set [?a, ?b]" "after_decision \<lparr>dc_unchoke = [8], dc_choke = []\<rparr> ?b" "?a \<in> set [?a, ?b]"
    "ps_interested ?a" "\<not> after_decision \<lparr>dc_unchoke = [8], dc_choke = []\<rparr> ?a"
    by (simp_all add: after_decision_def)
  show ?thesis unfolding Let_def h(2) snd_conv using choker_rewards_rate [OF h k] k(2,5) by blast
qed

text \<open>C33. Fairness: with an unchanged peer set and rates, every interested peer is unchoked within three
  rounds per connected peer, whatever its rate and from whatever round the rotation starts.\<close>

theorem choker_no_starvation:
  assumes "distinct (map ps_id peers)" and "0 < ck_max_unchoked ck"
    and "ck_round ck + 3 * length peers < 2 ^ 64" and "p \<in> set peers" and "ps_interested p"
  shows "\<exists>n \<le> 3 * length peers. \<exists>q \<in> set (snd (run_rounds n ck peers)). ps_id q = ps_id p \<and> ps_unchoked q"
proof -
  obtain n where n: "0 < n" "n \<le> 3 * length peers"
      "ps_id p \<in> set (choose_ids (ck_max_unchoked ck) (ck_round ck + n) peers)"
    by (rule chosen_eventually [OF assms(1,4,5,2)])
  obtain k where k: "n = Suc k" using n(1) by (cases n) auto
  note r = run_rounds_unchoked [OF assms(1), of ck k]
  have "ps_id p \<in> ps_id ` set (snd (run_rounds n ck peers))"
    using r n(2) assms(3,4) k by (metis (no_types, lifting) add_le_cancel_left image_eqI le_less_trans set_map)
  then obtain q where "q \<in> set (snd (run_rounds n ck peers))" "ps_id q = ps_id p" by auto
  moreover have "ps_unchoked q" using r n calculation assms(3) k by simp
  ultimately show ?thesis using n(2) by blast
qed

theorem choker_no_starvation_witness:
  "\<exists>n \<le> 6. \<exists>q \<in> set (snd (run_rounds n (choker_new 1)
      [\<lparr>ps_id = 7, ps_interested = True, ps_rate = 0, ps_unchoked = False\<rparr>,
       \<lparr>ps_id = 8, ps_interested = True, ps_rate = 9, ps_unchoked = False\<rparr>])). ps_id q = 7 \<and> ps_unchoked q"
  using choker_no_starvation [of "[\<lparr>ps_id = 7, ps_interested = True, ps_rate = 0, ps_unchoked = False\<rparr>,
       \<lparr>ps_id = 8, ps_interested = True, ps_rate = 9, ps_unchoked = False\<rparr>]" "choker_new 1"
       "\<lparr>ps_id = 7, ps_interested = True, ps_rate = 0, ps_unchoked = False\<rparr>"]
  by (simp add: choker_new_def)

end
