(* ===== verification/Budget.thy ===== *)
theory Budget
  imports Prelude
begin

text \<open>
  The shared peer budget (\<^verbatim>\<open>crates/clove-core/src/budget.rs\<close>): one atomic counter that every
  torrent's dial workers and the inbound demux claim slots from concurrently. The step relation
  interleaves the loads, compare-exchanges and releases of any number of threads. A load with
  \<^verbatim>\<open>Ordering::Relaxed\<close> may return any value the counter has held; a compare-exchange acts on
  the latest value and, being \<^verbatim>\<open>_weak\<close>, may fail for no reason.
\<close>

subsection \<open>Sequential view\<close>

record budget =
  bg_limit :: nat
  bg_taken :: nat

definition budget_new :: "nat \<Rightarrow> budget" where
  "budget_new limit = \<lparr>bg_limit = limit, bg_taken = 0\<rparr>"

definition budget_unlimited :: budget where
  "budget_unlimited = budget_new usize_max"

text \<open>\<^verbatim>\<open>claim\<close> as one caller sees it: \<open>True\<close> is \<^verbatim>\<open>Some(PeerSlot)\<close>.\<close>

definition claim :: "budget \<Rightarrow> budget \<times> bool" where
  "claim b = (if bg_taken b \<ge> bg_limit b then (b, False) else (b\<lparr>bg_taken := bg_taken b + 1\<rparr>, True))"

definition slot_drop :: "budget \<Rightarrow> budget" where
  "slot_drop b = b\<lparr>bg_taken := (bg_taken b + 2 ^ 64 - 1) mod 2 ^ 64\<rparr>"

definition in_use :: "budget \<Rightarrow> nat" where "in_use b = bg_taken b"

definition available :: "budget \<Rightarrow> nat" where "available b = bg_limit b - in_use b"

subsection \<open>Concurrent executions\<close>

text \<open>A thread inside \<^verbatim>\<open>claim\<close> holds the value it last loaded; a thread that returned holds
  its answer until it calls again. \<open>bs_live\<close> counts the \<^verbatim>\<open>PeerSlot\<close>s not yet dropped.\<close>

datatype claim_pc = Outside | Loaded nat | Returned bool

record bstate =
  bs_budget :: budget
  bs_history :: "nat list"
  bs_live :: nat
  bs_pc :: "nat \<Rightarrow> claim_pc"

definition bstate_init :: "nat \<Rightarrow> bstate" where
  "bstate_init limit =
     \<lparr>bs_budget = budget_new limit, bs_history = [0], bs_live = 0, bs_pc = (\<lambda>_. Outside)\<rparr>"

definition store :: "budget \<Rightarrow> bstate \<Rightarrow> bstate" where
  "store b s = s\<lparr>bs_budget := b, bs_history := bg_taken b # bs_history s\<rparr>"

inductive bstep :: "bstate \<Rightarrow> bstate \<Rightarrow> bool" where
  load: "(\<And>v. bs_pc s t \<noteq> Loaded v) \<Longrightarrow> v \<in> set (bs_history s) \<Longrightarrow>
    bstep s (s\<lparr>bs_pc := (bs_pc s)(t := Loaded v)\<rparr>)"
| refuse: "bs_pc s t = Loaded v \<Longrightarrow> v \<ge> bg_limit (bs_budget s) \<Longrightarrow>
    bstep s (s\<lparr>bs_pc := (bs_pc s)(t := Returned False)\<rparr>)"
| cas_ok: "bs_pc s t = Loaded v \<Longrightarrow> v < bg_limit (bs_budget s) \<Longrightarrow> bg_taken (bs_budget s) = v \<Longrightarrow>
    bstep s (store ((bs_budget s)\<lparr>bg_taken := v + 1\<rparr>)
              (s\<lparr>bs_live := bs_live s + 1, bs_pc := (bs_pc s)(t := Returned True)\<rparr>))"
| cas_fail: "bs_pc s t = Loaded v \<Longrightarrow> v < bg_limit (bs_budget s) \<Longrightarrow> v' \<in> set (bs_history s) \<Longrightarrow>
    bstep s (s\<lparr>bs_pc := (bs_pc s)(t := Loaded v')\<rparr>)"
| release: "bs_live s > 0 \<Longrightarrow> bstep s (store (slot_drop (bs_budget s)) (s\<lparr>bs_live := bs_live s - 1\<rparr>))"

inductive_cases bstepE: "bstep s s'"

definition budget_inv :: "bstate \<Rightarrow> bool" where
  "budget_inv s \<longleftrightarrow>
     bg_taken (bs_budget s) = bs_live s \<and> bs_live s \<le> bg_limit (bs_budget s) \<and>
     bg_limit (bs_budget s) \<le> usize_max \<and> hd (bs_history s) = bs_live s \<and> bs_history s \<noteq> [] \<and>
     (\<forall>v \<in> set (bs_history s). v \<le> bg_limit (bs_budget s)) \<and>
     (\<forall>t v. bs_pc s t = Loaded v \<longrightarrow> v \<in> set (bs_history s)) \<and>
     ((\<exists>t. bs_pc s t = Returned False) \<longrightarrow> bg_limit (bs_budget s) \<in> set (bs_history s))"

lemma slot_drop_taken: "0 < bg_taken b \<Longrightarrow> bg_taken b \<le> usize_max \<Longrightarrow> slot_drop b = b\<lparr>bg_taken := bg_taken b - 1\<rparr>"
proof -
  assume b: "0 < bg_taken b" "bg_taken b \<le> usize_max"
  then have "bg_taken b + 2 ^ 64 - 1 = bg_taken b - 1 + 2 ^ 64" by simp
  moreover have "bg_taken b - 1 < 2 ^ 64" using b by (simp add: usize_max_def)
  ultimately show ?thesis by (simp only: slot_drop_def mod_add_self2 mod_less)
qed

lemma bstep_limit: "bstep s s' \<Longrightarrow> bg_limit (bs_budget s') = bg_limit (bs_budget s)"
  by (erule bstepE) (simp_all add: store_def slot_drop_def)

lemma budget_inv_init: "limit \<le> usize_max \<Longrightarrow> budget_inv (bstate_init limit)"
  by (simp add: budget_inv_def bstate_init_def budget_new_def)

lemma budget_inv_step:
  assumes "budget_inv s" "bstep s s'"
  shows "budget_inv s'"
  using assms(2)
proof cases
  case (load t v)
  then show ?thesis using assms(1) by (auto simp: budget_inv_def split: if_splits)
next
  case (refuse t v)
  have "v \<in> set (bs_history s)" "v \<le> bg_limit (bs_budget s)"
    using refuse(2) assms(1) by (auto simp: budget_inv_def)
  then have "bg_limit (bs_budget s) \<in> set (bs_history s)" using refuse(3) by (metis le_antisym)
  then show ?thesis using assms(1) refuse by (auto simp: budget_inv_def split: if_splits)
next
  case (cas_ok t v)
  then show ?thesis using assms(1) by (auto simp: budget_inv_def store_def split: if_splits)
next
  case (cas_fail t v v')
  then show ?thesis using assms(1) by (auto simp: budget_inv_def split: if_splits)
next
  case release
  then have "slot_drop (bs_budget s) = (bs_budget s)\<lparr>bg_taken := bs_live s - 1\<rparr>"
    using assms(1) by (subst slot_drop_taken) (auto simp: budget_inv_def)
  then show ?thesis using assms(1) release by (auto simp: budget_inv_def store_def)
qed

interpretation bsys: transition_system "\<lambda>s. \<exists>limit \<le> usize_max. s = bstate_init limit" bstep budget_inv
  by unfold_locales (auto intro: budget_inv_init budget_inv_step)

lemma reachable_limit: "bstep\<^sup>*\<^sup>* s s' \<Longrightarrow> bg_limit (bs_budget s') = bg_limit (bs_budget s)"
  by (induction rule: rtranclp_induct) (simp_all add: bstep_limit)

subsection \<open>Properties\<close>

lemma budget_never_exceeded_facts:
  assumes "limit \<le> usize_max" and "bstep\<^sup>*\<^sup>* (bstate_init limit) s"
  shows "in_use (bs_budget s) = bs_live s" and "bs_live s \<le> limit"
    and "available (bs_budget s) + in_use (bs_budget s) = limit"
    and "bs_pc s t = Returned False \<Longrightarrow> limit \<in> set (bs_history s)"
proof -
  have inv: "budget_inv s" using bsys.inv_reachable [OF _ assms(2)] assms(1) by blast
  have limit: "bg_limit (bs_budget s) = limit"
    using reachable_limit [OF assms(2)] by (simp add: bstate_init_def budget_new_def)
  show "in_use (bs_budget s) = bs_live s" "bs_live s \<le> limit"
    "available (bs_budget s) + in_use (bs_budget s) = limit"
    using inv limit by (simp_all add: budget_inv_def in_use_def available_def)
  show "bs_pc s t = Returned False \<Longrightarrow> limit \<in> set (bs_history s)"
    using inv limit by (auto simp: budget_inv_def)
qed
text \<open>C24. Whatever the interleaving of claims and releases on any number of threads, with stale loads
  and spurious compare-exchange failures, the counter equals the number of live slots and never
  exceeds the limit; \<^verbatim>\<open>available\<close> and \<^verbatim>\<open>in_use\<close> add up to it; and a claim is only ever refused if
  the budget was fully spent at some point.\<close>

theorem budget_never_exceeded:
  assumes "limit \<le> usize_max" and "bstep\<^sup>*\<^sup>* (bstate_init limit) s"
  shows "(in_use (bs_budget s) = bs_live s) \<and>
    (bs_live s \<le> limit) \<and>
    (available (bs_budget s) + in_use (bs_budget s) = limit) \<and>
    ((bs_pc s t = Returned False) \<longrightarrow> (limit \<in> set (bs_history s)))"
  using budget_never_exceeded_facts [OF assms] by blast

theorem budget_never_exceeded_witness:
  "\<exists>s. bstep\<^sup>*\<^sup>* (bstate_init 1) s \<and> bs_live s = 1 \<and> in_use (bs_budget s) = bs_live s \<and> bs_live s \<le> 1"
proof -
  define s1 where "s1 = (bstate_init 1)\<lparr>bs_pc := (bs_pc (bstate_init 1))(0 := Loaded 0)\<rparr>"
  define s2 where "s2 = store ((bs_budget s1)\<lparr>bg_taken := 0 + 1\<rparr>)
      (s1\<lparr>bs_live := bs_live s1 + 1, bs_pc := (bs_pc s1)(0 := Returned True)\<rparr>)"
  have "bstep (bstate_init 1) s1"
    unfolding s1_def by (rule bstep.load) (simp_all add: bstate_init_def)
  moreover have "bstep s1 s2"
    unfolding s2_def by (rule bstep.cas_ok) (simp_all add: s1_def bstate_init_def budget_new_def)
  ultimately have r: "bstep\<^sup>*\<^sup>* (bstate_init 1) s2" by (rule converse_rtranclp_into_rtranclp [OF _ r_into_rtranclp])
  have "(1 :: nat) \<le> usize_max" by (simp add: usize_max_def)
  from budget_never_exceeded [OF this r] r show ?thesis
    by (intro exI [of _ s2]) (simp add: s2_def s1_def store_def bstate_init_def)
qed

lemma claim_linearizes_facts:
  assumes "bstep s s'"
  shows "bs_live s' = bs_live s + 1 \<longrightarrow> claim (bs_budget s) = (bs_budget s', True)"
    and "bs_live s' = bs_live s \<longrightarrow> bs_budget s' = bs_budget s"
    and "bs_live s' + 1 = bs_live s \<longrightarrow> bs_budget s' = slot_drop (bs_budget s)"
proof -
  have "(bs_live s' = bs_live s + 1 \<longrightarrow> claim (bs_budget s) = (bs_budget s', True)) \<and>
      (bs_live s' = bs_live s \<longrightarrow> bs_budget s' = bs_budget s) \<and>
      (bs_live s' + 1 = bs_live s \<longrightarrow> bs_budget s' = slot_drop (bs_budget s))"
    using assms by cases (auto simp: claim_def store_def)
  then show "bs_live s' = bs_live s + 1 \<longrightarrow> claim (bs_budget s) = (bs_budget s', True)"
    "bs_live s' = bs_live s \<longrightarrow> bs_budget s' = bs_budget s"
    "bs_live s' + 1 = bs_live s \<longrightarrow> bs_budget s' = slot_drop (bs_budget s)"
    by blast+
qed
text \<open>A successful compare-exchange is an atomic claim: the step that hands out a slot performs the
  sequential \<^verbatim>\<open>claim\<close> on the shared counter, succeeding, and every step of another kind except a
  release leaves the counter alone.\<close>

theorem claim_linearizes:
  assumes "bstep s s'"
  shows "(bs_live s' = bs_live s + 1 \<longrightarrow> claim (bs_budget s) = (bs_budget s', True)) \<and>
    (bs_live s' = bs_live s \<longrightarrow> bs_budget s' = bs_budget s) \<and>
    (bs_live s' + 1 = bs_live s \<longrightarrow> bs_budget s' = slot_drop (bs_budget s))"
  using claim_linearizes_facts [OF assms] by blast

theorem claim_linearizes_witness:
  "\<exists>s s'. bstep s s' \<and> bs_live s' = bs_live s + 1 \<and> claim (bs_budget s) = (bs_budget s', True)"
proof -
  define s where "s = (bstate_init 2)\<lparr>bs_pc := (\<lambda>_. Outside)(3 := Loaded 0)\<rparr>"
  define s' where "s' = store ((bs_budget s)\<lparr>bg_taken := 0 + 1\<rparr>)
      (s\<lparr>bs_live := bs_live s + 1, bs_pc := (bs_pc s)(3 := Returned True)\<rparr>)"
  have step: "bstep s s'"
    unfolding s'_def by (rule bstep.cas_ok) (simp_all add: s_def bstate_init_def budget_new_def)
  moreover have "bs_live s' = bs_live s + 1" by (simp add: s'_def store_def)
  ultimately show ?thesis using claim_linearizes [OF step] by blast
qed

end
