(* ===== verification/Pex.thy ===== *)
theory Pex
  imports Bencode
begin

text \<open>
  Peer exchange (\<^verbatim>\<open>crates/clove-core/src/pex.rs\<close>): the \<^verbatim>\<open>i2p_pex\<close> payload, a dictionary of two
  strings of concatenated 32-byte destination hashes.
\<close>

subsection \<open>Model\<close>

definition MAX_PEX_PEERS :: nat where "MAX_PEX_PEERS = 512"

record pex_message =
  px_added :: "bytes list"
  px_dropped :: "bytes list"

datatype pex_error = PexMalformed | TooManyPeers

definition pex_is_empty :: "pex_message \<Rightarrow> bool" where
  "pex_is_empty m \<longleftrightarrow> px_added m = [] \<and> px_dropped m = []"

definition pack :: "bytes list \<Rightarrow> bytes" where
  "pack peers = concat peers"

definition pex_encode :: "pex_message \<Rightarrow> bytes" where
  "pex_encode m =
     encode (BDict (bt_insert (ascii ''dropped'') (BBytes (pack (px_dropped m)))
                     (bt_insert (ascii ''added'') (BBytes (pack (px_added m))) [])))"

definition unpack :: "bvalue option \<Rightarrow> pex_error + bytes list" where
  "unpack field =
     (case field of
        None \<Rightarrow> Inr []
      | Some (BBytes b) \<Rightarrow> if length b mod 32 \<noteq> 0 then Inl PexMalformed else Inr (chunks 32 b)
      | Some _ \<Rightarrow> Inl PexMalformed)"

definition pex_parse :: "bytes \<Rightarrow> pex_error + pex_message" where
  "pex_parse payload =
     (case decode payload of
        Inl _ \<Rightarrow> Inl PexMalformed
      | Inr root \<Rightarrow>
          (case unpack (bget root (ascii ''added'')) of
             Inl e \<Rightarrow> Inl e
           | Inr added \<Rightarrow>
               (case unpack (bget root (ascii ''dropped'')) of
                  Inl e \<Rightarrow> Inl e
                | Inr dropped \<Rightarrow>
                    if length added + length dropped > MAX_PEX_PEERS then Inl TooManyPeers
                    else Inr \<lparr>px_added = added, px_dropped = dropped\<rparr>)))"

subsection \<open>Lemmas\<close>

definition pex_ok :: "pex_message \<Rightarrow> bool" where
  "pex_ok m \<longleftrightarrow>
     (\<forall>h \<in> set (px_added m) \<union> set (px_dropped m). length h = 32) \<and>
     length (px_added m) + length (px_dropped m) \<le> MAX_PEX_PEERS"

lemma unpack_pack [simp]: "\<forall>h \<in> set hs. length h = 32 \<Longrightarrow> unpack (Some (BBytes (pack hs))) = Inr hs"
  using length_concat_const [of hs 32] by (simp add: unpack_def pack_def chunks_concat)

lemma unpack_length: "unpack f = Inr hs \<Longrightarrow> h \<in> set hs \<Longrightarrow> length h = 32"
  by (auto simp: unpack_def chunks_length split: option.splits bvalue.splits if_splits)

lemma pex_keys: "ascii ''added'' < ascii ''dropped''"
  by (simp add: ascii_def)

lemma pex_encode_fits:
  assumes "pex_ok m"
  shows "decode (pex_encode m) =
    Inr (BDict [(ascii ''added'', BBytes (pack (px_added m))), (ascii ''dropped'', BBytes (pack (px_dropped m)))])"
proof -
  let ?v = "BDict [(ascii ''added'', BBytes (pack (px_added m))), (ascii ''dropped'', BBytes (pack (px_dropped m)))]"
  have l: "length (pack (px_added m)) = 32 * length (px_added m)"
      "length (pack (px_dropped m)) = 32 * length (px_dropped m)"
    using assms by (auto simp: pex_ok_def pack_def intro!: length_concat_const)
  have "length (encode ?v) \<le> 100 + 2 * (length (pack (px_added m)) + length (pack (px_dropped m)))"
    using put_bytes_bound [of "ascii ''added''"] put_bytes_bound [of "ascii ''dropped''"]
      put_bytes_bound [of "pack (px_added m)"] put_bytes_bound [of "pack (px_dropped m)"]
    by simp
  also have "\<dots> \<le> usize_max"
    using assms by (simp add: l pex_ok_def MAX_PEX_PEERS_def usize_max_def)
  finally have "length (encode ?v) \<le> usize_max" .
  moreover have "fits MAX_DEPTH ?v" using pex_keys by (simp add: MAX_DEPTH_def)
  ultimately have "decode (encode ?v) = Inr ?v" by (intro ben.dec_enc) simp
  moreover have "pex_encode m = encode ?v"
    using pex_keys less_not_sym [OF pex_keys] by (simp add: pex_encode_def)
  ultimately show ?thesis by simp
qed

interpretation pex: codec pex_encode pex_parse pex_ok
proof
  fix m assume ok: "pex_ok m"
  then have "unpack (Some (BBytes (pack (px_added m)))) = Inr (px_added m)"
      "unpack (Some (BBytes (pack (px_dropped m)))) = Inr (px_dropped m)"
    by (auto simp: pex_ok_def intro!: unpack_pack)
  then show "pex_parse (pex_encode m) = Inr m"
    using ok by (simp add: pex_parse_def pex_encode_fits bget_def pex_ok_def)
qed

subsection \<open>Properties\<close>

lemma pex_roundtrip_and_bounds_facts:
  "pex_ok m \<Longrightarrow> pex_parse (pex_encode m) = Inr m"
  "pex_parse payload = Inr m' \<Longrightarrow> pex_ok m'"
proof -
  show "pex_ok m \<Longrightarrow> pex_parse (pex_encode m) = Inr m" by (rule pex.dec_enc)
  show "pex_parse payload = Inr m' \<Longrightarrow> pex_ok m'"
    by (auto simp: pex_parse_def pex_ok_def not_less dest: unpack_length split: sum.splits if_splits)
qed
text \<open>Peer exchange messages round-trip, and whatever a peer sends, an accepted message holds at most
  512 hashes, each exactly 32 bytes long.\<close>

theorem pex_roundtrip_and_bounds:
  "((pex_ok m) \<longrightarrow> (pex_parse (pex_encode m) = Inr m)) \<and>
    ((pex_parse payload = Inr m') \<longrightarrow> (pex_ok m'))"
  using pex_roundtrip_and_bounds_facts by blast

theorem pex_roundtrip_and_bounds_witness:
  "pex_parse (pex_encode \<lparr>px_added = [replicate 32 1, replicate 32 2], px_dropped = []\<rparr>)
   = Inr \<lparr>px_added = [replicate 32 1, replicate 32 2], px_dropped = []\<rparr>"
  by (rule pex_roundtrip_and_bounds [THEN conjunct1, THEN mp]) (simp add: pex_ok_def MAX_PEX_PEERS_def)

end
