(* ===== verification/Extension.thy ===== *)
theory Extension
  imports Bencode
begin

text \<open>
  The BEP 10 extension handshake (\<^verbatim>\<open>crates/clove-core/src/extension.rs\<close>): which extensions a
  peer listens on and under which ids, the metadata size and the client name. Strings are their
  UTF-8 bytes, ordered as Rust orders \<^verbatim>\<open>String\<close>.
\<close>

subsection \<open>Model\<close>

definition I2P_PEX :: bytes where "I2P_PEX = ascii ''i2p_pex''"
definition UT_METADATA :: bytes where "UT_METADATA = ascii ''ut_metadata''"

record ext_handshake =
  eh_ids :: "(bytes, nat) btree"
  eh_metadata_size :: "nat option"
  eh_client :: "bytes option"

datatype ext_error = ExtMalformed

definition id_for :: "ext_handshake \<Rightarrow> bytes \<Rightarrow> nat option" where
  "id_for h name = bt_get (eh_ids h) name"

definition ext_encode :: "ext_handshake \<Rightarrow> bytes" where
  "ext_encode h =
     (let m = fold (\<lambda>(name, i) m. bt_insert name (BInt (int i)) m) (eh_ids h) [];
          root = bt_insert (ascii ''m'') (BDict m) [];
          root = (case eh_metadata_size h of
                    Some msize \<Rightarrow> bt_insert (ascii ''metadata_size'') (BInt (i64_of_u64_sat msize)) root
                  | None \<Rightarrow> root);
          root = (case eh_client h of
                    Some client \<Rightarrow> bt_insert (ascii ''v'') (BBytes client) root
                  | None \<Rightarrow> root) in
      encode (BDict root))"

fun ids_loop :: "(bytes, bvalue) btree \<Rightarrow> (bytes, nat) btree \<Rightarrow> ext_error + (bytes, nat) btree" where
  "ids_loop [] ids = Inr ids"
| "ids_loop ((name, value) # m) ids =
     (case as_int value of
        None \<Rightarrow> Inl ExtMalformed
      | Some i \<Rightarrow>
          if i = 0 then ids_loop m ids
          else if \<not> (0 \<le> i \<and> i \<le> 255) then Inl ExtMalformed
          else if \<not> utf8_valid name then Inl ExtMalformed
          else ids_loop m (bt_insert name (nat i) ids))"

definition ext_parse :: "bytes \<Rightarrow> ext_error + ext_handshake" where
  "ext_parse payload =
     (case decode payload of
        Inl _ \<Rightarrow> Inl ExtMalformed
      | Inr root \<Rightarrow>
          (case (case bget root (ascii ''m'') of Some (BDict m) \<Rightarrow> ids_loop m [] | _ \<Rightarrow> Inr []) of
             Inl e \<Rightarrow> Inl e
           | Inr ids \<Rightarrow>
               Inr \<lparr>eh_ids = ids,
                    eh_metadata_size = Option.bind (Option.bind (bget root (ascii ''metadata_size'')) as_int) u64_of_i64,
                    eh_client = Option.bind (bget root (ascii ''v'')) as_str\<rparr>))"

subsection \<open>Lemmas\<close>

definition ids_ok :: "(bytes, nat) btree \<Rightarrow> bool" where
  "ids_ok ids \<longleftrightarrow> bt_wf ids \<and> (\<forall>(name, i) \<in> set ids. utf8_valid name \<and> 0 < i \<and> i \<le> 255)"

definition ext_ok :: "ext_handshake \<Rightarrow> bool" where
  "ext_ok h \<longleftrightarrow>
     ids_ok (eh_ids h) \<and> (\<forall>n. eh_metadata_size h = Some n \<longrightarrow> int n \<le> i64_max) \<and>
     (\<forall>c. eh_client h = Some c \<longrightarrow> utf8_valid c) \<and> length (ext_encode h) \<le> usize_max"

lemma fold_insert_sorted:
  "bt_wf (acc @ map (\<lambda>(k, v). (k, f v)) m) \<Longrightarrow>
   fold (\<lambda>(k, v) m. bt_insert k (f v) m) m acc = acc @ map (\<lambda>(k, v). (k, f v)) m"
proof (induction m arbitrary: acc)
  case (Cons e m)
  obtain k v where e: "e = (k, v)" by (cases e)
  have "bt_insert k (f v) acc = acc @ [(k, f v)]"
    using Cons.prems by (intro bt_insert_last) (auto simp: e bt_wf_def sorted_wrt_append)
  then show ?case using Cons by (simp add: e)
qed simp

lemma bt_wf_map_snd: "bt_wf (map (\<lambda>(k, v). (k, f v)) m) \<longleftrightarrow> bt_wf m"
proof -
  have "map fst (map (\<lambda>(k, v). (k, f v)) m) = map fst m" by (induction m) auto
  then show ?thesis unfolding bt_wf_def by (simp only:)
qed

lemma ids_loop_ok:
  assumes "\<forall>(name, i) \<in> set ids. utf8_valid name \<and> 0 < i \<and> i \<le> 255" "bt_wf (acc @ ids)"
  shows "ids_loop (map (\<lambda>(k, v). (k, BInt (int v))) ids) acc = Inr (acc @ ids)"
  using assms
proof (induction ids arbitrary: acc)
  case (Cons e ids)
  obtain k v where e: "e = (k, v)" by (cases e)
  have "bt_insert k v acc = acc @ [(k, v)]"
    using Cons.prems by (intro bt_insert_last) (auto simp: e bt_wf_def sorted_wrt_append)
  then show ?case using Cons.IH [of "acc @ [(k, v)]"] Cons.prems by (simp add: e)
qed simp

text \<open>Every accepted id table is well-formed, whatever the payload.\<close>

lemma ids_loop_sound: "ids_loop m acc = Inr ids \<Longrightarrow> ids_ok acc \<Longrightarrow> ids_ok ids"
proof (induction m acc rule: ids_loop.induct)
  case (2 name v m acc)
  obtain i where i: "as_int v = Some i" using "2.prems" by (auto split: option.splits)
  show ?case
  proof (cases "i = 0")
    case True
    then show ?thesis using 2 i by simp
  next
    case False
    then have ok: "0 \<le> i" "i \<le> 255" "utf8_valid name" "ids_loop m (bt_insert name (nat i) acc) = Inr ids"
      using "2.prems"(1) i by (simp_all split: if_splits)
    have "ids_ok (bt_insert name (nat i) acc)"
      using "2.prems"(2) ok False by (auto simp: ids_ok_def set_bt_insert)
    then show ?thesis using "2.IH"(2) [OF i] False ok by simp
  qed
qed simp

lemma ext_keys: "ascii ''m'' < ascii ''metadata_size''" "ascii ''metadata_size'' < ascii ''v''"
    "ascii ''m'' < ascii ''v''"
  by (simp_all add: ascii_def)

text \<open>The dictionary an encoded handshake holds, in key order.\<close>

definition ext_root :: "ext_handshake \<Rightarrow> (bytes, bvalue) btree" where
  "ext_root h =
     (ascii ''m'', BDict (map (\<lambda>(k, v). (k, BInt (int v))) (eh_ids h))) #
     (case eh_metadata_size h of Some n \<Rightarrow> [(ascii ''metadata_size'', BInt (i64_of_u64_sat n))] | None \<Rightarrow> []) @
     (case eh_client h of Some c \<Rightarrow> [(ascii ''v'', BBytes c)] | None \<Rightarrow> [])"

lemma ext_encode_root:
  assumes "bt_wf (eh_ids h)"
  shows "ext_encode h = encode (BDict (ext_root h))"
proof -
  have "fold (\<lambda>(name, i) m. bt_insert name (BInt (int i)) m) (eh_ids h) [] =
      map (\<lambda>(k, v). (k, BInt (int v))) (eh_ids h)"
    using fold_insert_sorted [of "[]" "\<lambda>v. BInt (int v)" "eh_ids h"] assms by (simp add: bt_wf_map_snd)
  then show ?thesis
    using ext_keys ext_keys [THEN less_not_sym]
    by (cases "eh_metadata_size h"; cases "eh_client h") (simp_all add: ext_encode_def ext_root_def)
qed

lemma ext_root_fits:
  assumes "ids_ok (eh_ids h)"
  shows "fits MAX_DEPTH (BDict (ext_root h))"
proof -
  have "in_i64 (int v)" if "(k, v) \<in> set (eh_ids h)" for k v
    using assms that by (auto simp: ids_ok_def in_i64_def i64_min_def i64_max_def)
  then have "\<forall>e \<in> set (eh_ids h). in_i64 (int (snd e))" by auto
  then have "fits (Suc 30) (BDict (map (\<lambda>(k, v). (k, BInt (int v))) (eh_ids h)))"
    using assms by (auto simp: ids_ok_def bt_wf_map_snd)
  then show ?thesis
    using ext_keys
    by (cases "eh_metadata_size h"; cases "eh_client h")
      (simp_all add: ext_root_def MAX_DEPTH_def i64_sat_in)
qed

interpretation exth: codec ext_encode ext_parse ext_ok
proof
  fix h assume ok: "ext_ok h"
  have wf: "bt_wf (eh_ids h)" using ok by (simp add: ext_ok_def ids_ok_def)
  have "decode (ext_encode h) = Inr (BDict (ext_root h))"
    using ok ext_root_fits [of h] unfolding ext_ok_def ext_encode_root [OF wf] by (intro ben.dec_enc) simp
  moreover have "ids_loop (map (\<lambda>(k, v). (k, BInt (int v))) (eh_ids h)) [] = Inr (eh_ids h)"
    using ids_loop_ok [of "eh_ids h" "[]"] ok by (auto simp: ext_ok_def ids_ok_def)
  moreover have "Option.bind (Option.bind (bget (BDict (ext_root h)) (ascii ''metadata_size'')) as_int) u64_of_i64
      = eh_metadata_size h"
    using ok by (cases "eh_metadata_size h"; cases "eh_client h")
      (auto simp: ext_root_def bget_def ext_ok_def i64_of_u64_sat_def u64_of_i64_def i64_max_def u64_max_def)
  moreover have "Option.bind (bget (BDict (ext_root h)) (ascii ''v'')) as_str = eh_client h"
    using ok by (cases "eh_metadata_size h"; cases "eh_client h")
      (auto simp: ext_root_def bget_def ext_ok_def as_str_def)
  ultimately show "ext_parse (ext_encode h) = Inr h"
    by (simp add: ext_parse_def bget_def [of _ "ascii ''m''"] ext_root_def [of h])
qed

subsection \<open>Properties\<close>

lemma extension_roundtrip_and_bounds_facts:
  "ext_ok h \<Longrightarrow> ext_parse (ext_encode h) = Inr h"
  "ext_parse payload = Inr h' \<Longrightarrow> id_for h' name = Some i \<Longrightarrow> 0 < i \<and> i \<le> 255 \<and> utf8_valid name"
proof -
  show "ext_ok h \<Longrightarrow> ext_parse (ext_encode h) = Inr h" by (rule exth.dec_enc)
  assume p: "ext_parse payload = Inr h'" and i: "id_for h' name = Some i"
  have "ids_ok (eh_ids h')"
    using p ids_loop_sound
    by (auto simp: ext_parse_def ids_ok_def [of "[]"] split: sum.splits option.splits bvalue.splits)
  moreover have "(name, i) \<in> set (eh_ids h')" using i map_of_SomeD by (auto simp: id_for_def)
  ultimately show "0 < i \<and> i \<le> 255 \<and> utf8_valid name" by (auto simp: ids_ok_def)
qed
text \<open>The extension handshake round-trips, and any accepted payload, however hostile, yields ids between
  1 and 255 under valid UTF-8 names: an id of 0 (extension disabled) is never recorded.\<close>

theorem extension_roundtrip_and_bounds:
  "((ext_ok h) \<longrightarrow> (ext_parse (ext_encode h) = Inr h)) \<and>
    ((ext_parse payload = Inr h') \<longrightarrow> (id_for h' name = Some i) \<longrightarrow> (0 < i \<and> i \<le> 255 \<and> utf8_valid name))"
  using extension_roundtrip_and_bounds_facts by blast

theorem extension_roundtrip_and_bounds_witness:
  "ext_parse (ext_encode \<lparr>eh_ids = [(I2P_PEX, 1), (UT_METADATA, 2)], eh_metadata_size = Some 31235, eh_client = None\<rparr>)
   = Inr \<lparr>eh_ids = [(I2P_PEX, 1), (UT_METADATA, 2)], eh_metadata_size = Some 31235, eh_client = None\<rparr>"
proof (rule extension_roundtrip_and_bounds [THEN conjunct1, THEN mp])
  show "ext_ok \<lparr>eh_ids = [(I2P_PEX, 1), (UT_METADATA, 2)], eh_metadata_size = Some 31235, eh_client = None\<rparr>"
    unfolding ext_ok_def
  proof (intro conjI)
    show "ids_ok (eh_ids \<lparr>eh_ids = [(I2P_PEX, 1), (UT_METADATA, 2)], eh_metadata_size = Some 31235, eh_client = None\<rparr>)"
      "length (ext_encode \<lparr>eh_ids = [(I2P_PEX, 1), (UT_METADATA, 2)], eh_metadata_size = Some 31235, eh_client = None\<rparr>)
       \<le> usize_max"
      by code_simp+
  qed (simp_all add: i64_max_def)
qed

end
