(* ===== verification/Metadata.thy ===== *)
theory Metadata
  imports Bencode
begin

text \<open>
  Metadata exchange (\<^verbatim>\<open>crates/clove-core/src/metadata.rs\<close>): the \<^verbatim>\<open>ut_metadata\<close> message codec,
  the assembler that collects the pieces of an info dictionary and releases it only when it hashes
  to the expected info-hash, and the per-peer request budget. SHA-1 is a parameter; an
  \<^verbatim>\<open>Instant\<close> is a natural number of time units.
\<close>

subsection \<open>Messages\<close>

definition METADATA_PIECE_LEN :: nat where "METADATA_PIECE_LEN = 16 * 1024"
definition MAX_METADATA_SIZE :: nat where "MAX_METADATA_SIZE = 8 * 1024 * 1024"

datatype metadata_message = MdRequest nat | MdData nat nat bytes | MdReject nat

datatype metadata_error = MdMalformed | PieceTooLarge | BadSize | BadPiece

definition md_header :: "int \<Rightarrow> nat \<Rightarrow> nat option \<Rightarrow> bvalue" where
  "md_header msg_type piece extra =
     (let dict = bt_insert (ascii ''msg_type'') (BInt msg_type) [];
          dict = bt_insert (ascii ''piece'') (BInt (int piece)) dict;
          dict = (case extra of
                    Some total_size \<Rightarrow> bt_insert (ascii ''total_size'') (BInt (int total_size)) dict
                  | None \<Rightarrow> dict) in
      BDict dict)"

fun md_encode :: "metadata_message \<Rightarrow> bytes" where
  "md_encode (MdRequest piece) = encode (md_header 0 piece None)"
| "md_encode (MdReject piece) = encode (md_header 2 piece None)"
| "md_encode (MdData piece total_size data) = encode (md_header 1 piece (Some total_size)) @ data"

definition md_u32 :: "bvalue \<Rightarrow> bytes \<Rightarrow> nat option" where
  "md_u32 header key = Option.bind (Option.bind (bget header key) as_int) u32_of_i64"

definition md_parse :: "bytes \<Rightarrow> metadata_error + metadata_message" where
  "md_parse payload =
     (case decode_prefix payload of
        Inl _ \<Rightarrow> Inl MdMalformed
      | Inr (header, consumed) \<Rightarrow>
          (case md_u32 header (ascii ''piece'') of
             None \<Rightarrow> Inl MdMalformed
           | Some piece \<Rightarrow>
               (let msg_type = Option.bind (bget header (ascii ''msg_type'')) as_int in
                if msg_type = Some 0 then Inr (MdRequest piece)
                else if msg_type = Some 2 then Inr (MdReject piece)
                else if msg_type = Some 1 then
                  (case md_u32 header (ascii ''total_size'') of
                     None \<Rightarrow> Inl MdMalformed
                   | Some total_size \<Rightarrow>
                       (let data = drop consumed payload in
                        if length data > METADATA_PIECE_LEN then Inl PieceTooLarge
                        else Inr (MdData piece total_size data)))
                else Inl MdMalformed)))"

subsection \<open>Assembler\<close>

record assembler =
  am_total_size :: nat
  am_pieces :: "bytes option list"
  am_have :: nat

definition assembler_new :: "nat \<Rightarrow> metadata_error + assembler" where
  "assembler_new total_size =
     (if total_size = 0 \<or> total_size > MAX_METADATA_SIZE then Inl BadSize
      else Inr \<lparr>am_total_size = total_size,
                am_pieces = replicate (div_ceil total_size METADATA_PIECE_LEN) None, am_have = 0\<rparr>)"

definition am_num_pieces :: "assembler \<Rightarrow> nat" where
  "am_num_pieces a = u32_clamp (length (am_pieces a))"

definition am_piece_len :: "assembler \<Rightarrow> nat \<Rightarrow> nat" where
  "am_piece_len a index =
     (case checked_usize (index * METADATA_PIECE_LEN) of
        None \<Rightarrow> 0
      | Some start \<Rightarrow>
          if start \<ge> am_total_size a then 0 else min (am_total_size a - start) METADATA_PIECE_LEN)"

definition am_missing :: "assembler \<Rightarrow> nat list" where
  "am_missing a = map u32_clamp (filter (\<lambda>i. am_pieces a ! i = None) [0..<length (am_pieces a)])"

definition add_piece :: "assembler \<Rightarrow> nat \<Rightarrow> bytes \<Rightarrow> metadata_error + assembler" where
  "add_piece a index data =
     (if \<not> index < length (am_pieces a) then Inl BadPiece
      else if length data \<noteq> am_piece_len a index then Inl BadPiece
      else if am_pieces a ! index = None
      then Inr (a\<lparr>am_pieces := (am_pieces a)[index := Some data], am_have := am_have a + 1\<rparr>)
      else Inr a)"

definition am_is_complete :: "assembler \<Rightarrow> bool" where
  "am_is_complete a \<longleftrightarrow> am_have a = length (am_pieces a)"

fun gather :: "bytes option list \<Rightarrow> bytes \<Rightarrow> bytes option" where
  "gather [] bs = Some bs"
| "gather (None # ps) bs = None"
| "gather (Some p # ps) bs = gather ps (bs @ p)"

definition finish :: "(bytes \<Rightarrow> bytes) \<Rightarrow> assembler \<Rightarrow> bytes \<Rightarrow> bytes option" where
  "finish sha1 a expected_info_hash =
     (if \<not> am_is_complete a then None
      else case gather (am_pieces a) [] of
        None \<Rightarrow> None
      | Some bs \<Rightarrow> if sha1 bs = expected_info_hash then Some bs else None)"

subsection \<open>Request budget\<close>

definition METADATA_REQUEST_LIMIT :: nat where "METADATA_REQUEST_LIMIT = 128"

text \<open>Ten seconds, in nanoseconds.\<close>

definition METADATA_REQUEST_WINDOW :: nat where "METADATA_REQUEST_WINDOW = 10 * 10 ^ 9"

record md_budget =
  mb_limit :: nat
  mb_window :: nat
  mb_window_start :: "nat option"
  mb_used :: nat

definition md_budget_new :: "nat \<Rightarrow> nat \<Rightarrow> md_budget" where
  "md_budget_new limit window = \<lparr>mb_limit = limit, mb_window = window, mb_window_start = None, mb_used = 0\<rparr>"

definition md_budget_default :: md_budget where
  "md_budget_default = md_budget_new METADATA_REQUEST_LIMIT METADATA_REQUEST_WINDOW"

definition allow :: "md_budget \<Rightarrow> nat \<Rightarrow> md_budget \<times> bool" where
  "allow b now =
     (let expired = (case mb_window_start b of None \<Rightarrow> True | Some start \<Rightarrow> now - start \<ge> mb_window b);
          b1 = (if expired then b\<lparr>mb_window_start := Some now, mb_used := 0\<rparr> else b) in
      if mb_used b1 \<ge> mb_limit b1 then (b1, False)
      else (b1\<lparr>mb_used := mb_used b1 + 1\<rparr>, True))"

definition mb_remaining :: "md_budget \<Rightarrow> nat" where
  "mb_remaining b = mb_limit b - mb_used b"

text \<open>Requests arriving at the given times; the answers.\<close>

fun allow_all :: "md_budget \<Rightarrow> nat list \<Rightarrow> bool list" where
  "allow_all b [] = []"
| "allow_all b (t # ts) = (let (b', a) = allow b t in a # allow_all b' ts)"

subsection \<open>The codec\<close>

fun md_ok :: "metadata_message \<Rightarrow> bool" where
  "md_ok (MdRequest p) = (p \<le> u32_max)"
| "md_ok (MdReject p) = (p \<le> u32_max)"
| "md_ok (MdData p t d) = (p \<le> u32_max \<and> t \<le> u32_max \<and> length d \<le> METADATA_PIECE_LEN)"

lemma md_keys: "ascii ''msg_type'' < ascii ''piece''" "ascii ''piece'' < ascii ''total_size''"
    "ascii ''msg_type'' < ascii ''total_size''"
  by (simp_all add: ascii_def)

lemma md_header_eq:
  "md_header t p e = BDict ([(ascii ''msg_type'', BInt t), (ascii ''piece'', BInt (int p))] @
     (case e of Some n \<Rightarrow> [(ascii ''total_size'', BInt (int n))] | None \<Rightarrow> []))"
  using md_keys md_keys [THEN less_not_sym] by (cases e) (simp_all add: md_header_def Let_def)

lemma u32_in_i64: "n \<le> u32_max \<Longrightarrow> in_i64 (int n)"
  by (simp add: in_i64_def i64_min_def i64_max_def u32_max_def)

lemma u32_of_u32 [simp]: "n \<le> u32_max \<Longrightarrow> u32_of_i64 (int n) = Some n"
  by (simp add: u32_of_i64_def)

lemma md_u32_bound: "md_u32 h k = Some n \<Longrightarrow> n \<le> u32_max"
  by (auto simp: md_u32_def u32_of_i64_def nat_le_iff split: Option.bind_splits if_splits)

lemma md_header_fits:
  assumes "p \<le> u32_max" "\<And>n. e = Some n \<Longrightarrow> n \<le> u32_max" "t \<in> {0, 1, 2}"
  shows "fits MAX_DEPTH (md_header t p e)"
proof -
  have "in_i64 t" using assms(3) by (auto simp: in_i64_def i64_min_def i64_max_def)
  then show ?thesis
    using assms md_keys by (cases e) (simp_all add: md_header_eq MAX_DEPTH_def u32_in_i64)
qed

lemma dec_int_length: "length (dec_int (int n)) \<le> n + 1"
  using dec_digits_length [of n] by (simp add: dec_int_def)

lemma md_header_length:
  assumes "p \<le> u32_max" "\<And>n. e = Some n \<Longrightarrow> n \<le> u32_max" "t \<in> {0, 1, 2}"
  shows "length (encode (md_header t p e)) \<le> 2 * u32_max + 1000"
proof -
  have t: "length (dec_int t) = 1" using assms(3) by (auto simp: dec_int_def dec_digits.simps)
  note b = put_bytes_bound [of "ascii ''msg_type''"] put_bytes_bound [of "ascii ''piece''"]
    put_bytes_bound [of "ascii ''total_size''"]
  show ?thesis
  proof (cases e)
    case None
    then show ?thesis using t b dec_int_length [of p] assms(1) by (simp add: md_header_eq)
  next
    case (Some n)
    then show ?thesis
      using t b dec_int_length [of p] dec_int_length [of n] assms(1,2) by (simp add: md_header_eq)
  qed
qed

lemma md_decode_prefix:
  assumes "p \<le> u32_max" "\<And>n. e = Some n \<Longrightarrow> n \<le> u32_max" "t \<in> {0, 1, 2}" "length d \<le> METADATA_PIECE_LEN"
  shows "decode_prefix (encode (md_header t p e) @ d) = Inr (md_header t p e, length (encode (md_header t p e)))"
proof (rule benp.decp_enc)
  show "fits MAX_DEPTH (md_header t p e)" using assms(1-3) by (rule md_header_fits)
  have "length (encode (md_header t p e)) \<le> 2 * u32_max + 1000"
    using assms(1-3) by (rule md_header_length)
  then show "length (encode (md_header t p e) @ d) \<le> usize_max"
    using assms(4) by (simp add: METADATA_PIECE_LEN_def u32_max_def usize_max_def)
qed

lemma md_header_get:
  "bget (md_header t p e) (ascii ''msg_type'') = Some (BInt t)"
  "bget (md_header t p e) (ascii ''piece'') = Some (BInt (int p))"
  "bget (md_header t p (Some n)) (ascii ''total_size'') = Some (BInt (int n))"
  by (simp_all add: md_header_eq bget_def)

interpretation md: codec md_encode md_parse md_ok
proof
  fix m assume ok: "md_ok m"
  show "md_parse (md_encode m) = Inr m"
  proof (cases m)
    case (MdRequest p)
    then show ?thesis
      using ok md_decode_prefix [of p None 0 "[]"]
      by (simp add: md_parse_def md_u32_def md_header_get METADATA_PIECE_LEN_def)
  next
    case (MdReject p)
    then show ?thesis
      using ok md_decode_prefix [of p None 2 "[]"]
      by (simp add: md_parse_def md_u32_def md_header_get METADATA_PIECE_LEN_def)
  next
    case (MdData p t d)
    then show ?thesis
      using ok md_decode_prefix [of p "Some t" 1 d]
      by (simp add: md_parse_def md_u32_def md_header_get Let_def)
  qed
qed

subsection \<open>Assembling\<close>

definition am_inv :: "assembler \<Rightarrow> bool" where
  "am_inv a \<longleftrightarrow>
     0 < am_total_size a \<and> am_total_size a \<le> MAX_METADATA_SIZE \<and>
     length (am_pieces a) = div_ceil (am_total_size a) METADATA_PIECE_LEN \<and>
     am_have a = length (filter (\<lambda>p. p \<noteq> None) (am_pieces a)) \<and>
     (\<forall>i < length (am_pieces a). \<forall>d. am_pieces a ! i = Some d \<longrightarrow> length d = am_piece_len a i)"

lemma piece_len_pos_const [simp]: "0 < METADATA_PIECE_LEN"
  by (simp add: METADATA_PIECE_LEN_def)

lemma am_piece_len_eq:
  assumes "am_total_size a \<le> MAX_METADATA_SIZE" "i < div_ceil (am_total_size a) METADATA_PIECE_LEN"
  shows "am_piece_len a i = min (am_total_size a - i * METADATA_PIECE_LEN) METADATA_PIECE_LEN"
proof -
  have "i * METADATA_PIECE_LEN < am_total_size a" using assms(2) by (simp add: div_ceil_less_iff)
  moreover have "MAX_METADATA_SIZE \<le> usize_max" by (simp add: MAX_METADATA_SIZE_def usize_max_def)
  ultimately show ?thesis using assms(1) by (simp add: am_piece_len_def checked_usize_def)
qed

lemma assembler_new_inv [inv_intros]: "assembler_new n = Inr a \<Longrightarrow> am_inv a"
  by (auto simp: assembler_new_def am_inv_def split: if_splits)

lemma filter_update_Some:
  "i < length ps \<Longrightarrow> ps ! i = None \<Longrightarrow>
   length (filter (\<lambda>p. p \<noteq> None) (ps[i := Some d])) = Suc (length (filter (\<lambda>p. p \<noteq> None) ps))"
  by (induction ps arbitrary: i) (auto split: nat.splits)

lemma am_piece_len_update [simp]:
  "am_piece_len (a\<lparr>am_pieces := p, am_have := h\<rparr>) = am_piece_len a"
  by (rule ext) (simp add: am_piece_len_def split: option.split)

lemma add_piece_inv [inv_intros]: "am_inv a \<Longrightarrow> add_piece a i d = Inr a' \<Longrightarrow> am_inv a'"
  by (auto simp: add_piece_def am_inv_def nth_list_update filter_update_Some simp del: not_None_eq split: if_splits)

lemma gather_concat: "\<forall>p \<in> set ps. p \<noteq> None \<Longrightarrow> gather ps bs = Some (bs @ concat (map the ps))"
  by (induction ps bs rule: gather.induct) auto

lemma length_filter_full: "length (filter P xs) = length xs \<longleftrightarrow> (\<forall>x \<in> set xs. P x)"
  by (metis (mono_tags, lifting) filter_True length_filter_less less_irrefl)

lemma complete_iff: "am_inv a \<Longrightarrow> am_is_complete a \<longleftrightarrow> (\<forall>p \<in> set (am_pieces a). p \<noteq> None)"
  unfolding am_is_complete_def am_inv_def
  using length_filter_full [of "\<lambda>p. p \<noteq> None" "am_pieces a"] by metis

lemma complete_bytes:
  assumes "am_inv a" "am_is_complete a"
  shows "gather (am_pieces a) [] = Some (concat (map the (am_pieces a)))"
    and "length (concat (map the (am_pieces a))) = am_total_size a"
proof -
  have all: "\<forall>p \<in> set (am_pieces a). p \<noteq> None" using assms complete_iff by blast
  then show "gather (am_pieces a) [] = Some (concat (map the (am_pieces a)))" by (simp add: gather_concat)
  let ?n = "div_ceil (am_total_size a) METADATA_PIECE_LEN"
  have "length (the (am_pieces a ! i)) = min (am_total_size a - i * METADATA_PIECE_LEN) METADATA_PIECE_LEN"
    if "i < ?n" for i
  proof -
    have "i < length (am_pieces a)" using that assms(1) by (simp add: am_inv_def)
    then obtain d where "am_pieces a ! i = Some d" using all nth_mem by blast
    then show ?thesis
      using assms(1) that am_piece_len_eq [of a i] by (simp add: am_inv_def)
  qed
  moreover have "map length (map the (am_pieces a)) = map (\<lambda>i. length (the (am_pieces a ! i))) [0..<?n]"
    using assms(1) by (intro nth_equalityI) (auto simp: am_inv_def)
  ultimately have "map length (map the (am_pieces a)) =
      map (\<lambda>i. min (am_total_size a - i * METADATA_PIECE_LEN) METADATA_PIECE_LEN) [0..<?n]"
    by auto
  then have "length (concat (map the (am_pieces a))) =
      sum_list (map (\<lambda>i. min (am_total_size a - i * METADATA_PIECE_LEN) METADATA_PIECE_LEN) [0..<?n])"
    by (simp only: length_concat)
  also have "\<dots> = am_total_size a"
    by (simp add: sum_list_distinct_conv_sum_set atLeast0LessThan sum_chunks_ceil)
  finally show "length (concat (map the (am_pieces a))) = am_total_size a" .
qed

text \<open>The pieces an honest peer serves of a blob.\<close>

definition blob_piece :: "bytes \<Rightarrow> nat \<Rightarrow> bytes" where
  "blob_piece blob i = take METADATA_PIECE_LEN (drop (i * METADATA_PIECE_LEN) blob)"

lemma blob_pieces: "concat (map (blob_piece blob) [0..<n]) = take (n * METADATA_PIECE_LEN) blob"
proof (induction n)
  case (Suc n)
  then show ?case by (simp add: blob_piece_def take_add [symmetric] add.commute)
qed simp

fun feed :: "assembler \<Rightarrow> (nat \<times> bytes) list \<Rightarrow> metadata_error + assembler" where
  "feed a [] = Inr a"
| "feed a ((i, d) # ds) = (case add_piece a i d of Inl e \<Rightarrow> Inl e | Inr a' \<Rightarrow> feed a' ds)"

definition holds_blob :: "bytes \<Rightarrow> nat set \<Rightarrow> assembler \<Rightarrow> bool" where
  "holds_blob blob S a \<longleftrightarrow>
     am_inv a \<and> am_total_size a = length blob \<and>
     (\<forall>i < length (am_pieces a). am_pieces a ! i = (if i \<in> S then Some (blob_piece blob i) else None))"

lemma feed_blob:
  assumes "holds_blob blob S a" "\<forall>i \<in> set is. i < length (am_pieces a)"
  shows "\<exists>a'. feed a (map (\<lambda>i. (i, blob_piece blob i)) is) = Inr a' \<and> holds_blob blob (S \<union> set is) a'"
  using assms
proof (induction "is" arbitrary: a S)
  case (Cons i "is")
  have h: "am_inv a" "am_total_size a = length blob"
      "\<And>j. j < length (am_pieces a) \<Longrightarrow> am_pieces a ! j = (if j \<in> S then Some (blob_piece blob j) else None)"
    using Cons.prems(1) by (simp_all add: holds_blob_def)
  have i: "i < length (am_pieces a)" using Cons.prems(2) by simp
  then have "am_piece_len a i = min (length blob - i * METADATA_PIECE_LEN) METADATA_PIECE_LEN"
    using am_piece_len_eq [of a i] h(1,2) by (simp add: am_inv_def)
  then have len_i: "length (blob_piece blob i) = am_piece_len a i" by (simp add: blob_piece_def)
  define a' where "a' = (if am_pieces a ! i = None
    then a\<lparr>am_pieces := (am_pieces a)[i := Some (blob_piece blob i)], am_have := am_have a + 1\<rparr> else a)"
  have step: "add_piece a i (blob_piece blob i) = Inr a'" using i len_i by (simp add: add_piece_def a'_def)
  have len: "length (am_pieces a') = length (am_pieces a)" by (simp add: a'_def)
  have "am_inv a'" using add_piece_inv [OF h(1) step] .
  moreover have "am_pieces a' ! j = (if j \<in> insert i S then Some (blob_piece blob j) else None)"
    if "j < length (am_pieces a)" for j
    using h(3) [OF that] h(3) [OF i] that by (cases "i = j"; cases "i \<in> S") (auto simp: a'_def)
  moreover have "am_total_size a' = length blob" using h(2) by (simp add: a'_def)
  ultimately have "holds_blob blob (insert i S) a'" by (simp add: holds_blob_def len)
  moreover have "\<forall>i \<in> set is. i < length (am_pieces a')" using Cons.prems(2) len by simp
  ultimately obtain a'' where "feed a' (map (\<lambda>i. (i, blob_piece blob i)) is) = Inr a''"
      "holds_blob blob (insert i S \<union> set is) a''"
    using Cons.IH by blast
  then show ?case using step by simp
qed simp

subsection \<open>Rate\<close>

text \<open>Requests granted within the half-open span of one window from \<open>lo\<close>.\<close>

definition granted :: "md_budget \<Rightarrow> nat \<Rightarrow> nat list \<Rightarrow> nat" where
  "granted b lo ts =
     length (filter (\<lambda>(t, a). a \<and> lo \<le> t \<and> t < lo + mb_window b) (zip ts (allow_all b ts)))"

lemma allow_window [simp]:
  "mb_window (fst (allow b t)) = mb_window b" "mb_limit (fst (allow b t)) = mb_limit b"
  by (simp_all add: allow_def Let_def)

lemma granted_Cons:
  "granted b lo (t # ts) =
     (if snd (allow b t) \<and> lo \<le> t \<and> t < lo + mb_window b then 1 else 0) + granted (fst (allow b t)) lo ts"
  by (simp add: granted_def split_beta)

lemma granted_Nil [simp]: "granted b lo [] = 0"
  by (simp add: granted_def)

lemma granted_late: "\<forall>t \<in> set ts. lo + mb_window b \<le> t \<Longrightarrow> granted b lo ts = 0"
  by (induction ts arbitrary: b) (auto simp: granted_Cons)

lemma allow_open:
  assumes "mb_window_start b = Some s" "t < s + mb_window b" "0 < mb_window b"
  shows "allow b t = (if mb_used b \<ge> mb_limit b then (b, False) else (b\<lparr>mb_used := mb_used b + 1\<rparr>, True))"
  using assms by (auto simp: allow_def Let_def)

lemma allow_expired:
  assumes "mb_window_start b = None \<or> (\<exists>s. mb_window_start b = Some s \<and> s + mb_window b \<le> t)"
  shows "allow b t = (if mb_limit b = 0 then (b\<lparr>mb_window_start := Some t, mb_used := 0\<rparr>, False)
    else (b\<lparr>mb_window_start := Some t, mb_used := 1\<rparr>, True))"
  using assms by (auto simp: allow_def Let_def)

text \<open>A window that opened inside the span grants at most what it has left: the next opens after it.\<close>

lemma granted_inside:
  assumes "mb_window_start b = Some s" "lo \<le> s" "sorted ts" "0 < mb_window b"
  shows "granted b lo ts \<le> mb_limit b - mb_used b"
  using assms
proof (induction ts arbitrary: b)
  case (Cons t ts)
  show ?case
  proof (cases "t < s + mb_window b")
    case True
    note a = allow_open [OF Cons.prems(1) True Cons.prems(4)]
    show ?thesis
    proof (cases "mb_used b \<ge> mb_limit b")
      case full: True
      then show ?thesis using Cons.IH [of b] Cons.prems by (simp add: granted_Cons a)
    next
      case False
      then show ?thesis
        using Cons.IH [of "b\<lparr>mb_used := mb_used b + 1\<rparr>"] Cons.prems by (auto simp: granted_Cons a)
    qed
  next
    case False
    then have "\<forall>u \<in> set (t # ts). lo + mb_window b \<le> u" using Cons.prems(2,3) by auto
    then show ?thesis using granted_late by simp
  qed
qed simp

lemma granted_expired:
  assumes "mb_window_start b = None \<or> (\<exists>s. mb_window_start b = Some s \<and> s + mb_window b \<le> t)"
    "lo \<le> t" "sorted (t # ts)" "0 < mb_window b"
  shows "granted b lo (t # ts) \<le> mb_limit b"
proof (cases "mb_limit b = 0")
  case True
  then show ?thesis
    using granted_inside [of "b\<lparr>mb_window_start := Some t, mb_used := 0\<rparr>" t lo ts] assms
    by (simp add: granted_Cons allow_expired [OF assms(1)])
next
  case False
  then show ?thesis
    using granted_inside [of "b\<lparr>mb_window_start := Some t, mb_used := 1\<rparr>" t lo ts] assms
    by (auto simp: granted_Cons allow_expired [OF assms(1)])
qed

lemma granted_across:
  assumes "mb_window_start b = Some s" "sorted ts" "\<forall>t \<in> set ts. lo \<le> t" "0 < mb_window b"
  shows "granted b lo ts \<le> (mb_limit b - mb_used b) + mb_limit b"
  using assms
proof (induction ts arbitrary: b)
  case (Cons t ts)
  show ?case
  proof (cases "t < s + mb_window b")
    case True
    note a = allow_open [OF Cons.prems(1) True Cons.prems(4)]
    show ?thesis
    proof (cases "mb_used b \<ge> mb_limit b")
      case full: True
      then show ?thesis using Cons.IH [of b] Cons.prems by (simp add: granted_Cons a)
    next
      case False
      then show ?thesis
        using Cons.IH [of "b\<lparr>mb_used := mb_used b + 1\<rparr>"] Cons.prems by (auto simp: granted_Cons a)
    qed
  next
    case False
    then show ?thesis using granted_expired [of b t lo ts] Cons.prems by simp
  qed
qed simp

lemma granted_bound:
  assumes "sorted ts" "0 < mb_window b"
  shows "granted b lo ts \<le> 2 * mb_limit b"
  using assms
proof (induction ts arbitrary: b)
  case (Cons t ts)
  show ?case
  proof (cases "lo \<le> t")
    case True
    then have all: "\<forall>u \<in> set (t # ts). lo \<le> u" using Cons.prems(1) by auto
    show ?thesis
    proof (cases "mb_window_start b")
      case None
      then show ?thesis using granted_expired [of b t lo ts] True Cons.prems by simp
    next
      case (Some s)
      then show ?thesis using granted_across [OF Some Cons.prems(1) all Cons.prems(2)] by simp
    qed
  next
    case False
    then show ?thesis using Cons.IH [of "fst (allow b t)"] Cons.prems by (simp add: granted_Cons)
  qed
qed simp

subsection \<open>Properties\<close>

lemma metadata_message_roundtrip_facts:
  "md_ok m \<Longrightarrow> md_parse (md_encode m) = Inr m"
  "md_parse payload = Inr m' \<Longrightarrow> md_ok m'"
proof -
  show "md_ok m \<Longrightarrow> md_parse (md_encode m) = Inr m" by (rule md.dec_enc)
  show "md_parse payload = Inr m' \<Longrightarrow> md_ok m'"
    by (auto simp: md_parse_def Let_def not_less split: sum.splits option.splits if_splits)
      (erule md_u32_bound)+
qed
text \<open>Metadata messages round-trip through their bencoded header and raw tail, and an accepted data
  message never carries more than 16 KiB.\<close>

theorem metadata_message_roundtrip:
  "((md_ok m) \<longrightarrow> (md_parse (md_encode m) = Inr m)) \<and>
    ((md_parse payload = Inr m') \<longrightarrow> (md_ok m'))"
  using metadata_message_roundtrip_facts by blast

theorem metadata_message_roundtrip_witness:
  "md_parse (md_encode (MdData 1 16390 [1, 2, 3, 101])) = Inr (MdData 1 16390 [1, 2, 3, 101])"
  by (rule metadata_message_roundtrip [THEN conjunct1, THEN mp]) (simp add: u32_max_def METADATA_PIECE_LEN_def)

text \<open>The assembler is complete and exact: for any info dictionary of admissible size, feeding its
  pieces in any order, with any repetitions, once each index has occurred, yields exactly the
  original bytes.\<close>

theorem assembler_reassembles:
  assumes "0 < length blob" and "length blob \<le> MAX_METADATA_SIZE"
    and "set is = {..<div_ceil (length blob) METADATA_PIECE_LEN}"
  shows "\<exists>a a'. assembler_new (length blob) = Inr a \<and>
    feed a (map (\<lambda>i. (i, blob_piece blob i)) is) = Inr a' \<and> finish sha1 a' (sha1 blob) = Some blob"
proof -
  let ?n = "div_ceil (length blob) METADATA_PIECE_LEN"
  obtain a where a: "assembler_new (length blob) = Inr a" "am_total_size a = length blob"
      "am_pieces a = replicate ?n None"
    using assms(1,2) by (simp add: assembler_new_def)
  then have "holds_blob blob {} a" using assembler_new_inv [OF a(1)] by (simp add: holds_blob_def)
  moreover have "\<forall>i \<in> set is. i < length (am_pieces a)" using assms(3) a(3) by simp
  ultimately obtain a' where a': "feed a (map (\<lambda>i. (i, blob_piece blob i)) is) = Inr a'"
      "holds_blob blob (set is) a'"
    using feed_blob [of blob "{}" a "is"] by auto
  have inv: "am_inv a'" and "am_total_size a' = length blob" using a'(2) unfolding holds_blob_def by blast+
  then have len: "length (am_pieces a') = ?n" unfolding am_inv_def by metis
  have pieces: "am_pieces a' = map (\<lambda>i. Some (blob_piece blob i)) [0..<?n]"
    using a'(2) len assms(3) by (intro nth_equalityI) (auto simp: holds_blob_def)
  have "am_is_complete a'" using complete_iff [OF inv] by (auto simp: pieces)
  moreover have "gather (am_pieces a') [] = Some blob"
    using complete_bytes(1) [OF inv \<open>am_is_complete a'\<close>] div_ceil_le [of METADATA_PIECE_LEN "length blob"]
    by (simp add: pieces comp_def blob_pieces)
  ultimately have "finish sha1 a' (sha1 blob) = Some blob" by (simp add: finish_def)
  then show ?thesis using a(1) a'(1) by blast
qed

theorem assembler_reassembles_witness:
  "\<exists>a a'. assembler_new (length [7, 8, 9 :: byte]) = Inr a \<and>
    feed a (map (\<lambda>i. (i, blob_piece [7, 8, 9] i)) [0, 0]) = Inr a' \<and>
    finish rev a' (rev [7, 8, 9]) = Some [7, 8, 9]"
  by (rule assembler_reassembles)
    (simp_all add: MAX_METADATA_SIZE_def METADATA_PIECE_LEN_def div_ceil_def lessThan_Suc)

lemma assembler_integrity_facts:
  assumes "assembler_new n = Inr a" and "feed a ds = Inr a'" and "finish sha1 a' expected = Some bs"
  shows "sha1 bs = expected" and "length bs = n" and "am_missing a' = []"
proof -
  have keep: "feed x ds = Inr y \<Longrightarrow> am_inv x \<Longrightarrow> am_inv y \<and> am_total_size y = am_total_size x" for x y
  proof (induction x ds rule: feed.induct)
    case (2 x i d ds)
    obtain z where z: "add_piece x i d = Inr z" "feed z ds = Inr y"
      using "2.prems"(1) by (auto split: sum.splits)
    moreover have "am_total_size z = am_total_size x" using z(1) by (auto simp: add_piece_def split: if_splits)
    moreover have "am_inv z" using add_piece_inv "2.prems"(2) z(1) by blast
    ultimately show ?case using "2.IH" [OF z(1)] by simp
  qed simp
  have inv: "am_inv a'" and size: "am_total_size a' = n"
    using keep [OF assms(2) assembler_new_inv [OF assms(1)]] assms(1)
    by (auto simp: assembler_new_def split: if_splits)
  have c: "am_is_complete a'" using assms(3) by (simp add: finish_def split: if_splits)
  note b = complete_bytes [OF inv c]
  have bs: "bs = concat (map the (am_pieces a'))" "sha1 bs = expected"
    using assms(3) c b(1) by (auto simp: finish_def split: if_splits)
  then show "sha1 bs = expected" "length bs = n" using b(2) size by simp_all
  show "am_missing a' = []"
    using complete_iff [OF inv] c by (auto simp: am_missing_def filter_empty_conv dest: nth_mem)
qed
text \<open>C35. Integrity: whatever pieces peers supply, \<^verbatim>\<open>finish\<close> releases bytes only when every piece has
  arrived, and then they have exactly the advertised size and hash to the expected info-hash.\<close>

theorem assembler_integrity:
  assumes "assembler_new n = Inr a" and "feed a ds = Inr a'" and "finish sha1 a' expected = Some bs"
  shows "(sha1 bs = expected) \<and>
    (length bs = n) \<and>
    (am_missing a' = [])"
  using assembler_integrity_facts [OF assms] by blast

theorem assembler_integrity_witness:
  "\<exists>a a'. assembler_new 2 = Inr a \<and> feed a [(0, [5, 6])] = Inr a' \<and>
    finish (\<lambda>b. b) a' [5, 6] = Some [5, 6] \<and> length [5, 6 :: byte] = 2"
proof -
  let ?a = "\<lparr>am_total_size = 2, am_pieces = [None], am_have = 0\<rparr>"
  let ?b = "\<lparr>am_total_size = 2, am_pieces = [Some [5, 6]], am_have = 1\<rparr>"
  have "assembler_new 2 = Inr ?a" "feed ?a [(0, [5, 6])] = Inr ?b" "finish (\<lambda>b. b) ?b [5, 6] = Some [5, 6]"
    by code_simp+
  then show ?thesis using assembler_integrity [of 2 ?a "[(0, [5, 6])]" ?b "\<lambda>b. b" "[5, 6]" "[5, 6]"] by blast
qed

text \<open>The request budget's documented bound: for requests arriving in time order, whatever their number
  and spacing, at most \<open>2 * limit\<close> are granted in any span of one window.\<close>

theorem metadata_budget_rate:
  assumes "sorted ts" and "0 < window"
  shows "length (filter (\<lambda>(t, ok). ok \<and> lo \<le> t \<and> t < lo + window)
      (zip ts (allow_all (md_budget_new limit window) ts))) \<le> 2 * limit"
  using granted_bound [of ts "md_budget_new limit window" lo] assms
  by (simp add: granted_def md_budget_new_def)

theorem metadata_budget_rate_witness:
  "length (filter (\<lambda>(t :: nat, ok). ok \<and> 3 \<le> t \<and> t < 3 + 10)
      (zip [0, 5, 9, 10, 11] (allow_all (md_budget_new 2 10) [0, 5, 9, 10, 11]))) \<le> 2 * (2 :: nat)"
  by (rule metadata_budget_rate) simp_all

end
