(* ===== verification/Resume.thy ===== *)
theory Resume
  imports Bencode Bitfield
begin

text \<open>
  Resume files (\<^verbatim>\<open>crates/clove-core/src/resume.rs\<close>): the versioned bencode record a torrent is
  picked up from after a restart, its writer, and the validating reader.
\<close>

subsection \<open>Model\<close>

definition VERSION :: int where "VERSION = 6"

record resume =
  rs_info_hash :: bytes
  rs_num_pieces :: nat
  rs_have :: bytes
  rs_verified :: bytes
  rs_priorities :: bytes
  rs_uploaded :: nat
  rs_downloaded :: nat
  rs_paused :: bool
  rs_sequential :: bool
  rs_added :: nat
  rs_pause_reason :: int
  rs_seed_ratio_milli :: nat

datatype resume_error = ResBencode berror | FutureVersion int | Invalid string

definition bitfield_len :: "nat \<Rightarrow> nat" where
  "bitfield_len num_pieces = div_ceil num_pieces 8"

definition KEYS :: "bytes list" where
  "KEYS = map ascii [''version'', ''info_hash'', ''num_pieces'', ''have'', ''verified'', ''priorities'',
     ''uploaded'', ''downloaded'', ''trackers'', ''paused'', ''sequential'', ''added'', ''pause_reason'',
     ''seed_ratio_milli'']"

record resume_optional =
  ro_paused :: bool
  ro_sequential :: bool
  ro_added :: nat
  ro_pause_reason :: int
  ro_seed_ratio_milli :: nat

definition get_int :: "bvalue \<Rightarrow> string \<Rightarrow> int option" where
  "get_int root key = Option.bind (bget root (ascii key)) as_int"

definition get_bytes :: "bvalue \<Rightarrow> string \<Rightarrow> bytes option" where
  "get_bytes root key = Option.bind (bget root (ascii key)) as_bytes"

definition unwrap_or :: "'a \<Rightarrow> 'a option \<Rightarrow> 'a" where
  "unwrap_or d x = (case x of None \<Rightarrow> d | Some v \<Rightarrow> v)"

definition optional_fields :: "bvalue \<Rightarrow> resume_optional" where
  "optional_fields root =
     \<lparr>ro_paused = (case get_int root ''paused'' of Some n \<Rightarrow> n \<noteq> 0 | None \<Rightarrow> False),
      ro_sequential = (case get_int root ''sequential'' of Some n \<Rightarrow> n \<noteq> 0 | None \<Rightarrow> False),
      ro_added = unwrap_or 0 (Option.bind (get_int root ''added'') u64_of_i64),
      ro_pause_reason = unwrap_or 0 (get_int root ''pause_reason''),
      ro_seed_ratio_milli = unwrap_or 0 (Option.bind (get_int root ''seed_ratio_milli'') u64_of_i64)\<rparr>"

definition resume_map :: "resume \<Rightarrow> (bytes, bvalue) btree" where
  "resume_map r =
     (let put = (\<lambda>key v m. bt_insert (ascii key) v m) in
      put ''seed_ratio_milli'' (BInt (i64_of_u64_sat (rs_seed_ratio_milli r)))
      (put ''pause_reason'' (BInt (rs_pause_reason r))
      (put ''added'' (BInt (i64_of_u64_sat (rs_added r)))
      (put ''sequential'' (BInt (of_bool (rs_sequential r)))
      (put ''paused'' (BInt (of_bool (rs_paused r)))
      (put ''downloaded'' (BInt (i64_of_u64_sat (rs_downloaded r)))
      (put ''uploaded'' (BInt (i64_of_u64_sat (rs_uploaded r)))
      (put ''priorities'' (BBytes (rs_priorities r))
      (put ''verified'' (BBytes (rs_verified r))
      (put ''have'' (BBytes (rs_have r))
      (put ''num_pieces'' (BInt (int (rs_num_pieces r)))
      (put ''info_hash'' (BBytes (rs_info_hash r))
      (put ''version'' (BInt VERSION) [])))))))))))))"

definition resume_encode :: "resume \<Rightarrow> bytes" where
  "resume_encode r = encode (BDict (resume_map r))"

definition read_bitfield :: "bvalue \<Rightarrow> string \<Rightarrow> nat \<Rightarrow> resume_error + bytes" where
  "read_bitfield root key num_pieces =
     bindE (ok_or (Invalid ''missing bitfield'') (get_bytes root key)) (\<lambda>bs.
       if length bs \<noteq> bitfield_len num_pieces then Inl (Invalid ''bitfield length disagrees with num_pieces'')
       else let used = num_pieces mod 8 in
         if used \<noteq> 0 \<and> bs \<noteq> [] \<and> and (last bs) (drop_bit used 0xFF) \<noteq> 0
         then Inl (Invalid ''bitfield has bits set past num_pieces'')
         else Inr bs)"

definition counter :: "bvalue \<Rightarrow> string \<Rightarrow> resume_error + nat" where
  "counter root key = ok_or (Invalid ''bad byte counter'') (Option.bind (get_int root key) u64_of_i64)"

definition resume_decode :: "bytes \<Rightarrow> resume_error + resume" where
  "resume_decode input =
     bindE (map_sum ResBencode (\<lambda>v. v) (decode input)) (\<lambda>root.
     bindE (ok_or (Invalid ''top level is not a dictionary'') (as_dict root)) (\<lambda>dict.
     bindE (ok_or (Invalid ''missing version'') (get_int root ''version'')) (\<lambda>version.
     if version > VERSION then Inl (FutureVersion version)
     else if version < 1 then Inl (Invalid ''nonsense version'')
     else if list_ex (\<lambda>key. key \<notin> set KEYS) (map fst dict)
     then Inl (Invalid ''unknown key: version discipline violated'')
     else
     bindE (ok_or (Invalid ''missing info_hash'') (get_bytes root ''info_hash'')) (\<lambda>info_hash.
     if length info_hash \<noteq> 20 then Inl (Invalid ''info_hash is not 20 bytes'') else
     bindE (ok_or (Invalid ''bad num_pieces'')
       (case Option.bind (get_int root ''num_pieces'') u32_of_i64 of
          Some n \<Rightarrow> if n \<ge> 1 then Some n else None
        | None \<Rightarrow> None)) (\<lambda>num_pieces.
     bindE (read_bitfield root ''have'' num_pieces) (\<lambda>hv.
     bindE (read_bitfield root ''verified'' num_pieces) (\<lambda>verified.
     if list_ex (\<lambda>(v, h). and v (not h) \<noteq> 0) (zip verified hv)
     then Inl (Invalid ''verified claims a piece have does not'')
     else
     bindE (ok_or (Invalid ''missing priorities'') (get_bytes root ''priorities'')) (\<lambda>priorities.
     if list_ex (\<lambda>p. p > 2) priorities then Inl (Invalid ''priority out of range'') else
     bindE (counter root ''uploaded'') (\<lambda>uploaded.
     bindE (counter root ''downloaded'') (\<lambda>downloaded.
     let opt = optional_fields root in
     Inr \<lparr>rs_info_hash = info_hash, rs_num_pieces = num_pieces, rs_have = hv, rs_verified = verified,
          rs_priorities = priorities, rs_uploaded = uploaded, rs_downloaded = downloaded,
          rs_paused = ro_paused opt, rs_sequential = ro_sequential opt, rs_added = ro_added opt,
          rs_pause_reason = ro_pause_reason opt, rs_seed_ratio_milli = ro_seed_ratio_milli opt\<rparr>))))))))))"

subsection \<open>Lemmas\<close>

abbreviation have_field :: "resume \<Rightarrow> bitfield" where
  "have_field r \<equiv> \<lparr>bf_bits = rs_have r, bf_len = rs_num_pieces r\<rparr>"

abbreviation verified_field :: "resume \<Rightarrow> bitfield" where
  "verified_field r \<equiv> \<lparr>bf_bits = rs_verified r, bf_len = rs_num_pieces r\<rparr>"

text \<open>The states clove can be in: what the reader enforces.\<close>

definition resume_valid :: "resume \<Rightarrow> bool" where
  "resume_valid r \<longleftrightarrow>
     length (rs_info_hash r) = 20 \<and> 1 \<le> rs_num_pieces r \<and> rs_num_pieces r \<le> u32_max \<and>
     bf_wf (have_field r) \<and> bf_wf (verified_field r) \<and>
     (\<forall>i. bf_has (verified_field r) i \<longrightarrow> bf_has (have_field r) i) \<and>
     (\<forall>p \<in> set (rs_priorities r). p \<le> 2)"

text \<open>Moreover, counters that fit the signed integers of bencode and a file that fits memory.\<close>

definition resume_ok :: "resume \<Rightarrow> bool" where
  "resume_ok r \<longleftrightarrow>
     resume_valid r \<and> int (rs_uploaded r) \<le> i64_max \<and> int (rs_downloaded r) \<le> i64_max \<and>
     int (rs_added r) \<le> i64_max \<and> int (rs_seed_ratio_milli r) \<le> i64_max \<and> in_i64 (rs_pause_reason r) \<and>
     length (resume_encode r) \<le> usize_max"

lemma fits_insert: "fits (Suc k) (BDict m) \<Longrightarrow> fits k v \<Longrightarrow> fits (Suc k) (BDict (bt_insert key v m))"
  by (auto simp: set_bt_insert)

lemma resume_map_fits:
  assumes "rs_num_pieces r \<le> u32_max" "in_i64 (rs_pause_reason r)"
  shows "fits MAX_DEPTH (BDict (resume_map r))"
proof -
  have "in_i64 (int (rs_num_pieces r))" "in_i64 (of_bool b)" "in_i64 VERSION" for b
    using assms(1) by (auto simp: in_i64_def i64_min_def i64_max_def u32_max_def VERSION_def)
  then have "fits (Suc (Suc 30)) (BDict (resume_map r))"
    unfolding resume_map_def Let_def using assms(2) by (intro fits_insert) (simp_all add: i64_sat_in)
  then show ?thesis by (simp add: MAX_DEPTH_def numeral_eq_Suc)
qed

lemma resume_map_get:
  "get_int (BDict (resume_map r)) ''version'' = Some VERSION"
  "get_bytes (BDict (resume_map r)) ''info_hash'' = Some (rs_info_hash r)"
  "get_int (BDict (resume_map r)) ''num_pieces'' = Some (int (rs_num_pieces r))"
  "get_bytes (BDict (resume_map r)) ''have'' = Some (rs_have r)"
  "get_bytes (BDict (resume_map r)) ''verified'' = Some (rs_verified r)"
  "get_bytes (BDict (resume_map r)) ''priorities'' = Some (rs_priorities r)"
  "get_int (BDict (resume_map r)) ''uploaded'' = Some (i64_of_u64_sat (rs_uploaded r))"
  "get_int (BDict (resume_map r)) ''downloaded'' = Some (i64_of_u64_sat (rs_downloaded r))"
  "get_int (BDict (resume_map r)) ''paused'' = Some (of_bool (rs_paused r))"
  "get_int (BDict (resume_map r)) ''sequential'' = Some (of_bool (rs_sequential r))"
  "get_int (BDict (resume_map r)) ''added'' = Some (i64_of_u64_sat (rs_added r))"
  "get_int (BDict (resume_map r)) ''pause_reason'' = Some (rs_pause_reason r)"
  "get_int (BDict (resume_map r)) ''seed_ratio_milli'' = Some (i64_of_u64_sat (rs_seed_ratio_milli r))"
  by (simp_all add: get_int_def get_bytes_def bget_def resume_map_def Let_def)

lemma resume_map_keys: "\<not> list_ex (\<lambda>key. key \<notin> set KEYS) (map fst (resume_map r))"
proof -
  have "fst ` set (resume_map r) \<subseteq> set KEYS"
    unfolding resume_map_def Let_def bt_keys_insert by (simp add: KEYS_def)
  then show ?thesis by (auto simp: list_ex_iff)
qed

lemma u64_of_sat: "int n \<le> i64_max \<Longrightarrow> u64_of_i64 (i64_of_u64_sat n) = Some n"
  by (simp add: i64_of_u64_sat_def u64_of_i64_def i64_max_def u64_max_def)

lemma read_bitfield_Inr:
  "read_bitfield root key n = Inr bs \<longleftrightarrow>
     get_bytes root key = Some bs \<and> bf_wf \<lparr>bf_bits = bs, bf_len = n\<rparr>"
proof -
  have "bf_from_bytes bs n = Inr \<lparr>bf_bits = bs, bf_len = n\<rparr> \<longleftrightarrow> bf_wf \<lparr>bf_bits = bs, bf_len = n\<rparr>"
    by (simp add: from_bytes_iff)
  then show ?thesis
    by (cases "get_bytes root key")
      (auto simp: read_bitfield_def bf_from_bytes_def bitfield_len_def byte_len_def Let_def split: if_splits)
qed

lemma and_not_zero: "and v (not h) = 0 \<longleftrightarrow> (\<forall>k. bit v k \<longrightarrow> bit h k)" for v h :: byte
proof
  assume "and v (not h) = 0"
  then have "\<not> bit (and v (not h)) k" for k by simp
  then show "\<forall>k. bit v k \<longrightarrow> bit h k" using bit_imp_le_length [of v] by (auto simp: bit_simps)
next
  assume "\<forall>k. bit v k \<longrightarrow> bit h k"
  then show "and v (not h) = 0" by (intro bit_word_eqI) (auto simp: bit_simps)
qed

text \<open>The bytewise test is the subset test on pieces.\<close>

lemma verified_subset:
  assumes "bf_wf \<lparr>bf_bits = v, bf_len = n\<rparr>" "bf_wf \<lparr>bf_bits = h, bf_len = n\<rparr>"
  shows "\<not> list_ex (\<lambda>(v, h). and v (not h) \<noteq> 0) (zip v h) \<longleftrightarrow>
    (\<forall>i. bf_has \<lparr>bf_bits = v, bf_len = n\<rparr> i \<longrightarrow> bf_has \<lparr>bf_bits = h, bf_len = n\<rparr> i)" (is "?L \<longleftrightarrow> ?R")
proof -
  have len: "length v = length h" "length v = byte_len n" using assms by (simp_all add: bf_wf_def)
  have L: "?L \<longleftrightarrow> (\<forall>j < length v. \<forall>k. bit (v ! j) k \<longrightarrow> bit (h ! j) k)"
    using len by (auto simp: list_ex_iff set_zip and_not_zero)
  show ?thesis
  proof
    assume ?L
    then show ?R using L wf_index [OF assms(1)] by (auto simp: has_flag flag_def)
  next
    assume R: ?R
    have "bit (h ! j) k" if "j < length v" "bit (v ! j) k" for j k
    proof -
      have "k < 8" using bit_imp_le_length [OF that(2)] by simp
      then have "(8 * j + (7 - k)) div 8 = j" "(8 * j + (7 - k)) mod 8 = 7 - k" "7 - (7 - k) = k"
        by (simp_all only: div_mult_self4 mod_mult_self4) simp_all
      then have i: "(8 * j + (7 - k)) div 8 = j" "7 - (8 * j + (7 - k)) mod 8 = k" by (simp_all only:)
      have "flag v (8 * j + (7 - k))" unfolding flag_def i by (rule that(2))
      moreover have "8 * j + (7 - k) < 8 * length v" using that(1) by simp
      moreover have "\<forall>i < 8 * length v. n \<le> i \<longrightarrow> \<not> flag v i" using assms(1) by (simp add: bf_wf_def)
      ultimately have "\<not> n \<le> 8 * j + (7 - k)" by blast
      then have "8 * j + (7 - k) < n" by (simp only: not_le)
      then have "flag h (8 * j + (7 - k))" using R \<open>flag v _\<close> by (simp add: has_flag)
      then show ?thesis unfolding flag_def i .
    qed
    then show ?L using L by blast
  qed
qed

lemma piece_count_ok:
  "(case Option.bind x u32_of_i64 of Some n \<Rightarrow> if n \<ge> 1 then Some n else None | None \<Rightarrow> None) = Some k \<Longrightarrow>
   1 \<le> k \<and> k \<le> u32_max"
  by (auto simp: u32_of_i64_def nat_le_iff split: option.splits Option.bind_splits if_splits)

lemma bad_priority: "list_ex (\<lambda>p. p > 2) ps \<longleftrightarrow> \<not> (\<forall>p \<in> set ps. p \<le> 2)" for ps :: bytes
  by (auto simp: list_ex_iff not_le)

interpretation res: codec resume_encode resume_decode resume_ok
proof
  fix r assume ok: "resume_ok r"
  note v = ok [unfolded resume_ok_def, THEN conjunct1, unfolded resume_valid_def]
  let ?root = "BDict (resume_map r)"
  have "fits MAX_DEPTH ?root" using ok v by (intro resume_map_fits) (simp_all add: resume_ok_def)
  then have dec: "decode (resume_encode r) = Inr ?root"
    using ok unfolding resume_encode_def by (intro ben.dec_enc) (simp add: resume_ok_def resume_encode_def)
  have bits: "read_bitfield ?root ''have'' (rs_num_pieces r) = Inr (rs_have r)"
      "read_bitfield ?root ''verified'' (rs_num_pieces r) = Inr (rs_verified r)"
    using v by (simp_all add: read_bitfield_Inr resume_map_get)
  have sub: "\<not> list_ex (\<lambda>(v, h). and v (not h) \<noteq> 0) (zip (rs_verified r) (rs_have r))"
    using v verified_subset [of "rs_verified r" "rs_num_pieces r" "rs_have r"] by blast
  have pri: "\<not> list_ex (\<lambda>p. p > 2) (rs_priorities r)" using v bad_priority by blast
  have cnt: "counter ?root ''uploaded'' = Inr (rs_uploaded r)" "counter ?root ''downloaded'' = Inr (rs_downloaded r)"
    using ok by (simp_all add: counter_def resume_map_get u64_of_sat resume_ok_def)
  have opt: "optional_fields ?root = \<lparr>ro_paused = rs_paused r, ro_sequential = rs_sequential r,
      ro_added = rs_added r, ro_pause_reason = rs_pause_reason r, ro_seed_ratio_milli = rs_seed_ratio_milli r\<rparr>"
    using ok by (simp add: optional_fields_def resume_map_get u64_of_sat resume_ok_def unwrap_or_def)
  have n: "u32_of_i64 (int (rs_num_pieces r)) = Some (rs_num_pieces r)" using v by (simp add: u32_of_i64_def)
  show "resume_decode (resume_encode r) = Inr r"
    unfolding resume_decode_def dec
    using v resume_map_keys [of r] by (simp add: resume_map_get bits sub pri cnt opt n VERSION_def Let_def)
qed

text \<open>A concrete state.\<close>

definition sample :: resume where
  "sample = \<lparr>rs_info_hash = replicate 20 3, rs_num_pieces = 3, rs_have = [0xC0],
      rs_verified = [0x80], rs_priorities = [1, 2], rs_uploaded = 10, rs_downloaded = 20, rs_paused = True,
      rs_sequential = False, rs_added = 1700000000000, rs_pause_reason = 1, rs_seed_ratio_milli = 1500\<rparr>"

lemma sample_ok: "resume_ok sample"
proof -
  have "bf_from_bytes (rs_have sample) 3 = Inr \<lparr>bf_bits = rs_have sample, bf_len = 3\<rparr>"
      "bf_from_bytes (rs_verified sample) 3 = Inr \<lparr>bf_bits = rs_verified sample, bf_len = 3\<rparr>"
    by code_simp+
  then have wf: "bf_wf \<lparr>bf_bits = rs_have sample, bf_len = 3\<rparr>" "bf_wf \<lparr>bf_bits = rs_verified sample, bf_len = 3\<rparr>"
    unfolding from_bytes_iff by simp_all
  have "\<not> list_ex (\<lambda>(v, h). and v (not h) \<noteq> 0) (zip (rs_verified sample) (rs_have sample))" by code_simp
  then have "resume_valid sample"
    using wf verified_subset [OF wf(2,1)] by (simp add: resume_valid_def u32_max_def) (simp add: sample_def)
  moreover have "length (resume_encode sample) \<le> usize_max" by code_simp
  ultimately show ?thesis by (simp add: resume_ok_def) (simp add: sample_def i64_max_def i64_min_def in_i64_def)
qed

subsection \<open>Properties\<close>

text \<open>C40. A torrent's state survives a restart: decoding what was written gives the same state back.\<close>

theorem resume_roundtrip:
  assumes "resume_ok r"
  shows "resume_decode (resume_encode r) = Inr r"
  using assms by (rule res.dec_enc)

theorem resume_roundtrip_witness: "resume_decode (resume_encode sample) = Inr sample"
  by (rule resume_roundtrip) (rule sample_ok)

text \<open>Trust: whatever bytes are on disk, an accepted resume file has well-formed bitfields for its piece
  count, claims no piece verified that it does not hold, and has priorities between 0 and 2.\<close>

theorem resume_decode_valid:
  assumes "resume_decode input = Inr r"
  shows "resume_valid r"
proof -
  from assms obtain root where r:
      "length (rs_info_hash r) = 20" "1 \<le> rs_num_pieces r" "rs_num_pieces r \<le> u32_max"
      "read_bitfield root ''have'' (rs_num_pieces r) = Inr (rs_have r)"
      "read_bitfield root ''verified'' (rs_num_pieces r) = Inr (rs_verified r)"
      "\<not> list_ex (\<lambda>(v, h). and v (not h) \<noteq> 0) (zip (rs_verified r) (rs_have r))"
      "\<not> list_ex (\<lambda>p. p > 2) (rs_priorities r)"
    by (auto simp: resume_decode_def bindE_Inr Let_def dest!: piece_count_ok split: if_splits)
  have wf: "bf_wf (have_field r)" "bf_wf (verified_field r)" using r(4,5) by (simp_all add: read_bitfield_Inr)
  then show ?thesis
    using r verified_subset [OF wf(2,1)] by (simp add: resume_valid_def bad_priority)
qed

theorem resume_decode_valid_witness: "resume_valid sample"
  by (rule resume_decode_valid [of "resume_encode sample"]) (rule res.dec_enc [OF sample_ok])

lemma resume_version_discipline_facts:
  assumes "decode input = Inr (BDict m)" and "get_int (BDict m) ''version'' = Some v"
  shows "v > VERSION \<Longrightarrow> resume_decode input = Inl (FutureVersion v)"
    and "\<not> fst ` set m \<subseteq> set KEYS \<Longrightarrow> resume_decode input \<noteq> Inr r"
  using assms by (auto simp: resume_decode_def list_ex_iff)
text \<open>Version discipline: a file written by a newer clove is refused as such before any other field is
  looked at, and a file with a key this version does not know is never accepted.\<close>

theorem resume_version_discipline:
  assumes "decode input = Inr (BDict m)" and "get_int (BDict m) ''version'' = Some v"
  shows "((v > VERSION) \<longrightarrow> (resume_decode input = Inl (FutureVersion v))) \<and>
    ((\<not> fst ` set m \<subseteq> set KEYS) \<longrightarrow> (resume_decode input \<noteq> Inr r))"
  using resume_version_discipline_facts [OF assms] by blast

theorem resume_version_discipline_witness:
  "resume_decode (ascii ''d7:versioni7ee'') = Inl (FutureVersion 7)"
proof -
  have d: "decode (ascii ''d7:versioni7ee'') = Inr (BDict [(ascii ''version'', BInt 7)])" by code_simp
  show ?thesis
    by (rule resume_version_discipline [OF d, THEN conjunct1, THEN mp]) (simp_all add: get_int_def bget_def VERSION_def)
qed

end
