(* ===== verification/Metainfo.thy ===== *)
theory Metainfo
  imports Bencode Wire "HOL-Library.Sublist"
begin

text \<open>
  Torrent files (\<^verbatim>\<open>crates/clove-core/src/metainfo.rs\<close>): announce URLs, path validation, the file
  list, per-piece priorities, and the parser that assembles them. SHA-1 and Unicode lower-casing
  are parameters. A string is its UTF-8 bytes.
\<close>

subsection \<open>Data\<close>

definition MIN_PIECE_LENGTH :: nat where "MIN_PIECE_LENGTH = 16 * 1024"
definition MAX_PIECE_LENGTH :: nat where "MAX_PIECE_LENGTH = 128 * 1024 * 1024"
definition MAX_FILES :: nat where "MAX_FILES = 100000"
definition MAX_COMPONENT_BYTES :: nat where "MAX_COMPONENT_BYTES = 255"
definition MAX_PATH_BYTES :: nat where "MAX_PATH_BYTES = 4096"
definition MAX_TRACKERS :: nat where "MAX_TRACKERS = 16"
definition MAX_PIECES :: nat where "MAX_PIECES = (MAX_MESSAGE_LEN - 1) * 8"

record file_entry =
  fe_path :: "bytes list"
  fe_length :: nat

record metainfo =
  mi_info_hash :: bytes
  mi_name :: bytes
  mi_piece_length :: nat
  mi_pieces :: "bytes list"
  mi_files :: "file_entry list"
  mi_total_length :: nat
  mi_private :: bool
  mi_trackers :: "bytes list list"
  mi_skipped_trackers :: nat
  mi_raw_info :: bytes

datatype metainfo_error = MiBencode berror | MiInvalid string

subsection \<open>Announce URLs\<close>

record tracker_url =
  tu_host :: bytes
  tu_authority :: bytes
  tu_path_and_query :: bytes

fun valid_percent_escapes :: "bytes \<Rightarrow> bool" where
  "valid_percent_escapes [] = True"
| "valid_percent_escapes (c # cs) =
     (if c = 37 then
        (case cs of
           a # b # cs' \<Rightarrow> is_hexdigit a \<and> is_hexdigit b \<and> valid_percent_escapes cs'
         | _ \<Rightarrow> False)
      else valid_percent_escapes cs)"

definition url_host :: "bytes \<Rightarrow> bytes option" where
  "url_host authority =
     (case rsplit_once 58 authority of
        Some (host, port) \<Rightarrow>
          if port = [] \<or> \<not> list_all is_digit port then None
          else if digits_val 0 port \<le> 65535 \<and> digits_val 0 port > 0 then Some host else None
      | None \<Rightarrow> Some authority)"

definition split_authority :: "bytes \<Rightarrow> bytes \<times> bytes" where
  "split_authority rest =
     (case cut_at 47 rest of
        Some (a, p) \<Rightarrow> (a, p)
      | None \<Rightarrow> (case cut_at 63 rest of Some (a, q) \<Rightarrow> (a, 47 # q) | None \<Rightarrow> (rest, [47])))"

definition tracker_url_parse :: "bytes \<Rightarrow> tracker_url option" where
  "tracker_url_parse url =
     Option.bind (strip_prefix (ascii ''http://'') url) (\<lambda>rest.
     if list_ex (\<lambda>b. b \<le> 0x20 \<or> b = 0x7F) rest then None
     else if 35 \<in> set rest then None
     else
       let (authority, path_and_query) = split_authority rest in
       if 64 \<in> set authority then None
       else if \<not> valid_percent_escapes path_and_query then None
       else Option.bind (url_host authority) (\<lambda>h.
         let host = map ascii_lower h; labels = rev (split_on 46 host) in
         if hd labels \<noteq> ascii ''i2p'' then None
         else if tl labels = [] \<or> hd (tl labels) = [] then None
         else if list_ex (\<lambda>l. l = []) (split_on 46 host) then None
         else Some \<lparr>tu_host = host, tu_authority = authority, tu_path_and_query = path_and_query\<rparr>))"

definition is_i2p_tracker :: "bytes \<Rightarrow> bool" where
  "is_i2p_tracker url \<longleftrightarrow> tracker_url_parse url \<noteq> None"

subsection \<open>Files\<close>

definition check_component :: "bytes \<Rightarrow> metainfo_error + unit" where
  "check_component s =
     (if s = [] \<or> s = ascii ''.'' \<or> s = ascii ''..'' \<or> 47 \<in> set s \<or> 92 \<in> set s \<or> 0 \<in> set s
      then Inl (MiInvalid ''unsafe path component'')
      else if length s > MAX_COMPONENT_BYTES
      then Inl (MiInvalid ''path component longer than a filename can be'')
      else Inr ())"

definition as_size :: "bvalue \<Rightarrow> nat option" where
  "as_size v = Option.bind (as_int v) u64_of_i64"

fun check_windows :: "bytes list list \<Rightarrow> metainfo_error + unit" where
  "check_windows (p # q # ps) =
     (if p = q then Inl (MiInvalid ''two files share the same path, up to letter case'')
      else if take (length p) q = p then Inl (MiInvalid ''a file path is also a directory path'')
      else check_windows (q # ps))"
| "check_windows _ = Inr ()"

definition check_distinct_paths :: "(bytes \<Rightarrow> bytes) \<Rightarrow> file_entry list \<Rightarrow> metainfo_error + unit" where
  "check_distinct_paths lower entries = check_windows (sort (map (\<lambda>e. map lower (fe_path e)) entries))"

fun parse_path :: "bvalue list \<Rightarrow> bytes list \<Rightarrow> metainfo_error + bytes list" where
  "parse_path [] path = Inr path"
| "parse_path (part # parts) path =
     bindE (ok_or (MiInvalid ''non-UTF-8 path component'') (as_str part)) (\<lambda>p.
     bindE (check_component p) (\<lambda>_. parse_path parts (path @ [p])))"

fun parse_entries :: "bytes \<Rightarrow> bvalue list \<Rightarrow> file_entry list \<Rightarrow> nat \<Rightarrow> metainfo_error + (file_entry list \<times> nat)" where
  "parse_entries name [] entries total_len = Inr (entries, total_len)"
| "parse_entries name (file # files) entries total_len =
     bindE (ok_or (MiInvalid ''bad file length'') (Option.bind (bget file (ascii ''length'')) as_size)) (\<lambda>len.
     bindE (ok_or (MiInvalid ''bad file path'') (Option.bind (bget file (ascii ''path'')) as_list)) (\<lambda>raw_path.
     if raw_path = [] then Inl (MiInvalid ''bad file path'') else
     bindE (parse_path raw_path [name]) (\<lambda>path.
     if sum_list (map (\<lambda>part. length part + 1) path) > MAX_PATH_BYTES
     then Inl (MiInvalid ''file path longer than a path can be'') else
     bindE (ok_or (MiInvalid ''total length overflows'') (checked_u64 (total_len + len))) (\<lambda>total_len'.
     parse_entries name files (entries @ [\<lparr>fe_path = path, fe_length = len\<rparr>]) total_len'))))"

definition parse_files :: "(bytes \<Rightarrow> bytes) \<Rightarrow> bvalue \<Rightarrow> bytes \<Rightarrow> metainfo_error + (file_entry list \<times> nat)" where
  "parse_files lower info name =
     (case (bget info (ascii ''length''), bget info (ascii ''files'')) of
        (Some _, Some _) \<Rightarrow> Inl (MiInvalid ''both length and files present'')
      | (None, None) \<Rightarrow> Inl (MiInvalid ''neither length nor files present'')
      | (Some len, None) \<Rightarrow>
          bindE (ok_or (MiInvalid ''bad file length'') (as_size len)) (\<lambda>n.
          if n = 0 then Inl (MiInvalid ''single-file torrent of zero bytes'')
          else Inr ([\<lparr>fe_path = [name], fe_length = n\<rparr>], n))
      | (None, Some files) \<Rightarrow>
          bindE (ok_or (MiInvalid ''files is not a list'') (as_list files)) (\<lambda>l.
          if l = [] then Inl (MiInvalid ''files list is empty'')
          else if length l > MAX_FILES then Inl (MiInvalid ''too many files'') else
          bindE (parse_entries name l [] 0) (\<lambda>(entries, total_len).
          if total_len = 0 then Inl (MiInvalid ''torrent of zero total bytes'') else
          bindE (check_distinct_paths lower entries) (\<lambda>_. Inr (entries, total_len)))))"

subsection \<open>Trackers\<close>

fun parse_tier :: "bvalue list \<Rightarrow> bytes list \<Rightarrow> nat \<Rightarrow> nat \<Rightarrow> metainfo_error + (bytes list \<times> nat \<times> nat)" where
  "parse_tier [] kept kept_total skipped = Inr (kept, kept_total, skipped)"
| "parse_tier (u # urls) kept kept_total skipped =
     bindE (ok_or (MiInvalid ''announce URL is not a UTF-8 string'') (as_str u)) (\<lambda>url.
     if is_i2p_tracker url \<and> kept_total < MAX_TRACKERS
     then parse_tier urls (kept @ [url]) (kept_total + 1) skipped
     else parse_tier urls kept kept_total (skipped + 1))"

fun parse_tiers :: "bvalue list \<Rightarrow> bytes list list \<Rightarrow> nat \<Rightarrow> nat \<Rightarrow> metainfo_error + (bytes list list \<times> nat)" where
  "parse_tiers [] tiers kept_total skipped = Inr (tiers, skipped)"
| "parse_tiers (t # ts) tiers kept_total skipped =
     bindE (ok_or (MiInvalid ''announce-list tier is not a list'') (as_list t)) (\<lambda>tier.
     bindE (parse_tier tier [] kept_total skipped) (\<lambda>(kept, kept_total', skipped').
     parse_tiers ts (if kept = [] then tiers else tiers @ [kept]) kept_total' skipped'))"

definition parse_trackers :: "bvalue \<Rightarrow> metainfo_error + (bytes list list \<times> nat)" where
  "parse_trackers root =
     (case bget root (ascii ''announce-list'') of
        Some l \<Rightarrow>
          bindE (ok_or (MiInvalid ''announce-list is not a list'') (as_list l)) (\<lambda>ts. parse_tiers ts [] 0 0)
      | None \<Rightarrow>
          (case bget root (ascii ''announce'') of
             None \<Rightarrow> Inr ([], 0)
           | Some u \<Rightarrow>
               bindE (ok_or (MiInvalid ''announce URL is not a UTF-8 string'') (as_str u)) (\<lambda>url.
               if is_i2p_tracker url then Inr ([[url]], 0) else Inr ([], 1))))"

subsection \<open>The parser\<close>

definition mi_parse :: "(bytes \<Rightarrow> bytes) \<Rightarrow> (bytes \<Rightarrow> bytes) \<Rightarrow> bytes \<Rightarrow> metainfo_error + metainfo" where
  "mi_parse sha1 lower input =
     bindE (map_sum MiBencode (\<lambda>v. v) (decode_with_entry input (ascii ''info''))) (\<lambda>(root, info_range).
     bindE (ok_or (MiInvalid ''missing info dictionary'') (bget root (ascii ''info''))) (\<lambda>info.
     if as_dict info = None then Inl (MiInvalid ''info is not a dictionary'') else
     bindE (ok_or (MiInvalid ''missing info dictionary'') info_range) (\<lambda>range.
     let raw_info = byte_range range input; info_hash = sha1 raw_info in
     bindE (ok_or (MiInvalid ''missing or non-UTF-8 name'') (Option.bind (bget info (ascii ''name'')) as_str)) (\<lambda>name.
     bindE (check_component name) (\<lambda>_.
     bindE (ok_or (MiInvalid ''missing piece length'') (Option.bind (bget info (ascii ''piece length'')) as_int)) (\<lambda>piece_length_raw.
     bindE (ok_or (MiInvalid ''piece length out of accepted range'')
       (case u32_of_i64 piece_length_raw of
          Some n \<Rightarrow> if MIN_PIECE_LENGTH \<le> n \<and> n \<le> MAX_PIECE_LENGTH then Some n else None
        | None \<Rightarrow> None)) (\<lambda>piece_length.
     bindE (ok_or (MiInvalid ''missing pieces'') (Option.bind (bget info (ascii ''pieces'')) as_bytes)) (\<lambda>pieces_raw.
     if pieces_raw = [] \<or> length pieces_raw mod 20 \<noteq> 0 then Inl (MiInvalid ''pieces is not a multiple of 20 bytes'') else
     let pieces = chunks 20 pieces_raw in
     bindE (parse_files lower info name) (\<lambda>(files, total_length).
     let expected_pieces = div_ceil total_length piece_length in
     if expected_pieces > MAX_PIECES then Inl (MiInvalid ''more pieces than a bitfield message can carry'')
     else if expected_pieces \<noteq> length pieces then Inl (MiInvalid ''piece count disagrees with total length'') else
     let private = (Option.bind (bget info (ascii ''private'')) as_int = Some 1) in
     bindE (parse_trackers root) (\<lambda>(trackers, skipped_trackers).
     Inr \<lparr>mi_info_hash = info_hash, mi_name = name, mi_piece_length = piece_length, mi_pieces = pieces,
          mi_files = files, mi_total_length = total_length, mi_private = private, mi_trackers = trackers,
          mi_skipped_trackers = skipped_trackers, mi_raw_info = raw_info\<rparr>))))))))))"

definition from_info_dict :: "(bytes \<Rightarrow> bytes) \<Rightarrow> (bytes \<Rightarrow> bytes) \<Rightarrow> bytes \<Rightarrow> metainfo_error + metainfo" where
  "from_info_dict sha1 lower info_bytes = mi_parse sha1 lower (ascii ''d4:info'' @ info_bytes @ [101])"

subsection \<open>Priorities\<close>

text \<open>The inner loop of \<^verbatim>\<open>piece_priorities\<close>, which stops at the first piece out of range.\<close>

fun raise_pieces :: "nat \<Rightarrow> nat list \<Rightarrow> nat list \<Rightarrow> nat list" where
  "raise_pieces priority [] out = out"
| "raise_pieces priority (p # ps) out =
     (if p < length out then raise_pieces priority ps (out[p := max (out ! p) priority]) else out)"

fun priority_loop :: "nat \<Rightarrow> nat list \<Rightarrow> nat \<Rightarrow> file_entry list \<Rightarrow> nat \<Rightarrow> nat list \<Rightarrow> nat list" where
  "priority_loop plen per_file i [] offset out = out"
| "priority_loop plen per_file i (file # files) offset out =
     (let priority = (if i < length per_file then per_file ! i else 1);
          start = offset; offset' = u64_sat_add offset (fe_length file) in
      if priority = 0 \<or> fe_length file = 0 then priority_loop plen per_file (i + 1) files offset' out
      else priority_loop plen per_file (i + 1) files offset'
             (raise_pieces priority [start div plen..<(offset' - 1) div plen + 1] out))"

definition piece_priorities :: "metainfo \<Rightarrow> nat list \<Rightarrow> nat list" where
  "piece_priorities m per_file =
     (if mi_piece_length m = 0 then replicate (length (mi_pieces m)) 0
      else priority_loop (mi_piece_length m) per_file 0 (mi_files m) 0 (replicate (length (mi_pieces m)) 0))"


subsection \<open>Colliding paths\<close>

lemma prefix_lex_le: "prefix p q \<Longrightarrow> p \<le> (q :: 'a::linorder list)"
proof -
  have "p \<le> p @ s" for s by (induction p) auto
  then show "prefix p q \<Longrightarrow> ?thesis" by (auto simp: prefix_def)
qed

lemma lex_between_prefix:
  "p \<le> q \<Longrightarrow> q \<le> r \<Longrightarrow> prefix p r \<Longrightarrow> prefix p (q :: 'a::linorder list)"
proof (induction p arbitrary: q r)
  case (Cons a p)
  obtain r' where r: "r = a # r'" "prefix p r'" using Cons.prems(3) by (cases r) auto
  obtain b q' where q: "q = b # q'" using Cons.prems(1) by (cases q) auto
  have "b = a" "p \<le> q'" "q' \<le> r'" using Cons.prems r q by auto
  then show ?case using Cons.IH [of q' r'] r q by simp
qed simp

text \<open>No path equals another one or lies below it.\<close>

definition collision_free :: "bytes list list \<Rightarrow> bool" where
  "collision_free ps \<longleftrightarrow> distinct ps \<and> (\<forall>p \<in> set ps. \<forall>q \<in> set ps. prefix p q \<longrightarrow> p = q)"

lemma collision_free_nth:
  "collision_free ps \<longleftrightarrow> (\<forall>i < length ps. \<forall>j < length ps. i \<noteq> j \<longrightarrow> \<not> prefix (ps ! i) (ps ! j))"
  (is "_ \<longleftrightarrow> ?R")
proof
  assume c: "collision_free ps"
  show ?R
  proof (intro allI impI notI)
    fix i j assume ij: "i < length ps" "j < length ps" "i \<noteq> j" "prefix (ps ! i) (ps ! j)"
    then have "ps ! i = ps ! j" using c by (simp add: collision_free_def)
    then show False using c ij by (simp add: collision_free_def nth_eq_iff_index_eq)
  qed
next
  assume r: ?R
  then have "distinct ps" unfolding distinct_conv_nth by (metis prefix_order.refl)
  moreover have "p = q" if "p \<in> set ps" "q \<in> set ps" "prefix p q" for p q
    using r that by (metis in_set_conv_nth)
  ultimately show "collision_free ps" by (auto simp: collision_free_def)
qed

lemma all_less_two: "(\<forall>i < Suc (Suc 0). P i) \<longleftrightarrow> P 0 \<and> P (Suc 0)"
  by (auto simp: less_Suc_eq)

lemma take_prefix: "take (length p) q = p \<longleftrightarrow> prefix p q"
  by (metis append_take_drop_id prefixI prefix_def append_eq_conv_conj)

lemma check_windows_exact: "sorted ps \<Longrightarrow> check_windows ps = Inr () \<longleftrightarrow> collision_free ps"
proof (induction ps rule: check_windows.induct)
  case (1 p q ps)
  have far: "prefix p q" if "r \<in> set (q # ps)" "prefix p r \<or> prefix r p" for r
  proof -
    have le: "p \<le> q" "q \<le> r" using that(1) "1.prems" by auto
    have "prefix p r"
      using that(2) prefix_lex_le [of r p] le by (metis antisym order_trans prefix_order.refl)
    then show ?thesis by (rule lex_between_prefix [OF le])
  qed
  have IH: "check_windows (q # ps) = Inr () \<longleftrightarrow> collision_free (q # ps)" if "\<not> prefix p q"
    using that "1.IH" "1.prems" by (auto simp: take_prefix)
  show ?case
  proof (cases "prefix p q")
    case True
    then show ?thesis by (auto simp: collision_free_def take_prefix)
  next
    case False
    then have "collision_free (p # q # ps) \<longleftrightarrow> collision_free (q # ps)"
      using far by (auto simp: collision_free_def)
    then show ?thesis using False IH by (auto simp: take_prefix)
  qed
qed (auto simp: collision_free_def)

text \<open>The scan of neighbours in the sorted list is exact: a file list is accepted exactly when,
  letter case folded, no two files share a path and no file's path is a directory on another's.\<close>

theorem check_distinct_paths_exact:
  "check_distinct_paths lower entries = Inr () \<longleftrightarrow>
     (let ps = map (\<lambda>e. map lower (fe_path e)) entries in
      \<forall>i < length ps. \<forall>j < length ps. i \<noteq> j \<longrightarrow> \<not> prefix (ps ! i) (ps ! j))"
proof -
  define ps where "ps = map (\<lambda>e. map lower (fe_path e)) entries"
  have "check_distinct_paths lower entries = Inr () \<longleftrightarrow> collision_free (sort ps)"
    by (simp add: check_distinct_paths_def check_windows_exact ps_def)
  also have "\<dots> \<longleftrightarrow> collision_free ps" by (simp add: collision_free_def)
  also have "\<dots> \<longleftrightarrow> (\<forall>i < length ps. \<forall>j < length ps. i \<noteq> j \<longrightarrow> \<not> prefix (ps ! i) (ps ! j))"
    by (rule collision_free_nth)
  finally show ?thesis by (simp add: ps_def Let_def)
qed

theorem check_distinct_paths_exact_witness:
  "check_distinct_paths (\<lambda>b. b) [\<lparr>fe_path = [[97], [98]], fe_length = 1\<rparr>, \<lparr>fe_path = [[97]], fe_length = 1\<rparr>] \<noteq> Inr ()"
  unfolding check_distinct_paths_exact by (simp add: Let_def all_less_two)

subsection \<open>Announce URLs: what is accepted\<close>

lemma not_hexdigit_37 [simp]: "\<not> is_hexdigit 37"
  by (simp add: is_hexdigit_def is_digit_def byte_in_def)

lemma valid_percent_escapes_exact:
  "valid_percent_escapes s \<longleftrightarrow>
     (\<forall>i < length s. s ! i = 37 \<longrightarrow> i + 2 < length s \<and> is_hexdigit (s ! (i + 1)) \<and> is_hexdigit (s ! (i + 2)))"
proof (induction s rule: valid_percent_escapes.induct)
  case (2 c cs)
  show ?case
  proof (cases "c = 37")
    case False
    then show ?thesis using 2 by (auto simp: All_less_Suc2)
  next
    case True
    show ?thesis
    proof (cases "length cs < 2")
      case short: True
      then show ?thesis using \<open>c = 37\<close> by (cases cs; cases "tl cs") auto
    next
      case False
      then obtain a b r where cs: "cs = a # b # r" by (metis One_nat_def Suc_1 Suc_le_length_iff not_less)
      have "valid_percent_escapes r \<longleftrightarrow> (\<forall>i < length r. r ! i = 37 \<longrightarrow>
          i + 2 < length r \<and> is_hexdigit (r ! (i + 1)) \<and> is_hexdigit (r ! (i + 2)))"
        using 2 True cs by simp
      moreover have "a \<noteq> 37 \<and> b \<noteq> 37" if "is_hexdigit a" "is_hexdigit b" using that by auto
      ultimately show ?thesis using True cs by (auto simp: All_less_Suc2)
    qed
  qed
qed simp

lemma url_host_SomeD:
  assumes "url_host a = Some h"
  shows "a = h \<and> 58 \<notin> set h \<or>
    (\<exists>port. a = h @ 58 # port \<and> port \<noteq> [] \<and> list_all is_digit port \<and> digits_val 0 port \<in> {1..65535})"
proof (cases "rsplit_once 58 a")
  case None
  then have "58 \<notin> set a" by (auto simp: rsplit_once_def split: option.splits)
  then show ?thesis using assms None by (simp add: url_host_def)
next
  case (Some p)
  then show ?thesis
    using assms rsplit_once_SomeD [of 58 a "fst p" "snd p"]
    by (auto simp: url_host_def split: prod.splits if_splits)
qed

lemma split_authority_shape:
  assumes "split_authority rest = (a, p)"
  shows "\<exists>r. rest = a @ r \<and> (p = r \<or> p = 47 # r)" and "p \<noteq> [] \<and> hd p = 47" and "47 \<notin> set a"
  using assms cut_at_SomeD [of 47 rest a p] cut_at_SomeD [of 63 rest a]
  by (auto simp: split_authority_def split: option.splits)

lemma labels_last: "hd (rev (split_on c h)) = last (split_on c h)"
  by (simp add: hd_rev)

lemma tracker_url_safe_facts:
  assumes "tracker_url_parse url = Some t"
  shows "\<exists>rest. url = ascii ''http://'' @ tu_authority t @ rest \<and>
      (tu_path_and_query t = rest \<or> tu_path_and_query t = 47 # rest)"
    and "tu_path_and_query t \<noteq> [] \<and> hd (tu_path_and_query t) = 47"
    and "b \<in> set (tu_authority t @ tu_path_and_query t) \<Longrightarrow> 0x20 < b \<and> b \<noteq> 0x7F \<and> b \<noteq> 35"
    and "64 \<notin> set (tu_authority t) \<and> 47 \<notin> set (tu_authority t)"
    and "valid_percent_escapes (tu_path_and_query t)"
    and "\<exists>h. url_host (tu_authority t) = Some h \<and> tu_host t = map ascii_lower h"
    and "\<exists>ls. split_on 46 (tu_host t) = ls @ [ascii ''i2p''] \<and> ls \<noteq> [] \<and> [] \<notin> set ls"
proof -
  obtain rest a p where r: "url = ascii ''http://'' @ rest"
      "\<not> list_ex (\<lambda>b. b \<le> 0x20 \<or> b = 0x7F) rest" "35 \<notin> set rest"
    and ap: "split_authority rest = (a, p)"
    and tl: "64 \<notin> set a" "valid_percent_escapes p"
      "Option.bind (url_host a) (\<lambda>h.
         let host = map ascii_lower h; labels = rev (split_on 46 host) in
         if hd labels \<noteq> ascii ''i2p'' then None
         else if tl labels = [] \<or> hd (tl labels) = [] then None
         else if list_ex (\<lambda>l. l = []) (split_on 46 host) then None
         else Some \<lparr>tu_host = host, tu_authority = a, tu_path_and_query = p\<rparr>) = Some t"
  proof -
    obtain rest where s: "strip_prefix (ascii ''http://'') url = Some rest"
      using assms by (auto simp: tracker_url_parse_def bind_eq_Some_conv)
    obtain a p where ap: "split_authority rest = (a, p)" by (cases "split_authority rest")
    show thesis
      using that [OF strip_prefix_SomeD [OF s] _ _ ap] assms s ap
      by (simp add: tracker_url_parse_def split: if_splits)
  qed
  note shape = split_authority_shape [OF ap]
  from tl obtain h where h: "url_host a = Some h" and t: "tu_authority t = a" "tu_path_and_query t = p"
      "tu_host t = map ascii_lower h" "64 \<notin> set a" "valid_percent_escapes p"
    and l: "last (split_on 46 (tu_host t)) = ascii ''i2p''" "tl (rev (split_on 46 (tu_host t))) \<noteq> []"
      "[] \<notin> set (split_on 46 (tu_host t))"
    by (auto simp: bind_eq_Some_conv Let_def labels_last list_ex_iff split: if_splits)
  show "\<exists>rest. url = ascii ''http://'' @ tu_authority t @ rest \<and>
      (tu_path_and_query t = rest \<or> tu_path_and_query t = 47 # rest)" using r shape t by auto
  show "tu_path_and_query t \<noteq> [] \<and> hd (tu_path_and_query t) = 47" using shape t by simp
  show "64 \<notin> set (tu_authority t) \<and> 47 \<notin> set (tu_authority t)" using shape t by simp
  show "valid_percent_escapes (tu_path_and_query t)" using t by simp
  show "\<exists>h. url_host (tu_authority t) = Some h \<and> tu_host t = map ascii_lower h" using h t by simp
  show "0x20 < b \<and> b \<noteq> 0x7F \<and> b \<noteq> 35" if "b \<in> set (tu_authority t @ tu_path_and_query t)"
  proof -
    have "b \<in> set rest \<or> b = 47" using that shape t by auto
    then show ?thesis using r by (auto simp: list_ex_iff not_le)
  qed
  obtain ls x where ls: "split_on 46 (tu_host t) = ls @ [x]" by (metis split_on_nonempty rev_exhaust)
  then show "\<exists>ls. split_on 46 (tu_host t) = ls @ [ascii ''i2p''] \<and> ls \<noteq> [] \<and> [] \<notin> set ls"
    using l by auto
qed

text \<open>An announce URL the filter accepts is safe to dial and to print: it is the scheme, the
  authority and the rest as written; authority and request path carry no control byte, blank,
  \<^verbatim>\<open>DEL\<close> or fragment, so nothing can be smuggled into the request line or a log; there is no
  user information; every percent escape is complete; a port is a number from 1 to 65535 and
  never part of the host; and the host has at least two labels, none empty, the last of
  them \<^verbatim>\<open>i2p\<close>.\<close>

theorem tracker_url_safe:
  assumes "tracker_url_parse url = Some t"
  shows "(\<exists>rest. url = ascii ''http://'' @ tu_authority t @ rest \<and>
      (tu_path_and_query t = rest \<or> tu_path_and_query t = 47 # rest)) \<and>
    tu_path_and_query t \<noteq> [] \<and> hd (tu_path_and_query t) = 47 \<and>
    (\<forall>b \<in> set (tu_authority t @ tu_path_and_query t). 0x20 < b \<and> b \<noteq> 0x7F \<and> b \<noteq> 35) \<and>
    64 \<notin> set (tu_authority t) \<and> 47 \<notin> set (tu_authority t) \<and>
    (\<forall>i < length (tu_path_and_query t). tu_path_and_query t ! i = 37 \<longrightarrow>
       i + 2 < length (tu_path_and_query t) \<and> is_hexdigit (tu_path_and_query t ! (i + 1)) \<and>
       is_hexdigit (tu_path_and_query t ! (i + 2))) \<and>
    (\<exists>h. tu_host t = map ascii_lower h \<and>
       (tu_authority t = h \<and> 58 \<notin> set h \<or>
        (\<exists>port. tu_authority t = h @ 58 # port \<and> port \<noteq> [] \<and> list_all is_digit port \<and>
           digits_val 0 port \<in> {1..65535}))) \<and>
    (\<exists>ls. split_on 46 (tu_host t) = ls @ [ascii ''i2p''] \<and> ls \<noteq> [] \<and> [] \<notin> set ls)"
  using tracker_url_safe_facts [OF assms] url_host_SomeD
  unfolding valid_percent_escapes_exact [symmetric] by blast

theorem tracker_url_safe_witness:
  "tracker_url_parse (ascii ''http://T.i2p:80?x=%20'') =
     Some \<lparr>tu_host = ascii ''t.i2p'', tu_authority = ascii ''T.i2p:80'', tu_path_and_query = ascii ''/?x=%20''\<rparr> \<and>
   (\<exists>ls. split_on 46 (ascii ''t.i2p'') = ls @ [ascii ''i2p''] \<and> ls \<noteq> [] \<and> [] \<notin> set ls)"
proof -
  let ?t = "\<lparr>tu_host = ascii ''t.i2p'', tu_authority = ascii ''T.i2p:80'', tu_path_and_query = ascii ''/?x=%20''\<rparr>"
  have p: "tracker_url_parse (ascii ''http://T.i2p:80?x=%20'') = Some ?t" by code_simp
  then show ?thesis using tracker_url_safe [OF p] by simp
qed

text \<open>A query that starts before the first slash still reaches the host: the authority is cut at the
  first slash alone when there is one.\<close>

lemma query_inside_authority:
  "tracker_url_parse (ascii ''http://a?b.i2p/x'') =
     Some \<lparr>tu_host = ascii ''a?b.i2p'', tu_authority = ascii ''a?b.i2p'', tu_path_and_query = ascii ''/x''\<rparr>"
  "tracker_url_parse (ascii ''http://a.i2p?x=1/2'') = None"
  by code_simp+

subsection \<open>Priorities: the highest of the overlapping files\<close>

lemma length_raise_pieces [simp]: "length (raise_pieces pr ps out) = length out"
  by (induction pr ps out rule: raise_pieces.induct) auto

lemma raise_pieces_upt:
  "k < length out \<Longrightarrow>
     raise_pieces pr [a..<b] out ! k = (if a \<le> k \<and> k < b then max (out ! k) pr else out ! k)"
proof (induction "b - a" arbitrary: a out)
  case (Suc n)
  then have u: "[a..<b] = a # [Suc a..<b]" by (simp add: upt_conv_Cons)
  show ?case
    using Suc.hyps(1) [of "Suc a" "out[a := max (out ! a) pr]"] Suc.hyps(2) Suc.prems
    by (auto simp: u nth_list_update)
qed simp

text \<open>File \<open>i\<close> starts after all earlier ones and overlaps piece \<open>k\<close> when they share a byte.\<close>

definition file_offset :: "file_entry list \<Rightarrow> nat \<Rightarrow> nat" where
  "file_offset files i = sum_list (map fe_length (take i files))"

definition file_priority :: "nat list \<Rightarrow> nat \<Rightarrow> nat" where
  "file_priority per_file i = (if i < length per_file then per_file ! i else 1)"

definition shares_byte :: "nat \<Rightarrow> nat \<Rightarrow> nat \<Rightarrow> nat \<Rightarrow> bool" where
  "shares_byte plen k start len \<longleftrightarrow> (\<exists>x. start \<le> x \<and> x < start + len \<and> x div plen = k)"

lemma shares_byte_range:
  assumes "0 < plen" and "0 < len"
  shows "shares_byte plen k start len \<longleftrightarrow> start div plen \<le> k \<and> k < (start + len - 1) div plen + 1"
proof
  assume "shares_byte plen k start len"
  then obtain x where "start \<le> x" "x \<le> start + len - 1" "x div plen = k"
    by (auto simp: shares_byte_def)
  then show "start div plen \<le> k \<and> k < (start + len - 1) div plen + 1"
    using div_le_mono by (metis Suc_eq_plus1 less_Suc_eq_le)
next
  assume r: "start div plen \<le> k \<and> k < (start + len - 1) div plen + 1"
  define x where "x = max start (k * plen)"
  have "k * plen \<le> start + len - 1"
    using r assms(1) by (metis Suc_eq_plus1 less_Suc_eq_le less_eq_div_iff_mult_less_eq)
  then have "x < start + len" using assms by (simp add: x_def)
  moreover have "x div plen = k"
  proof (cases "k * plen \<le> start")
    case True
    then have "k \<le> start div plen" using assms(1) by (simp add: less_eq_div_iff_mult_less_eq)
    then show ?thesis using True r by (simp add: x_def max_def)
  next
    case False
    then show ?thesis using assms(1) by (simp add: x_def max_def)
  qed
  moreover have "start \<le> x" by (simp add: x_def)
  ultimately show "shares_byte plen k start len" unfolding shares_byte_def by blast
qed

lemma file_offset_Cons: "file_offset (f # fs) (Suc j) = fe_length f + file_offset fs j"
  by (simp add: file_offset_def)

lemma length_priority_loop [simp]: "length (priority_loop plen per_file i files off out) = length out"
  by (induction files arbitrary: i off out) (auto simp: Let_def)

lemma priority_loop_spec:
  assumes "0 < plen" and "off + sum_list (map fe_length files) \<le> u64_max" and "k < length out"
  shows "v \<le> priority_loop plen per_file i files off out ! k \<longleftrightarrow>
      v \<le> out ! k \<or> (\<exists>j < length files. shares_byte plen k (off + file_offset files j) (fe_length (files ! j)) \<and>
                                  v \<le> file_priority per_file (i + j))"
  using assms
proof (induction files arbitrary: i off out)
  case (Cons f files)
  let ?pr = "file_priority per_file i"
  let ?out = "if ?pr = 0 \<or> fe_length f = 0 then out
    else raise_pieces ?pr [off div plen..<(off + fe_length f - 1) div plen + 1] out"
  have sat: "off + fe_length f + sum_list (map fe_length files) \<le> u64_max" "u64_sat_add off (fe_length f) = off + fe_length f"
    using Cons.prems by (auto simp: u64_sat_add_def)
  have step: "priority_loop plen per_file i (f # files) off out =
      priority_loop plen per_file (i + 1) files (off + fe_length f) ?out"
    by (simp add: sat file_priority_def Let_def)
  have k: "k < length ?out" using Cons.prems by simp
  have out: "v \<le> ?out ! k \<longleftrightarrow> v \<le> out ! k \<or> (shares_byte plen k off (fe_length f) \<and> v \<le> ?pr)"
  proof (cases "?pr = 0 \<or> fe_length f = 0")
    case True
    then show ?thesis by (auto simp: shares_byte_def)
  next
    case False
    then have "shares_byte plen k off (fe_length f) \<longleftrightarrow>
        off div plen \<le> k \<and> k < (off + fe_length f - 1) div plen + 1"
      using Cons.prems(1) by (intro shares_byte_range) auto
    then show ?thesis
      using False raise_pieces_upt [OF Cons.prems(3), of ?pr "off div plen" "(off + fe_length f - 1) div plen + 1"]
      by (auto simp: le_max_iff_disj)
  qed
  have z: "file_offset (f # files) 0 = 0" by (simp add: file_offset_def)
  show ?case unfolding step Cons.IH [OF Cons.prems(1) sat(1) k] out
    by (simp add: Ex_less_Suc2 file_offset_Cons z add.assoc disj_assoc)
qed simp

text \<open>A piece's priority is the highest among the files that share a byte with it (files past the
  end of the given list count as normal priority), so it is skipped only if every such file is:
  a piece shared between a skipped and a wanted file stays wanted.\<close>

theorem piece_priorities_max:
  assumes "0 < mi_piece_length m" and "sum_list (map fe_length (mi_files m)) \<le> u64_max"
    and "k < length (mi_pieces m)"
  shows "length (piece_priorities m per_file) = length (mi_pieces m) \<and>
    (\<forall>v. v \<le> piece_priorities m per_file ! k \<longleftrightarrow> v = 0 \<or>
       (\<exists>j < length (mi_files m).
          shares_byte (mi_piece_length m) k (file_offset (mi_files m) j) (fe_length (mi_files m ! j)) \<and>
          v \<le> file_priority per_file j))"
  using assms priority_loop_spec [of "mi_piece_length m" 0 "mi_files m" k "replicate (length (mi_pieces m)) 0" _ per_file 0]
  by (auto simp: piece_priorities_def)

theorem piece_priorities_max_witness:
  "\<exists>m. length (mi_pieces m) = 2 \<and> piece_priorities m [0, 2] = [2, 2] \<and>
     shares_byte (mi_piece_length m) 0 (file_offset (mi_files m) 1) (fe_length (mi_files m ! 1))"
proof -
  let ?m = "\<lparr>mi_info_hash = [], mi_name = [], mi_piece_length = 4, mi_pieces = [[], []],
    mi_files = [\<lparr>fe_path = [[97]], fe_length = 3\<rparr>, \<lparr>fe_path = [[98]], fe_length = 4\<rparr>], mi_total_length = 7, mi_private = False,
    mi_trackers = [], mi_skipped_trackers = 0, mi_raw_info = []\<rparr>"
  have v: "piece_priorities ?m [0, 2] = [2, 2]" by code_simp
  have s: "\<not> shares_byte 4 0 0 3 \<or> file_priority [0, 2] 0 = 0" by (simp add: file_priority_def)
  have "2 \<le> piece_priorities ?m [0, 2] ! 0 \<longleftrightarrow> (2::nat) = 0 \<or>
       (\<exists>j < length (mi_files ?m).
          shares_byte (mi_piece_length ?m) 0 (file_offset (mi_files ?m) j) (fe_length (mi_files ?m ! j)) \<and>
          2 \<le> file_priority [0, 2] j)"
    by (rule conjunct2 [OF piece_priorities_max [of ?m 0 "[0, 2]"], rule_format]) (simp_all add: u64_max_def)
  then have "shares_byte 4 0 (file_offset (mi_files ?m) 1) 4"
    using v by (simp add: Ex_less_Suc2 file_priority_def)
  then show ?thesis using v by (intro exI [of _ ?m]) simp
qed

subsection \<open>What an accepted torrent guarantees\<close>

lemma check_component_ok:
  "check_component s = Inr () \<longleftrightarrow>
     s \<notin> {[], ascii ''.'', ascii ''..''} \<and> {47, 92, 0} \<inter> set s = {} \<and> length s \<le> MAX_COMPONENT_BYTES"
  by (auto simp: check_component_def)

lemma parse_path_Inr:
  "parse_path parts path = Inr p \<Longrightarrow>
     \<exists>cs. p = path @ cs \<and> length cs = length parts \<and> (\<forall>c \<in> set cs. check_component c = Inr ())"
proof (induction parts arbitrary: path)
  case (Cons x parts)
  then obtain s where s: "check_component s = Inr ()" "parse_path parts (path @ [s]) = Inr p"
    by (auto simp: bindE_Inr)
  obtain cs where "p = (path @ [s]) @ cs" "length cs = length parts" "\<forall>c \<in> set cs. check_component c = Inr ()"
    using Cons.IH [OF s(2)] by blast
  then show ?case using s(1) by (intro exI [of _ "s # cs"]) simp
qed simp

text \<open>A file's path starts at the torrent's name and stays inside the limits.\<close>

definition entry_ok :: "bytes \<Rightarrow> file_entry \<Rightarrow> bool" where
  "entry_ok name f \<longleftrightarrow> (\<exists>cs. fe_path f = name # cs) \<and> (\<forall>c \<in> set (fe_path f). check_component c = Inr ()) \<and>
     sum_list (map (\<lambda>part. length part + 1) (fe_path f)) \<le> MAX_PATH_BYTES"

lemma parse_entries_Inr:
  assumes "parse_entries name fs es tot = Inr (es', tot')" and "check_component name = Inr ()"
    and "tot \<le> u64_max"
  shows "\<exists>new. es' = es @ new \<and> length new = length fs \<and> tot' = tot + sum_list (map fe_length new) \<and>
    tot' \<le> u64_max \<and> (\<forall>f \<in> set new. entry_ok name f)"
  using assms
proof (induction fs arbitrary: es tot)
  case (Cons x fs)
  obtain len raw path where x: "parse_path raw [name] = Inr path"
      "sum_list (map (\<lambda>part. length part + 1) path) \<le> MAX_PATH_BYTES" "tot + len \<le> u64_max"
      "parse_entries name fs (es @ [\<lparr>fe_path = path, fe_length = len\<rparr>]) (tot + len) = Inr (es', tot')"
    using Cons.prems(1) by (auto simp: bindE_Inr checked_u64_def not_less split: if_splits)
  have "entry_ok name \<lparr>fe_path = path, fe_length = len\<rparr>"
    using parse_path_Inr [OF x(1)] x(2) Cons.prems(2) by (auto simp: entry_ok_def)
  moreover obtain new where "es' = (es @ [\<lparr>fe_path = path, fe_length = len\<rparr>]) @ new" "length new = length fs"
      "tot' = tot + len + sum_list (map fe_length new)" "tot' \<le> u64_max" "\<forall>f \<in> set new. entry_ok name f"
    using Cons.IH [OF x(4) Cons.prems(2) x(3)] by blast
  ultimately show ?case by (intro exI [of _ "\<lparr>fe_path = path, fe_length = len\<rparr> # new"]) auto
qed simp

lemma parse_files_Inr:
  assumes "parse_files lower info name = Inr (files, total_len)" and "check_component name = Inr ()"
  shows "total_len = sum_list (map fe_length files)" and "0 < total_len" and "total_len \<le> u64_max"
    and "length files \<le> MAX_FILES" and "f \<in> set files \<Longrightarrow> entry_ok name f"
    and "check_distinct_paths lower files = Inr ()"
proof -
  have "total_len = sum_list (map fe_length files) \<and> 0 < total_len \<and> total_len \<le> u64_max \<and>
    length files \<le> MAX_FILES \<and> (\<forall>f \<in> set files. entry_ok name f) \<and> check_distinct_paths lower files = Inr ()"
  proof (cases "bget info (ascii ''length'')")
    case (Some len)
    then have n: "bget info (ascii ''files'') = None" using assms(1) by (auto simp: parse_files_def split: option.splits)
    have "length name + 1 \<le> MAX_PATH_BYTES"
      using assms(2) by (simp add: check_component_ok MAX_COMPONENT_BYTES_def MAX_PATH_BYTES_def)
    then show ?thesis
      using assms Some n
      by (auto simp: parse_files_def bindE_Inr as_size_def u64_of_i64_def bind_eq_Some_conv MAX_FILES_def entry_ok_def
          check_distinct_paths_def split: if_splits)
  next
    case None
    then obtain fl where m: "bget info (ascii ''files'') = Some fl"
      using assms(1) by (auto simp: parse_files_def split: option.splits)
    obtain l where l: "length l \<le> MAX_FILES" "parse_entries name l [] 0 = Inr (files, total_len)" "0 < total_len"
        "check_distinct_paths lower files = Inr ()"
      using assms(1) None m by (auto simp: parse_files_def bindE_Inr not_less split: if_splits)
    then show ?thesis using parse_entries_Inr [OF l(2) assms(2)] by auto
  qed
  then show "total_len = sum_list (map fe_length files)" "0 < total_len" "total_len \<le> u64_max" "length files \<le> MAX_FILES"
    "f \<in> set files \<Longrightarrow> entry_ok name f" "check_distinct_paths lower files = Inr ()" by blast+
qed

lemma parse_tier_Inr:
  assumes "parse_tier urls kept n skipped = Inr (kept', n', skipped')" and "n \<le> MAX_TRACKERS"
  shows "\<exists>new. kept' = kept @ new \<and> n' = n + length new \<and> n' \<le> MAX_TRACKERS \<and>
    (\<forall>u \<in> set new. is_i2p_tracker u) \<and> skipped' + length new = skipped + length urls"
  using assms
proof (induction urls arbitrary: kept n skipped)
  case (Cons x urls)
  obtain url where url: "as_str x = Some url" using Cons.prems(1) by (auto simp: bindE_Inr)
  show ?case
  proof (cases "is_i2p_tracker url \<and> n < MAX_TRACKERS")
    case True
    then have "parse_tier urls (kept @ [url]) (n + 1) skipped = Inr (kept', n', skipped')"
      using Cons.prems(1) url by simp
    from Cons.IH [OF this] True obtain new where "kept' = (kept @ [url]) @ new" "n' = n + 1 + length new"
        "n' \<le> MAX_TRACKERS" "\<forall>u \<in> set new. is_i2p_tracker u" "skipped' + length new = skipped + length urls"
      by auto
    then show ?thesis using True by (intro exI [of _ "url # new"]) simp
  next
    case False
    then have "parse_tier urls kept n (skipped + 1) = Inr (kept', n', skipped')"
      using Cons.prems(1) url by auto
    from Cons.IH [OF this Cons.prems(2)] show ?thesis by fastforce
  qed
qed simp

lemma parse_tiers_Inr:
  assumes "parse_tiers ts tiers n skipped = Inr (tiers', skipped')" and "n \<le> MAX_TRACKERS"
    and "n = length (concat tiers)" and "\<forall>t \<in> set tiers. t \<noteq> [] \<and> (\<forall>u \<in> set t. is_i2p_tracker u)"
  shows "length (concat tiers') \<le> MAX_TRACKERS \<and> (\<forall>t \<in> set tiers'. t \<noteq> [] \<and> (\<forall>u \<in> set t. is_i2p_tracker u))"
  using assms
proof (induction ts arbitrary: tiers n skipped)
  case (Cons x ts)
  obtain tier kept n1 s1 where x: "parse_tier tier [] n skipped = Inr (kept, n1, s1)"
      "parse_tiers ts (if kept = [] then tiers else tiers @ [kept]) n1 s1 = Inr (tiers', skipped')"
    using Cons.prems(1) by (auto simp: bindE_Inr)
  have k: "n1 = n + length kept" "n1 \<le> MAX_TRACKERS" "\<forall>u \<in> set kept. is_i2p_tracker u"
    using parse_tier_Inr [OF x(1) Cons.prems(2)] by auto
  show ?case
    by (rule Cons.IH [OF x(2) k(2)]) (use k Cons.prems(3,4) in auto)
qed simp

lemma parse_trackers_Inr:
  assumes "parse_trackers root = Inr (tiers, skipped)"
  shows "length (concat tiers) \<le> MAX_TRACKERS \<and> (\<forall>t \<in> set tiers. t \<noteq> [] \<and> (\<forall>u \<in> set t. is_i2p_tracker u))"
proof (cases "bget root (ascii ''announce-list'')")
  case (Some l)
  then obtain ts where "parse_tiers ts [] 0 0 = Inr (tiers, skipped)"
    using assms by (auto simp: parse_trackers_def bindE_Inr)
  from parse_tiers_Inr [OF this] show ?thesis by simp
next
  case None
  then show ?thesis
    using assms by (auto simp: parse_trackers_def bindE_Inr MAX_TRACKERS_def split: option.splits if_splits)
qed

lemma mi_parse_Inr:
  assumes "mi_parse sha1 lower input = Inr m"
  obtains root info a b where "decode_with_entry input (ascii ''info'') = Inr (root, Some (a, b))"
    "bget root (ascii ''info'') = Some info" "as_dict info \<noteq> None"
    "mi_raw_info m = byte_range (a, b) input" "mi_info_hash m = sha1 (mi_raw_info m)"
    "check_component (mi_name m) = Inr ()"
    "MIN_PIECE_LENGTH \<le> mi_piece_length m" "mi_piece_length m \<le> MAX_PIECE_LENGTH"
    "\<forall>p \<in> set (mi_pieces m). length p = 20"
    "Option.bind (bget info (ascii ''pieces'')) as_bytes = Some (concat (mi_pieces m))"
    "parse_files lower info (mi_name m) = Inr (mi_files m, mi_total_length m)"
    "length (mi_pieces m) = div_ceil (mi_total_length m) (mi_piece_length m)"
    "length (mi_pieces m) \<le> MAX_PIECES"
    "parse_trackers root = Inr (mi_trackers m, mi_skipped_trackers m)"
proof -
  obtain root rg where d: "decode_with_entry input (ascii ''info'') = Inr (root, rg)"
    using assms by (cases "decode_with_entry input (ascii ''info'')") (auto simp: mi_parse_def)
  obtain info where i: "bget root (ascii ''info'') = Some info"
    using assms d by (auto simp: mi_parse_def bindE_Inr)
  obtain a b where r: "rg = Some (a, b)" "as_dict info \<noteq> None"
    using assms d i by (auto simp: mi_parse_def bindE_Inr Let_def split: if_splits)
  note step = d [unfolded r(1)] i r(2)
  note un = mi_parse_def bindE_Inr Let_def
  obtain name where n: "Option.bind (bget info (ascii ''name'')) as_str = Some name" "check_component name = Inr ()"
    using assms step by (auto simp: un)
  obtain raw where raw: "Option.bind (bget info (ascii ''piece length'')) as_int = Some raw"
    using assms step n by (auto simp: un)
  obtain plr where pl: "u32_of_i64 raw = Some plr" "MIN_PIECE_LENGTH \<le> plr" "plr \<le> MAX_PIECE_LENGTH"
    using assms step n raw by (auto simp: un split: option.splits if_splits)
  obtain praw where praw: "Option.bind (bget info (ascii ''pieces'')) as_bytes = Some praw" "praw \<noteq> []" "length praw mod 20 = 0"
    using assms step n raw pl by (auto simp: un split: if_splits)
  obtain files total_length where f: "parse_files lower info name = Inr (files, total_length)"
    using assms step n raw pl praw by (auto simp: un)
  have c: "\<not> MAX_PIECES < div_ceil total_length plr" "div_ceil total_length plr = length (chunks 20 praw)"
    using assms step n raw pl praw f by (auto simp: un split: if_splits)
  obtain trackers skipped where t: "parse_trackers root = Inr (trackers, skipped)"
    using assms step n raw pl praw f c by (auto simp: un)
  have m: "m = \<lparr>mi_info_hash = sha1 (byte_range (a, b) input), mi_name = name, mi_piece_length = plr, mi_pieces = chunks 20 praw,
          mi_files = files, mi_total_length = total_length, mi_private = (Option.bind (bget info (ascii ''private'')) as_int = Some 1),
          mi_trackers = trackers, mi_skipped_trackers = skipped, mi_raw_info = byte_range (a, b) input\<rparr>"
    using assms step n raw pl praw f c t by (simp add: mi_parse_def Let_def)
  have "20 dvd length praw" using praw(3) by auto
  then have "concat (mi_pieces m) = praw" "\<forall>p \<in> set (mi_pieces m). length p = 20"
    by (simp_all add: m concat_chunks chunks_length)
  then show thesis
    using that [OF d [unfolded r] i r(2)] n pl praw f c t by (simp add: m)
qed

text \<open>C36. A torrent the parser accepts is consistent in every way the engine relies on: its
  identity is the hash of the \<^verbatim>\<open>info\<close> bytes exactly as they stand in the file, and those bytes
  are a bencoded dictionary; the piece length is in range, every piece hash has 20 bytes, and
  there are exactly as many pieces as the total length needs, no more than a bitfield message
  can carry; the total is the sum of the file lengths and fits 64 bits; every path starts at
  the torrent's name, has only safe components and fits a path; no two paths collide; and at
  most 16 trackers are kept, all of them I2P.\<close>

theorem mi_parse_valid:
  assumes "mi_parse sha1 lower input = Inr m"
  shows "mi_info_hash m = sha1 (mi_raw_info m) \<and>
    (\<exists>pre post d. input = pre @ mi_raw_info m @ post \<and> enc_of (MAX_DEPTH - 1) (BDict d) (mi_raw_info m)) \<and>
    mi_piece_length m \<in> {MIN_PIECE_LENGTH..MAX_PIECE_LENGTH} \<and>
    (\<forall>p \<in> set (mi_pieces m). length p = 20) \<and>
    length (mi_pieces m) = div_ceil (mi_total_length m) (mi_piece_length m) \<and>
    length (mi_pieces m) \<in> {1..MAX_PIECES} \<and> 1 + div_ceil (length (mi_pieces m)) 8 \<le> MAX_MESSAGE_LEN \<and>
    mi_total_length m = sum_list (map fe_length (mi_files m)) \<and> mi_total_length m \<in> {1..u64_max} \<and>
    length (mi_files m) \<le> MAX_FILES \<and> (\<forall>f \<in> set (mi_files m). entry_ok (mi_name m) f) \<and>
    collision_free (map (\<lambda>e. map lower (fe_path e)) (mi_files m)) \<and>
    length (concat (mi_trackers m)) \<le> MAX_TRACKERS \<and>
    (\<forall>tier \<in> set (mi_trackers m). tier \<noteq> [] \<and> (\<forall>u \<in> set tier. is_i2p_tracker u))"
proof -
  obtain root info a b where d: "decode_with_entry input (ascii ''info'') = Inr (root, Some (a, b))"
    "bget root (ascii ''info'') = Some info" "as_dict info \<noteq> None"
    "mi_raw_info m = byte_range (a, b) input" "mi_info_hash m = sha1 (mi_raw_info m)"
    and c: "check_component (mi_name m) = Inr ()"
    and p: "MIN_PIECE_LENGTH \<le> mi_piece_length m" "mi_piece_length m \<le> MAX_PIECE_LENGTH"
      "\<forall>p \<in> set (mi_pieces m). length p = 20"
      "length (mi_pieces m) = div_ceil (mi_total_length m) (mi_piece_length m)" "length (mi_pieces m) \<le> MAX_PIECES"
    and f: "parse_files lower info (mi_name m) = Inr (mi_files m, mi_total_length m)"
    and t: "parse_trackers root = Inr (mi_trackers m, mi_skipped_trackers m)"
    using mi_parse_Inr [OF assms] by metis
  obtain dd where dd: "info = BDict dd" using d(3) by (cases info) auto
  have enc: "a \<le> b" "b \<le> length input" "enc_of (MAX_DEPTH - 1) (BDict dd) (mi_raw_info m)"
    using decode_with_entry_sound(2) [OF d(1)] d(2,4) dd by auto
  have "input = take a input @ mi_raw_info m @ drop b input"
    using enc(1,2) d(4) by (simp add: byte_range_def) (metis append_take_drop_id drop_drop le_add_diff_inverse2)
  then have "\<exists>pre post d. input = pre @ mi_raw_info m @ post \<and> enc_of (MAX_DEPTH - 1) (BDict d) (mi_raw_info m)"
    using enc(3) by blast
  moreover note ff = parse_files_Inr [OF f c]
  moreover have "0 < length (mi_pieces m)"
    using p(1,4) ff(2) div_ceil_less_iff [of "mi_piece_length m" 0 "mi_total_length m"] by (simp add: MIN_PIECE_LENGTH_def)
  moreover have "1 + div_ceil (length (mi_pieces m)) 8 \<le> MAX_MESSAGE_LEN"
  proof -
    have "\<not> MAX_MESSAGE_LEN - 1 < div_ceil (length (mi_pieces m)) 8"
      using p(5) div_ceil_less_iff [of 8] by (simp add: MAX_PIECES_def)
    then show ?thesis by (simp add: MAX_MESSAGE_LEN_def)
  qed
  moreover have "collision_free (map (\<lambda>e. map lower (fe_path e)) (mi_files m))"
    using ff(6) by (simp add: check_distinct_paths_def check_windows_exact collision_free_def)
  ultimately show ?thesis using d(5) p parse_trackers_Inr [OF t] by auto
qed

text \<open>Metadata fetched from peers keeps its identity: when the fetched bytes are one bencoded
  value, parsing them as a bare \<^verbatim>\<open>info\<close> dictionary hashes exactly these bytes, keeps them
  for serving, and finds no trackers.\<close>

theorem from_info_dict_identity:
  assumes "from_info_dict sha1 lower info_bytes = Inr m" and "enc_of (MAX_DEPTH - 1) v info_bytes"
    and "length info_bytes + 8 \<le> usize_max"
  shows "mi_raw_info m = info_bytes \<and> mi_info_hash m = sha1 info_bytes \<and>
    mi_trackers m = [] \<and> mi_skipped_trackers m = 0"
proof -
  have p: "put_bytes (ascii ''info'') = ascii ''4:info''" by code_simp
  have w: "ascii ''d4:info'' @ info_bytes @ [101] = 100 # put_bytes (ascii ''info'') @ info_bytes @ [101]"
    "length (put_bytes (ascii ''info'')) = 6"
    by (simp_all add: p) (simp add: ascii_def)
  have dec: "decode_with_entry (ascii ''d4:info'' @ info_bytes @ [101]) (ascii ''info'') =
      Inr (BDict [(ascii ''info'', v)], Some (7, 7 + length info_bytes))"
    using decode_with_entry_single [OF assms(2), of "ascii ''info''"] assms(3) w by simp
  have range: "byte_range (7, 7 + length info_bytes) (ascii ''d4:info'' @ info_bytes @ [101]) = info_bytes"
    by (simp add: byte_range_def)
  have none: "bget (BDict [(ascii ''info'', v)]) (ascii ''announce-list'') = None"
    "bget (BDict [(ascii ''info'', v)]) (ascii ''announce'') = None"
    by (simp_all add: bget_def)
  have tr: "parse_trackers (BDict [(ascii ''info'', v)]) = Inr ([], 0)"
    by (simp only: parse_trackers_def none option.case)
  show ?thesis
  proof (rule mi_parse_Inr [OF assms(1) [unfolded from_info_dict_def]])
    fix root info a b
    assume "decode_with_entry (ascii ''d4:info'' @ info_bytes @ [101]) (ascii ''info'') = Inr (root, Some (a, b))"
      and m: "mi_raw_info m = byte_range (a, b) (ascii ''d4:info'' @ info_bytes @ [101])"
        "mi_info_hash m = sha1 (mi_raw_info m)"
      and t: "parse_trackers root = Inr (mi_trackers m, mi_skipped_trackers m)"
    then have "root = BDict [(ascii ''info'', v)]" "a = 7" "b = 7 + length info_bytes" using dec by simp_all
    then show ?thesis using m t tr range by simp
  qed
qed

subsection \<open>A small torrent\<close>

definition sample_entries :: "(bytes \<times> bvalue) list" where
  "sample_entries = [(ascii ''length'', BInt 5), (ascii ''name'', BBytes (ascii ''a'')),
     (ascii ''piece length'', BInt 16384), (ascii ''pieces'', BBytes (replicate 20 97))]"

definition sample_info :: bytes where "sample_info = encode (BDict sample_entries)"

definition sample_torrent :: metainfo where
  "sample_torrent = \<lparr>mi_info_hash = [of_nat (length sample_info)], mi_name = ascii ''a'', mi_piece_length = 16384,
     mi_pieces = [replicate 20 97], mi_files = [\<lparr>fe_path = [ascii ''a''], fe_length = 5\<rparr>], mi_total_length = 5,
     mi_private = False, mi_trackers = [], mi_skipped_trackers = 0, mi_raw_info = sample_info\<rparr>"

lemma sample_info_enc: "enc_of (MAX_DEPTH - 1) (BDict sample_entries) sample_info"
proof -
  have "fits (MAX_DEPTH - 1) (BDict sample_entries)" by code_simp
  then show ?thesis unfolding sample_info_def by (rule fits_enc_of)
qed

lemma sample_info_length: "length sample_info = 75"
  by code_simp

lemma sample_parses: "from_info_dict (\<lambda>b. [of_nat (length b)]) (map ascii_lower) sample_info = Inr sample_torrent"
proof -
  let ?in = "ascii ''d4:info'' @ sample_info @ [101]"
  have p: "put_bytes (ascii ''info'') = ascii ''4:info''" by code_simp
  have w: "?in = 100 # put_bytes (ascii ''info'') @ sample_info @ [101]" by (simp add: p) (simp add: ascii_def)
  have l: "length (ascii ''4:info'') = 6" by simp
  have dec: "decode_with_entry ?in (ascii ''info'') =
      Inr (BDict [(ascii ''info'', BDict sample_entries)], Some (7, 7 + length sample_info))"
    using decode_with_entry_single [OF sample_info_enc, of "ascii ''info''"] unfolding w
    by (simp add: sample_info_length usize_max_def) (simp add: p)
  have range: "byte_range (7, 7 + length sample_info) ?in = sample_info" by (simp add: byte_range_def)
  have g: "bget (BDict [(ascii ''info'', BDict sample_entries)]) (ascii ''info'') = Some (BDict sample_entries)"
    by (simp add: bget_def)
  have e: "Option.bind (bget (BDict sample_entries) (ascii ''name'')) as_str = Some (ascii ''a'')"
    "check_component (ascii ''a'') = Inr ()"
    "Option.bind (bget (BDict sample_entries) (ascii ''piece length'')) as_int = Some 16384"
    "u32_of_i64 16384 = Some 16384" "MIN_PIECE_LENGTH = 16384" "MAX_PIECE_LENGTH = 134217728"
    "Option.bind (bget (BDict sample_entries) (ascii ''pieces'')) as_bytes = Some (replicate 20 97)"
    "chunks 20 (replicate 20 (97::byte)) = [replicate 20 97]"
    "parse_files (map ascii_lower) (BDict sample_entries) (ascii ''a'') = Inr ([\<lparr>fe_path = [ascii ''a''], fe_length = 5\<rparr>], 5)"
    "div_ceil 5 16384 = 1" "0 < MAX_PIECES"
    "Option.bind (bget (BDict sample_entries) (ascii ''private'')) as_int = None"
    "parse_trackers (BDict [(ascii ''info'', BDict sample_entries)]) = Inr ([], 0)"
    by code_simp+
  have "replicate 20 (97::byte) \<noteq> []" "length (replicate 20 (97::byte)) mod 20 = 0" by simp_all
  then show ?thesis
    unfolding from_info_dict_def mi_parse_def dec
    by (simp add: g e range sample_torrent_def Let_def)
qed

theorem mi_parse_valid_witness:
  "mi_parse (\<lambda>b. [of_nat (length b)]) (map ascii_lower) (ascii ''d4:info'' @ sample_info @ [101]) = Inr sample_torrent \<and>
   length (mi_pieces sample_torrent) = div_ceil (mi_total_length sample_torrent) (mi_piece_length sample_torrent)"
  using mi_parse_valid [OF sample_parses [unfolded from_info_dict_def]] sample_parses [unfolded from_info_dict_def]
  by blast

theorem from_info_dict_identity_witness:
  "from_info_dict (\<lambda>b. [of_nat (length b)]) (map ascii_lower) sample_info = Inr sample_torrent \<and>
   mi_raw_info sample_torrent = sample_info \<and> mi_info_hash sample_torrent = [of_nat (length sample_info)]"
proof -
  have "length sample_info + 8 \<le> usize_max" by (simp add: sample_info_length usize_max_def)
  from from_info_dict_identity [OF sample_parses sample_info_enc this] show ?thesis
    using sample_parses by blast
qed

text \<open>The comment in \<^verbatim>\<open>from_info_dict\<close> says that the wrapper's \<^verbatim>\<open>info\<close> span is exactly the given
  bytes. That needs them to be one value: with another entry behind it the span is shorter.\<close>

lemma info_span_can_be_shorter:
  "raw_entry (ascii ''d4:info'' @ ascii ''de1:xi1e'' @ [101]) (ascii ''info'') = Inr (Some (7, 9))"
  by code_simp

end
