(* ===== verification/Storage.thy ===== *)
theory Storage
  imports Metainfo Bitfield
begin

text \<open>
  Piece storage (\<^verbatim>\<open>crates/clove-core/src/storage.rs\<close>): the torrent's files as one linear byte
  space, block reads and writes that straddle files, streaming verification, and the walk that
  opens and deletes files beneath the download directory. The disk is the content of every
  file. What the operating system may do to a read or write is the parameter \<open>flt\<close>: for a
  file, an offset and a length, \<open>None\<close> or the error it reports and how many bytes a write
  got through before. System calls of the directory walk are the fields of a \<open>kernel\<close>.
\<close>

subsection \<open>Files and errors\<close>

datatype errno = EEXIST | ELOOP | ENOTDIR | EOPNOTSUPP | ENOENT | Errno nat

datatype io_error = InvalidInput string | UnexpectedEof | NotFound | Os errno

type_synonym disk = "nat \<Rightarrow> bytes"
type_synonym faults = "nat \<Rightarrow> nat \<Rightarrow> nat \<Rightarrow> (nat \<times> io_error) option"
type_synonym 's io = "'s \<times> (io_error + unit)"

text \<open>\<^verbatim>\<open>FileExt::write_all_at\<close>: a write past the end leaves a hole of zeros, and a write of nothing
  changes nothing.\<close>

definition pwrite :: "bytes \<Rightarrow> nat \<Rightarrow> bytes \<Rightarrow> bytes" where
  "pwrite c off data =
     (if data = [] then c
      else take off (c @ replicate (off - length c) 0) @ data @ drop (off + length data) c)"

definition write_all_at :: "faults \<Rightarrow> nat \<Rightarrow> nat \<Rightarrow> bytes \<Rightarrow> disk \<Rightarrow> disk io" where
  "write_all_at flt file off data disk =
     (case flt file off (length data) of
        None \<Rightarrow> (disk(file := pwrite (disk file) off data), Inr ())
      | Some (k, e) \<Rightarrow> (disk(file := pwrite (disk file) off (take k data)), Inl e))"

text \<open>\<^verbatim>\<open>FileExt::read_exact_at\<close> into a slice of the buffer; nothing is promised of the buffer
  after an error.\<close>

definition read_exact_at :: "faults \<Rightarrow> disk \<Rightarrow> nat \<Rightarrow> nat \<Rightarrow> nat \<Rightarrow> nat \<Rightarrow> bytes \<Rightarrow> bytes io" where
  "read_exact_at flt disk file off lo n out =
     (case flt file off n of
        None \<Rightarrow> if off + n \<le> length (disk file) then (copy_at lo (take n (drop off (disk file))) out, Inr ())
                else (out, Inl UnexpectedEof)
      | Some (k, e) \<Rightarrow> (out, Inl e))"

subsection \<open>The byte space\<close>

definition VERIFY_CHUNK :: nat where "VERIFY_CHUNK = BLOCK_LEN"

record region =
  rg_file :: nat
  rg_start :: nat
  rg_length :: nat

record storage =
  st_regions :: "region list"
  st_piece_length :: nat
  st_total_length :: nat
  st_hashes :: "bytes list"

definition st_num_pieces :: "storage \<Rightarrow> nat" where
  "st_num_pieces st = u32_clamp (length (st_hashes st))"

definition st_piece_len :: "storage \<Rightarrow> nat \<Rightarrow> nat" where
  "st_piece_len st index =
     (let start = index * st_piece_length st in
      if start \<ge> st_total_length st then 0
      else u32_clamp (min (st_total_length st - start) (st_piece_length st)))"

definition check_range :: "storage \<Rightarrow> nat \<Rightarrow> nat \<Rightarrow> io_error + nat" where
  "check_range st global_start len =
     (case checked_u64 (global_start + len) of
        Some e \<Rightarrow> if e \<le> st_total_length st then Inr e
                  else Inl (InvalidInput ''storage: range outside torrent'')
      | None \<Rightarrow> Inl (InvalidInput ''storage: range outside torrent''))"

fun segment_loop :: "(nat \<Rightarrow> nat \<Rightarrow> nat \<times> nat \<Rightarrow> 's \<Rightarrow> 's io) \<Rightarrow> nat \<Rightarrow> nat \<Rightarrow> region list \<Rightarrow> 's \<Rightarrow> 's io" where
  "segment_loop oper global_start end [] s = (s, Inr ())"
| "segment_loop oper global_start end (r # rs) s =
     (if rg_length r = 0 then segment_loop oper global_start end rs s
      else
        let region_end = u64_add (rg_start r) (rg_length r);
            lo = max global_start (rg_start r);
            hi = min end region_end in
        if lo \<ge> hi then segment_loop oper global_start end rs s
        else
          (case oper (rg_file r) (lo - rg_start r) (lo - global_start, hi - global_start) s of
             (s', Inl e) \<Rightarrow> (s', Inl e)
           | (s', Inr _) \<Rightarrow> segment_loop oper global_start end rs s'))"

definition for_each_segment ::
  "storage \<Rightarrow> nat \<Rightarrow> nat \<Rightarrow> (nat \<Rightarrow> nat \<Rightarrow> nat \<times> nat \<Rightarrow> 's \<Rightarrow> 's io) \<Rightarrow> 's \<Rightarrow> 's io" where
  "for_each_segment st global_start len oper s =
     (case check_range st global_start len of
        Inl e \<Rightarrow> (s, Inl e)
      | Inr end \<Rightarrow> if len = 0 then (s, Inr ()) else segment_loop oper global_start end (st_regions st) s)"

text \<open>The offset of a block: index, piece length and begin are 32-bit values widened to 64 bits,
  so the sum cannot overflow.\<close>

definition block_start :: "storage \<Rightarrow> nat \<Rightarrow> nat \<Rightarrow> nat" where
  "block_start st index begn = index * st_piece_length st + begn"

definition write_block :: "faults \<Rightarrow> storage \<Rightarrow> nat \<Rightarrow> nat \<Rightarrow> bytes \<Rightarrow> disk \<Rightarrow> disk io" where
  "write_block flt st index begn data =
     for_each_segment st (block_start st index begn) (length data)
       (\<lambda>file off seg. write_all_at flt file off (byte_range seg data))"

definition read_block_into :: "faults \<Rightarrow> disk \<Rightarrow> storage \<Rightarrow> nat \<Rightarrow> nat \<Rightarrow> nat \<Rightarrow> bytes \<Rightarrow> bytes io" where
  "read_block_into flt disk st index begn len out =
     (case check_range st (block_start st index begn) len of
        Inl e \<Rightarrow> (out, Inl e)
      | Inr _ \<Rightarrow>
          for_each_segment st (block_start st index begn) len
            (\<lambda>file off seg. read_exact_at flt disk file off (fst seg) (snd seg - fst seg)) (replicate len 0))"

definition read_block :: "faults \<Rightarrow> disk \<Rightarrow> storage \<Rightarrow> nat \<Rightarrow> nat \<Rightarrow> nat \<Rightarrow> io_error + bytes" where
  "read_block flt disk st index begn len =
     (case read_block_into flt disk st index begn len [] of
        (out, Inl e) \<Rightarrow> Inl e
      | (out, Inr _) \<Rightarrow> Inr out)"

subsection \<open>Verification\<close>

text \<open>The hasher is what it has been fed; \<open>sha1\<close> is its \<^verbatim>\<open>finalize\<close>. The loop returns \<open>None\<close>
  for the early \<^verbatim>\<open>Ok(false)\<close>.\<close>

function hash_loop ::
  "faults \<Rightarrow> disk \<Rightarrow> storage \<Rightarrow> nat \<Rightarrow> nat \<Rightarrow> nat \<Rightarrow> bytes \<Rightarrow> bytes \<Rightarrow> bytes \<times> (io_error + bytes option)" where
  "hash_loop flt disk st index len done hasher scratch =
     (if done < len then
        let chunk = min (len - done) VERIFY_CHUNK in
        (case read_block_into flt disk st index done chunk scratch of
           (scratch', Inr _) \<Rightarrow>
             hash_loop flt disk st index len (done + chunk) (hasher @ take chunk scratch') scratch'
         | (scratch', Inl e) \<Rightarrow> (scratch', if e = UnexpectedEof then Inr None else Inl e))
      else (scratch, Inr (Some hasher)))"
  by pat_completeness auto
termination
  by (relation "measure (\<lambda>(flt, disk, st, index, len, done, hasher, scratch). len - done)")
    (auto simp: VERIFY_CHUNK_def BLOCK_LEN_def)

declare hash_loop.simps [simp del]

definition verify_piece_into ::
  "(bytes \<Rightarrow> bytes) \<Rightarrow> faults \<Rightarrow> disk \<Rightarrow> storage \<Rightarrow> nat \<Rightarrow> bytes \<Rightarrow> bytes \<times> (io_error + bool)" where
  "verify_piece_into sha1 flt disk st index scratch =
     (let len = st_piece_len st index in
      if len = 0 then (scratch, Inr False)
      else if \<not> index < length (st_hashes st) then (scratch, Inr False)
      else
        (case hash_loop flt disk st index len 0 [] scratch of
           (scratch', Inl e) \<Rightarrow> (scratch', Inl e)
         | (scratch', Inr None) \<Rightarrow> (scratch', Inr False)
         | (scratch', Inr (Some hashed)) \<Rightarrow> (scratch', Inr (st_hashes st ! index = sha1 hashed))))"

definition verify_piece :: "(bytes \<Rightarrow> bytes) \<Rightarrow> faults \<Rightarrow> disk \<Rightarrow> storage \<Rightarrow> nat \<Rightarrow> io_error + bool" where
  "verify_piece sha1 flt disk st index = snd (verify_piece_into sha1 flt disk st index [])"

fun verify_loop ::
  "(bytes \<Rightarrow> bytes) \<Rightarrow> faults \<Rightarrow> disk \<Rightarrow> storage \<Rightarrow> nat list \<Rightarrow> bytes \<Rightarrow> bitfield \<Rightarrow> io_error + bitfield" where
  "verify_loop sha1 flt disk st [] scratch hv = Inr hv"
| "verify_loop sha1 flt disk st (i # is) scratch hv =
     (case verify_piece_into sha1 flt disk st i scratch of
        (scratch', Inl e) \<Rightarrow> Inl e
      | (scratch', Inr ok) \<Rightarrow> verify_loop sha1 flt disk st is scratch' (if ok then bf_set hv i else hv))"

definition verify_all :: "(bytes \<Rightarrow> bytes) \<Rightarrow> faults \<Rightarrow> disk \<Rightarrow> storage \<Rightarrow> io_error + bitfield" where
  "verify_all sha1 flt disk st =
     verify_loop sha1 flt disk st [0..<st_num_pieces st] [] (bf_empty (st_num_pieces st))"

subsection \<open>Opening and deleting files\<close>

text \<open>The system calls of the walk. A descriptor is a number; the download root, the open flags and
  modes are fixed at each call site (every \<open>k_open_dir\<close> and \<open>k_open_file\<close> carries
  \<^verbatim>\<open>O_NOFOLLOW\<close>).\<close>

record 's kernel =
  k_create_root :: "'s \<Rightarrow> 's \<times> (io_error + unit)"
  k_open_root :: "'s \<Rightarrow> 's \<times> (errno + nat)"
  k_mkdirat :: "nat \<Rightarrow> bytes \<Rightarrow> 's \<Rightarrow> 's \<times> (errno + unit)"
  k_open_dir :: "nat \<Rightarrow> bytes \<Rightarrow> 's \<Rightarrow> 's \<times> (errno + nat)"
  k_open_file :: "nat \<Rightarrow> bytes \<Rightarrow> 's \<Rightarrow> 's \<times> (errno + nat)"
  k_unlinkat :: "nat \<Rightarrow> bytes \<Rightarrow> 's \<Rightarrow> 's \<times> (errno + unit)"
  k_fallocate :: "nat \<Rightarrow> nat \<Rightarrow> 's \<Rightarrow> 's \<times> (errno + unit)"
  k_set_len :: "nat \<Rightarrow> nat \<Rightarrow> 's \<Rightarrow> 's \<times> (io_error + unit)"
  k_sync :: "nat \<Rightarrow> 's \<Rightarrow> 's \<times> (io_error + unit)"

text \<open>\<^verbatim>\<open>io::Error::from\<close> an errno; the message of an \<open>InvalidInput\<close> is its fixed part.\<close>

definition io_of_errno :: "errno \<Rightarrow> io_error" where
  "io_of_errno e = (if e = ENOENT then NotFound else Os e)"

definition st_check_component :: "bytes \<Rightarrow> io_error + unit" where
  "st_check_component c =
     (if c = [] \<or> c = ascii ''.'' \<or> c = ascii ''..'' \<or> 47 \<in> set c \<or> 92 \<in> set c \<or> 0 \<in> set c
      then Inl (InvalidInput ''unsafe path component'') else Inr ())"

definition refused :: "errno \<Rightarrow> io_error" where
  "refused e =
     (case e of
        ELOOP \<Rightarrow> InvalidInput ''path component is a symbolic link''
      | ENOTDIR \<Rightarrow> InvalidInput ''path component is not a directory''
      | _ \<Rightarrow> io_of_errno e)"

fun check_components :: "bytes list \<Rightarrow> io_error + unit" where
  "check_components [] = Inr ()"
| "check_components (c # cs) = bindE (st_check_component c) (\<lambda>_. check_components cs)"

fun walk_parents :: "'s kernel \<Rightarrow> bool \<Rightarrow> bytes list \<Rightarrow> nat \<Rightarrow> 's \<Rightarrow> 's \<times> (io_error + nat)" where
  "walk_parents k create [] dir s = (s, Inr dir)"
| "walk_parents k create (c # cs) dir s =
     (let (s1, made) = (if create then k_mkdirat k dir c s else (s, Inr ())) in
      case made of
        Inl e \<Rightarrow>
          if e = EEXIST then
            (case k_open_dir k dir c s1 of
               (s2, Inl e') \<Rightarrow> (s2, Inl (refused e'))
             | (s2, Inr dir') \<Rightarrow> walk_parents k create cs dir' s2)
          else (s1, Inl (refused e))
      | Inr _ \<Rightarrow>
          (case k_open_dir k dir c s1 of
             (s2, Inl e') \<Rightarrow> (s2, Inl (refused e'))
           | (s2, Inr dir') \<Rightarrow> walk_parents k create cs dir' s2))"

definition walk_beneath :: "'s kernel \<Rightarrow> bytes list \<Rightarrow> bool \<Rightarrow> 's \<Rightarrow> 's \<times> (io_error + (nat \<times> bytes))" where
  "walk_beneath k components create s =
     (if components = [] then (s, Inl (InvalidInput ''a file entry with no path components''))
      else
        case check_components components of
          Inl e \<Rightarrow> (s, Inl e)
        | Inr _ \<Rightarrow>
            (let (s1, made) = (if create then k_create_root k s else (s, Inr ())) in
             case made of
               Inl e \<Rightarrow> (s1, Inl e)
             | Inr _ \<Rightarrow>
                 (case k_open_root k s1 of
                    (s2, Inl e) \<Rightarrow> (s2, Inl (io_of_errno e))
                  | (s2, Inr dir) \<Rightarrow>
                      (case walk_parents k create (butlast components) dir s2 of
                         (s3, Inl e) \<Rightarrow> (s3, Inl e)
                       | (s3, Inr dir') \<Rightarrow> (s3, Inr (dir', last components))))))"

definition open_beneath :: "'s kernel \<Rightarrow> bytes list \<Rightarrow> 's \<Rightarrow> 's \<times> (io_error + nat)" where
  "open_beneath k components s =
     (case walk_beneath k components True s of
        (s1, Inl e) \<Rightarrow> (s1, Inl e)
      | (s1, Inr (dir, name)) \<Rightarrow>
          (case k_open_file k dir name s1 of
             (s2, Inl e) \<Rightarrow> (s2, Inl (refused e))
           | (s2, Inr fd) \<Rightarrow> (s2, Inr fd)))"

definition claim_blocks :: "'s kernel \<Rightarrow> nat \<Rightarrow> nat \<Rightarrow> 's \<Rightarrow> 's \<times> (io_error + unit)" where
  "claim_blocks k file len s =
     (case k_fallocate k file len s of
        (s1, Inr _) \<Rightarrow> (s1, Inr ())
      | (s1, Inl e) \<Rightarrow> if e = EOPNOTSUPP then k_set_len k file len s1 else (s1, Inl (io_of_errno e)))"

definition remove_beneath :: "'s kernel \<Rightarrow> bytes list \<Rightarrow> 's \<Rightarrow> 's \<times> (io_error + unit)" where
  "remove_beneath k components s =
     (case walk_beneath k components False s of
        (s1, Inl e) \<Rightarrow> (s1, if e = NotFound then Inr () else Inl e)
      | (s1, Inr (dir, name)) \<Rightarrow>
          (case k_unlinkat k dir name s1 of
             (s2, Inr _) \<Rightarrow> (s2, Inr ())
           | (s2, Inl e) \<Rightarrow> (s2, if e = ENOENT then Inr () else Inl (io_of_errno e))))"

fun create_loop ::
  "'s kernel \<Rightarrow> bool \<Rightarrow> file_entry list \<Rightarrow> nat \<Rightarrow> region list \<Rightarrow> 's \<Rightarrow> 's \<times> (io_error + region list)" where
  "create_loop k preallocate [] global regions s = (s, Inr regions)"
| "create_loop k preallocate (entry # entries) global regions s =
     (case open_beneath k (fe_path entry) s of
        (s1, Inl e) \<Rightarrow> (s1, Inl e)
      | (s1, Inr file) \<Rightarrow>
          (case (if preallocate \<and> fe_length entry > 0 then claim_blocks k file (fe_length entry) s1 else (s1, Inr ())) of
             (s2, Inl e) \<Rightarrow> (s2, Inl e)
           | (s2, Inr _) \<Rightarrow>
               create_loop k preallocate entries (u64_add global (fe_length entry))
                 (regions @ [\<lparr>rg_file = file, rg_start = global, rg_length = fe_length entry\<rparr>]) s2))"

definition st_create :: "'s kernel \<Rightarrow> metainfo \<Rightarrow> bool \<Rightarrow> 's \<Rightarrow> 's \<times> (io_error + storage)" where
  "st_create k meta preallocate s =
     (case create_loop k preallocate (mi_files meta) 0 [] s of
        (s1, Inl e) \<Rightarrow> (s1, Inl e)
      | (s1, Inr regions) \<Rightarrow>
          (s1, Inr \<lparr>st_regions = regions, st_piece_length = mi_piece_length meta,
                     st_total_length = mi_total_length meta, st_hashes = mi_pieces meta\<rparr>))"

fun sync_regions :: "'s kernel \<Rightarrow> region list \<Rightarrow> 's \<Rightarrow> 's \<times> (io_error + unit)" where
  "sync_regions k [] s = (s, Inr ())"
| "sync_regions k (r # rs) s =
     (case k_sync k (rg_file r) s of (s1, Inl e) \<Rightarrow> (s1, Inl e) | (s1, Inr _) \<Rightarrow> sync_regions k rs s1)"

definition sync_all :: "'s kernel \<Rightarrow> storage \<Rightarrow> 's \<Rightarrow> 's \<times> (io_error + unit)" where
  "sync_all k st s = sync_regions k (st_regions st) s"

subsection \<open>The linear byte space\<close>

definition get_byte :: "bytes \<Rightarrow> nat \<Rightarrow> byte option" where
  "get_byte c i = (if i < length c then Some (c ! i) else None)"

text \<open>The byte at a global address, if a file holds one there.\<close>

fun byte_at :: "region list \<Rightarrow> disk \<Rightarrow> nat \<Rightarrow> byte option" where
  "byte_at [] disk x = None"
| "byte_at (r # rs) disk x =
     (if rg_start r \<le> x \<and> x < rg_start r + rg_length r then get_byte (disk (rg_file r)) (x - rg_start r)
      else byte_at rs disk x)"

fun tiles :: "nat \<Rightarrow> region list \<Rightarrow> nat \<Rightarrow> bool" where
  "tiles g [] t \<longleftrightarrow> g = t"
| "tiles g (r # rs) t \<longleftrightarrow> rg_start r = g \<and> tiles (g + rg_length r) rs t"

definition storage_wf :: "storage \<Rightarrow> bool" where
  "storage_wf st \<longleftrightarrow> tiles 0 (st_regions st) (st_total_length st) \<and> distinct (map rg_file (st_regions st)) \<and>
     st_total_length st \<le> u64_max"

text \<open>What a write may do to an address it is not about: nothing, or turn a hole into a zero.\<close>

definition keeps :: "byte option \<Rightarrow> byte option \<Rightarrow> bool" where
  "keeps a b \<longleftrightarrow> b = a \<or> (a = None \<and> b = Some 0)"

lemma keeps_refl [simp]: "keeps a a"
  by (simp add: keeps_def)

lemma get_byte_pwrite:
  "get_byte (pwrite c off d) i =
     (if off \<le> i \<and> i < off + length d then Some (d ! (i - off))
      else if d \<noteq> [] \<and> length c \<le> i \<and> i < off then Some 0 else get_byte c i)"
  by (auto simp: get_byte_def pwrite_def nth_append min_def)

lemma get_byte_None [simp]: "get_byte c i = None \<longleftrightarrow> length c \<le> i"
  by (simp add: get_byte_def)

lemma tiles_le: "tiles g rs t \<Longrightarrow> g \<le> t"
  by (induction rs arbitrary: g) fastforce+

lemma byte_at_below: "tiles g rs t \<Longrightarrow> x < g \<Longrightarrow> byte_at rs disk x = None"
  by (induction rs arbitrary: g) auto

lemma byte_at_cong: "\<forall>r \<in> set rs. disk (rg_file r) = disk' (rg_file r) \<Longrightarrow> byte_at rs disk x = byte_at rs disk' x"
  by (induction rs) auto

lemma length_byte_range: "b \<le> length xs \<Longrightarrow> length (byte_range (a, b) xs) = b - a"
  by (simp add: byte_range_def)

lemma nth_byte_range: "b \<le> length xs \<Longrightarrow> i < b - a \<Longrightarrow> byte_range (a, b) xs ! i = xs ! (a + i)"
  by (simp add: byte_range_def)

text \<open>The part of a request that falls into one region.\<close>

lemma segment_step:
  assumes "tiles g (r # rs) t" and "t \<le> u64_max"
  shows "segment_loop oper gs e (r # rs) s =
    (let lo = max gs g; hi = min e (g + rg_length r) in
     if lo \<ge> hi then segment_loop oper gs e rs s
     else case oper (rg_file r) (lo - g) (lo - gs, hi - gs) s of
       (s', Inl er) \<Rightarrow> (s', Inl er) | (s', Inr _) \<Rightarrow> segment_loop oper gs e rs s')"
proof -
  have "g + rg_length r \<le> t" using assms(1) tiles_le by auto
  then have "u64_add (rg_start r) (rg_length r) = g + rg_length r"
    using assms by (simp add: u64_add_def u64_max_def)
  then show ?thesis using assms(1) by (auto simp: Let_def max_def min_def split: sum.splits prod.splits)
qed

definition write_op :: "faults \<Rightarrow> bytes \<Rightarrow> nat \<Rightarrow> nat \<Rightarrow> nat \<times> nat \<Rightarrow> disk \<Rightarrow> disk io" where
  "write_op flt data = (\<lambda>file off seg. write_all_at flt file off (byte_range seg data))"

lemma write_op_region:
  assumes "write_op flt data f (lo - g) (lo - gs, hi - gs) disk = (disk', res)"
    and "gs \<le> lo" "g \<le> lo" "lo < hi" "hi \<le> gs + length data"
  shows "\<forall>f'. f' \<noteq> f \<longrightarrow> disk' f' = disk f'"
    and "g \<le> x \<Longrightarrow> \<not> (lo \<le> x \<and> x < hi) \<Longrightarrow> keeps (get_byte (disk f) (x - g)) (get_byte (disk' f) (x - g))"
    and "res = Inr () \<Longrightarrow> lo \<le> x \<Longrightarrow> x < hi \<Longrightarrow> get_byte (disk' f) (x - g) = Some (data ! (x - gs))"
    and "flt = (\<lambda>_ _ _. None) \<Longrightarrow> res = Inr ()"
proof -
  let ?d = "byte_range (lo - gs, hi - gs) data"
  have len: "length ?d = hi - lo" using assms by (simp add: length_byte_range)
  obtain k where k: "disk' = disk(f := pwrite (disk f) (lo - g) (take k ?d))"
    using assms(1) by (auto simp: write_op_def write_all_at_def split: option.splits intro: that [of "length ?d"])
  show "\<forall>f'. f' \<noteq> f \<longrightarrow> disk' f' = disk f'" using k by simp
  show "keeps (get_byte (disk f) (x - g)) (get_byte (disk' f) (x - g))" if "g \<le> x" "\<not> (lo \<le> x \<and> x < hi)"
    using that assms(2-4) by (auto simp: k get_byte_pwrite len keeps_def)
  show "get_byte (disk' f) (x - g) = Some (data ! (x - gs))" if "res = Inr ()" "lo \<le> x" "x < hi"
  proof -
    have "disk' = disk(f := pwrite (disk f) (lo - g) ?d)"
      using assms(1) that(1) by (auto simp: write_op_def write_all_at_def split: option.splits)
    moreover have "?d ! (x - lo) = data ! (x - gs)"
      using that assms by (subst nth_byte_range) auto
    moreover have "lo - g \<le> x - g" "x - g < lo - g + length ?d" "x - g - (lo - g) = x - lo"
      using that assms(2-4) len by auto
    ultimately show ?thesis by (simp add: get_byte_pwrite)
  qed
  show "res = Inr ()" if "flt = (\<lambda>_ _ _. None)"
    using assms(1) that by (simp add: write_op_def write_all_at_def)
qed

lemma write_segments:
  assumes "tiles g rs t" "distinct (map rg_file rs)" "t \<le> u64_max"
    and "segment_loop (write_op flt data) gs (gs + length data) rs disk = (disk', res)"
  shows "(\<forall>f. f \<notin> rg_file ` set rs \<longrightarrow> disk' f = disk f) \<and>
    (\<forall>x. x \<notin> {gs..<gs + length data} \<longrightarrow> keeps (byte_at rs disk x) (byte_at rs disk' x)) \<and>
    (\<forall>x \<in> {gs..<gs + length data}. res = Inr () \<longrightarrow> g \<le> x \<longrightarrow> x < t \<longrightarrow> byte_at rs disk' x = Some (data ! (x - gs))) \<and>
    (flt = (\<lambda>_ _ _. None) \<longrightarrow> res = Inr ())"
  using assms
proof (induction rs arbitrary: g disk)
  case (Cons r rs)
  let ?e = "gs + length data"
  let ?lo = "max gs g" and ?hi = "min ?e (g + rg_length r)"
  have tl: "tiles (g + rg_length r) rs t" "distinct (map rg_file rs)" "rg_start r = g" "rg_file r \<notin> rg_file ` set rs"
    using Cons.prems by auto
  show ?case
  proof (cases "?lo \<ge> ?hi")
    case True
    then have "segment_loop (write_op flt data) gs ?e rs disk = (disk', res)"
      using Cons.prems(4) unfolding segment_step [OF Cons.prems(1,3)] by (simp add: Let_def)
    note IH = Cons.IH [OF tl(1,2) Cons.prems(3) this]
    then have "disk' (rg_file r) = disk (rg_file r)" using tl(4) by blast
    then show ?thesis using IH True tl by auto
  next
    case False
    obtain d1 r1 where op: "write_op flt data (rg_file r) (?lo - g) (?lo - gs, ?hi - gs) disk = (d1, r1)"
      by (cases "write_op flt data (rg_file r) (?lo - g) (?lo - gs, ?hi - gs) disk")
    have b: "gs \<le> ?lo" "g \<le> ?lo" "?lo < ?hi" "?hi \<le> ?e" using False by auto
    note w = write_op_region [OF op b]
    have same: "byte_at rs d1 x = byte_at rs disk x" for x
    proof (rule byte_at_cong, rule ballI)
      fix q assume "q \<in> set rs"
      then have "rg_file q \<noteq> rg_file r" using tl(4) by (metis image_eqI)
      then show "d1 (rg_file q) = disk (rg_file q)" using w(1) by blast
    qed
    show ?thesis
    proof (cases r1)
      case (Inl er)
      then have "disk' = d1" "res = Inl er"
        using Cons.prems(4) op False unfolding segment_step [OF Cons.prems(1,3)] by (auto simp: Let_def)
      then show ?thesis using w Inl same tl by auto
    next
      case (Inr u)
      then have "segment_loop (write_op flt data) gs ?e rs d1 = (disk', res)"
        using Cons.prems(4) op False unfolding segment_step [OF Cons.prems(1,3)] by (simp add: Let_def)
      note IH = Cons.IH [OF tl(1,2) Cons.prems(3) this]
      then have f: "disk' (rg_file r) = d1 (rg_file r)" using tl(4) by blast
      have "r1 = Inr ()" using Inr by simp
      then show ?thesis using IH w f same tl by auto
    qed
  qed
qed simp

definition read_op :: "faults \<Rightarrow> disk \<Rightarrow> nat \<Rightarrow> nat \<Rightarrow> nat \<times> nat \<Rightarrow> bytes \<Rightarrow> bytes io" where
  "read_op flt disk = (\<lambda>file off seg. read_exact_at flt disk file off (fst seg) (snd seg - fst seg))"

abbreviation no_faults :: faults where "no_faults \<equiv> (\<lambda>_ _ _. None)"

lemma nth_copy_at:
  "lo + length d \<le> length out \<Longrightarrow> i < length out \<Longrightarrow>
     copy_at lo d out ! i = (if lo \<le> i \<and> i < lo + length d then d ! (i - lo) else out ! i)"
  by (auto simp: copy_at_def nth_append min_def)

lemma read_op_region:
  assumes "read_op flt disk f (lo - g) (lo - gs, hi - gs) out = (out', res)"
    and "gs \<le> lo" "g \<le> lo" "lo < hi" "hi \<le> gs + length out"
  shows "length out' = length out"
    and "res = Inr () \<Longrightarrow> gs \<le> x \<Longrightarrow> x < gs + length out \<Longrightarrow>
      (if lo \<le> x \<and> x < hi then get_byte (disk f) (x - g) = Some (out' ! (x - gs)) else out' ! (x - gs) = out ! (x - gs))"
    and "flt = no_faults \<Longrightarrow> res = Inr () \<or> res = Inl UnexpectedEof \<and> get_byte (disk f) (hi - 1 - g) = None"
proof -
  let ?n = "hi - gs - (lo - gs)"
  have n: "?n = hi - lo" "lo - g + ?n = hi - g" using assms by auto
  have ok: "out' = copy_at (lo - gs) (take ?n (drop (lo - g) (disk f))) out \<and> hi - g \<le> length (disk f)" if "res = Inr ()"
    using assms(1) that n by (auto simp: read_op_def read_exact_at_def split: option.splits if_splits)
  have err: "out' = out" if "res \<noteq> Inr ()"
    using assms(1) that by (auto simp: read_op_def read_exact_at_def split: option.splits if_splits)
  have d: "length (take ?n (drop (lo - g) (disk f))) = hi - lo" if "hi - g \<le> length (disk f)"
    using that n assms(2-4) by simp
  show "length out' = length out"
  proof (cases "res = Inr ()")
    case True
    then show ?thesis using ok d assms(2-5) by simp
  qed (simp add: err)
  show "if lo \<le> x \<and> x < hi then get_byte (disk f) (x - g) = Some (out' ! (x - gs)) else out' ! (x - gs) = out ! (x - gs)"
    if r: "res = Inr ()" and x: "gs \<le> x" "x < gs + length out"
  proof -
    note o = ok [OF r] and d = d [OF conjunct2 [OF ok [OF r]]]
    have in_: "lo - gs \<le> x - gs \<and> x - gs < lo - gs + (hi - lo) \<longleftrightarrow> lo \<le> x \<and> x < hi"
      using x assms(2-4) by auto
    have "copy_at (lo - gs) (take ?n (drop (lo - g) (disk f))) out ! (x - gs) =
        (if lo \<le> x \<and> x < hi then take ?n (drop (lo - g) (disk f)) ! (x - lo) else out ! (x - gs))"
      using x assms(2-5) d in_ by (subst nth_copy_at) auto
    moreover have "take ?n (drop (lo - g) (disk f)) ! (x - lo) = disk f ! (x - g)" "x - g < length (disk f)"
      if "lo \<le> x \<and> x < hi" using that n o assms(2-4) by auto
    ultimately show ?thesis using o by (simp add: get_byte_def)
  qed
  show "res = Inr () \<or> res = Inl UnexpectedEof \<and> get_byte (disk f) (hi - 1 - g) = None" if "flt = no_faults"
    using assms(1,3,4) that n by (auto simp: read_op_def read_exact_at_def split: if_splits)
qed

lemma read_segments:
  assumes "tiles g rs t" "t \<le> u64_max"
    and "segment_loop (read_op flt disk) gs (gs + length out) rs out = (out', res)"
  shows "length out' = length out \<and>
    (res = Inr () \<longrightarrow> (\<forall>x \<in> {gs..<gs + length out}.
       (g \<le> x \<and> x < t \<longrightarrow> byte_at rs disk x = Some (out' ! (x - gs))) \<and> (x < g \<longrightarrow> out' ! (x - gs) = out ! (x - gs)))) \<and>
    (flt = no_faults \<longrightarrow> res = Inr () \<or>
       res = Inl UnexpectedEof \<and> (\<exists>x \<in> {gs..<gs + length out}. g \<le> x \<and> x < t \<and> byte_at rs disk x = None))"
  using assms
proof (induction rs arbitrary: g out)
  case (Cons r rs)
  let ?e = "gs + length out"
  let ?lo = "max gs g" and ?hi = "min ?e (g + rg_length r)"
  have tl: "tiles (g + rg_length r) rs t" "rg_start r = g" "g + rg_length r \<le> t"
    using Cons.prems tiles_le by auto
  show ?case
  proof (cases "?lo \<ge> ?hi")
    case True
    then have "segment_loop (read_op flt disk) gs ?e rs out = (out', res)"
      using Cons.prems(3) unfolding segment_step [OF Cons.prems(1,2)] by (simp add: Let_def)
    note IH = Cons.IH [OF tl(1) Cons.prems(2) this]
    have side: "x < g \<or> g + rg_length r \<le> x" if "x \<in> {gs..<?e}" for x using True that by auto
    have x: "(g \<le> x \<and> x < t \<longrightarrow> byte_at (r # rs) disk x = Some (out' ! (x - gs))) \<and> (x < g \<longrightarrow> out' ! (x - gs) = out ! (x - gs))"
      if "res = Inr ()" "x \<in> {gs..<?e}" for x
      using IH that side [OF that(2)] tl by auto
    have none: "\<exists>y \<in> {gs..<?e}. g \<le> y \<and> y < t \<and> byte_at (r # rs) disk y = None"
      if "x \<in> {gs..<?e}" "g + rg_length r \<le> x" "x < t" "byte_at rs disk x = None" for x
      using that tl by (intro bexI [of _ x]) auto
    show ?thesis using IH x none by (auto simp del: byte_at.simps)
  next
    case False
    obtain o1 r1 where op: "read_op flt disk (rg_file r) (?lo - g) (?lo - gs, ?hi - gs) out = (o1, r1)"
      by (cases "read_op flt disk (rg_file r) (?lo - g) (?lo - gs, ?hi - gs) out")
    have b: "gs \<le> ?lo" "g \<le> ?lo" "?lo < ?hi" "?hi \<le> ?e" using False by auto
    note w = read_op_region [OF op b]
    show ?thesis
    proof (cases r1)
      case (Inl er)
      then have "out' = o1" "res = Inl er"
        using Cons.prems(3) op False unfolding segment_step [OF Cons.prems(1,2)] by (auto simp: Let_def)
      moreover have hi: "gs \<le> ?hi - 1" "?hi - 1 < ?e" "g \<le> ?hi - 1" "?hi - 1 < g + rg_length r"
        using b min.cobounded2 [of ?e "g + rg_length r"] by linarith+
      then have "\<exists>x \<in> {gs..<?e}. g \<le> x \<and> x < t \<and> byte_at (r # rs) disk x = None"
        if "get_byte (disk (rg_file r)) (?hi - 1 - g) = None"
        using that tl by (intro bexI [of _ "?hi - 1"]) (simp_all del: get_byte_None)
      ultimately show ?thesis using w Inl by (auto simp del: byte_at.simps get_byte_None)
    next
      case (Inr u)
      then have r1: "r1 = Inr ()" by simp
      have "segment_loop (read_op flt disk) gs (gs + length o1) rs o1 = (out', res)"
        using Cons.prems(3) op False r1 w(1) unfolding segment_step [OF Cons.prems(1,2)] by (simp add: Let_def)
      note IH = Cons.IH [OF tl(1) Cons.prems(2) this, unfolded w(1)]
      have x: "(g \<le> x \<and> x < t \<longrightarrow> byte_at (r # rs) disk x = Some (out' ! (x - gs))) \<and> (x < g \<longrightarrow> out' ! (x - gs) = out ! (x - gs))"
        if "res = Inr ()" "x \<in> {gs..<?e}" for x
        using IH that w(2) [OF r1, of x] tl by (cases "x < g + rg_length r") auto
      have none: "\<exists>y \<in> {gs..<?e}. g \<le> y \<and> y < t \<and> byte_at (r # rs) disk y = None"
        if "x \<in> {gs..<?e}" "g + rg_length r \<le> x" "x < t" "byte_at rs disk x = None" for x
        using that tl by (intro bexI [of _ x]) auto
      show ?thesis using IH x none by (auto simp del: byte_at.simps)
    qed
  qed
qed auto

subsection \<open>Reads and writes on the byte space\<close>

abbreviation st_byte :: "storage \<Rightarrow> disk \<Rightarrow> nat \<Rightarrow> byte option" where
  "st_byte st \<equiv> byte_at (st_regions st)"

abbreviation block_range :: "storage \<Rightarrow> nat \<Rightarrow> nat \<Rightarrow> nat \<Rightarrow> nat set" where
  "block_range st index begn len \<equiv> {block_start st index begn..<block_start st index begn + len}"

lemma check_range_eq:
  "storage_wf st \<Longrightarrow> check_range st s len =
     (if s + len \<le> st_total_length st then Inr (s + len) else Inl (InvalidInput ''storage: range outside torrent''))"
  by (auto simp: check_range_def checked_u64_def storage_wf_def)

lemma write_block_eq:
  assumes "storage_wf st"
  shows "write_block flt st index begn data disk =
    (let s = block_start st index begn in
     if s + length data \<le> st_total_length st
     then if data = [] then (disk, Inr ()) else segment_loop (write_op flt data) s (s + length data) (st_regions st) disk
     else (disk, Inl (InvalidInput ''storage: range outside torrent'')))"
  using check_range_eq [OF assms] by (simp add: write_block_def for_each_segment_def write_op_def Let_def)

lemma write_block_facts:
  assumes "storage_wf st" and "write_block flt st index begn data disk = (disk', res)"
  shows "st_total_length st < block_start st index begn + length data \<longrightarrow>
      disk' = disk \<and> res = Inl (InvalidInput ''storage: range outside torrent'')" (is ?A)
    and "x \<notin> block_range st index begn (length data) \<Longrightarrow> keeps (st_byte st disk x) (st_byte st disk' x)"
    and "res = Inr () \<Longrightarrow> x \<in> block_range st index begn (length data) \<Longrightarrow>
      st_byte st disk' x = Some (data ! (x - block_start st index begn))"
    and "flt = no_faults \<Longrightarrow> block_start st index begn + length data \<le> st_total_length st \<Longrightarrow> res = Inr ()"
proof -
  let ?s = "block_start st index begn"
  note eq = assms(2) [unfolded write_block_eq [OF assms(1)] Let_def]
  have "?A \<and> (\<forall>x. x \<notin> {?s..<?s + length data} \<longrightarrow> keeps (st_byte st disk x) (st_byte st disk' x)) \<and>
    (\<forall>x \<in> {?s..<?s + length data}. res = Inr () \<longrightarrow> st_byte st disk' x = Some (data ! (x - ?s))) \<and>
    (flt = no_faults \<longrightarrow> ?s + length data \<le> st_total_length st \<longrightarrow> res = Inr ())"
  proof (cases "?s + length data \<le> st_total_length st \<and> data \<noteq> []")
    case True
    then have "segment_loop (write_op flt data) ?s (?s + length data) (st_regions st) disk = (disk', res)"
      using eq by simp
    then show ?thesis
      using write_segments [of 0 "st_regions st" "st_total_length st" flt data ?s disk disk' res] assms(1) True
      by (auto simp: storage_wf_def)
  next
    case False
    then show ?thesis using eq by (auto split: if_splits)
  qed
  then show ?A "x \<notin> {?s..<?s + length data} \<Longrightarrow> keeps (st_byte st disk x) (st_byte st disk' x)"
    "res = Inr () \<Longrightarrow> x \<in> {?s..<?s + length data} \<Longrightarrow> st_byte st disk' x = Some (data ! (x - ?s))"
    "flt = no_faults \<Longrightarrow> ?s + length data \<le> st_total_length st \<Longrightarrow> res = Inr ()" by blast+
qed

text \<open>Reading is exact: the bytes of the space, or the reason why they cannot be had.\<close>

lemma read_block_into_facts:
  assumes "storage_wf st" and "read_block_into flt disk st index begn len buf = (out, res)"
  shows "res = Inr () \<Longrightarrow> block_start st index begn + len \<le> st_total_length st \<and> length out = len \<and>
      (\<forall>x \<in> block_range st index begn len. st_byte st disk x = Some (out ! (x - block_start st index begn)))"
    and "flt = no_faults \<Longrightarrow> res =
      (if st_total_length st < block_start st index begn + len then Inl (InvalidInput ''storage: range outside torrent'')
       else if \<forall>x \<in> block_range st index begn len. st_byte st disk x \<noteq> None then Inr () else Inl UnexpectedEof)"
proof -
  let ?s = "block_start st index begn"
  have eq: "(if ?s + len \<le> st_total_length st
       then if len = 0 then ([], Inr ()) else segment_loop (read_op flt disk) ?s (?s + len) (st_regions st) (replicate len 0)
       else (buf, Inl (InvalidInput ''storage: range outside torrent''))) = (out, res)"
    using assms(2) check_range_eq [OF assms(1), of ?s len]
    by (auto simp: read_block_into_def for_each_segment_def read_op_def split: if_splits)
  have "(res = Inr () \<longrightarrow> ?s + len \<le> st_total_length st \<and> length out = len \<and>
      (\<forall>x \<in> {?s..<?s + len}. st_byte st disk x = Some (out ! (x - ?s)))) \<and>
    (flt = no_faults \<longrightarrow> res =
      (if st_total_length st < ?s + len then Inl (InvalidInput ''storage: range outside torrent'')
       else if \<forall>x \<in> {?s..<?s + len}. st_byte st disk x \<noteq> None then Inr () else Inl UnexpectedEof))"
  proof (cases "?s + len \<le> st_total_length st \<and> len \<noteq> 0")
    case True
    then have "segment_loop (read_op flt disk) ?s (?s + length (replicate len (0::byte))) (st_regions st) (replicate len 0) = (out, res)"
      using eq by simp
    note r = read_segments [OF _ _ this, of 0 "st_total_length st"]
    have "length out = len" "res = Inr () \<Longrightarrow> \<forall>x \<in> {?s..<?s + len}. st_byte st disk x = Some (out ! (x - ?s))"
      "flt = no_faults \<Longrightarrow> res = Inr () \<or> res = Inl UnexpectedEof \<and> (\<exists>x \<in> {?s..<?s + len}. st_byte st disk x = None)"
      using r assms(1) True by (auto simp: storage_wf_def)
    then show ?thesis using True by fastforce
  next
    case False
    then show ?thesis using eq by (auto split: if_splits)
  qed
  then show "res = Inr () \<Longrightarrow> ?s + len \<le> st_total_length st \<and> length out = len \<and>
      (\<forall>x \<in> {?s..<?s + len}. st_byte st disk x = Some (out ! (x - ?s)))"
    "flt = no_faults \<Longrightarrow> res =
      (if st_total_length st < ?s + len then Inl (InvalidInput ''storage: range outside torrent'')
       else if \<forall>x \<in> {?s..<?s + len}. st_byte st disk x \<noteq> None then Inr () else Inl UnexpectedEof)" by blast+
qed

definition space_bytes :: "storage \<Rightarrow> disk \<Rightarrow> nat \<Rightarrow> nat \<Rightarrow> bytes" where
  "space_bytes st disk s len = map (\<lambda>x. the (st_byte st disk x)) [s..<s + len]"

definition present :: "storage \<Rightarrow> disk \<Rightarrow> nat \<Rightarrow> nat \<Rightarrow> bool" where
  "present st disk s len \<longleftrightarrow> (\<forall>x \<in> {s..<s + len}. st_byte st disk x \<noteq> None)"

lemma read_block_into_bytes:
  assumes "storage_wf st" and "read_block_into flt disk st index begn len buf = (out, Inr ())"
  shows "out = space_bytes st disk (block_start st index begn) len"
  using read_block_into_facts(1) [OF assms refl] by (intro nth_equalityI) (auto simp: space_bytes_def)

lemma read_block_exact:
  assumes "storage_wf st"
  shows "read_block no_faults disk st index begn len =
    (if st_total_length st < block_start st index begn + len then Inl (InvalidInput ''storage: range outside torrent'')
     else if present st disk (block_start st index begn) len
     then Inr (space_bytes st disk (block_start st index begn) len) else Inl UnexpectedEof)"
proof -
  obtain out res where r: "read_block_into no_faults disk st index begn len [] = (out, res)" by fastforce
  show ?thesis
    using read_block_into_facts(2) [OF assms r refl] read_block_into_bytes [OF assms, of no_faults disk index begn len "[]" out] r
    by (auto simp: read_block_def present_def)
qed

text \<open>C37. Storage is one linear byte space however the torrent is cut into files. A write outside the
  torrent is refused and changes nothing. Otherwise, whatever the operating system reports,
  bytes outside the block keep their value (at most a hole becomes a zero); when the write
  reports success the block holds exactly the data, across every file it straddles; and if the
  system reports no error the write succeeds.\<close>

theorem write_block_refines_space:
  assumes "storage_wf st" and "write_block flt st index begn data disk = (disk', res)"
  shows "(st_total_length st < block_start st index begn + length data \<longrightarrow>
      disk' = disk \<and> res = Inl (InvalidInput ''storage: range outside torrent'')) \<and>
    (\<forall>x. x \<notin> block_range st index begn (length data) \<longrightarrow> keeps (st_byte st disk x) (st_byte st disk' x)) \<and>
    (res = Inr () \<longrightarrow> (\<forall>x \<in> block_range st index begn (length data).
       st_byte st disk' x = Some (data ! (x - block_start st index begn)))) \<and>
    (flt = no_faults \<and> block_start st index begn + length data \<le> st_total_length st \<longrightarrow> res = Inr ())"
  using write_block_facts [OF assms] by blast

text \<open>Two files of two and three bytes, in pieces of four.\<close>

definition sample_storage :: storage where
  "sample_storage = \<lparr>st_regions = [\<lparr>rg_file = 0, rg_start = 0, rg_length = 2\<rparr>, \<lparr>rg_file = 1, rg_start = 2, rg_length = 3\<rparr>],
     st_piece_length = 4, st_total_length = 5, st_hashes = [[10], [5]]\<rparr>"

lemma sample_storage_wf: "storage_wf sample_storage"
  by (simp add: storage_wf_def sample_storage_def u64_max_def)

theorem write_block_refines_space_witness:
  "\<exists>disk' res. write_block no_faults sample_storage 0 1 [7, 8] (\<lambda>_. []) = (disk', res) \<and> res = Inr () \<and>
     st_byte sample_storage disk' 2 = Some 8"
proof -
  obtain disk' res where w: "write_block no_faults sample_storage 0 1 [7, 8] (\<lambda>_. []) = (disk', res)" by fastforce
  have s: "block_start sample_storage 0 1 = 1" "st_total_length sample_storage = 5"
    by (simp_all add: block_start_def sample_storage_def)
  from write_block_refines_space [OF sample_storage_wf w] show ?thesis
    using w unfolding s by (intro exI [of _ disk'] exI [of _ res]) auto
qed

lemma space_bytes_nth [simp]: "i < len \<Longrightarrow> space_bytes st disk s len ! i = the (st_byte st disk (s + i))"
  and length_space_bytes [simp]: "length (space_bytes st disk s len) = len"
  by (simp_all add: space_bytes_def)

text \<open>What was written is read back, and a write never disturbs another block: after a
  successful write the same block reads as the data, and any block disjoint from it that
  could be read before reads the same bytes after.\<close>

theorem storage_read_back:
  assumes "storage_wf st" and "write_block flt st index begn data disk = (disk', Inr ())"
  shows "read_block no_faults disk' st index begn (length data) = Inr data \<and>
    (\<forall>index' begn' len' old.
       block_range st index' begn' len' \<inter> block_range st index begn (length data) = {} \<longrightarrow>
       read_block no_faults disk st index' begn' len' = Inr old \<longrightarrow>
       read_block no_faults disk' st index' begn' len' = Inr old)"
proof -
  let ?s = "block_start st index begn"
  note w = write_block_facts [OF assms]
  have fit: "?s + length data \<le> st_total_length st" using w(1) by (metis Inl_Inr_False not_le)
  have "present st disk' ?s (length data)" using w(3) [OF refl] by (auto simp: present_def)
  moreover have "space_bytes st disk' ?s (length data) = data"
    using w(3) [OF refl] by (intro nth_equalityI) auto
  ultimately have "read_block no_faults disk' st index begn (length data) = Inr data"
    using fit by (simp add: read_block_exact [OF assms(1)])
  moreover have "read_block no_faults disk' st i' b' l' = Inr old"
    if d: "block_range st i' b' l' \<inter> block_range st index begn (length data) = {}"
      and r: "read_block no_faults disk st i' b' l' = Inr old" for i' b' l' old
  proof -
    let ?t = "block_start st i' b'"
    have old: "?t + l' \<le> st_total_length st" "present st disk ?t l'" "old = space_bytes st disk ?t l'"
      using r by (auto simp: read_block_exact [OF assms(1)] split: if_splits)
    have "st_byte st disk' x = st_byte st disk x" if "x \<in> {?t..<?t + l'}" for x
    proof -
      have "keeps (st_byte st disk x) (st_byte st disk' x)" using w(2) [of x] d that by blast
      moreover have "st_byte st disk x \<noteq> None" using old(2) that unfolding present_def by blast
      ultimately show ?thesis by (simp add: keeps_def)
    qed
    then have "present st disk' ?t l'" "space_bytes st disk' ?t l' = old"
      using old by (auto simp: present_def space_bytes_def)
    then show ?thesis using old(1) by (simp add: read_block_exact [OF assms(1)])
  qed
  ultimately show ?thesis by blast
qed

theorem storage_read_back_witness:
  "\<exists>disk'. write_block no_faults sample_storage 0 1 [7, 8] (\<lambda>_. []) = (disk', Inr ()) \<and>
     read_block no_faults disk' sample_storage 0 1 2 = Inr [7, 8]"
proof -
  obtain disk' res where w: "write_block no_faults sample_storage 0 1 [7, 8] (\<lambda>_. []) = (disk', res)" by fastforce
  moreover have "res = Inr ()"
    using write_block_facts(4) [OF sample_storage_wf w] by (simp add: block_start_def sample_storage_def)
  ultimately have "write_block no_faults sample_storage 0 1 [7, 8] (\<lambda>_. []) = (disk', Inr ())" by simp
  moreover from this have "read_block no_faults disk' sample_storage 0 1 (length [7 :: byte, 8]) = Inr [7, 8]"
    by (rule conjunct1 [OF storage_read_back [OF sample_storage_wf]])
  ultimately show ?thesis by (auto simp: numeral_2_eq_2)
qed

subsection \<open>Verification is exact\<close>

definition piece_ok :: "(bytes \<Rightarrow> bytes) \<Rightarrow> disk \<Rightarrow> storage \<Rightarrow> nat \<Rightarrow> bool" where
  "piece_ok sha1 disk st i \<longleftrightarrow>
     (let s = i * st_piece_length st; len = st_piece_len st i in
      0 < len \<and> i < length (st_hashes st) \<and> present st disk s len \<and> sha1 (space_bytes st disk s len) = st_hashes st ! i)"

lemma st_piece_len_fits: "st_piece_len st i \<noteq> 0 \<Longrightarrow> i * st_piece_length st + st_piece_len st i \<le> st_total_length st"
  by (auto simp: st_piece_len_def u32_clamp_def Let_def split: if_splits)

lemma space_bytes_append: "space_bytes st disk s (a + b) = space_bytes st disk s a @ space_bytes st disk (s + a) b"
proof -
  have "[s..<s + (a + b)] = [s..<s + a] @ [s + a..<s + a + b]"
    by (metis add.assoc le_add1 upt_add_eq_append)
  then show ?thesis by (simp add: space_bytes_def)
qed

lemma present_append: "present st disk s (a + b) \<longleftrightarrow> present st disk s a \<and> present st disk (s + a) b"
proof -
  have "{s..<s + (a + b)} = {s..<s + a} \<union> {s + a..<s + a + b}" by auto
  then show ?thesis by (auto simp: present_def)
qed

text \<open>Hashing chunk by chunk feeds exactly the bytes of the piece.\<close>

lemma hash_loop_exact:
  assumes "storage_wf st" and "i * st_piece_length st + len \<le> st_total_length st"
  shows "done \<le> len \<Longrightarrow> present st disk (i * st_piece_length st) done \<Longrightarrow>
    snd (hash_loop no_faults disk st i len done (space_bytes st disk (i * st_piece_length st) done) scratch) =
    (if present st disk (i * st_piece_length st) len then Inr (Some (space_bytes st disk (i * st_piece_length st) len)) else Inr None)"
proof (induction "len - done" arbitrary: "done" scratch rule: less_induct)
  case less
  let ?s = "i * st_piece_length st"
  let ?h = "space_bytes st disk ?s done"
  show ?case
  proof (cases "done < len")
    case False
    then have "done = len" using less.prems by simp
    then show ?thesis using less.prems by (simp add: hash_loop.simps)
  next
    case True
    define chunk where "chunk = min (len - done) VERIFY_CHUNK"
    have c: "0 < chunk" "done + chunk \<le> len" using True by (auto simp: chunk_def VERIFY_CHUNK_def BLOCK_LEN_def)
    obtain out res where r: "read_block_into no_faults disk st i done chunk scratch = (out, res)" by fastforce
    have bs: "block_start st i done = ?s + done" by (simp add: block_start_def)
    have res: "res = (if present st disk (?s + done) chunk then Inr () else Inl UnexpectedEof)"
      using read_block_into_facts(2) [OF assms(1) r refl] c(2) assms(2) by (simp add: bs present_def)
    show ?thesis
    proof (cases "present st disk (?s + done) chunk")
      case p: True
      have out: "out = space_bytes st disk (?s + done) chunk"
        using read_block_into_bytes [OF assms(1), of no_faults disk i "done" chunk scratch out] r res p by (simp add: bs)
      have step: "hash_loop no_faults disk st i len done ?h scratch =
          hash_loop no_faults disk st i len (done + chunk) (space_bytes st disk ?s (done + chunk)) out"
        using True r res p out by (subst hash_loop.simps) (simp add: Let_def chunk_def [symmetric] space_bytes_append)
      show ?thesis unfolding step
        using less.hyps [of "done + chunk" out] c True p less.prems by (simp add: present_append)
    next
      case False
      have "\<not> present st disk ?s len"
        using False c(2) present_append [of st disk ?s "done + chunk" "len - (done + chunk)"] by (auto simp: present_append)
      moreover have "snd (hash_loop no_faults disk st i len done ?h scratch) = Inr None"
        using True r res False by (subst hash_loop.simps) (simp add: Let_def chunk_def [symmetric])
      ultimately show ?thesis by simp
    qed
  qed
qed

lemma verify_piece_into_exact:
  assumes "storage_wf st"
  shows "snd (verify_piece_into sha1 no_faults disk st i scratch) = Inr (piece_ok sha1 disk st i)"
proof (cases "st_piece_len st i = 0 \<or> \<not> i < length (st_hashes st)")
  case True
  then show ?thesis by (auto simp: verify_piece_into_def piece_ok_def Let_def)
next
  case False
  let ?len = "st_piece_len st i"
  have "snd (hash_loop no_faults disk st i ?len 0 [] scratch) =
      (if present st disk (i * st_piece_length st) ?len
       then Inr (Some (space_bytes st disk (i * st_piece_length st) ?len)) else Inr None)"
    using hash_loop_exact [OF assms, of i ?len 0 disk scratch] st_piece_len_fits [of st i] False
    by (simp add: present_def space_bytes_def)
  then show ?thesis using False
    by (cases "hash_loop no_faults disk st i ?len 0 [] scratch")
      (auto simp: verify_piece_into_def piece_ok_def Let_def split: if_splits)
qed

lemma verify_loop_exact:
  assumes "storage_wf st" and "bf_wf hv"
  shows "\<exists>bf. verify_loop sha1 no_faults disk st is scratch hv = Inr bf \<and> bf_wf bf \<and> bf_len bf = bf_len hv \<and>
    (\<forall>i. bf_has bf i \<longleftrightarrow> bf_has hv i \<or> i \<in> set is \<and> i < bf_len hv \<and> piece_ok sha1 disk st i)"
  using assms(2)
proof (induction "is" arbitrary: scratch hv)
  case (Cons i "is")
  obtain s' where v: "verify_piece_into sha1 no_faults disk st i scratch = (s', Inr (piece_ok sha1 disk st i))"
    using verify_piece_into_exact [OF assms(1), of sha1 disk i scratch] by (metis prod.collapse)
  let ?hv = "if piece_ok sha1 disk st i then bf_set hv i else hv"
  have wf: "bf_wf ?hv" using Cons.prems by (simp add: set_wf)
  show ?case using Cons.IH [OF wf, of s'] v Cons.prems by (auto simp: has_set)
qed simp

text \<open>C38. A full recheck is exact: with no I/O error, \<^verbatim>\<open>verify_all\<close> succeeds and marks exactly the
  pieces whose bytes are all on disk and hash to the expected value, even though it reads
  them block by block through one reused buffer; missing data is not an error.\<close>

theorem verify_all_exact:
  assumes "storage_wf st" and "length (st_hashes st) \<le> u32_max"
  shows "\<exists>bf. verify_all sha1 no_faults disk st = Inr bf \<and> bf_wf bf \<and> bf_len bf = length (st_hashes st) \<and>
    (\<forall>i. bf_has bf i \<longleftrightarrow> piece_ok sha1 disk st i)"
proof -
  let ?n = "length (st_hashes st)"
  have n: "st_num_pieces st = ?n" using assms(2) by (simp add: st_num_pieces_def)
  obtain bf where "verify_all sha1 no_faults disk st = Inr bf" "bf_wf bf" "bf_len bf = ?n"
      "\<forall>i. bf_has bf i \<longleftrightarrow> i \<in> set [0..<?n] \<and> i < ?n \<and> piece_ok sha1 disk st i"
    using verify_loop_exact [OF assms(1) empty_wf, of sha1 disk "[0..<?n]" "[]" ?n] n by (auto simp: verify_all_def)
  then show ?thesis by (intro exI [of _ bf]) (auto simp: piece_ok_def Let_def)
qed

theorem verify_all_exact_witness:
  "\<exists>bf. verify_all (\<lambda>b. [sum_list b]) no_faults (\<lambda>f. if f = 0 then [1, 2] else [3, 4]) sample_storage = Inr bf \<and>
     bf_has bf 0 \<and> \<not> bf_has bf 1"
proof -
  let ?d = "\<lambda>f :: nat. if f = 0 then [1, 2 :: byte] else [3, 4]"
  have "length (st_hashes sample_storage) \<le> u32_max" by (simp add: sample_storage_def u32_max_def)
  moreover have "piece_ok (\<lambda>b. [sum_list b]) ?d sample_storage 0" "\<not> piece_ok (\<lambda>b. [sum_list b]) ?d sample_storage 1"
    by code_simp+
  ultimately show ?thesis
    using verify_all_exact [OF sample_storage_wf, of "\<lambda>b. [sum_list b]" ?d] by blast
qed

subsection \<open>Where files are opened\<close>

text \<open>\<open>entry d c d'\<close> says that the descriptor \<open>d'\<close> was obtained as the entry named \<open>c\<close>, itself not a
  link, of the directory \<open>d\<close>.\<close>

fun descends :: "(nat \<Rightarrow> bytes \<Rightarrow> nat \<Rightarrow> bool) \<Rightarrow> nat \<Rightarrow> bytes list \<Rightarrow> nat \<Rightarrow> bool" where
  "descends entry d [] fd \<longleftrightarrow> fd = d"
| "descends entry d (c # cs) fd \<longleftrightarrow> (\<exists>d'. entry d c d' \<and> descends entry d' cs fd)"

lemma descends_snoc: "descends entry d (cs @ [c]) fd \<longleftrightarrow> (\<exists>d'. descends entry d cs d' \<and> entry d' c fd)"
  by (induction cs arbitrary: d) auto

definition nofollow :: "'s kernel \<Rightarrow> (nat \<Rightarrow> bool) \<Rightarrow> (nat \<Rightarrow> bytes \<Rightarrow> nat \<Rightarrow> bool) \<Rightarrow> bool" where
  "nofollow k root entry \<longleftrightarrow>
     (\<forall>s s' d. k_open_root k s = (s', Inr d) \<longrightarrow> root d) \<and>
     (\<forall>d c s s' d'. k_open_dir k d c s = (s', Inr d') \<longrightarrow> entry d c d') \<and>
     (\<forall>d c s s' d'. k_open_file k d c s = (s', Inr d') \<longrightarrow> entry d c d')"

lemma check_components_Inr: "check_components cs = Inr () \<longleftrightarrow> (\<forall>c \<in> set cs. st_check_component c = Inr ())"
  by (induction cs) (auto simp: bindE_Inr)

lemma check_components_Inl:
  "c \<in> set cs \<Longrightarrow> st_check_component c \<noteq> Inr () \<Longrightarrow> check_components cs = Inl (InvalidInput ''unsafe path component'')"
proof (induction cs)
  case (Cons a cs)
  then show ?case by (cases "st_check_component a") (auto simp: st_check_component_def split: if_splits)
qed simp

lemma walk_parents_descends:
  assumes "nofollow k root entry"
  shows "walk_parents k create cs d s = (s', Inr d') \<Longrightarrow> descends entry d cs d'"
proof (induction cs arbitrary: d s)
  case (Cons c cs)
  obtain s1 s2 d1 where o: "k_open_dir k d c s1 = (s2, Inr d1)" "walk_parents k create cs d1 s2 = (s', Inr d')"
    using Cons.prems by (auto simp: Let_def split: prod.splits sum.splits if_splits)
  then have "entry d c d1" using assms unfolding nofollow_def by blast
  then show ?case using Cons.IH [OF o(2)] by auto
qed simp

lemma walk_beneath_descends:
  assumes "nofollow k root entry" and "walk_beneath k cs create s = (s', Inr (d', name))"
  shows "cs \<noteq> [] \<and> check_components cs = Inr () \<and> name = last cs \<and> (\<exists>d. root d \<and> descends entry d (butlast cs) d')"
proof -
  obtain s1 s2 d where "k_open_root k s1 = (s2, Inr d)" "walk_parents k create (butlast cs) d s2 = (s', Inr d')"
      "cs \<noteq> []" "check_components cs = Inr ()" "name = last cs"
    using assms(2) by (auto simp: walk_beneath_def Let_def split: prod.splits sum.splits if_splits)
  moreover from this have "root d" using assms(1) unfolding nofollow_def by blast
  ultimately show ?thesis using walk_parents_descends [OF assms(1)] by blast
qed

text \<open>C39. Nothing a torrent names leads out of the download directory. Given that the kernel's
  no-follow opens answer an entry of the directory they are given, a file that is opened is
  reached from the root by exactly the torrent's components, each a real entry of the
  previous directory and none of them a separator, dot or empty name; and a path with an
  unsafe component is refused, on opening and on deletion, before any system call.\<close>

theorem open_beneath_confined:
  assumes "nofollow k root entry"
  shows "(\<forall>s s' fd. open_beneath k cs s = (s', Inr fd) \<longrightarrow> cs \<noteq> [] \<and>
      (\<forall>c \<in> set cs. st_check_component c = Inr ()) \<and> (\<exists>d. root d \<and> descends entry d cs fd)) \<and>
    (\<forall>s. (\<exists>c \<in> set cs. st_check_component c \<noteq> Inr ()) \<longrightarrow>
      open_beneath k cs s = (s, Inl (InvalidInput ''unsafe path component'')) \<and>
      remove_beneath k cs s = (s, Inl (InvalidInput ''unsafe path component'')))"
proof -
  have "cs \<noteq> [] \<and> check_components cs = Inr () \<and> (\<exists>d. root d \<and> descends entry d cs fd)"
    if o: "open_beneath k cs s = (s', Inr fd)" for s s' fd
  proof -
    obtain s1 d' name where w: "walk_beneath k cs True s = (s1, Inr (d', name))" "k_open_file k d' name s1 = (s', Inr fd)"
      using o by (auto simp: open_beneath_def split: prod.splits sum.splits)
    note wd = walk_beneath_descends [OF assms w(1)]
    then obtain d where d: "root d" "descends entry d (butlast cs) d'" by blast
    have "entry d' (last cs) fd" using assms w(2) wd unfolding nofollow_def by blast
    then have "descends entry d (butlast cs @ [last cs]) fd" using d(2) by (auto simp: descends_snoc)
    then show ?thesis using wd d(1) by auto
  qed
  moreover have "open_beneath k cs s = (s, Inl (InvalidInput ''unsafe path component'')) \<and>
      remove_beneath k cs s = (s, Inl (InvalidInput ''unsafe path component''))"
    if "\<exists>c \<in> set cs. st_check_component c \<noteq> Inr ()" for s
    using that check_components_Inl [of _ cs] by (auto simp: open_beneath_def remove_beneath_def walk_beneath_def)
  ultimately show ?thesis by (simp add: check_components_Inr)
qed

theorem open_beneath_confined_witness:
  "\<exists>k :: unit kernel. nofollow k (\<lambda>d. d = 3) (\<lambda>d c d'. d' = d + 1) \<and> open_beneath k [ascii ''a'', ascii ''b''] () = ((), Inr 5) \<and>
     (\<exists>d. d = 3 \<and> descends (\<lambda>d c d'. d' = d + 1) d [ascii ''a'', ascii ''b''] 5)"
proof -
  let ?k = "\<lparr>k_create_root = (\<lambda>s. (s, Inr ())), k_open_root = (\<lambda>s. (s, Inr 3)), k_mkdirat = (\<lambda>d c s. (s, Inl EEXIST)),
    k_open_dir = (\<lambda>d c s. (s, Inr (d + 1))), k_open_file = (\<lambda>d c s. (s, Inr (d + 1))), k_unlinkat = (\<lambda>d c s. (s, Inr ())),
    k_fallocate = (\<lambda>f n s. (s, Inr ())), k_set_len = (\<lambda>f n s. (s, Inr ())), k_sync = (\<lambda>f s. (s, Inr ()))\<rparr> :: unit kernel"
  have n: "nofollow ?k (\<lambda>d. d = 3) (\<lambda>d c d'. d' = d + 1)" by (simp add: nofollow_def)
  have o: "open_beneath ?k [ascii ''a'', ascii ''b''] () = ((), Inr 5)" by code_simp
  show ?thesis
    using open_beneath_confined [OF n, of "[ascii ''a'', ascii ''b'']"] n o by blast
qed

text \<open>A storage that \<^verbatim>\<open>create\<close> returns tiles the byte space with the torrent's files in order. A
  descriptor stands for its file: with distinct files the storage is well-formed.\<close>

lemma create_loop_tiles:
  "create_loop k pre es g rs s = (s', Inr rs') \<Longrightarrow> g + sum_list (map fe_length es) \<le> u64_max \<Longrightarrow>
     \<exists>new. rs' = rs @ new \<and> tiles g new (g + sum_list (map fe_length es)) \<and> map rg_length new = map fe_length es"
proof (induction es arbitrary: g rs s)
  case (Cons e es)
  obtain f s2 where f: "create_loop k pre es (u64_add g (fe_length e))
      (rs @ [\<lparr>rg_file = f, rg_start = g, rg_length = fe_length e\<rparr>]) s2 = (s', Inr rs')"
    using Cons.prems(1) by (auto split: prod.splits sum.splits)
  have g: "u64_add g (fe_length e) = g + fe_length e" using Cons.prems(2) by (simp add: u64_add_def u64_max_def)
  obtain new where "rs' = (rs @ [\<lparr>rg_file = f, rg_start = g, rg_length = fe_length e\<rparr>]) @ new"
      "tiles (g + fe_length e) new (g + fe_length e + sum_list (map fe_length es))" "map rg_length new = map fe_length es"
    using Cons.IH [OF f] Cons.prems(2) g by (auto simp: add.assoc)
  then show ?case
    by (intro exI [of _ "\<lparr>rg_file = f, rg_start = g, rg_length = fe_length e\<rparr> # new"]) (simp add: add.assoc)
qed simp

lemma st_create_wf:
  assumes "st_create k meta pre s = (s', Inr st)" and "mi_total_length meta = sum_list (map fe_length (mi_files meta))"
    and "mi_total_length meta \<le> u64_max" and "distinct (map rg_file (st_regions st))"
  shows "storage_wf st" and "map rg_length (st_regions st) = map fe_length (mi_files meta)"
    and "st_hashes st = mi_pieces meta" and "st_piece_length st = mi_piece_length meta"
proof -
  obtain rs where rs: "create_loop k pre (mi_files meta) 0 [] s = (s', Inr rs)"
      "st = \<lparr>st_regions = rs, st_piece_length = mi_piece_length meta, st_total_length = mi_total_length meta,
             st_hashes = mi_pieces meta\<rparr>"
    using assms(1) by (auto simp: st_create_def split: prod.splits sum.splits)
  note c = create_loop_tiles [OF rs(1)]
  show "storage_wf st" "map rg_length (st_regions st) = map fe_length (mi_files meta)"
    "st_hashes st = mi_pieces meta" "st_piece_length st = mi_piece_length meta"
    using c assms(2-4) rs(2) by (auto simp: storage_wf_def)
qed

end
