(* ===== verification/Torrent.thy ===== *)
theory Torrent
  imports Picker Choker Pex Extension Metadata Storage
begin

text \<open>
  The torrent coordinator (\<^verbatim>\<open>crates/clove-core/src/torrent.rs\<close>): the peer table wired to the picker,
  the choker and the storage. Everything behind the state mutex is one record; each critical
  section of the code is one function, and the composed operations (\<open>on_message\<close>, \<open>maintain\<close>)
  run several of them in the order the code does.

  A \<^verbatim>\<open>HashMap\<close> is an association list with distinct keys in some order; an \<^verbatim>\<open>Instant\<close> and a
  \<^verbatim>\<open>Duration\<close> count nanoseconds, and an operation reads the clock once, as its argument
  \<open>now\<close>. A peer's outgoing channel is the list of messages its writer has not taken yet.
  SHA-1 and the faults of the storage are parameters.
\<close>

subsection \<open>Constants\<close>

definition PIPELINE_DEPTH :: nat where "PIPELINE_DEPTH = 16"
definition OUR_PEX_ID :: byte where "OUR_PEX_ID = 1"
definition OUR_METADATA_ID :: byte where "OUR_METADATA_ID = 2"
definition DEFAULT_CHOKE_INTERVAL :: nat where "DEFAULT_CHOKE_INTERVAL = secs 10"
definition DEFAULT_KEEPALIVE_INTERVAL :: nat where "DEFAULT_KEEPALIVE_INTERVAL = secs 100"
definition DEFAULT_REQUEST_TIMEOUT :: nat where "DEFAULT_REQUEST_TIMEOUT = secs 90"
definition REQUEST_STRIKES :: nat where "REQUEST_STRIKES = 3"
definition DEFAULT_IDLE_TIMEOUT :: nat where "DEFAULT_IDLE_TIMEOUT = secs 300"
definition MAX_KNOWN_PEERS :: nat where "MAX_KNOWN_PEERS = 1024"
definition MAX_CONNECTIONS_PER_DEST :: nat where "MAX_CONNECTIONS_PER_DEST = 2"
definition SUSPICION_LIMIT :: nat where "SUSPICION_LIMIT = 3"
definition MAX_METADATA_REQUESTS_PER_TICK :: nat where "MAX_METADATA_REQUESTS_PER_TICK = 64"
definition MISBEHAVIOUR_BACKOFF :: nat where "MISBEHAVIOUR_BACKOFF = secs 30"
definition MAX_MISBEHAVIOUR_BACKOFF :: nat where "MAX_MISBEHAVIOUR_BACKOFF = secs 3600"
definition OUTGOING_QUEUE :: nat where "OUTGOING_QUEUE = 256"

subsection \<open>State\<close>

type_synonym dest = bytes

datatype source = FromPex | Trusted

record peer =
  pe_id :: nat
  pe_dest :: dest
  pe_out :: "message list"
  pe_has :: bitfield
  pe_opened :: bool
  pe_fast :: bool
  pe_peer_choking :: bool
  pe_we_choke :: bool
  pe_they_interested :: bool
  pe_we_interested :: bool
  pe_in_flight :: "(nat \<times> nat, nat) hashmap"
  pe_strikes :: nat
  pe_last_sent :: nat
  pe_last_seen :: nat
  pe_uploaded :: nat
  pe_downloaded :: nat
  pe_uploaded_at_round :: nat
  pe_downloaded_at_round :: nat
  pe_pex_id :: "nat option"
  pe_metadata_id :: "nat option"
  pe_metadata_requests :: nat

text \<open>The immutable half of \<^verbatim>\<open>Shared\<close>.\<close>

record shared =
  sh_info_hash :: bytes
  sh_peer_id :: bytes
  sh_storage :: storage
  sh_num_pieces :: nat
  sh_max_frame :: nat
  sh_raw_info :: bytes
  sh_private :: bool

text \<open>The mutable rest: \<^verbatim>\<open>State\<close>, the atomic counters, the done flag, and the disk the storage writes.\<close>

record torrent =
  ts_picker :: picker
  ts_choker :: choker
  ts_last_choke_round :: nat
  ts_choke_interval :: nat
  ts_keepalive_interval :: nat
  ts_idle_timeout :: nat
  ts_request_timeout :: nat
  ts_peers :: "peer list"
  ts_next_id :: nat
  ts_known_peers :: "(dest, source) hashmap"
  ts_pex_learned :: nat
  ts_announces_ok :: nat
  ts_announces_failed :: nat
  ts_last_announce_error :: "string option"
  ts_suppliers :: "(nat \<times> nat, dest) hashmap"
  ts_banned :: "dest set"
  ts_suspicion :: "(dest, nat) hashmap"
  ts_storage_error :: "io_error option"
  ts_local_dest :: "dest option"
  ts_to_drop :: "(nat \<times> bool) list"
  ts_offences :: "(dest, nat \<times> nat) hashmap"
  ts_max_peers :: nat
  ts_uploaded :: nat
  ts_downloaded :: nat
  ts_inbound :: nat
  ts_done :: bool
  ts_disk :: disk

type_synonym outgoing = "(nat \<times> message) list"

definition upd_peer :: "nat \<Rightarrow> (peer \<Rightarrow> peer) \<Rightarrow> torrent \<Rightarrow> torrent" where
  "upd_peer idx f t = t\<lparr>ts_peers := (ts_peers t)[idx := f (ts_peers t ! idx)]\<rparr>"

text \<open>\<^verbatim>\<open>iter().position(|p| p.id == id)\<close>, \<^verbatim>\<open>iter_mut().find(..)\<close> and \<^verbatim>\<open>swap_remove\<close>.\<close>

fun position_of :: "nat \<Rightarrow> peer list \<Rightarrow> nat option" where
  "position_of i [] = None"
| "position_of i (p # ps) = (if pe_id p = i then Some 0 else map_option Suc (position_of i ps))"

definition upd_peer_id :: "nat \<Rightarrow> (peer \<Rightarrow> peer) \<Rightarrow> torrent \<Rightarrow> torrent" where
  "upd_peer_id i f t = (case position_of i (ts_peers t) of None \<Rightarrow> t | Some idx \<Rightarrow> upd_peer idx f t)"

definition swap_remove :: "nat \<Rightarrow> 'a list \<Rightarrow> 'a list" where
  "swap_remove pos xs = butlast (xs[pos := last xs])"

subsection \<open>Known, banned and held destinations\<close>

definition remember_peer_from :: "dest \<Rightarrow> source \<Rightarrow> torrent \<Rightarrow> torrent \<times> bool" where
  "remember_peer_from d src t =
     (if d \<in> ts_banned t \<or> ts_local_dest t = Some d then (t, False)
      else if map_of (ts_known_peers t) d \<noteq> None then
        (if src = Trusted then t\<lparr>ts_known_peers := hm_insert d Trusted (ts_known_peers t)\<rparr> else t, False)
      else if length (ts_known_peers t) \<ge> MAX_KNOWN_PEERS then
        (if src = FromPex then (t, False)
         else case find (\<lambda>e. snd e = FromPex) (ts_known_peers t) of
           None \<Rightarrow> (t, False)
         | Some (victim, _) \<Rightarrow>
             (t\<lparr>ts_known_peers := hm_insert d src (hm_remove victim (ts_known_peers t))\<rparr>, True))
      else (t\<lparr>ts_known_peers := hm_insert d src (ts_known_peers t)\<rparr>, True))"

definition ban :: "dest \<Rightarrow> torrent \<Rightarrow> torrent" where
  "ban d t =
     t\<lparr>ts_banned := insert d (ts_banned t), ts_known_peers := hm_remove d (ts_known_peers t),
       ts_suspicion := hm_remove d (ts_suspicion t),
       ts_to_drop := ts_to_drop t @ map (\<lambda>p. (pe_id p, True)) (filter (\<lambda>p. pe_dest p = d) (ts_peers t))\<rparr>"

definition penalise :: "dest \<Rightarrow> nat \<Rightarrow> torrent \<Rightarrow> torrent" where
  "penalise d now t =
     (let offences =
        (if length (ts_offences t) \<ge> MAX_KNOWN_PEERS \<and> map_of (ts_offences t) d = None
         then filter (\<lambda>e. snd (snd e) > now) (ts_offences t) else ts_offences t) in
      if length (ts_offences t) \<ge> MAX_KNOWN_PEERS \<and> map_of (ts_offences t) d = None \<and>
         length offences \<ge> MAX_KNOWN_PEERS
      then t\<lparr>ts_offences := offences\<rparr>
      else
        let count = u32_sat_add (case map_of offences d of Some (c, _) \<Rightarrow> c | None \<Rightarrow> 0) 1;
            hold = min (MISBEHAVIOUR_BACKOFF * 2 ^ min (count - 1) 16) MAX_MISBEHAVIOUR_BACKOFF in
        t\<lparr>ts_offences := hm_insert d (count, now + hold) offences\<rparr>)"

definition held_for :: "dest \<Rightarrow> nat \<Rightarrow> torrent \<Rightarrow> nat option" where
  "held_for d now t =
     (case map_of (ts_offences t) d of
        None \<Rightarrow> None
      | Some (_, until) \<Rightarrow> if until - now = 0 then None else Some (until - now))"

fun credit_blocks :: "nat \<Rightarrow> nat list \<Rightarrow> torrent \<Rightarrow> torrent" where
  "credit_blocks index [] t = t"
| "credit_blocks index (b # bs) t =
     (case map_of (ts_suppliers t) (index, b) of
        None \<Rightarrow> credit_blocks index bs t
      | Some d \<Rightarrow>
          let t1 = t\<lparr>ts_suppliers := hm_remove (index, b) (ts_suppliers t)\<rparr> in
          credit_blocks index bs
            (case map_of (ts_suspicion t1) d of
               None \<Rightarrow> t1
             | Some c \<Rightarrow>
                 if c - 1 = 0 then t1\<lparr>ts_suspicion := hm_remove d (ts_suspicion t1)\<rparr>
                 else t1\<lparr>ts_suspicion := hm_insert d (c - 1) (ts_suspicion t1)\<rparr>))"

definition credit_suppliers :: "nat \<Rightarrow> torrent \<Rightarrow> torrent" where
  "credit_suppliers index t = credit_blocks index [0..<blocks_in_piece (ts_picker t) index] t"

fun take_contributors :: "nat \<Rightarrow> nat list \<Rightarrow> torrent \<Rightarrow> dest list \<Rightarrow> torrent \<times> dest list" where
  "take_contributors index [] t cs = (t, cs)"
| "take_contributors index (b # bs) t cs =
     (case map_of (ts_suppliers t) (index, b) of
        None \<Rightarrow> take_contributors index bs t cs
      | Some d \<Rightarrow>
          take_contributors index bs (t\<lparr>ts_suppliers := hm_remove (index, b) (ts_suppliers t)\<rparr>)
            (if d \<in> set cs then cs else cs @ [d]))"

fun suspect :: "dest list \<Rightarrow> torrent \<Rightarrow> torrent \<times> dest list" where
  "suspect [] t = (t, [])"
| "suspect (d # ds) t =
     (let count = u32_sat_add (case map_of (ts_suspicion t) d of Some c \<Rightarrow> c | None \<Rightarrow> 0) 1;
          (t', culprits) = suspect ds (t\<lparr>ts_suspicion := hm_insert d count (ts_suspicion t)\<rparr>) in
      (t', if count \<ge> SUSPICION_LIMIT then d # culprits else culprits))"

definition blame_suppliers :: "nat \<Rightarrow> torrent \<Rightarrow> torrent" where
  "blame_suppliers index t =
     (let (t1, contributors) = take_contributors index [0..<blocks_in_piece (ts_picker t) index] t [];
          (t2, culprits) =
            (case contributors of
               [] \<Rightarrow> (t1, [])
             | [only] \<Rightarrow> (t1, [only])
             | many \<Rightarrow> suspect many t1) in
      fold ban culprits t2)"

subsection \<open>Requests, interest and choking\<close>

fun fill_loop ::
  "nat \<Rightarrow> block_request list \<Rightarrow> peer \<Rightarrow> outgoing \<Rightarrow> (nat \<times> nat) list \<Rightarrow> peer \<times> outgoing \<times> (nat \<times> nat) list" where
  "fill_loop now [] p out dups = (p, out, dups)"
| "fill_loop now (req # reqs) p out dups =
     (let key = (br_index req, br_begin req div BLOCK_LEN);
          p' = p\<lparr>pe_in_flight := hm_insert key now (pe_in_flight p)\<rparr> in
      if map_of (pe_in_flight p) key = None
      then fill_loop now reqs p' (out @ [(pe_id p, Request req)]) dups
      else fill_loop now reqs p' out (dups @ [key]))"

definition fill_requests :: "nat \<Rightarrow> nat \<Rightarrow> torrent \<Rightarrow> outgoing \<Rightarrow> torrent \<times> outgoing" where
  "fill_requests now idx t out =
     (let p = ts_peers t ! idx in
      if pe_peer_choking p \<or> \<not> pe_we_interested p then (t, out)
      else
        let space = PIPELINE_DEPTH - length (pe_in_flight p) in
        if space = 0 then (t, out)
        else
          let (pk, requests) = pick (ts_picker t) (pe_has p) space;
              (p', out', duplicates) = fill_loop now requests p out [] in
          (t\<lparr>ts_picker := fold (\<lambda>(i, b) pk. block_failed pk i b) duplicates pk,
             ts_peers := (ts_peers t)[idx := p']\<rparr>, out'))"

definition update_interest :: "nat \<Rightarrow> nat \<Rightarrow> torrent \<Rightarrow> outgoing \<Rightarrow> torrent \<times> outgoing" where
  "update_interest now idx t out =
     (let p = ts_peers t ! idx;
          want = list_ex (\<lambda>i. \<not> pk_has (ts_picker t) i) (iter_present (pe_has p)) in
      if want \<and> \<not> pe_we_interested p then
        let t1 = upd_peer idx (\<lambda>p. p\<lparr>pe_we_interested := True\<rparr>) t;
            out1 = out @ [(pe_id p, Interested)] in
        if \<not> pe_peer_choking p then fill_requests now idx t1 out1 else (t1, out1)
      else if \<not> want \<and> pe_we_interested p then
        (upd_peer idx (\<lambda>p. p\<lparr>pe_we_interested := False\<rparr>) t, out @ [(pe_id p, NotInterested)])
      else (t, out))"

definition snapshot :: "bool \<Rightarrow> peer \<Rightarrow> peer_snapshot" where
  "snapshot seeding p =
     \<lparr>ps_id = pe_id p, ps_interested = pe_they_interested p,
      ps_rate = (if seeding then pe_uploaded p - pe_uploaded_at_round p
                 else pe_downloaded p - pe_downloaded_at_round p),
      ps_unchoked = \<not> pe_we_choke p\<rparr>"

definition set_choke :: "bool \<Rightarrow> nat \<Rightarrow> torrent \<times> outgoing \<Rightarrow> torrent \<times> outgoing" where
  "set_choke choke i s =
     (case position_of i (ts_peers (fst s)) of
        None \<Rightarrow> s
      | Some idx \<Rightarrow>
          (upd_peer idx (\<lambda>p. p\<lparr>pe_we_choke := choke\<rparr>) (fst s),
           snd s @ [(i, if choke then Choke else Unchoke)]))"

definition run_choker :: "torrent \<Rightarrow> outgoing \<Rightarrow> torrent \<times> outgoing" where
  "run_choker t out =
     (let snapshots = map (snapshot (is_complete (ts_picker t))) (ts_peers t);
          t1 = t\<lparr>ts_peers := map (\<lambda>p. p\<lparr>pe_uploaded_at_round := pe_uploaded p,
                                         pe_downloaded_at_round := pe_downloaded p\<rparr>) (ts_peers t)\<rparr>;
          (ck, decision) = plan (ts_choker t1) snapshots in
      fold (set_choke True) (dc_choke decision)
        (fold (set_choke False) (dc_unchoke decision) (t1\<lparr>ts_choker := ck\<rparr>, out)))"

definition record_sent :: "outgoing \<Rightarrow> nat \<Rightarrow> torrent \<Rightarrow> torrent" where
  "record_sent out now t = fold (\<lambda>(i, _). upd_peer_id i (\<lambda>p. p\<lparr>pe_last_sent := now\<rparr>)) out t"

subsection \<open>Blocks\<close>

fun cancel_loop :: "nat \<Rightarrow> nat \<times> nat \<Rightarrow> message \<Rightarrow> nat list \<Rightarrow> torrent \<Rightarrow> outgoing \<Rightarrow> torrent \<times> outgoing" where
  "cancel_loop idx key msg [] t out = (t, out)"
| "cancel_loop idx key msg (other # others) t out =
     (let p = ts_peers t ! other in
      if other = idx \<or> map_of (pe_in_flight p) key = None then cancel_loop idx key msg others t out
      else
        let t1 = upd_peer other (\<lambda>p. p\<lparr>pe_in_flight := hm_remove key (pe_in_flight p)\<rparr>) t in
        cancel_loop idx key msg others (t1\<lparr>ts_picker := block_failed (ts_picker t1) (fst key) (snd key)\<rparr>)
          (out @ [(pe_id p, msg)]))"

definition cancel_elsewhere ::
  "nat \<Rightarrow> nat \<Rightarrow> nat \<Rightarrow> nat \<Rightarrow> torrent \<Rightarrow> outgoing \<Rightarrow> torrent \<times> outgoing" where
  "cancel_elsewhere idx index begn block_no t out =
     cancel_loop idx (index, block_no)
       (Cancel \<lparr>br_index = index, br_begin = begn, br_length = block_len (ts_picker t) index block_no\<rparr>)
       [0..<length (ts_peers t)] t out"

text \<open>The branches of \<^verbatim>\<open>on_block\<close> once the block is written: the piece may be complete, and is then
  verified from disk. \<open>False\<close> is the early return before the refill.\<close>

definition block_written ::
  "(bytes \<Rightarrow> bytes) \<Rightarrow> faults \<Rightarrow> shared \<Rightarrow> nat \<Rightarrow> nat \<Rightarrow> torrent \<Rightarrow> outgoing \<Rightarrow> (torrent \<times> outgoing) \<times> bool" where
  "block_written sha1 flt sh index block_no t out =
     (let (pk, complete) = block_received (ts_picker t) index block_no; t1 = t\<lparr>ts_picker := pk\<rparr> in
      if \<not> complete then ((t1, out), False)
      else
        (case verify_piece sha1 flt (ts_disk t1) (sh_storage sh) index of
           Inr True \<Rightarrow>
             (let t2 = credit_suppliers index (t1\<lparr>ts_picker := set_have (ts_picker t1) index\<rparr>) in
              ((t2, out @ map (\<lambda>p. (pe_id p, Have index)) (ts_peers t2)), True))
         | Inr False \<Rightarrow>
             ((blame_suppliers index (t1\<lparr>ts_picker := reset_piece (ts_picker t1) index\<rparr>), out), True)
         | Inl e \<Rightarrow> ((t1\<lparr>ts_storage_error := Some e\<rparr>, out), True)))"

definition on_block ::
  "(bytes \<Rightarrow> bytes) \<Rightarrow> faults \<Rightarrow> shared \<Rightarrow> nat \<Rightarrow> nat \<Rightarrow> nat \<Rightarrow> nat \<Rightarrow> bytes \<Rightarrow> torrent \<Rightarrow> outgoing \<Rightarrow> torrent \<times> outgoing" where
  "on_block sha1 flt sh now idx index begn block t out =
     (if begn mod BLOCK_LEN \<noteq> 0 \<or> index \<ge> sh_num_pieces sh then (t, out)
      else
        let block_no = begn div BLOCK_LEN in
        if length block \<noteq> block_len (ts_picker t) index block_no then (t, out)
        else
          let was_requested = map_of (pe_in_flight (ts_peers t ! idx)) (index, block_no) \<noteq> None;
              t = upd_peer idx (\<lambda>p. p\<lparr>pe_in_flight := hm_remove (index, block_no) (pe_in_flight p)\<rparr>) t;
              t = (if was_requested then upd_peer idx (\<lambda>p. p\<lparr>pe_strikes := 0\<rparr>) t else t) in
          if \<not> was_requested \<or> pk_has (ts_picker t) index then fill_requests now idx t out
          else if is_received (ts_picker t) index block_no then
            fill_requests now idx (t\<lparr>ts_picker := block_failed (ts_picker t) index block_no\<rparr>) out
          else
            (case write_block flt (sh_storage sh) index begn block (ts_disk t) of
               (disk, Inl e) \<Rightarrow>
                 fill_requests now idx
                   (t\<lparr>ts_disk := disk, ts_picker := block_failed (ts_picker t) index block_no,
                      ts_storage_error := Some e\<rparr>) out
             | (disk, Inr _) \<Rightarrow>
                 (let t = t\<lparr>ts_disk := disk, ts_downloaded := u64_add (ts_downloaded t) (length block)\<rparr>;
                      t = upd_peer idx (\<lambda>p. p\<lparr>pe_downloaded := u64_add (pe_downloaded p) (length block)\<rparr>) t;
                      t = t\<lparr>ts_suppliers := hm_insert (index, block_no) (pe_dest (ts_peers t ! idx)) (ts_suppliers t)\<rparr>;
                      (t, out) = cancel_elsewhere idx index begn block_no t out;
                      ((t, out), complete) = block_written sha1 flt sh index block_no t out in
                  if complete then fill_requests now idx t out else (t, out))))"

definition serve_request :: "faults \<Rightarrow> shared \<Rightarrow> nat \<Rightarrow> block_request \<Rightarrow> torrent \<Rightarrow> outgoing \<Rightarrow> torrent \<times> outgoing" where
  "serve_request flt sh idx req t out =
     (if pe_we_choke (ts_peers t ! idx) \<or> br_length req = 0 \<or> br_length req > BLOCK_LEN \<or>
         br_begin req + br_length req > piece_len (ts_picker t) (br_index req) \<or>
         \<not> pk_has (ts_picker t) (br_index req)
      then (t, out)
      else
        case read_block flt (ts_disk t) (sh_storage sh) (br_index req) (br_begin req) (br_length req) of
          Inl _ \<Rightarrow> (t, out)
        | Inr data \<Rightarrow>
            (let t = upd_peer idx (\<lambda>p. p\<lparr>pe_uploaded := u64_add (pe_uploaded p) (length data)\<rparr>)
                       (t\<lparr>ts_uploaded := u64_add (ts_uploaded t) (length data)\<rparr>) in
             (t, out @ [(pe_id (ts_peers t ! idx), Piece (br_index req) (br_begin req) data)])))"

subsection \<open>Extension messages\<close>

definition send_pex :: "nat \<Rightarrow> torrent \<Rightarrow> outgoing \<Rightarrow> outgoing" where
  "send_pex idx t out =
     (let p = ts_peers t ! idx in
      case pe_pex_id p of
        None \<Rightarrow> out
      | Some pex_id \<Rightarrow>
          (let msg = \<lparr>px_added = take MAX_PEX_PEERS (filter (\<lambda>d. d \<noteq> pe_dest p) (map fst (ts_known_peers t))),
                      px_dropped = []\<rparr> in
           if pex_is_empty msg then out
           else out @ [(pe_id p, Extended (of_nat pex_id) (pex_encode msg))]))"

definition serve_metadata :: "shared \<Rightarrow> nat \<Rightarrow> nat \<Rightarrow> torrent \<Rightarrow> outgoing \<Rightarrow> torrent \<times> outgoing" where
  "serve_metadata sh idx piece t out =
     (case pe_metadata_id (ts_peers t ! idx) of
        None \<Rightarrow> (t, out)
      | Some metadata_id \<Rightarrow>
          (let allowed = pe_metadata_requests (ts_peers t ! idx) < MAX_METADATA_REQUESTS_PER_TICK;
               t = upd_peer idx (\<lambda>p. p\<lparr>pe_metadata_requests := u32_sat_add (pe_metadata_requests p) 1\<rparr>) t;
               total_len = length (sh_raw_info sh);
               start = (case checked_usize (piece * METADATA_PIECE_LEN) of
                          Some s \<Rightarrow> if allowed \<and> s < total_len then Some s else None
                        | None \<Rightarrow> None);
               reply = (case start of
                          Some s \<Rightarrow> MdData piece (u32_clamp total_len)
                                       (byte_range (s, min (s + METADATA_PIECE_LEN) total_len) (sh_raw_info sh))
                        | None \<Rightarrow> MdReject piece) in
           (t, out @ [(pe_id (ts_peers t ! idx), Extended (of_nat metadata_id) (md_encode reply))])))"

fun learn_pex :: "dest list \<Rightarrow> torrent \<Rightarrow> torrent" where
  "learn_pex [] t = t"
| "learn_pex (d # ds) t =
     (let (t', new) = remember_peer_from d FromPex t in
      learn_pex ds (if new then t'\<lparr>ts_pex_learned := u64_sat_add (ts_pex_learned t') 1\<rparr> else t'))"

definition on_extended :: "shared \<Rightarrow> nat \<Rightarrow> byte \<Rightarrow> bytes \<Rightarrow> torrent \<Rightarrow> outgoing \<Rightarrow> torrent \<times> outgoing" where
  "on_extended sh idx ext_id payload t out =
     (if ext_id = 0 then
        (case ext_parse payload of
           Inl _ \<Rightarrow> (t, out)
         | Inr hs \<Rightarrow>
             (let t = upd_peer idx (\<lambda>p. p\<lparr>pe_pex_id := id_for hs I2P_PEX, pe_metadata_id := id_for hs UT_METADATA\<rparr>) t in
              (t, if sh_private sh then out else send_pex idx t out)))
      else if ext_id = OUR_PEX_ID then
        (if sh_private sh then (t, out)
         else case pex_parse payload of Inl _ \<Rightarrow> (t, out) | Inr pex \<Rightarrow> (learn_pex (px_added pex) t, out))
      else if ext_id = OUR_METADATA_ID then
        (case md_parse payload of Inr (MdRequest piece) \<Rightarrow> serve_metadata sh idx piece t out | _ \<Rightarrow> (t, out))
      else (t, out))"

subsection \<open>Dispatch\<close>

definition replace_piece_set :: "nat \<Rightarrow> bitfield \<Rightarrow> torrent \<Rightarrow> torrent" where
  "replace_piece_set idx field t =
     (let old = pe_has (ts_peers t ! idx); t1 = upd_peer idx (\<lambda>p. p\<lparr>pe_has := field\<rparr>) t in
      t1\<lparr>ts_picker := add_bitfield (remove_bitfield (ts_picker t1) old) field\<rparr>)"

definition opens :: "message \<Rightarrow> bool" where
  "opens msg = (case msg of KeepAlive \<Rightarrow> False | Extended i _ \<Rightarrow> i \<noteq> 0 | _ \<Rightarrow> True)"

definition violation :: "nat \<Rightarrow> torrent \<Rightarrow> torrent" where
  "violation i t = t\<lparr>ts_to_drop := ts_to_drop t @ [(i, True)]\<rparr>"

definition dispatch ::
  "(bytes \<Rightarrow> bytes) \<Rightarrow> faults \<Rightarrow> shared \<Rightarrow> nat \<Rightarrow> nat \<Rightarrow> nat \<Rightarrow> bool \<Rightarrow> message \<Rightarrow> torrent \<Rightarrow> outgoing \<Rightarrow> torrent \<times> outgoing" where
  "dispatch sha1 flt sh now i idx first msg t out =
     (case msg of
        KeepAlive \<Rightarrow> (t, out)
      | Cancel _ \<Rightarrow> (t, out)
      | RejectRequest _ \<Rightarrow> (if \<not> pe_fast (ts_peers t ! idx) then violation i t else t, out)
      | SuggestPiece _ \<Rightarrow> (if \<not> pe_fast (ts_peers t ! idx) then violation i t else t, out)
      | AllowedFast _ \<Rightarrow> (if \<not> pe_fast (ts_peers t ! idx) then violation i t else t, out)
      | Extended ext_id payload \<Rightarrow> on_extended sh idx ext_id payload t out
      | Choke \<Rightarrow>
          (let dropped = map fst (pe_in_flight (ts_peers t ! idx));
               t1 = upd_peer idx (\<lambda>p. p\<lparr>pe_peer_choking := True, pe_in_flight := []\<rparr>) t in
           (t1\<lparr>ts_picker := fold (\<lambda>(piece, block) pk. block_failed pk piece block) dropped (ts_picker t1)\<rparr>, out))
      | Unchoke \<Rightarrow> fill_requests now idx (upd_peer idx (\<lambda>p. p\<lparr>pe_peer_choking := False\<rparr>) t) out
      | Interested \<Rightarrow>
          (let t1 = upd_peer idx (\<lambda>p. p\<lparr>pe_they_interested := True\<rparr>) t;
               unchoked = length (filter (\<lambda>p. \<not> pe_we_choke p) (ts_peers t1)) in
           if unchoked < ck_max_unchoked (ts_choker t1) then run_choker t1 out else (t1, out))
      | NotInterested \<Rightarrow>
          (let t1 = upd_peer idx (\<lambda>p. p\<lparr>pe_they_interested := False\<rparr>) t in
           if \<not> pe_we_choke (ts_peers t1 ! idx)
           then (upd_peer idx (\<lambda>p. p\<lparr>pe_we_choke := True\<rparr>) t1, out @ [(pe_id (ts_peers t1 ! idx), Choke)])
           else (t1, out))
      | Have piece \<Rightarrow>
          if piece < sh_num_pieces sh \<and> \<not> bf_has (pe_has (ts_peers t ! idx)) piece
          then
            let t1 = upd_peer idx (\<lambda>p. p\<lparr>pe_has := bf_set (pe_has p) piece\<rparr>) t in
            update_interest now idx (t1\<lparr>ts_picker := add_single (ts_picker t1) piece\<rparr>) out
          else (t, out)
      | BitfieldMsg bs \<Rightarrow>
          (case bf_from_bytes bs (sh_num_pieces sh) of
             Inr field \<Rightarrow>
               if first then update_interest now idx (replace_piece_set idx field t) out else (violation i t, out)
           | Inl _ \<Rightarrow> (violation i t, out))
      | HaveAll \<Rightarrow>
          if first \<and> pe_fast (ts_peers t ! idx)
          then update_interest now idx (replace_piece_set idx (bf_full (sh_num_pieces sh)) t) out
          else (violation i t, out)
      | HaveNone \<Rightarrow>
          if first \<and> pe_fast (ts_peers t ! idx)
          then update_interest now idx (replace_piece_set idx (bf_empty (sh_num_pieces sh)) t) out
          else (violation i t, out)
      | Request req \<Rightarrow> serve_request flt sh idx req t out
      | Piece index begn block \<Rightarrow> on_block sha1 flt sh now idx index begn block t out)"

definition handle ::
  "(bytes \<Rightarrow> bytes) \<Rightarrow> faults \<Rightarrow> shared \<Rightarrow> nat \<Rightarrow> nat \<Rightarrow> message \<Rightarrow> torrent \<Rightarrow> outgoing \<Rightarrow> torrent \<times> outgoing" where
  "handle sha1 flt sh now i msg t out =
     (case position_of i (ts_peers t) of
        None \<Rightarrow> (t, out)
      | Some idx \<Rightarrow>
          (let first = \<not> pe_opened (ts_peers t ! idx);
               t = (if opens msg then upd_peer idx (\<lambda>p. p\<lparr>pe_opened := True\<rparr>) t else t) in
           dispatch sha1 flt sh now i idx first msg t out))"

subsection \<open>The table\<close>

datatype refusal = DestFull | Banned | TorrentFull

definition new_peer :: "nat \<Rightarrow> dest \<Rightarrow> message list \<Rightarrow> bool \<Rightarrow> nat \<Rightarrow> nat \<Rightarrow> peer" where
  "new_peer i d queue fast num_pieces now =
     \<lparr>pe_id = i, pe_dest = d, pe_out = queue, pe_has = bf_empty num_pieces, pe_opened = False, pe_fast = fast,
      pe_peer_choking = True, pe_we_choke = True, pe_they_interested = False, pe_we_interested = False,
      pe_in_flight = [], pe_strikes = 0, pe_last_sent = now, pe_last_seen = now, pe_uploaded = 0,
      pe_downloaded = 0, pe_uploaded_at_round = 0, pe_downloaded_at_round = 0, pe_pex_id = None,
      pe_metadata_id = None, pe_metadata_requests = 0\<rparr>"

definition register_peer ::
  "shared \<Rightarrow> nat \<Rightarrow> message list \<Rightarrow> dest \<Rightarrow> bool \<Rightarrow> torrent \<Rightarrow> torrent \<times> (refusal + nat)" where
  "register_peer sh now queue d fast t =
     (if d \<in> ts_banned t then (t, Inl Banned)
      else if length (filter (\<lambda>p. pe_dest p = d) (ts_peers t)) \<ge> MAX_CONNECTIONS_PER_DEST then (t, Inl DestFull)
      else if length (ts_peers t) \<ge> ts_max_peers t then (t, Inl TorrentFull)
      else
        let i = ts_next_id t;
            t = t\<lparr>ts_next_id := u64_add i 1\<rparr>;
            t = fst (remember_peer_from d Trusted t) in
        (t\<lparr>ts_peers := ts_peers t @ [new_peer i d queue fast (sh_num_pieces sh) now]\<rparr>, Inr i))"

definition drop_peer :: "nat \<Rightarrow> nat \<Rightarrow> bool \<Rightarrow> torrent \<Rightarrow> torrent" where
  "drop_peer now i for_cause t =
     (case position_of i (ts_peers t) of
        None \<Rightarrow> t
      | Some pos \<Rightarrow>
          (let p = ts_peers t ! pos;
               t1 = t\<lparr>ts_peers := swap_remove pos (ts_peers t),
                      ts_picker := fold (\<lambda>(piece, block) pk. block_failed pk piece block)
                                     (map fst (pe_in_flight p)) (remove_bitfield (ts_picker t) (pe_has p))\<rparr> in
           if for_cause then penalise (pe_dest p) now t1 else t1))"

text \<open>The locked part of \<^verbatim>\<open>on_message\<close>: the new state, what to send and whom to drop.\<close>

definition choke_if_due :: "nat \<Rightarrow> torrent \<times> outgoing \<Rightarrow> torrent \<times> outgoing" where
  "choke_if_due now s =
     (if now - ts_last_choke_round (fst s) \<ge> ts_choke_interval (fst s)
      then run_choker ((fst s)\<lparr>ts_last_choke_round := now\<rparr>) (snd s) else s)"

definition message_section ::
  "(bytes \<Rightarrow> bytes) \<Rightarrow> faults \<Rightarrow> shared \<Rightarrow> nat \<Rightarrow> nat \<Rightarrow> message \<Rightarrow> torrent \<Rightarrow> torrent \<times> outgoing \<times> (nat \<times> bool) list" where
  "message_section sha1 flt sh now i msg t =
     (let t = upd_peer_id i (\<lambda>p. p\<lparr>pe_last_seen := now\<rparr>) t;
          (t, out) = choke_if_due now (handle sha1 flt sh now i msg t []);
          t = record_sent out now t in
      (t\<lparr>ts_to_drop := []\<rparr>, out, ts_to_drop t))"

definition expire_peer ::
  "nat \<Rightarrow> nat \<Rightarrow> torrent \<times> (nat \<times> bool) list \<times> outgoing \<Rightarrow> torrent \<times> (nat \<times> bool) list \<times> outgoing" where
  "expire_peer now idx s =
     (let (t, drops, out) = s;
          p = ts_peers t ! idx;
          expired = map fst (filter (\<lambda>e. now - snd e \<ge> ts_request_timeout t) (pe_in_flight p)) in
      if expired \<noteq> [] then
        let t1 = upd_peer idx (\<lambda>p. p\<lparr>pe_in_flight := fold hm_remove expired (pe_in_flight p)\<rparr>) t;
            t2 = t1\<lparr>ts_picker := fold (\<lambda>(piece, block) pk. block_failed pk piece block) expired (ts_picker t1)\<rparr>;
            t3 = upd_peer idx (\<lambda>p. p\<lparr>pe_strikes := u32_sat_add (pe_strikes p) 1\<rparr>) t2 in
        if pe_strikes (ts_peers t3 ! idx) \<ge> REQUEST_STRIKES
        then (t3, drops @ [(pe_id p, True)], out)
        else let (t4, out') = fill_requests now idx t3 out in (t4, drops, out')
      else let (t1, out') = fill_requests now idx t out in (t1, drops, out'))"

definition maintain_requests ::
  "nat \<Rightarrow> torrent \<Rightarrow> (nat \<times> bool) list \<Rightarrow> outgoing \<Rightarrow> torrent \<times> (nat \<times> bool) list \<times> outgoing" where
  "maintain_requests now t drops out = fold (expire_peer now) [0..<length (ts_peers t)] (t, drops, out)"

definition maintain_section :: "nat \<Rightarrow> torrent \<Rightarrow> torrent \<times> outgoing \<times> (nat \<times> bool) list" where
  "maintain_section now t =
     (let t = t\<lparr>ts_peers := map (\<lambda>p. p\<lparr>pe_metadata_requests := 0\<rparr>) (ts_peers t)\<rparr>;
          silent = (\<lambda>p. now - pe_last_seen p \<ge> ts_idle_timeout t);
          drops = map (\<lambda>p. (pe_id p, False)) (filter silent (ts_peers t));
          out = map (\<lambda>p. (pe_id p, KeepAlive))
                  (filter (\<lambda>p. \<not> silent p \<and> now - pe_last_sent p \<ge> ts_keepalive_interval t) (ts_peers t));
          (t, drops, out) = maintain_requests now t drops out;
          (t, out) = choke_if_due now (t, out);
          t = record_sent out now t in
      (t\<lparr>ts_to_drop := []\<rparr>, out, drops @ ts_to_drop t))"

text \<open>One \<^verbatim>\<open>try_send\<close> and what \<^verbatim>\<open>send_all\<close> does when it fails; a message for a peer that is gone is
  lost. \<open>writing\<close> says whether the peer's writer still takes messages.\<close>

definition send_one :: "(nat \<Rightarrow> bool) \<Rightarrow> nat \<Rightarrow> nat \<times> message \<Rightarrow> torrent \<Rightarrow> torrent" where
  "send_one writing now e t =
     (case position_of (fst e) (ts_peers t) of
        None \<Rightarrow> t
      | Some idx \<Rightarrow>
          if writing (fst e) \<and> length (pe_out (ts_peers t ! idx)) < OUTGOING_QUEUE
          then upd_peer idx (\<lambda>p. p\<lparr>pe_out := pe_out p @ [snd e]\<rparr>) t
          else drop_peer now (fst e) True t)"

definition send_all :: "(nat \<Rightarrow> bool) \<Rightarrow> nat \<Rightarrow> outgoing \<Rightarrow> torrent \<Rightarrow> torrent" where
  "send_all writing now out t = fold (send_one writing now) out t"

definition check_done :: "torrent \<Rightarrow> torrent" where
  "check_done t = (if ts_done t then t else if is_complete (ts_picker t) then t\<lparr>ts_done := True\<rparr> else t)"

definition drop_all :: "nat \<Rightarrow> (nat \<times> bool) list \<Rightarrow> torrent \<Rightarrow> torrent" where
  "drop_all now ds t = fold (\<lambda>(i, for_cause). drop_peer now i for_cause) ds t"

definition on_message ::
  "(bytes \<Rightarrow> bytes) \<Rightarrow> faults \<Rightarrow> (nat \<Rightarrow> bool) \<Rightarrow> shared \<Rightarrow> nat \<Rightarrow> nat \<Rightarrow> message \<Rightarrow> torrent \<Rightarrow> torrent" where
  "on_message sha1 flt writing sh now i msg t =
     (let (t, out, evict) = message_section sha1 flt sh now i msg t in
      check_done (send_all writing now out (drop_all now evict t)))"

definition maintain :: "(nat \<Rightarrow> bool) \<Rightarrow> nat \<Rightarrow> torrent \<Rightarrow> torrent" where
  "maintain writing now t =
     (let (t, out, drops) = maintain_section now t in send_all writing now out (drop_all now drops t))"

subsection \<open>Construction and settings\<close>

definition shared_new :: "metainfo \<Rightarrow> storage \<Rightarrow> bytes \<Rightarrow> shared" where
  "shared_new meta st peer_id =
     (let num_pieces = u32_clamp (length (mi_pieces meta)) in
      \<lparr>sh_info_hash = mi_info_hash meta, sh_peer_id = peer_id, sh_storage = st, sh_num_pieces = num_pieces,
       sh_max_frame = u32_sat_add (max (max (u32_clamp (byte_len num_pieces)) BLOCK_LEN) (u32_clamp METADATA_PIECE_LEN)) 256,
       sh_raw_info = mi_raw_info meta, sh_private = mi_private meta\<rparr>)"

definition torrent_new :: "metainfo \<Rightarrow> bitfield \<Rightarrow> pick_mode \<Rightarrow> nat \<Rightarrow> disk \<Rightarrow> torrent" where
  "torrent_new meta initial_have mode now disk =
     (let num_pieces = u32_clamp (length (mi_pieces meta));
          picker = fold (\<lambda>i pk. set_have pk i) (iter_present initial_have)
                     (picker_new num_pieces (mi_piece_length meta) (mi_total_length meta) mode) in
      \<lparr>ts_picker = picker, ts_choker = choker_default, ts_last_choke_round = now,
       ts_choke_interval = DEFAULT_CHOKE_INTERVAL, ts_keepalive_interval = DEFAULT_KEEPALIVE_INTERVAL,
       ts_idle_timeout = DEFAULT_IDLE_TIMEOUT, ts_request_timeout = DEFAULT_REQUEST_TIMEOUT,
       ts_peers = [], ts_next_id = 0, ts_known_peers = [], ts_pex_learned = 0, ts_announces_ok = 0,
       ts_announces_failed = 0, ts_last_announce_error = None, ts_suppliers = [], ts_banned = {},
       ts_suspicion = [], ts_storage_error = None, ts_local_dest = None, ts_to_drop = [], ts_offences = [],
       ts_max_peers = usize_max, ts_uploaded = 0, ts_downloaded = 0, ts_inbound = 0,
       ts_done = is_complete picker, ts_disk = disk\<rparr>)"

definition add_peers :: "dest list \<Rightarrow> torrent \<Rightarrow> torrent" where
  "add_peers ds t = fold (\<lambda>d t. fst (remember_peer_from d Trusted t)) ds t"

definition set_choke_interval :: "nat \<Rightarrow> torrent \<Rightarrow> torrent" where
  "set_choke_interval n t = t\<lparr>ts_choke_interval := n\<rparr>"

definition set_keepalive_interval :: "nat \<Rightarrow> torrent \<Rightarrow> torrent" where
  "set_keepalive_interval n t = t\<lparr>ts_keepalive_interval := n\<rparr>"

definition set_idle_timeout :: "nat \<Rightarrow> torrent \<Rightarrow> torrent" where
  "set_idle_timeout n t = t\<lparr>ts_idle_timeout := n\<rparr>"

definition set_request_timeout :: "nat \<Rightarrow> torrent \<Rightarrow> torrent" where
  "set_request_timeout n t = t\<lparr>ts_request_timeout := n\<rparr>"

definition set_max_peers :: "nat \<Rightarrow> torrent \<Rightarrow> torrent" where
  "set_max_peers n t = t\<lparr>ts_max_peers := n\<rparr>"

definition set_local_dest :: "dest \<Rightarrow> torrent \<Rightarrow> torrent" where
  "set_local_dest d t = t\<lparr>ts_local_dest := Some d, ts_known_peers := hm_remove d (ts_known_peers t)\<rparr>"

definition set_torrent_priorities :: "nat list \<Rightarrow> torrent \<Rightarrow> torrent" where
  "set_torrent_priorities per_piece t =
     check_done (t\<lparr>ts_picker := set_piece_priorities (ts_picker t) per_piece\<rparr>)"

definition set_torrent_mode :: "pick_mode \<Rightarrow> torrent \<Rightarrow> torrent" where
  "set_torrent_mode mode t = t\<lparr>ts_picker := set_mode (ts_picker t) mode\<rparr>"

definition note_announce :: "string + unit \<Rightarrow> torrent \<Rightarrow> torrent" where
  "note_announce outcome t =
     (case outcome of
        Inr _ \<Rightarrow> t\<lparr>ts_announces_ok := u32_sat_add (ts_announces_ok t) 1, ts_last_announce_error := None\<rparr>
      | Inl e \<Rightarrow> t\<lparr>ts_announces_failed := u32_sat_add (ts_announces_failed t) 1, ts_last_announce_error := Some e\<rparr>)"

definition dial_candidates :: "nat \<Rightarrow> torrent \<Rightarrow> dest list" where
  "dial_candidates now t =
     filter (\<lambda>d. d \<notin> ts_banned t \<and> ts_local_dest t \<noteq> Some d \<and> held_for d now t = None) (map fst (ts_known_peers t))"

definition disconnect_all :: "nat \<Rightarrow> torrent \<Rightarrow> torrent" where
  "disconnect_all now t = fold (\<lambda>i. drop_peer now i False) (map pe_id (ts_peers t)) t"

text \<open>\<^verbatim>\<open>sync_storage\<close> answers the piece set as it was before the sync.\<close>

definition sync_storage :: "'s kernel \<Rightarrow> shared \<Rightarrow> torrent \<Rightarrow> 's \<Rightarrow> 's \<times> (io_error + bitfield)" where
  "sync_storage k sh t s =
     (let before = pk_have (ts_picker t) in
      case sync_all k (sh_storage sh) s of (s', Inl e) \<Rightarrow> (s', Inl e) | (s', Inr _) \<Rightarrow> (s', Inr before))"

text \<open>A peer's writer takes the next message off its queue.\<close>

definition writer_takes :: "nat \<Rightarrow> torrent \<Rightarrow> torrent" where
  "writer_takes i t = upd_peer_id i (\<lambda>p. p\<lparr>pe_out := tl (pe_out p)\<rparr>) t"

subsection \<open>What debug builds assert\<close>

definition debug_check_state :: "torrent \<Rightarrow> bool" where
  "debug_check_state t \<longleftrightarrow>
     check_invariants (ts_picker t) \<and>
     in_flight_total (ts_picker t) \<le> sum_list (map (\<lambda>p. length (pe_in_flight p)) (ts_peers t)) \<and>
     list_all (\<lambda>i. availability (ts_picker t) i = length (filter (\<lambda>p. bf_has (pe_has p) i) (ts_peers t)))
       [0..<bf_len (pk_have (ts_picker t))] \<and>
     list_all (\<lambda>p. pe_id p < ts_next_id t) (ts_peers t) \<and> distinct (map pe_id (ts_peers t))"

end
