(* ===== verification/Torrent_Inv.thy ===== *)
theory Torrent_Inv
  imports Torrent
begin

text \<open>
  The torrent's bookkeeping: every assertion of \<^verbatim>\<open>debug_check_state\<close> holds after every critical
  section, in whatever order the threads of the program run them. The picker's request
  counters are a \<open>ledger\<close> the peer table draws on; the rest follows from how each operation
  changes the table and the picker together.
\<close>

subsection \<open>Ledgers\<close>

text \<open>What the peer table needs of the picker: a count of outstanding requests per block, and an
  operation that takes one back.\<close>

locale ledger =
  fixes ok :: "'p \<Rightarrow> bool" and count :: "'p \<Rightarrow> 'k \<Rightarrow> nat" and release :: "'k \<Rightarrow> 'p \<Rightarrow> 'p"
  assumes ok_release: "ok p \<Longrightarrow> ok (release k p)"
    and count_release: "ok p \<Longrightarrow> count (release k p) k' = count p k' - (if k' = k then 1 else 0)"
begin

lemma ok_release_all: "ok p \<Longrightarrow> ok (fold release ks p)"
  by (induction ks arbitrary: p) (auto intro: ok_release)

lemma count_release_all:
  "ok p \<Longrightarrow> distinct ks \<Longrightarrow> count (fold release ks p) k = count p k - (if k \<in> set ks then 1 else 0)"
  by (induction ks arbitrary: p) (auto simp: count_release ok_release)

end

abbreviation block_count :: "picker \<Rightarrow> nat \<times> nat \<Rightarrow> nat" where
  "block_count p k \<equiv> in_flight_of p (fst k) (snd k)"

abbreviation give_back :: "nat \<times> nat \<Rightarrow> picker \<Rightarrow> picker" where
  "give_back \<equiv> (\<lambda>(i, b) p. block_failed p i b)"

lemma block_failed_count:
  "in_flight_of (block_failed p i b) j c = in_flight_of p j c - (if (j, c) = (i, b) then 1 else 0)"
  by (auto simp: block_failed_def in_flight_of_def split: option.splits)

lemma block_failed_count_key:
  "block_count (block_failed p (fst key) (snd key)) k = block_count p k - (if k = key then 1 else 0)"
  by (cases k; cases key) (auto simp: block_failed_count)

interpretation pl: ledger picker_inv block_count give_back
  by unfold_locales (auto simp: block_failed_count intro: inv_intros split: prod.splits)

subsection \<open>What picker operations leave alone\<close>

definition geom :: "picker \<Rightarrow> nat \<times> nat \<times> nat" where
  "geom p = (pk_num_pieces p, pk_piece_length p, pk_total_length p)"

text \<open>Only the progress changes: blocks requested, given back or received.\<close>

definition progress_only :: "picker \<Rightarrow> picker \<Rightarrow> bool" where
  "progress_only p p' \<longleftrightarrow> (\<exists>g. p' = p\<lparr>pk_progress := g\<rparr>)"

lemma progress_only_refl [simp]: "progress_only p p"
  unfolding progress_only_def by (rule exI [of _ "pk_progress p"]) simp

lemma progress_only_trans: "progress_only p q \<Longrightarrow> progress_only q r \<Longrightarrow> progress_only p r"
  by (auto simp: progress_only_def)

lemma progress_onlyD:
  "progress_only p p' \<Longrightarrow> pk_have p' = pk_have p \<and> pk_availability p' = pk_availability p \<and> geom p' = geom p \<and>
     pk_num_pieces p' = pk_num_pieces p \<and> availability p' = availability p \<and> piece_len p' = piece_len p \<and>
     blocks_in_piece p' = blocks_in_piece p \<and> block_len p' = block_len p"
  by (auto simp: progress_only_def geom_def availability_def fun_eq_iff block_len_def)

lemma block_failed_progress_only: "progress_only p (block_failed p i b)"
  by (auto simp: block_failed_def progress_only_def split: option.splits intro: exI [of _ "pk_progress p"])

lemma give_back_progress_only: "progress_only p (fold give_back ks p)"
  by (induction ks arbitrary: p) (auto intro: progress_only_trans block_failed_progress_only)

lemma pick_progress_only: "picker_inv p \<Longrightarrow> progress_only p (fst (pick p f want))"
  unfolding progress_only_def by (rule pick_frame)

lemma progress_mut_only: "progress_mut p i n = Some (pr, p') \<Longrightarrow> progress_only p p'"
  by (auto simp: progress_mut_def progress_only_def Let_def split: if_splits option.splits intro: exI [of _ "pk_progress p"])

lemma block_received_progress_only: "progress_only p (fst (block_received p i b))"
proof (cases "progress_mut p i (blocks_in_piece p i)")
  case (Some r)
  then have "progress_only p (snd r)" by (cases r) (simp add: progress_mut_only)
  moreover have "progress_only (snd r) (put_progress (snd r) i pr)" for pr by (auto simp: progress_only_def)
  ultimately show ?thesis using Some by (auto simp: block_received_def Let_def split: prod.splits intro: progress_only_trans)
qed (simp add: block_received_def)

lemma block_received_count:
  assumes "picker_inv p"
  shows "block_count (fst (block_received p i b)) k \<le> block_count p k - (if k = (i, b) then 1 else 0)"
proof (cases "progress_mut p i (blocks_in_piece p i)")
  case None
  then have "bt_get (pk_progress p) i = None"
    using inv_progressD [OF assms, of i] by (cases "bt_get (pk_progress p) i") (auto simp: progress_mut_def split: if_splits)
  then show ?thesis using None by (auto simp: block_received_def in_flight_of_def)
next
  case (Some r)
  obtain pr p1 where r: "r = (pr, p1)" by (cases r)
  note m = progress_mut_inv [OF assms Some [unfolded r]]
  have same: "block_count p1 k = block_count p k" "bt_get (pk_progress p1) i = Some pr" for k
    using Some r
    by (auto simp: progress_mut_def in_flight_of_def progress_new_def Let_def split: if_splits option.splits)
  have "length (pr_in_flight pr) = length (pr_received pr)" using m by simp
  then show ?thesis
    using Some r same(1) [of k] same(2)
    by (cases k) (auto simp: block_received_def Let_def in_flight_of_put in_flight_of_def nth_list_update)
qed

text \<open>Taking a piece in or resetting it forgets its requests and touches no other.\<close>

lemma set_have_count: "block_count (set_have p i) k \<le> block_count p k"
  and reset_piece_count: "block_count (reset_piece p i) k \<le> block_count p k"
  by (auto simp: set_have_def reset_piece_def in_flight_of_def Let_def split: option.splits)

lemma set_have_frame [simp]:
  "pk_availability (set_have p i) = pk_availability p" "geom (set_have p i) = geom p"
  "pk_num_pieces (set_have p i) = pk_num_pieces p"
  "pk_availability (reset_piece p i) = pk_availability p" "geom (reset_piece p i) = geom p"
  "pk_num_pieces (reset_piece p i) = pk_num_pieces p"
  by (simp_all add: set_have_def reset_piece_def geom_def Let_def)

lemma availability_frame [simp]:
  "availability (set_have p i) = availability p" "availability (reset_piece p i) = availability p"
  by (simp_all add: availability_def fun_eq_iff)

lemma bitfield_frame [simp]:
  "block_count (add_bitfield p f) k = block_count p k" "block_count (remove_bitfield p f) k = block_count p k"
  "block_count (add_single p i) k = block_count p k" "block_count (set_piece_priorities p per) k = block_count p k"
  "block_count (set_mode p m) k = block_count p k"
  "geom (add_bitfield p f) = geom p" "geom (remove_bitfield p f) = geom p" "geom (add_single p i) = geom p"
  "geom (set_piece_priorities p per) = geom p" "geom (set_mode p m) = geom p"
  "pk_have (add_bitfield p f) = pk_have p" "pk_have (remove_bitfield p f) = pk_have p" "pk_have (add_single p i) = pk_have p"
  "pk_have (set_piece_priorities p per) = pk_have p" "pk_have (set_mode p m) = pk_have p"
  "availability (set_piece_priorities p per) = availability p" "availability (set_mode p m) = availability p"
  by (simp_all add: add_bitfield_def remove_bitfield_def add_single_def set_piece_priorities_def recount_missing_def
      set_mode_def in_flight_of_def geom_def availability_def fun_eq_iff)

lemma geom_num: "geom p = geom q \<Longrightarrow> pk_num_pieces p = pk_num_pieces q"
  by (simp add: geom_def)

subsection \<open>The peer table\<close>

definition owed :: "peer list \<Rightarrow> nat \<times> nat \<Rightarrow> nat" where
  "owed ps k = length (filter (\<lambda>p. k \<in> fst ` set (pe_in_flight p)) ps)"

definition holders :: "peer list \<Rightarrow> nat \<Rightarrow> nat" where
  "holders ps i = length (filter (\<lambda>p. bf_has (pe_has p) i) ps)"

definition peer_ok :: "nat \<Rightarrow> nat \<Rightarrow> peer \<Rightarrow> bool" where
  "peer_ok n next_id p \<longleftrightarrow> pe_id p < next_id \<and> bf_wf (pe_has p) \<and> bf_len (pe_has p) = n \<and>
     distinct (map fst (pe_in_flight p)) \<and> length (pe_in_flight p) \<le> PIPELINE_DEPTH"

definition table_inv :: "nat \<Rightarrow> torrent \<Rightarrow> bool" where
  "table_inv n t \<longleftrightarrow>
     picker_inv (ts_picker t) \<and> pk_num_pieces (ts_picker t) = n \<and>
     (\<forall>i b. in_flight_of (ts_picker t) i b \<le> owed (ts_peers t) (i, b)) \<and>
     (\<forall>i < n. availability (ts_picker t) i = holders (ts_peers t) i) \<and>
     (\<forall>p \<in> set (ts_peers t). peer_ok n (ts_next_id t) p) \<and> distinct (map pe_id (ts_peers t)) \<and>
     length (ts_peers t) \<le> u32_max"

lemma table_inv_count: "table_inv n t \<Longrightarrow> block_count (ts_picker t) k \<le> owed (ts_peers t) k"
  by (cases k) (simp add: table_inv_def)

text \<open>Between taking a block off a peer's list and settling it with the picker, the picker may count
  one request more than the table owes.\<close>

definition slack_inv :: "nat \<Rightarrow> (nat \<times> nat) set \<Rightarrow> torrent \<Rightarrow> bool" where
  "slack_inv n e t \<longleftrightarrow>
     picker_inv (ts_picker t) \<and> pk_num_pieces (ts_picker t) = n \<and>
     (\<forall>i b. in_flight_of (ts_picker t) i b \<le> owed (ts_peers t) (i, b) + (if (i, b) \<in> e then 1 else 0)) \<and>
     (\<forall>i < n. availability (ts_picker t) i = holders (ts_peers t) i) \<and>
     (\<forall>p \<in> set (ts_peers t). peer_ok n (ts_next_id t) p) \<and> distinct (map pe_id (ts_peers t)) \<and>
     length (ts_peers t) \<le> u32_max"

lemma slack_inv_empty: "slack_inv n {} t \<longleftrightarrow> table_inv n t"
  by (simp add: slack_inv_def table_inv_def)

lemma slack_inv_count:
  "slack_inv n e t \<Longrightarrow> block_count (ts_picker t) k \<le> owed (ts_peers t) k + (if k \<in> e then 1 else 0)"
  by (cases k) (simp add: slack_inv_def)

lemma length_filter_update:
  "i < length xs \<Longrightarrow> length (filter P (xs[i := x])) + (if P (xs ! i) then 1 else 0) =
     length (filter P xs) + (if P x then 1 else 0)"
proof (induction xs arbitrary: i)
  case (Cons y xs)
  show ?case
  proof (cases i)
    case (Suc j)
    then show ?thesis using Cons.IH [of j] Cons.prems by simp
  qed simp
qed simp

lemma owed_update:
  "i < length ps \<Longrightarrow> owed (ps[i := p]) k + (if k \<in> fst ` set (pe_in_flight (ps ! i)) then 1 else 0) =
     owed ps k + (if k \<in> fst ` set (pe_in_flight p) then 1 else 0)"
  unfolding owed_def by (rule length_filter_update)

lemma holders_update:
  "i < length ps \<Longrightarrow> holders (ps[i := p]) k + (if bf_has (pe_has (ps ! i)) k then 1 else 0) =
     holders ps k + (if bf_has (pe_has p) k then 1 else 0)"
  unfolding holders_def by (rule length_filter_update)

lemma mset_swap_remove: "i < length xs \<Longrightarrow> mset (swap_remove i xs) = mset xs - {#xs ! i#}"
proof -
  assume i: "i < length xs"
  then have ne: "xs \<noteq> []" by auto
  let ?ys = "xs[i := last xs]"
  have "mset ?ys = add_mset (last xs) (mset xs - {#xs ! i#})" using i by (simp add: mset_update)
  moreover have "last ?ys = last xs"
    using i ne by (cases "i = length xs - 1") (auto simp: last_conv_nth nth_list_update)
  moreover have "?ys \<noteq> []" using ne by simp
  then have "mset ?ys = add_mset (last ?ys) (mset (butlast ?ys))" by (metis append_butlast_last_id mset.simps mset_append add_mset_add_single)
  ultimately show ?thesis by (simp add: swap_remove_def)
qed

lemma swap_remove_add: "i < length xs \<Longrightarrow> mset xs = add_mset (xs ! i) (mset (swap_remove i xs))"
  by (simp add: mset_swap_remove)

lemma filter_swap_remove:
  assumes "i < length xs"
  shows "length (filter P (swap_remove i xs)) + (if P (xs ! i) then 1 else 0) = length (filter P xs)"
proof -
  have "length (filter P xs) = size (filter_mset P (mset xs))" by (metis mset_filter size_mset)
  also have "\<dots> = size (filter_mset P (mset (swap_remove i xs))) + (if P (xs ! i) then 1 else 0)"
    unfolding swap_remove_add [OF assms] by simp
  also have "size (filter_mset P (mset (swap_remove i xs))) = length (filter P (swap_remove i xs))"
    by (metis mset_filter size_mset)
  finally show ?thesis by simp
qed

lemma swap_remove_set:
  assumes "i < length ps" "distinct (map pe_id ps)"
  shows "set (swap_remove i ps) \<subseteq> set ps" "distinct (map pe_id (swap_remove i ps))"
    "length (swap_remove i ps) = length ps - 1"
proof -
  have m: "mset (swap_remove i ps) = mset ps - {#ps ! i#}" using assms(1) by (rule mset_swap_remove)
  then show "set (swap_remove i ps) \<subseteq> set ps" by (metis in_diffD set_mset_mset subsetI)
  have "mset ps = add_mset (ps ! i) (mset (swap_remove i ps))" using m assms(1) by simp
  then have "mset (map pe_id ps) = mset (pe_id (ps ! i) # map pe_id (swap_remove i ps))" by simp
  then show "distinct (map pe_id (swap_remove i ps))" using assms(2) by (metis distinct.simps(2) mset_eq_imp_distinct_iff)
  show "length (swap_remove i ps) = length ps - 1" by (simp add: swap_remove_def)
qed

lemma position_of_Some: "position_of i ps = Some idx \<Longrightarrow> idx < length ps \<and> pe_id (ps ! idx) = i"
  by (induction ps arbitrary: idx) (auto split: if_splits)

lemma position_of_None: "position_of i ps = None \<longleftrightarrow> i \<notin> pe_id ` set ps"
  by (induction ps) auto

text \<open>Operations that leave the table's accounting alone.\<close>

definition core :: "peer \<Rightarrow> nat \<times> dest \<times> bitfield \<times> (nat \<times> nat, nat) hashmap" where
  "core p = (pe_id p, pe_dest p, pe_has p, pe_in_flight p)"

definition core_eq :: "torrent \<Rightarrow> torrent \<Rightarrow> bool" where
  "core_eq t t' \<longleftrightarrow> ts_picker t' = ts_picker t \<and> ts_disk t' = ts_disk t \<and> ts_next_id t' = ts_next_id t \<and>
     map core (ts_peers t') = map core (ts_peers t)"

lemma core_eq_refl [simp]: "core_eq t t"
  by (simp add: core_eq_def)

lemma core_eq_trans [trans]: "core_eq t t' \<Longrightarrow> core_eq t' t'' \<Longrightarrow> core_eq t t''"
  by (simp add: core_eq_def)

lemma core_eq_length: "core_eq t t' \<Longrightarrow> length (ts_peers t') = length (ts_peers t)"
  by (metis core_eq_def length_map)

lemma core_eq_nth:
  assumes "core_eq t t'" "i < length (ts_peers t)"
  shows "core (ts_peers t' ! i) = core (ts_peers t ! i)"
proof -
  have "map core (ts_peers t') ! i = map core (ts_peers t) ! i" using assms(1) by (simp add: core_eq_def)
  then show ?thesis using assms(2) core_eq_length [OF assms(1)] by simp
qed

lemma filter_core:
  assumes "map core ps' = map core ps" "\<And>p p'. core p' = core p \<Longrightarrow> P p' \<longleftrightarrow> P p"
  shows "length (filter P ps') = length (filter P ps)"
proof -
  define Q where "Q c \<longleftrightarrow> (\<exists>p. core p = c \<and> P p)" for c
  have "P p \<longleftrightarrow> Q (core p)" for p unfolding Q_def using assms(2) by blast
  then have "P = Q \<circ> core" by (simp add: fun_eq_iff)
  then have e: "length (filter P qs) = length (filter Q (map core qs))" for qs by (simp add: filter_map)
  show ?thesis unfolding e assms(1) ..
qed

lemma core_eq_slack:
  assumes "slack_inv n e t" "core_eq t t'"
  shows "slack_inv n e t'"
proof -
  have m: "map core (ts_peers t') = map core (ts_peers t)" using assms(2) by (simp add: core_eq_def)
  have "owed (ts_peers t') = owed (ts_peers t)" "holders (ts_peers t') = holders (ts_peers t)"
    unfolding owed_def holders_def fun_eq_iff by (auto intro!: filter_core [OF m] simp: core_def)
  moreover have "map pe_id (ts_peers t') = map pe_id (ts_peers t)"
  proof -
    have e: "map pe_id ps = map fst (map core ps)" for ps by (simp add: core_def)
    show ?thesis unfolding e m ..
  qed
  moreover have "peer_ok n (ts_next_id t) p'" if pm: "p' \<in> set (ts_peers t')" for p'
  proof -
    have "core ` set (ts_peers t') = core ` set (ts_peers t)" using m by (metis list.set_map)
    then obtain p where "p \<in> set (ts_peers t)" "core p' = core p" using pm by blast
    then show ?thesis using assms(1) by (auto simp: slack_inv_def peer_ok_def core_def)
  qed
  ultimately show ?thesis
    using assms core_eq_length [OF assms(2)] by (simp add: slack_inv_def core_eq_def)
qed

lemma core_eq_inv: "table_inv n t \<Longrightarrow> core_eq t t' \<Longrightarrow> table_inv n t'"
  using core_eq_slack [of n "{}" t t'] by (simp add: slack_inv_empty)

lemma upd_peer_core_eq:
  assumes "\<And>p. core (f p) = core p" "idx < length (ts_peers t)"
  shows "core_eq t (upd_peer idx f t)"
  using assms by (auto simp: core_eq_def upd_peer_def map_update list_update_same_conv intro!: list_update_same_conv [THEN iffD2])

lemma upd_peer_id_core_eq: "(\<And>p. core (f p) = core p) \<Longrightarrow> core_eq t (upd_peer_id i f t)"
  by (auto simp: upd_peer_id_def intro!: upd_peer_core_eq dest: position_of_Some split: option.splits)

subsection \<open>Operations that keep the accounting\<close>

text \<open>Nothing of the table, the picker, the disk or the ids changes.\<close>

lemma core_eq_fold: "(\<And>x t. core_eq t (f x t)) \<Longrightarrow> core_eq t (fold f xs t)"
  by (induction xs arbitrary: t) (auto intro: core_eq_trans)

named_theorems core_intros \<open>an operation leaves the table's accounting alone\<close>

lemma remember_core_eq [core_intros]: "core_eq t (fst (remember_peer_from d src t))"
  by (auto simp: remember_peer_from_def core_eq_def split: option.splits)

lemma ban_core_eq [core_intros]: "core_eq t (ban d t)"
  by (simp add: ban_def core_eq_def)

lemma penalise_core_eq [core_intros]: "core_eq t (penalise d now t)"
  by (simp add: penalise_def core_eq_def Let_def)

lemma credit_core_eq [core_intros]: "core_eq t (credit_suppliers index t)"
proof -
  have "core_eq t (credit_blocks index bs t)" for bs
  proof (induction index bs t rule: credit_blocks.induct)
    case (2 index b bs t)
    show ?case
    proof (cases "map_of (ts_suppliers t) (index, b)")
      case (Some d)
      let ?t1 = "t\<lparr>ts_suppliers := hm_remove (index, b) (ts_suppliers t)\<rparr>"
      let ?t2 = "case map_of (ts_suspicion ?t1) d of None \<Rightarrow> ?t1
        | Some c \<Rightarrow> if c - 1 = 0 then ?t1\<lparr>ts_suspicion := hm_remove d (ts_suspicion ?t1)\<rparr>
                    else ?t1\<lparr>ts_suspicion := hm_insert d (c - 1) (ts_suspicion ?t1)\<rparr>"
      have "core_eq t ?t2" by (auto simp: core_eq_def split: option.splits)
      moreover have "core_eq ?t2 (credit_blocks index bs ?t2)" using "2.IH"(2) [OF Some refl] by simp
      ultimately have "core_eq t (credit_blocks index bs ?t2)" by (rule core_eq_trans)
      then show ?thesis using Some by (simp add: Let_def)
    qed (use 2 in simp)
  qed simp
  then show ?thesis by (simp add: credit_suppliers_def)
qed

lemma take_contributors_core_eq: "core_eq t (fst (take_contributors index bs t cs))"
proof (induction index bs t cs rule: take_contributors.induct)
  case (2 index b bs t cs)
  show ?case
  proof (cases "map_of (ts_suppliers t) (index, b)")
    case (Some d)
    have "core_eq t (t\<lparr>ts_suppliers := hm_remove (index, b) (ts_suppliers t)\<rparr>)" by (simp add: core_eq_def)
    then show ?thesis using Some "2.IH"(2) [OF Some] by (auto intro: core_eq_trans)
  qed (use 2 in simp)
qed simp

lemma suspect_core_eq: "core_eq t (fst (suspect ds t))"
proof (induction ds arbitrary: t)
  case (Cons d ds)
  let ?t = "t\<lparr>ts_suspicion := hm_insert d (u32_sat_add (case map_of (ts_suspicion t) d of Some c \<Rightarrow> c | None \<Rightarrow> 0) 1) (ts_suspicion t)\<rparr>"
  have "core_eq t ?t" by (simp add: core_eq_def)
  then have "core_eq t (fst (suspect ds ?t))" using Cons core_eq_trans by blast
  then show ?case by (cases "suspect ds ?t") (simp add: Let_def)
qed simp

lemma blame_core_eq [core_intros]: "core_eq t (blame_suppliers index t)"
proof -
  obtain t1 cs where tc: "take_contributors index [0..<blocks_in_piece (ts_picker t) index] t [] = (t1, cs)" by fastforce
  then have "core_eq t t1" using take_contributors_core_eq by (metis fst_conv)
  moreover obtain t2 ds where s: "(case cs of [] \<Rightarrow> (t1, []) | [only] \<Rightarrow> (t1, [only]) | many \<Rightarrow> suspect many t1) = (t2, ds)"
    by fastforce
  then have "core_eq t1 t2" using suspect_core_eq [of t1 cs] by (auto split: list.splits)
  moreover have "core_eq t2 (fold ban ds t2)" by (rule core_eq_fold) (rule ban_core_eq)
  ultimately have "core_eq t (fold ban ds t2)" by (metis core_eq_trans)
  then show ?thesis using tc s by (simp add: blame_suppliers_def)
qed

lemma set_choke_core_eq: "core_eq (fst s) (fst (set_choke c i s))"
  by (auto simp: set_choke_def core_def intro!: upd_peer_core_eq dest: position_of_Some split: option.splits)

lemma fold_set_choke_core_eq: "core_eq (fst s) (fst (fold (set_choke c) is s))"
proof (induction "is" arbitrary: s)
  case (Cons i "is")
  show ?case using core_eq_trans [OF set_choke_core_eq Cons [of "set_choke c i s"]] by simp
qed simp

lemma run_choker_core_eq [core_intros]: "core_eq t (fst (run_choker t out))"
proof -
  let ?t1 = "t\<lparr>ts_peers := map (\<lambda>p. p\<lparr>pe_uploaded_at_round := pe_uploaded p, pe_downloaded_at_round := pe_downloaded p\<rparr>) (ts_peers t)\<rparr>"
  obtain ck d where p: "plan (ts_choker ?t1) (map (snapshot (is_complete (ts_picker t))) (ts_peers t)) = (ck, d)" by fastforce
  have "core_eq t (?t1\<lparr>ts_choker := ck\<rparr>)" by (simp add: core_eq_def core_def)
  also have "core_eq \<dots> (fst (fold (set_choke False) (dc_unchoke d) (?t1\<lparr>ts_choker := ck\<rparr>, out)))"
    using fold_set_choke_core_eq [of "(?t1\<lparr>ts_choker := ck\<rparr>, out)"] by simp
  also have "core_eq \<dots> (fst (fold (set_choke True) (dc_choke d) (fold (set_choke False) (dc_unchoke d) (?t1\<lparr>ts_choker := ck\<rparr>, out))))"
    by (rule fold_set_choke_core_eq)
  finally show ?thesis using p by (simp add: run_choker_def Let_def)
qed

lemma record_sent_core_eq [core_intros]: "core_eq t (record_sent out now t)"
  unfolding record_sent_def by (rule core_eq_fold) (auto intro!: upd_peer_id_core_eq simp: core_def split: prod.splits)

lemma learn_pex_core_eq [core_intros]: "core_eq t (learn_pex ds t)"
proof (induction ds arbitrary: t)
  case (Cons d ds)
  obtain t' new where r: "remember_peer_from d FromPex t = (t', new)" by fastforce
  have "core_eq t t'" using remember_core_eq [of t d FromPex] r by simp
  also have "core_eq t' (if new then t'\<lparr>ts_pex_learned := u64_sat_add (ts_pex_learned t') 1\<rparr> else t')"
    by (simp add: core_eq_def)
  also note Cons
  finally show ?case using r by simp
qed simp

lemma serve_metadata_core_eq [core_intros]: "idx < length (ts_peers t) \<Longrightarrow> core_eq t (fst (serve_metadata sh idx piece t out))"
  by (auto simp: serve_metadata_def Let_def core_def intro!: upd_peer_core_eq split: option.splits)

lemma on_extended_core_eq [core_intros]:
  "idx < length (ts_peers t) \<Longrightarrow> core_eq t (fst (on_extended sh idx ext_id payload t out))"
  by (auto simp: on_extended_def core_def Let_def
      intro!: upd_peer_core_eq learn_pex_core_eq serve_metadata_core_eq split: sum.splits metadata_message.splits)

lemma serve_request_core_eq [core_intros]:
  "idx < length (ts_peers t) \<Longrightarrow> core_eq t (fst (serve_request flt sh idx req t out))"
proof -
  assume i: "idx < length (ts_peers t)"
  have "core_eq t (upd_peer idx (\<lambda>p. p\<lparr>pe_uploaded := u64_add (pe_uploaded p) m\<rparr>) (t\<lparr>ts_uploaded := n\<rparr>))" for m n
  proof -
    have "core_eq t (t\<lparr>ts_uploaded := n\<rparr>)" by (simp add: core_eq_def)
    also have "core_eq (t\<lparr>ts_uploaded := n\<rparr>) (upd_peer idx (\<lambda>p. p\<lparr>pe_uploaded := u64_add (pe_uploaded p) m\<rparr>) (t\<lparr>ts_uploaded := n\<rparr>))"
      using i by (intro upd_peer_core_eq) (simp_all add: core_def)
    finally show ?thesis .
  qed
  then show ?thesis by (auto simp: serve_request_def Let_def split: sum.splits)
qed

lemma choke_if_due_core_eq [core_intros]: "core_eq (fst s) (fst (choke_if_due now s))"
proof -
  have "core_eq (fst s) ((fst s)\<lparr>ts_last_choke_round := now\<rparr>)" by (simp add: core_eq_def)
  then show ?thesis using run_choker_core_eq core_eq_trans by (auto simp: choke_if_due_def)
qed

subsection \<open>Filling the pipeline\<close>

lemma hm_remove_length: "length (hm_remove k m) \<le> length m"
  by (simp add: bt_remove_def)

lemma map_of_keys: "map_of m k = None \<longleftrightarrow> k \<notin> fst ` set m"
  by (simp add: map_of_eq_None_iff)

lemma fill_loop_spec:
  assumes "fill_loop now reqs p out dups = (p', out', dups')" "distinct (map req_block reqs)" "distinct (map fst (pe_in_flight p))"
  shows "pe_id p' = pe_id p \<and> pe_dest p' = pe_dest p \<and> pe_has p' = pe_has p \<and>
    fst ` set (pe_in_flight p') = fst ` set (pe_in_flight p) \<union> req_block ` set reqs \<and>
    distinct (map fst (pe_in_flight p')) \<and> length (pe_in_flight p') \<le> length (pe_in_flight p) + length reqs \<and>
    dups' = dups @ filter (\<lambda>k. k \<in> fst ` set (pe_in_flight p)) (map req_block reqs)"
  using assms
proof (induction reqs arbitrary: p out dups)
  case (Cons r reqs)
  let ?p = "p\<lparr>pe_in_flight := hm_insert (req_block r) now (pe_in_flight p)\<rparr>"
  have d: "distinct (map fst (pe_in_flight ?p))" using Cons.prems(3) by (simp add: hm_insert_distinct)
  have other: "filter (\<lambda>k. k \<in> fst ` set (pe_in_flight ?p)) (map req_block reqs) =
      filter (\<lambda>k. k \<in> fst ` set (pe_in_flight p)) (map req_block reqs)"
    using Cons.prems(2) by (auto intro!: filter_cong)
  have eq: "fill_loop now reqs ?p (if req_block r \<in> fst ` set (pe_in_flight p) then out else out @ [(pe_id p, Request r)])
      (if req_block r \<in> fst ` set (pe_in_flight p) then dups @ [req_block r] else dups) = (p', out', dups')"
    using Cons.prems(1) by (auto simp: req_block_def map_of_keys Let_def split: if_splits)
  have dr: "distinct (map req_block reqs)" using Cons.prems(2) by simp
  show ?case
    using Cons.IH [OF eq dr d] other by (auto simp: hm_insert_length split: if_splits)
qed simp

lemma pick_req_blocks_distinct:
  assumes "picker_inv p"
  shows "distinct (map req_block (snd (pick p f want)))" "length (snd (pick p f want)) \<le> want"
proof -
  have "inj_on req_block (set (snd (pick p f want)))"
  proof (rule inj_onI)
    fix r s assume "r \<in> set (snd (pick p f want))" "s \<in> set (snd (pick p f want))" "req_block r = req_block s"
    moreover from this assms obtain i b where "r = block_req (piece_len p i) i b" by (metis pick_member)
    moreover from calculation assms obtain j c where "s = block_req (piece_len p j) j c" by (metis pick_member)
    ultimately show "r = s" by simp
  qed
  moreover have "distinct (snd (pick p f want))"
    using free_reqs_distinct by (simp add: pick_out [OF assms] distinct_take)
  ultimately show "distinct (map req_block (snd (pick p f want)))" by (simp add: distinct_map)
  show "length (snd (pick p f want)) \<le> want" by (simp add: pick_out [OF assms])
qed

text \<open>What a refill may change: the picker's progress and the requests of the table.\<close>

definition refills :: "torrent \<Rightarrow> torrent \<Rightarrow> bool" where
  "refills t t' \<longleftrightarrow> progress_only (ts_picker t) (ts_picker t') \<and> ts_disk t' = ts_disk t \<and> ts_next_id t' = ts_next_id t \<and>
     map (\<lambda>p. (pe_id p, pe_dest p, pe_has p)) (ts_peers t') = map (\<lambda>p. (pe_id p, pe_dest p, pe_has p)) (ts_peers t)"

lemma refills_refl [simp]: "refills t t"
  by (simp add: refills_def)

lemma refills_trans [trans]: "refills t t' \<Longrightarrow> refills t' t'' \<Longrightarrow> refills t t''"
  by (auto simp: refills_def intro: progress_only_trans)

lemma core_eq_refills: "core_eq t t' \<Longrightarrow> refills t t'"
proof -
  assume c: "core_eq t t'"
  have e: "map (\<lambda>p. (pe_id p, pe_dest p, pe_has p)) ps = map (\<lambda>(i, d, h, f). (i, d, h)) (map core ps)" for ps
    by (simp add: core_def)
  show ?thesis using c unfolding refills_def e by (simp add: core_eq_def)
qed

lemma refills_length: "refills t t' \<Longrightarrow> length (ts_peers t') = length (ts_peers t)"
  unfolding refills_def by (auto dest: map_eq_imp_length_eq)

lemma update_keeps_map: "i < length xs \<Longrightarrow> f x = f (xs ! i) \<Longrightarrow> map f (xs[i := x]) = map f xs"
proof -
  assume i: "i < length xs" and x: "f x = f (xs ! i)"
  have "map f (xs[i := x]) = (map f xs)[i := map f xs ! i]" using i x by (simp add: map_update)
  then show ?thesis by simp
qed

lemma fill_requests_facts:
  assumes "table_inv n t" "idx < length (ts_peers t)"
  shows "table_inv n (fst (fill_requests now idx t out))" "refills t (fst (fill_requests now idx t out))"
proof -
  let ?p = "ts_peers t ! idx" and ?pk = "ts_picker t"
  let ?space = "PIPELINE_DEPTH - length (pe_in_flight ?p)"
  have "table_inv n (fst (fill_requests now idx t out)) \<and> refills t (fst (fill_requests now idx t out))"
  proof (cases "pe_peer_choking ?p \<or> \<not> pe_we_interested ?p \<or> ?space = 0")
    case True
    then show ?thesis using assms by (auto simp: fill_requests_def Let_def)
  next
    case False
    have inv: "picker_inv ?pk" and ok: "peer_ok n (ts_next_id t) ?p"
      using assms by (auto simp: table_inv_def)
    obtain pk reqs where pick: "pick ?pk (pe_has ?p) ?space = (pk, reqs)" by fastforce
    note pr = pick_req_blocks_distinct [OF inv, of "pe_has ?p" ?space, unfolded pick snd_conv]
    obtain p' out' dups where fl: "fill_loop now reqs ?p out [] = (p', out', dups)"
      by (cases "fill_loop now reqs ?p out []") auto
    have dk: "distinct (map fst (pe_in_flight ?p))" using ok by (simp add: peer_ok_def)
    note sp = fill_loop_spec [OF fl pr(1) dk, simplified]
    have ddups: "distinct dups" "set dups = {k \<in> req_block ` set reqs. k \<in> fst ` set (pe_in_flight ?p)}"
      using sp pr(1) by auto
    let ?t' = "t\<lparr>ts_picker := fold give_back dups pk, ts_peers := (ts_peers t)[idx := p']\<rparr>"
    have res: "fst (fill_requests now idx t out) = ?t'"
      using False pick fl by (simp add: fill_requests_def Let_def)
    have pkinv: "picker_inv pk" and po: "progress_only ?pk pk"
      using pick_inv [OF inv, of "pe_has ?p" ?space] pick_progress_only [OF inv, of "pe_has ?p" ?space] pick by simp_all
    have po': "progress_only ?pk (fold give_back dups pk)"
      using progress_only_trans [OF po give_back_progress_only] .
    note fr = progress_onlyD [OF po']
    have cnt: "block_count (fold give_back dups pk) k \<le> owed ((ts_peers t)[idx := p']) k" for k
    proof -
      have "block_count pk k \<le> block_count ?pk k + (if k \<in> req_block ` set reqs then 1 else 0)"
        using pick_views(2) [OF inv, of "pe_has ?p" ?space "fst k" "snd k"] pick by (auto simp: u32_add_def)
      moreover have "block_count (fold give_back dups pk) k = block_count pk k - (if k \<in> set dups then 1 else 0)"
        by (rule pl.count_release_all [OF pkinv ddups(1)])
      moreover note table_inv_count [OF assms(1), of k]
      moreover note owed_update [OF assms(2), of p' k]
      ultimately show ?thesis using sp ddups(2) by (auto split: if_splits)
    qed
    have "holders ((ts_peers t)[idx := p']) = holders (ts_peers t)"
      using holders_update [OF assms(2), of p'] sp by (auto simp: fun_eq_iff)
    moreover have "peer_ok n (ts_next_id t) p'"
      using ok sp pr(2) False by (auto simp: peer_ok_def)
    moreover have ids: "map pe_id ((ts_peers t)[idx := p']) = map pe_id (ts_peers t)"
      using sp assms(2) by (intro update_keeps_map) auto
    ultimately have "table_inv n ?t'"
      using assms(1) cnt [of "(i, b)" for i b] fr pl.ok_release_all [OF pkinv]
      by (auto simp: table_inv_def dest!: set_update_subset_insert [THEN subsetD])
    moreover have "refills t ?t'"
      using po' sp assms(2) by (auto simp: refills_def intro!: update_keeps_map)
    ultimately show ?thesis by (simp only: res)
  qed
  then show "table_inv n (fst (fill_requests now idx t out))" "refills t (fst (fill_requests now idx t out))" by blast+
qed

lemma peers_then_picker: "t\<lparr>ts_peers := ps, ts_picker := pk\<rparr> = t\<lparr>ts_picker := pk, ts_peers := ps\<rparr>"
  by simp

subsection \<open>One request out of balance\<close>

lemma slack_cong:
  "slack_inv n e t \<Longrightarrow> ts_picker t' = ts_picker t \<Longrightarrow> ts_peers t' = ts_peers t \<Longrightarrow> ts_next_id t' = ts_next_id t \<Longrightarrow> slack_inv n e t'"
  by (simp add: slack_inv_def)

lemma slack_update:
  assumes "slack_inv n e t" "idx < length (ts_peers t)" "picker_inv pk" "pk_num_pieces pk = n"
    "\<And>k. block_count pk k \<le> owed ((ts_peers t)[idx := p]) k + (if k \<in> e' then 1 else 0)"
    "\<And>i. i < n \<Longrightarrow> availability pk i = holders ((ts_peers t)[idx := p]) i"
    "peer_ok n (ts_next_id t) p" "pe_id p = pe_id (ts_peers t ! idx)"
  shows "slack_inv n e' (t\<lparr>ts_picker := pk, ts_peers := (ts_peers t)[idx := p]\<rparr>)"
proof -
  have "map pe_id ((ts_peers t)[idx := p]) = map pe_id (ts_peers t)"
    using assms(2,8) by (intro update_keeps_map) auto
  then show ?thesis
    using assms(1,3,4,6,7) assms(5) [of "(i, b)" for i b]
    by (auto simp: slack_inv_def dest!: set_update_subset_insert [THEN subsetD])
qed

text \<open>Changing the picker alone, as long as it counts no more than before.\<close>

lemma slack_picker:
  assumes "slack_inv n e t" "picker_inv pk" "pk_num_pieces pk = n" "availability pk = availability (ts_picker t)"
    "\<And>k. block_count pk k \<le> block_count (ts_picker t) k - (if k \<in> e \<and> k \<notin> e' then 1 else 0)"
  shows "slack_inv n e' (t\<lparr>ts_picker := pk\<rparr>)"
proof -
  have "in_flight_of pk i b \<le> owed (ts_peers t) (i, b) + (if (i, b) \<in> e' then 1 else 0)" for i b
    using assms(5) [of "(i, b)"] slack_inv_count [OF assms(1), of "(i, b)"] by (auto split: if_splits)
  then show ?thesis using assms(1-4) by (auto simp: slack_inv_def)
qed

lemma slack_progress_picker:
  assumes "slack_inv n e t" "picker_inv pk" "progress_only (ts_picker t) pk"
    "\<And>k. block_count pk k \<le> block_count (ts_picker t) k - (if k \<in> e \<and> k \<notin> e' then 1 else 0)"
  shows "slack_inv n e' (t\<lparr>ts_picker := pk\<rparr>)"
proof (rule slack_picker [OF assms(1,2) _ _ assms(4)])
  have "pk_num_pieces (ts_picker t) = n" using assms(1) by (simp add: slack_inv_def)
  then show "pk_num_pieces pk = n" "availability pk = availability (ts_picker t)"
    using progress_onlyD [OF assms(3)] by simp_all
qed

lemma holders_same: "idx < length ps \<Longrightarrow> pe_has p = pe_has (ps ! idx) \<Longrightarrow> holders (ps[idx := p]) i = holders ps i"
  using holders_update [of idx ps p i] by simp

lemma slack_invD:
  assumes "slack_inv n e t"
  shows "picker_inv (ts_picker t)" "pk_num_pieces (ts_picker t) = n"
    "i < n \<Longrightarrow> availability (ts_picker t) i = holders (ts_peers t) i"
    "p \<in> set (ts_peers t) \<Longrightarrow> peer_ok n (ts_next_id t) p" "length (ts_peers t) \<le> u32_max" "distinct (map pe_id (ts_peers t))"
  using assms by (simp_all add: slack_inv_def)

lemma peer_ok_remove: "peer_ok n m p \<Longrightarrow> peer_ok n m (p\<lparr>pe_in_flight := hm_remove k (pe_in_flight p)\<rparr>)"
  using hm_remove_length [of k "pe_in_flight p"] by (auto simp: peer_ok_def hm_remove_distinct)

text \<open>A peer that owes a block and no longer does.\<close>

lemma owed_remove:
  assumes "i < length ps"
  shows "owed (ps[i := (ps ! i)\<lparr>pe_in_flight := hm_remove key (pe_in_flight (ps ! i))\<rparr>]) k +
    (if k = key \<and> key \<in> fst ` set (pe_in_flight (ps ! i)) then 1 else 0) = owed ps k"
  using owed_update [OF assms, of "(ps ! i)\<lparr>pe_in_flight := hm_remove key (pe_in_flight (ps ! i))\<rparr>" k]
  by (cases "k = key") (simp_all del: set_bt_remove)

lemma remove_request_slack:
  assumes "table_inv n t" "idx < length (ts_peers t)"
  shows "slack_inv n {k} (upd_peer idx (\<lambda>p. p\<lparr>pe_in_flight := hm_remove k (pe_in_flight p)\<rparr>) t)"
proof -
  let ?p = "ts_peers t ! idx"
  let ?p' = "?p\<lparr>pe_in_flight := hm_remove k (pe_in_flight ?p)\<rparr>"
  have s: "slack_inv n {} t" using assms(1) by (simp add: slack_inv_empty)
  note sd = slack_invD [OF s]
  have "slack_inv n {k} (t\<lparr>ts_picker := ts_picker t, ts_peers := (ts_peers t)[idx := ?p']\<rparr>)"
  proof (rule slack_update [OF s assms(2) sd(1,2)])
    fix k' show "block_count (ts_picker t) k' \<le> owed ((ts_peers t)[idx := ?p']) k' + (if k' \<in> {k} then 1 else 0)"
      using table_inv_count [OF assms(1), of k'] owed_remove [OF assms(2), of k k'] by (auto split: if_splits)
  next
    show "availability (ts_picker t) i = holders ((ts_peers t)[idx := ?p']) i" if "i < n" for i
      using sd(3) [OF that] assms(2) by (simp add: holders_same)
  next
    show "peer_ok n (ts_next_id t) ?p'" using sd(4) assms(2) by (intro peer_ok_remove) simp
  qed simp
  then show ?thesis by (simp add: upd_peer_def)
qed

lemma cancel_loop_slack:
  assumes "slack_inv n e t" "set others \<subseteq> {..<length (ts_peers t)}"
  shows "slack_inv n e (fst (cancel_loop idx key msg others t out)) \<and> refills t (fst (cancel_loop idx key msg others t out))"
  using assms
proof (induction others arbitrary: t out)
  case (Cons j js)
  let ?p = "ts_peers t ! j"
  have j: "j < length (ts_peers t)" "set js \<subseteq> {..<length (ts_peers t)}" using Cons.prems(2) by auto
  show ?case
  proof (cases "j = idx \<or> map_of (pe_in_flight ?p) key = None")
    case True
    then show ?thesis using Cons.IH [OF Cons.prems(1) j(2)] by (simp add: Let_def)
  next
    case False
    let ?p' = "?p\<lparr>pe_in_flight := hm_remove key (pe_in_flight ?p)\<rparr>"
    let ?pk = "block_failed (ts_picker t) (fst key) (snd key)"
    let ?t = "t\<lparr>ts_picker := ?pk, ts_peers := (ts_peers t)[j := ?p']\<rparr>"
    have key: "key \<in> fst ` set (pe_in_flight ?p)" using False by (simp add: map_of_keys)
    note sd = slack_invD [OF Cons.prems(1)]
    note fr = progress_onlyD [OF block_failed_progress_only [of "ts_picker t" "fst key" "snd key"]]
    have inv: "slack_inv n e ?t"
    proof (rule slack_update [OF Cons.prems(1) j(1)])
      show "picker_inv ?pk" using sd(1) by (rule block_failed_inv)
      show "pk_num_pieces ?pk = n" using sd(2) fr by simp
      show "block_count ?pk k \<le> owed ((ts_peers t)[j := ?p']) k + (if k \<in> e then 1 else 0)" for k
        using slack_inv_count [OF Cons.prems(1), of k] owed_remove [OF j(1), of key k] key
        unfolding block_failed_count_key by (cases "k = key") (auto split: if_splits)
      show "availability ?pk i = holders ((ts_peers t)[j := ?p']) i" if "i < n" for i
        using sd(3) [OF that] fr j(1) by (simp add: holders_same)
      show "peer_ok n (ts_next_id t) ?p'" using sd(4) j(1) by (intro peer_ok_remove) simp
    qed simp
    have "refills t ?t"
      using block_failed_progress_only j(1) by (auto simp: refills_def intro!: update_keeps_map)
    moreover have "slack_inv n e (fst (cancel_loop idx key msg js ?t (out @ [(pe_id ?p, msg)]))) \<and>
        refills ?t (fst (cancel_loop idx key msg js ?t (out @ [(pe_id ?p, msg)])))"
      using j(2) by (intro Cons.IH [OF inv]) simp
    moreover have "cancel_loop idx key msg (j # js) t out = cancel_loop idx key msg js ?t (out @ [(pe_id ?p, msg)])"
      using False by (auto simp: Let_def upd_peer_def peers_then_picker)
    ultimately show ?thesis using refills_trans [of t ?t] by simp
  qed
qed simp

end
