(* ===== verification/Torrent_Steps.thy ===== *)
theory Torrent_Steps
  imports Torrent_Inv
begin

text \<open>
  Every critical section of the torrent keeps the accounting of \<open>Torrent_Inv\<close>, never loses a held
  piece, and holds only pieces whose bytes on disk have the right hash. The sections are then
  the steps of a transition system.
\<close>

subsection \<open>Content\<close>

definition same_content :: "torrent \<Rightarrow> torrent \<Rightarrow> bool" where
  "same_content t t' \<longleftrightarrow> pk_have (ts_picker t') = pk_have (ts_picker t) \<and> geom (ts_picker t') = geom (ts_picker t) \<and>
     ts_disk t' = ts_disk t"

definition held_ok :: "(bytes \<Rightarrow> bytes) \<Rightarrow> shared \<Rightarrow> torrent \<Rightarrow> bool" where
  "held_ok sha1 sh t \<longleftrightarrow> (\<forall>i. pk_has (ts_picker t) i \<longrightarrow> piece_ok sha1 (ts_disk t) (sh_storage sh) i)"

definition advance :: "(bytes \<Rightarrow> bytes) \<Rightarrow> shared \<Rightarrow> torrent \<Rightarrow> torrent \<Rightarrow> bool" where
  "advance sha1 sh t t' \<longleftrightarrow> geom (ts_picker t') = geom (ts_picker t) \<and>
     (\<forall>i. pk_has (ts_picker t) i \<longrightarrow> pk_has (ts_picker t') i) \<and> (held_ok sha1 sh t \<longrightarrow> held_ok sha1 sh t')"

lemma same_content_refl [simp]: "same_content t t"
  by (simp add: same_content_def)

lemma same_content_trans [trans]: "same_content t t' \<Longrightarrow> same_content t' t'' \<Longrightarrow> same_content t t''"
  by (simp add: same_content_def)

lemma advance_refl [simp]: "advance sha1 sh t t"
  by (simp add: advance_def)

lemma advance_trans [trans]: "advance sha1 sh t t' \<Longrightarrow> advance sha1 sh t' t'' \<Longrightarrow> advance sha1 sh t t''"
  by (simp add: advance_def)

lemma same_content_advance: "same_content t t' \<Longrightarrow> advance sha1 sh t t'"
  by (simp add: same_content_def advance_def held_ok_def pk_has_def)

lemma refills_content: "refills t t' \<Longrightarrow> same_content t t'"
  using progress_onlyD by (auto simp: refills_def same_content_def)

lemma core_eq_content: "core_eq t t' \<Longrightarrow> same_content t t'"
  by (simp add: core_eq_def same_content_def)

text \<open>What a section owes: the accounting, the content and the number of peers.\<close>

definition settles :: "nat \<Rightarrow> torrent \<Rightarrow> torrent \<Rightarrow> bool" where
  "settles n t t' \<longleftrightarrow> table_inv n t' \<and> same_content t t' \<and> length (ts_peers t') = length (ts_peers t)"

lemma settles_refl: "table_inv n t \<Longrightarrow> settles n t t"
  by (simp add: settles_def)

lemma settles_trans [trans]: "settles n t t' \<Longrightarrow> settles n t' t'' \<Longrightarrow> settles n t t''"
  by (auto simp: settles_def intro: same_content_trans)

lemma core_eq_settles: "table_inv n t \<Longrightarrow> core_eq t t' \<Longrightarrow> settles n t t'"
  by (simp add: settles_def core_eq_inv core_eq_content core_eq_length)

lemma fill_requests_settles:
  "table_inv n t \<Longrightarrow> idx < length (ts_peers t) \<Longrightarrow> settles n t (fst (fill_requests now idx t out))"
  using fill_requests_facts [of n t idx now out] by (simp add: settles_def refills_content refills_length)

lemma update_interest_settles:
  assumes "table_inv n t" "idx < length (ts_peers t)"
  shows "settles n t (fst (update_interest now idx t out))"
proof -
  let ?t1 = "\<lambda>b. upd_peer idx (\<lambda>p. p\<lparr>pe_we_interested := b\<rparr>) t"
  have t1: "settles n t (?t1 b)" for b
    using assms by (intro core_eq_settles upd_peer_core_eq) (simp_all add: core_def)
  have "settles n t (fst (fill_requests now idx (?t1 b) out'))" for b out'
    using t1 [of b] assms(2) by (intro settles_trans [OF t1 fill_requests_settles]) (auto simp: settles_def)
  then show ?thesis using t1 settles_refl [OF assms(1)] by (auto simp: update_interest_def Let_def)
qed

subsection \<open>A block arrives\<close>

lemma slack_settled:
  assumes "slack_inv n {k} t" "block_count (ts_picker t) k = 0"
  shows "table_inv n t"
proof -
  have "in_flight_of (ts_picker t) i b \<le> owed (ts_peers t) (i, b)" for i b
    using slack_inv_count [OF assms(1), of "(i, b)"] assms(2) by (cases "(i, b) = k") auto
  then show ?thesis using assms(1) by (simp add: slack_inv_def table_inv_def)
qed

lemma held_not_counted:
  assumes "picker_inv p" "pk_has p i"
  shows "in_flight_of p i b = 0"
proof -
  have "bt_get (pk_progress p) i = None"
    using assms by (cases "bt_get (pk_progress p) i") (auto simp: picker_inv_def pk_has_def)
  then show ?thesis by (simp add: in_flight_of_def)
qed

lemma give_back_slack:
  assumes "slack_inv n {(i, b)} t"
  shows "table_inv n (t\<lparr>ts_picker := block_failed (ts_picker t) i b\<rparr>)"
proof -
  have "slack_inv n {} (t\<lparr>ts_picker := block_failed (ts_picker t) i b\<rparr>)"
    using slack_invD(1) [OF assms] block_failed_progress_only
    by (intro slack_progress_picker [OF assms block_failed_inv]) (auto simp: block_failed_count)
  then show ?thesis by (simp add: slack_inv_empty)
qed

lemma block_received_slack:
  assumes "slack_inv n {(i, b)} t"
  shows "table_inv n (t\<lparr>ts_picker := fst (block_received (ts_picker t) i b)\<rparr>)"
proof -
  have "slack_inv n {} (t\<lparr>ts_picker := fst (block_received (ts_picker t) i b)\<rparr>)"
    using slack_invD(1) [OF assms] block_received_progress_only block_received_count
    by (intro slack_progress_picker [OF assms block_received_inv]) auto
  then show ?thesis by (simp add: slack_inv_empty)
qed

lemma table_picker:
  assumes "table_inv n t" "picker_inv pk" "pk_num_pieces pk = n" "availability pk = availability (ts_picker t)"
    "\<And>k. block_count pk k \<le> block_count (ts_picker t) k"
  shows "table_inv n (t\<lparr>ts_picker := pk\<rparr>)"
  using slack_picker [of n "{}" t pk "{}"] assms by (simp add: slack_inv_empty)

lemma table_set_have: "table_inv n t \<Longrightarrow> table_inv n (t\<lparr>ts_picker := set_have (ts_picker t) i\<rparr>)"
  and table_reset: "table_inv n t \<Longrightarrow> table_inv n (t\<lparr>ts_picker := reset_piece (ts_picker t) i\<rparr>)"
  using table_picker [of n t "set_have (ts_picker t) i"] table_picker [of n t "reset_piece (ts_picker t) i"]
  by (simp_all add: table_inv_def [of n t] set_have_inv reset_piece_inv set_have_count reset_piece_count)

lemma table_cong:
  "table_inv n t \<Longrightarrow> ts_picker t' = ts_picker t \<Longrightarrow> ts_peers t' = ts_peers t \<Longrightarrow> ts_next_id t' = ts_next_id t \<Longrightarrow> table_inv n t'"
  by (simp add: table_inv_def)

lemma block_written_inv:
  assumes "slack_inv n {(i, b)} t"
  shows "table_inv n (fst (fst (block_written sha1 flt sh i b t out))) \<and>
    length (ts_peers (fst (fst (block_written sha1 flt sh i b t out)))) = length (ts_peers t)"
proof -
  obtain pk c where r: "block_received (ts_picker t) i b = (pk, c)" by fastforce
  let ?t1 = "t\<lparr>ts_picker := pk\<rparr>"
  have t1: "table_inv n ?t1" using block_received_slack [OF assms] r by simp
  have "table_inv n (?t1\<lparr>ts_storage_error := e\<rparr>)" for e using t1 by (rule table_cong) simp_all
  moreover have "table_inv n (credit_suppliers i (?t1\<lparr>ts_picker := set_have pk i\<rparr>))"
    using core_eq_inv [OF table_set_have [OF t1] credit_core_eq] by simp
  moreover have "table_inv n (blame_suppliers i (?t1\<lparr>ts_picker := reset_piece pk i\<rparr>))"
    using core_eq_inv [OF table_reset [OF t1] blame_core_eq] by simp
  moreover have "length (ts_peers (credit_suppliers i (?t1\<lparr>ts_picker := set_have pk i\<rparr>))) = length (ts_peers t)"
    "length (ts_peers (blame_suppliers i (?t1\<lparr>ts_picker := reset_piece pk i\<rparr>))) = length (ts_peers t)"
    using core_eq_length [OF credit_core_eq] core_eq_length [OF blame_core_eq] by simp_all
  ultimately show ?thesis
    using r t1 by (auto simp: block_written_def Let_def split: sum.splits bool.splits)
qed

lemma hm_remove_absent: "map_of m k = None \<Longrightarrow> hm_remove k m = m"
  by (auto simp: bt_remove_def map_of_keys filter_id_conv)

text \<open>The state once a block has been written, before the picker hears of it.\<close>

definition after_write :: "nat \<Rightarrow> nat \<times> nat \<Rightarrow> nat \<Rightarrow> disk \<Rightarrow> torrent \<Rightarrow> torrent" where
  "after_write idx key len disk t =
     (let t = t\<lparr>ts_disk := disk, ts_downloaded := u64_add (ts_downloaded t) len\<rparr>;
          t = upd_peer idx (\<lambda>p. p\<lparr>pe_downloaded := u64_add (pe_downloaded p) len\<rparr>) t in
      t\<lparr>ts_suppliers := hm_insert key (pe_dest (ts_peers t ! idx)) (ts_suppliers t)\<rparr>)"

definition before_write :: "nat \<Rightarrow> nat \<times> nat \<Rightarrow> torrent \<Rightarrow> torrent" where
  "before_write idx key t =
     (let was_requested = map_of (pe_in_flight (ts_peers t ! idx)) key \<noteq> None;
          t = upd_peer idx (\<lambda>p. p\<lparr>pe_in_flight := hm_remove key (pe_in_flight p)\<rparr>) t in
      if was_requested then upd_peer idx (\<lambda>p. p\<lparr>pe_strikes := 0\<rparr>) t else t)"

definition finish_write ::
  "(bytes \<Rightarrow> bytes) \<Rightarrow> faults \<Rightarrow> shared \<Rightarrow> nat \<Rightarrow> nat \<Rightarrow> nat \<Rightarrow> nat \<Rightarrow> nat \<Rightarrow> torrent \<Rightarrow> outgoing \<Rightarrow> torrent \<times> outgoing" where
  "finish_write sha1 flt sh now idx index begn block_no t out =
     (let (t, out) = cancel_elsewhere idx index begn block_no t out;
          ((t, out), complete) = block_written sha1 flt sh index block_no t out in
      if complete then fill_requests now idx t out else (t, out))"

lemma on_block_alt:
  "on_block sha1 flt sh now idx index begn block t out =
     (if begn mod BLOCK_LEN \<noteq> 0 \<or> index \<ge> sh_num_pieces sh then (t, out)
      else
        let block_no = begn div BLOCK_LEN in
        if length block \<noteq> block_len (ts_picker t) index block_no then (t, out)
        else
          let was_requested = map_of (pe_in_flight (ts_peers t ! idx)) (index, block_no) \<noteq> None;
              t = before_write idx (index, block_no) t in
          if \<not> was_requested \<or> pk_has (ts_picker t) index then fill_requests now idx t out
          else if is_received (ts_picker t) index block_no then
            fill_requests now idx (t\<lparr>ts_picker := block_failed (ts_picker t) index block_no\<rparr>) out
          else
            (case write_block flt (sh_storage sh) index begn block (ts_disk t) of
               (disk, Inl e) \<Rightarrow>
                 fill_requests now idx
                   (t\<lparr>ts_disk := disk, ts_picker := block_failed (ts_picker t) index block_no,
                      ts_storage_error := Some e\<rparr>) out
             | (disk, Inr _) \<Rightarrow>
                 finish_write sha1 flt sh now idx index begn block_no
                   (after_write idx (index, block_no) (length block) disk t) out))"
  unfolding on_block_def before_write_def after_write_def finish_write_def Let_def by (rule refl)

lemma before_write_facts:
  assumes "table_inv n t" "idx < length (ts_peers t)"
  shows "slack_inv n {k} (before_write idx k t)" "length (ts_peers (before_write idx k t)) = length (ts_peers t)"
    "ts_picker (before_write idx k t) = ts_picker t" "ts_disk (before_write idx k t) = ts_disk t"
    "map_of (pe_in_flight (ts_peers t ! idx)) k = None \<Longrightarrow> core_eq t (before_write idx k t)"
proof -
  let ?u = "upd_peer idx (\<lambda>p. p\<lparr>pe_in_flight := hm_remove k (pe_in_flight p)\<rparr>) t"
  have s: "slack_inv n {k} ?u" using assms by (rule remove_request_slack)
  have "core_eq ?u (upd_peer idx (\<lambda>p. p\<lparr>pe_strikes := 0\<rparr>) ?u)"
    using assms(2) by (intro upd_peer_core_eq) (simp_all add: core_def upd_peer_def)
  from core_eq_slack [OF s this] s show "slack_inv n {k} (before_write idx k t)"
    by (simp add: before_write_def Let_def)
  show "length (ts_peers (before_write idx k t)) = length (ts_peers t)"
    "ts_picker (before_write idx k t) = ts_picker t" "ts_disk (before_write idx k t) = ts_disk t"
    by (simp_all add: before_write_def Let_def upd_peer_def)
  assume "map_of (pe_in_flight (ts_peers t ! idx)) k = None"
  then have "before_write idx k t = t" by (simp add: before_write_def Let_def upd_peer_def hm_remove_absent)
  then show "core_eq t (before_write idx k t)" by simp
qed

lemma after_write_facts:
  assumes "slack_inv n e t" "idx < length (ts_peers t)"
  shows "slack_inv n e (after_write idx k len disk t)" "length (ts_peers (after_write idx k len disk t)) = length (ts_peers t)"
    "ts_picker (after_write idx k len disk t) = ts_picker t" "ts_disk (after_write idx k len disk t) = disk"
proof -
  let ?u = "t\<lparr>ts_disk := disk, ts_downloaded := u64_add (ts_downloaded t) len\<rparr>"
  have "slack_inv n e ?u" using assms(1) by (rule slack_cong) simp_all
  moreover have "core_eq ?u (upd_peer idx (\<lambda>p. p\<lparr>pe_downloaded := u64_add (pe_downloaded p) len\<rparr>) ?u)"
    using assms(2) by (intro upd_peer_core_eq) (simp_all add: core_def)
  ultimately have "slack_inv n e (upd_peer idx (\<lambda>p. p\<lparr>pe_downloaded := u64_add (pe_downloaded p) len\<rparr>) ?u)"
    by (rule core_eq_slack)
  then show "slack_inv n e (after_write idx k len disk t)"
    unfolding after_write_def Let_def by (rule slack_cong) simp_all
  show "length (ts_peers (after_write idx k len disk t)) = length (ts_peers t)"
    "ts_picker (after_write idx k len disk t) = ts_picker t" "ts_disk (after_write idx k len disk t) = disk"
    by (simp_all add: after_write_def Let_def upd_peer_def)
qed

lemma atLeastLessThan_subset_lessThan: "set [0..<m] \<subseteq> {..<m}"
  by auto

lemma cancel_elsewhere_facts:
  assumes "slack_inv n e t"
  shows "slack_inv n e (fst (cancel_elsewhere idx index begn b t out))" "refills t (fst (cancel_elsewhere idx index begn b t out))"
  using cancel_loop_slack [OF assms atLeastLessThan_subset_lessThan] by (simp_all add: cancel_elsewhere_def)

lemma on_block_inv:
  assumes "table_inv n t" "idx < length (ts_peers t)"
  shows "table_inv n (fst (on_block sha1 flt sh now idx index begn block t out))"
proof -
  let ?b = "begn div BLOCK_LEN"
  let ?t = "before_write idx (index, ?b) t"
  note bw = before_write_facts [OF assms, of "(index, ?b)"]
  have idx: "idx < length (ts_peers ?t)" using bw(2) assms(2) by simp
  have fill: "table_inv n (fst (fill_requests now idx t' out'))" if "table_inv n t'" "idx < length (ts_peers t')" for t' out'
    using fill_requests_facts(1) [OF that] .
  have early: "table_inv n (fst (fill_requests now idx ?t out'))"
    if "map_of (pe_in_flight (ts_peers t ! idx)) (index, ?b) = None \<or> pk_has (ts_picker ?t) index" for out'
  proof -
    have "table_inv n ?t"
      using that core_eq_inv [OF assms(1) bw(5)] slack_settled [OF bw(1)] held_not_counted [OF slack_invD(1) [OF bw(1)]] by auto
    then show ?thesis using idx by (rule fill)
  qed
  have failed: "table_inv n (fst (fill_requests now idx (?t\<lparr>ts_disk := d, ts_picker := block_failed (ts_picker ?t) index ?b, ts_storage_error := e\<rparr>) out'))"
    for d e out'
  proof (rule fill)
    show "table_inv n (?t\<lparr>ts_disk := d, ts_picker := block_failed (ts_picker ?t) index ?b, ts_storage_error := e\<rparr>)"
      using give_back_slack [OF bw(1)] by (rule table_cong) simp_all
  qed (use idx in simp)
  have given: "table_inv n (fst (fill_requests now idx (?t\<lparr>ts_picker := block_failed (ts_picker ?t) index ?b\<rparr>) out'))" for out'
    using give_back_slack [OF bw(1)] idx by (intro fill) simp_all
  have written: "table_inv n (fst (finish_write sha1 flt sh now idx index begn ?b (after_write idx (index, ?b) (length block) disk ?t) out'))"
    for disk out'
  proof -
    let ?a = "after_write idx (index, ?b) (length block) disk ?t"
    note aw = after_write_facts [OF bw(1) idx, of "(index, ?b)" "length block" disk]
    obtain t1 out1 where c: "cancel_elsewhere idx index begn ?b ?a out' = (t1, out1)" by fastforce
    note ce = cancel_elsewhere_facts [OF aw(1), of idx index begn ?b out', unfolded c fst_conv]
    obtain t2 out2 complete where w: "block_written sha1 flt sh index ?b t1 out1 = ((t2, out2), complete)" by (metis prod.collapse)
    note bwr = block_written_inv [OF ce(1), of sha1 flt sh out1, unfolded w fst_conv]
    have "idx < length (ts_peers t2)" using bwr refills_length [OF ce(2)] aw(2) idx by simp
    then show ?thesis using bwr fill c w by (simp add: finish_write_def)
  qed
  show ?thesis
    unfolding on_block_alt using assms early failed given written
    by (auto simp: Let_def split: prod.splits sum.splits)
qed

subsection \<open>What is held is on disk\<close>

text \<open>Verification is sound whatever the operating system reports: success means the bytes are there
  and hash to the expected value.\<close>

lemma hash_loop_sound:
  assumes "storage_wf st"
  shows "done \<le> len \<Longrightarrow> present st disk (i * st_piece_length st) done \<Longrightarrow>
    snd (hash_loop flt disk st i len done (space_bytes st disk (i * st_piece_length st) done) scratch) = Inr (Some h) \<Longrightarrow>
    present st disk (i * st_piece_length st) len \<and> h = space_bytes st disk (i * st_piece_length st) len"
proof (induction "len - done" arbitrary: "done" scratch rule: less_induct)
  case less
  let ?s = "i * st_piece_length st"
  let ?h = "space_bytes st disk ?s done"
  show ?case
  proof (cases "done < len")
    case False
    then have "done = len" using less.prems by simp
    then show ?thesis using less.prems by (simp add: hash_loop.simps)
  next
    case True
    define chunk where "chunk = min (len - done) VERIFY_CHUNK"
    have c: "0 < chunk" "done + chunk \<le> len" using True by (auto simp: chunk_def VERIFY_CHUNK_def BLOCK_LEN_def)
    obtain out res where r: "read_block_into flt disk st i done chunk scratch = (out, res)" by fastforce
    have bs: "block_start st i done = ?s + done" by (simp add: block_start_def)
    have res: "res = Inr ()"
      using less.prems(3) r True by (subst (asm) hash_loop.simps) (auto simp: Let_def chunk_def [symmetric] split: sum.splits if_splits)
    have p: "present st disk (?s + done) chunk"
      using read_block_into_facts(1) [OF assms r res] by (auto simp: present_def bs)
    have out: "out = space_bytes st disk (?s + done) chunk"
      using read_block_into_bytes [OF assms, of flt disk i "done" chunk scratch out] r res by (simp add: bs)
    have step: "hash_loop flt disk st i len done ?h scratch =
        hash_loop flt disk st i len (done + chunk) (space_bytes st disk ?s (done + chunk)) out"
      using True r res out by (subst hash_loop.simps) (simp add: Let_def chunk_def [symmetric] space_bytes_append)
    show ?thesis
      using less.hyps [of "done + chunk" out] less.prems c p True unfolding step by (simp add: present_append)
  qed
qed

lemma verify_piece_sound:
  assumes "storage_wf st" "verify_piece sha1 flt disk st i = Inr True"
  shows "piece_ok sha1 disk st i"
proof -
  let ?len = "st_piece_len st i"
  obtain s' h where "0 < ?len" "i < length (st_hashes st)" "hash_loop flt disk st i ?len 0 [] [] = (s', Inr (Some h))"
      "st_hashes st ! i = sha1 h"
    using assms(2) by (auto simp: verify_piece_def verify_piece_into_def Let_def split: if_splits prod.splits sum.splits option.splits)
  then show ?thesis
    using hash_loop_sound [OF assms(1), of 0 ?len disk i flt "[]" h] by (simp add: piece_ok_def Let_def present_def space_bytes_def)
qed

text \<open>Writing inside one piece leaves every other verified piece verified.\<close>

lemma write_keeps_piece:
  assumes "storage_wf st" "write_block flt st index begn data disk = (disk', res)" "piece_ok sha1 disk st j" "j \<noteq> index"
    "data = [] \<or> begn + length data \<le> st_piece_length st"
  shows "piece_ok sha1 disk' st j"
proof -
  let ?s = "j * st_piece_length st" and ?len = "st_piece_len st j"
  have pl: "?len \<le> st_piece_length st" by (auto simp: st_piece_len_def Let_def u32_clamp_def)
  have same: "st_byte st disk' x = st_byte st disk x" if x: "x \<in> {?s..<?s + ?len}" for x
  proof -
    have "x \<notin> block_range st index begn (length data)"
    proof (cases "j < index")
      case True
      then have "Suc j * st_piece_length st \<le> index * st_piece_length st" by (intro mult_right_mono) auto
      then show ?thesis using x pl by (auto simp: block_start_def)
    next
      case False
      then have "Suc index * st_piece_length st \<le> j * st_piece_length st" using assms(4) by (intro mult_right_mono) auto
      then show ?thesis using x assms(5) by (auto simp: block_start_def)
    qed
    then have "keeps (st_byte st disk x) (st_byte st disk' x)" by (rule write_block_facts(2) [OF assms(1,2)])
    moreover have "st_byte st disk x \<noteq> None" using assms(3) x by (simp add: piece_ok_def Let_def present_def)
    ultimately show ?thesis by (auto simp: keeps_def)
  qed
  then have "space_bytes st disk' ?s ?len = space_bytes st disk ?s ?len" "present st disk' ?s ?len = present st disk ?s ?len"
    by (simp_all add: space_bytes_def present_def)
  then show ?thesis using assms(3) by (simp add: piece_ok_def Let_def)
qed

definition sh_ok :: "nat \<Rightarrow> shared \<Rightarrow> torrent \<Rightarrow> bool" where
  "sh_ok n sh t \<longleftrightarrow> storage_wf (sh_storage sh) \<and> sh_num_pieces sh = n \<and>
     geom (ts_picker t) = (n, st_piece_length (sh_storage sh), st_total_length (sh_storage sh))"

lemma sh_ok_geom: "sh_ok n sh t \<Longrightarrow> geom (ts_picker t') = geom (ts_picker t) \<Longrightarrow> sh_ok n sh t'"
  by (simp add: sh_ok_def)

lemma advance_sh_ok: "sh_ok n sh t \<Longrightarrow> advance sha1 sh t t' \<Longrightarrow> sh_ok n sh t'"
  by (simp add: sh_ok_def advance_def)

lemma block_fits_piece:
  assumes "sh_ok n sh t" "begn mod BLOCK_LEN = 0" "len = block_len (ts_picker t) i (begn div BLOCK_LEN)"
  shows "len = 0 \<or> begn + len \<le> st_piece_length (sh_storage sh)"
proof (cases "begn div BLOCK_LEN < blocks_in_piece (ts_picker t) i")
  case True
  have "begn div BLOCK_LEN * BLOCK_LEN = begn" using assms(2) by auto
  then have "begn + len \<le> piece_len (ts_picker t) i \<or> len = 0"
    using block_len_eq [OF True] assms(3) by auto
  moreover have "piece_len (ts_picker t) i \<le> pk_piece_length (ts_picker t)"
    by (auto simp: piece_len_def Let_def u32_clamp_def)
  ultimately show ?thesis using assms(1) by (auto simp: sh_ok_def geom_def)
next
  case False
  then have "piece_len (ts_picker t) i \<le> u32_sat_mul (begn div BLOCK_LEN) BLOCK_LEN"
    using block_in_piece [of "begn div BLOCK_LEN" "ts_picker t" i] piece_len_u32 [of "ts_picker t" i] by (simp add: u32_sat_mul_def)
  then show ?thesis using assms(3) by (simp add: block_len_def Let_def)
qed

lemma set_have_has: "picker_inv p \<Longrightarrow> pk_has (set_have p i) j \<longleftrightarrow> pk_has p j \<or> (j = i \<and> i < pk_num_pieces p)"
  by (auto simp: set_have_def Let_def pk_has_def picker_inv_def has_set)

lemma reset_piece_has: "picker_inv p \<Longrightarrow> pk_has (reset_piece p i) j \<longleftrightarrow> pk_has p j \<and> (j \<noteq> i \<or> \<not> i < pk_num_pieces p)"
  by (auto simp: reset_piece_def Let_def pk_has_def picker_inv_def has_clear)

lemma block_written_content:
  assumes "slack_inv n {(i, b)} t" "\<not> pk_has (ts_picker t) i" "sh_ok n sh t"
  shows "advance sha1 sh t (fst (fst (block_written sha1 flt sh i b t out)))"
proof -
  obtain pk c where r: "block_received (ts_picker t) i b = (pk, c)" by fastforce
  let ?t1 = "t\<lparr>ts_picker := pk\<rparr>"
  have po: "progress_only (ts_picker t) pk" using block_received_progress_only [of "ts_picker t" i b] r by simp
  note fr = progress_onlyD [OF po]
  have inv: "picker_inv pk" using block_received_inv [OF slack_invD(1) [OF assms(1)], of i b] r by simp
  have t1: "same_content t ?t1" using fr by (simp add: same_content_def)
  have st: "storage_wf (sh_storage sh)" using assms(3) by (simp add: sh_ok_def)
  have e: "advance sha1 sh t (?t1\<lparr>ts_storage_error := er\<rparr>)" for er
    using t1 by (intro same_content_advance) (simp add: same_content_def)
  have good: "advance sha1 sh t (credit_suppliers i (?t1\<lparr>ts_picker := set_have pk i\<rparr>))"
    if "verify_piece sha1 flt (ts_disk t) (sh_storage sh) i = Inr True"
  proof -
    have "advance sha1 sh t (?t1\<lparr>ts_picker := set_have pk i\<rparr>)"
      using verify_piece_sound [OF st that] fr inv
      by (auto simp: advance_def held_ok_def set_have_has) (auto simp: pk_has_def)
    then show ?thesis using same_content_advance [OF core_eq_content [OF credit_core_eq]] advance_trans by blast
  qed
  have bad: "advance sha1 sh t (blame_suppliers i (?t1\<lparr>ts_picker := reset_piece pk i\<rparr>))"
  proof -
    have "advance sha1 sh t (?t1\<lparr>ts_picker := reset_piece pk i\<rparr>)"
      using fr inv assms(2) by (auto simp: advance_def held_ok_def reset_piece_has) (auto simp: pk_has_def)
    then show ?thesis using same_content_advance [OF core_eq_content [OF blame_core_eq]] advance_trans by blast
  qed
  show ?thesis
    using r e good bad same_content_advance [OF t1] by (auto simp: block_written_def Let_def split: sum.splits bool.splits)
qed

lemma write_advance:
  assumes "sh_ok n sh t" "write_block flt (sh_storage sh) i begn data (ts_disk t) = (disk, res)" "\<not> pk_has (ts_picker t) i"
    "data = [] \<or> begn + length data \<le> st_piece_length (sh_storage sh)"
    "ts_disk t' = disk" "pk_have (ts_picker t') = pk_have (ts_picker t)" "geom (ts_picker t') = geom (ts_picker t)"
  shows "advance sha1 sh t t'"
proof -
  have "piece_ok sha1 disk (sh_storage sh) j" if "held_ok sha1 sh t" "pk_has (ts_picker t) j" for j
  proof (rule write_keeps_piece [OF _ assms(2)])
    show "storage_wf (sh_storage sh)" using assms(1) by (simp add: sh_ok_def)
    show "piece_ok sha1 (ts_disk t) (sh_storage sh) j" using that by (simp add: held_ok_def)
    show "j \<noteq> i" using that assms(3) by blast
  qed (rule assms(4))
  then show ?thesis using assms(5-7) by (auto simp: advance_def held_ok_def pk_has_def)
qed

lemma fill_requests_content:
  assumes "picker_inv (ts_picker t)"
  shows "same_content t (fst (fill_requests now idx t out))"
proof -
  let ?p = "ts_peers t ! idx"
  obtain pk reqs where pick: "pick (ts_picker t) (pe_has ?p) (PIPELINE_DEPTH - length (pe_in_flight ?p)) = (pk, reqs)" by fastforce
  obtain p' out' dups where fl: "fill_loop now reqs ?p out [] = (p', out', dups)" by (cases "fill_loop now reqs ?p out []") auto
  have "progress_only (ts_picker t) pk"
    using pick_progress_only [OF assms, of "pe_has ?p" "PIPELINE_DEPTH - length (pe_in_flight ?p)"] pick by simp
  then have "progress_only (ts_picker t) (fold give_back dups pk)" using give_back_progress_only progress_only_trans by blast
  from progress_onlyD [OF this] show ?thesis using pick fl by (simp add: fill_requests_def Let_def same_content_def)
qed

lemma on_block_content:
  assumes "table_inv n t" "idx < length (ts_peers t)" "sh_ok n sh t"
  shows "advance sha1 sh t (fst (on_block sha1 flt sh now idx index begn block t out))"
proof -
  let ?b = "begn div BLOCK_LEN"
  let ?t = "before_write idx (index, ?b) t"
  note bw = before_write_facts [OF assms(1,2), of "(index, ?b)"]
  have idx: "idx < length (ts_peers ?t)" using bw(2) assms(2) by simp
  have inv: "picker_inv (ts_picker ?t)" "picker_inv (ts_picker t)" using slack_invD(1) [OF bw(1)] bw(3) by simp_all
  have fill: "advance sha1 sh t (fst (fill_requests now idx t' out'))"
    if "advance sha1 sh t t'" "picker_inv (ts_picker t')" for t' out'
    using advance_trans [OF that(1) same_content_advance [OF fill_requests_content [OF that(2)]]] .
  have start: "same_content t ?t" using bw(3,4) by (simp add: same_content_def)
  have ignored: "advance sha1 sh t (fst (fill_requests now idx ?t out))"
    using same_content_advance [OF start] inv(1) by (rule fill)
  have given: "advance sha1 sh t (fst (fill_requests now idx (?t\<lparr>ts_picker := block_failed (ts_picker ?t) index ?b\<rparr>) out))"
    using progress_onlyD [OF block_failed_progress_only [of "ts_picker t" index ?b]] bw(3,4) inv
    by (intro fill same_content_advance) (simp_all add: same_content_def block_failed_inv)
  show ?thesis
  proof (cases "begn mod BLOCK_LEN \<noteq> 0 \<or> index \<ge> sh_num_pieces sh \<or> length block \<noteq> block_len (ts_picker t) index ?b \<or>
      map_of (pe_in_flight (ts_peers t ! idx)) (index, ?b) = None \<or> pk_has (ts_picker ?t) index \<or> is_received (ts_picker ?t) index ?b")
    case True
    then show ?thesis unfolding on_block_alt using ignored given by (auto simp: Let_def)
  next
    case False
    obtain disk res where w: "write_block flt (sh_storage sh) index begn block (ts_disk t) = (disk, res)" by fastforce
    have fits: "block = [] \<or> begn + length block \<le> st_piece_length (sh_storage sh)"
      using block_fits_piece [OF assms(3)] False by (metis length_0_conv)
    have nh: "\<not> pk_has (ts_picker t) index" using False bw(3) by simp
    note wa = write_advance [OF assms(3) w nh fits]
    show ?thesis
    proof (cases res)
      case (Inl e)
      have "advance sha1 sh t (fst (fill_requests now idx
          (?t\<lparr>ts_disk := disk, ts_picker := block_failed (ts_picker ?t) index ?b, ts_storage_error := Some e\<rparr>) out))"
        using progress_onlyD [OF block_failed_progress_only [of "ts_picker t" index ?b]] bw(3) inv
        by (intro fill wa) (simp_all add: block_failed_inv)
      then show ?thesis unfolding on_block_alt using False Inl w bw(4) by (simp add: Let_def)
    next
      case (Inr u)
      let ?a = "after_write idx (index, ?b) (length block) disk ?t"
      note aw = after_write_facts [OF bw(1) idx, of "(index, ?b)" "length block" disk]
      obtain t1 out1 where c: "cancel_elsewhere idx index begn ?b ?a out = (t1, out1)" by fastforce
      note ce = cancel_elsewhere_facts [OF aw(1), of idx index begn ?b out, unfolded c fst_conv]
      obtain t2 out2 complete where wr: "block_written sha1 flt sh index ?b t1 out1 = ((t2, out2), complete)" by (metis prod.collapse)
      have a: "advance sha1 sh t ?a" using aw(3,4) bw(3) by (intro wa) simp_all
      have t1: "same_content ?a t1" using refills_content [OF ce(2)] .
      have "\<not> pk_has (ts_picker t1) index" using t1 nh aw(3) bw(3) by (simp add: same_content_def pk_has_def)
      moreover have at1: "advance sha1 sh t t1" using a same_content_advance [OF t1] by (rule advance_trans)
      ultimately have "advance sha1 sh t t2"
        using block_written_content [OF ce(1) _ advance_sh_ok [OF assms(3) at1], of sha1 flt out1] wr advance_trans [OF at1] by simp
      moreover have "picker_inv (ts_picker t2)" using block_written_inv [OF ce(1), of sha1 flt sh out1] wr by (simp add: table_inv_def)
      ultimately have "advance sha1 sh t (fst (finish_write sha1 flt sh now idx index begn ?b ?a out))"
        using c wr fill by (simp add: finish_write_def)
      then show ?thesis unfolding on_block_alt using False Inr w bw(4) by (simp add: Let_def)
    qed
  qed
qed

subsection \<open>Piece sets\<close>

lemma availability_nth: "picker_inv p \<Longrightarrow> i < pk_num_pieces p \<Longrightarrow> availability p i = pk_availability p ! i"
  by (simp add: availability_def picker_inv_def)

lemma add_single_availability:
  assumes "picker_inv p" "i < pk_num_pieces p" "availability p j < u32_max"
  shows "availability (add_single p j) i = availability p i + (if i = j then 1 else 0)"
  using assms by (auto simp: add_single_def availability_def picker_inv_def u32_add_def u32_max_def)

lemma holders_less: "idx < length ps \<Longrightarrow> \<not> bf_has (pe_has (ps ! idx)) i \<Longrightarrow> holders ps i < length ps"
  unfolding holders_def by (rule length_filter_less) auto

lemma holders_pos: "idx < length ps \<Longrightarrow> bf_has (pe_has (ps ! idx)) i \<Longrightarrow> 0 < holders ps i"
  by (auto simp: holders_def filter_empty_conv)

lemma holders_le: "holders ps i \<le> length ps"
  by (simp add: holders_def)

lemma table_update:
  assumes "table_inv n t" "idx < length (ts_peers t)" "picker_inv pk" "geom pk = geom (ts_picker t)"
    "\<And>k. block_count pk k \<le> owed ((ts_peers t)[idx := p]) k"
    "\<And>i. i < n \<Longrightarrow> availability pk i = holders ((ts_peers t)[idx := p]) i"
    "peer_ok n (ts_next_id t) p" "pe_id p = pe_id (ts_peers t ! idx)"
  shows "table_inv n (t\<lparr>ts_picker := pk, ts_peers := (ts_peers t)[idx := p]\<rparr>)"
proof -
  have "pk_num_pieces pk = n" using assms(1) geom_num [OF assms(4)] by (simp add: table_inv_def)
  then have "slack_inv n {} (t\<lparr>ts_picker := pk, ts_peers := (ts_peers t)[idx := p]\<rparr>)"
    using assms by (intro slack_update [where e = "{}"]) (simp_all add: slack_inv_empty)
  then show ?thesis by (simp add: slack_inv_empty)
qed

lemma table_invD:
  assumes "table_inv n t"
  shows "picker_inv (ts_picker t)" "pk_num_pieces (ts_picker t) = n"
    "i < n \<Longrightarrow> availability (ts_picker t) i = holders (ts_peers t) i"
    "p \<in> set (ts_peers t) \<Longrightarrow> peer_ok n (ts_next_id t) p" "length (ts_peers t) \<le> u32_max" "distinct (map pe_id (ts_peers t))"
  using assms by (simp_all add: table_inv_def)

lemma owed_same: "idx < length ps \<Longrightarrow> pe_in_flight p = pe_in_flight (ps ! idx) \<Longrightarrow> owed (ps[idx := p]) k = owed ps k"
  using owed_update [of idx ps p k] by (auto split: if_splits)

text \<open>A peer announces one more piece.\<close>

lemma have_inv:
  assumes "table_inv n t" "idx < length (ts_peers t)" "piece < n" "\<not> bf_has (pe_has (ts_peers t ! idx)) piece"
  shows "settles n t ((upd_peer idx (\<lambda>p. p\<lparr>pe_has := bf_set (pe_has p) piece\<rparr>) t)\<lparr>ts_picker := add_single (ts_picker t) piece\<rparr>)"
proof -
  let ?p = "ts_peers t ! idx"
  let ?p' = "?p\<lparr>pe_has := bf_set (pe_has ?p) piece\<rparr>"
  note d = table_invD [OF assms(1)]
  have ok: "peer_ok n (ts_next_id t) ?p" using d(4) assms(2) by simp
  then have hs: "bf_has (pe_has ?p') i \<longleftrightarrow> bf_has (pe_has ?p) i \<or> i = piece" for i
    using assms(3) by (auto simp: peer_ok_def has_set)
  have room: "availability (ts_picker t) piece < u32_max"
    using d(3) [OF assms(3)] holders_less [OF assms(2,4)] d(5) by simp
  have "table_inv n (t\<lparr>ts_picker := add_single (ts_picker t) piece, ts_peers := (ts_peers t)[idx := ?p']\<rparr>)"
  proof (rule table_update [OF assms(1,2)])
    show "picker_inv (add_single (ts_picker t) piece)" using d(1) by (rule add_single_inv)
    show "block_count (add_single (ts_picker t) piece) k \<le> owed ((ts_peers t)[idx := ?p']) k" for k
      using table_inv_count [OF assms(1), of k] assms(2) by (simp add: owed_same)
    show "availability (add_single (ts_picker t) piece) i = holders ((ts_peers t)[idx := ?p']) i" if "i < n" for i
      using add_single_availability [OF d(1) _ room, of i] that d(2) d(3) [OF that] holders_update [OF assms(2), of ?p' i] assms(4)
      unfolding hs by (auto split: if_splits)
    show "peer_ok n (ts_next_id t) ?p'" using ok by (simp add: peer_ok_def set_wf)
  qed simp_all
  then show ?thesis by (simp add: settles_def same_content_def upd_peer_def peers_then_picker)
qed

lemma add_bitfield_availability:
  "picker_inv p \<Longrightarrow> i < pk_num_pieces p \<Longrightarrow> availability (add_bitfield p f) i = u32_add (availability p i) (if bf_has f i then 1 else 0)
    \<or> \<not> bf_has f i \<and> availability (add_bitfield p f) i = availability p i"
  by (simp add: availability_def add_bitfield_avail picker_inv_def)

lemma remove_bitfield_availability:
  "picker_inv p \<Longrightarrow> i < pk_num_pieces p \<Longrightarrow> availability (remove_bitfield p f) i = availability p i - (if bf_has f i then 1 else 0)"
  by (simp add: availability_def remove_bitfield_avail picker_inv_def)

text \<open>A peer's piece set is replaced.\<close>

lemma replace_inv:
  assumes "table_inv n t" "idx < length (ts_peers t)" "bf_wf f" "bf_len f = n"
  shows "settles n t (replace_piece_set idx f t)"
proof -
  let ?p = "ts_peers t ! idx" and ?pk = "ts_picker t"
  let ?p' = "?p\<lparr>pe_has := f\<rparr>" and ?q = "remove_bitfield (ts_picker t) (pe_has (ts_peers t ! idx))"
  note d = table_invD [OF assms(1)]
  have ok: "peer_ok n (ts_next_id t) ?p" using d(4) assms(2) by simp
  have q: "picker_inv ?q" using d(1) by (rule remove_bitfield_inv)
  have "table_inv n (t\<lparr>ts_picker := add_bitfield ?q f, ts_peers := (ts_peers t)[idx := ?p']\<rparr>)"
  proof (rule table_update [OF assms(1,2)])
    show "picker_inv (add_bitfield ?q f)" using q by (rule add_bitfield_inv)
    show "block_count (add_bitfield ?q f) k \<le> owed ((ts_peers t)[idx := ?p']) k" for k
      using table_inv_count [OF assms(1), of k] assms(2) by (simp add: owed_same)
    show "peer_ok n (ts_next_id t) ?p'" using ok assms(3,4) by (simp add: peer_ok_def)
    show "availability (add_bitfield ?q f) i = holders ((ts_peers t)[idx := ?p']) i" if "i < n" for i
    proof -
      have h: "holders ((ts_peers t)[idx := ?p']) i + (if bf_has (pe_has ?p) i then 1 else 0) =
          holders (ts_peers t) i + (if bf_has f i then 1 else 0)"
        using holders_update [OF assms(2), of ?p' i] by simp
      have le: "holders ((ts_peers t)[idx := ?p']) i \<le> u32_max" using holders_le [of "(ts_peers t)[idx := ?p']" i] d(5) by simp
      show ?thesis
        using add_bitfield_availability [OF q, of i f] remove_bitfield_availability [OF d(1), of i "pe_has ?p"] that d(2) d(3) [OF that] h le
          holders_pos [OF assms(2), of i]
        by (auto simp: u32_add_def u32_max_def geom_num [of ?q ?pk] split: if_splits)
    qed
  qed simp_all
  then show ?thesis by (simp add: settles_def same_content_def replace_piece_set_def upd_peer_def Let_def peers_then_picker)
qed

subsection \<open>Requests given back\<close>

lemma release_settles:
  assumes "table_inv n t" "idx < length (ts_peers t)" "distinct ks" "set ks \<subseteq> fst ` set (pe_in_flight (ts_peers t ! idx))"
    "pe_id p = pe_id (ts_peers t ! idx)" "pe_has p = pe_has (ts_peers t ! idx)"
    "fst ` set (pe_in_flight p) = fst ` set (pe_in_flight (ts_peers t ! idx)) - set ks"
    "distinct (map fst (pe_in_flight p))" "length (pe_in_flight p) \<le> length (pe_in_flight (ts_peers t ! idx))"
  shows "settles n t (t\<lparr>ts_picker := fold give_back ks (ts_picker t), ts_peers := (ts_peers t)[idx := p]\<rparr>)"
proof -
  let ?p = "ts_peers t ! idx" and ?pk = "ts_picker t"
  note d = table_invD [OF assms(1)]
  note fr = progress_onlyD [OF give_back_progress_only [of ?pk ks]]
  have ok: "peer_ok n (ts_next_id t) ?p" using d(4) assms(2) by simp
  have "table_inv n (t\<lparr>ts_picker := fold give_back ks ?pk, ts_peers := (ts_peers t)[idx := p]\<rparr>)"
  proof (rule table_update [OF assms(1,2)])
    show "picker_inv (fold give_back ks ?pk)" using d(1) by (rule pl.ok_release_all)
    show "geom (fold give_back ks ?pk) = geom ?pk" using fr by simp
    show "block_count (fold give_back ks ?pk) k \<le> owed ((ts_peers t)[idx := p]) k" for k
      using table_inv_count [OF assms(1), of k] pl.count_release_all [OF d(1) assms(3), of k] owed_update [OF assms(2), of p k]
        assms(4) unfolding assms(7) by (auto split: if_splits)
    show "availability (fold give_back ks ?pk) i = holders ((ts_peers t)[idx := p]) i" if "i < n" for i
      using d(3) [OF that] fr assms(2,6) by (simp add: holders_same)
    show "peer_ok n (ts_next_id t) p" using ok assms(5,6,8,9) by (simp add: peer_ok_def)
  qed (rule assms(5))
  then show ?thesis using fr by (simp add: settles_def same_content_def)
qed

lemma hm_remove_all:
  "fst ` set (fold hm_remove ks m) = fst ` set m - set ks \<and> length (fold hm_remove ks m) \<le> length m \<and>
    (distinct (map fst m) \<longrightarrow> distinct (map fst (fold hm_remove ks m)))"
proof (induction ks arbitrary: m)
  case (Cons k ks)
  show ?case using Cons [of "hm_remove k m"] hm_remove_length [of k m] hm_remove_distinct [of m k]
    by (auto simp del: set_bt_remove)
qed simp

definition moves :: "nat \<Rightarrow> (bytes \<Rightarrow> bytes) \<Rightarrow> shared \<Rightarrow> torrent \<Rightarrow> torrent \<Rightarrow> bool" where
  "moves n sha1 sh t t' \<longleftrightarrow> table_inv n t' \<and> advance sha1 sh t t'"

lemma settles_moves: "settles n t t' \<Longrightarrow> moves n sha1 sh t t'"
  by (simp add: settles_def moves_def same_content_advance)

lemma moves_trans [trans]: "moves n sha1 sh t t' \<Longrightarrow> moves n sha1 sh t' t'' \<Longrightarrow> moves n sha1 sh t t''"
  by (auto simp: moves_def intro: advance_trans)

lemma core_eq_moves: "table_inv n t \<Longrightarrow> core_eq t t' \<Longrightarrow> moves n sha1 sh t t'"
  by (simp add: settles_moves core_eq_settles)

lemma moves_refl: "table_inv n t \<Longrightarrow> moves n sha1 sh t t"
  by (simp add: moves_def)

lemma violation_core_eq [core_intros]: "core_eq t (violation i t)"
  by (simp add: violation_def core_eq_def)

lemma choke_moves:
  assumes "table_inv n t" "idx < length (ts_peers t)"
  shows "moves n sha1 sh t ((upd_peer idx (\<lambda>p. p\<lparr>pe_peer_choking := True, pe_in_flight := []\<rparr>) t)\<lparr>ts_picker :=
    fold give_back (map fst (pe_in_flight (ts_peers t ! idx))) (ts_picker t)\<rparr>)"
proof -
  have "distinct (map fst (pe_in_flight (ts_peers t ! idx)))"
    using table_invD(4) [OF assms(1)] assms(2) by (simp add: peer_ok_def)
  then show ?thesis
    using release_settles [OF assms, of "map fst (pe_in_flight (ts_peers t ! idx))"
        "(ts_peers t ! idx)\<lparr>pe_peer_choking := True, pe_in_flight := []\<rparr>"] assms(2)
    by (intro settles_moves) (simp add: upd_peer_def peers_then_picker)
qed

lemma interest_moves:
  assumes "settles n t t'" "idx < length (ts_peers t)"
  shows "moves n sha1 sh t (fst (update_interest now idx t' out))"
  using assms by (intro settles_moves settles_trans [OF assms(1) update_interest_settles]) (auto simp: settles_def)

lemma dispatch_moves:
  assumes "table_inv n t" "idx < length (ts_peers t)" "sh_ok n sh t"
  shows "moves n sha1 sh t (fst (dispatch sha1 flt sh now i idx first msg t out))"
proof -
  have core: "moves n sha1 sh t t'" if "core_eq t t'" for t' using assms(1) that by (rule core_eq_moves)
  have upd: "core_eq t (upd_peer idx f t)" if "\<And>p. core (f p) = core p" for f using that assms(2) by (rule upd_peer_core_eq)
  have n: "sh_num_pieces sh = n" using assms(3) by (simp add: sh_ok_def)
  have fields: "moves n sha1 sh t (fst (update_interest now idx (replace_piece_set idx f t) out))" if "bf_wf f" "bf_len f = n" for f
    using replace_inv [OF assms(1,2) that] assms(2) by (rule interest_moves)
  show ?thesis
  proof (cases msg)
    case Unchoke
    have "settles n t (upd_peer idx (\<lambda>p. p\<lparr>pe_peer_choking := False\<rparr>) t)"
      using core_eq_settles [OF assms(1) upd] by (simp add: core_def)
    from settles_trans [OF this fill_requests_settles] this assms(2) show ?thesis
      using Unchoke by (auto simp: dispatch_def settles_def intro!: settles_moves)
  next
    case Choke
    then show ?thesis using choke_moves [OF assms(1,2)] by (simp add: dispatch_def Let_def upd_peer_def)
  next
    case Interested
    let ?t1 = "upd_peer idx (\<lambda>p. p\<lparr>pe_they_interested := True\<rparr>) t"
    have "core_eq t ?t1" by (rule upd) (simp add: core_def)
    then show ?thesis using Interested core core_eq_trans run_choker_core_eq by (auto simp: dispatch_def Let_def)
  next
    case NotInterested
    let ?t1 = "upd_peer idx (\<lambda>p. p\<lparr>pe_they_interested := False\<rparr>) t"
    have t1: "core_eq t ?t1" by (rule upd) (simp add: core_def)
    moreover have "core_eq ?t1 (upd_peer idx (\<lambda>p. p\<lparr>pe_we_choke := True\<rparr>) ?t1)"
      using core_eq_length [OF t1] assms(2) by (intro upd_peer_core_eq) (simp_all add: core_def)
    ultimately show ?thesis using NotInterested core core_eq_trans by (auto simp: dispatch_def Let_def)
  next
    case (Have piece)
    have "moves n sha1 sh t (fst (update_interest now idx ((upd_peer idx (\<lambda>p. p\<lparr>pe_has := bf_set (pe_has p) piece\<rparr>) t)\<lparr>ts_picker := add_single (ts_picker t) piece\<rparr>) out))"
      if "piece < n" "\<not> bf_has (pe_has (ts_peers t ! idx)) piece"
      using have_inv [OF assms(1,2) that] assms(2) by (rule interest_moves)
    then show ?thesis using Have n moves_refl [OF assms(1)] by (auto simp: dispatch_def Let_def upd_peer_def)
  next
    case (BitfieldMsg bs)
    then show ?thesis using fields core violation_core_eq n from_bytes_iff [of bs "sh_num_pieces sh"]
      by (auto simp: dispatch_def split: sum.splits)
  next
    case (Piece index begn block)
    then show ?thesis using on_block_inv [OF assms(1,2)] on_block_content [OF assms] by (simp add: dispatch_def moves_def)
  next
    case (Request req)
    then show ?thesis using core [OF serve_request_core_eq [OF assms(2)]] by (simp add: dispatch_def)
  next
    case (Extended e payload)
    then show ?thesis using core [OF on_extended_core_eq [OF assms(2)]] by (simp add: dispatch_def)
  next
    case HaveAll
    then show ?thesis using fields [OF full_wf] core violation_core_eq n by (simp add: dispatch_def)
  next
    case HaveNone
    then show ?thesis using fields [OF empty_wf] core violation_core_eq n by (simp add: dispatch_def)
  qed (use core violation_core_eq in \<open>auto simp: dispatch_def\<close>)
qed

lemma handle_moves:
  assumes "table_inv n t" "sh_ok n sh t"
  shows "moves n sha1 sh t (fst (handle sha1 flt sh now i msg t out))"
proof (cases "position_of i (ts_peers t)")
  case None
  then show ?thesis using moves_refl [OF assms(1)] by (simp add: handle_def)
next
  case (Some idx)
  then have idx: "idx < length (ts_peers t)" by (simp add: position_of_Some)
  let ?t = "if opens msg then upd_peer idx (\<lambda>p. p\<lparr>pe_opened := True\<rparr>) t else t"
  have c: "core_eq t ?t" using idx upd_peer_core_eq [of "\<lambda>p. p\<lparr>pe_opened := True\<rparr>" idx t] by (simp add: core_def)
  have t: "moves n sha1 sh t ?t" using assms(1) c by (rule core_eq_moves)
  then have "table_inv n ?t" "sh_ok n sh ?t" "idx < length (ts_peers ?t)"
    using advance_sh_ok [OF assms(2)] core_eq_length [OF c] idx by (auto simp: moves_def)
  from moves_trans [OF t dispatch_moves [OF this(1,3,2)]] show ?thesis
    using Some by (simp add: handle_def Let_def)
qed

lemma message_section_moves:
  assumes "table_inv n t" "sh_ok n sh t"
  shows "moves n sha1 sh t (fst (message_section sha1 flt sh now i msg t))"
proof -
  let ?t0 = "upd_peer_id i (\<lambda>p. p\<lparr>pe_last_seen := now\<rparr>) t"
  have t0: "moves n sha1 sh t ?t0"
    using assms(1) by (intro core_eq_moves upd_peer_id_core_eq) (simp_all add: core_def)
  let ?h = "handle sha1 flt sh now i msg ?t0 []"
  have h: "moves n sha1 sh t (fst ?h)"
    using t0 advance_sh_ok [OF assms(2)] by (intro moves_trans [OF t0 handle_moves]) (auto simp: moves_def)
  obtain t2 out2 where c: "choke_if_due now ?h = (t2, out2)" by fastforce
  have "core_eq (fst ?h) t2" using choke_if_due_core_eq [of ?h now] c by simp
  also have "core_eq t2 (record_sent out2 now t2)" by (rule record_sent_core_eq)
  also have "core_eq \<dots> ((record_sent out2 now t2)\<lparr>ts_to_drop := []\<rparr>)" by (simp add: core_eq_def)
  finally have "moves n sha1 sh (fst ?h) ((record_sent out2 now t2)\<lparr>ts_to_drop := []\<rparr>)"
    using h by (intro core_eq_moves) (simp_all add: moves_def)
  from moves_trans [OF h this] show ?thesis using c by (simp add: message_section_def Let_def)
qed

subsection \<open>Leaving and joining the table\<close>

lemma drop_peer_moves:
  assumes "table_inv n t"
  shows "moves n sha1 sh t (drop_peer now i for_cause t)"
proof (cases "position_of i (ts_peers t)")
  case None
  then show ?thesis using moves_refl [OF assms] by (simp add: drop_peer_def)
next
  case (Some pos)
  let ?p = "ts_peers t ! pos" and ?ps = "swap_remove pos (ts_peers t)"
  let ?ks = "map fst (pe_in_flight ?p)" and ?q = "remove_bitfield (ts_picker t) (pe_has (ts_peers t ! pos))"
  let ?pk = "fold give_back ?ks ?q"
  let ?t1 = "t\<lparr>ts_peers := ?ps, ts_picker := ?pk\<rparr>"
  have pos: "pos < length (ts_peers t)" using Some by (simp add: position_of_Some)
  note d = table_invD [OF assms]
  note sr = swap_remove_set [OF pos d(6)]
  have ok: "peer_ok n (ts_next_id t) ?p" using d(4) pos by simp
  have q: "picker_inv ?q" using d(1) by (rule remove_bitfield_inv)
  note fr = progress_onlyD [OF give_back_progress_only [of ?q ?ks]]
  have dk: "distinct ?ks" using ok by (simp add: peer_ok_def)
  have cnt: "in_flight_of ?pk a b \<le> owed ?ps (a, b)" for a b
    using pl.count_release_all [OF q dk, of "(a, b)"] table_inv_count [OF assms, of "(a, b)"]
      bitfield_frame(2) [of "ts_picker t" "pe_has ?p" "(a, b)"]
      filter_swap_remove [OF pos, of "\<lambda>p. (a, b) \<in> fst ` set (pe_in_flight p)"]
    by (auto simp: owed_def split: if_splits)
  have av: "availability ?pk j = holders ?ps j" if "j < n" for j
    using remove_bitfield_availability [OF d(1), of j "pe_has ?p"] d(2) d(3) [OF that] that fr
      filter_swap_remove [OF pos, of "\<lambda>p. bf_has (pe_has p) j"] by (auto simp: holders_def split: if_splits)
  have "table_inv n ?t1"
    using d(2,4,5) sr cnt av fr pl.ok_release_all [OF q] geom_num [of ?q "ts_picker t"] by (auto simp: table_inv_def)
  moreover have "same_content t ?t1" using fr by (simp add: same_content_def)
  ultimately have t1: "moves n sha1 sh t ?t1" by (simp add: moves_def same_content_advance)
  then have "moves n sha1 sh t (penalise (pe_dest ?p) now ?t1)"
    by (intro moves_trans [OF t1 core_eq_moves]) (simp_all add: moves_def penalise_core_eq)
  then show ?thesis using t1 Some by (simp add: drop_peer_def Let_def)
qed

lemma bf_empty_len: "bf_len (bf_empty n) = n"
  by (simp add: bf_empty_def)

lemma register_peer_moves:
  assumes "table_inv n t" "sh_ok n sh t" "ts_next_id t < u64_max" "length (ts_peers t) < u32_max"
  shows "moves n sha1 sh t (fst (register_peer sh now queue d fast t))"
proof -
  let ?t1 = "t\<lparr>ts_next_id := u64_add (ts_next_id t) 1\<rparr>"
  let ?t2 = "fst (remember_peer_from d Trusted ?t1)"
  let ?p = "new_peer (ts_next_id t) d queue fast (sh_num_pieces sh) now"
  let ?t3 = "?t2\<lparr>ts_peers := ts_peers ?t2 @ [?p]\<rparr>"
  note inv = table_invD [OF assms(1)]
  have nxt: "u64_add (ts_next_id t) 1 = Suc (ts_next_id t)" using assms(3) by (simp add: u64_add_def u64_max_def)
  have n: "sh_num_pieces sh = n" using assms(2) by (simp add: sh_ok_def)
  have "peer_ok n (Suc (ts_next_id t)) p" if "p \<in> set (ts_peers t)" for p using inv(4) [OF that] by (simp add: peer_ok_def)
  then have "table_inv n ?t1" using assms(1) nxt by (simp add: table_inv_def)
  then have t2: "table_inv n ?t2" by (rule core_eq_inv) (rule remember_core_eq)
  have c: "core_eq ?t1 ?t2" by (rule remember_core_eq)
  have f: "ts_picker ?t2 = ts_picker t" "ts_disk ?t2 = ts_disk t" "ts_next_id ?t2 = Suc (ts_next_id t)"
    "length (ts_peers ?t2) = length (ts_peers t)" "map pe_id (ts_peers ?t2) = map pe_id (ts_peers t)"
    using c nxt core_eq_length [OF c] by (auto simp: core_eq_def remember_peer_from_def split: option.splits)
  have new: "peer_ok n (Suc (ts_next_id t)) ?p" using n by (simp add: peer_ok_def new_peer_def empty_wf bf_empty_len PIPELINE_DEPTH_def)
  have fresh: "pe_id ?p \<notin> set (map pe_id (ts_peers ?t2))" unfolding f(5)
    using inv(4) by (fastforce simp: new_peer_def peer_ok_def)
  have "owed (ts_peers ?t2 @ [?p]) k = owed (ts_peers ?t2) k" "holders (ts_peers ?t2 @ [?p]) j = holders (ts_peers ?t2) j" for k j
    by (simp_all add: owed_def holders_def new_peer_def)
  then have "table_inv n ?t3"
    using t2 new fresh assms(4) f(3,4) by (auto simp: table_inv_def)
  moreover have "same_content t ?t3" using f by (simp add: same_content_def)
  ultimately have "moves n sha1 sh t ?t3" by (simp add: moves_def same_content_advance)
  then show ?thesis using moves_refl [OF assms(1)] by (simp add: register_peer_def Let_def)
qed

subsection \<open>The maintenance tick\<close>

lemma distinct_map_fst_filter: "distinct (map fst xs) \<Longrightarrow> distinct (map fst (filter P xs))"
  by (simp add: distinct_map_filter)

lemma expire_peer_settles:
  assumes "table_inv n t" "idx < length (ts_peers t)"
  shows "settles n t (fst (expire_peer now idx (t, drops, out)))"
proof -
  let ?p = "ts_peers t ! idx"
  define ks where "ks = map fst (filter (\<lambda>e. now - snd e \<ge> ts_request_timeout t) (pe_in_flight ?p))"
  have fill: "settles n t (fst (fill_requests now idx t' out'))" if "settles n t t'" for t' out'
    using that assms(2) by (intro settles_trans [OF that fill_requests_settles]) (auto simp: settles_def)
  show ?thesis
  proof (cases "ks = []")
    case True
    then show ?thesis using fill [OF settles_refl [OF assms(1)], of out]
      unfolding expire_peer_def Let_def prod.case ks_def [symmetric] by (auto split: prod.splits)
  next
    case False
    let ?p1 = "?p\<lparr>pe_in_flight := fold hm_remove ks (pe_in_flight ?p)\<rparr>"
    let ?p3 = "?p1\<lparr>pe_strikes := u32_sat_add (pe_strikes ?p1) 1\<rparr>"
    let ?t3 = "t\<lparr>ts_picker := fold give_back ks (ts_picker t), ts_peers := (ts_peers t)[idx := ?p3]\<rparr>"
    have d: "distinct (map fst (pe_in_flight ?p))" using table_invD(4) [OF assms(1)] assms(2) by (simp add: peer_ok_def)
    have "settles n t ?t3"
    proof (rule release_settles [OF assms])
      show "distinct ks" using d by (simp add: ks_def distinct_map_fst_filter)
      show "set ks \<subseteq> fst ` set (pe_in_flight ?p)" by (auto simp: ks_def)
    qed (use hm_remove_all [of ks "pe_in_flight ?p"] d in simp_all)
    moreover have "fst (expire_peer now idx (t, drops, out)) = ?t3 \<or>
        fst (expire_peer now idx (t, drops, out)) = fst (fill_requests now idx ?t3 out)"
      using False assms(2)
      unfolding expire_peer_def Let_def prod.case ks_def [symmetric]
      by (auto simp: upd_peer_def peers_then_picker split: prod.splits)
    ultimately show ?thesis using fill by metis
  qed
qed

lemma maintain_requests_settles:
  assumes "table_inv n t"
  shows "settles n t (fst (maintain_requests now t drops out))"
proof -
  have "settles n t (fst (fold (expire_peer now) is (t', drops, out)))"
    if "settles n t t'" "set is \<subseteq> {..<length (ts_peers t)}" for "is" t' drops out
    using that
  proof (induction "is" arbitrary: t' drops out)
    case (Cons j js)
    obtain t1 d1 o1 where e: "expire_peer now j (t', drops, out) = (t1, d1, o1)" by (metis prod.collapse)
    have "settles n t' t1"
      using expire_peer_settles [of n t' j now drops out] Cons.prems e by (auto simp: settles_def)
    with Cons.prems(1) have "settles n t t1" by (rule settles_trans)
    then show ?case using Cons.IH [of t1 d1 o1] Cons.prems(2) e by simp
  qed simp
  from this [OF settles_refl [OF assms] atLeastLessThan_subset_lessThan] show ?thesis
    by (simp add: maintain_requests_def)
qed

lemma maintain_section_moves:
  assumes "table_inv n t"
  shows "moves n sha1 sh t (fst (maintain_section now t))"
proof -
  let ?t0 = "t\<lparr>ts_peers := map (\<lambda>p. p\<lparr>pe_metadata_requests := 0\<rparr>) (ts_peers t)\<rparr>"
  have "core_eq t ?t0" by (simp add: core_eq_def core_def)
  with assms have t0: "settles n t ?t0" by (rule core_eq_settles)
  define drops where "drops = map (\<lambda>p. (pe_id p, False)) (filter (\<lambda>p. now - pe_last_seen p \<ge> ts_idle_timeout ?t0) (ts_peers ?t0))"
  define out where "out = map (\<lambda>p. (pe_id p, KeepAlive)) (filter (\<lambda>p. \<not> now - pe_last_seen p \<ge> ts_idle_timeout ?t0 \<and>
      now - pe_last_sent p \<ge> ts_keepalive_interval ?t0) (ts_peers ?t0))"
  obtain t1 d1 o1 where m: "maintain_requests now ?t0 drops out = (t1, d1, o1)" by (metis prod.collapse)
  obtain t2 o2 where c: "choke_if_due now (t1, o1) = (t2, o2)" by fastforce
  have t1: "settles n t t1"
    using settles_trans [OF t0 maintain_requests_settles [of n ?t0 now drops out]] t0 m by (simp add: settles_def)
  have "core_eq t1 t2" using choke_if_due_core_eq [of "(t1, o1)" now] c by simp
  also have "core_eq t2 (record_sent o2 now t2)" by (rule record_sent_core_eq)
  also have "core_eq \<dots> ((record_sent o2 now t2)\<lparr>ts_to_drop := []\<rparr>)" by (simp add: core_eq_def)
  finally have "settles n t ((record_sent o2 now t2)\<lparr>ts_to_drop := []\<rparr>)"
    using t1 by (intro settles_trans [OF t1 core_eq_settles]) (simp_all add: settles_def)
  moreover have "fst (maintain_section now t) = (record_sent o2 now t2)\<lparr>ts_to_drop := []\<rparr>"
    unfolding maintain_section_def Let_def drops_def [symmetric] out_def [symmetric] by (simp add: m c)
  ultimately show ?thesis by (simp add: settles_moves)
qed

lemma send_one_moves:
  assumes "table_inv n t"
  shows "moves n sha1 sh t (send_one writing now e t)"
  using drop_peer_moves [OF assms] core_eq_moves [OF assms upd_peer_core_eq] moves_refl [OF assms]
  by (auto simp: send_one_def core_def dest!: position_of_Some split: option.splits)

subsection \<open>The torrent as a transition system\<close>

text \<open>One step is one critical section: a peer's message, the maintenance tick, a removal, a message
  handed to a writer, a registration, a setting, and so on; \<open>rehash\<close> lets a hash map change its
  iteration order. The sections of \<^verbatim>\<open>on_message\<close> and \<^verbatim>\<open>maintain\<close> may thus interleave with those of
  any other thread. Arguments are arbitrary: any message, clock, fault, hash function or
  destination. The two side conditions say that the 64-bit id counter has not been
  exhausted and that fewer than \<open>2 ^ 32 - 1\<close> peers are connected.\<close>

inductive torrent_step :: "(bytes \<Rightarrow> bytes) \<Rightarrow> shared \<Rightarrow> torrent \<Rightarrow> torrent \<Rightarrow> bool" for sha1 sh where
  message: "torrent_step sha1 sh t (fst (message_section sha1 flt sh now i msg t))"
| tick: "torrent_step sha1 sh t (fst (maintain_section now t))"
| remove: "torrent_step sha1 sh t (drop_peer now i for_cause t)"
| send: "torrent_step sha1 sh t (send_one writing now e t)"
| written: "torrent_step sha1 sh t (writer_takes i t)"
| register: "ts_next_id t < u64_max \<Longrightarrow> length (ts_peers t) < u32_max \<Longrightarrow>
    torrent_step sha1 sh t (fst (register_peer sh now queue d fast t))"
| remember: "torrent_step sha1 sh t (fst (remember_peer_from d Trusted t))"
| local_dest: "torrent_step sha1 sh t (set_local_dest d t)"
| priorities: "torrent_step sha1 sh t (t\<lparr>ts_picker := set_piece_priorities (ts_picker t) per\<rparr>)"
| mode: "torrent_step sha1 sh t (set_torrent_mode m t)"
| finished: "torrent_step sha1 sh t (check_done t)"
| announced: "torrent_step sha1 sh t (note_announce outcome t)"
| choke_interval: "torrent_step sha1 sh t (set_choke_interval m t)"
| keepalive_interval: "torrent_step sha1 sh t (set_keepalive_interval m t)"
| idle_timeout: "torrent_step sha1 sh t (set_idle_timeout m t)"
| request_timeout: "torrent_step sha1 sh t (set_request_timeout m t)"
| max_peers: "torrent_step sha1 sh t (set_max_peers m t)"
| rehash: "mset known = mset (ts_known_peers t) \<Longrightarrow> torrent_step sha1 sh t (t\<lparr>ts_known_peers := known\<rparr>)"

definition safe :: "nat \<Rightarrow> (bytes \<Rightarrow> bytes) \<Rightarrow> shared \<Rightarrow> torrent \<Rightarrow> bool" where
  "safe n sha1 sh t \<longleftrightarrow> table_inv n t \<and> sh_ok n sh t \<and> held_ok sha1 sh t"

lemma settings_core_eq [core_intros]:
  "core_eq t (set_local_dest d t)" "core_eq t (check_done t)" "core_eq t (note_announce outcome t)"
  "core_eq t (set_choke_interval m t)" "core_eq t (set_keepalive_interval m t)" "core_eq t (set_idle_timeout m t)"
  "core_eq t (set_request_timeout m t)" "core_eq t (set_max_peers m t)" "core_eq t (t\<lparr>ts_known_peers := known\<rparr>)"
  by (auto simp: core_eq_def set_local_dest_def check_done_def note_announce_def set_choke_interval_def set_keepalive_interval_def
      set_idle_timeout_def set_request_timeout_def set_max_peers_def split: sum.splits)

lemma writer_takes_core_eq [core_intros]: "core_eq t (writer_takes i t)"
  unfolding writer_takes_def by (rule upd_peer_id_core_eq) (simp add: core_def)

lemma picker_setting_moves:
  assumes "table_inv n t"
  shows "moves n sha1 sh t (t\<lparr>ts_picker := set_piece_priorities (ts_picker t) per\<rparr>)" "moves n sha1 sh t (set_torrent_mode m t)"
proof -
  note d = table_invD [OF assms]
  have "pk_num_pieces (set_piece_priorities (ts_picker t) per) = n" "pk_num_pieces (set_mode (ts_picker t) m) = n"
    using d(2) geom_num bitfield_frame(9,10) by metis+
  then show "moves n sha1 sh t (t\<lparr>ts_picker := set_piece_priorities (ts_picker t) per\<rparr>)" "moves n sha1 sh t (set_torrent_mode m t)"
    using table_picker [OF assms set_piece_priorities_inv [OF d(1)], of per] table_picker [OF assms set_mode_inv [OF d(1)], of m]
    by (simp_all add: moves_def same_content_advance same_content_def set_torrent_mode_def)
qed

lemma torrent_step_moves:
  assumes "torrent_step sha1 sh t t'" "table_inv n t" "sh_ok n sh t"
  shows "moves n sha1 sh t t'"
  using assms(1)
proof cases
  case (register now queue d fast)
  then show ?thesis using register_peer_moves [OF assms(2,3)] by simp
qed (use assms(2,3) message_section_moves maintain_section_moves drop_peer_moves send_one_moves picker_setting_moves
      core_eq_moves [OF assms(2) remember_core_eq] core_eq_moves [OF assms(2) settings_core_eq(1)]
      core_eq_moves [OF assms(2) settings_core_eq(2)] core_eq_moves [OF assms(2) settings_core_eq(3)]
      core_eq_moves [OF assms(2) settings_core_eq(4)] core_eq_moves [OF assms(2) settings_core_eq(5)]
      core_eq_moves [OF assms(2) settings_core_eq(6)] core_eq_moves [OF assms(2) settings_core_eq(7)]
      core_eq_moves [OF assms(2) settings_core_eq(8)] core_eq_moves [OF assms(2) settings_core_eq(9)]
      core_eq_moves [OF assms(2) writer_takes_core_eq] in simp_all)

lemma safe_step: "safe n sha1 sh t \<Longrightarrow> torrent_step sha1 sh t t' \<Longrightarrow> safe n sha1 sh t'"
  using torrent_step_moves [of sha1 sh t t' n] sh_ok_geom [of n sh t t'] by (auto simp: safe_def moves_def advance_def)

subsection \<open>The start\<close>

text \<open>What the caller of \<^verbatim>\<open>Torrent::new\<close> provides: a storage laid out for the metainfo, and a piece set
  that has been verified on that disk.\<close>

definition launched ::
  "(bytes \<Rightarrow> bytes) \<Rightarrow> metainfo \<Rightarrow> storage \<Rightarrow> bitfield \<Rightarrow> disk \<Rightarrow> bool" where
  "launched sha1 meta st have_set disk \<longleftrightarrow>
     storage_wf st \<and> length (mi_pieces meta) \<le> u32_max \<and> st_piece_length st = mi_piece_length meta \<and>
     st_total_length st = mi_total_length meta \<and> bf_len have_set \<le> length (mi_pieces meta) \<and>
     (\<forall>i. bf_has have_set i \<longrightarrow> piece_ok sha1 disk st i)"

lemma fold_set_have:
  assumes "picker_inv p" "set is \<subseteq> {..<pk_num_pieces p}"
  shows "picker_inv (fold (\<lambda>i pk. set_have pk i) is p) \<and> geom (fold (\<lambda>i pk. set_have pk i) is p) = geom p \<and>
    pk_availability (fold (\<lambda>i pk. set_have pk i) is p) = pk_availability p \<and>
    (\<forall>a b. in_flight_of (fold (\<lambda>i pk. set_have pk i) is p) a b \<le> in_flight_of p a b) \<and>
    (\<forall>j. pk_has (fold (\<lambda>i pk. set_have pk i) is p) j \<longleftrightarrow> pk_has p j \<or> j \<in> set is)"
  using assms
proof (induction "is" arbitrary: p)
  case (Cons i "is")
  have "picker_inv (set_have p i)" using Cons.prems(1) by (rule set_have_inv)
  note IH = Cons.IH [OF this]
  have "in_flight_of (fold (\<lambda>i pk. set_have pk i) is (set_have p i)) a b \<le> in_flight_of p a b" for a b
    using IH Cons.prems(2) set_have_count [of p i "(a, b)"] by (auto intro: order_trans)
  then show ?case using IH Cons.prems set_have_has [OF Cons.prems(1), of i] by auto
qed simp

lemma torrent_new_safe:
  assumes "launched sha1 meta st have_set disk"
  shows "safe (length (mi_pieces meta)) sha1 (shared_new meta st pid) (torrent_new meta have_set mode now disk)"
proof -
  let ?n = "length (mi_pieces meta)"
  let ?p0 = "picker_new ?n (mi_piece_length meta) (mi_total_length meta) mode"
  let ?t = "torrent_new meta have_set mode now disk"
  have n: "u32_clamp ?n = ?n" and le: "?n \<le> u32_max" using assms by (auto simp: launched_def u32_clamp_def)
  have p0: "picker_inv ?p0" using le by (rule picker_new_inv)
  have sub: "set (iter_present have_set) \<subseteq> {..<pk_num_pieces ?p0}"
    using assms by (auto simp: launched_def iter_present_def picker_new_def)
  note f = fold_set_have [OF p0 sub]
  have pk: "ts_picker ?t = fold (\<lambda>i pk. set_have pk i) (iter_present have_set) ?p0"
    by (simp add: torrent_new_def Let_def n)
  have z: "in_flight_of ?p0 i b = 0" "availability ?p0 i = 0" "\<not> pk_has ?p0 i" for i b
    by (auto simp: picker_new_def in_flight_of_def availability_def pk_has_def)
  have g: "geom (ts_picker ?t) = geom ?p0" unfolding pk using f by blast
  have av: "availability (ts_picker ?t) i = 0" for i unfolding pk using f z(2) [of i] by (auto simp: availability_def split: if_splits)
  have fl: "in_flight_of (ts_picker ?t) i b = 0" for i b unfolding pk using f z(1) [of i b] by (metis le_zero_eq)
  have "picker_inv (ts_picker ?t)" "ts_peers ?t = []" unfolding pk using f by (simp_all add: torrent_new_def Let_def)
  then have "table_inv ?n ?t"
    using geom_num [OF g] av fl by (simp add: table_inv_def holders_def) (simp add: picker_new_def)
  moreover have "sh_ok ?n (shared_new meta st pid) ?t"
    using assms g n by (simp add: sh_ok_def launched_def shared_new_def Let_def) (simp add: geom_def picker_new_def)
  moreover have "held_ok sha1 (shared_new meta st pid) ?t"
    using assms f z by (auto simp: held_ok_def pk launched_def shared_new_def torrent_new_def Let_def iter_present_def)
  ultimately show ?thesis by (simp add: safe_def)
qed

interpretation tsys: transition_system
  "\<lambda>t. \<exists>have_set mode now disk. launched sha1 meta st have_set disk \<and> t = torrent_new meta have_set mode now disk"
  "torrent_step sha1 (shared_new meta st pid)" "safe (length (mi_pieces meta)) sha1 (shared_new meta st pid)"
  for sha1 meta st pid
  by unfold_locales (auto intro: torrent_new_safe safe_step)

lemma reachable_safe:
  assumes "launched sha1 meta st have_set disk"
    and "(torrent_step sha1 (shared_new meta st pid))\<^sup>*\<^sup>* (torrent_new meta have_set mode now disk) t"
  shows "safe (length (mi_pieces meta)) sha1 (shared_new meta st pid) t"
  using tsys.inv_reachable [OF _ assms(2)] assms(1) by blast

subsection \<open>Counting requests\<close>

definition progress_keys :: "(nat \<times> progress) list \<Rightarrow> (nat \<times> nat) list" where
  "progress_keys es = concat (map (\<lambda>e. map (Pair (fst e)) [0..<length (pr_in_flight (snd e))]) es)"

lemma sum_progress:
  assumes "bt_wf (pk_progress p)" "set es \<subseteq> set (pk_progress p)"
  shows "sum_list (map (\<lambda>e. sum_list (pr_in_flight (snd e))) es) = sum_list (map (block_count p) (progress_keys es))"
  using assms(2)
proof (induction es)
  case (Cons e es)
  have "bt_get (pk_progress p) (fst e) = Some (snd e)" using Cons.prems bt_get_in [OF assms(1)] by simp
  then have "map (\<lambda>b. in_flight_of p (fst e) b) [0..<length (pr_in_flight (snd e))] = pr_in_flight (snd e)"
    by (intro nth_equalityI) (auto simp: in_flight_of_def)
  then show ?case using Cons by (simp add: progress_keys_def comp_def)
qed (simp add: progress_keys_def)

lemma progress_keys_distinct: "distinct (map fst es) \<Longrightarrow> distinct (progress_keys es)"
proof (induction es)
  case (Cons e es)
  have "fst ` set (progress_keys es) \<subseteq> fst ` set es" by (force simp: progress_keys_def)
  then have "fst e \<notin> fst ` set (progress_keys es)" using Cons.prems by auto
  then show ?case using Cons by (auto simp: progress_keys_def distinct_map inj_on_def)
qed (simp add: progress_keys_def)

lemma filter_keys_le:
  assumes "distinct ks"
  shows "length (filter (\<lambda>k. k \<in> fst ` set m) ks) \<le> length m"
proof -
  have "length (filter (\<lambda>k. k \<in> fst ` set m) ks) = card (set ks \<inter> fst ` set m)"
    using assms by (subst distinct_card [symmetric]) (auto simp: Int_def)
  also have "\<dots> \<le> card (fst ` set m)" by (intro card_mono) auto
  also have "\<dots> \<le> card (set m)" by (rule card_image_le) simp
  also have "\<dots> \<le> length m" by (rule card_length)
  finally show ?thesis .
qed

lemma sum_owed_le:
  assumes "distinct ks"
  shows "sum_list (map (owed ps) ks) \<le> sum_list (map (\<lambda>p. length (pe_in_flight p)) ps)"
proof (induction ps)
  case (Cons p ps)
  have "owed (p # ps) = (\<lambda>k. (if k \<in> fst ` set (pe_in_flight p) then 1 else 0) + owed ps k)" by (simp add: owed_def fun_eq_iff)
  then have "sum_list (map (owed (p # ps)) ks) = length (filter (\<lambda>k. k \<in> fst ` set (pe_in_flight p)) ks) + sum_list (map (owed ps) ks)"
    by (simp only: sum_list_addf length_filter_sum)
  then show ?case using Cons filter_keys_le [OF assms, of "pe_in_flight p"] by simp
qed (simp add: owed_def)

lemma table_inv_debug:
  assumes "table_inv n t"
  shows "debug_check_state t"
proof -
  note d = table_invD [OF assms]
  let ?pk = "ts_picker t"
  have wf: "bt_wf (pk_progress ?pk)" using d(1) by (simp add: picker_inv_def)
  let ?ks = "progress_keys (pk_progress ?pk)"
  have "in_flight_total ?pk = sum_list (map (block_count ?pk) ?ks)" using sum_progress [OF wf] by (simp add: in_flight_total_def)
  also have "\<dots> \<le> sum_list (map (owed (ts_peers t)) ?ks)" using table_inv_count [OF assms] by (intro sum_list_mono)
  also have "\<dots> \<le> sum_list (map (\<lambda>p. length (pe_in_flight p)) (ts_peers t))"
    using bt_wf_distinct [OF wf] by (intro sum_owed_le progress_keys_distinct)
  finally have "in_flight_total ?pk \<le> sum_list (map (\<lambda>p. length (pe_in_flight p)) (ts_peers t))" .
  moreover have "bf_len (pk_have ?pk) = n" using d(1,2) by (simp add: picker_inv_def)
  ultimately show ?thesis
    using d picker_inv_check [OF d(1)] by (auto simp: debug_check_state_def list_all_iff holders_def peer_ok_def)
qed

subsection \<open>Properties\<close>

definition sample_meta :: metainfo where
  "sample_meta = \<lparr>mi_info_hash = [], mi_name = [], mi_piece_length = 4, mi_pieces = [[10], [5]], mi_files = [],
     mi_total_length = 5, mi_private = False, mi_trackers = [], mi_skipped_trackers = 0, mi_raw_info = []\<rparr>"

definition sample_sha1 :: "bytes \<Rightarrow> bytes" where
  "sample_sha1 b = [sum_list b]"

definition sample_shared :: shared where
  "sample_shared = shared_new sample_meta sample_storage []"

definition sample_start :: torrent where
  "sample_start = torrent_new sample_meta (bf_empty 2) RarestFirst 0 (\<lambda>_. [])"

definition sample_seated :: torrent where
  "sample_seated = fst (register_peer sample_shared 0 [] [1] False sample_start)"

definition sample_hear :: "message \<Rightarrow> torrent \<Rightarrow> torrent" where
  "sample_hear msg t = fst (message_section sample_sha1 no_faults sample_shared 0 0 msg t)"

definition sample_downloaded :: torrent where
  "sample_downloaded = sample_hear (Piece 0 0 [1, 2, 3, 4]) (sample_hear Unchoke (sample_hear (BitfieldMsg [0xC0]) sample_seated))"

lemma sample_launched: "launched sample_sha1 sample_meta sample_storage (bf_empty 2) (\<lambda>_. [])"
  using sample_storage_wf by (simp add: launched_def sample_meta_def bf_empty_len u32_max_def) (simp add: sample_storage_def)

lemma sample_reachable: "(torrent_step sample_sha1 sample_shared)\<^sup>*\<^sup>* sample_start sample_downloaded"
proof -
  have "torrent_step sample_sha1 sample_shared sample_start sample_seated"
    unfolding sample_seated_def
    by (rule register) (simp_all add: sample_start_def torrent_new_def Let_def u64_max_def u32_max_def)
  moreover have "torrent_step sample_sha1 sample_shared t (sample_hear msg t)" for t msg
    unfolding sample_hear_def by (rule message)
  ultimately show ?thesis unfolding sample_downloaded_def
    by (meson converse_rtranclp_into_rtranclp rtranclp.rtrancl_refl)
qed

lemma sample_holds: "pk_has (ts_picker sample_downloaded) 0"
  by code_simp

text \<open>C1. The torrent's bookkeeping never drifts. From \<^verbatim>\<open>Torrent::new\<close>, whatever messages peers send and
  however the critical sections of the program's threads interleave, with any clock, storage faults and
  hash function, every assertion of \<^verbatim>\<open>debug_check_state\<close> holds: the picker never counts more
  requests than the connected peers owe (no request is leaked), the availability of every piece
  is exactly the number of connected peers that hold it, and peer ids are issued and unique.\<close>

theorem torrent_debug_check:
  assumes "launched sha1 meta st have_set disk"
    and "(torrent_step sha1 (shared_new meta st pid))\<^sup>*\<^sup>* (torrent_new meta have_set mode now disk) t"
  shows "debug_check_state t"
  using reachable_safe [OF assms] by (auto simp: safe_def intro: table_inv_debug)

theorem torrent_debug_check_witness:
  "debug_check_state sample_downloaded \<and> pk_has (ts_picker sample_downloaded) 0"
  using torrent_debug_check [OF sample_launched sample_reachable [unfolded sample_shared_def sample_start_def]] sample_holds
  by simp

text \<open>C2. What the torrent believes it holds is on disk. In every reachable state each held piece is
  present in the files with the expected hash, even though block writes share the disk with them, may fail
  half way and come from untrusted peers; and no step ever gives a held piece up.\<close>

theorem torrent_integrity:
  assumes "launched sha1 meta st have_set disk"
    and "(torrent_step sha1 (shared_new meta st pid))\<^sup>*\<^sup>* (torrent_new meta have_set mode now disk) t"
  shows "(\<forall>i. pk_has (ts_picker t) i \<longrightarrow> piece_ok sha1 (ts_disk t) st i) \<and>
    (\<forall>t'. torrent_step sha1 (shared_new meta st pid) t t' \<longrightarrow>
       (\<forall>i. pk_has (ts_picker t) i \<longrightarrow> pk_has (ts_picker t') i \<and> piece_ok sha1 (ts_disk t') st i))"
proof -
  note s = reachable_safe [OF assms]
  have st: "sh_storage (shared_new meta st pid) = st" by (simp add: shared_new_def Let_def)
  have "pk_has (ts_picker t') i \<and> piece_ok sha1 (ts_disk t') st i"
    if step: "torrent_step sha1 (shared_new meta st pid) t t'" and i: "pk_has (ts_picker t) i" for t' i
    using torrent_step_moves [OF step, of "length (mi_pieces meta)"] s i st by (auto simp: safe_def moves_def advance_def held_ok_def)
  then show ?thesis using s st by (auto simp: safe_def held_ok_def)
qed

theorem torrent_integrity_witness:
  "piece_ok sample_sha1 (ts_disk sample_downloaded) sample_storage 0"
  using torrent_integrity [OF sample_launched sample_reachable [unfolded sample_shared_def sample_start_def]] sample_holds
  by blast

end
