(* ===== verification/Torrent_Limits.thy ===== *)
theory Torrent_Limits
  imports Torrent_Steps
begin

text \<open>
  The address book of a torrent: the destinations it knows, bans, suspects and holds off, and how
  many connections each has. Its limits hold in every reachable state, so nothing a peer sends makes the
  torrent remember or dial without bound, and a banned destination stays out.
\<close>

subsection \<open>Operations that leave the book alone\<close>

definition book :: "torrent \<Rightarrow> (dest, source) hashmap \<times> dest set \<times> dest option \<times> (dest, nat \<times> nat) hashmap \<times> (dest, nat) hashmap \<times> dest list" where
  "book t = (ts_known_peers t, ts_banned t, ts_local_dest t, ts_offences t, ts_suspicion t, map pe_dest (ts_peers t))"

named_theorems book_simps \<open>an operation leaves the address book alone\<close>

lemma book_upd_peer [book_simps]: "(\<And>p. pe_dest (f p) = pe_dest p) \<Longrightarrow> idx < length (ts_peers t) \<Longrightarrow> book (upd_peer idx f t) = book t"
  by (simp add: book_def upd_peer_def update_keeps_map)

lemma book_upd_peer_id [book_simps]: "(\<And>p. pe_dest (f p) = pe_dest p) \<Longrightarrow> book (upd_peer_id i f t) = book t"
  by (auto simp: upd_peer_id_def book_upd_peer dest: position_of_Some split: option.splits)

lemma fill_loop_dest: "pe_dest (fst (fill_loop now reqs p out dups)) = pe_dest p"
  by (induction reqs arbitrary: p out dups) (auto simp: Let_def)

lemma book_fill_requests [book_simps]:
  assumes "idx < length (ts_peers t)"
  shows "book (fst (fill_requests now idx t out)) = book t"
proof -
  let ?p = "ts_peers t ! idx"
  obtain pk reqs where pick: "pick (ts_picker t) (pe_has ?p) (PIPELINE_DEPTH - length (pe_in_flight ?p)) = (pk, reqs)" by fastforce
  obtain p' out' dups where fl: "fill_loop now reqs ?p out [] = (p', out', dups)" by (cases "fill_loop now reqs ?p out []") auto
  have "pe_dest p' = pe_dest ?p" using fill_loop_dest [of now reqs ?p out "[]"] fl by simp
  then show ?thesis using pick fl assms by (simp add: fill_requests_def Let_def book_def update_keeps_map)
qed

lemma peers_length_upd [simp]: "length (ts_peers (upd_peer idx f t)) = length (ts_peers t)"
  by (simp add: upd_peer_def)

lemma book_picker [book_simps]: "book (t\<lparr>ts_picker := pk\<rparr>) = book t"
  by (simp add: book_def)

lemma book_update_interest [book_simps]:
  "idx < length (ts_peers t) \<Longrightarrow> book (fst (update_interest now idx t out)) = book t"
  by (simp add: update_interest_def Let_def book_simps)

lemma book_set_choke: "book (fst (set_choke c i s)) = book (fst s)"
  by (auto simp: set_choke_def book_simps dest: position_of_Some split: option.splits)

lemma book_fold_set_choke: "book (fst (fold (set_choke c) is s)) = book (fst s)"
  by (induction "is" arbitrary: s) (simp_all add: book_set_choke)

lemma book_run_choker [book_simps]: "book (fst (run_choker t out)) = book t"
proof -
  let ?t1 = "t\<lparr>ts_peers := map (\<lambda>p. p\<lparr>pe_uploaded_at_round := pe_uploaded p, pe_downloaded_at_round := pe_downloaded p\<rparr>) (ts_peers t)\<rparr>"
  obtain ck d where p: "plan (ts_choker ?t1) (map (snapshot (is_complete (ts_picker t))) (ts_peers t)) = (ck, d)" by fastforce
  have "book (?t1\<lparr>ts_choker := ck\<rparr>) = book t" by (simp add: book_def comp_def)
  then show ?thesis using p by (simp add: run_choker_def Let_def book_fold_set_choke)
qed

lemma book_choke_if_due [book_simps]: "book (fst (choke_if_due now s)) = book (fst s)"
  by (simp add: choke_if_due_def book_simps) (simp add: book_def)

lemma book_record_sent [book_simps]: "book (record_sent out now t) = book t"
  unfolding record_sent_def by (induction out arbitrary: t) (auto simp: book_simps)

lemma book_cancel_loop: "set others \<subseteq> {..<length (ts_peers t)} \<Longrightarrow> book (fst (cancel_loop idx key msg others t out)) = book t"
proof (induction others arbitrary: t out)
  case (Cons j js)
  then show ?case by (auto simp: Let_def book_simps)
qed simp

lemma book_cancel_elsewhere [book_simps]: "book (fst (cancel_elsewhere idx index begn b t out)) = book t"
  unfolding cancel_elsewhere_def by (rule book_cancel_loop) (rule atLeastLessThan_subset_lessThan)

lemma book_serve_request [book_simps]: "idx < length (ts_peers t) \<Longrightarrow> book (fst (serve_request flt sh idx req t out)) = book t"
  by (auto simp: serve_request_def Let_def book_upd_peer split: sum.splits) (simp add: book_def)

lemma book_serve_metadata [book_simps]: "idx < length (ts_peers t) \<Longrightarrow> book (fst (serve_metadata sh idx piece t out)) = book t"
  by (auto simp: serve_metadata_def Let_def book_simps split: option.splits)

lemma book_replace [book_simps]: "idx < length (ts_peers t) \<Longrightarrow> book (replace_piece_set idx f t) = book t"
  by (simp add: replace_piece_set_def Let_def book_simps)

lemma book_violation [book_simps]: "book (violation i t) = book t"
  by (simp add: violation_def book_def)

subsection \<open>The limits\<close>

definition suspicion_ok :: "dest set \<Rightarrow> torrent \<Rightarrow> bool" where
  "suspicion_ok D t \<longleftrightarrow> (\<forall>d c. d \<notin> D \<longrightarrow> map_of (ts_suspicion t) d = Some c \<longrightarrow> 0 < c \<and> c < SUSPICION_LIMIT)"

definition addresses_ok :: "torrent \<Rightarrow> bool" where
  "addresses_ok t \<longleftrightarrow>
     distinct (map fst (ts_known_peers t)) \<and> length (ts_known_peers t) \<le> MAX_KNOWN_PEERS \<and>
     (\<forall>d \<in> fst ` set (ts_known_peers t). d \<notin> ts_banned t \<and> ts_local_dest t \<noteq> Some d) \<and>
     distinct (map fst (ts_offences t)) \<and> length (ts_offences t) \<le> MAX_KNOWN_PEERS \<and>
     (\<forall>d. length (filter (\<lambda>x. x = d) (map pe_dest (ts_peers t))) \<le> MAX_CONNECTIONS_PER_DEST)"

definition limits :: "torrent \<Rightarrow> bool" where
  "limits t \<longleftrightarrow> addresses_ok t \<and> suspicion_ok {} t"

lemma limits_book: "book t' = book t \<Longrightarrow> limits t' = limits t"
  by (simp add: limits_def addresses_ok_def suspicion_ok_def book_def)

lemma hm_remove_shorter: "k \<in> fst ` set m \<Longrightarrow> length (hm_remove k m) < length m"
  unfolding bt_remove_def by (erule imageE) (rule length_filter_less, auto)

lemma remember_limits: "limits t \<Longrightarrow> limits (fst (remember_peer_from d src t))"
proof -
  assume l: "limits t"
  let ?k = "ts_known_peers t"
  have put: "limits (t\<lparr>ts_known_peers := hm_insert d s m\<rparr>)"
    if "d \<notin> ts_banned t" "ts_local_dest t \<noteq> Some d" "distinct (map fst m)" "fst ` set m \<subseteq> fst ` set ?k"
      "length (hm_insert d s m) \<le> MAX_KNOWN_PEERS" for s m
    using l that by (auto simp: limits_def addresses_ok_def suspicion_ok_def hm_insert_distinct dest!: subsetD [of "fst ` set m"])
  show ?thesis
  proof (cases "d \<in> ts_banned t \<or> ts_local_dest t = Some d")
    case True
    then show ?thesis using l by (simp add: remember_peer_from_def)
  next
    case ok: False
    show ?thesis
    proof (cases "map_of ?k d")
      case (Some s)
      then have "d \<in> fst ` set ?k" by (metis map_of_keys option.distinct(1))
      then have "limits (t\<lparr>ts_known_peers := hm_insert d Trusted ?k\<rparr>)"
        using ok l by (intro put) (auto simp: limits_def addresses_ok_def hm_insert_length)
      then show ?thesis using ok Some l by (simp add: remember_peer_from_def)
    next
      case None
      show ?thesis
      proof (cases "length ?k < MAX_KNOWN_PEERS")
        case True
        then have "limits (t\<lparr>ts_known_peers := hm_insert d src ?k\<rparr>)"
          using ok l by (intro put) (auto simp: limits_def addresses_ok_def hm_insert_length)
        then show ?thesis using ok None True by (simp add: remember_peer_from_def)
      next
        case full: False
        show ?thesis
        proof (cases "find (\<lambda>e. snd e = FromPex) ?k")
          case None
          then show ?thesis using l full ok \<open>map_of ?k d = None\<close> by (simp add: remember_peer_from_def)
        next
          case (Some v)
          then have v: "fst v \<in> fst ` set ?k" by (auto simp: find_Some_iff)
          have "limits (t\<lparr>ts_known_peers := hm_insert d src (hm_remove (fst v) ?k)\<rparr>)"
          proof (rule put)
            have "length (hm_insert d src (hm_remove (fst v) ?k)) \<le> Suc (length (hm_remove (fst v) ?k))" by (simp add: hm_insert_length)
            also have "\<dots> \<le> length ?k" using hm_remove_shorter [OF v] by simp
            finally show "length (hm_insert d src (hm_remove (fst v) ?k)) \<le> MAX_KNOWN_PEERS"
              using l by (simp add: limits_def addresses_ok_def)
          qed (use ok l hm_remove_distinct hm_remove_keys in \<open>auto simp: limits_def addresses_ok_def simp del: set_bt_remove\<close>)
          then show ?thesis using l full ok Some \<open>map_of ?k d = None\<close> by (cases v) (simp add: remember_peer_from_def)
        qed
      qed
    qed
  qed
qed

lemma ban_limits:
  assumes "addresses_ok t" "suspicion_ok D t"
  shows "addresses_ok (ban d t)" "suspicion_ok (D - {d}) (ban d t)"
proof -
  have "length (hm_remove d (ts_known_peers t)) \<le> MAX_KNOWN_PEERS"
    using assms(1) hm_remove_length [of d "ts_known_peers t"] by (simp add: addresses_ok_def)
  then show "addresses_ok (ban d t)"
    using assms(1) by (auto simp: addresses_ok_def ban_def hm_remove_distinct)
  show "suspicion_ok (D - {d}) (ban d t)" using assms(2) by (auto simp: suspicion_ok_def ban_def)
qed

lemma fold_ban_limits:
  "addresses_ok t \<Longrightarrow> suspicion_ok D t \<Longrightarrow> addresses_ok (fold ban ds t) \<and> suspicion_ok (D - set ds) (fold ban ds t)"
proof (induction ds arbitrary: t D)
  case (Cons d ds)
  have "D - set (d # ds) = D - {d} - set ds" by auto
  then show ?case using Cons.IH [OF ban_limits [OF Cons.prems, of d]] by simp
qed simp

lemma penalise_limits: "limits t \<Longrightarrow> limits (penalise d now t)"
proof -
  assume l: "limits t"
  let ?f = "filter (\<lambda>e. snd (snd e) > now) (ts_offences t)"
  have put: "limits (t\<lparr>ts_offences := m\<rparr>)" if "distinct (map fst m)" "length m \<le> MAX_KNOWN_PEERS" for m
    using l that by (simp add: limits_def addresses_ok_def suspicion_ok_def)
  have d: "distinct (map fst (ts_offences t))" "length (ts_offences t) \<le> MAX_KNOWN_PEERS"
    using l by (simp_all add: limits_def addresses_ok_def)
  have f: "distinct (map fst ?f)" "length ?f \<le> MAX_KNOWN_PEERS"
    using d order_trans [OF length_filter_le d(2)] by (auto simp: distinct_map_filter)
  have "length (hm_insert d v m) \<le> MAX_KNOWN_PEERS"
    if "length m \<le> MAX_KNOWN_PEERS" "length m < MAX_KNOWN_PEERS \<or> map_of m d \<noteq> None" for m :: "(dest, nat \<times> nat) hashmap" and v
    using that by (auto simp: hm_insert_length map_of_keys split: if_splits)
  then show ?thesis
    using d f by (auto simp: penalise_def Let_def hm_insert_distinct not_le intro!: put)
qed

subsection \<open>Suspicion\<close>

lemma suspicion_irrelevant [simp]:
  "addresses_ok (t\<lparr>ts_suspicion := s\<rparr>) = addresses_ok t" "addresses_ok (t\<lparr>ts_suppliers := m\<rparr>) = addresses_ok t"
  "suspicion_ok D (t\<lparr>ts_suppliers := m\<rparr>) = suspicion_ok D t"
  by (simp_all add: addresses_ok_def suspicion_ok_def)

lemma credit_blocks_limits: "limits t \<Longrightarrow> limits (credit_blocks index bs t)"
proof (induction index bs t rule: credit_blocks.induct)
  case (2 index b bs t)
  show ?case
  proof (cases "map_of (ts_suppliers t) (index, b)")
    case (Some d)
    let ?t1 = "t\<lparr>ts_suppliers := hm_remove (index, b) (ts_suppliers t)\<rparr>"
    let ?t2 = "case map_of (ts_suspicion ?t1) d of None \<Rightarrow> ?t1
      | Some c \<Rightarrow> if c - 1 = 0 then ?t1\<lparr>ts_suspicion := hm_remove d (ts_suspicion ?t1)\<rparr>
                  else ?t1\<lparr>ts_suspicion := hm_insert d (c - 1) (ts_suspicion ?t1)\<rparr>"
    have "limits ?t2"
      using "2.prems" by (auto simp: limits_def suspicion_ok_def less_imp_diff_less split: option.splits)
    then show ?thesis using Some "2.IH"(2) [OF Some refl] by (simp add: Let_def)
  qed (use 2 in simp)
qed simp

lemma take_contributors_limits:
  "limits t \<Longrightarrow> limits (fst (take_contributors index bs t cs))"
proof (induction index bs t cs rule: take_contributors.induct)
  case (2 index b bs t cs)
  show ?case
  proof (cases "map_of (ts_suppliers t) (index, b)")
    case (Some d)
    have "limits (t\<lparr>ts_suppliers := hm_remove (index, b) (ts_suppliers t)\<rparr>)" using "2.prems" by (simp add: limits_def)
    then show ?thesis using Some "2.IH"(2) [OF Some] by simp
  qed (use 2 in simp)
qed simp

lemma suspect_limits:
  assumes "suspect ds t = (t', culprits)" "addresses_ok t" "suspicion_ok D t" "D \<inter> set ds = {}" "distinct ds"
  shows "addresses_ok t' \<and> suspicion_ok (D \<union> set culprits) t'"
  using assms
proof (induction ds arbitrary: t D culprits)
  case (Cons d ds)
  define count where "count = u32_sat_add (case map_of (ts_suspicion t) d of Some c \<Rightarrow> c | None \<Rightarrow> 0) 1"
  let ?t = "t\<lparr>ts_suspicion := hm_insert d count (ts_suspicion t)\<rparr>"
  obtain cs where s: "suspect ds ?t = (t', cs)" "culprits = (if count \<ge> SUSPICION_LIMIT then d # cs else cs)"
    using Cons.prems(1) by (auto simp: Let_def count_def split: prod.splits)
  let ?D = "if count \<ge> SUSPICION_LIMIT then insert d D else D"
  have "0 < count" by (simp add: count_def u32_sat_add_def u32_max_def)
  then have "suspicion_ok ?D ?t" using Cons.prems(3) by (auto simp: suspicion_ok_def)
  moreover have "?D \<inter> set ds = {}" using Cons.prems(4,5) by auto
  ultimately have "addresses_ok t' \<and> suspicion_ok (?D \<union> set cs) t'"
    using Cons.prems(2,5) by (intro Cons.IH [OF s(1)]) auto
  then show ?case using s(2) by (auto simp: insert_commute split: if_splits)
qed simp

lemma take_contributors_distinct: "distinct cs \<Longrightarrow> distinct (snd (take_contributors index bs t cs))"
  by (induction index bs t cs rule: take_contributors.induct) (auto split: option.splits)

lemma blame_limits:
  assumes "limits t"
  shows "limits (blame_suppliers index t)"
proof -
  obtain t1 cs where tc: "take_contributors index [0..<blocks_in_piece (ts_picker t) index] t [] = (t1, cs)" by fastforce
  have t1: "limits t1" "distinct cs"
    using take_contributors_limits [OF assms, of index "[0..<blocks_in_piece (ts_picker t) index]" "[]"] tc
      take_contributors_distinct [of "[]" index "[0..<blocks_in_piece (ts_picker t) index]" t] by auto
  obtain t2 ds where s: "(case cs of [] \<Rightarrow> (t1, []) | [only] \<Rightarrow> (t1, [only]) | many \<Rightarrow> suspect many t1) = (t2, ds)" by fastforce
  have "addresses_ok t2 \<and> suspicion_ok (set ds) t2"
    using s t1 suspect_limits [of cs t1 t2 ds "{}"]
    by (auto simp: limits_def suspicion_ok_def split: list.splits)
  then have "limits (fold ban ds t2)" using fold_ban_limits [of t2 "set ds" ds] by (simp add: limits_def)
  then show ?thesis using tc s by (simp add: blame_suppliers_def)
qed

subsection \<open>Every section keeps the limits\<close>

lemma learn_pex_limits: "limits t \<Longrightarrow> limits (learn_pex ds t)"
proof (induction ds arbitrary: t)
  case (Cons d ds)
  obtain t' new where r: "remember_peer_from d FromPex t = (t', new)" by fastforce
  have "limits t'" using remember_limits [OF Cons.prems, of d FromPex] r by simp
  then have "limits (if new then t'\<lparr>ts_pex_learned := u64_sat_add (ts_pex_learned t') 1\<rparr> else t')"
    by (simp add: limits_def addresses_ok_def suspicion_ok_def)
  from Cons.IH [OF this] show ?case using r by simp
qed simp

lemma on_extended_limits: "idx < length (ts_peers t) \<Longrightarrow> limits t \<Longrightarrow> limits (fst (on_extended sh idx ext_id payload t out))"
  by (auto simp: on_extended_def Let_def limits_book [OF book_upd_peer] limits_book [OF book_serve_metadata] learn_pex_limits
      split: sum.splits metadata_message.splits)

lemma book_before_write: "idx < length (ts_peers t) \<Longrightarrow> book (before_write idx k t) = book t"
  by (simp add: before_write_def Let_def book_simps)

lemma book_after_write: "idx < length (ts_peers t) \<Longrightarrow> book (after_write idx k len disk t) = book t"
  by (simp add: after_write_def Let_def book_def upd_peer_def update_keeps_map)

lemma block_written_limits:
  assumes "limits t"
  shows "limits (fst (fst (block_written sha1 flt sh i b t out)))"
proof -
  have l: "limits (t\<lparr>ts_picker := pk\<rparr>)" "limits (t\<lparr>ts_picker := pk, ts_storage_error := e\<rparr>)" for pk e
    using assms by (simp_all add: limits_def addresses_ok_def suspicion_ok_def)
  then show ?thesis
    using credit_blocks_limits blame_limits
    by (auto simp: block_written_def Let_def credit_suppliers_def split: prod.splits sum.splits bool.splits)
qed

lemma finish_write_limits:
  assumes "limits t" "slack_inv n {(index, b)} t" "idx < length (ts_peers t)"
  shows "limits (fst (finish_write sha1 flt sh now idx index begn b t out))"
proof -
  obtain t1 out1 where c: "cancel_elsewhere idx index begn b t out = (t1, out1)" by fastforce
  note ce = cancel_elsewhere_facts [OF assms(2), of idx index begn b out, unfolded c fst_conv]
  have "limits t1" using assms(1) limits_book [OF book_cancel_elsewhere [of idx index begn b t out]] c by simp
  moreover obtain t2 out2 complete where w: "block_written sha1 flt sh index b t1 out1 = ((t2, out2), complete)" by (metis prod.collapse)
  ultimately have t2: "limits t2" using block_written_limits [of t1 sha1 flt sh index b out1] by simp
  have "idx < length (ts_peers t2)"
    using block_written_inv [OF ce(1), of sha1 flt sh out1] w refills_length [OF ce(2)] assms(3) by simp
  then have "limits (fst (fill_requests now idx t2 out2))" using t2 limits_book [OF book_fill_requests] by blast
  then show ?thesis using c w t2 by (simp add: finish_write_def)
qed

lemma on_block_limits:
  assumes "limits t" "table_inv n t" "idx < length (ts_peers t)"
  shows "limits (fst (on_block sha1 flt sh now idx index begn block t out))"
proof -
  let ?b = "begn div BLOCK_LEN"
  let ?t = "before_write idx (index, ?b) t"
  note bw = before_write_facts [OF assms(2,3), of "(index, ?b)"]
  have idx: "idx < length (ts_peers ?t)" using bw(2) assms(3) by simp
  have t: "limits ?t" using assms(1) limits_book [OF book_before_write [OF assms(3)]] by simp
  have fill: "limits (fst (fill_requests now idx t' out'))" if "book t' = book ?t" "idx < length (ts_peers t')" for t' out'
    using t limits_book [OF that(1)] limits_book [OF book_fill_requests [OF that(2)]] by simp
  have failed: "limits (fst (fill_requests now idx (?t\<lparr>ts_disk := disk, ts_picker := pk, ts_storage_error := e\<rparr>) out'))"
    "limits (fst (fill_requests now idx (?t\<lparr>ts_picker := pk\<rparr>) out'))" "limits (fst (fill_requests now idx ?t out'))" for disk pk e out'
    using idx by (auto simp: book_def intro!: fill)
  have "limits (fst (finish_write sha1 flt sh now idx index begn ?b (after_write idx (index, ?b) (length block) disk ?t) out'))" for disk out'
    using t limits_book [OF book_after_write [OF idx]] after_write_facts [OF bw(1) idx] idx by (intro finish_write_limits) auto
  then show ?thesis
    unfolding on_block_alt using assms(1) failed by (auto simp: Let_def split: prod.splits sum.splits)
qed

lemma peers_length_replace [simp]: "length (ts_peers (replace_piece_set idx f t)) = length (ts_peers t)"
  by (simp add: replace_piece_set_def Let_def)

lemma peers_length_picker [simp]: "length (ts_peers (t\<lparr>ts_picker := pk\<rparr>)) = length (ts_peers t)"
  by simp

lemma dispatch_book:
  assumes "idx < length (ts_peers t)" "\<not> ((\<exists>a b c. msg = Piece a b c) \<or> (\<exists>e p. msg = Extended e p))"
  shows "book (fst (dispatch sha1 flt sh now i idx first msg t out)) = book t"
  using assms by (cases msg) (simp_all add: dispatch_def Let_def book_simps split: sum.splits)

lemma dispatch_limits:
  assumes "limits t" "table_inv n t" "idx < length (ts_peers t)"
  shows "limits (fst (dispatch sha1 flt sh now i idx first msg t out))"
proof (cases "(\<exists>a b c. msg = Piece a b c) \<or> (\<exists>e p. msg = Extended e p)")
  case True
  then show ?thesis using on_block_limits [OF assms] on_extended_limits [OF assms(3,1)] by (auto simp: dispatch_def)
next
  case False
  then show ?thesis using limits_book [OF dispatch_book [OF assms(3) False]] assms(1) by blast
qed

lemma message_section_limits:
  assumes "limits t" "table_inv n t" "sh_ok n sh t"
  shows "limits (fst (message_section sha1 flt sh now i msg t))"
proof -
  let ?t0 = "upd_peer_id i (\<lambda>p. p\<lparr>pe_last_seen := now\<rparr>) t"
  have t0: "limits ?t0" using assms(1) limits_book [OF book_upd_peer_id] by simp
  have i0: "table_inv n ?t0" using assms(2) by (rule core_eq_inv) (auto intro!: upd_peer_id_core_eq simp: core_def)
  have h: "limits (fst (handle sha1 flt sh now i msg ?t0 []))"
  proof (cases "position_of i (ts_peers ?t0)")
    case None
    then show ?thesis using t0 by (simp add: handle_def)
  next
    case (Some idx)
    then have idx: "idx < length (ts_peers ?t0)" by (simp add: position_of_Some)
    let ?u = "if opens msg then upd_peer idx (\<lambda>p. p\<lparr>pe_opened := True\<rparr>) ?t0 else ?t0"
    have c: "core_eq ?t0 ?u" using idx upd_peer_core_eq [of "\<lambda>p. p\<lparr>pe_opened := True\<rparr>" idx ?t0] by (simp add: core_def)
    have "table_inv n ?u" using i0 c by (rule core_eq_inv)
    moreover have "idx < length (ts_peers ?u)" using core_eq_length [OF c] idx by simp
    moreover have "limits ?u" using t0 idx limits_book [OF book_upd_peer, of "\<lambda>p. p\<lparr>pe_opened := True\<rparr>" idx ?t0] by simp
    ultimately show ?thesis using dispatch_limits Some by (simp add: handle_def Let_def)
  qed
  obtain t2 out2 where c: "choke_if_due now (handle sha1 flt sh now i msg ?t0 []) = (t2, out2)" by fastforce
  have "limits t2" using h limits_book [OF book_choke_if_due, of now "handle sha1 flt sh now i msg ?t0 []"] c by simp
  then have "limits (record_sent out2 now t2)" using limits_book [OF book_record_sent] by blast
  then show ?thesis using c by (simp add: message_section_def Let_def limits_def addresses_ok_def suspicion_ok_def)
qed

lemma book_expire_peer:
  assumes "idx < length (ts_peers t)"
  shows "book (fst (expire_peer now idx (t, drops, out))) = book t \<and>
    length (ts_peers (fst (expire_peer now idx (t, drops, out)))) = length (ts_peers t)"
proof -
  have b: "book t' = book t \<Longrightarrow> length (ts_peers t') = length (ts_peers t)" for t'
    by (auto simp: book_def dest: map_eq_imp_length_eq)
  have "book (fst (expire_peer now idx (t, drops, out))) = book t"
    using assms by (simp add: expire_peer_def Let_def book_simps split_beta)
  with b show ?thesis by blast
qed

lemma maintain_section_limits:
  assumes "limits t"
  shows "limits (fst (maintain_section now t))"
proof -
  have loop: "book (fst (fold (expire_peer now) is (t, d, out))) = book t" if "set is \<subseteq> {..<length (ts_peers t)}" for "is" t d out
    using that
  proof (induction "is" arbitrary: t d out)
    case (Cons j js)
    obtain t1 d1 o1 where e: "expire_peer now j (t, d, out) = (t1, d1, o1)" by (metis prod.collapse)
    then show ?case using book_expire_peer [of j t now d out] Cons.IH [of t1 d1 o1] Cons.prems by simp
  qed simp
  let ?t0 = "t\<lparr>ts_peers := map (\<lambda>p. p\<lparr>pe_metadata_requests := 0\<rparr>) (ts_peers t)\<rparr>"
  have "book ?t0 = book t" by (simp add: book_def comp_def)
  moreover have "book (fst (maintain_requests now ?t0 d out)) = book ?t0" for d out
    unfolding maintain_requests_def by (rule loop) (rule atLeastLessThan_subset_lessThan)
  ultimately have m: "book (fst (maintain_requests now ?t0 d out)) = book t" for d out by simp
  define drops where "drops = map (\<lambda>p. (pe_id p, False)) (filter (\<lambda>p. now - pe_last_seen p \<ge> ts_idle_timeout ?t0) (ts_peers ?t0))"
  define out where "out = map (\<lambda>p. (pe_id p, KeepAlive)) (filter (\<lambda>p. \<not> now - pe_last_seen p \<ge> ts_idle_timeout ?t0 \<and>
      now - pe_last_sent p \<ge> ts_keepalive_interval ?t0) (ts_peers ?t0))"
  obtain t1 d1 o1 where r: "maintain_requests now ?t0 drops out = (t1, d1, o1)" by (metis prod.collapse)
  obtain t2 o2 where c: "choke_if_due now (t1, o1) = (t2, o2)" by fastforce
  have "book t2 = book t" using book_choke_if_due [of now "(t1, o1)"] c m [of drops out] r by simp
  then have "book ((record_sent o2 now t2)\<lparr>ts_to_drop := []\<rparr>) = book t" using book_record_sent [of o2 now t2] by (simp add: book_def)
  moreover have "fst (maintain_section now t) = (record_sent o2 now t2)\<lparr>ts_to_drop := []\<rparr>"
    unfolding maintain_section_def Let_def drops_def [symmetric] out_def [symmetric] by (simp add: r c)
  ultimately have "book (fst (maintain_section now t)) = book t" by simp
  then show ?thesis using assms limits_book by blast
qed

lemma drop_peer_limits:
  assumes "limits t"
  shows "limits (drop_peer now i for_cause t)"
proof (cases "position_of i (ts_peers t)")
  case None
  then show ?thesis using assms by (simp add: drop_peer_def)
next
  case (Some pos)
  then have pos: "pos < length (ts_peers t)" by (simp add: position_of_Some)
  have "length (filter ((\<lambda>x. x = d) \<circ> pe_dest) (swap_remove pos (ts_peers t))) \<le> length (filter ((\<lambda>x. x = d) \<circ> pe_dest) (ts_peers t))" for d
    using filter_swap_remove [OF pos, of "(\<lambda>x. x = d) \<circ> pe_dest"] by simp
  then have "limits (t\<lparr>ts_peers := swap_remove pos (ts_peers t), ts_picker := pk\<rparr>)" for pk
    using assms by (auto simp: limits_def addresses_ok_def suspicion_ok_def filter_map intro: order_trans)
  then show ?thesis using Some penalise_limits by (auto simp: drop_peer_def Let_def)
qed

lemma register_peer_limits:
  assumes "limits t"
  shows "limits (fst (register_peer sh now queue d fast t))"
proof -
  let ?t1 = "t\<lparr>ts_next_id := u64_add (ts_next_id t) 1\<rparr>"
  let ?u = "fst (remember_peer_from d Trusted ?t1)"
  let ?p = "new_peer (ts_next_id t) d queue fast (sh_num_pieces sh) now"
  have "limits ?t1" using assms by (simp add: limits_def addresses_ok_def suspicion_ok_def)
  then have u: "limits ?u" by (rule remember_limits)
  have ps: "ts_peers ?u = ts_peers t" by (auto simp: remember_peer_from_def split: option.splits)
  have "limits (?u\<lparr>ts_peers := ts_peers t @ [?p]\<rparr>)"
    if "length (filter (\<lambda>p. pe_dest p = d) (ts_peers t)) < MAX_CONNECTIONS_PER_DEST"
    using u that ps by (auto simp: limits_def addresses_ok_def suspicion_ok_def new_peer_def filter_map comp_def)
  then show ?thesis using assms ps by (auto simp: register_peer_def Let_def)
qed

lemma limits_frame [simp]:
  "limits (t\<lparr>ts_picker := pk\<rparr>) = limits t" "limits (set_torrent_mode m t) = limits t" "limits (check_done t) = limits t"
  "limits (note_announce outcome t) = limits t" "limits (set_choke_interval k t) = limits t"
  "limits (set_keepalive_interval k t) = limits t" "limits (set_idle_timeout k t) = limits t"
  "limits (set_request_timeout k t) = limits t" "limits (set_max_peers k t) = limits t"
  by (auto simp: limits_def addresses_ok_def suspicion_ok_def set_torrent_mode_def check_done_def note_announce_def set_choke_interval_def
      set_keepalive_interval_def set_idle_timeout_def set_request_timeout_def set_max_peers_def split: sum.splits)

lemma writer_takes_limits [simp]: "limits (writer_takes i t) = limits t"
  unfolding writer_takes_def by (rule limits_book) (simp add: book_simps)

lemma set_local_dest_limits: "limits t \<Longrightarrow> limits (set_local_dest d t)"
  using hm_remove_length [of d "ts_known_peers t"]
  by (auto simp: limits_def addresses_ok_def suspicion_ok_def set_local_dest_def hm_remove_distinct)

lemma rehash_limits:
  assumes "limits t" "mset known = mset (ts_known_peers t)"
  shows "limits (t\<lparr>ts_known_peers := known\<rparr>)"
proof -
  have "mset (map fst known) = mset (map fst (ts_known_peers t))" using assms(2) by simp
  then have "distinct (map fst known) = distinct (map fst (ts_known_peers t))" "set known = set (ts_known_peers t)"
    "length known = length (ts_known_peers t)"
    using assms(2) mset_eq_imp_distinct_iff mset_eq_setD mset_eq_length by blast+
  then show ?thesis using assms(1) by (auto simp: limits_def addresses_ok_def suspicion_ok_def)
qed

lemma torrent_step_limits:
  assumes "torrent_step sha1 sh t t'" "safe n sha1 sh t" "limits t"
  shows "limits t'"
  using assms(1)
proof cases
  case (message flt now i msg)
  then show ?thesis using message_section_limits assms by (auto simp: safe_def)
next
  case (send writing now e)
  have "limits (upd_peer idx (\<lambda>p. p\<lparr>pe_out := pe_out p @ [snd e]\<rparr>) t)" if "position_of (fst e) (ts_peers t) = Some idx" for idx
    using limits_book [OF book_upd_peer] position_of_Some [OF that] assms(3) by simp
  then show ?thesis using send drop_peer_limits [OF assms(3)] assms(3) by (auto simp: send_one_def split: option.splits)
next
  case (rehash known)
  then show ?thesis using rehash_limits [OF assms(3)] by simp
qed (use assms(3) maintain_section_limits drop_peer_limits register_peer_limits remember_limits set_local_dest_limits in simp_all)

lemma torrent_new_limits: "limits (torrent_new meta have_set mode now disk)"
  by (simp add: torrent_new_def Let_def limits_def addresses_ok_def suspicion_ok_def MAX_KNOWN_PEERS_def)

interpretation tbook: transition_system
  "\<lambda>t. \<exists>have_set mode now disk. launched sha1 meta st have_set disk \<and> t = torrent_new meta have_set mode now disk"
  "torrent_step sha1 (shared_new meta st pid)"
  "\<lambda>t. safe (length (mi_pieces meta)) sha1 (shared_new meta st pid) t \<and> limits t"
  for sha1 meta st pid
  by unfold_locales (auto intro: torrent_new_safe torrent_new_limits safe_step torrent_step_limits)

text \<open>C3. No peer can make the torrent remember, dial or queue without bound. In every reachable state
  at most 1024 destinations are known, none of them banned or our own, so neither is ever a dial
  candidate; at most 1024 offenders are remembered; no destination holds more than two connections;
  a connection has at most 16 distinct blocks outstanding; and a destination under suspicion
  has less than three failures against it, because the third bans it.\<close>

theorem torrent_limits:
  assumes "launched sha1 meta st have_set disk"
    and "(torrent_step sha1 (shared_new meta st pid))\<^sup>*\<^sup>* (torrent_new meta have_set mode now disk) t"
  shows "length (ts_known_peers t) \<le> 1024 \<and> distinct (map fst (ts_known_peers t)) \<and>
    (\<forall>d now. d \<in> set (dial_candidates now t) \<or> d \<in> fst ` set (ts_known_peers t) \<longrightarrow> d \<notin> ts_banned t \<and> ts_local_dest t \<noteq> Some d) \<and>
    length (ts_offences t) \<le> 1024 \<and>
    (\<forall>d. length (filter (\<lambda>p. pe_dest p = d) (ts_peers t)) \<le> 2) \<and>
    (\<forall>p \<in> set (ts_peers t). length (pe_in_flight p) \<le> 16 \<and> distinct (map fst (pe_in_flight p))) \<and>
    (\<forall>d c. map_of (ts_suspicion t) d = Some c \<longrightarrow> 0 < c \<and> c < 3)"
proof -
  have s: "safe (length (mi_pieces meta)) sha1 (shared_new meta st pid) t" "limits t"
    using tbook.inv_reachable [OF _ assms(2)] assms(1) by blast+
  then have a: "addresses_ok t" "suspicion_ok {} t" "table_inv (length (mi_pieces meta)) t" by (simp_all add: limits_def safe_def)
  have "\<forall>p \<in> set (ts_peers t). length (pe_in_flight p) \<le> 16 \<and> distinct (map fst (pe_in_flight p))"
    using a(3) by (auto simp: table_inv_def peer_ok_def PIPELINE_DEPTH_def)
  moreover have "\<forall>d. length (filter (\<lambda>p. pe_dest p = d) (ts_peers t)) \<le> 2"
    using a(1) by (simp add: addresses_ok_def filter_map comp_def MAX_CONNECTIONS_PER_DEST_def)
  moreover have "length (ts_known_peers t) \<le> 1024 \<and> distinct (map fst (ts_known_peers t)) \<and> length (ts_offences t) \<le> 1024"
    using a(1) by (simp add: addresses_ok_def MAX_KNOWN_PEERS_def)
  moreover have "\<forall>d now. d \<in> set (dial_candidates now t) \<or> d \<in> fst ` set (ts_known_peers t) \<longrightarrow> d \<notin> ts_banned t \<and> ts_local_dest t \<noteq> Some d"
    using a(1) by (auto simp: addresses_ok_def dial_candidates_def)
  ultimately show ?thesis using a(2) by (simp add: suspicion_ok_def SUSPICION_LIMIT_def)
qed

theorem torrent_limits_witness:
  "length (ts_known_peers sample_downloaded) \<le> 1024 \<and> length (filter (\<lambda>p. pe_dest p = [1]) (ts_peers sample_downloaded)) \<le> 2"
  using torrent_limits [OF sample_launched sample_reachable [unfolded sample_shared_def sample_start_def]] by blast

end
