(* ===== verification/Torrent_Conduct.thy ===== *)
theory Torrent_Conduct
  imports Torrent_Steps
begin

text \<open>
  How a torrent treats its peers: what it serves them, whom it blames for bad data, whom it holds
  off, and whose word about other peers it takes.
\<close>

subsection \<open>What leaves the torrent as data\<close>

fun is_piece :: "message \<Rightarrow> bool" where
  "is_piece (Piece _ _ _) = True"
| "is_piece _ = False"

abbreviation pieces :: "outgoing \<Rightarrow> outgoing" where
  "pieces out \<equiv> filter (\<lambda>e. is_piece (snd e)) out"

named_theorems piece_simps \<open>an operation sends no block data\<close>

lemma fill_loop_pieces: "pieces (fst (snd (fill_loop now reqs p out dups))) = pieces out"
  by (induction reqs arbitrary: p out dups) (auto simp: Let_def)

lemma fill_requests_pieces [piece_simps]: "pieces (snd (fill_requests now idx t out)) = pieces out"
proof -
  let ?p = "ts_peers t ! idx"
  obtain pk reqs where pick: "pick (ts_picker t) (pe_has ?p) (PIPELINE_DEPTH - length (pe_in_flight ?p)) = (pk, reqs)" by fastforce
  obtain p' out' dups where fl: "fill_loop now reqs ?p out [] = (p', out', dups)" by (cases "fill_loop now reqs ?p out []") auto
  show ?thesis using fill_loop_pieces [of now reqs ?p out "[]"] pick fl by (simp add: fill_requests_def Let_def)
qed

lemma update_interest_pieces [piece_simps]: "pieces (snd (update_interest now idx t out)) = pieces out"
  by (simp add: update_interest_def Let_def piece_simps)

lemma set_choke_pieces: "pieces (snd (set_choke c i s)) = pieces (snd s)"
  by (auto simp: set_choke_def split: option.splits)

lemma fold_set_choke_pieces: "pieces (snd (fold (set_choke c) is s)) = pieces (snd s)"
  by (induction "is" arbitrary: s) (simp_all add: set_choke_pieces)

lemma run_choker_pieces [piece_simps]: "pieces (snd (run_choker t out)) = pieces out"
  by (auto simp: run_choker_def Let_def fold_set_choke_pieces split: prod.splits)

lemma choke_if_due_pieces [piece_simps]: "pieces (snd (choke_if_due now s)) = pieces (snd s)"
  by (simp add: choke_if_due_def piece_simps)

lemma cancel_loop_pieces: "\<not> is_piece msg \<Longrightarrow> pieces (snd (cancel_loop idx key msg others t out)) = pieces out"
  by (induction others arbitrary: t out) (auto simp: Let_def)

lemma cancel_elsewhere_pieces [piece_simps]: "pieces (snd (cancel_elsewhere idx index begn b t out)) = pieces out"
  unfolding cancel_elsewhere_def by (rule cancel_loop_pieces) simp

lemma no_pieces_map: "(\<And>x. \<not> is_piece (snd (f x))) \<Longrightarrow> pieces (map f xs) = []"
  by (induction xs) auto

lemma block_written_pieces [piece_simps]: "pieces (snd (fst (block_written sha1 flt sh i b t out))) = pieces out"
  by (auto simp: block_written_def Let_def no_pieces_map split: prod.splits sum.splits bool.splits)

lemma finish_write_pieces [piece_simps]: "pieces (snd (finish_write sha1 flt sh now idx index begn b t out)) = pieces out"
proof -
  obtain t1 out1 where c: "cancel_elsewhere idx index begn b t out = (t1, out1)" by fastforce
  obtain t2 out2 complete where w: "block_written sha1 flt sh index b t1 out1 = ((t2, out2), complete)" by (metis prod.collapse)
  show ?thesis
    using cancel_elsewhere_pieces [of idx index begn b t out] block_written_pieces [of sha1 flt sh index b t1 out1] c w
    by (simp add: finish_write_def piece_simps)
qed

lemma on_block_pieces [piece_simps]: "pieces (snd (on_block sha1 flt sh now idx index begn block t out)) = pieces out"
  unfolding on_block_alt by (auto simp: Let_def piece_simps split: prod.splits sum.splits)

lemma serve_metadata_pieces [piece_simps]: "pieces (snd (serve_metadata sh idx piece t out)) = pieces out"
  by (cases "pe_metadata_id (ts_peers t ! idx)") (simp_all add: serve_metadata_def Let_def)

lemma send_pex_pieces [piece_simps]: "pieces (send_pex idx t out) = pieces out"
  by (cases "pe_pex_id (ts_peers t ! idx)") (simp_all add: send_pex_def Let_def)

lemma on_extended_pieces [piece_simps]: "pieces (snd (on_extended sh idx e payload t out)) = pieces out"
  by (simp add: on_extended_def Let_def piece_simps split: sum.splits metadata_message.splits)

lemma dispatch_pieces:
  "(\<And>req. msg \<noteq> Request req) \<Longrightarrow> pieces (snd (dispatch sha1 flt sh now i idx first msg t out)) = pieces out"
  by (cases msg) (auto simp: dispatch_def Let_def piece_simps split: sum.splits)

lemma serve_request_out:
  assumes "e \<in> set (pieces (snd (serve_request flt sh idx req t [])))" "idx < length (ts_peers t)"
  obtains data where "e = (pe_id (ts_peers t ! idx), Piece (br_index req) (br_begin req) data)" "\<not> pe_we_choke (ts_peers t ! idx)"
    "0 < br_length req" "br_length req \<le> BLOCK_LEN" "br_begin req + br_length req \<le> piece_len (ts_picker t) (br_index req)"
    "pk_has (ts_picker t) (br_index req)"
    "read_block flt (ts_disk t) (sh_storage sh) (br_index req) (br_begin req) (br_length req) = Inr data"
  using assms by (auto simp: serve_request_def Let_def upd_peer_def nth_list_update split: if_splits sum.splits)

lemma space_slice:
  assumes "a + len \<le> m"
  shows "space_bytes st disk (s + a) len = take len (drop a (space_bytes st disk s m))"
  using assms by (intro nth_equalityI) (auto simp: add.assoc)

lemma handle_pieces:
  assumes "e \<in> set (pieces (snd (handle sha1 flt sh now i msg t [])))"
  obtains idx req where "msg = Request req" "position_of i (ts_peers t) = Some idx"
    "e \<in> set (pieces (snd (serve_request flt sh idx req (upd_peer idx (\<lambda>p. p\<lparr>pe_opened := True\<rparr>) t) [])))"
proof -
  obtain idx where idx: "position_of i (ts_peers t) = Some idx"
    using assms by (cases "position_of i (ts_peers t)") (auto simp: handle_def)
  have "\<exists>req. msg = Request req"
  proof (rule ccontr)
    assume "\<not> (\<exists>req. msg = Request req)"
    then have "pieces (snd (handle sha1 flt sh now i msg t [])) = []" using idx dispatch_pieces [of msg] by (simp add: handle_def Let_def)
    then show False using assms by simp
  qed
  then obtain req where req: "msg = Request req" by blast
  then show ?thesis using that [OF req idx] assms idx by (simp add: handle_def Let_def dispatch_def opens_def)
qed

text \<open>C4. The torrent serves only verified data. In every reachable state, a block leaves the torrent
  only as the answer to that peer's own request, only while we are not choking it, and its bytes are exactly
  the requested slice of a piece that is on disk with the expected hash; the slice lies inside
  the piece and is at most one block long. This holds whatever I/O fails.\<close>

theorem served_data_verified:
  assumes "launched sha1 meta st have_set disk"
    and "(torrent_step sha1 (shared_new meta st pid))\<^sup>*\<^sup>* (torrent_new meta have_set mode now disk) t"
    and "message_section sha1 flt (shared_new meta st pid) now' i msg t = (t', out, evict)"
    and "(j, Piece index begn data) \<in> set out"
  shows "j = i \<and> msg = Request \<lparr>br_index = index, br_begin = begn, br_length = length data\<rparr> \<and>
    (\<exists>p \<in> set (ts_peers t). pe_id p = i \<and> \<not> pe_we_choke p) \<and> piece_ok sha1 (ts_disk t) st index \<and>
    0 < length data \<and> length data \<le> 16384 \<and> begn + length data \<le> st_piece_len st index \<and>
    data = take (length data) (drop begn (space_bytes st (ts_disk t) (index * st_piece_length st) (st_piece_len st index)))"
proof -
  let ?sh = "shared_new meta st pid"
  have s: "safe (length (mi_pieces meta)) sha1 ?sh t" using assms(1,2) by (rule reachable_safe)
  have sh: "sh_storage ?sh = st" by (simp add: shared_new_def Let_def)
  let ?u = "upd_peer_id i (\<lambda>p. p\<lparr>pe_last_seen := now'\<rparr>) t"
  have c: "core_eq t ?u" by (rule upd_peer_id_core_eq) (simp add: core_def)
  have "out = snd (choke_if_due now' (handle sha1 flt ?sh now' i msg ?u []))"
    using assms(3) by (auto simp: message_section_def Let_def split: prod.splits)
  then have "pieces out = pieces (snd (handle sha1 flt ?sh now' i msg ?u []))" by (simp only: choke_if_due_pieces)
  moreover have "(j, Piece index begn data) \<in> set (pieces out)" using assms(4) by simp
  ultimately have "(j, Piece index begn data) \<in> set (pieces (snd (handle sha1 flt ?sh now' i msg ?u [])))" by simp
  then obtain idx req where h: "msg = Request req" "position_of i (ts_peers ?u) = Some idx"
      "(j, Piece index begn data) \<in> set (pieces (snd (serve_request flt ?sh idx req (upd_peer idx (\<lambda>p. p\<lparr>pe_opened := True\<rparr>) ?u) [])))"
    by (rule handle_pieces)
  let ?v = "upd_peer idx (\<lambda>p. p\<lparr>pe_opened := True\<rparr>) ?u"
  have idx: "idx < length (ts_peers ?u)" "pe_id (ts_peers ?u ! idx) = i" using position_of_Some [OF h(2)] by simp_all
  have "core_eq ?u ?v" using idx by (intro upd_peer_core_eq) (simp_all add: core_def)
  with c have cv: "core_eq t ?v" by (rule core_eq_trans)
  then have same: "ts_picker ?v = ts_picker t" "ts_disk ?v = ts_disk t" by (simp_all add: core_eq_def)
  have seen: "pe_we_choke (ps[a := (ps ! a)\<lparr>pe_last_seen := x\<rparr>] ! b) = pe_we_choke (ps ! b)" for ps a b x
    by (cases "a < length ps") (simp_all add: nth_list_update list_update_beyond)
  have ch: "pe_we_choke (ts_peers ?v ! idx) = pe_we_choke (ts_peers t ! idx)"
    using idx(1) by (auto simp: upd_peer_id_def upd_peer_def seen split: option.splits)
  have idt: "idx < length (ts_peers t)" using idx(1) core_eq_length [OF c] by simp
  have ids: "pe_id (ts_peers t ! idx) = i" "pe_id (ts_peers ?v ! idx) = i"
    using core_eq_nth [OF c idt] core_eq_nth [OF cv idt] idx(2) by (simp_all add: core_def)
  have idv: "idx < length (ts_peers ?v)" using idt core_eq_length [OF cv] by simp
  obtain data' where d: "(j, Piece index begn data) = (pe_id (ts_peers ?v ! idx), Piece (br_index req) (br_begin req) data')"
      "\<not> pe_we_choke (ts_peers ?v ! idx)" "0 < br_length req" "br_length req \<le> BLOCK_LEN"
      "br_begin req + br_length req \<le> piece_len (ts_picker ?v) (br_index req)" "pk_has (ts_picker ?v) (br_index req)"
      "read_block flt (ts_disk ?v) st (br_index req) (br_begin req) (br_length req) = Inr data'"
    using serve_request_out [OF h(3) idv] unfolding sh by blast
  have wf: "storage_wf st" and ok: "piece_ok sha1 (ts_disk t) st index" and pl: "piece_len (ts_picker t) index = st_piece_len st index"
    using s d(1,6) same sh by (auto simp: safe_def sh_ok_def held_ok_def geom_def piece_len_def st_piece_len_def Let_def)
  obtain buf where r: "read_block_into flt (ts_disk t) st index begn (br_length req) [] = (data, Inr ())"
    using d(1,7) same by (auto simp: read_block_def split: prod.splits sum.splits)
  have len: "length data = br_length req" using read_block_into_facts(1) [OF wf r refl] by simp
  have "data = space_bytes st (ts_disk t) (index * st_piece_length st + begn) (length data)"
    using read_block_into_bytes [OF wf r] len by (simp add: block_start_def)
  moreover have fit: "begn + length data \<le> st_piece_len st index" using d(1,5) same pl len by simp
  ultimately have "data = take (length data) (drop begn (space_bytes st (ts_disk t) (index * st_piece_length st) (st_piece_len st index)))"
    using space_slice [of begn "length data" "st_piece_len st index"] by simp
  then show ?thesis using d(1-4) ids idt ch h(1) len ok fit by (auto simp: BLOCK_LEN_def intro!: bexI [of _ "ts_peers t ! idx"])
qed

definition sample_seeding :: torrent where
  "sample_seeding = sample_hear Interested sample_downloaded"

lemma sample_seeding_reachable: "(torrent_step sample_sha1 sample_shared)\<^sup>*\<^sup>* sample_start sample_seeding"
  unfolding sample_seeding_def sample_hear_def
  using sample_reachable by (rule rtranclp.rtrancl_into_rtrancl) (rule message)

lemma sample_served:
  "(0, Piece 0 1 [2, 3]) \<in> set (fst (snd (message_section sample_sha1 no_faults sample_shared 0 0
     (Request \<lparr>br_index = 0, br_begin = 1, br_length = 2\<rparr>) sample_seeding)))"
  by code_simp

theorem served_data_verified_witness:
  "piece_ok sample_sha1 (ts_disk sample_seeding) sample_storage 0 \<and>
   [2, 3] = take 2 (drop 1 (space_bytes sample_storage (ts_disk sample_seeding) 0 4))"
proof -
  obtain t' out evict where m: "message_section sample_sha1 no_faults (shared_new sample_meta sample_storage []) 0 0
      (Request \<lparr>br_index = 0, br_begin = 1, br_length = 2\<rparr>) sample_seeding = (t', out, evict)" by (metis prod.collapse)
  moreover have "(0, Piece 0 1 [2, 3]) \<in> set out" using sample_served m by (simp add: sample_shared_def)
  moreover have l: "st_piece_len sample_storage 0 = 4" "length [2, 3 :: byte] = 2"
    by (simp_all add: sample_storage_def st_piece_len_def u32_clamp_def u32_max_def)
  ultimately show ?thesis
    using served_data_verified [OF sample_launched sample_seeding_reachable [unfolded sample_shared_def sample_start_def], of no_faults 0 0 _ t' out evict 0 0 1 "[2, 3]"]
    unfolding l mult_0 by blast
qed

subsection \<open>Blame\<close>

definition contributors :: "nat \<Rightarrow> torrent \<Rightarrow> dest set" where
  "contributors index t = {d. \<exists>b < blocks_in_piece (ts_picker t) index. map_of (ts_suppliers t) (index, b) = Some d}"

definition failures :: "dest \<Rightarrow> torrent \<Rightarrow> nat" where
  "failures d t = (case map_of (ts_suspicion t) d of Some c \<Rightarrow> c | None \<Rightarrow> 0)"

lemma take_contributors_exact:
  assumes "take_contributors index bs t cs = (t', cs')" "distinct cs" "distinct bs"
  shows "distinct cs' \<and> set cs' = set cs \<union> {d. \<exists>b \<in> set bs. map_of (ts_suppliers t) (index, b) = Some d} \<and>
    (\<exists>m. t' = t\<lparr>ts_suppliers := m\<rparr> \<and> (\<forall>k. map_of m k = (if fst k = index \<and> snd k \<in> set bs then None else map_of (ts_suppliers t) k)))"
  using assms
proof (induction index bs t cs arbitrary: t' cs' rule: take_contributors.induct)
  case (1 index t cs)
  then show ?case by (intro conjI exI [of _ "ts_suppliers t"]) simp_all
next
  case (2 index b bs t cs)
  let ?rest = "\<lambda>m bs s. \<forall>k. map_of m k = (if fst k = index \<and> snd k \<in> set bs then None else map_of s k)"
  show ?case
  proof (cases "map_of (ts_suppliers t) (index, b)")
    case None
    have "take_contributors index bs t cs = (t', cs')" using "2.prems"(1) None by simp
    from "2.IH"(1) [OF None this "2.prems"(2)] "2.prems"(3) obtain m where
      IH: "distinct cs'" "set cs' = set cs \<union> {d. \<exists>b \<in> set bs. map_of (ts_suppliers t) (index, b) = Some d}"
        "t' = t\<lparr>ts_suppliers := m\<rparr>" "?rest m bs (ts_suppliers t)" by auto
    have "?rest m (b # bs) (ts_suppliers t)" using IH(4) None by (metis list.set_intros(2) prod.collapse set_ConsD)
    then show ?thesis using IH(1-3) None by (intro conjI exI [of _ m]) auto
  next
    case (Some d)
    let ?t = "t\<lparr>ts_suppliers := hm_remove (index, b) (ts_suppliers t)\<rparr>" and ?cs = "if d \<in> set cs then cs else cs @ [d]"
    have tk: "take_contributors index bs ?t ?cs = (t', cs')" "distinct ?cs" "distinct bs" using "2.prems" Some by auto
    from "2.IH"(2) [OF Some tk] obtain m where
      IH: "distinct cs'" "set cs' = set ?cs \<union> {d. \<exists>b \<in> set bs. map_of (ts_suppliers ?t) (index, b) = Some d}"
        "t' = ?t\<lparr>ts_suppliers := m\<rparr>" "?rest m bs (ts_suppliers ?t)" by auto
    have "\<forall>c \<in> set bs. map_of (ts_suppliers ?t) (index, c) = map_of (ts_suppliers t) (index, c)" using "2.prems"(3) by auto
    then have "set cs' = set cs \<union> {d. \<exists>b \<in> set (b # bs). map_of (ts_suppliers t) (index, b) = Some d}"
      using IH(2) Some by auto
    moreover have "t' = t\<lparr>ts_suppliers := m\<rparr>" "?rest m (b # bs) (ts_suppliers t)" using IH(3,4) by auto
    ultimately show ?thesis using IH(1) by (intro conjI exI [of _ m]) auto
  qed
qed

lemma suspect_exact:
  assumes "suspect ds t = (t', culprits)" "distinct ds" "\<forall>d \<in> set ds. failures d t < u32_max"
  shows "set culprits = {d \<in> set ds. failures d t + 1 \<ge> SUSPICION_LIMIT} \<and>
    (\<exists>m. t' = t\<lparr>ts_suspicion := m\<rparr> \<and> (\<forall>d. map_of m d = (if d \<in> set ds then Some (failures d t + 1) else map_of (ts_suspicion t) d)))"
  using assms
proof (induction ds arbitrary: t culprits)
  case Nil
  then show ?case by (intro conjI exI [of _ "ts_suspicion t"]) simp_all
next
  case (Cons d ds)
  have c: "u32_sat_add (case map_of (ts_suspicion t) d of Some c \<Rightarrow> c | None \<Rightarrow> 0) 1 = failures d t + 1"
    using Cons.prems(3) by (simp add: failures_def u32_sat_add_def)
  let ?t = "t\<lparr>ts_suspicion := hm_insert d (failures d t + 1) (ts_suspicion t)\<rparr>"
  obtain cs where s: "suspect ds ?t = (t', cs)" "culprits = (if failures d t + 1 \<ge> SUSPICION_LIMIT then d # cs else cs)"
    using Cons.prems(1) unfolding suspect.simps Let_def c by (auto split: prod.splits)
  have f: "failures x ?t = (if x = d then failures d t + 1 else failures x t)" for x by (simp add: failures_def)
  have d: "distinct ds" "d \<notin> set ds" "\<forall>x \<in> set ds. failures x ?t < u32_max" using Cons.prems(2,3) f by auto
  from Cons.IH [OF s(1) d(1,3)] obtain m where IH: "set cs = {x \<in> set ds. failures x ?t + 1 \<ge> SUSPICION_LIMIT}"
      "t' = ?t\<lparr>ts_suspicion := m\<rparr>"
      "\<forall>x. map_of m x = (if x \<in> set ds then Some (failures x ?t + 1) else map_of (ts_suspicion ?t) x)" by blast
  have "set cs = {x \<in> set ds. failures x t + 1 \<ge> SUSPICION_LIMIT}" unfolding IH(1) f using d(2) by auto
  moreover have "\<forall>x. map_of m x = (if x \<in> set (d # ds) then Some (failures x t + 1) else map_of (ts_suspicion t) x)"
    using IH(3) d(2) unfolding f by auto
  ultimately show ?case using s(2) IH(2) by (intro conjI exI [of _ m]) auto
qed

lemma fold_ban_exact:
  "ts_banned (fold ban ds t) = ts_banned t \<union> set ds \<and> ts_peers (fold ban ds t) = ts_peers t \<and>
    ts_picker (fold ban ds t) = ts_picker t \<and> ts_suppliers (fold ban ds t) = ts_suppliers t \<and>
    fst ` set (ts_known_peers (fold ban ds t)) = fst ` set (ts_known_peers t) - set ds \<and>
    (\<forall>d. failures d (fold ban ds t) = (if d \<in> set ds then 0 else failures d t)) \<and>
    set (ts_to_drop (fold ban ds t)) = set (ts_to_drop t) \<union> {(pe_id p, True) | p. p \<in> set (ts_peers t) \<and> pe_dest p \<in> set ds}"
proof (induction ds arbitrary: t)
  case (Cons d ds)
  have b: "ts_banned (ban d t) = insert d (ts_banned t)" "ts_peers (ban d t) = ts_peers t" "ts_picker (ban d t) = ts_picker t"
    "ts_suppliers (ban d t) = ts_suppliers t" "fst ` set (ts_known_peers (ban d t)) = fst ` set (ts_known_peers t) - {d}"
    "failures x (ban d t) = (if x = d then 0 else failures x t)"
    "set (ts_to_drop (ban d t)) = set (ts_to_drop t) \<union> {(pe_id p, True) | p. p \<in> set (ts_peers t) \<and> pe_dest p = d}" for x
    by (auto simp: ban_def failures_def simp del: set_bt_remove)
  show ?case using Cons [of "ban d t"] by (auto simp: b)
qed simp

text \<open>C5. When a completed piece fails its hash, blame is exact. A sole supplier is banned; among several,
  every supplier gets one more failure and exactly those that reach the third are banned; nobody
  else is touched. Everyone banned is forgotten as a known peer, cleared of suspicion and has all its connections
  queued for removal, and no attribution for the piece is left.\<close>

theorem blame_exact:
  assumes "\<forall>d. failures d t < 3"
  shows "\<exists>culprits. culprits = (if card (contributors index t) = 1 then contributors index t
        else {d \<in> contributors index t. failures d t + 1 \<ge> 3}) \<and>
    ts_banned (blame_suppliers index t) = ts_banned t \<union> culprits \<and>
    (\<forall>d. failures d (blame_suppliers index t) =
       (if d \<in> culprits then 0 else if d \<in> contributors index t then failures d t + 1 else failures d t)) \<and>
    fst ` set (ts_known_peers (blame_suppliers index t)) = fst ` set (ts_known_peers t) - culprits \<and>
    set (ts_to_drop (blame_suppliers index t)) =
      set (ts_to_drop t) \<union> {(pe_id p, True) | p. p \<in> set (ts_peers t) \<and> pe_dest p \<in> culprits} \<and>
    contributors index (blame_suppliers index t) = {} \<and> ts_peers (blame_suppliers index t) = ts_peers t"
proof -
  let ?bs = "[0..<blocks_in_piece (ts_picker t) index]"
  obtain t1 cs where tc: "take_contributors index ?bs t [] = (t1, cs)" by fastforce
  have te: "distinct cs" "set cs = {d. \<exists>b \<in> set ?bs. map_of (ts_suppliers t) (index, b) = Some d}"
    "\<exists>m. t1 = t\<lparr>ts_suppliers := m\<rparr> \<and> (\<forall>k. map_of m k = (if fst k = index \<and> snd k \<in> set ?bs then None else map_of (ts_suppliers t) k))"
    using take_contributors_exact [OF tc] by simp_all
  then obtain m where t1: "distinct cs" "t1 = t\<lparr>ts_suppliers := m\<rparr>"
      "\<And>k. map_of m k = (if fst k = index \<and> snd k \<in> set ?bs then None else map_of (ts_suppliers t) k)" by blast
  have sc: "set cs = contributors index t" unfolding te(2) contributors_def by auto
  have gone: "map_of m (index, b) = None" if "b < blocks_in_piece (ts_picker t) index" for b using t1(3) [of "(index, b)"] that by simp
  have card: "card (contributors index t) = length cs" using t1(1) sc distinct_card by fastforce
  have f1: "failures d t1 = failures d t" for d by (simp add: t1(2) failures_def)
  obtain t2 ds where s: "(case cs of [] \<Rightarrow> (t1, []) | [only] \<Rightarrow> (t1, [only]) | many \<Rightarrow> suspect many t1) = (t2, ds)" by fastforce
  have res: "blame_suppliers index t = fold ban ds t2" using tc s by (simp add: blame_suppliers_def)
  have ds: "set ds = (if card (contributors index t) = 1 then contributors index t else {d \<in> contributors index t. failures d t + 1 \<ge> 3}) \<and>
      (\<exists>sm. t2 = t1\<lparr>ts_suspicion := sm\<rparr>) \<and>
      (\<forall>d. d \<notin> set ds \<longrightarrow> failures d t2 = (if d \<in> contributors index t then failures d t + 1 else failures d t))"
  proof (cases "length cs \<ge> 2")
    case True
    then have su: "suspect cs t1 = (t2, ds)" using s by (auto split: list.splits)
    have "\<forall>d \<in> set cs. failures d t1 < u32_max" using assms by (auto simp: f1 u32_max_def intro: less_trans)
    from suspect_exact [OF su t1(1) this] obtain sm where
      e: "set ds = {d \<in> set cs. failures d t1 + 1 \<ge> SUSPICION_LIMIT}" "t2 = t1\<lparr>ts_suspicion := sm\<rparr>"
        "\<forall>d. map_of sm d = (if d \<in> set cs then Some (failures d t1 + 1) else map_of (ts_suspicion t1) d)" by blast
    have "failures d t2 = (if d \<in> contributors index t then failures d t + 1 else failures d t)" for d
      using e(2,3) sc f1 by (simp add: failures_def [of d t2]) (simp add: failures_def t1(2))
    then show ?thesis using e(1,2) card True sc f1 by (auto simp: SUSPICION_LIMIT_def)
  next
    case False
    then have e: "t2 = t1" "ds = cs" using s by (auto split: list.splits)
    have "\<exists>sm. t2 = t1\<lparr>ts_suspicion := sm\<rparr>" unfolding e by (rule exI [of _ "ts_suspicion t1"]) simp
    moreover have "cs = [] \<or> length cs = 1" using False by (cases cs) (auto simp: Suc_le_eq)
    then have "set ds = (if card (contributors index t) = 1 then contributors index t else {d \<in> contributors index t. failures d t + 1 \<ge> 3})"
      unfolding e sc [symmetric] distinct_card [OF t1(1)] by auto
    moreover have "failures d t2 = (if d \<in> contributors index t then failures d t + 1 else failures d t)" if "d \<notin> set ds" for d
      using that unfolding e sc f1 by simp
    ultimately show ?thesis by blast
  qed
  then obtain sm where t2: "t2 = t1\<lparr>ts_suspicion := sm\<rparr>" by blast
  note fb = fold_ban_exact [of ds t2]
  have "contributors index (fold ban ds t2) = {}" using fb t1(2) gone t2 by (simp add: contributors_def)
  then show ?thesis unfolding res using ds fb t2 t1(2) by (intro exI [of _ "set ds"]) auto
qed

theorem blame_exact_witness:
  "[1] \<in> ts_banned (blame_suppliers 0 (sample_start\<lparr>ts_suppliers := [((0, 0), [1])]\<rparr>))"
proof -
  let ?t = "sample_start\<lparr>ts_suppliers := [((0, 0), [1])]\<rparr>"
  have "blocks_in_piece (ts_picker sample_start) 0 = 1" by code_simp
  then have "contributors 0 ?t = {[1]}" by (auto simp: contributors_def)
  moreover have "\<forall>d. failures d ?t < 3" by (simp add: failures_def sample_start_def torrent_new_def Let_def)
  ultimately show ?thesis using blame_exact [of ?t 0] by auto
qed

subsection \<open>Whose word is taken\<close>

lemma remember_pex:
  "map_of (ts_known_peers (fst (remember_peer_from d FromPex t))) x =
     (if x = d \<and> map_of (ts_known_peers t) d = None \<and> d \<notin> ts_banned t \<and> ts_local_dest t \<noteq> Some d \<and>
         length (ts_known_peers t) < MAX_KNOWN_PEERS
      then Some FromPex else map_of (ts_known_peers t) x)"
  by (auto simp: remember_peer_from_def)

lemma learn_pex_known:
  "(\<forall>x s. map_of (ts_known_peers t) x = Some s \<longrightarrow> map_of (ts_known_peers (learn_pex ds t)) x = Some s) \<and>
   (\<forall>x s. map_of (ts_known_peers t) x = None \<longrightarrow> map_of (ts_known_peers (learn_pex ds t)) x = Some s \<longrightarrow> s = FromPex \<and> x \<in> set ds)"
proof (induction ds arbitrary: t)
  case (Cons d ds)
  obtain t' new where r: "remember_peer_from d FromPex t = (t', new)" by fastforce
  let ?u = "if new then t'\<lparr>ts_pex_learned := u64_sat_add (ts_pex_learned t') 1\<rparr> else t'"
  have u: "map_of (ts_known_peers ?u) x = map_of (ts_known_peers (fst (remember_peer_from d FromPex t))) x" for x using r by simp
  have "map_of (ts_known_peers ?u) x = Some s" if "map_of (ts_known_peers t) x = Some s" for x s
    using that unfolding u remember_pex by auto
  moreover have "s = FromPex \<and> x = d" if "map_of (ts_known_peers t) x = None" "map_of (ts_known_peers ?u) x = Some s" for x s
    using that unfolding u remember_pex by (auto split: if_splits)
  moreover have "learn_pex (d # ds) t = learn_pex ds ?u" using r by simp
  ultimately show ?case using Cons [of ?u] by (metis list.set_intros(1,2) option.exhaust)
qed simp

lemma find_SomeD: "find P xs = Some x \<Longrightarrow> x \<in> set xs \<and> P x"
  by (induction xs) (auto split: if_splits)

lemma remember_trusted:
  assumes "distinct (map fst (ts_known_peers t))"
  shows "map_of (ts_known_peers t) x = Some Trusted \<Longrightarrow>
      map_of (ts_known_peers (fst (remember_peer_from d Trusted t))) x = Some Trusted"
    and "d \<notin> ts_banned t \<Longrightarrow> ts_local_dest t \<noteq> Some d \<Longrightarrow>
      length (ts_known_peers t) < MAX_KNOWN_PEERS \<or> FromPex \<in> snd ` set (ts_known_peers t) \<or> map_of (ts_known_peers t) d \<noteq> None \<Longrightarrow>
      map_of (ts_known_peers (fst (remember_peer_from d Trusted t))) d = Some Trusted"
proof -
  let ?k = "ts_known_peers t"
  have victim: "map_of ?k v = Some FromPex" if "find (\<lambda>e. snd e = FromPex) ?k = Some (v, s)" for v s
  proof -
    have "(v, FromPex) \<in> set ?k" using find_SomeD [OF that] by auto
    then show ?thesis using assms by simp
  qed
  show "map_of (ts_known_peers (fst (remember_peer_from d Trusted t))) x = Some Trusted" if "map_of ?k x = Some Trusted"
    using that victim by (auto simp: remember_peer_from_def split: option.splits)
  assume "d \<notin> ts_banned t" "ts_local_dest t \<noteq> Some d"
    "length ?k < MAX_KNOWN_PEERS \<or> FromPex \<in> snd ` set ?k \<or> map_of ?k d \<noteq> None"
  moreover have "find (\<lambda>e. snd e = FromPex) ?k \<noteq> None" if "FromPex \<in> snd ` set ?k" using that by (auto simp: find_None_iff)
  ultimately show "map_of (ts_known_peers (fst (remember_peer_from d Trusted t))) d = Some Trusted"
    by (auto simp: remember_peer_from_def split: option.splits)
qed

text \<open>C6. Strangers cannot displace what trusted sources said. A peer-exchange message never removes
  or changes a known destination, whatever it lists: it only adds entries, marked as hearsay. A trusted
  sighting never removes another trusted entry, and is recorded unless the destination is banned, our own, or the table
  is full of trusted entries.\<close>

theorem pex_displaces_nothing:
  assumes "distinct (map fst (ts_known_peers t))"
  shows "(\<forall>x s. map_of (ts_known_peers t) x = Some s \<longrightarrow> map_of (ts_known_peers (learn_pex ds t)) x = Some s) \<and>
    (\<forall>x s. map_of (ts_known_peers t) x = None \<longrightarrow> map_of (ts_known_peers (learn_pex ds t)) x = Some s \<longrightarrow> s = FromPex \<and> x \<in> set ds) \<and>
    (\<forall>x. map_of (ts_known_peers t) x = Some Trusted \<longrightarrow>
       map_of (ts_known_peers (fst (remember_peer_from d Trusted t))) x = Some Trusted) \<and>
    (d \<notin> ts_banned t \<and> ts_local_dest t \<noteq> Some d \<and>
     (length (ts_known_peers t) < MAX_KNOWN_PEERS \<or> FromPex \<in> snd ` set (ts_known_peers t) \<or> map_of (ts_known_peers t) d \<noteq> None) \<longrightarrow>
     map_of (ts_known_peers (fst (remember_peer_from d Trusted t))) d = Some Trusted)"
  using learn_pex_known [of t ds] remember_trusted [OF assms] by blast

theorem pex_displaces_nothing_witness:
  "map_of (ts_known_peers (learn_pex [[2], [1]] (sample_start\<lparr>ts_known_peers := [([1], Trusted)]\<rparr>))) [1] = Some Trusted"
  using pex_displaces_nothing [of "sample_start\<lparr>ts_known_peers := [([1], Trusted)]\<rparr>" "[[2], [1]]"] by simp

text \<open>Misbehaviour costs time. Unless 1024 other offenders are still being held off, a peer removed for
  cause is kept off the dial sweep for thirty seconds, doubling with every further offence up to an hour; while
  the hold lasts its destination is no dial candidate, and when it is over it is one again.\<close>

theorem penalise_backoff:
  assumes "\<forall>c u. map_of (ts_offences t) d = Some (c, u) \<longrightarrow> c < u32_max"
    and "length (filter (\<lambda>e. snd (snd e) > now) (ts_offences t)) < MAX_KNOWN_PEERS \<or> map_of (ts_offences t) d \<noteq> None"
    and "now \<le> later"
  shows "\<exists>hold. hold = min (secs 30 * 2 ^ min (case map_of (ts_offences t) d of Some (c, _) \<Rightarrow> c | None \<Rightarrow> 0) 16) (secs 3600) \<and>
    held_for d later (penalise d now t) = (if later < now + hold then Some (now + hold - later) else None) \<and>
    (later < now + hold \<longrightarrow> d \<notin> set (dial_candidates later (penalise d now t)))"
proof -
  let ?m = "if length (ts_offences t) \<ge> MAX_KNOWN_PEERS \<and> map_of (ts_offences t) d = None
         then filter (\<lambda>e. snd (snd e) > now) (ts_offences t) else ts_offences t"
  define c where "c = (case map_of (ts_offences t) d of Some (c, _) \<Rightarrow> c | None \<Rightarrow> 0)"
  have m: "(case map_of ?m d of Some (c, _) \<Rightarrow> c | None \<Rightarrow> 0) = c"
  proof (cases "map_of (ts_offences t) d")
    case None
    then have "map_of (filter P (ts_offences t)) d = None" for P by (auto simp: map_of_keys)
    then show ?thesis using None by (simp add: c_def)
  qed (simp add: c_def)
  have lt: "c < u32_max" using assms(1) by (auto simp: c_def u32_max_def split: option.splits)
  let ?h = "min (secs 30 * 2 ^ min c 16) (secs 3600)"
  have s: "u32_sat_add c 1 = c + 1" "c + 1 - 1 = c" using lt by (simp_all add: u32_sat_add_def)
  have room: "\<not> (length (ts_offences t) \<ge> MAX_KNOWN_PEERS \<and> map_of (ts_offences t) d = None \<and> length ?m \<ge> MAX_KNOWN_PEERS)"
    using assms(2) by auto
  have "penalise d now t = t\<lparr>ts_offences := hm_insert d (c + 1, now + ?h) ?m\<rparr>"
    unfolding penalise_def Let_def m s MISBEHAVIOUR_BACKOFF_def MAX_MISBEHAVIOUR_BACKOFF_def if_not_P [OF room] by (rule refl)
  then have "held_for d later (penalise d now t) = (if later < now + ?h then Some (now + ?h - later) else None)"
    by (simp add: held_for_def)
  then show ?thesis unfolding c_def [symmetric] by (intro exI [of _ ?h]) (auto simp: dial_candidates_def)
qed

theorem penalise_backoff_witness:
  "held_for [1] (secs 10) (penalise [1] 0 sample_start) = Some (secs 20)"
  using penalise_backoff [of sample_start "[1]" 0 "secs 10"]
  by (simp add: sample_start_def torrent_new_def Let_def MAX_KNOWN_PEERS_def secs_def)

end
