(* ===== verification/Text.thy ===== *)
theory Text
  imports Prelude
begin

text \<open>
  Strings as characters, and \<^verbatim>\<open>crates/clove-core/src/text.rs\<close>: making a stranger's text safe to print. Where the
  code walks the characters of a \<^verbatim>\<open>str\<close>, the model has its list of Unicode scalar values;
  \<open>str_bytes\<close> are its UTF-8 bytes. The standard library's character classes are written out.
\<close>

subsection \<open>Characters\<close>

type_synonym rchar = nat
type_synonym rstr = "rchar list"

definition is_scalar :: "rchar \<Rightarrow> bool" where
  "is_scalar c \<longleftrightarrow> c < 0xD800 \<or> (0xE000 \<le> c \<and> c \<le> 0x10FFFF)"

definition utf8_char :: "rchar \<Rightarrow> bytes" where
  "utf8_char c =
     (if c < 0x80 then [of_nat c]
      else if c < 0x800 then [of_nat (0xC0 + c div 64), of_nat (0x80 + c mod 64)]
      else if c < 0x10000 then [of_nat (0xE0 + c div 4096), of_nat (0x80 + c div 64 mod 64), of_nat (0x80 + c mod 64)]
      else [of_nat (0xF0 + c div 262144), of_nat (0x80 + c div 4096 mod 64), of_nat (0x80 + c div 64 mod 64),
            of_nat (0x80 + c mod 64)])"

definition str_bytes :: "rstr \<Rightarrow> bytes" where
  "str_bytes s = concat (map utf8_char s)"

definition str :: "string \<Rightarrow> rstr" where
  "str s = map of_char s"

text \<open>Decoding, as \<^verbatim>\<open>std::str::from_utf8\<close> and \<^verbatim>\<open>String::from_utf8_lossy\<close> do: \<open>utf8_step\<close> reads the
  sequence that starts with a given byte and says how many further bytes it takes; of an ill-formed
  one, the longest start of a sequence is taken, which the lossy decoder replaces by one U+FFFD.\<close>

definition cont :: "byte \<Rightarrow> bool" where
  "cont b \<longleftrightarrow> byte_in 0x80 0xBF b"

definition utf8_step :: "byte \<Rightarrow> bytes \<Rightarrow> rchar option \<times> nat" where
  "utf8_step a r =
     (if a < 0x80 then (Some (unat a), 0)
      else if byte_in 0xC2 0xDF a then
        (case r of
           b # _ \<Rightarrow> if cont b then (Some ((unat a - 0xC0) * 64 + (unat b - 0x80)), 1) else (None, 0)
         | [] \<Rightarrow> (None, 0))
      else if byte_in 0xE0 0xEF a then
        (case r of
           b # r' \<Rightarrow>
             if byte_in (if a = 0xE0 then 0xA0 else 0x80) (if a = 0xED then 0x9F else 0xBF) b then
               (case r' of
                  c # _ \<Rightarrow>
                    if cont c then (Some ((unat a - 0xE0) * 4096 + (unat b - 0x80) * 64 + (unat c - 0x80)), 2) else (None, 1)
                | [] \<Rightarrow> (None, 1))
             else (None, 0)
         | [] \<Rightarrow> (None, 0))
      else if byte_in 0xF0 0xF4 a then
        (case r of
           b # r' \<Rightarrow>
             if byte_in (if a = 0xF0 then 0x90 else 0x80) (if a = 0xF4 then 0x8F else 0xBF) b then
               (case r' of
                  c # r'' \<Rightarrow>
                    if cont c then
                      (case r'' of
                         d # _ \<Rightarrow>
                           if cont d
                           then (Some ((unat a - 0xF0) * 262144 + (unat b - 0x80) * 4096 + (unat c - 0x80) * 64 + (unat d - 0x80)), 3)
                           else (None, 2)
                       | [] \<Rightarrow> (None, 2))
                    else (None, 1)
                | [] \<Rightarrow> (None, 1))
             else (None, 0)
         | [] \<Rightarrow> (None, 0))
      else (None, 0))"

fun from_utf8 :: "bytes \<Rightarrow> rstr option" where
  "from_utf8 [] = Some []"
| "from_utf8 (a # r) =
     (case utf8_step a r of
        (Some c, n) \<Rightarrow> map_option (\<lambda>s. c # s) (from_utf8 (drop n r))
      | (None, n) \<Rightarrow> None)"

fun from_utf8_lossy :: "bytes \<Rightarrow> rstr" where
  "from_utf8_lossy [] = []"
| "from_utf8_lossy (a # r) =
     (case utf8_step a r of (c, n) \<Rightarrow> (case c of Some c \<Rightarrow> c | None \<Rightarrow> 0xFFFD) # from_utf8_lossy (drop n r))"

text \<open>\<^verbatim>\<open>char::is_control\<close> (category Cc) and \<^verbatim>\<open>char::is_whitespace\<close> (White_Space).\<close>

definition is_control :: "rchar \<Rightarrow> bool" where
  "is_control c \<longleftrightarrow> c \<le> 0x1F \<or> (0x7F \<le> c \<and> c \<le> 0x9F)"

definition is_whitespace :: "rchar \<Rightarrow> bool" where
  "is_whitespace c \<longleftrightarrow> (0x9 \<le> c \<and> c \<le> 0xD) \<or> c = 0x20 \<or> c = 0x85 \<or> c = 0xA0 \<or> c = 0x1680 \<or>
     (0x2000 \<le> c \<and> c \<le> 0x200A) \<or> c = 0x2028 \<or> c = 0x2029 \<or> c = 0x202F \<or> c = 0x205F \<or> c = 0x3000"

definition trim :: "rstr \<Rightarrow> rstr" where
  "trim s = rev (dropWhile is_whitespace (rev (dropWhile is_whitespace s)))"

definition strip_suffix :: "'a list \<Rightarrow> 'a list \<Rightarrow> 'a list option" where
  "strip_suffix p s =
     (if length p \<le> length s \<and> drop (length s - length p) s = p then Some (take (length s - length p) s) else None)"

subsection \<open>Scrubbing\<close>

definition scrub_char :: "rchar \<Rightarrow> rchar" where
  "scrub_char c =
     (if is_control c then 0x2E
      else if c = 0xAD \<or> c = 0x61C \<or> c = 0x180E \<or> (0x200B \<le> c \<and> c \<le> 0x200F) \<or> c = 0x2028 \<or> c = 0x2029 \<or>
        (0x202A \<le> c \<and> c \<le> 0x202E) \<or> (0x2060 \<le> c \<and> c \<le> 0x2064) \<or> (0x2066 \<le> c \<and> c \<le> 0x206F) \<or>
        (0xFE00 \<le> c \<and> c \<le> 0xFE0F) \<or> c = 0xFEFF \<or> (0xFFF9 \<le> c \<and> c \<le> 0xFFFB) \<or> (0xE0000 \<le> c \<and> c \<le> 0xE007F)
      then 0x2E else c)"

definition scrub :: "rstr \<Rightarrow> rstr" where
  "scrub s = map scrub_char s"

definition scrub_bounded :: "rstr \<Rightarrow> nat \<Rightarrow> rstr" where
  "scrub_bounded s max_chars = map scrub_char (take max_chars s) @ (if max_chars < length s then [0x2026] else [])"

subsection \<open>Lemmas\<close>

lemma dropWhile_nil: "(\<And>x. x \<in> set xs \<Longrightarrow> \<not> P x) \<Longrightarrow> dropWhile P xs = xs"
  by (cases xs) auto

lemma trim_id:
  assumes "\<And>c. c \<in> set s \<Longrightarrow> \<not> is_whitespace c"
  shows "trim s = s"
proof -
  have "dropWhile is_whitespace s = s" "dropWhile is_whitespace (rev s) = rev s"
    using assms by (auto intro!: dropWhile_nil)
  then show ?thesis by (simp add: trim_def)
qed

lemma trim_set: "set (trim s) \<subseteq> set s"
  unfolding trim_def by (metis set_dropWhileD set_rev subsetI)

lemma strip_suffix_Some: "strip_suffix p s = Some r \<longleftrightarrow> s = r @ p"
  by (auto simp: strip_suffix_def append_eq_conv_conj) (metis append_take_drop_id)

lemma str_bytes_ascii: "\<forall>c \<in> set s. c < 0x80 \<Longrightarrow> str_bytes s = map of_nat s"
  by (induction s) (simp_all add: str_bytes_def utf8_char_def)

lemma str_bytes_Nil [simp]: "str_bytes [] = []"
  by (simp add: str_bytes_def)

lemma str_bytes_Cons [simp]: "str_bytes (c # s) = utf8_char c @ str_bytes s"
  by (simp add: str_bytes_def)

lemma str_bytes_append [simp]: "str_bytes (s @ t) = str_bytes s @ str_bytes t"
  by (simp add: str_bytes_def)

lemma utf8_char_ascii: "(\<forall>b \<in> set (utf8_char c). b < 0x80) \<longleftrightarrow> c < 0x80"
proof (cases "c < 0x80")
  case True
  then show ?thesis by (simp add: utf8_char_def word_less_nat_alt unat_of_nat)
next
  case False
  let ?b = "of_nat (0x80 + c mod 64) :: byte"
  have "\<not> ?b < 0x80" by (simp add: word_less_nat_alt unat_of_nat del: of_nat_add)
  moreover have "?b \<in> set (utf8_char c)" using False by (simp add: utf8_char_def)
  ultimately show ?thesis using False by blast
qed

text \<open>A step reads exactly the encoding of one scalar value.\<close>

lemma unat_high: "k < 256 \<Longrightarrow> unat (of_nat k :: byte) = k"
  by (simp add: unat_of_nat)

lemma utf8_step_two:
  assumes "2 \<le> x" "x < 32" "y < 64"
  shows "utf8_step (of_nat (0xC0 + x)) (of_nat (0x80 + y) # s) = (Some (x * 64 + y), 1)"
  using assms unat_high [of "0xC0 + x"] unat_high [of "0x80 + y"]
  by (simp add: utf8_step_def byte_in_def cont_def word_le_nat_alt word_less_nat_alt del: of_nat_add)

lemma utf8_step_three:
  assumes "x < 16" "y < 64" "z < 64" "x = 0 \<longrightarrow> 32 \<le> y" "x = 13 \<longrightarrow> y < 32"
  shows "utf8_step (of_nat (0xE0 + x)) (of_nat (0x80 + y) # of_nat (0x80 + z) # s) = (Some (x * 4096 + y * 64 + z), 2)"
  using assms unat_high [of "0xE0 + x"] unat_high [of "0x80 + y"] unat_high [of "0x80 + z"]
  by (cases "x = 0"; cases "x = 13")
    (simp_all add: utf8_step_def byte_in_def cont_def word_le_nat_alt word_less_nat_alt word_unat_eq_iff del: of_nat_add)

lemma utf8_step_four:
  assumes "x < 5" "y < 64" "z < 64" "w < 64" "x = 0 \<longrightarrow> 16 \<le> y" "x = 4 \<longrightarrow> y < 16"
  shows "utf8_step (of_nat (0xF0 + x)) (of_nat (0x80 + y) # of_nat (0x80 + z) # of_nat (0x80 + w) # s) =
    (Some (x * 262144 + y * 4096 + z * 64 + w), 3)"
  using assms unat_high [of "0xF0 + x"] unat_high [of "0x80 + y"] unat_high [of "0x80 + z"] unat_high [of "0x80 + w"]
  by (cases "x = 0"; cases "x = 4")
    (simp_all add: utf8_step_def byte_in_def cont_def word_le_nat_alt word_less_nat_alt word_unat_eq_iff del: of_nat_add)

lemma utf8_step_char:
  assumes "is_scalar c" "utf8_char c = a # r"
  shows "utf8_step a (r @ s) = (Some c, length r)"
proof -
  let ?x2 = "c div 64" and ?x3 = "c div 4096" and ?x4 = "c div 262144" and ?y = "c div 4096 mod 64" and ?z = "c div 64 mod 64" and ?w = "c mod 64"
  have m: "?w < 64" "?z < 64" "?y < 64" by simp_all
  have dm: "?x2 * 64 + ?w = c" "?x3 * 64 + ?z = ?x2" "?x4 * 64 + ?y = ?x3"
    using div_mult_mod_eq [of c 64] div_mult_mod_eq [of "c div 64" 64] div_mult_mod_eq [of "c div 4096" 64]
    by (simp_all add: div_mult2_eq [symmetric])
  then have c: "?x3 * 4096 + ?z * 64 + ?w = c" "?x4 * 262144 + ?y * 4096 + ?z * 64 + ?w = c" by linarith+
  consider "c < 0x80" | "0x80 \<le> c" "c < 0x800" | "0x800 \<le> c" "c < 0x10000" | "0x10000 \<le> c" by linarith
  then show ?thesis
  proof cases
    case 1
    then have "unat a = c" "r = []" using assms(2) unat_high [of c] by (auto simp: utf8_char_def)
    then show ?thesis using 1 by (simp add: utf8_step_def word_less_nat_alt)
  next
    case 2
    have "2 \<le> ?x2" "?x2 < 32" using dm m 2 by linarith+
    from utf8_step_two [OF this m(1), of s] show ?thesis using assms(2) 2 unfolding dm(1) by (auto simp: utf8_char_def simp del: of_nat_add)
  next
    case 3
    have "?x3 < 16" "?x3 = 0 \<longrightarrow> 32 \<le> ?z" "?x3 = 13 \<longrightarrow> ?z < 32" using c(1) m 3 assms(1) unfolding is_scalar_def by linarith+
    from utf8_step_three [OF this(1) m(2,1) this(2,3), of s] show ?thesis
      using assms(2) 3 unfolding c(1) by (auto simp: utf8_char_def simp del: of_nat_add)
  next
    case 4
    have "?x4 < 5" "?x4 = 0 \<longrightarrow> 16 \<le> ?y" "?x4 = 4 \<longrightarrow> ?y < 16" using c(2) m 4 assms(1) unfolding is_scalar_def by linarith+
    from utf8_step_four [OF this(1) m(3,2,1) this(2,3), of s] show ?thesis
      using assms(2) 4 unfolding c(2) by (auto simp: utf8_char_def simp del: of_nat_add)
  qed
qed

lemma of_nat_split: "unat a = k + x \<Longrightarrow> a = (of_nat (k + x) :: byte)"
  by (metis of_nat_unat ucast_id)

lemma mod_digit: "z < 64 \<Longrightarrow> (64 * k + z) mod 64 = (z :: nat)"
  by simp

lemma byte_offset: "k \<le> unat a \<Longrightarrow> (\<And>x. unat a = k + x \<Longrightarrow> a = (of_nat (k + x) :: byte) \<Longrightarrow> P) \<Longrightarrow> P"
  using of_nat_split [of a k "unat a - k"] by (metis le_add_diff_inverse)

lemma utf8_char_two:
  assumes "2 \<le> x" "x < 32" "y < 64"
  shows "utf8_char (x * 64 + y) = [of_nat (0xC0 + x), of_nat (0x80 + y)] \<and> is_scalar (x * 64 + y)"
proof -
  have "(x * 64 + y) div 64 = x" "(x * 64 + y) mod 64 = y" using assms by simp_all
  moreover have "0x80 \<le> x * 64 + y" "x * 64 + y < 0x800" using assms by linarith+
  ultimately show ?thesis by (simp add: utf8_char_def is_scalar_def del: of_nat_add)
qed

lemma utf8_char_three:
  assumes "x < 16" "y < 64" "z < 64" "x = 0 \<longrightarrow> 32 \<le> y" "x = 13 \<longrightarrow> y < 32"
  shows "utf8_char (x * 4096 + y * 64 + z) = [of_nat (0xE0 + x), of_nat (0x80 + y), of_nat (0x80 + z)] \<and> is_scalar (x * 4096 + y * 64 + z)"
proof -
  let ?c = "x * 4096 + y * 64 + z"
  have d: "?c div 64 = x * 64 + y" using assms(3) by simp
  have "?c div 4096 = ?c div 64 div 64" by (simp add: div_mult2_eq [symmetric])
  then have "?c div 4096 = x" "?c div 64 mod 64 = y" unfolding d using assms by simp_all
  moreover have "?c mod 64 = z" using mod_digit [OF assms(3), of "x * 64 + y"] by (simp add: mult.commute)
  moreover have "0x800 \<le> ?c" "?c < 0x10000" using assms by linarith+
  moreover have "is_scalar ?c" using assms unfolding is_scalar_def by (cases "x < 13"; cases "x = 13"; linarith)
  ultimately show ?thesis by (simp add: utf8_char_def del: of_nat_add)
qed

lemma utf8_char_four:
  assumes "x < 5" "y < 64" "z < 64" "w < 64" "x = 0 \<longrightarrow> 16 \<le> y" "x = 4 \<longrightarrow> y < 16"
  shows "utf8_char (x * 262144 + y * 4096 + z * 64 + w) = [of_nat (0xF0 + x), of_nat (0x80 + y), of_nat (0x80 + z), of_nat (0x80 + w)] \<and>
    is_scalar (x * 262144 + y * 4096 + z * 64 + w)"
proof -
  let ?c = "x * 262144 + y * 4096 + z * 64 + w"
  have d: "?c div 64 = x * 4096 + y * 64 + z" using assms(4) by simp
  have "?c div 4096 = ?c div 64 div 64" by (simp add: div_mult2_eq [symmetric])
  then have e: "?c div 4096 = x * 64 + y" unfolding d using assms(3) by simp
  have "?c div 262144 = ?c div 4096 div 64" by (simp add: div_mult2_eq [symmetric])
  then have "?c div 262144 = x" unfolding e using assms(2) by simp
  moreover have "?c div 4096 mod 64 = y" "?c div 64 mod 64 = z" "?c mod 64 = w"
    unfolding d e using mod_digit [OF assms(2), of x] mod_digit [OF assms(3), of "x * 64 + y"] mod_digit [OF assms(4), of "x * 4096 + y * 64 + z"]
    by (simp_all add: mult.commute)
  moreover have "0x10000 \<le> ?c" "is_scalar ?c" using assms unfolding is_scalar_def by linarith+
  ultimately show ?thesis by (simp add: utf8_char_def del: of_nat_add)
qed

lemma utf8_step_exact:
  assumes "utf8_step a r = (Some c, n)"
  shows "is_scalar c \<and> utf8_char c = a # take n r \<and> n \<le> length r"
proof -
  consider (one) "a < 0x80" | (two) "byte_in 0xC2 0xDF a" | (three) "byte_in 0xE0 0xEF a" | (four) "byte_in 0xF0 0xF4 a"
    using assms by (auto simp: utf8_step_def split: if_splits)
  then show ?thesis
  proof cases
    case one
    then show ?thesis using assms by (auto simp: utf8_step_def utf8_char_def is_scalar_def word_less_nat_alt)
  next
    case two
    then have "\<not> a < 0x80" by (simp add: byte_in_def word_le_nat_alt word_less_nat_alt)
    then obtain b s where b: "r = b # s" "cont b" "c = (unat a - 0xC0) * 64 + (unat b - 0x80)" "n = 1"
      using two assms by (auto simp: utf8_step_def split: list.splits if_splits)
    have l: "0xC0 \<le> unat a" "0x80 \<le> unat b" using two b by (auto simp: byte_in_def cont_def word_le_nat_alt)
    obtain x where x: "unat a = 0xC0 + x" "a = of_nat (0xC0 + x)" using l(1) by (rule byte_offset)
    obtain y where y: "unat b = 0x80 + y" "b = of_nat (0x80 + y)" using l(2) by (rule byte_offset)
    have "2 \<le> x" "x < 32" "y < 64" using two b(2) by (auto simp: byte_in_def cont_def word_le_nat_alt x(1) y(1))
    from utf8_char_two [OF this] show ?thesis unfolding x(2) [symmetric] y(2) [symmetric] using b(1,3,4) by (simp add: x(1) y(1))
  next
    case three
    then have "\<not> a < 0x80" "\<not> byte_in 0xC2 0xDF a" by (auto simp: byte_in_def word_le_nat_alt word_less_nat_alt)
    then obtain b d s where b: "r = b # d # s" "byte_in (if a = 0xE0 then 0xA0 else 0x80) (if a = 0xED then 0x9F else 0xBF) b" "cont d"
      "c = (unat a - 0xE0) * 4096 + (unat b - 0x80) * 64 + (unat d - 0x80)" "n = 2"
      using three assms by (auto simp: utf8_step_def split: list.splits if_splits)
    have "unat a - 0xE0 = 0 \<longleftrightarrow> a = 0xE0" "unat a - 0xE0 = 13 \<longleftrightarrow> a = 0xED"
      using three by (auto simp: byte_in_def word_le_nat_alt word_unat_eq_iff)
    moreover have l: "0xE0 \<le> unat a" "0x80 \<le> unat b" "0x80 \<le> unat d"
      using three b(2,3) by (auto simp: byte_in_def cont_def word_le_nat_alt split: if_splits)
    obtain x where x: "unat a = 0xE0 + x" "a = of_nat (0xE0 + x)" using l(1) by (rule byte_offset)
    obtain y where y: "unat b = 0x80 + y" "b = of_nat (0x80 + y)" using l(2) by (rule byte_offset)
    obtain z where z: "unat d = 0x80 + z" "d = of_nat (0x80 + z)" using l(3) by (rule byte_offset)
    ultimately have "x < 16" "y < 64" "z < 64" "x = 0 \<longrightarrow> 32 \<le> y" "x = 13 \<longrightarrow> y < 32"
      using three b(2,3) by (auto simp: byte_in_def cont_def word_le_nat_alt x(1) y(1) z(1) split: if_splits)
    from utf8_char_three [OF this] show ?thesis
      unfolding x(2) [symmetric] y(2) [symmetric] z(2) [symmetric] using b(1,4,5) by (simp add: x(1) y(1) z(1) numeral_2_eq_2)
  next
    case four
    then have "\<not> a < 0x80" "\<not> byte_in 0xC2 0xDF a" "\<not> byte_in 0xE0 0xEF a" by (auto simp: byte_in_def word_le_nat_alt word_less_nat_alt)
    then obtain b d e s where b: "r = b # d # e # s" "byte_in (if a = 0xF0 then 0x90 else 0x80) (if a = 0xF4 then 0x8F else 0xBF) b"
      "cont d" "cont e" "c = (unat a - 0xF0) * 262144 + (unat b - 0x80) * 4096 + (unat d - 0x80) * 64 + (unat e - 0x80)" "n = 3"
      using four assms by (auto simp: utf8_step_def split: list.splits if_splits)
    have "unat a - 0xF0 = 0 \<longleftrightarrow> a = 0xF0" "unat a - 0xF0 = 4 \<longleftrightarrow> a = 0xF4"
      using four by (auto simp: byte_in_def word_le_nat_alt word_unat_eq_iff)
    moreover have l: "0xF0 \<le> unat a" "0x80 \<le> unat b" "0x80 \<le> unat d" "0x80 \<le> unat e"
      using four b(2,3,4) by (auto simp: byte_in_def cont_def word_le_nat_alt split: if_splits)
    obtain x where x: "unat a = 0xF0 + x" "a = of_nat (0xF0 + x)" using l(1) by (rule byte_offset)
    obtain y where y: "unat b = 0x80 + y" "b = of_nat (0x80 + y)" using l(2) by (rule byte_offset)
    obtain z where z: "unat d = 0x80 + z" "d = of_nat (0x80 + z)" using l(3) by (rule byte_offset)
    obtain w where w: "unat e = 0x80 + w" "e = of_nat (0x80 + w)" using l(4) by (rule byte_offset)
    ultimately have "x < 5" "y < 64" "z < 64" "w < 64" "x = 0 \<longrightarrow> 16 \<le> y" "x = 4 \<longrightarrow> y < 16"
      using four b(2,3,4) by (auto simp: byte_in_def cont_def word_le_nat_alt x(1) y(1) z(1) w(1) split: if_splits)
    from utf8_char_four [OF this] show ?thesis
      unfolding x(2) [symmetric] y(2) [symmetric] z(2) [symmetric] w(2) [symmetric]
      using b(1,5,6) by (simp add: x(1) y(1) z(1) w(1) numeral_3_eq_3)
  qed
qed

lemma from_utf8_iff: "from_utf8 bs = Some s \<longleftrightarrow> str_bytes s = bs \<and> (\<forall>c \<in> set s. is_scalar c)"
proof
  show "str_bytes s = bs \<and> (\<forall>c \<in> set s. is_scalar c) \<Longrightarrow> from_utf8 bs = Some s"
  proof (induction s arbitrary: bs)
    case (Cons c s)
    obtain a r where u: "utf8_char c = a # r" by (cases "utf8_char c") (auto simp: utf8_char_def split: if_splits)
    then have "bs = a # r @ str_bytes s" using Cons.prems by auto
    then show ?case using Cons utf8_step_char [OF _ u, of "str_bytes s"] by simp
  qed simp
  show "from_utf8 bs = Some s \<Longrightarrow> str_bytes s = bs \<and> (\<forall>c \<in> set s. is_scalar c)"
  proof (induction bs arbitrary: s rule: from_utf8.induct)
    case (2 a r)
    obtain oc n where st: "utf8_step a r = (oc, n)" by fastforce
    with "2.prems" obtain c t where c: "oc = Some c" "from_utf8 (drop n r) = Some t" "s = c # t" by (auto split: option.splits)
    then have "str_bytes t = drop n r \<and> (\<forall>c \<in> set t. is_scalar c)" using "2.IH" [OF st [symmetric] c(1)] by simp
    then show ?case using utf8_step_exact [of a r c n] st c by simp
  qed simp
qed

lemma from_utf8_lossy_valid: "from_utf8 bs = Some s \<Longrightarrow> from_utf8_lossy bs = s"
  by (induction bs arbitrary: s rule: from_utf8_lossy.induct) (auto split: prod.splits option.splits)

lemma utf8_char_high:
  assumes "is_scalar c" "0x80 \<le> c" "b \<in> set (utf8_char c)"
  shows "0x80 \<le> b"
proof -
  have k: "0x80 \<le> (of_nat k :: byte)" if "0x80 \<le> k" "k < 256" for k using that unat_high [of k] by (simp add: word_le_nat_alt)
  have "c mod 64 < 64" "c div 64 mod 64 < 64" "c div 4096 mod 64 < 64" by simp_all
  moreover have "c div 64 < 32" if "c < 0x800" using that by simp
  moreover have "c div 4096 < 16" if "c < 0x10000" using that by simp
  moreover have "c < 1310720" using assms(1) by (auto simp: is_scalar_def)
  then have "c div 262144 < 5" by simp
  ultimately show ?thesis using assms(2,3) unfolding utf8_char_def
    by (auto split: if_splits simp del: of_nat_add intro!: k)
qed

lemma str_bytes_low:
  assumes "\<forall>c \<in> set s. is_scalar c" "b < 0x80"
  shows "b \<in> set (str_bytes s) \<longleftrightarrow> unat b \<in> set s"
proof -
  have "b \<in> set (utf8_char c) \<longleftrightarrow> unat b = c" if "is_scalar c" for c
  proof (cases "c < 0x80")
    case True
    then show ?thesis using unat_high [of c] of_nat_split [of b 0 c] by (auto simp: utf8_char_def)
  next
    case False
    then show ?thesis using utf8_char_high [OF that, of b] assms(2) by (auto simp: word_less_nat_alt word_le_nat_alt)
  qed
  then show ?thesis using assms(1) by (auto simp: str_bytes_def)
qed

lemma from_utf8_lossy_char:
  "c \<in> set (from_utf8_lossy bs) \<Longrightarrow> is_scalar c \<and> (c < 0x80 \<longrightarrow> of_nat c \<in> set bs)"
proof (induction bs rule: from_utf8_lossy.induct)
  case (2 a r)
  obtain x n where x: "utf8_step a r = (x, n)" by fastforce
  let ?c = "case x of Some c \<Rightarrow> c | None \<Rightarrow> 0xFFFD"
  have "c = ?c \<or> c \<in> set (from_utf8_lossy (drop n r))" using "2.prems" x by simp
  then show ?case
  proof
    assume c: "c = ?c"
    show ?thesis
    proof (cases x)
      case (Some d)
      then have "is_scalar d" "utf8_char d = a # take n r" using utf8_step_exact [of a r d n] x by auto
      then show ?thesis using c Some by (auto simp: utf8_char_def)
    qed (use c in \<open>simp add: is_scalar_def\<close>)
  next
    assume "c \<in> set (from_utf8_lossy (drop n r))"
    then have "is_scalar c \<and> (c < 0x80 \<longrightarrow> of_nat c \<in> set (drop n r))" using "2.IH" [OF x [symmetric]] by simp
    then show ?thesis using set_drop_subset [of n r] by auto
  qed
qed simp

text \<open>Bytes read as characters, as \<^verbatim>\<open>char::from\<close> does.\<close>

definition chars :: "bytes \<Rightarrow> rstr" where
  "chars bs = map unat bs"

lemma chars_append [simp]: "chars (a @ b) = chars a @ chars b"
  by (simp add: chars_def)

lemma ascii_text:
  assumes "\<forall>b \<in> set (str_bytes s). b < 0x80"
  shows "chars (str_bytes s) = s"
  using assms
proof (induction s)
  case (Cons c s)
  then have "c < 0x80" using utf8_char_ascii [of c] by auto
  then show ?case using Cons by (simp add: chars_def utf8_char_def unat_of_nat)
qed (simp add: chars_def)

lemma str_bytes_chars: "\<forall>b \<in> set bs. b < 0x80 \<Longrightarrow> str_bytes (chars bs) = bs"
  by (induction bs) (auto simp: chars_def utf8_char_def word_less_nat_alt)

lemma unat_of_char: "unat (of_char c :: byte) = of_char c"
proof -
  have "unat (of_nat (of_char c) :: byte) = of_char c" using nat_of_char_less_256 [of c] by (simp only: unat_of_nat) simp
  then show ?thesis by (simp add: of_nat_of_char)
qed

lemma str_chars_ascii: "str s = chars (ascii s)"
  by (simp add: str_def chars_def ascii_def unat_of_char)

lemma trim_append:
  assumes "\<forall>c \<in> set s. \<not> is_whitespace c" "s \<noteq> []"
  shows "trim (s @ t) = s @ rev (dropWhile is_whitespace (rev t))"
proof -
  have "dropWhile is_whitespace (s @ t) = s @ t" using assms by (cases s) auto
  moreover have "dropWhile is_whitespace (rev t @ rev s) = dropWhile is_whitespace (rev t) @ rev s"
  proof (cases "\<forall>c \<in> set t. is_whitespace c")
    case True
    have "dropWhile is_whitespace (rev s) = rev s" using assms(1) by (intro dropWhile_nil) auto
    moreover from True have "dropWhile is_whitespace (rev t) = []" by simp
    moreover have "dropWhile is_whitespace (rev t @ rev s) = dropWhile is_whitespace (rev s)" using True by (intro dropWhile_append2) auto
    ultimately show ?thesis by simp
  qed (auto simp: dropWhile_append1)
  ultimately show ?thesis by (simp add: trim_def)
qed

text \<open>The text \<^verbatim>\<open>scrub\<close> keeps is exactly the text it finds harmless.\<close>

definition harmless :: "rchar \<Rightarrow> bool" where
  "harmless c \<longleftrightarrow> scrub_char c = c"

lemma harmless_dot [simp]: "harmless 0x2E"
  by (simp add: harmless_def scrub_char_def is_control_def)

lemma scrub_char_harmless: "harmless (scrub_char c)"
  by (auto simp: harmless_def scrub_char_def is_control_def)

lemma harmless_iff:
  "harmless c \<longleftrightarrow> \<not> is_control c \<and> c \<noteq> 0xAD \<and> c \<noteq> 0x61C \<and> c \<noteq> 0x180E \<and> c \<notin> {0x200B..0x200F} \<and> c \<notin> {0x2028..0x202E} \<and>
     c \<notin> {0x2060..0x2064} \<and> c \<notin> {0x2066..0x206F} \<and> c \<notin> {0xFE00..0xFE0F} \<and> c \<noteq> 0xFEFF \<and> c \<notin> {0xFFF9..0xFFFB} \<and> c \<notin> {0xE0000..0xE007F}"
  by (auto simp: harmless_def scrub_char_def is_control_def)

lemma scrub_bounded_harmless: "(\<forall>c \<in> set (scrub_bounded s n). harmless c) \<and> length (scrub_bounded s n) \<le> n + 1"
proof -
  have "harmless 0x2026" by (simp add: harmless_iff is_control_def)
  then show ?thesis by (auto simp: scrub_bounded_def scrub_char_harmless)
qed

text \<open>Nothing a terminal would act on survives scrubbing: the result has one character per
  character of the input, none of them a control, bidirectional or invisible format
  character; harmless text is unchanged, so scrubbing twice changes nothing. The bounded form prints at
  most one character more than its limit, an ellipsis that appears exactly when text was cut.\<close>

theorem scrub_safe:
  "length (scrub s) = length s \<and> list_all harmless (scrub s) \<and> (scrub s = s \<longleftrightarrow> list_all harmless s) \<and>
   scrub (scrub s) = scrub s \<and> list_all harmless (scrub_bounded s n) \<and> length (scrub_bounded s n) \<le> n + 1 \<and>
   scrub_bounded s n = take n (scrub s) @ (if n < length s then [0x2026] else [])"
proof -
  have h: "\<forall>c \<in> set (scrub s). harmless c" for s by (auto simp: scrub_def scrub_char_harmless)
  have e: "scrub s = s \<longleftrightarrow> (\<forall>c \<in> set s. harmless c)" for s
    by (induction s) (auto simp: scrub_def harmless_def)
  have "scrub (scrub s) = scrub s" using h e by blast
  moreover have "scrub_bounded s n = take n (scrub s) @ (if n < length s then [0x2026] else [])"
    by (simp add: scrub_bounded_def scrub_def take_map)
  moreover have "length (scrub s) = length s" by (simp add: scrub_def)
  ultimately show ?thesis using h [of s] e [of s] scrub_bounded_harmless [of s n] unfolding list_all_iff by blast
qed

end
