(* ===== verification/Addr.thy ===== *)
theory Addr
  imports Text
begin

unbundle bit_operations_syntax

text \<open>
  I2P addresses (\<^verbatim>\<open>crates/i2pnet/src/addr.rs\<close>): base32 and base64 with their bit buffers, \<^verbatim>\<open>.b32.i2p\<close>
  names, and the public destination inside a SAM key blob. A \<^verbatim>\<open>DestHash\<close> is its 32 bytes; SHA-256 is
  a parameter.
\<close>

subsection \<open>Alphabets\<close>

definition B32_ALPHABET :: bytes where
  "B32_ALPHABET = ascii ''abcdefghijklmnopqrstuvwxyz234567''"

definition I2P_B64_ALPHABET :: bytes where
  "I2P_B64_ALPHABET = ascii ''ABCDEFGHIJKLMNOPQRSTUVWXYZabcdefghijklmnopqrstuvwxyz0123456789-~''"

text \<open>\<^verbatim>\<open>iter().position(|&a| a == c)\<close>.\<close>

fun position :: "'a \<Rightarrow> 'a list \<Rightarrow> nat option" where
  "position c [] = None"
| "position c (a # as) = (if a = c then Some 0 else map_option Suc (position c as))"

subsection \<open>Base32\<close>

fun emit_symbols :: "32 word \<Rightarrow> nat \<Rightarrow> bytes \<Rightarrow> nat \<times> bytes" where
  "emit_symbols buffer bits out =
     (if bits \<ge> 5
      then emit_symbols buffer (bits - 5) (out @ [B32_ALPHABET ! unat (drop_bit (bits - 5) buffer AND 0x1F)])
      else (bits, out))"

declare emit_symbols.simps [simp del]

fun encode_loop :: "bytes \<Rightarrow> 32 word \<Rightarrow> nat \<Rightarrow> bytes \<Rightarrow> 32 word \<times> nat \<times> bytes" where
  "encode_loop [] buffer bits out = (buffer, bits, out)"
| "encode_loop (byte # data) buffer bits out =
     (let buffer = push_bit 8 buffer OR ucast byte;
          (bits, out) = emit_symbols buffer (bits + 8) out in
      encode_loop data buffer bits out)"

definition base32_encode :: "bytes \<Rightarrow> bytes" where
  "base32_encode data =
     (let (buffer, bits, out) = encode_loop data 0 0 [] in
      if bits > 0 then out @ [B32_ALPHABET ! unat (push_bit (5 - bits) buffer AND 0x1F)] else out)"

text \<open>The loop both decoders have, for an alphabet whose symbols carry \<open>k\<close> bits.\<close>

fun decode_loop :: "bytes \<Rightarrow> nat \<Rightarrow> bytes \<Rightarrow> 32 word \<Rightarrow> nat \<Rightarrow> bytes \<Rightarrow> (32 word \<times> nat \<times> bytes) option" where
  "decode_loop alphabet k [] buffer bits out = Some (buffer, bits, out)"
| "decode_loop alphabet k (c # cs) buffer bits out =
     (case position c alphabet of
        None \<Rightarrow> None
      | Some val \<Rightarrow>
          (let buffer = push_bit k buffer OR of_nat val;
               bits = bits + k in
           if bits \<ge> 8
           then decode_loop alphabet k cs buffer (bits - 8) (out @ [ucast (drop_bit (bits - 8) buffer AND 0xFF)])
           else decode_loop alphabet k cs buffer bits out))"

definition decode_end :: "32 word \<times> nat \<times> bytes \<Rightarrow> bytes option" where
  "decode_end s =
     (case s of (buffer, bits, out) \<Rightarrow> if bits > 0 \<and> buffer AND (push_bit bits 1 - 1) \<noteq> 0 then None else Some out)"

definition base32_decode :: "bytes \<Rightarrow> bytes option" where
  "base32_decode s = Option.bind (decode_loop B32_ALPHABET 5 s 0 0 []) decode_end"

subsection \<open>Base64\<close>

definition b64_chunk :: "bytes \<Rightarrow> bytes" where
  "b64_chunk chunk =
     (let b0 = ucast (chunk ! 0) :: 32 word;
          b1 = (if 1 < length chunk then ucast (chunk ! 1) else 0);
          b2 = (if 2 < length chunk then ucast (chunk ! 2) else 0);
          n = push_bit 16 b0 OR push_bit 8 b1 OR b2 in
      [I2P_B64_ALPHABET ! unat (drop_bit 18 n AND 0x3F), I2P_B64_ALPHABET ! unat (drop_bit 12 n AND 0x3F),
       if length chunk > 1 then I2P_B64_ALPHABET ! unat (drop_bit 6 n AND 0x3F) else 61,
       if length chunk > 2 then I2P_B64_ALPHABET ! unat (n AND 0x3F) else 61])"

text \<open>\<^verbatim>\<open>data.chunks(3)\<close>: the last chunk may be shorter.\<close>

fun i2p_base64_encode :: "bytes \<Rightarrow> bytes" where
  "i2p_base64_encode [] = []"
| "i2p_base64_encode [a] = b64_chunk [a]"
| "i2p_base64_encode [a, b] = b64_chunk [a, b]"
| "i2p_base64_encode (a # b # c # data) = b64_chunk [a, b, c] @ i2p_base64_encode data"

definition i2p_base64_decode :: "bytes \<Rightarrow> bytes option" where
  "i2p_base64_decode s =
     (let symbols = filter (\<lambda>b. b \<noteq> 61) s in
      if length symbols mod 4 = 1 then None
      else Option.bind (decode_loop I2P_B64_ALPHABET 6 symbols 0 0 []) decode_end)"

subsection \<open>Destinations\<close>

definition CERT_OFFSET :: nat where "CERT_OFFSET = 384"
definition CERT_HEADER :: nat where "CERT_HEADER = 3"

definition to_b32 :: "bytes \<Rightarrow> bytes" where
  "to_b32 h = base32_encode h @ ascii ''.b32.i2p''"

definition from_b32 :: "rstr \<Rightarrow> bytes option" where
  "from_b32 text =
     (let label = (case strip_suffix (str ''.b32.i2p'') (trim text) of Some l \<Rightarrow> l | None \<Rightarrow> trim text) in
      Option.bind (base32_decode (str_bytes label)) (\<lambda>bytes. if length bytes = 32 then Some bytes else None))"

definition destination_len :: "bytes \<Rightarrow> nat option" where
  "destination_len blob =
     (let header_end = CERT_OFFSET + CERT_HEADER in
      if length blob < header_end then None
      else
        let payload = unat (blob ! (CERT_OFFSET + 1)) * 256 + unat (blob ! (CERT_OFFSET + 2)) in
        case checked_usize (header_end + payload) of
          None \<Rightarrow> None
        | Some total_len \<Rightarrow> if length blob \<ge> total_len then Some total_len else None)"

definition destination_bytes :: "rstr \<Rightarrow> bytes option" where
  "destination_bytes dest =
     (let body = takeWhile (\<lambda>c. c = 61 \<or> (of_nat c :: byte) \<in> set I2P_B64_ALPHABET) (trim dest) in
      Option.bind (i2p_base64_decode (str_bytes body)) (\<lambda>bytes.
      Option.bind (destination_len bytes) (\<lambda>len. Some (take len bytes))))"

definition from_b64_destination :: "(bytes \<Rightarrow> bytes) \<Rightarrow> rstr \<Rightarrow> bytes option" where
  "from_b64_destination sha256 dest = map_option sha256 (destination_bytes dest)"

subsection \<open>Bit lists\<close>

definition to_bits :: "nat \<Rightarrow> 'a::semiring_bit_operations \<Rightarrow> bool list" where
  "to_bits k v = map (\<lambda>i. bit v (k - 1 - i)) [0..<k]"

lemma length_to_bits [simp]: "length (to_bits k v) = k"
  by (simp add: to_bits_def)

lemma nth_to_bits [simp]: "i < k \<Longrightarrow> to_bits k v ! i = bit v (k - 1 - i)"
  by (simp add: to_bits_def)

lemma to_bits_0 [simp]: "to_bits 0 v = []"
  by (simp add: to_bits_def)

lemma to_bits_push:
  fixes b v :: "'a::len word"
  assumes "n + k \<le> LENGTH('a)" "\<And>i. k \<le> i \<Longrightarrow> \<not> bit v i"
  shows "to_bits (n + k) (push_bit k b OR v) = to_bits n b @ to_bits k v"
proof (rule nth_equalityI)
  fix i assume i: "i < length (to_bits (n + k) (push_bit k b OR v))"
  show "to_bits (n + k) (push_bit k b OR v) ! i = (to_bits n b @ to_bits k v) ! i"
  proof (cases "i < n")
    case True
    then have "k \<le> n + k - 1 - i" "n + k - 1 - i - k = n - 1 - i" "n + k - 1 - i < LENGTH('a)" using i assms(1) by auto
    then show ?thesis using True i assms(2) by (simp add: nth_append bit_or_iff bit_push_bit_iff)
  next
    case False
    then have "n + k - 1 - i = k - 1 - (i - n)" "n + k - 1 - i < k" using i by auto
    then show ?thesis using False i by (simp add: nth_append bit_or_iff bit_push_bit_iff)
  qed
qed simp

lemma to_bits_split:
  fixes b :: "'a::len word"
  assumes "j \<le> n"
  shows "to_bits n b = to_bits j (drop_bit (n - j) b) @ to_bits (n - j) b"
  using assms by (intro nth_equalityI) (auto simp: nth_append bit_drop_bit_eq algebra_simps)

lemma to_bits_and:
  fixes b :: "'a::len word"
  assumes "\<And>i. i < k \<Longrightarrow> bit m i"
  shows "to_bits k (b AND m) = to_bits k b"
  using assms by (intro nth_equalityI) (auto simp: bit_and_iff)

lemma to_bits_unat: "to_bits k (unat b) = to_bits k b" for b :: "'a::len word"
  by (simp add: to_bits_def bit_unsigned_iff)

lemma to_bits_ucast: "k \<le> LENGTH('b) \<Longrightarrow> to_bits k (ucast b :: 'b::len word) = to_bits k b" for b :: "'a::len word"
  by (intro nth_equalityI) (auto simp: bit_ucast_iff)

lemma to_bits_of_nat: "k \<le> LENGTH('a) \<Longrightarrow> to_bits k (of_nat v :: 'a::len word) = to_bits k v"
  by (intro nth_equalityI) (auto simp: bit_of_nat_iff)

lemma high_bits: "v < 2 ^ k \<Longrightarrow> k \<le> i \<Longrightarrow> \<not> bit v i" for v :: nat
proof -
  assume "v < 2 ^ k" "k \<le> i"
  then have "v < 2 ^ i" by (meson less_le_trans one_le_numeral power_increasing)
  then show ?thesis by (simp add: bit_iff_odd)
qed

lemma append_assoc_eq: "a = b @ c \<Longrightarrow> c @ d = e \<Longrightarrow> a @ d = b @ e"
  by auto

lemma to_bits_inj:
  fixes v w :: nat
  assumes "to_bits k v = to_bits k w" "v < 2 ^ k" "w < 2 ^ k"
  shows "v = w"
proof (rule bit_eqI)
  fix i
  show "bit v i = bit w i"
  proof (cases "i < k")
    case True
    then have "to_bits k v ! (k - 1 - i) = bit v i" "to_bits k w ! (k - 1 - i) = bit w i" by simp_all
    then show ?thesis using assms(1) by simp
  next
    case False
    then show ?thesis using assms(2,3) by (simp add: high_bits)
  qed
qed

lemma to_bits_byte_inj [simp]: "to_bits 8 v = to_bits 8 w \<longleftrightarrow> v = w" for v w :: byte
proof
  assume "to_bits 8 v = to_bits 8 w"
  then have "to_bits 8 (unat v) = to_bits 8 (unat w)" by (simp add: to_bits_unat)
  then have "unat v = unat w" using unsigned_less [of v] unsigned_less [of w] by (intro to_bits_inj [of 8]) simp_all
  then show "v = w" by (rule unsigned_word_eqI)
qed simp

lemma mask_bits: "bit (0x1F :: 32 word) i \<longleftrightarrow> i < 5" "bit (0x3F :: 32 word) i \<longleftrightarrow> i < 6" "bit (0xFF :: 32 word) i \<longleftrightarrow> i < 8"
proof -
  have m: "(0x1F :: 32 word) = mask 5" "(0x3F :: 32 word) = mask 6" "(0xFF :: 32 word) = mask 8" by (simp_all add: mask_eq_exp_minus_1)
  show "bit (0x1F :: 32 word) i \<longleftrightarrow> i < 5" "bit (0x3F :: 32 word) i \<longleftrightarrow> i < 6" "bit (0xFF :: 32 word) i \<longleftrightarrow> i < 8"
    unfolding m by (auto simp: bit_mask_iff)
qed

lemma symbol_bits:
  "to_bits 5 (unat (b AND 0x1F)) = to_bits 5 b" "to_bits 6 (unat (b AND 0x3F)) = to_bits 6 b"
  "to_bits 8 (ucast (b AND 0xFF) :: byte) = to_bits 8 b" "unat (b AND 0x1F) < 32" "unat (b AND 0x3F) < 64" for b :: "32 word"
proof -
  show "to_bits 5 (unat (b AND 0x1F)) = to_bits 5 b" "to_bits 6 (unat (b AND 0x3F)) = to_bits 6 b"
    unfolding to_bits_unat by (rule to_bits_and, erule mask_bits [THEN iffD2])+
  have "to_bits 8 (ucast (b AND 0xFF) :: byte) = to_bits 8 (b AND 0xFF)" by (rule to_bits_ucast) simp
  then show "to_bits 8 (ucast (b AND 0xFF) :: byte) = to_bits 8 b" by (simp add: to_bits_and [OF mask_bits(3) [THEN iffD2]])
  have "b AND 0x1F = b AND mask 5" "b AND 0x3F = b AND mask 6" by (simp_all add: mask_eq_exp_minus_1)
  then show "unat (b AND 0x1F) < 32" "unat (b AND 0x3F) < 64"
    by (simp_all add: take_bit_eq_mask [symmetric] unsigned_take_bit_eq) (auto intro: less_le_trans [OF take_bit_nat_less_exp])
qed

text \<open>The bits of a list of groups.\<close>

abbreviation bitstream :: "nat \<Rightarrow> 'a::semiring_bit_operations list \<Rightarrow> bool list" where
  "bitstream k vs \<equiv> concat (map (to_bits k) vs)"

lemma length_bitstream [simp]: "length (bitstream k vs) = k * length vs"
  by (induction vs) auto

lemma bitstream_bytes_unique:
  fixes ds es :: bytes
  assumes "bitstream 8 ds @ xs = bitstream 8 es @ ys" "length xs < 8" "length ys < 8"
  shows "ds = es \<and> xs = ys"
  using assms
proof (induction ds arbitrary: es)
  case Nil
  then show ?case by (cases es) (auto dest!: arg_cong [of _ _ length])
next
  case (Cons d ds)
  have "length (bitstream 8 (d # ds) @ xs) = length (bitstream 8 es @ ys)" using Cons.prems(1) by (rule arg_cong)
  then obtain e es' where es: "es = e # es'" using Cons.prems(3) by (cases es) auto
  then have "to_bits 8 d = to_bits 8 e" "bitstream 8 ds @ xs = bitstream 8 es' @ ys" using Cons.prems(1) by auto
  then show ?case using Cons.IH [of es'] Cons.prems(2,3) es by simp
qed

lemma bitstream_symbols_unique:
  fixes vs ws :: "nat list"
  assumes "bitstream k vs = bitstream k ws" "length vs = length ws" "\<forall>v \<in> set (vs @ ws). v < 2 ^ k"
  shows "vs = ws"
  using assms(2,1,3)
proof (induction vs ws rule: list_induct2)
  case (Cons v vs w ws)
  then have "to_bits k v = to_bits k w" "bitstream k vs = bitstream k ws" by auto
  then show ?case using Cons to_bits_inj [of k v w] by auto
qed simp

subsection \<open>The encoders and decoders as bit streams\<close>

lemma emit_symbols_spec:
  "emit_symbols buffer bits out = (bits', out') \<Longrightarrow>
   bits' < 5 \<and> (\<exists>vs. out' = out @ map ((!) B32_ALPHABET) vs \<and> (\<forall>v \<in> set vs. v < 32) \<and> to_bits bits buffer = bitstream 5 vs @ to_bits bits' buffer)"
proof (induction buffer bits out rule: emit_symbols.induct)
  case (1 buffer bits out)
  show ?case
  proof (cases "bits \<ge> 5")
    case True
    let ?v = "unat (drop_bit (bits - 5) buffer AND 0x1F)"
    have "emit_symbols buffer (bits - 5) (out @ [B32_ALPHABET ! ?v]) = (bits', out')"
      using "1.prems" True by (simp add: emit_symbols.simps [of _ bits])
    from "1.IH" [OF True this] obtain vs where vs: "bits' < 5" "out' = (out @ [B32_ALPHABET ! ?v]) @ map ((!) B32_ALPHABET) vs"
      "\<forall>v \<in> set vs. v < 32" "to_bits (bits - 5) buffer = bitstream 5 vs @ to_bits bits' buffer" by blast
    have "to_bits bits buffer = bitstream 5 (?v # vs) @ to_bits bits' buffer"
      using to_bits_split [OF True, of buffer] vs(4) symbol_bits(1) by simp
    then show ?thesis using vs symbol_bits(4) by (intro conjI exI [of _ "?v # vs"]) auto
  next
    case False
    then show ?thesis using "1.prems" by (intro conjI exI [of _ "[]"]) (auto simp: emit_symbols.simps [of _ bits])
  qed
qed

lemma encode_loop_spec:
  "encode_loop data buffer bits out = (buffer', bits', out') \<Longrightarrow> bits < 5 \<Longrightarrow>
   bits' < 5 \<and> (\<exists>vs. out' = out @ map ((!) B32_ALPHABET) vs \<and> (\<forall>v \<in> set vs. v < 32) \<and>
     to_bits bits buffer @ bitstream 8 data = bitstream 5 vs @ to_bits bits' buffer')"
proof (induction data arbitrary: buffer bits out)
  case Nil
  then show ?case by (intro conjI exI [of _ "[]"]) auto
next
  case (Cons b data)
  let ?b = "push_bit 8 buffer OR ucast b"
  obtain bits1 out1 where e: "emit_symbols ?b (bits + 8) out = (bits1, out1)" by fastforce
  from emit_symbols_spec [OF e] obtain vs where vs: "bits1 < 5" "out1 = out @ map ((!) B32_ALPHABET) vs" "\<forall>v \<in> set vs. v < 32"
    "to_bits (bits + 8) ?b = bitstream 5 vs @ to_bits bits1 ?b" by blast
  have "encode_loop data ?b bits1 out1 = (buffer', bits', out')" using Cons.prems(1) e by (simp add: Let_def)
  from Cons.IH [OF this vs(1)] obtain ws where ws: "bits' < 5" "out' = out1 @ map ((!) B32_ALPHABET) ws" "\<forall>v \<in> set ws. v < 32"
    "to_bits bits1 ?b @ bitstream 8 data = bitstream 5 ws @ to_bits bits' buffer'" by blast
  have "to_bits (bits + 8) ?b = to_bits bits buffer @ to_bits 8 (ucast b :: 32 word)"
    using Cons.prems(2) by (intro to_bits_push) (auto simp: bit_ucast_iff dest: bit_imp_le_length)
  then have "to_bits bits buffer @ bitstream 8 (b # data) = bitstream 5 (vs @ ws) @ to_bits bits' buffer'"
    using vs(4) ws(4) by (simp add: to_bits_ucast) (metis append.assoc)
  then show ?case using vs ws by (intro conjI exI [of _ "vs @ ws"]) auto
qed

lemma base32_encode_spec:
  "\<exists>vs z. base32_encode data = map ((!) B32_ALPHABET) vs \<and> (\<forall>v \<in> set vs. v < 32) \<and>
     bitstream 5 vs = bitstream 8 data @ replicate z False \<and> z < 5"
proof -
  obtain buffer bits out where e: "encode_loop data 0 0 [] = (buffer, bits, out)" by (metis prod.collapse)
  from encode_loop_spec [OF e] obtain vs where vs: "bits < 5" "out = map ((!) B32_ALPHABET) vs" "\<forall>v \<in> set vs. v < 32"
    "bitstream 8 data = bitstream 5 vs @ to_bits bits buffer" by auto
  show ?thesis
  proof (cases "bits = 0")
    case True
    then show ?thesis using e vs by (intro exI [of _ vs] exI [of _ 0]) (simp add: base32_encode_def)
  next
    case False
    let ?v = "unat (push_bit (5 - bits) buffer AND 0x1F)"
    have "to_bits (bits + (5 - bits)) (push_bit (5 - bits) buffer OR 0) = to_bits bits buffer @ to_bits (5 - bits) (0 :: 32 word)"
      using vs(1) by (intro to_bits_push) auto
    then have "to_bits 5 ?v = to_bits bits buffer @ to_bits (5 - bits) (0 :: 32 word)"
      using vs(1) by (simp add: symbol_bits(1))
    moreover have "to_bits n (0 :: 32 word) = replicate n False" for n by (intro nth_equalityI) auto
    ultimately have "bitstream 5 (vs @ [?v]) = bitstream 8 data @ replicate (5 - bits) False" using vs(4) by simp
    then show ?thesis using e vs False symbol_bits(4)
      by (intro exI [of _ "vs @ [?v]"] exI [of _ "5 - bits"]) (auto simp: base32_encode_def)
  qed
qed

text \<open>What a decoder reads, as symbol values and as bits.\<close>

fun symbol_values :: "bytes \<Rightarrow> bytes \<Rightarrow> nat list option" where
  "symbol_values alphabet [] = Some []"
| "symbol_values alphabet (c # cs) =
     (case position c alphabet of None \<Rightarrow> None | Some v \<Rightarrow> map_option (\<lambda>vs. v # vs) (symbol_values alphabet cs))"

lemma position_Some: "position c xs = Some i \<Longrightarrow> i < length xs \<and> xs ! i = c"
  by (induction xs arbitrary: i) (auto split: if_splits)

lemma position_nth: "distinct xs \<Longrightarrow> i < length xs \<Longrightarrow> position (xs ! i) xs = Some i"
  by (induction xs arbitrary: i) (auto simp: nth_Cons split: nat.splits)

lemma symbol_values_Some: "symbol_values alphabet s = Some vs \<Longrightarrow> s = map ((!) alphabet) vs \<and> (\<forall>v \<in> set vs. v < length alphabet)"
  by (induction s arbitrary: vs) (auto split: option.splits dest: position_Some)

lemma symbol_values_map: "distinct alphabet \<Longrightarrow> \<forall>v \<in> set vs. v < length alphabet \<Longrightarrow> symbol_values alphabet (map ((!) alphabet) vs) = Some vs"
  by (induction vs) (auto simp: position_nth)

lemma decode_loop_None: "symbol_values alphabet s = None \<Longrightarrow> decode_loop alphabet k s buffer bits out = None"
  by (induction s arbitrary: buffer bits out) (auto simp: Let_def split: option.splits)

lemma decode_loop_spec:
  assumes "symbol_values alphabet s = Some vs" "bits < 8" "0 < k" "k \<le> 8" "length alphabet = 2 ^ k"
  shows "\<exists>buffer' bits' new. decode_loop alphabet k s buffer bits out = Some (buffer', bits', out @ new) \<and> bits' < 8 \<and>
    to_bits bits buffer @ bitstream k vs = bitstream 8 new @ to_bits bits' buffer'"
  using assms(1,2)
proof (induction s arbitrary: vs buffer bits out)
  case Nil
  then show ?case by (intro exI [of _ buffer] exI [of _ bits] exI [of _ "[]"]) auto
next
  case (Cons c s)
  obtain v ws where v: "position c alphabet = Some v" "symbol_values alphabet s = Some ws" "vs = v # ws"
    using Cons.prems(1) by (auto split: option.splits)
  have lt: "v < 2 ^ k" using position_Some [OF v(1)] assms(5) by simp
  let ?b = "push_bit k buffer OR of_nat v"
  have "\<not> bit (of_nat v :: 32 word) i" if "k \<le> i" for i
    using high_bits [OF lt that] by (simp add: bit_of_nat_iff)
  then have push: "to_bits (bits + k) ?b = to_bits bits buffer @ to_bits k v"
    using Cons.prems(2) assms(4) to_bits_of_nat [of k v, where 'a = 32] by (subst to_bits_push) simp_all
  show ?case
  proof (cases "bits + k \<ge> 8")
    case True
    let ?o = "ucast (drop_bit (bits + k - 8) ?b AND 0xFF) :: byte"
    have "bits + k - 8 < 8" using Cons.prems(2) assms(4) by simp
    from Cons.IH [OF v(2) this, of ?b "out @ [?o]"] obtain buffer' bits' new where
      r: "decode_loop alphabet k s ?b (bits + k - 8) (out @ [?o]) = Some (buffer', bits', (out @ [?o]) @ new)" "bits' < 8"
        "to_bits (bits + k - 8) ?b @ bitstream k ws = bitstream 8 new @ to_bits bits' buffer'" by blast
    have "to_bits (bits + k) ?b = to_bits 8 ?o @ to_bits (bits + k - 8) ?b"
      using to_bits_split [OF True, of ?b] symbol_bits(3) by simp
    from append_assoc_eq [OF this r(3)]
    have "to_bits bits buffer @ bitstream k vs = bitstream 8 (?o # new) @ to_bits bits' buffer'"
      unfolding push v(3) by simp
    then show ?thesis using r v(1) True by (intro exI [of _ buffer'] exI [of _ bits'] exI [of _ "?o # new"]) (simp add: Let_def)
  next
    case False
    from Cons.IH [OF v(2), of "bits + k" ?b out] False obtain buffer' bits' new where
      r: "decode_loop alphabet k s ?b (bits + k) out = Some (buffer', bits', out @ new)" "bits' < 8"
        "to_bits (bits + k) ?b @ bitstream k ws = bitstream 8 new @ to_bits bits' buffer'" by auto
    then show ?thesis using push v False by (intro exI [of _ buffer'] exI [of _ bits'] exI [of _ new]) (simp add: Let_def)
  qed
qed

lemma decode_end_eq: "bits \<le> 32 \<Longrightarrow> decode_end (buffer, bits, out) = (if True \<in> set (to_bits bits buffer) then None else Some out)"
proof -
  assume le: "bits \<le> 32"
  have m: "push_bit bits 1 - 1 = (mask bits :: 32 word)" by (simp add: mask_eq_exp_minus_1 push_bit_eq_mult)
  have "buffer AND mask bits \<noteq> 0 \<longleftrightarrow> (\<exists>i < bits. bit buffer i)"
    using le by (auto simp: bit_eq_iff bit_and_iff bit_mask_iff intro: less_le_trans)
  also have "\<dots> \<longleftrightarrow> True \<in> set (to_bits bits buffer)"
  proof
    assume "\<exists>i < bits. bit buffer i"
    then obtain i where "i < bits" "bit buffer i" by blast
    then have "to_bits bits buffer ! (bits - 1 - i)" "bits - 1 - i < length (to_bits bits buffer)" by simp_all
    then show "True \<in> set (to_bits bits buffer)" by (metis nth_mem)
  next
    assume "True \<in> set (to_bits bits buffer)"
    then obtain i where "i < bits" "bit buffer (bits - Suc i)" by (auto simp: to_bits_def)
    then show "\<exists>i < bits. bit buffer i" by (intro exI [of _ "bits - Suc i"]) auto
  qed
  finally have "buffer AND (push_bit bits 1 - 1) \<noteq> 0 \<longleftrightarrow> True \<in> set (to_bits bits buffer)" unfolding m .
  then show ?thesis unfolding decode_end_def prod.case by (cases "bits = 0") (auto simp: to_bits_def)
qed

text \<open>A decoder accepts exactly the symbol strings whose bits are whole bytes followed by fewer than eight
  zeros.\<close>

lemma decode_iff:
  assumes "0 < k" "k \<le> 8" "length alphabet = 2 ^ k"
  shows "Option.bind (decode_loop alphabet k s 0 0 []) decode_end = Some data \<longleftrightarrow>
    (\<exists>vs z. symbol_values alphabet s = Some vs \<and> bitstream k vs = bitstream 8 data @ replicate z False \<and> z < 8)"
proof (cases "symbol_values alphabet s")
  case None
  then show ?thesis by (simp add: decode_loop_None)
next
  case (Some vs)
  from decode_loop_spec [OF Some _ assms, of 0 0 "[]"] obtain buffer bits new where
    r: "decode_loop alphabet k s 0 0 [] = Some (buffer, bits, new)" "bits < 8" "bitstream k vs = bitstream 8 new @ to_bits bits buffer"
    by auto
  have z: "True \<notin> set (to_bits bits buffer) \<longleftrightarrow> to_bits bits buffer = replicate bits False"
  proof
    assume "True \<notin> set (to_bits bits buffer)"
    then have "\<forall>b \<in> set (to_bits bits buffer). b = False" by auto
    from replicate_length_same [OF this] show "to_bits bits buffer = replicate bits False" by simp
  qed auto
  have "(\<exists>z. bitstream k vs = bitstream 8 data @ replicate z False \<and> z < 8) \<longleftrightarrow> new = data \<and> to_bits bits buffer = replicate bits False"
  proof
    assume "\<exists>z. bitstream k vs = bitstream 8 data @ replicate z False \<and> z < 8"
    then obtain z where z: "bitstream 8 new @ to_bits bits buffer = bitstream 8 data @ replicate z False" "z < 8" using r(3) by auto
    from bitstream_bytes_unique [OF this(1)] r(2) z(2) have "new = data" "to_bits bits buffer = replicate z False" by simp_all
    moreover from this have "bits = z" by (metis length_replicate length_to_bits)
    ultimately show "new = data \<and> to_bits bits buffer = replicate bits False" by simp
  qed (use r in auto)
  then show ?thesis using Some r(1,2) z decode_end_eq [of bits buffer new] by auto
qed

lemma B32_ALPHABET_ok: "length B32_ALPHABET = 2 ^ 5" "distinct B32_ALPHABET"
  by (code_simp, code_simp)

lemma I2P_B64_ALPHABET_ok: "length I2P_B64_ALPHABET = 2 ^ 6" "distinct I2P_B64_ALPHABET" "61 \<notin> set I2P_B64_ALPHABET"
  by (code_simp, code_simp, code_simp)

lemmas base32_decode_iff = decode_iff [of 5 B32_ALPHABET, OF _ _ B32_ALPHABET_ok(1), simplified, folded base32_decode_def]

lemma base32_encode_values:
  "\<exists>vs z. symbol_values B32_ALPHABET (base32_encode d) = Some vs \<and> length (base32_encode d) = length vs \<and>
     bitstream 5 vs = bitstream 8 d @ replicate z False \<and> z < 5"
proof -
  obtain vs z where vs: "base32_encode d = map ((!) B32_ALPHABET) vs" "\<forall>v \<in> set vs. v < 32"
    "bitstream 5 vs = bitstream 8 d @ replicate z False" "z < 5"
    using base32_encode_spec [of d] by blast
  then have "symbol_values B32_ALPHABET (base32_encode d) = Some vs"
    using symbol_values_map [OF B32_ALPHABET_ok(2), of vs] B32_ALPHABET_ok(1) by simp
  then show ?thesis using vs by (intro exI [of _ vs] exI [of _ z]) simp
qed

lemma base32_roundtrip: "base32_decode (base32_encode d) = Some d"
proof -
  obtain vs z where "symbol_values B32_ALPHABET (base32_encode d) = Some vs"
    "bitstream 5 vs = bitstream 8 d @ replicate z False" "z < 5"
    using base32_encode_values by blast
  then show ?thesis unfolding base32_decode_iff by (intro exI [of _ vs] exI [of _ z]) simp
qed

text \<open>Strings of the same symbols' bits are the same string.\<close>

lemma symbol_values_unique:
  assumes "symbol_values alphabet s = Some vs" "symbol_values alphabet t = Some ws" "length alphabet = 2 ^ k"
    "bitstream k vs = bs @ replicate y False" "bitstream k ws = bs @ replicate z False" "0 < k" "length s = length t"
  shows "s = t"
proof -
  have st: "s = map ((!) alphabet) vs" "t = map ((!) alphabet) ws" and b: "\<forall>v \<in> set (vs @ ws). v < 2 ^ k"
    using symbol_values_Some [OF assms(1)] symbol_values_Some [OF assms(2)] assms(3) by auto
  have l: "length vs = length ws" using st assms(7) by simp
  have "length (bitstream k vs) = length (bitstream k ws)" using l by simp
  then have "y = z" unfolding assms(4,5) by simp
  then have "bitstream k vs = bitstream k ws" using assms(4,5) by simp
  then show ?thesis using bitstream_symbols_unique [OF _ l b] st by simp
qed

lemma base32_canonical:
  assumes "base32_decode s = Some d" "length s = length (base32_encode d)"
  shows "s = base32_encode d"
proof -
  obtain vs z where v: "symbol_values B32_ALPHABET s = Some vs" "bitstream 5 vs = bitstream 8 d @ replicate z False"
    using assms(1) unfolding base32_decode_iff by blast
  obtain ws y where w: "symbol_values B32_ALPHABET (base32_encode d) = Some ws" "bitstream 5 ws = bitstream 8 d @ replicate y False"
    using base32_encode_values by blast
  show ?thesis by (rule symbol_values_unique [OF v(1) w(1) B32_ALPHABET_ok(1) v(2) w(2) _ assms(2)]) simp
qed

lemma base32_decode_length: "base32_decode s = Some d \<Longrightarrow> 8 * length d \<le> 5 * length s \<and> 5 * length s < 8 * length d + 8"
proof -
  assume "base32_decode s = Some d"
  then obtain vs z where v: "symbol_values B32_ALPHABET s = Some vs" "bitstream 5 vs = bitstream 8 d @ replicate z False" "z < 8"
    unfolding base32_decode_iff by blast
  then have "length (bitstream 5 vs) = length (bitstream 8 d @ replicate z False)" by (simp only:)
  moreover have "length vs = length s" using symbol_values_Some [OF v(1)] by simp
  ultimately show ?thesis using v(3) by simp
qed

subsection \<open>Base64 as a bit stream\<close>

lemma chunk_bits:
  fixes a b c :: byte
  defines "n \<equiv> push_bit 16 (ucast a) OR push_bit 8 (ucast b) OR ucast c :: 32 word"
  shows "bitstream 6 [unat (drop_bit 18 n AND 0x3F), unat (drop_bit 12 n AND 0x3F), unat (drop_bit 6 n AND 0x3F), unat (n AND 0x3F)] =
    bitstream 8 [a, b, c]"
proof -
  let ?h = "push_bit 8 (ucast a) OR ucast b :: 32 word"
  have hi: "\<not> bit (ucast x :: 32 word) i" if "8 \<le> i" for x :: byte and i
    using that by (auto simp: bit_ucast_iff dest: bit_imp_le_length)
  have n: "n = push_bit 8 ?h OR ucast c" by (simp add: n_def push_bit_or or.assoc)
  have "to_bits (16 + 8) n = to_bits 16 ?h @ to_bits 8 (ucast c :: 32 word)" unfolding n by (intro to_bits_push hi) simp_all
  moreover have "to_bits (8 + 8) ?h = to_bits 8 (ucast a :: 32 word) @ to_bits 8 (ucast b :: 32 word)" by (intro to_bits_push hi) simp_all
  ultimately have "to_bits 24 n = bitstream 8 [a, b, c]" by (simp add: to_bits_ucast)
  moreover have "to_bits 24 n = to_bits 6 (drop_bit 18 n) @ to_bits 6 (drop_bit 12 n) @ to_bits 6 (drop_bit 6 n) @ to_bits 6 n"
    using to_bits_split [of 6 24 n] to_bits_split [of 6 18 n] to_bits_split [of 6 12 n] by simp
  ultimately show ?thesis by (simp add: symbol_bits(2))
qed

lemma take_bitstream: "take (k * j) (bitstream k vs) = bitstream k (take j vs)"
  by (induction vs arbitrary: j) (simp_all add: take_Cons split: nat.split)

lemma b64_symbols_not_pad: "I2P_B64_ALPHABET ! unat (b AND 0x3F) \<noteq> 61" for b :: "32 word"
proof -
  have "unat (b AND 0x3F) < length I2P_B64_ALPHABET" using symbol_bits(5) [of b] I2P_B64_ALPHABET_ok(1) by simp
  then show ?thesis using I2P_B64_ALPHABET_ok(3) nth_mem by metis
qed

lemma bitstream_byte_0: "to_bits 8 (0 :: byte) = replicate 8 False"
  by (intro nth_equalityI) auto

lemma replicate_2: "replicate 2 x = [x, x]"
  by (simp add: numeral_2_eq_2)

lemma ball_takeI: "(\<And>v. v \<in> set xs \<Longrightarrow> P v) \<Longrightarrow> \<forall>v \<in> set (take n xs). P v"
  by (auto dest: in_set_takeD)

lemma ball_conjunct: "\<forall>v \<in> S. P v \<and> Q v \<Longrightarrow> \<forall>v \<in> S. P v"
  by blast

lemma filter_map_keep: "\<forall>v \<in> set vs. P v \<and> Q (f v) \<Longrightarrow> filter Q (map f vs) = map f vs"
  by (auto intro: filter_True)

lemma b64_chunk_values:
  assumes "0 < length chunk" "length chunk \<le> 3"
  shows "\<exists>vs. filter (\<lambda>b. b \<noteq> 61) (b64_chunk chunk) = map ((!) I2P_B64_ALPHABET) vs \<and> (\<forall>v \<in> set vs. v < 64) \<and>
    length vs = length chunk + 1 \<and> bitstream 6 vs = bitstream 8 chunk @ replicate (6 - 2 * length chunk) False"
proof -
  let ?g = "\<lambda>i. if i < length chunk then chunk ! i else 0"
  consider (one) a where "chunk = [a]" | (two) a b where "chunk = [a, b]" | (three) a b c where "chunk = [a, b, c]"
    using assms by (cases chunk; cases "tl chunk"; cases "tl (tl chunk)") auto
  note shape = this
  define n where "n = (push_bit 16 (ucast (chunk ! 0)) OR push_bit 8 (ucast (?g 1)) OR ucast (?g 2) :: 32 word)"
  let ?all = "[unat (drop_bit 18 n AND 0x3F), unat (drop_bit 12 n AND 0x3F), unat (drop_bit 6 n AND 0x3F), unat (n AND 0x3F)]"
  let ?vs = "take (length chunk + 1) ?all"
  have eq: "push_bit 16 (ucast (chunk ! 0)) OR push_bit 8 (if 1 < length chunk then ucast (chunk ! 1) else 0) OR
      (if 2 < length chunk then ucast (chunk ! 2) else 0) = n" by (simp add: n_def)
  have f: "b64_chunk chunk = map ((!) I2P_B64_ALPHABET) ?vs @ replicate (3 - length chunk) 61"
    unfolding b64_chunk_def Let_def eq by (cases rule: shape) (simp_all add: replicate_2)
  have "v < 64 \<and> I2P_B64_ALPHABET ! v \<noteq> 61" if "v \<in> set ?all" for v
    using that symbol_bits(5) b64_symbols_not_pad by auto
  then have vs: "\<forall>v \<in> set ?vs. v < 64 \<and> I2P_B64_ALPHABET ! v \<noteq> 61" by (rule ball_takeI)
  then have "filter (\<lambda>b. b \<noteq> 61) (map ((!) I2P_B64_ALPHABET) ?vs) = map ((!) I2P_B64_ALPHABET) ?vs"
    by (rule filter_map_keep)
  then have "filter (\<lambda>b. b \<noteq> 61) (b64_chunk chunk) = map ((!) I2P_B64_ALPHABET) ?vs"
    unfolding f filter_append filter_replicate by (simp only: simp_thms if_False append_Nil2)
  moreover have "bitstream 6 ?vs = bitstream 8 chunk @ replicate (6 - 2 * length chunk) False"
  proof -
    have "bitstream 6 ?vs = take (6 * (length chunk + 1)) (bitstream 8 [chunk ! 0, ?g 1, ?g 2])"
      unfolding chunk_bits [symmetric] n_def [symmetric] take_bitstream ..
    also have "\<dots> = bitstream 8 chunk @ replicate (6 - 2 * length chunk) False"
      by (cases rule: shape) (simp_all add: bitstream_byte_0)
    finally show ?thesis .
  qed
  moreover have "length ?vs = length chunk + 1" using assms by simp
  moreover have "\<forall>v \<in> set ?vs. v < 64" using vs by (rule ball_conjunct)
  ultimately show ?thesis by (intro exI [of _ ?vs] conjI)
qed

lemma base64_encode_values:
  "\<exists>vs z. filter (\<lambda>b. b \<noteq> 61) (i2p_base64_encode d) = map ((!) I2P_B64_ALPHABET) vs \<and> (\<forall>v \<in> set vs. v < 64) \<and>
     bitstream 6 vs = bitstream 8 d @ replicate z False \<and> z < 6 \<and> length vs mod 4 \<noteq> 1"
proof (induction d rule: i2p_base64_encode.induct)
  case 1
  show ?case by (intro exI [of _ "[]"] exI [of _ 0]) simp
next
  case (2 a)
  from b64_chunk_values [of "[a]"] show ?case by (auto intro!: exI [of _ 4])
next
  case (3 a b)
  from b64_chunk_values [of "[a, b]"] show ?case by (auto intro!: exI [of _ 2])
next
  case (4 a b c data)
  then obtain vs z where vs: "filter (\<lambda>b. b \<noteq> 61) (i2p_base64_encode data) = map ((!) I2P_B64_ALPHABET) vs" "\<forall>v \<in> set vs. v < 64"
    "bitstream 6 vs = bitstream 8 data @ replicate z False" "z < 6" "length vs mod 4 \<noteq> 1" by blast
  from b64_chunk_values [of "[a, b, c]"] obtain ws where
    ws: "filter (\<lambda>b. b \<noteq> 61) (b64_chunk [a, b, c]) = map ((!) I2P_B64_ALPHABET) ws" "\<forall>v \<in> set ws. v < 64" "length ws = 4"
      "bitstream 6 ws = bitstream 8 [a, b, c]" by auto
  have "bitstream 6 (ws @ vs) = bitstream 8 (a # b # c # data) @ replicate z False" using ws(4) vs(3) by simp
  then show ?case using vs ws by (intro exI [of _ "ws @ vs"] exI [of _ z]) auto
qed

lemmas base64_loop_iff = decode_iff [of 6 I2P_B64_ALPHABET, OF _ _ I2P_B64_ALPHABET_ok(1), simplified]

lemma base64_roundtrip: "i2p_base64_decode (i2p_base64_encode d) = Some d"
proof -
  let ?s = "filter (\<lambda>b. b \<noteq> 61) (i2p_base64_encode d)"
  obtain vs z where vs: "?s = map ((!) I2P_B64_ALPHABET) vs" "\<forall>v \<in> set vs. v < 64"
    "bitstream 6 vs = bitstream 8 d @ replicate z False" "z < 6" "length vs mod 4 \<noteq> 1"
    using base64_encode_values [of d] by blast
  have "symbol_values I2P_B64_ALPHABET ?s = Some vs"
    unfolding vs(1) using vs(2) I2P_B64_ALPHABET_ok(1,2) by (intro symbol_values_map) simp_all
  then have "Option.bind (decode_loop I2P_B64_ALPHABET 6 ?s 0 0 []) decode_end = Some d"
    unfolding base64_loop_iff using vs(3,4) by (intro exI [of _ vs] exI [of _ z]) simp
  moreover have "length ?s mod 4 \<noteq> 1" unfolding vs(1) using vs(5) by simp
  ultimately show ?thesis by (simp add: i2p_base64_decode_def)
qed

lemma base64_canonical:
  assumes "i2p_base64_decode s = Some d"
  shows "filter (\<lambda>b. b \<noteq> 61) s = filter (\<lambda>b. b \<noteq> 61) (i2p_base64_encode d)"
proof -
  let ?s = "filter (\<lambda>b. b \<noteq> 61) s" and ?e = "filter (\<lambda>b. b \<noteq> 61) (i2p_base64_encode d)"
  have m: "length ?s mod 4 \<noteq> 1" using assms by (auto simp: i2p_base64_decode_def split: if_splits)
  then have "Option.bind (decode_loop I2P_B64_ALPHABET 6 ?s 0 0 []) decode_end = Some d"
    using assms by (simp add: i2p_base64_decode_def)
  then obtain vs y where v: "symbol_values I2P_B64_ALPHABET ?s = Some vs" "bitstream 6 vs = bitstream 8 d @ replicate y False" "y < 8"
    unfolding base64_loop_iff by blast
  obtain ws z where ws: "?e = map ((!) I2P_B64_ALPHABET) ws" "\<forall>v \<in> set ws. v < 64"
    "bitstream 6 ws = bitstream 8 d @ replicate z False" "z < 6" "length ws mod 4 \<noteq> 1"
    using base64_encode_values [of d] by blast
  have e: "symbol_values I2P_B64_ALPHABET ?e = Some ws"
    unfolding ws(1) using ws(2) I2P_B64_ALPHABET_ok(1,2) by (intro symbol_values_map) simp_all
  have "length (bitstream 6 vs) = 8 * length d + y" "length (bitstream 6 ws) = 8 * length d + z" unfolding v(2) ws(3) by simp_all
  then have l: "6 * length vs = 8 * length d + y" "6 * length ws = 8 * length d + z" by simp_all
  have lv: "length ?s = length vs" "length ?e = length ws" using symbol_values_Some [OF v(1)] ws(1) by (metis length_map)+
  have "length vs = length ws"
  proof (rule ccontr)
    assume ne: "length vs \<noteq> length ws"
    then have s: "length vs = length ws + 1" using l v(3) ws(4) by linarith
    then have "z \<le> 1" using l v(3) by linarith
    moreover have "even z" using l(2) by presburger
    ultimately have "z = 0" by presburger
    then have "3 * length ws = 4 * length d" using l(2) by simp
    then have "length ws mod 4 = 0" by presburger
    then have "length vs mod 4 = 1" unfolding s by presburger
    then show False using m lv(1) by simp
  qed
  then show ?thesis using lv by (intro symbol_values_unique [OF v(1) e I2P_B64_ALPHABET_ok(1) v(2) ws(3)]) simp_all
qed

subsection \<open>Names and identities\<close>

lemma B32_ALPHABET_ascii: "b \<in> set B32_ALPHABET \<Longrightarrow> b < 0x80 \<and> b \<noteq> 0x2E"
proof -
  have "\<forall>b \<in> set B32_ALPHABET. b < 0x80 \<and> b \<noteq> 0x2E" by code_simp
  then show "b \<in> set B32_ALPHABET \<Longrightarrow> b < 0x80 \<and> b \<noteq> 0x2E" by blast
qed

lemma I2P_B64_ALPHABET_ascii: "b \<in> set I2P_B64_ALPHABET \<Longrightarrow> b < 0x80 \<and> \<not> is_whitespace (unat b)"
proof -
  have "\<forall>b \<in> set I2P_B64_ALPHABET. b < 0x80 \<and> \<not> is_whitespace (unat b)" by code_simp
  then show "b \<in> set I2P_B64_ALPHABET \<Longrightarrow> b < 0x80 \<and> \<not> is_whitespace (unat b)" by blast
qed

lemma symbol_values_set: "symbol_values alphabet s = Some vs \<Longrightarrow> set s \<subseteq> set alphabet"
  using symbol_values_Some by fastforce

lemma base32_decode_set: "base32_decode s = Some d \<Longrightarrow> set s \<subseteq> set B32_ALPHABET"
  unfolding base32_decode_iff using symbol_values_set by blast

lemma base32_encode_set: "set (base32_encode d) \<subseteq> set B32_ALPHABET"
  using base32_decode_set base32_roundtrip by blast

lemma length_base32_encode: "length (base32_encode d) = (8 * length d + 4) div 5"
proof -
  obtain vs :: "nat list" and z where "length (base32_encode d) = length vs" "bitstream 5 vs = bitstream 8 d @ replicate z False" "z < 5"
    using base32_encode_values by blast
  moreover from this have "5 * length vs = 8 * length d + z" by (metis length_append length_bitstream length_replicate)
  ultimately show ?thesis by simp
qed

lemma base32_decode_32: "base32_decode s = Some h \<and> length h = 32 \<longleftrightarrow> length h = 32 \<and> s = base32_encode h"
proof
  assume a: "base32_decode s = Some h \<and> length h = 32"
  then have "length s = 52" using base32_decode_length [of s h] by simp
  then show "length h = 32 \<and> s = base32_encode h" using a base32_canonical [of s h] by (simp add: length_base32_encode)
qed (simp add: base32_roundtrip)

lemma from_b32_label: "Option.bind (base32_decode (str_bytes l)) (\<lambda>bytes. if length bytes = 32 then Some bytes else None) = Some h \<longleftrightarrow>
    length h = 32 \<and> l = chars (base32_encode h)"
proof
  assume "Option.bind (base32_decode (str_bytes l)) (\<lambda>bytes. if length bytes = 32 then Some bytes else None) = Some h"
  then have d: "base32_decode (str_bytes l) = Some h" "length h = 32" by (auto simp: bind_eq_Some_conv split: if_splits)
  then have "\<forall>b \<in> set (str_bytes l). b < 0x80" using base32_decode_set B32_ALPHABET_ascii by blast
  from ascii_text [OF this] show "length h = 32 \<and> l = chars (base32_encode h)" using d base32_decode_32 by metis
next
  assume a: "length h = 32 \<and> l = chars (base32_encode h)"
  have "\<forall>b \<in> set (base32_encode h). b < 0x80" using base32_encode_set B32_ALPHABET_ascii by blast
  then have "str_bytes l = base32_encode h" using a str_bytes_chars by simp
  then show "Option.bind (base32_decode (str_bytes l)) (\<lambda>bytes. if length bytes = 32 then Some bytes else None) = Some h"
    using a by (simp add: base32_roundtrip)
qed

text \<open>A peer has one name. A text is accepted as an address exactly when, surrounding white space apart, it
  is the 52-character label the encoder writes for a 32-byte hash, alone or followed by \<^verbatim>\<open>.b32.i2p\<close>,
  and then that hash is the result: parsing is the inverse of \<^verbatim>\<open>to_b32\<close>, and no two labels
  name the same peer.\<close>

theorem b32_name_exact:
  "from_b32 text = Some h \<longleftrightarrow> length h = 32 \<and> (trim text = chars (base32_encode h) \<or> trim text = chars (to_b32 h))"
proof (cases "strip_suffix (str ''.b32.i2p'') (trim text)")
  case None
  then have "trim text \<noteq> l @ str ''.b32.i2p''" for l by (simp flip: strip_suffix_Some)
  then show ?thesis using None by (simp add: from_b32_def from_b32_label to_b32_def str_chars_ascii)
next
  case (Some l)
  then have t: "trim text = l @ str ''.b32.i2p''" by (simp add: strip_suffix_Some)
  have "0x2E \<in> set (trim text)" unfolding t by (simp add: str_def)
  moreover have "0x2E \<notin> set (chars (base32_encode h))"
  proof
    assume "0x2E \<in> set (chars (base32_encode h))"
    then obtain b where b: "b \<in> set (base32_encode h)" "unat b = 0x2E" by (auto simp: chars_def)
    from b(2) have "unat b = unat (0x2E :: byte)" by simp
    then have "b = 0x2E" by (rule unsigned_word_eqI)
    then show False using b(1) base32_encode_set B32_ALPHABET_ascii by blast
  qed
  ultimately have "trim text \<noteq> chars (base32_encode h)" by auto
  then show ?thesis using Some t by (simp add: from_b32_def from_b32_label to_b32_def str_chars_ascii)
qed

lemma destination_len_bounds:
  "destination_len b = Some n \<Longrightarrow> 387 \<le> n \<and> n \<le> length b \<and> n \<le> 65922"
proof -
  assume "destination_len b = Some n"
  moreover have "unat (x :: byte) * 256 + unat y \<le> 65535" for x y :: byte
    using unat_byte_less [of x] unat_byte_less [of y] by simp
  ultimately show ?thesis
    by (auto simp: destination_len_def CERT_OFFSET_def CERT_HEADER_def checked_usize_def Let_def split: if_splits)
qed

lemma destination_len_take:
  assumes "destination_len b = Some n" "n \<le> m"
  shows "destination_len (take m b @ extra) = Some n"
proof -
  from destination_len_bounds [OF assms(1)] have n: "387 \<le> n" "n \<le> length b" by simp_all
  have "(take m b @ extra) ! i = b ! i" if "i < 387" for i using n assms(2) that by (simp add: nth_append)
  then show ?thesis using assms n
    by (auto simp: destination_len_def CERT_OFFSET_def CERT_HEADER_def Let_def split: if_splits option.splits)
qed

definition b64_char :: "rchar \<Rightarrow> bool" where
  "b64_char c \<longleftrightarrow> c = 61 \<or> (of_nat c :: byte) \<in> set I2P_B64_ALPHABET"

lemma base64_encode_set: "set (i2p_base64_encode d) \<subseteq> insert 61 (set I2P_B64_ALPHABET)"
proof -
  obtain vs where vs: "filter (\<lambda>b. b \<noteq> 61) (i2p_base64_encode d) = map ((!) I2P_B64_ALPHABET) vs" "\<forall>v \<in> set vs. v < 64"
    using base64_encode_values [of d] by blast
  have "set (filter (\<lambda>b. b \<noteq> 61) (i2p_base64_encode d)) \<subseteq> set I2P_B64_ALPHABET"
    unfolding vs(1) using vs(2) I2P_B64_ALPHABET_ok(1) by auto
  then show ?thesis by auto
qed

lemma base64_encode_Nil: "i2p_base64_encode d = [] \<longleftrightarrow> d = []"
  by (cases d rule: i2p_base64_encode.cases) (simp_all add: b64_chunk_def Let_def)

lemma base64_text:
  assumes "c \<in> set (chars (i2p_base64_encode d))"
  shows "b64_char c" "\<not> is_whitespace c"
proof -
  obtain b where b: "c = unat b" "b \<in> insert 61 (set I2P_B64_ALPHABET)" using assms base64_encode_set by (auto simp: chars_def)
  then show "b64_char c" by (auto simp: b64_char_def)
  show "\<not> is_whitespace c" using b I2P_B64_ALPHABET_ascii by (auto simp: is_whitespace_def)
qed

lemma base64_encode_ascii: "\<forall>b \<in> set (i2p_base64_encode d). b < 0x80"
  using base64_encode_set I2P_B64_ALPHABET_ascii by fastforce

lemma destination_bytes_encode:
  assumes "destination_len dest = Some (length dest)" "rest = [] \<or> \<not> b64_char (hd rest)"
  shows "destination_bytes (chars (i2p_base64_encode (dest @ keys)) @ rest) = Some dest"
proof -
  let ?e = "chars (i2p_base64_encode (dest @ keys))" and ?r = "rev (dropWhile is_whitespace (rev rest))"
  have "dest \<noteq> []" using destination_len_bounds [OF assms(1)] by auto
  then have "?e \<noteq> []" by (simp add: chars_def base64_encode_Nil)
  then have t: "trim (?e @ rest) = ?e @ ?r" using base64_text(2) by (intro trim_append) blast+
  have "?r = [] \<or> \<not> b64_char (hd ?r)"
  proof (cases "?r = []")
    case False
    obtain u where "rest = ?r @ u" by (metis rev_append rev_rev_ident takeWhile_dropWhile_id)
    then have "hd ?r = hd rest" "rest \<noteq> []" using False by (metis hd_append2, auto)
    then show ?thesis using assms(2) by simp
  qed simp
  then have "takeWhile b64_char (?e @ ?r) = ?e"
    using base64_text(1) by (simp add: takeWhile_append2 takeWhile_eq_Nil_iff)
  moreover have "takeWhile (\<lambda>c. c = 61 \<or> (of_nat c :: byte) \<in> set I2P_B64_ALPHABET) s = takeWhile b64_char s" for s
    by (simp add: b64_char_def [abs_def])
  ultimately show ?thesis
    using destination_len_take [OF assms(1), of "length dest" keys]
    by (simp add: destination_bytes_def t str_bytes_chars [OF base64_encode_ascii] base64_roundtrip)
qed

text \<open>The identity of a destination is its public part's alone: whatever follows it in the blob the router
  hands over (its private keys), and whatever text follows the base64 (a name or white space), the
  hash is that of the public destination. What is read as a destination is always a whole one, its length given by its own
  certificate.\<close>

theorem destination_identity:
  assumes "destination_len dest = Some (length dest)" "rest = [] \<or> \<not> b64_char (hd rest)" "destination_bytes text = Some d"
  shows "from_b64_destination sha256 (chars (i2p_base64_encode (dest @ keys)) @ rest) = Some (sha256 dest) \<and>
    destination_len d = Some (length d) \<and> 387 \<le> length d \<and> length d \<le> 65922"
proof -
  obtain b n where b: "destination_len b = Some n" "d = take n b"
    using assms(3) by (auto simp: destination_bytes_def bind_eq_Some_conv Let_def)
  then show ?thesis using destination_len_bounds [OF b(1)] destination_len_take [OF b(1), of n "[]"]
      destination_bytes_encode [OF assms(1,2), of keys]
    by (simp add: from_b64_destination_def)
qed

lemma sample_destination: "destination_len (replicate 387 0) = Some (length (replicate 387 (0 :: byte)))"
  by (simp add: destination_len_def CERT_OFFSET_def CERT_HEADER_def checked_usize_def usize_max_def)

theorem destination_identity_witness:
  "\<exists>d. destination_bytes (chars (i2p_base64_encode (replicate 387 0 @ [7]))) = Some d \<and>
     from_b64_destination rev (chars (i2p_base64_encode (replicate 387 0 @ [1, 2])) @ str ''.i2p'') = Some (replicate 387 0) \<and> 387 \<le> length d"
proof -
  have dot: "str ''.i2p'' = [] \<or> \<not> b64_char (hd (str ''.i2p''))" by code_simp
  have d: "destination_bytes (chars (i2p_base64_encode (replicate 387 0 @ [7]))) = Some (replicate 387 0)"
    using destination_bytes_encode [OF sample_destination, of "[]" "[7]"] by simp
  from destination_identity [OF sample_destination dot d, of rev "[1, 2]"] show ?thesis using d by simp
qed

end
