(* ===== verification/Http.thy ===== *)
theory Http
  imports Text
begin

text \<open>
  The hand-rolled HTTP/1.1 of \<^verbatim>\<open>crates/clove-core/src/http.rs\<close>: requests and responses, both ends, and
  percent coding. A reader is what the stream still delivers: its bytes, the sizes in which
  they arrive (a read may be short), and how it ends, at end of file or with an error. Strings are lists of
  characters; lengths are naturals, and \<^verbatim>\<open>usize\<close> parsing overflows as in the source.
\<close>

unbundle bit_operations_syntax

subsection \<open>Readers\<close>

datatype io_kind = EofKind | TimedOutKind | OtherKind nat

record reader =
  rd_bytes :: bytes
  rd_sizes :: "nat list"
  rd_end :: "io_kind option"

text \<open>\<^verbatim>\<open>Read::read\<close> into a buffer of \<open>cap\<close> bytes: some of what is left, at least one byte of it; nothing means end of file.\<close>

definition read_some :: "nat \<Rightarrow> reader \<Rightarrow> io_kind + bytes \<times> reader" where
  "read_some cap rd =
     (if rd_bytes rd = [] \<and> rd_end rd \<noteq> None then Inl (the (rd_end rd))
      else
        let n = (case rd_sizes rd of [] \<Rightarrow> cap | k # _ \<Rightarrow> min cap (max 1 k)) in
        Inr (take n (rd_bytes rd), rd\<lparr>rd_bytes := drop n (rd_bytes rd), rd_sizes := tl (rd_sizes rd)\<rparr>))"

text \<open>\<^verbatim>\<open>Read::read_exact\<close>: reads until the buffer is full.\<close>

function (sequential) read_full :: "nat \<Rightarrow> reader \<Rightarrow> io_kind + bytes \<times> reader" where
  "read_full 0 rd = Inr ([], rd)"
| "read_full (Suc n) rd =
     (case read_some (Suc n) rd of
        Inl e \<Rightarrow> Inl e
      | Inr ([], rd') \<Rightarrow> Inl EofKind
      | Inr (bs, rd') \<Rightarrow>
          (case read_full (Suc n - length bs) rd' of
             Inl e \<Rightarrow> Inl e
           | Inr (rest, rd'') \<Rightarrow> Inr (bs @ rest, rd'')))"
  by pat_completeness auto
termination
  by (relation "measure fst") auto

subsection \<open>Messages\<close>

definition MAX_HEADER_BYTES :: nat where "MAX_HEADER_BYTES = 16 * 1024"

record http_request =
  rq_method :: rstr
  rq_target :: rstr
  rq_host :: rstr
  rq_headers :: "(rstr \<times> rstr) list"
  rq_body :: bytes

record http_response =
  rs_status :: nat
  rs_headers :: "(rstr \<times> rstr) list"
  rs_body :: bytes

record server_request =
  sr_method :: rstr
  sr_target :: rstr
  sr_headers :: "(rstr \<times> rstr) list"
  sr_body :: bytes

datatype http_error = HttpIo io_kind | BadResponse string | BadRequest string | BodyTooLarge

definition crlf :: rstr where "crlf = [13, 10]"

definition clean :: "rstr \<Rightarrow> bool" where
  "clean s \<longleftrightarrow> \<not> list_ex (\<lambda>b. b = 13 \<or> b = 10 \<or> b = 0) (str_bytes s)"

definition header_line :: "rstr \<times> rstr \<Rightarrow> rstr" where
  "header_line h = fst h @ str '': '' @ snd h @ crlf"

definition rq_encode :: "http_request \<Rightarrow> bytes option" where
  "rq_encode r =
     (if \<not> clean (rq_method r) \<or> \<not> clean (rq_target r) \<or> \<not> clean (rq_host r) then None
      else if list_ex (\<lambda>(name, val). \<not> clean name \<or> \<not> clean val) (rq_headers r) then None
      else Some (str_bytes (rq_method r @ str '' '' @ rq_target r @ str '' HTTP/1.1'' @ crlf @
        str ''Host: '' @ rq_host r @ crlf @ concat (map header_line (rq_headers r)) @
        (if \<not> (rq_method r = str ''GET'' \<and> rq_body r = [])
         then str ''Content-Length: '' @ chars (dec_digits (length (rq_body r))) @ crlf else []) @
        str ''Connection: close'' @ crlf @ crlf) @ rq_body r))"

definition lower_char :: "rchar \<Rightarrow> rchar" where
  "lower_char c = (if 65 \<le> c \<and> c \<le> 90 then c + 32 else c)"

definition to_lower :: "rstr \<Rightarrow> rstr" where
  "to_lower s = map lower_char s"

text \<open>\<^verbatim>\<open>Response::header\<close> and \<^verbatim>\<open>ServerRequest::header\<close>.\<close>

definition header :: "(rstr \<times> rstr) list \<Rightarrow> rstr \<Rightarrow> rstr option" where
  "header headers name = map_option snd (find (\<lambda>(n, _). n = to_lower name) headers)"

definition rs_new :: "nat \<Rightarrow> rstr \<Rightarrow> bytes \<Rightarrow> http_response" where
  "rs_new status content_type body =
     \<lparr>rs_status = status, rs_headers = [(str ''content-type'', content_type)], rs_body = body\<rparr>"

definition reason :: "nat \<Rightarrow> string" where
  "reason status =
     (if status = 200 then ''OK'' else if status = 201 then ''Created'' else if status = 204 then ''No Content''
      else if status = 400 then ''Bad Request'' else if status = 401 then ''Unauthorized'' else if status = 403 then ''Forbidden''
      else if status = 404 then ''Not Found'' else if status = 405 then ''Method Not Allowed'' else if status = 409 then ''Conflict''
      else if status = 500 then ''Internal Server Error'' else [])"

definition rs_encode :: "http_response \<Rightarrow> bytes" where
  "rs_encode r =
     str_bytes (str ''HTTP/1.1 '' @ chars (dec_digits (rs_status r)) @ str '' '' @ str (reason (rs_status r)) @ crlf @
       concat (map header_line (rs_headers r)) @
       (if list_ex (\<lambda>(name, _). to_lower name = str ''content-length'') (rs_headers r) then []
        else str ''Content-Length: '' @ chars (dec_digits (length (rs_body r))) @ crlf) @
       str ''Connection: close'' @ crlf @ crlf) @ rs_body r"

subsection \<open>Lines and numbers\<close>

function read_head_loop :: "bytes \<Rightarrow> reader \<Rightarrow> http_error + bytes \<times> reader" where
  "read_head_loop buf rd =
     (if length buf > MAX_HEADER_BYTES then Inl (BadResponse ''header section too large'')
      else
        case read_some 1 rd of
          Inl e \<Rightarrow> Inl (HttpIo e)
        | Inr (n, rd') \<Rightarrow>
            if n = [] then Inl (BadResponse ''connection closed before end of head'')
            else
              let buf = buf @ n in
              case strip_suffix [13, 10, 13, 10] buf of
                Some head \<Rightarrow> Inr (head, rd')
              | None \<Rightarrow> read_head_loop buf rd')"
  by pat_completeness auto

lemma read_some_shrinks: "read_some cap rd = Inr (bs, rd') \<Longrightarrow> rd_bytes rd = bs @ rd_bytes rd' \<and> rd_end rd' = rd_end rd"
  by (auto simp: read_some_def Let_def split: if_splits)

termination read_head_loop
proof (relation "measure (\<lambda>(buf, rd). length (rd_bytes rd))", goal_cases)
  case (2 buf rd p n rd' buf')
  then have "rd_bytes rd = n @ rd_bytes rd'" using read_some_shrinks [of 1 rd n rd'] by metis
  then show ?case using 2 by (cases n) auto
qed simp

declare read_head_loop.simps [simp del]

definition read_head :: "reader \<Rightarrow> http_error + bytes \<times> reader" where
  "read_head rd = read_head_loop [] rd"

definition MAX_CHUNK_LINE :: nat where "MAX_CHUNK_LINE = 1024"
definition MAX_TRAILER_BYTES :: nat where "MAX_TRAILER_BYTES = 8 * 1024"

function read_line_loop :: "bytes \<Rightarrow> nat \<Rightarrow> reader \<Rightarrow> http_error + bytes \<times> reader" where
  "read_line_loop line cap rd =
     (if length line > cap then Inl (BadResponse ''line too long'')
      else
        case read_some 1 rd of
          Inl e \<Rightarrow> Inl (HttpIo e)
        | Inr (n, rd') \<Rightarrow>
            if n = [] then Inl (BadResponse ''connection closed mid-line'')
            else
              let line = line @ n in
              case strip_suffix [13, 10] line of
                Some l \<Rightarrow> Inr (l, rd')
              | None \<Rightarrow> read_line_loop line cap rd')"
  by pat_completeness auto

termination read_line_loop
proof (relation "measure (\<lambda>(line, cap, rd). length (rd_bytes rd))", goal_cases)
  case (2 line cap rd p n rd' line')
  then have "rd_bytes rd = n @ rd_bytes rd'" using read_some_shrinks [of 1 rd n rd'] by metis
  then show ?case using 2 by (cases n) auto
qed simp

declare read_line_loop.simps [simp del]

definition read_line :: "reader \<Rightarrow> nat \<Rightarrow> http_error + bytes \<times> reader" where
  "read_line rd cap = read_line_loop [] cap rd"

lemma read_line_loop_consumes:
  "read_line_loop line cap rd = Inr (l, rd') \<Longrightarrow> line @ rd_bytes rd = l @ [13, 10] @ rd_bytes rd' \<and> rd_end rd' = rd_end rd"
proof (induction line cap rd rule: read_line_loop.induct)
  case (1 line cap rd)
  obtain n rd1 where n: "read_some 1 rd = Inr (n, rd1)" "n \<noteq> []" "\<not> cap < length line"
    using "1.prems" by (auto simp: read_line_loop.simps [of line] split: if_splits sum.splits prod.splits)
  have r: "rd_bytes rd = n @ rd_bytes rd1" "rd_end rd1 = rd_end rd" using read_some_shrinks [OF n(1)] by simp_all
  show ?case
  proof (cases "strip_suffix [13, 10] (line @ n)")
    case None
    then have "read_line_loop (line @ n) cap rd1 = Inr (l, rd')" using "1.prems" n by (simp add: read_line_loop.simps [of line] Let_def)
    then show ?thesis using "1.IH" [OF n(3,1) refl _ refl None] n(2) r by simp
  next
    case (Some head)
    then have "head = l" "rd1 = rd'" using "1.prems" n by (simp_all add: read_line_loop.simps [of line] Let_def)
    then show ?thesis using Some r by (simp add: strip_suffix_Some)
  qed
qed

lemma read_line_consumes:
  "read_line rd cap = Inr (l, rd') \<Longrightarrow> rd_bytes rd = l @ [13, 10] @ rd_bytes rd' \<and> rd_end rd' = rd_end rd"
  using read_line_loop_consumes [of "[]" cap rd] by (simp add: read_line_def)

lemma read_full_consumes:
  "read_full n rd = Inr (bs, rd') \<Longrightarrow> rd_bytes rd = bs @ rd_bytes rd' \<and> length bs = n \<and> rd_end rd' = rd_end rd"
proof (induction n rd arbitrary: bs rule: read_full.induct)
  case (2 n rd)
  obtain b t rd1 rest where s: "read_some (Suc n) rd = Inr (b # t, rd1)" "read_full (Suc n - length (b # t)) rd1 = Inr (rest, rd')"
    "bs = (b # t) @ rest"
    using "2.prems" by (auto split: sum.splits prod.splits list.splits)
  have "length (b # t) \<le> Suc n" using s(1) by (auto simp: read_some_def Let_def split: if_splits list.splits dest!: arg_cong [of _ _ length])
  then show ?case using "2.IH" [OF s(1) refl refl s(2)] read_some_shrinks [OF s(1)] s(3) by simp
qed simp

definition usize_sat :: "nat \<Rightarrow> nat" where
  "usize_sat n = min n usize_max"

text \<open>Values made of digits only; \<^verbatim>\<open>str::parse\<close> and \<^verbatim>\<open>from_str_radix\<close> fail above \<^verbatim>\<open>usize::MAX\<close>.\<close>

definition decimal :: "rstr \<Rightarrow> nat option" where
  "decimal val =
     (let ds = str_bytes val in
      if ds = [] \<or> \<not> list_all is_digit ds then None
      else if digits_val 0 ds \<le> usize_max then Some (digits_val 0 ds) else None)"

definition hex_val :: "byte \<Rightarrow> byte option" where
  "hex_val b =
     (if byte_in 48 57 b then Some (b - 48)
      else if byte_in 97 102 b then Some (b - 97 + 10)
      else if byte_in 65 70 b then Some (b - 65 + 10)
      else None)"

definition hex_number :: "bytes \<Rightarrow> nat" where
  "hex_number ds = foldl (\<lambda>a b. 16 * a + unat (the (hex_val b))) 0 ds"

definition hex :: "rstr \<Rightarrow> nat option" where
  "hex val =
     (let ds = str_bytes val in
      if ds = [] \<or> \<not> list_all is_hexdigit ds then None
      else if hex_number ds \<le> usize_max then Some (hex_number ds) else None)"

text \<open>\<^verbatim>\<open>str::parse::<u16>\<close>: digits, perhaps after a plus sign.\<close>

definition parse_u16 :: "rstr \<Rightarrow> nat option" where
  "parse_u16 s =
     (let ds = str_bytes (case s of c # r \<Rightarrow> if c = 43 then r else s | [] \<Rightarrow> []) in
      if ds = [] \<or> \<not> list_all is_digit ds then None
      else if digits_val 0 ds \<le> 65535 then Some (digits_val 0 ds) else None)"

definition starts_with :: "'a list \<Rightarrow> 'a list \<Rightarrow> bool" where
  "starts_with p s \<longleftrightarrow> take (length p) s = p"

definition parse_status :: "rstr \<Rightarrow> http_error + nat" where
  "parse_status line =
     (case split_on 32 line of
        [] \<Rightarrow> Inl (BadResponse ''no version'')
      | version # parts \<Rightarrow>
          if \<not> starts_with (str ''HTTP/1.'') version then Inl (BadResponse ''not HTTP/1.x'')
          else
            case parts of
              [] \<Rightarrow> Inl (BadResponse ''no status code'')
            | code # _ \<Rightarrow> (case parse_u16 code of None \<Rightarrow> Inl (BadResponse ''non-numeric status code'') | Some n \<Rightarrow> Inr n))"

fun split_crlf :: "rstr \<Rightarrow> rstr list" where
  "split_crlf [] = [[]]"
| "split_crlf (c # s) =
     (if c = 13 \<and> s \<noteq> [] \<and> hd s = 10 then [] # split_crlf (tl s)
      else case split_crlf s of [] \<Rightarrow> [[c]] | l # ls \<Rightarrow> (c # l) # ls)"

subsection \<open>Bodies\<close>

text \<open>One line of a chunked body: the size its chunk announces.\<close>

definition chunk_size :: "bytes \<Rightarrow> http_error + nat" where
  "chunk_size line =
     (case from_utf8 (hd (split_on 59 line)) of
        None \<Rightarrow> Inl (BadResponse ''non-UTF-8 chunk size'')
      | Some t \<Rightarrow> (case hex (trim t) of None \<Rightarrow> Inl (BadResponse ''bad chunk size'') | Some n \<Rightarrow> Inr n))"

function read_chunks :: "bytes \<Rightarrow> nat \<Rightarrow> reader \<Rightarrow> http_error + bytes \<times> reader" where
  "read_chunks body max_body rd =
     (case read_line rd MAX_CHUNK_LINE of
        Inl e \<Rightarrow> Inl e
      | Inr (line, rd1) \<Rightarrow>
          (case chunk_size line of
             Inl e \<Rightarrow> Inl e
           | Inr sz \<Rightarrow>
               if sz = 0 then Inr (body, rd1)
               else if usize_sat (length body + sz) > max_body then Inl BodyTooLarge
               else
                 (case read_full sz rd1 of
                   Inl e \<Rightarrow> Inl (HttpIo e)
                 | Inr (data, rd2) \<Rightarrow>
                     (case read_line rd2 MAX_CHUNK_LINE of
                        Inl e \<Rightarrow> Inl e
                      | Inr (l, rd3) \<Rightarrow>
                          if l \<noteq> [] then Inl (BadResponse ''chunk not terminated by CRLF'')
                          else read_chunks (body @ data) max_body rd3))))"
  by pat_completeness auto

termination read_chunks
proof (relation "measure (\<lambda>(body, max_body, rd). length (rd_bytes rd))", goal_cases)
  case (2 body max_body rd p line rd1 sz q data rd2 r l rd3)
  then have l: "read_line rd MAX_CHUNK_LINE = Inr (line, rd1)" "read_full sz rd1 = Inr (data, rd2)" "read_line rd2 MAX_CHUNK_LINE = Inr (l, rd3)"
    by simp_all
  show ?case using read_line_consumes [OF l(1)] read_full_consumes [OF l(2)] read_line_consumes [OF l(3)] by simp
qed simp

declare read_chunks.simps [simp del]

function read_trailers :: "nat \<Rightarrow> reader \<Rightarrow> http_error + reader" where
  "read_trailers trailer_bytes rd =
     (case read_line rd MAX_CHUNK_LINE of
        Inl e \<Rightarrow> Inl e
      | Inr (line, rd') \<Rightarrow>
          if line = [] then Inr rd'
          else
            let trailer_bytes = usize_sat (trailer_bytes + length line) in
            if trailer_bytes > MAX_TRAILER_BYTES then Inl (BadResponse ''trailer section too large'')
            else read_trailers trailer_bytes rd')"
  by pat_completeness auto

termination read_trailers
proof (relation "measure (\<lambda>(n, rd). length (rd_bytes rd))", goal_cases)
  case (2 n rd p line rd' m)
  then have "read_line rd MAX_CHUNK_LINE = Inr (line, rd')" by simp
  then show ?case using read_line_consumes [of rd MAX_CHUNK_LINE line rd'] by simp
qed simp

declare read_trailers.simps [simp del]

definition read_chunked_body :: "reader \<Rightarrow> nat \<Rightarrow> http_error + bytes \<times> reader" where
  "read_chunked_body rd max_body =
     (case read_chunks [] max_body rd of
        Inl e \<Rightarrow> Inl e
      | Inr (body, rd') \<Rightarrow> (case read_trailers 0 rd' of Inl e \<Rightarrow> Inl e | Inr rd'' \<Rightarrow> Inr (body, rd'')))"

function read_to_close :: "bytes \<Rightarrow> nat \<Rightarrow> reader \<Rightarrow> http_error + bytes \<times> reader" where
  "read_to_close body max_body rd =
     (case read_some 4096 rd of
        Inl e \<Rightarrow> Inl (HttpIo e)
      | Inr (chunk, rd') \<Rightarrow>
          if chunk = [] then Inr (body, rd')
          else if length body + length chunk > max_body then Inl BodyTooLarge
          else read_to_close (body @ chunk) max_body rd')"
  by pat_completeness auto

termination read_to_close
proof (relation "measure (\<lambda>(body, max_body, rd). length (rd_bytes rd))", goal_cases)
  case (2 body max_body rd p chunk rd')
  then have "rd_bytes rd = chunk @ rd_bytes rd'" using read_some_shrinks [of 4096 rd chunk rd'] by simp
  then show ?case using 2 by (cases chunk) auto
qed simp

declare read_to_close.simps [simp del]

definition read_body :: "reader \<Rightarrow> bytes \<Rightarrow> nat option \<Rightarrow> nat \<Rightarrow> http_error + bytes \<times> reader" where
  "read_body rd body content_length max_body =
     (case content_length of
        Some len \<Rightarrow> (case read_full len rd of Inl e \<Rightarrow> Inl (HttpIo e) | Inr r \<Rightarrow> Inr r)
      | None \<Rightarrow> read_to_close body max_body rd)"

subsection \<open>Reading messages\<close>

definition parse_header :: "rstr \<Rightarrow> (rstr \<times> rstr) option" where
  "parse_header line = map_option (\<lambda>(name, val). (to_lower (trim name), trim val)) (split_once 58 line)"

fun response_headers ::
  "nat \<Rightarrow> rstr list \<Rightarrow> (rstr \<times> rstr) list \<Rightarrow> nat option \<Rightarrow> bool \<Rightarrow> http_error + (rstr \<times> rstr) list \<times> nat option \<times> bool" where
  "response_headers max_body [] headers content_length chunked = Inr (headers, content_length, chunked)"
| "response_headers max_body (line # lines) headers content_length chunked =
     (if line = [] then response_headers max_body lines headers content_length chunked
      else
        case parse_header line of
          None \<Rightarrow> Inl (BadResponse ''header without a colon'')
        | Some (name, val) \<Rightarrow>
            let chunked = (chunked \<or> name = str ''transfer-encoding'' \<and>
                  to_lower (trim (last (split_on 44 val))) = str ''chunked'') in
            if name = str ''content-length'' then
              (case decimal val of
                 None \<Rightarrow> Inl (BadResponse ''bad content-length'')
               | Some n \<Rightarrow>
                   if n > max_body then Inl BodyTooLarge
                   else if content_length \<noteq> None \<and> content_length \<noteq> Some n then Inl (BadResponse ''conflicting content-length'')
                   else response_headers max_body lines (headers @ [(name, val)]) (Some n) chunked)
            else response_headers max_body lines (headers @ [(name, val)]) content_length chunked)"

definition read_response :: "reader \<Rightarrow> nat \<Rightarrow> http_error + http_response \<times> reader" where
  "read_response rd max_body =
     (case read_head rd of
        Inl e \<Rightarrow> Inl e
      | Inr (head, rd1) \<Rightarrow>
          (case from_utf8 head of
             None \<Rightarrow> Inl (BadResponse ''non-UTF-8 head'')
           | Some text \<Rightarrow>
               let lines = split_crlf text in
               case parse_status (hd lines) of
                 Inl e \<Rightarrow> Inl e
               | Inr status \<Rightarrow>
                   (case response_headers max_body (tl lines) [] None False of
                      Inl e \<Rightarrow> Inl e
                    | Inr (headers, content_length, chunked) \<Rightarrow>
                        (case (if chunked then read_chunked_body rd1 max_body else read_body rd1 [] content_length max_body) of
                           Inl e \<Rightarrow> Inl e
                         | Inr (body, rd2) \<Rightarrow> Inr (\<lparr>rs_status = status, rs_headers = headers, rs_body = body\<rparr>, rd2)))))"

fun request_headers :: "nat \<Rightarrow> rstr list \<Rightarrow> (rstr \<times> rstr) list \<Rightarrow> nat option \<Rightarrow> http_error + (rstr \<times> rstr) list \<times> nat option" where
  "request_headers max_body [] headers content_length = Inr (headers, content_length)"
| "request_headers max_body (line # lines) headers content_length =
     (if line = [] then request_headers max_body lines headers content_length
      else
        case parse_header line of
          None \<Rightarrow> Inl (BadRequest ''header without a colon'')
        | Some (name, val) \<Rightarrow>
            if name = str ''content-length'' then
              (if content_length \<noteq> None then Inl (BadRequest ''more than one content-length'')
               else
                 case decimal val of
                   None \<Rightarrow> Inl (BadRequest ''bad content-length'')
                 | Some n \<Rightarrow>
                     if n > max_body then Inl BodyTooLarge
                     else request_headers max_body lines (headers @ [(name, val)]) (Some n))
            else if name = str ''transfer-encoding'' then Inl (BadRequest ''transfer-encoding is not supported'')
            else request_headers max_body lines (headers @ [(name, val)]) content_length)"

definition read_request :: "reader \<Rightarrow> nat \<Rightarrow> http_error + server_request \<times> reader" where
  "read_request rd max_body =
     (case read_head rd of
        Inl e \<Rightarrow> Inl e
      | Inr (head, rd1) \<Rightarrow>
          (case from_utf8 head of
             None \<Rightarrow> Inl (BadRequest ''non-UTF-8 head'')
           | Some text \<Rightarrow>
               let lines = split_crlf text in
               case split_on 32 (hd lines) of
                 method # target # version # _ \<Rightarrow>
                   if \<not> starts_with (str ''HTTP/1.'') version then Inl (BadRequest ''not HTTP/1.x'')
                   else
                     (case request_headers max_body (tl lines) [] None of
                        Inl e \<Rightarrow> Inl e
                      | Inr (headers, content_length) \<Rightarrow>
                          (case read_full (case content_length of None \<Rightarrow> 0 | Some n \<Rightarrow> n) rd1 of
                             Inl e \<Rightarrow> Inl (HttpIo e)
                           | Inr (body, rd2) \<Rightarrow>
                               Inr (\<lparr>sr_method = method, sr_target = target, sr_headers = headers, sr_body = body\<rparr>, rd2)))
               | [method, target] \<Rightarrow> Inl (BadRequest ''no version'')
               | [method] \<Rightarrow> Inl (BadRequest ''no target'')
               | [] \<Rightarrow> Inl (BadRequest ''no method'')))"

definition sr_path :: "server_request \<Rightarrow> rstr" where
  "sr_path r = hd (split_on 63 (sr_target r))"

definition sr_query :: "server_request \<Rightarrow> rstr option" where
  "sr_query r = map_option snd (split_once 63 (sr_target r))"

subsection \<open>Percent coding\<close>

definition HEX :: bytes where "HEX = ascii ''0123456789ABCDEF''"

definition is_unreserved :: "byte \<Rightarrow> bool" where
  "is_unreserved b \<longleftrightarrow> byte_in 48 57 b \<or> byte_in 65 90 b \<or> byte_in 97 122 b \<or> b = 45 \<or> b = 95 \<or> b = 46 \<or> b = 126"

definition percent_byte :: "byte \<Rightarrow> bytes" where
  "percent_byte b = (if is_unreserved b then [b] else [37, HEX ! unat (drop_bit 4 b), HEX ! unat (b AND 0x0F)])"

definition percent_encode :: "bytes \<Rightarrow> bytes" where
  "percent_encode bs = concat (map percent_byte bs)"

fun percent_decode :: "bytes \<Rightarrow> bytes" where
  "percent_decode [] = []"
| "percent_decode (b # bs) =
     (if b = 37 \<and> 2 \<le> length bs \<and> hex_val (bs ! 0) \<noteq> None \<and> hex_val (bs ! 1) \<noteq> None
      then (push_bit 4 (the (hex_val (bs ! 0))) OR the (hex_val (bs ! 1))) # percent_decode (drop 2 bs)
      else b # percent_decode bs)"

subsection \<open>What reading does\<close>

lemma read_some_one: "rd_bytes rd = b # bs \<Longrightarrow> \<exists>rd'. read_some 1 rd = Inr ([b], rd') \<and> rd_bytes rd' = bs \<and> rd_end rd' = rd_end rd"
  by (auto simp: read_some_def Let_def split: list.splits)

lemma read_some_end: "rd_bytes rd = [] \<Longrightarrow> read_some cap rd =
    (case rd_end rd of Some e \<Rightarrow> Inl e | None \<Rightarrow> Inr ([], rd\<lparr>rd_bytes := [], rd_sizes := tl (rd_sizes rd)\<rparr>))"
  by (auto simp: read_some_def Let_def split: list.splits option.splits)

lemma read_some_prefix:
  assumes "rd_bytes rd \<noteq> []" "0 < cap"
  obtains bs rd' where "read_some cap rd = Inr (bs, rd')" "bs \<noteq> []" "length bs \<le> cap" "rd_bytes rd = bs @ rd_bytes rd'" "rd_end rd' = rd_end rd"
proof -
  obtain bs rd' where r: "read_some cap rd = Inr (bs, rd')" using assms(1) by (auto simp: read_some_def Let_def)
  moreover have "bs \<noteq> []" "length bs \<le> cap" using r assms by (auto simp: read_some_def Let_def split: list.splits)
  ultimately show thesis using that read_some_shrinks by blast
qed

definition end_error :: "reader \<Rightarrow> io_kind" where
  "end_error rd = (case rd_end rd of Some e \<Rightarrow> e | None \<Rightarrow> EofKind)"

lemma read_full_short: "length (rd_bytes rd) < n \<Longrightarrow> read_full n rd = Inl (end_error rd)"
proof (induction n rd rule: read_full.induct)
  case (2 n rd)
  show ?case
  proof (cases "rd_bytes rd = []")
    case True
    then show ?thesis by (auto simp: read_some_end end_error_def split: option.splits)
  next
    case False
    then obtain bs rd' where r: "read_some (Suc n) rd = Inr (bs, rd')" "bs \<noteq> []" "rd_bytes rd = bs @ rd_bytes rd'" "rd_end rd' = rd_end rd"
      by (metis read_some_prefix zero_less_Suc)
    then obtain b t where b: "bs = b # t" by (cases bs) auto
    have "length (rd_bytes rd') < Suc n - length bs" using "2.prems" r(3) by simp
    then have "read_full (Suc n - length bs) rd' = Inl (end_error rd')" using "2.IH" r(1) b by simp
    then show ?thesis using r b by (simp add: end_error_def)
  qed
qed simp

lemma read_full_ok: "n \<le> length (rd_bytes rd) \<Longrightarrow>
    \<exists>rd'. read_full n rd = Inr (take n (rd_bytes rd), rd') \<and> rd_bytes rd' = drop n (rd_bytes rd) \<and> rd_end rd' = rd_end rd"
proof (induction n rd rule: read_full.induct)
  case (2 n rd)
  then have "rd_bytes rd \<noteq> []" by auto
  then obtain bs rd1 where r: "read_some (Suc n) rd = Inr (bs, rd1)" "bs \<noteq> []" "length bs \<le> Suc n" "rd_bytes rd = bs @ rd_bytes rd1" "rd_end rd1 = rd_end rd"
    by (metis read_some_prefix zero_less_Suc)
  then obtain b t where b: "bs = b # t" by (cases bs) auto
  have "Suc n - length bs \<le> length (rd_bytes rd1)" using "2.prems" r(4) by simp
  then obtain rd' where "read_full (Suc n - length bs) rd1 = Inr (take (Suc n - length bs) (rd_bytes rd1), rd')"
    "rd_bytes rd' = drop (Suc n - length bs) (rd_bytes rd1)" "rd_end rd' = rd_end rd1"
    using "2.IH" r(1) b by blast
  then show ?case using r b by simp
qed simp

lemma read_to_close_closed:
  assumes "length body \<le> max_body"
  shows "\<exists>rd'. read_to_close body max_body rd =
    (if length body + length (rd_bytes rd) > max_body then Inl BodyTooLarge
     else case rd_end rd of Some e \<Rightarrow> Inl (HttpIo e) | None \<Rightarrow> Inr (body @ rd_bytes rd, rd')) \<and> rd_bytes rd' = [] \<and> rd_end rd' = rd_end rd"
  using assms
proof (induction body max_body rd rule: read_to_close.induct)
  case (1 body max_body rd)
  show ?case
  proof (cases "rd_bytes rd = []")
    case True
    then show ?thesis using "1.prems"
      by (auto simp: read_to_close.simps [of body] read_some_end split: option.splits intro: exI [of _ "rd\<lparr>rd_bytes := [], rd_sizes := tl (rd_sizes rd)\<rparr>"])
  next
    case False
    then obtain bs rd1 where r: "read_some 4096 rd = Inr (bs, rd1)" "bs \<noteq> []" "rd_bytes rd = bs @ rd_bytes rd1" "rd_end rd1 = rd_end rd"
      by (rule read_some_prefix [where cap = 4096]) simp_all
    show ?thesis
    proof (cases "length body + length bs > max_body")
      case True
      then show ?thesis using r by (auto simp: read_to_close.simps [of body] intro: exI [of _ "rd\<lparr>rd_bytes := []\<rparr>"])
    next
      case False
      with "1.IH" [OF r(1) refl r(2) False] obtain rd' where
        "read_to_close (body @ bs) max_body rd1 =
          (if length (body @ bs) + length (rd_bytes rd1) > max_body then Inl BodyTooLarge
           else case rd_end rd1 of Some e \<Rightarrow> Inl (HttpIo e) | None \<Rightarrow> Inr ((body @ bs) @ rd_bytes rd1, rd'))" "rd_bytes rd' = []" "rd_end rd' = rd_end rd1"
        by auto
      then show ?thesis using r False by (intro exI [of _ rd']) (simp add: read_to_close.simps [of body] split: option.split)
    qed
  qed
qed

lemma read_head_loop_reads:
  assumes "rd_bytes rd = w @ s" "w \<noteq> []" "length buf + length w \<le> MAX_HEADER_BYTES + 1"
    "strip_suffix [13, 10, 13, 10] (buf @ w) = Some h"
    "\<And>v u. w = v @ u \<Longrightarrow> u \<noteq> [] \<Longrightarrow> strip_suffix [13, 10, 13, 10] (buf @ v) = None"
  shows "\<exists>rd'. read_head_loop buf rd = Inr (h, rd') \<and> rd_bytes rd' = s \<and> rd_end rd' = rd_end rd"
  using assms
proof (induction w arbitrary: buf rd)
  case (Cons b w)
  obtain rd1 where r: "read_some 1 rd = Inr ([b], rd1)" "rd_bytes rd1 = w @ s" "rd_end rd1 = rd_end rd"
    using read_some_one [of rd b "w @ s"] Cons.prems(1) by auto
  have l: "\<not> MAX_HEADER_BYTES < length buf" using Cons.prems(3) by simp
  show ?case
  proof (cases "w = []")
    case True
    then show ?thesis using r l Cons.prems(4) by (simp add: read_head_loop.simps [of buf])
  next
    case False
    then have "strip_suffix [13, 10, 13, 10] (buf @ [b]) = None" using Cons.prems(5) [of "[b]" w] by simp
    moreover have "\<exists>rd'. read_head_loop (buf @ [b]) rd1 = Inr (h, rd') \<and> rd_bytes rd' = s \<and> rd_end rd' = rd_end rd1"
    proof (rule Cons.IH)
      fix v u assume "w = v @ u" "u \<noteq> []"
      then show "strip_suffix [13, 10, 13, 10] ((buf @ [b]) @ v) = None" using Cons.prems(5) [of "b # v" u] by simp
    qed (use False r Cons.prems in auto)
    ultimately show ?thesis using r l by (simp add: read_head_loop.simps [of buf])
  qed
qed simp

subsection \<open>Messages as lines\<close>

definition msg_bytes :: "rstr list \<Rightarrow> bytes \<Rightarrow> bytes" where
  "msg_bytes lines body = str_bytes (concat (map (\<lambda>l. l @ crlf) lines) @ crlf) @ body"

text \<open>A line of a message: not empty, one line, and a Rust string.\<close>

definition good_line :: "rstr \<Rightarrow> bool" where
  "good_line l \<longleftrightarrow> l \<noteq> [] \<and> 13 \<notin> set l \<and> 10 \<notin> set l \<and> (\<forall>c \<in> set l. is_scalar c)"

lemma clean_iff: "\<forall>c \<in> set s. is_scalar c \<Longrightarrow> clean s \<longleftrightarrow> 13 \<notin> set s \<and> 10 \<notin> set s \<and> 0 \<notin> set s"
proof -
  assume s: "\<forall>c \<in> set s. is_scalar c"
  have "13 \<in> set (str_bytes s) \<longleftrightarrow> 13 \<in> set s" "10 \<in> set (str_bytes s) \<longleftrightarrow> 10 \<in> set s" "0 \<in> set (str_bytes s) \<longleftrightarrow> 0 \<in> set s"
    using str_bytes_low [OF s, of 13] str_bytes_low [OF s, of 10] str_bytes_low [OF s, of 0] by simp_all
  then show ?thesis unfolding clean_def list_ex_iff by blast
qed

lemma blank_line_last:
  assumes "\<forall>l \<in> set ls. l \<noteq> [] \<and> 13 \<notin> set l" "concat (map (\<lambda>l. l @ [13, 10]) ls) @ [13, 10] = h @ [13, 10, 13, 10] @ u"
  shows "u = ([] :: bytes)"
  using assms
proof (induction ls arbitrary: h)
  case (Cons l ls)
  let ?W = "concat (map (\<lambda>l. l @ [13, 10]) ls) @ [13, 10]"
  have w: "l @ 13 # 10 # ?W = h @ 13 # 10 # 13 # 10 # u" using Cons.prems(2) by simp
  have l: "13 \<notin> set l" using Cons.prems(1) by simp
  show ?case
  proof (cases "13 \<in> set h")
    case False
    then have "l = h" "?W = 13 # 10 # u" using w l first_split_eq [of 13 l h "10 # ?W" "10 # 13 # 10 # u"] by simp_all
    then show ?thesis
    proof (cases ls)
      case ls: (Cons m ms)
      then obtain c m' where "m = c # m'" "c \<noteq> 13" using Cons.prems(1) by (cases m) auto
      then show ?thesis using \<open>?W = 13 # 10 # u\<close> ls by simp
    qed simp
  next
    case True
    then obtain h1 h2 where h: "h = h1 @ 13 # h2" "13 \<notin> set h1" by (meson split_list_first)
    then have "l = h1" "10 # ?W = h2 @ 13 # 10 # 13 # 10 # u"
      using w l first_split_eq [of 13 l h1 "10 # ?W" "h2 @ 13 # 10 # 13 # 10 # u"] by simp_all
    then obtain h3 where "?W = h3 @ [13, 10, 13, 10] @ u" by (cases h2) auto
    then show ?thesis using Cons.IH Cons.prems(1) by simp
  qed
qed (auto simp: append_eq_Cons_conv Cons_eq_append_conv)

lemma split_crlf_free: "13 \<notin> set l \<Longrightarrow> split_crlf l = [l]"
  by (induction l) auto

lemma split_crlf_Cons: "13 \<notin> set l \<Longrightarrow> split_crlf (l @ 13 # 10 # s) = l # split_crlf s"
  by (induction l) auto

text \<open>The text of a message's head: its lines with CRLF between them.\<close>

fun join_crlf :: "rstr list \<Rightarrow> rstr" where
  "join_crlf [] = []"
| "join_crlf [l] = l"
| "join_crlf (l # ls) = l @ crlf @ join_crlf ls"

lemma join_crlf_concat: "ls \<noteq> [] \<Longrightarrow> concat (map (\<lambda>l. l @ crlf) ls) = join_crlf ls @ crlf"
  by (induction ls rule: join_crlf.induct) auto

lemma split_join_crlf: "ls \<noteq> [] \<Longrightarrow> \<forall>l \<in> set ls. 13 \<notin> set l \<Longrightarrow> split_crlf (join_crlf ls) = ls"
  by (induction ls rule: join_crlf.induct) (auto simp: split_crlf_free split_crlf_Cons crlf_def)

lemma join_crlf_set: "set (join_crlf ls) \<subseteq> {13, 10} \<union> (\<Union>l \<in> set ls. set l)"
  by (induction ls rule: join_crlf.induct) (auto simp: crlf_def)

lemma str_bytes_concat: "str_bytes (concat (map (\<lambda>l. l @ crlf) ls)) = concat (map (\<lambda>l. l @ [13, 10]) (map str_bytes ls))"
  by (induction ls) (simp_all add: crlf_def utf8_char_def)

text \<open>A message whose lines are good is read back as exactly those lines, and what follows the blank line is
  left in the stream.\<close>

lemma read_head_msg:
  assumes "lines \<noteq> []" "\<forall>l \<in> set lines. good_line l" "rd_bytes rd = msg_bytes lines body" "length (msg_bytes lines []) \<le> MAX_HEADER_BYTES + 1"
  obtains head rd' s where "read_head rd = Inr (head, rd')" "rd_bytes rd' = body" "rd_end rd' = rd_end rd"
    "from_utf8 head = Some s" "split_crlf s = lines"
proof -
  let ?bl = "map str_bytes lines" and ?w = "msg_bytes lines []"
  have w: "?w = concat (map (\<lambda>l. l @ [13, 10]) ?bl) @ [13, 10]"
    unfolding msg_bytes_def str_bytes_append str_bytes_concat by (simp add: crlf_def utf8_char_def)
  have good: "\<forall>l \<in> set ?bl. l \<noteq> [] \<and> 13 \<notin> set l"
  proof
    fix b assume "b \<in> set ?bl"
    then obtain l where l: "b = str_bytes l" "good_line l" using assms(2) by auto
    then show "b \<noteq> [] \<and> 13 \<notin> set b" using str_bytes_low [of l 13] by (cases l) (auto simp: good_line_def utf8_char_def split: if_splits)
  qed
  have h: "?w = str_bytes (join_crlf lines) @ [13, 10, 13, 10]"
    using join_crlf_concat [OF assms(1)] by (simp add: msg_bytes_def crlf_def utf8_char_def)
  have "\<exists>rd'. read_head_loop [] rd = Inr (str_bytes (join_crlf lines), rd') \<and> rd_bytes rd' = body \<and> rd_end rd' = rd_end rd"
  proof (rule read_head_loop_reads)
    show "rd_bytes rd = ?w @ body" using assms(3) by (simp add: msg_bytes_def)
    show "strip_suffix [13, 10, 13, 10] ([] @ ?w) = Some (str_bytes (join_crlf lines))" using h by (simp add: strip_suffix_Some)
    fix v u assume vu: "?w = v @ u" "u \<noteq> []"
    show "strip_suffix [13, 10, 13, 10] ([] @ v) = None"
    proof (rule ccontr)
      assume "strip_suffix [13, 10, 13, 10] ([] @ v) \<noteq> None"
      then obtain k where "v = k @ [13, 10, 13, 10]" by (auto simp: strip_suffix_Some)
      then have "concat (map (\<lambda>l. l @ [13, 10]) ?bl) @ [13, 10] = k @ [13, 10, 13, 10] @ u" using vu(1) w by simp
      then show False using blank_line_last [OF good] vu(2) by blast
    qed
  qed (use h assms(4) in auto)
  then obtain rd' where r: "read_head rd = Inr (str_bytes (join_crlf lines), rd')" "rd_bytes rd' = body" "rd_end rd' = rd_end rd"
    by (auto simp: read_head_def)
  have "\<forall>c \<in> set (join_crlf lines). is_scalar c" using join_crlf_set [of lines] assms(2) by (fastforce simp: good_line_def is_scalar_def)
  then have "from_utf8 (str_bytes (join_crlf lines)) = Some (join_crlf lines)" by (simp add: from_utf8_iff)
  moreover have "split_crlf (join_crlf lines) = lines" using assms(1,2) by (intro split_join_crlf) (auto simp: good_line_def)
  ultimately show thesis using that r by blast
qed

subsection \<open>Requests\<close>

definition header_text :: "rstr \<times> rstr \<Rightarrow> rstr" where
  "header_text h = fst h @ str '': '' @ snd h"

definition length_lines :: "nat \<Rightarrow> rstr list" where
  "length_lines n = [str ''Content-Length: '' @ chars (dec_digits n)]"

definition request_lines :: "http_request \<Rightarrow> rstr list" where
  "request_lines r =
     [rq_method r @ str '' '' @ rq_target r @ str '' HTTP/1.1'', str ''Host: '' @ rq_host r] @ map header_text (rq_headers r) @
     (if \<not> (rq_method r = str ''GET'' \<and> rq_body r = []) then length_lines (length (rq_body r)) else []) @ [str ''Connection: close'']"

definition rust_str :: "rstr \<Rightarrow> bool" where
  "rust_str s \<longleftrightarrow> (\<forall>c \<in> set s. is_scalar c)"

definition rust_headers :: "(rstr \<times> rstr) list \<Rightarrow> bool" where
  "rust_headers hs \<longleftrightarrow> (\<forall>(n, v) \<in> set hs. rust_str n \<and> rust_str v)"

lemma header_line_text: "header_line = (\<lambda>h. header_text h @ crlf)"
  by (simp add: header_line_def header_text_def fun_eq_iff)

lemma rq_encode_msg: "rq_encode r = Some out \<Longrightarrow> out = msg_bytes (request_lines r) (rq_body r)"
  by (auto simp: rq_encode_def msg_bytes_def request_lines_def header_line_text length_lines_def comp_def split: if_splits)

lemma str_eq_Nil [simp]: "str s = [] \<longleftrightarrow> s = []"
  by (simp add: str_def)

lemma good_line_append: "good_line (a @ b) \<longleftrightarrow> (a \<noteq> [] \<or> b \<noteq> []) \<and> (a \<noteq> [] \<longrightarrow> good_line a) \<and> (b \<noteq> [] \<longrightarrow> good_line b)"
  by (auto simp: good_line_def)

lemma dec_chars: "c \<in> set (chars (dec_digits n)) \<Longrightarrow> 48 \<le> c \<and> c \<le> 57"
  using dec_digits_is_digit by (auto simp: chars_def is_digit_def word_le_nat_alt)

lemma good_line_dec: "good_line (chars (dec_digits n))"
  using dec_chars [of _ n] by (fastforce simp: good_line_def is_scalar_def chars_def)

lemma clean_good: "rust_str s \<Longrightarrow> clean s \<Longrightarrow> s \<noteq> [] \<Longrightarrow> good_line s"
  by (auto simp: clean_iff rust_str_def good_line_def)

lemma good_line_lits: "good_line (str ''Content-Length: '')" "good_line (str ''Connection: close'')" "good_line (str '': '')"
  "good_line (str ''Host: '')" "good_line (str '' '')" "good_line (str '' HTTP/1.1'')" "good_line (str ''HTTP/1.1 '')"
  by code_simp+

lemma header_text_good: "clean n \<Longrightarrow> clean v \<Longrightarrow> rust_str n \<Longrightarrow> rust_str v \<Longrightarrow> good_line (header_text (n, v))"
  using clean_good [of n] clean_good [of v] good_line_lits(3) by (auto simp: header_text_def good_line_append)

lemma request_lines_good:
  assumes "rq_encode r = Some out" "rust_str (rq_method r)" "rust_str (rq_target r)" "rust_str (rq_host r)" "rust_headers (rq_headers r)"
  shows "\<forall>l \<in> set (request_lines r). good_line l"
proof -
  have c: "clean (rq_method r)" "clean (rq_target r)" "clean (rq_host r)" "\<forall>(n, v) \<in> set (rq_headers r). clean n \<and> clean v"
    using assms(1) by (auto simp: rq_encode_def list_ex_iff split: if_splits)
  have h: "\<forall>h \<in> set (rq_headers r). good_line (header_text h)"
    using c(4) assms(5) header_text_good by (fastforce simp: rust_headers_def)
  have "good_line (rq_method r @ str '' '' @ rq_target r @ str '' HTTP/1.1'')" "good_line (str ''Host: '' @ rq_host r)"
    using clean_good [OF assms(2) c(1)] clean_good [OF assms(3) c(2)] clean_good [OF assms(4) c(3)] good_line_lits by (simp_all add: good_line_append)
  then show ?thesis using h good_line_lits good_line_dec by (auto simp: request_lines_def length_lines_def good_line_append)
qed

lemma trim_space [simp]: "trim (32 # s) = trim s"
  by (simp add: trim_def is_whitespace_def)

lemma parse_header_text: "58 \<notin> set n \<Longrightarrow> parse_header (header_text (n, v)) = Some (to_lower (trim n), trim v)"
proof -
  assume "58 \<notin> set n"
  then have "split_once 58 (n @ 58 # 32 # v) = Some (n, 32 # v)" by (simp add: split_once_Some)
  then show ?thesis by (simp add: parse_header_def header_text_def str_def)
qed

lemma decimal_dec: "n \<le> usize_max \<Longrightarrow> decimal (chars (dec_digits n)) = Some n"
proof -
  have "\<forall>b \<in> set (dec_digits n). b < 0x80" using dec_digits_is_digit by (fastforce simp: is_digit_def word_le_nat_alt word_less_nat_alt)
  then show "n \<le> usize_max \<Longrightarrow> decimal (chars (dec_digits n)) = Some n"
    using dec_digits_is_digit by (simp add: decimal_def str_bytes_chars list_all_iff)
qed

lemma trim_dec: "trim (chars (dec_digits n)) = chars (dec_digits n)"
  by (rule trim_id) (use dec_chars in \<open>fastforce simp: is_whitespace_def\<close>)

definition norm_header :: "rstr \<times> rstr \<Rightarrow> rstr \<times> rstr" where
  "norm_header h = (to_lower (trim (fst h)), trim (snd h))"

text \<open>A header that neither hides a colon in its name nor claims to frame the body.\<close>

definition plain_header :: "rstr \<times> rstr \<Rightarrow> bool" where
  "plain_header h \<longleftrightarrow> 58 \<notin> set (fst h) \<and> fst (norm_header h) \<noteq> str ''content-length'' \<and> fst (norm_header h) \<noteq> str ''transfer-encoding''"

lemma header_text_nonempty [simp]: "header_text h \<noteq> []"
  by (simp add: header_text_def)

lemma parse_plain: "plain_header h \<Longrightarrow> parse_header (header_text h) = Some (norm_header h)"
  using parse_header_text [of "fst h" "snd h"] by (simp add: plain_header_def norm_header_def)

lemma request_headers_plain:
  "\<forall>h \<in> set hs. plain_header h \<Longrightarrow>
   request_headers max_body (map header_text hs @ ls) acc cl = request_headers max_body ls (acc @ map norm_header hs) cl"
proof (induction hs arbitrary: acc)
  case (Cons h hs)
  obtain n v where nv: "norm_header h = (n, v)" by fastforce
  then have "n \<noteq> str ''content-length''" "n \<noteq> str ''transfer-encoding''" using Cons.prems by (auto simp: plain_header_def)
  then show ?case using parse_plain [of h] Cons nv by simp
qed simp

lemma length_line_header: "str ''Content-Length: '' @ d = header_text (str ''Content-Length'', d)"
  by (simp add: header_text_def str_def)

lemma host_line_header: "str ''Host: '' @ d = header_text (str ''Host'', d)"
  by (simp add: header_text_def str_def)

lemma close_line_header: "str ''Connection: close'' = header_text (str ''Connection'', str ''close'')"
  by (simp add: header_text_def str_def)

lemma lit_headers:
  "norm_header (str ''Connection'', str ''close'') = (str ''connection'', str ''close'')"
  "plain_header (str ''Connection'', str ''close'')" "plain_header (str ''Host'', d)" "58 \<notin> set (str ''Content-Length'')"
  "to_lower (trim (str ''Content-Length'')) = str ''content-length''" "to_lower (trim (str ''Host'')) = str ''host''"
proof -
  have "to_lower (trim (str ''Host'')) = str ''host''" "58 \<notin> set (str ''Host'')" "str ''host'' \<noteq> str ''content-length''"
    "str ''host'' \<noteq> str ''transfer-encoding''" by code_simp+
  then show "plain_header (str ''Host'', d)" "to_lower (trim (str ''Host'')) = str ''host''" by (simp_all add: plain_header_def norm_header_def)
  show "norm_header (str ''Connection'', str ''close'') = (str ''connection'', str ''close'')" by code_simp
  show "plain_header (str ''Connection'', str ''close'')" by code_simp
  show "58 \<notin> set (str ''Content-Length'')" by code_simp
  show "to_lower (trim (str ''Content-Length'')) = str ''content-length''" by code_simp
qed

lemma parse_length_line: "parse_header (str ''Content-Length: '' @ chars (dec_digits n)) = Some (str ''content-length'', chars (dec_digits n))"
  unfolding length_line_header using parse_header_text [OF lit_headers(4)] lit_headers(5) trim_dec by simp

lemma request_headers_tail:
  assumes "n \<le> max_body" "n \<le> usize_max"
  shows "request_headers max_body ((if b then length_lines n else []) @ [str ''Connection: close'']) acc None =
    Inr (acc @ (if b then [(str ''content-length'', chars (dec_digits n))] else []) @ [(str ''connection'', str ''close'')],
      if b then Some n else None)"
  using assms request_headers_plain [of "[(str ''Connection'', str ''close'')]" max_body "[]"] lit_headers(1,2) decimal_dec [OF assms(2)] parse_length_line [of n]
  by (simp add: length_lines_def close_line_header)

lemma split_request_line:
  assumes "32 \<notin> set m" "32 \<notin> set t"
  shows "split_on 32 (m @ str '' '' @ t @ str '' HTTP/1.1'') = [m, t, str ''HTTP/1.1'']"
proof -
  have "m @ str '' '' @ t @ str '' HTTP/1.1'' = join_on 32 [m, t, str ''HTTP/1.1'']" by (simp add: str_def)
  moreover have "32 \<notin> set (str ''HTTP/1.1'')" by code_simp
  ultimately show ?thesis using assms by (simp only:) (rule split_on_join, auto)
qed

text \<open>C26. Nobody else writes into a request. Whatever the fields hold (the target comes from a stranger's announce
  URL), a request that is encoded at all reads back, however the bytes arrive, as exactly its own lines: the
  request line, the host, the given headers, the length and the close, followed by exactly its body. When
  the method and target hold no space and no header frames the body, the server side reads back the method,
  target, headers and body that were sent.\<close>

theorem http_request_delivered:
  assumes "rq_encode r = Some out" "rust_str (rq_method r)" "rust_str (rq_target r)" "rust_str (rq_host r)" "rust_headers (rq_headers r)"
    and "length (msg_bytes (request_lines r) []) \<le> MAX_HEADER_BYTES + 1" and "rd_bytes rd = out"
    and "length (rq_body r) \<le> max_body" "length (rq_body r) \<le> usize_max"
  shows "(\<exists>head rd' s. read_head rd = Inr (head, rd') \<and> from_utf8 head = Some s \<and> split_crlf s = request_lines r \<and> rd_bytes rd' = rq_body r) \<and>
    (32 \<notin> set (rq_method r) \<and> 32 \<notin> set (rq_target r) \<and> (\<forall>h \<in> set (rq_headers r). plain_header h) \<longrightarrow>
     (\<exists>rd'. rd_bytes rd' = [] \<and> read_request rd max_body =
       Inr (\<lparr>sr_method = rq_method r, sr_target = rq_target r,
             sr_headers = (str ''host'', trim (rq_host r)) # map norm_header (rq_headers r) @
               (if \<not> (rq_method r = str ''GET'' \<and> rq_body r = []) then [(str ''content-length'', chars (dec_digits (length (rq_body r))))] else []) @
               [(str ''connection'', str ''close'')],
             sr_body = rq_body r\<rparr>, rd')))"
proof -
  have b: "rd_bytes rd = msg_bytes (request_lines r) (rq_body r)" using rq_encode_msg [OF assms(1)] assms(7) by simp
  have ne: "request_lines r \<noteq> []" by (simp add: request_lines_def)
  obtain head rd1 s where h: "read_head rd = Inr (head, rd1)" "rd_bytes rd1 = rq_body r" "from_utf8 head = Some s" "split_crlf s = request_lines r"
    using read_head_msg [OF ne request_lines_good [OF assms(1-5)] b assms(6)] by metis
  let ?hs = "(str ''Host'', rq_host r) # rq_headers r" and ?get = "rq_method r = str ''GET'' \<and> rq_body r = []"
  let ?n = "length (rq_body r)"
  have lines: "request_lines r = (rq_method r @ str '' '' @ rq_target r @ str '' HTTP/1.1'') #
      map header_text ?hs @ (if \<not> ?get then length_lines ?n else []) @ [str ''Connection: close'']"
    unfolding request_lines_def host_line_header by simp
  have rd2: "\<exists>rd2. read_full ?n rd1 = Inr (rq_body r, rd2) \<and> rd_bytes rd2 = []" using read_full_ok [of ?n rd1] h(2) by auto
  {
    assume sp: "32 \<notin> set (rq_method r) \<and> 32 \<notin> set (rq_target r) \<and> (\<forall>h \<in> set (rq_headers r). plain_header h)"
    then have "\<forall>h \<in> set ?hs. plain_header h" using lit_headers(3) by simp
    from request_headers_plain [OF this]
    have "request_headers max_body (tl (request_lines r)) [] None =
        Inr (map norm_header ?hs @ (if \<not> ?get then [(str ''content-length'', chars (dec_digits ?n))] else []) @ [(str ''connection'', str ''close'')],
          if \<not> ?get then Some ?n else None)"
      unfolding lines list.sel using request_headers_tail [OF assms(8,9)] by simp
    moreover have "norm_header (str ''Host'', rq_host r) = (str ''host'', trim (rq_host r))"
      using lit_headers(6) by (simp add: norm_header_def)
    moreover have "split_on 32 (hd (request_lines r)) = [rq_method r, rq_target r, str ''HTTP/1.1'']"
      using sp split_request_line by (simp add: lines)
    moreover have "starts_with (str ''HTTP/1.'') (str ''HTTP/1.1'')" by code_simp
    moreover obtain rd2 where "read_full (case if \<not> ?get then Some ?n else None of None \<Rightarrow> 0 | Some n \<Rightarrow> n) rd1 = Inr (rq_body r, rd2)" "rd_bytes rd2 = []"
      using rd2 by (cases ?get) auto
    ultimately have "\<exists>rd'. rd_bytes rd' = [] \<and> read_request rd max_body =
       Inr (\<lparr>sr_method = rq_method r, sr_target = rq_target r,
             sr_headers = (str ''host'', trim (rq_host r)) # map norm_header (rq_headers r) @
               (if \<not> ?get then [(str ''content-length'', chars (dec_digits ?n))] else []) @ [(str ''connection'', str ''close'')],
             sr_body = rq_body r\<rparr>, rd')"
      using h(1,3,4) by (intro exI [of _ rd2]) (simp add: read_request_def Let_def)
  }
  then show ?thesis using h by blast
qed

definition sample_request :: http_request where
  "sample_request = \<lparr>rq_method = str ''GET'', rq_target = str ''/a?x=1'', rq_host = str ''t.i2p'',
     rq_headers = [(str ''User-Agent'', str ''c'')], rq_body = []\<rparr>"

lemma sample_request_ok:
  "rq_encode sample_request = Some (the (rq_encode sample_request))" "rust_str (rq_method sample_request)" "rust_str (rq_target sample_request)"
  "rust_str (rq_host sample_request)" "rust_headers (rq_headers sample_request)"
  "length (msg_bytes (request_lines sample_request) []) \<le> MAX_HEADER_BYTES + 1"
  "length (rq_body sample_request) \<le> 9" "length (rq_body sample_request) \<le> usize_max"
  by code_simp+

theorem http_request_delivered_witness:
  "\<exists>rd' sr. read_request \<lparr>rd_bytes = the (rq_encode sample_request), rd_sizes = [1, 7], rd_end = None\<rparr> 9 = Inr (sr, rd') \<and>
     sr_target sr = str ''/a?x=1'' \<and> rd_bytes rd' = []"
proof -
  have "32 \<notin> set (rq_method sample_request) \<and> 32 \<notin> set (rq_target sample_request) \<and> (\<forall>h \<in> set (rq_headers sample_request). plain_header h)"
    by code_simp
  moreover have "rq_target sample_request = str ''/a?x=1''" by (simp add: sample_request_def)
  ultimately show ?thesis
    using http_request_delivered [OF sample_request_ok(1-6), of "\<lparr>rd_bytes = the (rq_encode sample_request), rd_sizes = [1, 7], rd_end = None\<rparr>" 9]
      sample_request_ok(7,8) by auto
qed

subsection \<open>Responses\<close>

definition response_lines :: "http_response \<Rightarrow> rstr list" where
  "response_lines r =
     (str ''HTTP/1.1 '' @ chars (dec_digits (rs_status r)) @ str '' '' @ str (reason (rs_status r))) # map header_text (rs_headers r) @
     (if list_ex (\<lambda>(name, _). to_lower name = str ''content-length'') (rs_headers r) then [] else length_lines (length (rs_body r))) @
     [str ''Connection: close'']"

lemma rs_encode_msg: "rs_encode r = msg_bytes (response_lines r) (rs_body r)"
  by (simp add: rs_encode_def msg_bytes_def response_lines_def header_line_text length_lines_def comp_def)

lemma response_headers_plain:
  "\<forall>h \<in> set hs. plain_header h \<Longrightarrow>
   response_headers max_body (map header_text hs @ ls) acc cl ch = response_headers max_body ls (acc @ map norm_header hs) cl ch"
proof (induction hs arbitrary: acc)
  case (Cons h hs)
  obtain n v where nv: "norm_header h = (n, v)" by fastforce
  then have "n \<noteq> str ''content-length''" "n \<noteq> str ''transfer-encoding''" using Cons.prems by (auto simp: plain_header_def)
  then show ?case using parse_plain [of h] Cons nv by (simp add: Let_def)
qed simp

lemma response_headers_tail:
  assumes "n \<le> max_body" "n \<le> usize_max"
  shows "response_headers max_body (length_lines n @ [str ''Connection: close'']) acc None False =
    Inr (acc @ [(str ''content-length'', chars (dec_digits n)), (str ''connection'', str ''close'')], Some n, False)"
proof -
  have ne: "str ''content-length'' \<noteq> str ''transfer-encoding''" by code_simp
  show ?thesis
    using assms response_headers_plain [of "[(str ''Connection'', str ''close'')]" max_body "[]"] lit_headers(1,2) decimal_dec [OF assms(2)]
      parse_length_line [of n] ne
    by (simp add: length_lines_def close_line_header Let_def)
qed

lemma parse_u16_dec: "n \<le> 65535 \<Longrightarrow> parse_u16 (chars (dec_digits n)) = Some n"
proof -
  have a: "\<forall>b \<in> set (dec_digits n). b < 0x80" using dec_digits_is_digit by (fastforce simp: is_digit_def word_le_nat_alt word_less_nat_alt)
  obtain c cs where c: "chars (dec_digits n) = c # cs" by (cases "chars (dec_digits n)") (auto simp: chars_def)
  then have "c \<noteq> 43" using dec_chars [of c n] by auto
  then have "(case chars (dec_digits n) of c # r \<Rightarrow> if c = 43 then r else chars (dec_digits n) | [] \<Rightarrow> []) = chars (dec_digits n)" using c by simp
  then show "n \<le> 65535 \<Longrightarrow> parse_u16 (chars (dec_digits n)) = Some n"
    using dec_digits_is_digit str_bytes_chars [OF a] by (simp add: parse_u16_def list_all_iff)
qed

lemma parse_status_line: "n \<le> 65535 \<Longrightarrow> parse_status (str ''HTTP/1.1 '' @ chars (dec_digits n) @ str '' '' @ s) = Inr n"
proof -
  assume n: "n \<le> 65535"
  have l: "str ''HTTP/1.1 '' @ chars (dec_digits n) @ str '' '' @ s = str ''HTTP/1.1'' @ 32 # chars (dec_digits n) @ 32 # s" by (simp add: str_def)
  have "32 \<notin> set (str ''HTTP/1.1'')" by code_simp
  moreover have "32 \<notin> set (chars (dec_digits n))" using dec_chars by fastforce
  ultimately have "split_on 32 (str ''HTTP/1.1 '' @ chars (dec_digits n) @ str '' '' @ s) = str ''HTTP/1.1'' # chars (dec_digits n) # split_on 32 s"
    unfolding l by (simp add: split_on_append)
  moreover have "starts_with (str ''HTTP/1.'') (str ''HTTP/1.1'')" by code_simp
  ultimately show ?thesis using parse_u16_dec [OF n] by (simp add: parse_status_def)
qed

lemma reason_good: "good_line (str '' '' @ str (reason n))"
proof -
  have "\<forall>c \<in> set (reason n). of_char c \<noteq> (13 :: nat) \<and> of_char c \<noteq> (10 :: nat) \<and> is_scalar (of_char c)"
    unfolding reason_def by (cases "n = 500") (simp_all add: is_scalar_def)
  then have "\<forall>c \<in> set (str (reason n)). c \<noteq> 13 \<and> c \<noteq> 10 \<and> is_scalar c" by (auto simp: str_def)
  then show ?thesis using good_line_lits(5) by (auto simp: good_line_append good_line_def)
qed

text \<open>The daemon's answers arrive intact: a response whose headers are single clean lines that do not frame
  the body is read back, however the bytes arrive, with its status, its headers (names in lower case, values
  trimmed) followed by the length and close headers, and exactly its body; nothing of the stream is left.\<close>

theorem http_response_roundtrip:
  assumes "rs_status r \<le> 65535" "rust_headers (rs_headers r)" "\<forall>h \<in> set (rs_headers r). clean (fst h) \<and> clean (snd h) \<and> plain_header h"
    and "\<forall>h \<in> set (rs_headers r). to_lower (fst h) \<noteq> str ''content-length''"
    and "length (msg_bytes (response_lines r) []) \<le> MAX_HEADER_BYTES + 1" and "rd_bytes rd = rs_encode r"
    and "length (rs_body r) \<le> max_body" "length (rs_body r) \<le> usize_max"
  shows "\<exists>rd'. rd_bytes rd' = [] \<and> read_response rd max_body =
    Inr (\<lparr>rs_status = rs_status r,
          rs_headers = map norm_header (rs_headers r) @
            [(str ''content-length'', chars (dec_digits (length (rs_body r)))), (str ''connection'', str ''close'')],
          rs_body = rs_body r\<rparr>, rd')"
proof -
  let ?n = "length (rs_body r)" and ?first = "str ''HTTP/1.1 '' @ chars (dec_digits (rs_status r)) @ str '' '' @ str (reason (rs_status r))"
  have "\<not> list_ex (\<lambda>(name, _). to_lower name = str ''content-length'') (rs_headers r)" using assms(4) by (auto simp: list_ex_iff)
  then have lines: "response_lines r = ?first # map header_text (rs_headers r) @ length_lines ?n @ [str ''Connection: close'']"
    by (simp add: response_lines_def)
  have h: "\<forall>h \<in> set (rs_headers r). good_line (header_text h)"
    using assms(2,3) header_text_good by (fastforce simp: rust_headers_def)
  have "good_line ?first" using good_line_lits(7) good_line_dec reason_good by (simp add: good_line_append)
  then have good: "\<forall>l \<in> set (response_lines r). good_line l"
    using h good_line_lits good_line_dec unfolding lines by (auto simp: length_lines_def good_line_append)
  have b: "rd_bytes rd = msg_bytes (response_lines r) (rs_body r)" using assms(6) by (simp add: rs_encode_msg)
  obtain head rd1 s where r: "read_head rd = Inr (head, rd1)" "rd_bytes rd1 = rs_body r" "from_utf8 head = Some s" "split_crlf s = response_lines r"
    using read_head_msg [OF _ good b assms(5)] lines by (metis list.distinct(1))
  obtain rd2 where "read_full ?n rd1 = Inr (rs_body r, rd2)" "rd_bytes rd2 = []" using read_full_ok [of ?n rd1] r(2) by auto
  moreover have "response_headers max_body (tl (response_lines r)) [] None False =
      Inr (map norm_header (rs_headers r) @ [(str ''content-length'', chars (dec_digits ?n)), (str ''connection'', str ''close'')], Some ?n, False)"
    unfolding lines list.sel using response_headers_plain [of "rs_headers r"] response_headers_tail [OF assms(7,8)] assms(3) by simp
  moreover have "parse_status (hd (response_lines r)) = Inr (rs_status r)" unfolding lines using parse_status_line [OF assms(1)] by simp
  ultimately show ?thesis using r by (intro exI [of _ rd2]) (simp add: read_response_def Let_def read_body_def)
qed

theorem http_response_roundtrip_witness:
  "\<exists>rd'. rd_bytes rd' = [] \<and>
     read_response \<lparr>rd_bytes = rs_encode (rs_new 404 (str ''text/plain'') [104, 105]), rd_sizes = [2], rd_end = None\<rparr> 10 =
       Inr (\<lparr>rs_status = 404, rs_headers = [(str ''content-type'', str ''text/plain''), (str ''content-length'', str ''2''), (str ''connection'', str ''close'')],
             rs_body = [104, 105]\<rparr>, rd')"
proof -
  let ?r = "rs_new 404 (str ''text/plain'') [104, 105]"
  have "rs_status ?r \<le> 65535" "rust_headers (rs_headers ?r)" "\<forall>h \<in> set (rs_headers ?r). clean (fst h) \<and> clean (snd h) \<and> plain_header h"
    "\<forall>h \<in> set (rs_headers ?r). to_lower (fst h) \<noteq> str ''content-length''" "length (msg_bytes (response_lines ?r) []) \<le> MAX_HEADER_BYTES + 1"
    "length (rs_body ?r) \<le> 10" "length (rs_body ?r) \<le> usize_max" by code_simp+
  moreover have "map norm_header (rs_headers ?r) = [(str ''content-type'', str ''text/plain'')]" "chars (dec_digits (length (rs_body ?r))) = str ''2''" by code_simp+
  moreover have "rs_body ?r = [104, 105]" "rs_status ?r = 404" by (simp_all add: rs_new_def)
  ultimately show ?thesis
    using http_response_roundtrip [of ?r "\<lparr>rd_bytes = rs_encode ?r, rd_sizes = [2], rd_end = None\<rparr>" 10] by auto
qed

subsection \<open>Chunked bodies\<close>

fun hex_digits :: "nat \<Rightarrow> bytes" where
  "hex_digits n = (if n < 16 then [HEX ! n] else hex_digits (n div 16) @ [HEX ! (n mod 16)])"

declare hex_digits.simps [simp del]

lemma HEX_list: "HEX = [48, 49, 50, 51, 52, 53, 54, 55, 56, 57, 65, 66, 67, 68, 69, 70]"
  by (simp add: HEX_def ascii_def)

definition hex_symbol :: "byte \<Rightarrow> bool" where
  "hex_symbol b \<longleftrightarrow> is_hexdigit b \<and> b < 0x80 \<and> \<not> is_whitespace (unat b) \<and> b \<noteq> 59 \<and> b \<noteq> 13"

lemma HEX_symbols: "\<forall>b \<in> set HEX. hex_symbol b"
  unfolding HEX_list by code_simp

lemma HEX_values: "map hex_val HEX = map (Some \<circ> of_nat) [0..<16]"
  unfolding HEX_list by code_simp

lemma HEX_ok: "k < 16 \<Longrightarrow> hex_val (HEX ! k) = Some (of_nat k) \<and> hex_symbol (HEX ! k)"
proof -
  assume k: "k < 16"
  then have l: "k < length HEX" by (simp add: HEX_list)
  have "map hex_val HEX ! k = map (Some \<circ> of_nat) [0..<16] ! k" by (simp only: HEX_values)
  then have "hex_val (HEX ! k) = Some (of_nat k)" using k nth_map [OF l, of hex_val] nth_map [of k "[0..<16]" "Some \<circ> of_nat"] nth_upt [of 0 k 16]
    by (simp only: length_upt comp_def) simp
  then show ?thesis using HEX_symbols nth_mem [OF l] by blast
qed

lemma hex_digits_symbol: "b \<in> set (hex_digits n) \<Longrightarrow> hex_symbol b"
proof (induction n rule: hex_digits.induct)
  case (1 n)
  show ?case using "1.IH" "1.prems" HEX_ok [of n] HEX_ok [of "n mod 16"] by (cases "n < 16") (auto simp: hex_digits.simps [of n])
qed

lemma hex_digits_set: "b \<in> set (hex_digits n) \<Longrightarrow> is_hexdigit b \<and> b < 0x80 \<and> \<not> is_whitespace (unat b) \<and> b \<noteq> 59 \<and> b \<noteq> 13"
  using hex_digits_symbol by (simp add: hex_symbol_def)

lemma hex_number_snoc: "hex_number (ds @ [d]) = 16 * hex_number ds + unat (the (hex_val d))"
  by (simp add: hex_number_def)

lemma hex_number_digits [simp]: "hex_number (hex_digits n) = n"
proof (induction n rule: hex_digits.induct)
  case (1 n)
  show ?case
  proof (cases "n < 16")
    case True
    then show ?thesis using HEX_ok [of n] unat_high [of n] by (simp add: hex_digits.simps [of n] hex_number_def)
  next
    case False
    then have "hex_number (hex_digits (n div 16)) = n div 16" by (rule "1.IH")
    then show ?thesis using False HEX_ok [of "n mod 16"] unat_high [of "n mod 16"] by (simp add: hex_digits.simps [of n] hex_number_snoc)
  qed
qed

lemma hex_digits_nonempty [simp]: "hex_digits n \<noteq> []"
  by (subst hex_digits.simps) simp

lemma length_hex_digits: "n < 16 ^ Suc k \<Longrightarrow> length (hex_digits n) \<le> Suc k"
proof (induction k arbitrary: n)
  case (Suc k)
  show ?case
  proof (cases "n < 16")
    case False
    have "n div 16 < 16 ^ Suc k" using Suc.prems by (simp add: less_mult_imp_div_less mult.commute)
    then show ?thesis using Suc.IH False by (simp add: hex_digits.simps [of n])
  qed (simp add: hex_digits.simps [of n])
next
  case 0
  then show ?case by (simp add: hex_digits.simps [of n])
qed

text \<open>A chunk as a sender writes it, perhaps with an extension after its size.\<close>

definition chunk_bytes :: "bytes \<times> bytes \<Rightarrow> bytes" where
  "chunk_bytes c = hex_digits (length (snd c)) @ fst c @ [13, 10] @ snd c @ [13, 10]"

definition chunk_ext :: "bytes \<Rightarrow> bool" where
  "chunk_ext e \<longleftrightarrow> (e = [] \<or> hd e = 59) \<and> 13 \<notin> set e \<and> length e \<le> 1000"

lemma chunk_size_line:
  assumes "n \<le> usize_max" "chunk_ext e"
  shows "chunk_size (hex_digits n @ e) = Inr n"
proof -
  have f: "59 \<notin> set (hex_digits n)" using hex_digits_set by blast
  have "hd (split_on 59 (hex_digits n @ e)) = hex_digits n"
  proof (cases e)
    case Nil
    then show ?thesis using split_on_join [of "[hex_digits n]" 59] f by simp
  next
    case (Cons c e')
    then show ?thesis using assms(2) split_on_append [OF f] by (simp add: chunk_ext_def)
  qed
  moreover have a: "str_bytes (chars (hex_digits n)) = hex_digits n" using hex_digits_set by (intro str_bytes_chars) blast
  moreover have "rust_str (chars (hex_digits n))"
    using hex_digits_set by (fastforce simp: rust_str_def chars_def is_scalar_def word_less_nat_alt)
  then have "from_utf8 (hex_digits n) = Some (chars (hex_digits n))" using a by (simp add: from_utf8_iff rust_str_def)
  moreover have "trim (chars (hex_digits n)) = chars (hex_digits n)" by (rule trim_id) (use hex_digits_set in \<open>auto simp: chars_def\<close>)
  moreover have "hex (chars (hex_digits n)) = Some n" using a assms(1) hex_digits_set by (simp add: hex_def list_all_iff)
  ultimately show ?thesis by (simp add: chunk_size_def)
qed

lemma read_line_loop_reads:
  assumes "rd_bytes rd = l @ [13, 10] @ s" "13 \<notin> set l" "length buf + length l < cap" "13 \<notin> set buf"
  shows "\<exists>rd'. read_line_loop buf cap rd = Inr (buf @ l, rd') \<and> rd_bytes rd' = s \<and> rd_end rd' = rd_end rd"
  using assms
proof (induction l arbitrary: buf rd)
  case Nil
  obtain rd1 where r1: "read_some 1 rd = Inr ([13], rd1)" "rd_bytes rd1 = 10 # s" "rd_end rd1 = rd_end rd" using read_some_one [of rd 13 "10 # s"] Nil.prems(1) by auto
  obtain rd2 where r2: "read_some 1 rd1 = Inr ([10], rd2)" "rd_bytes rd2 = s" "rd_end rd2 = rd_end rd1" using read_some_one [of rd1 10 s] r1(2) by auto
  have n: "strip_suffix [13, 10] (buf @ [13]) = None"
  proof (rule ccontr)
    assume "strip_suffix [13, 10] (buf @ [13]) \<noteq> None"
    then obtain k where "buf @ [13] = k @ [13, 10]" by (auto simp: strip_suffix_Some)
    from arg_cong [OF this, of last] show False by simp
  qed
  have "strip_suffix [13, 10] ((buf @ [13]) @ [10]) = Some buf" by (simp add: strip_suffix_Some)
  then show ?case using r1 r2 n Nil.prems(3) by (simp add: read_line_loop.simps [of buf] read_line_loop.simps [of "buf @ [13]"] Let_def)
next
  case (Cons b l)
  obtain rd1 where r1: "read_some 1 rd = Inr ([b], rd1)" "rd_bytes rd1 = l @ [13, 10] @ s" "rd_end rd1 = rd_end rd"
    using read_some_one [of rd b "l @ [13, 10] @ s"] Cons.prems(1) by auto
  have "strip_suffix [13, 10] (buf @ [b]) = None"
  proof (rule ccontr)
    assume "strip_suffix [13, 10] (buf @ [b]) \<noteq> None"
    then obtain k where "buf @ [b] = k @ [13, 10]" by (auto simp: strip_suffix_Some)
    then have "13 \<in> set (buf @ [b])" by simp
    then show False using Cons.prems by simp
  qed
  moreover have "\<exists>rd'. read_line_loop (buf @ [b]) cap rd1 = Inr ((buf @ [b]) @ l, rd') \<and> rd_bytes rd' = s \<and> rd_end rd' = rd_end rd1"
    using Cons.prems r1 by (intro Cons.IH) auto
  ultimately show ?case using r1 Cons.prems(3) by (simp add: read_line_loop.simps [of buf] Let_def)
qed

lemma read_line_reads:
  assumes "rd_bytes rd = l @ [13, 10] @ s" "13 \<notin> set l" "length l < cap"
  obtains rd' where "read_line rd cap = Inr (l, rd')" "rd_bytes rd' = s" "rd_end rd' = rd_end rd"
  using read_line_loop_reads [of rd l s "[]" cap] assms by (auto simp: read_line_def)

lemma chunk_line_room: "Suc 0 < MAX_CHUNK_LINE" "0 < MAX_CHUNK_LINE"
  by (simp_all add: MAX_CHUNK_LINE_def)

lemma read_chunks_reads:
  assumes "\<forall>c \<in> set cs. chunk_ext (fst c) \<and> snd c \<noteq> []" "length body + length (concat (map snd cs)) \<le> max_body" "max_body \<le> usize_max"
    and "rd_bytes rd = concat (map chunk_bytes cs) @ [48, 13, 10] @ s"
  shows "\<exists>rd'. read_chunks body max_body rd = Inr (body @ concat (map snd cs), rd') \<and> rd_bytes rd' = s \<and> rd_end rd' = rd_end rd"
  using assms
proof (induction cs arbitrary: body rd)
  case Nil
  then have "rd_bytes rd = [48] @ [13, 10] @ s" by simp
  then obtain rd1 where r: "read_line rd MAX_CHUNK_LINE = Inr ([48], rd1)" "rd_bytes rd1 = s" "rd_end rd1 = rd_end rd"
    by (rule read_line_reads [where cap = MAX_CHUNK_LINE]) (use chunk_line_room in auto)
  moreover have "chunk_size [48] = Inr 0" by code_simp
  ultimately show ?case by (simp add: read_chunks.simps [of body])
next
  case (Cons c cs)
  let ?n = "length (snd c)"
  have c: "chunk_ext (fst c)" "snd c \<noteq> []" using Cons.prems(1) by auto
  have n: "?n \<le> usize_max" using Cons.prems(2,3) by simp
  have "?n < 16 ^ Suc 15" using n by (simp add: usize_max_def)
  then have "length (hex_digits ?n) \<le> Suc 15" by (rule length_hex_digits)
  then have l: "13 \<notin> set (hex_digits ?n @ fst c)" "length (hex_digits ?n @ fst c) < MAX_CHUNK_LINE"
    using hex_digits_set c(1) by (auto simp: chunk_ext_def MAX_CHUNK_LINE_def)
  let ?rest = "concat (map chunk_bytes cs) @ [48, 13, 10] @ s"
  have "rd_bytes rd = (hex_digits ?n @ fst c) @ [13, 10] @ (snd c @ [13, 10] @ ?rest)" using Cons.prems(4) by (simp add: chunk_bytes_def [of c])
  then obtain rd1 where r1: "read_line rd MAX_CHUNK_LINE = Inr (hex_digits ?n @ fst c, rd1)" "rd_bytes rd1 = snd c @ [13, 10] @ ?rest" "rd_end rd1 = rd_end rd"
    using l by (rule read_line_reads)
  obtain rd2 where r2: "read_full ?n rd1 = Inr (snd c, rd2)" "rd_bytes rd2 = [] @ [13, 10] @ ?rest" "rd_end rd2 = rd_end rd"
    using read_full_ok [of ?n rd1] r1(2,3) by auto
  from r2(2) obtain rd3 where r3: "read_line rd2 MAX_CHUNK_LINE = Inr ([], rd3)" "rd_bytes rd3 = ?rest" "rd_end rd3 = rd_end rd2"
    by (rule read_line_reads [where cap = MAX_CHUNK_LINE]) (use chunk_line_room in auto)
  have "\<not> usize_sat (length body + ?n) > max_body" using Cons.prems(2) by (simp add: usize_sat_def)
  then have "read_chunks body max_body rd = read_chunks (body @ snd c) max_body rd3"
    using r1(1) r2(1) r3(1) chunk_size_line [OF n c(1)] c(2) by (simp add: read_chunks.simps [of body])
  moreover have "\<exists>rd'. read_chunks (body @ snd c) max_body rd3 = Inr ((body @ snd c) @ concat (map snd cs), rd') \<and> rd_bytes rd' = s \<and> rd_end rd' = rd_end rd3"
    using Cons.prems r3(2) by (intro Cons.IH) auto
  ultimately show ?case using r3(3) r2(3) by auto
qed

text \<open>A chunked body is put back together: chunks of any non-zero sizes, each with its size in hexadecimal and
  perhaps an extension, are delivered as their concatenation when it is within the limit, however
  the bytes arrive, and the stream is left just after the closing blank line.\<close>

theorem chunked_body_reassembled:
  assumes "\<forall>c \<in> set cs. chunk_ext (fst c) \<and> snd c \<noteq> []" "length (concat (map snd cs)) \<le> max_body" "max_body \<le> usize_max"
    and "rd_bytes rd = concat (map chunk_bytes cs) @ [48, 13, 10] @ [13, 10] @ s"
  shows "\<exists>rd'. read_chunked_body rd max_body = Inr (concat (map snd cs), rd') \<and> rd_bytes rd' = s"
proof -
  obtain rd1 where r1: "read_chunks [] max_body rd = Inr (concat (map snd cs), rd1)" "rd_bytes rd1 = [] @ [13, 10] @ s"
    using read_chunks_reads [of cs "[]" max_body rd "[13, 10] @ s"] assms by auto
  from r1(2) obtain rd2 where "read_line rd1 MAX_CHUNK_LINE = Inr ([], rd2)" "rd_bytes rd2 = s"
    by (rule read_line_reads [where cap = MAX_CHUNK_LINE]) (use chunk_line_room in auto)
  then show ?thesis using r1(1) by (simp add: read_chunked_body_def read_trailers.simps [of 0])
qed

theorem chunked_body_reassembled_witness:
  "\<exists>rd'. read_chunked_body \<lparr>rd_bytes = ascii ''2;x=1'' @ [13, 10, 104, 105, 13, 10] @ ascii ''1'' @ [13, 10, 33, 13, 10] @ [48, 13, 10] @ [13, 10] @ [7],
     rd_sizes = [3, 1], rd_end = None\<rparr> 5 = Inr ([104, 105, 33], rd') \<and> rd_bytes rd' = [7]"
proof -
  let ?cs = "[(ascii '';x=1'', [104, 105]), ([], [33])]"
  have "\<forall>c \<in> set ?cs. chunk_ext (fst c) \<and> snd c \<noteq> []" "length (concat (map snd ?cs)) \<le> 5" "5 \<le> usize_max" by code_simp+
  moreover have "ascii ''2;x=1'' @ [13, 10, 104, 105, 13, 10] @ ascii ''1'' @ [13, 10, 33, 13, 10] @ [48, 13, 10] @ [13, 10] @ [7] =
    concat (map chunk_bytes ?cs) @ [48, 13, 10] @ [13, 10] @ [7]" by code_simp
  moreover have "concat (map snd ?cs) = [104, 105, 33]" by simp
  ultimately show ?thesis using chunked_body_reassembled [of ?cs 5] by (metis reader.select_convs(1))
qed

subsection \<open>Arrival does not matter\<close>

text \<open>Two readers that deliver the same bytes and end alike, in whatever portions.\<close>

definition same :: "reader \<Rightarrow> reader \<Rightarrow> bool" where
  "same rd rd' \<longleftrightarrow> rd_bytes rd = rd_bytes rd' \<and> rd_end rd = rd_end rd'"

abbreviation alike :: "'e + 'a \<times> reader \<Rightarrow> 'e + 'a \<times> reader \<Rightarrow> bool" where
  "alike \<equiv> rel_sum (=) (rel_prod (=) same)"

lemma alike_cases:
  assumes "alike x y"
  obtains (err) e where "x = Inl e" "y = Inl e" | (ok) a r s where "x = Inr (a, r)" "y = Inr (a, s)" "same r s"
  using assms by (cases x; cases y) auto

lemma alike_read_one: "same rd rd' \<Longrightarrow> alike (read_some 1 rd) (read_some 1 rd')"
  by (auto simp: same_def read_some_def Let_def split: list.splits)

lemma alike_read_head_loop: "same rd rd' \<Longrightarrow> alike (read_head_loop buf rd) (read_head_loop buf rd')"
proof (induction buf rd arbitrary: rd' rule: read_head_loop.induct)
  case (1 buf rd)
  show ?case
  proof (cases "length buf > MAX_HEADER_BYTES")
    case True
    then show ?thesis by (simp add: read_head_loop.simps [of buf])
  next
    case False
    from alike_read_one [OF "1.prems"] show ?thesis
    proof (cases rule: alike_cases)
      case (ok n r s)
      show ?thesis
      proof (cases "n = [] \<or> strip_suffix [13, 10, 13, 10] (buf @ n) \<noteq> None")
        case False
        then show ?thesis using "1.IH" [OF \<open>\<not> MAX_HEADER_BYTES < length buf\<close> ok(1) refl _ refl _ ok(3)] ok(1,2) \<open>\<not> MAX_HEADER_BYTES < length buf\<close>
          by (simp add: read_head_loop.simps [of buf] Let_def)
      qed (use ok \<open>\<not> MAX_HEADER_BYTES < length buf\<close> in \<open>auto simp: read_head_loop.simps [of buf] Let_def\<close>)
    qed (use False in \<open>simp add: read_head_loop.simps [of buf]\<close>)
  qed
qed

lemma alike_read_line_loop: "same rd rd' \<Longrightarrow> alike (read_line_loop line cap rd) (read_line_loop line cap rd')"
proof (induction line cap rd arbitrary: rd' rule: read_line_loop.induct)
  case (1 line cap rd)
  show ?case
  proof (cases "length line > cap")
    case True
    then show ?thesis by (simp add: read_line_loop.simps [of line])
  next
    case False
    from alike_read_one [OF "1.prems"] show ?thesis
    proof (cases rule: alike_cases)
      case (ok n r s)
      show ?thesis
      proof (cases "n = [] \<or> strip_suffix [13, 10] (line @ n) \<noteq> None")
        case False
        then show ?thesis using "1.IH" [OF \<open>\<not> cap < length line\<close> ok(1) refl _ refl _ ok(3)] ok(1,2) \<open>\<not> cap < length line\<close>
          by (simp add: read_line_loop.simps [of line] Let_def)
      qed (use ok \<open>\<not> cap < length line\<close> in \<open>auto simp: read_line_loop.simps [of line] Let_def\<close>)
    qed (use False in \<open>simp add: read_line_loop.simps [of line]\<close>)
  qed
qed

lemma alike_read_head: "same rd rd' \<Longrightarrow> alike (read_head rd) (read_head rd')"
  by (simp add: read_head_def alike_read_head_loop)

lemma alike_read_line: "same rd rd' \<Longrightarrow> alike (read_line rd cap) (read_line rd' cap)"
  by (simp add: read_line_def alike_read_line_loop)

lemma alike_read_full: "same rd rd' \<Longrightarrow> alike (read_full n rd) (read_full n rd')"
proof (cases "n \<le> length (rd_bytes rd)")
  case True
  assume s: "same rd rd'"
  then have "n \<le> length (rd_bytes rd')" using True by (simp add: same_def)
  from read_full_ok [OF True] read_full_ok [OF this] show ?thesis using s by (auto simp: same_def)
next
  case False
  assume s: "same rd rd'"
  then show ?thesis using False read_full_short [of rd n] read_full_short [of rd' n] by (simp add: same_def end_error_def)
qed

lemma alike_read_chunks: "same rd rd' \<Longrightarrow> alike (read_chunks body max_body rd) (read_chunks body max_body rd')"
proof (induction body max_body rd arbitrary: rd' rule: read_chunks.induct)
  case (1 body max_body rd)
  from alike_read_line [OF "1.prems", of MAX_CHUNK_LINE] show ?case
  proof (cases rule: alike_cases)
    case (ok line r1 s1)
    show ?thesis
    proof (cases "chunk_size line")
      case (Inr sz)
      note cs = Inr
      show ?thesis
      proof (cases "sz = 0 \<or> usize_sat (length body + sz) > max_body")
        case False
        then have f: "sz \<noteq> 0" "\<not> max_body < usize_sat (length body + sz)" by auto
        from alike_read_full [OF ok(3), of sz] show ?thesis
        proof (cases rule: alike_cases)
          case ok2: (ok data r2 s2)
          from alike_read_line [OF ok2(3), of MAX_CHUNK_LINE] show ?thesis
          proof (cases rule: alike_cases)
            case ok3: (ok l r3 s3)
            show ?thesis
            proof (cases "l = []")
              case True
              then show ?thesis using "1.IH" [OF ok(1) refl cs f ok2(1) refl ok3(1) refl _ ok3(3)] ok ok2 ok3 cs f
                by (simp add: read_chunks.simps [of body])
            qed (use ok ok2 ok3 cs f in \<open>simp add: read_chunks.simps [of body]\<close>)
          qed (use ok ok2 cs f in \<open>simp add: read_chunks.simps [of body]\<close>)
        qed (use ok cs f in \<open>simp add: read_chunks.simps [of body]\<close>)
      qed (use ok cs in \<open>auto simp: read_chunks.simps [of body]\<close>)
    qed (use ok in \<open>simp add: read_chunks.simps [of body]\<close>)
  qed (simp add: read_chunks.simps [of body])
qed

lemma alike_read_trailers: "same rd rd' \<Longrightarrow> rel_sum (=) same (read_trailers n rd) (read_trailers n rd')"
proof (induction n rd arbitrary: rd' rule: read_trailers.induct)
  case (1 n rd)
  from alike_read_line [OF "1.prems", of MAX_CHUNK_LINE] show ?case
  proof (cases rule: alike_cases)
    case (ok line r s)
    show ?thesis
    proof (cases "line = [] \<or> usize_sat (n + length line) > MAX_TRAILER_BYTES")
      case False
      then show ?thesis using "1.IH" [OF ok(1) refl _ refl _ ok(3)] ok by (simp add: read_trailers.simps [of n] Let_def)
    qed (use ok in \<open>auto simp: read_trailers.simps [of n] Let_def\<close>)
  qed (simp add: read_trailers.simps [of n])
qed

lemma alike_read_chunked: "same rd rd' \<Longrightarrow> alike (read_chunked_body rd max_body) (read_chunked_body rd' max_body)"
proof -
  assume "same rd rd'"
  from alike_read_chunks [OF this, of "[]" max_body] show ?thesis
  proof (cases rule: alike_cases)
    case (ok b r s)
    from alike_read_trailers [OF ok(3), of 0] show ?thesis
      using ok by (cases "read_trailers 0 r"; cases "read_trailers 0 s") (auto simp: read_chunked_body_def)
  qed (simp add: read_chunked_body_def)
qed

lemma read_to_close_nil:
  obtains rd' where "read_to_close [] max_body rd = (if length (rd_bytes rd) > max_body then Inl BodyTooLarge
     else case rd_end rd of Some e \<Rightarrow> Inl (HttpIo e) | None \<Rightarrow> Inr (rd_bytes rd, rd'))" "rd_bytes rd' = []" "rd_end rd' = rd_end rd"
proof -
  obtain rd' where c: "read_to_close [] max_body rd = (if length ([] :: bytes) + length (rd_bytes rd) > max_body then Inl BodyTooLarge
     else case rd_end rd of Some e \<Rightarrow> Inl (HttpIo e) | None \<Rightarrow> Inr ([] @ rd_bytes rd, rd'))" "rd_bytes rd' = [] \<and> rd_end rd' = rd_end rd"
    using read_to_close_closed [of "[]" max_body rd, OF le0 [THEN ord_eq_le_trans [OF list.size(3)]]] by blast
  show thesis by (rule that [of rd']) (use c in \<open>simp_all split: option.split\<close>)
qed

lemma alike_read_body: "same rd rd' \<Longrightarrow> alike (read_body rd [] cl max_body) (read_body rd' [] cl max_body)"
proof (cases cl)
  case None
  assume s: "same rd rd'"
  obtain r1 where r1: "read_to_close [] max_body rd = (if length (rd_bytes rd) > max_body then Inl BodyTooLarge
     else case rd_end rd of Some e \<Rightarrow> Inl (HttpIo e) | None \<Rightarrow> Inr (rd_bytes rd, r1))" "rd_bytes r1 = []" "rd_end r1 = rd_end rd"
    by (rule read_to_close_nil)
  obtain r2 where r2: "read_to_close [] max_body rd' = (if length (rd_bytes rd') > max_body then Inl BodyTooLarge
     else case rd_end rd' of Some e \<Rightarrow> Inl (HttpIo e) | None \<Rightarrow> Inr (rd_bytes rd', r2))" "rd_bytes r2 = []" "rd_end r2 = rd_end rd'"
    by (rule read_to_close_nil)
  show ?thesis using s None r1 r2 by (auto simp: read_body_def same_def split: option.splits)
next
  case (Some len)
  assume "same rd rd'"
  from alike_read_full [OF this, of len] show ?thesis by (cases rule: alike_cases) (use Some in \<open>auto simp: read_body_def\<close>)
qed

lemma alike_read_response: "same rd rd' \<Longrightarrow> alike (read_response rd max_body) (read_response rd' max_body)"
proof -
  assume "same rd rd'"
  from alike_read_head [OF this] show ?thesis
  proof (cases rule: alike_cases)
    case (ok head r s)
    show ?thesis
    proof (cases "from_utf8 head")
      case u: (Some txt0)
      show ?thesis
      proof (cases "parse_status (hd (split_crlf txt0))")
        case p: (Inr status)
        show ?thesis
        proof (cases "response_headers max_body (tl (split_crlf txt0)) [] None False")
          case h: (Inr t)
          obtain hs cl ch where t: "t = (hs, cl, ch)" by (metis prod_cases3)
          have "alike (if ch then read_chunked_body r max_body else read_body r [] cl max_body)
              (if ch then read_chunked_body s max_body else read_body s [] cl max_body)"
            using alike_read_chunked [OF ok(3)] alike_read_body [OF ok(3)] by simp
          then show ?thesis by (cases rule: alike_cases) (use ok u p h t in \<open>simp_all add: read_response_def Let_def\<close>)
        qed (use ok u p in \<open>simp add: read_response_def Let_def\<close>)
      qed (use ok u in \<open>simp add: read_response_def Let_def\<close>)
    qed (use ok in \<open>simp add: read_response_def\<close>)
  qed (simp add: read_response_def)
qed

text \<open>Limits on what is accepted.\<close>

lemma read_chunks_bound:
  "read_chunks body max_body rd = Inr (b, rd') \<Longrightarrow> length body \<le> max_body \<Longrightarrow> max_body < usize_max \<Longrightarrow> length b \<le> max_body"
proof (induction body max_body rd rule: read_chunks.induct)
  case (1 body max_body rd)
  obtain line rd1 sz where l: "read_line rd MAX_CHUNK_LINE = Inr (line, rd1)" "chunk_size line = Inr sz"
    using "1.prems"(1) by (auto simp: read_chunks.simps [of body] split: sum.splits prod.splits)
  show ?case
  proof (cases "sz = 0")
    case True
    then show ?thesis using l "1.prems" by (simp add: read_chunks.simps [of body])
  next
    case False
    have s: "\<not> usize_sat (length body + sz) > max_body" using l False "1.prems"(1) by (auto simp: read_chunks.simps [of body])
    obtain data rd2 rd3 where d: "read_full sz rd1 = Inr (data, rd2)" "read_line rd2 MAX_CHUNK_LINE = Inr ([], rd3)"
      using l False s "1.prems"(1) by (auto simp: read_chunks.simps [of body] split: sum.splits prod.splits if_splits)
    have "read_chunks (body @ data) max_body rd3 = Inr (b, rd')" using l False s d "1.prems"(1) by (simp add: read_chunks.simps [of body])
    moreover have "length data = sz" using read_full_consumes [OF d(1)] by simp
    moreover have "length body + sz \<le> max_body" using s "1.prems"(3) by (simp add: usize_sat_def min_def split: if_splits)
    ultimately show ?thesis using "1.IH" [OF l(1) refl l(2) False s d(1) refl d(2) refl] "1.prems"(3) by simp
  qed
qed

definition framed_by :: "nat \<Rightarrow> (rstr \<times> rstr) list \<times> nat option \<times> bool \<Rightarrow> bool" where
  "framed_by max_body t \<longleftrightarrow> (case t of (hs, cl, ch) \<Rightarrow>
     (\<forall>v. (str ''content-length'', v) \<in> set hs \<longrightarrow> cl \<noteq> None \<and> decimal v = cl) \<and>
     (\<forall>n. cl = Some n \<longrightarrow> n \<le> max_body) \<and>
     (ch \<longleftrightarrow> (\<exists>v. (str ''transfer-encoding'', v) \<in> set hs \<and> to_lower (trim (last (split_on 44 v))) = str ''chunked'')))"

lemma response_headers_framed:
  "response_headers max_body ls hs cl ch = Inr t \<Longrightarrow> framed_by max_body (hs, cl, ch) \<Longrightarrow> framed_by max_body t"
proof (induction ls arbitrary: hs cl ch)
  case (Cons l ls)
  have ne: "str ''content-length'' \<noteq> str ''transfer-encoding''" by code_simp
  show ?case
  proof (cases "l = []")
    case False
    then obtain n v where p: "parse_header l = Some (n, v)" using Cons.prems(1) by (auto split: option.splits)
    let ?ch = "ch \<or> n = str ''transfer-encoding'' \<and> to_lower (trim (last (split_on 44 v))) = str ''chunked''"
    show ?thesis
    proof (cases "n = str ''content-length''")
      case True
      then obtain k where k: "decimal v = Some k" "k \<le> max_body" "cl = None \<or> cl = Some k"
          "response_headers max_body ls (hs @ [(n, v)]) (Some k) ?ch = Inr t"
        using Cons.prems(1) False p by (auto simp: Let_def split: option.splits if_splits)
      have "framed_by max_body (hs @ [(n, v)], Some k, ?ch)" using Cons.prems(2) k(1-3) True ne by (auto simp: framed_by_def)
      then show ?thesis using Cons.IH [OF k(4)] by simp
    next
      case other: False
      then have k: "response_headers max_body ls (hs @ [(n, v)]) cl ?ch = Inr t" using Cons.prems(1) False p by (simp add: Let_def)
      have "framed_by max_body (hs @ [(n, v)], cl, ?ch)" using Cons.prems(2) other by (auto simp: framed_by_def)
      then show ?thesis using Cons.IH [OF k] by simp
    qed
  qed (use Cons in simp)
qed simp

lemma parse_status_bound: "parse_status l = Inr n \<Longrightarrow> n \<le> 65535"
  by (auto simp: parse_status_def parse_u16_def Let_def split: list.splits if_splits option.splits)

lemma read_response_bound:
  assumes "read_response rd max_body = Inr (r, rd')" "max_body < usize_max"
  shows "length (rs_body r) \<le> max_body \<and> rs_status r \<le> 65535 \<and>
    (\<forall>v. (str ''content-length'', v) \<in> set (rs_headers r) \<longrightarrow>
      (\<nexists>e. (str ''transfer-encoding'', e) \<in> set (rs_headers r) \<and> to_lower (trim (last (split_on 44 e))) = str ''chunked'') \<longrightarrow>
      decimal v = Some (length (rs_body r)))"
proof -
  obtain rd1 txt0 status hs cl ch body where
    p: "parse_status (hd (split_crlf txt0)) = Inr status" "response_headers max_body (tl (split_crlf txt0)) [] None False = Inr (hs, cl, ch)"
      "(if ch then read_chunked_body rd1 max_body else read_body rd1 [] cl max_body) = Inr (body, rd')"
      "r = \<lparr>rs_status = status, rs_headers = hs, rs_body = body\<rparr>"
    using assms(1) by (auto simp: read_response_def Let_def split: sum.splits prod.splits option.splits)
  have f: "framed_by max_body (hs, cl, ch)" by (rule response_headers_framed [OF p(2)]) (simp add: framed_by_def)
  have b: "length body \<le> max_body \<and> (\<not> ch \<longrightarrow> cl \<noteq> None \<longrightarrow> cl = Some (length body))"
  proof (cases ch)
    case True
    then obtain rd2 where "read_chunks [] max_body rd1 = Inr (body, rd2)" using p(3) by (auto simp: read_chunked_body_def split: sum.splits prod.splits)
    then show ?thesis using read_chunks_bound [of "[]" max_body rd1 body rd2] assms(2) True by simp
  next
    case False
    show ?thesis
    proof (cases cl)
      case None
      obtain r1 where "read_to_close [] max_body rd1 = (if length (rd_bytes rd1) > max_body then Inl BodyTooLarge
        else case rd_end rd1 of Some e \<Rightarrow> Inl (HttpIo e) | None \<Rightarrow> Inr (rd_bytes rd1, r1))" by (rule read_to_close_nil)
      then show ?thesis using p(3) False None by (auto simp: read_body_def split: if_splits option.splits)
    next
      case (Some n)
      then have "read_full n rd1 = Inr (body, rd')" using p(3) False by (auto simp: read_body_def split: sum.splits)
      then show ?thesis using read_full_consumes [of n rd1 body rd'] f Some by (simp add: framed_by_def)
    qed
  qed
  then show ?thesis using f parse_status_bound [OF p(1)] p(4) by (auto simp: framed_by_def)
qed

text \<open>C31. What a tracker can make the client accept. A response depends only on the bytes received and on how the
  stream ends, not on the portions they arrive in; its body is never longer than the limit, its status is a
  16-bit number, and a body with a stated length that is not chunked has exactly that length: a
  cut-off body is an error, never a short result.\<close>

theorem http_response_framing:
  assumes "same rd rd'" "max_body < usize_max" "read_response rd max_body = Inr (r, s)"
  shows "(\<exists>s'. read_response rd' max_body = Inr (r, s') \<and> same s s') \<and> length (rs_body r) \<le> max_body \<and> rs_status r \<le> 65535 \<and>
    (\<forall>v. (str ''content-length'', v) \<in> set (rs_headers r) \<longrightarrow>
      (\<nexists>e. (str ''transfer-encoding'', e) \<in> set (rs_headers r) \<and> to_lower (trim (last (split_on 44 e))) = str ''chunked'') \<longrightarrow>
      decimal v = Some (length (rs_body r)))"
  using alike_read_response [OF assms(1), of max_body] read_response_bound [OF assms(3,2)] assms(3)
  by (cases "read_response rd' max_body") auto

theorem http_response_framing_witness:
  "\<exists>s s'. read_response \<lparr>rd_bytes = rs_encode (rs_new 200 (str ''a'') [1, 2]), rd_sizes = [2, 3], rd_end = None\<rparr> 10 =
       Inr (\<lparr>rs_status = 200, rs_headers = [(str ''content-type'', str ''a''), (str ''content-length'', str ''2''), (str ''connection'', str ''close'')],
             rs_body = [1, 2]\<rparr>, s) \<and>
     read_response \<lparr>rd_bytes = rs_encode (rs_new 200 (str ''a'') [1, 2]), rd_sizes = [], rd_end = None\<rparr> 10 =
       Inr (\<lparr>rs_status = 200, rs_headers = [(str ''content-type'', str ''a''), (str ''content-length'', str ''2''), (str ''connection'', str ''close'')],
             rs_body = [1, 2]\<rparr>, s')"
proof -
  have r: "read_response \<lparr>rd_bytes = rs_encode (rs_new 200 (str ''a'') [1, 2]), rd_sizes = [2, 3], rd_end = None\<rparr> 10 =
       Inr (\<lparr>rs_status = 200, rs_headers = [(str ''content-type'', str ''a''), (str ''content-length'', str ''2''), (str ''connection'', str ''close'')],
             rs_body = [1, 2]\<rparr>, \<lparr>rd_bytes = [], rd_sizes = [], rd_end = None\<rparr>)"
    by code_simp
  have "same \<lparr>rd_bytes = b, rd_sizes = x, rd_end = e\<rparr> \<lparr>rd_bytes = b, rd_sizes = y, rd_end = e\<rparr>" for b x y e by (simp add: same_def)
  moreover have "10 < usize_max" by (simp add: usize_max_def)
  ultimately show ?thesis using http_response_framing [OF _ _ r] r by blast
qed

subsection \<open>Percent coding\<close>

text \<open>What the encoder writes never contains a separator of a URL, a request line or a header.\<close>

definition url_safe :: "byte \<Rightarrow> bool" where
  "url_safe b \<longleftrightarrow> is_unreserved b \<or> b = 37 \<or> b \<in> set HEX"

lemma length_HEX: "length HEX = 16"
  by (simp add: HEX_list)

lemma nibbles: "unat (drop_bit 4 b) < 16" "unat (b AND 0x0F) < 16" for b :: byte
proof -
  have "unat b div 16 < 16" using unat_byte_less [of b] by simp
  then show "unat (drop_bit 4 b) < 16" by (simp add: drop_bit_eq_div unat_div_distrib)
  have m: "(0x0F :: byte) = mask 4" by (simp add: mask_eq_exp_minus_1)
  show "unat (b AND 0x0F) < 16"
    unfolding m by (simp add: take_bit_eq_mask [symmetric] unsigned_take_bit_eq) (auto intro: less_le_trans [OF take_bit_nat_less_exp])
qed

lemma hex_pair: "hex_val (HEX ! unat (drop_bit 4 b)) = Some (drop_bit 4 b) \<and> hex_val (HEX ! unat (b AND 0x0F)) = Some (b AND 0x0F) \<and>
    push_bit 4 (drop_bit 4 b) OR (b AND 0x0F) = b" for b :: byte
proof -
  have m: "(0x0F :: byte) = mask 4" by (simp add: mask_eq_exp_minus_1)
  have "push_bit 4 (drop_bit 4 b) OR (b AND 0x0F) = b"
    unfolding m take_bit_eq_mask [symmetric] by (rule bit_eqI) (auto simp: bit_simps)
  then show ?thesis using HEX_ok nibbles [of b] by simp
qed

lemma is_unreserved_37: "\<not> is_unreserved 37"
  by (simp add: is_unreserved_def byte_in_def)

lemma percent_roundtrip: "percent_decode (percent_encode bs @ rest) = bs @ percent_decode rest"
proof (induction bs)
  case (Cons b bs)
  show ?case
  proof (cases "is_unreserved b")
    case True
    then have "b \<noteq> 37" using is_unreserved_37 by blast
    then show ?thesis using Cons True by (simp add: percent_encode_def percent_byte_def)
  next
    case False
    then show ?thesis using Cons hex_pair [of b] by (simp add: percent_encode_def percent_byte_def)
  qed
qed (simp add: percent_encode_def)

lemma percent_encode_safe: "b \<in> set (percent_encode bs) \<Longrightarrow> url_safe b"
  using nibbles by (auto simp: percent_encode_def percent_byte_def url_safe_def length_HEX split: if_splits)

lemma url_safe_not: "url_safe b \<Longrightarrow> b \<noteq> 38 \<and> b \<noteq> 61 \<and> b \<noteq> 63 \<and> b \<noteq> 32 \<and> b \<noteq> 13 \<and> b \<noteq> 10 \<and> b \<noteq> 0 \<and> b < 0x80"
  by (auto simp: url_safe_def is_unreserved_def byte_in_def HEX_list word_le_nat_alt word_less_nat_alt)

end
