(* ===== verification/Magnet.thy ===== *)
theory Magnet
  imports Metainfo Http Addr
begin

text \<open>
  Magnet links (\<^verbatim>\<open>crates/clove-core/src/magnet.rs\<close>). A link is a string of characters; its parameters are split on
  \<^verbatim>\<open>&\<close> and \<^verbatim>\<open>=\<close>, names and trackers are percent-decoded to bytes and read as UTF-8 with
  replacement of what is ill-formed.
\<close>

unbundle bit_operations_syntax

subsection \<open>Parsing\<close>

record magnet =
  mg_info_hash :: bytes
  mg_display_name :: "rstr option"
  mg_trackers :: "rstr list"
  mg_skipped_trackers :: nat

datatype magnet_error = NotMagnet | NoInfoHash | BadInfoHash | ConflictingInfoHash

definition hex_nibble :: "byte \<Rightarrow> magnet_error + byte" where
  "hex_nibble b =
     (if byte_in 48 57 b then Inr (b - 48)
      else if byte_in 97 102 b then Inr (b - 97 + 10)
      else if byte_in 65 70 b then Inr (b - 65 + 10)
      else Inl BadInfoHash)"

text \<open>The loop over the twenty bytes, two digits each.\<close>

fun hex_loop :: "bytes \<Rightarrow> magnet_error + bytes" where
  "hex_loop (a # b # ds) =
     (case hex_nibble a of
        Inl e \<Rightarrow> Inl e
      | Inr hi \<Rightarrow>
          (case hex_nibble b of
             Inl e \<Rightarrow> Inl e
           | Inr lo \<Rightarrow> (case hex_loop ds of Inl e \<Rightarrow> Inl e | Inr out \<Rightarrow> Inr ((push_bit 4 hi OR lo) # out))))"
| "hex_loop _ = Inr []"

definition parse_btih :: "rstr \<Rightarrow> magnet_error + bytes" where
  "parse_btih v =
     (let val = str_bytes v in
      if length val = 40 then hex_loop val
      else if length val = 32 then
        (case base32_decode (map ascii_lower val) of
           None \<Rightarrow> Inl BadInfoHash
         | Some bytes \<Rightarrow> if length bytes = 20 then Inr bytes else Inl BadInfoHash)
      else Inl BadInfoHash)"

definition decode_text :: "rstr \<Rightarrow> rstr" where
  "decode_text v = from_utf8_lossy (percent_decode (str_bytes v))"

record magnet_state =
  ms_info_hash :: "bytes option"
  ms_display_name :: "rstr option"
  ms_trackers :: "rstr list"
  ms_skipped :: nat

definition magnet_param :: "rstr \<Rightarrow> rstr \<Rightarrow> magnet_state \<Rightarrow> magnet_error + magnet_state" where
  "magnet_param key val s =
     (if key = str ''xt'' then
        (case strip_prefix (str ''urn:btih:'') val of
           None \<Rightarrow> Inr s
         | Some h \<Rightarrow>
             (case parse_btih h of
                Inl e \<Rightarrow> Inl e
              | Inr hash \<Rightarrow>
                  if ms_info_hash s \<noteq> None \<and> ms_info_hash s \<noteq> Some hash then Inl ConflictingInfoHash
                  else Inr (s\<lparr>ms_info_hash := Some hash\<rparr>)))
      else if key = str ''dn'' then Inr (s\<lparr>ms_display_name := Some (decode_text val)\<rparr>)
      else if key = str ''tr'' then
        (let url = decode_text val in
         if is_i2p_tracker (str_bytes url) \<and> length (ms_trackers s) < MAX_TRACKERS
         then Inr (s\<lparr>ms_trackers := ms_trackers s @ [url]\<rparr>)
         else Inr (s\<lparr>ms_skipped := ms_skipped s + 1\<rparr>))
      else Inr s)"

fun magnet_loop :: "rstr list \<Rightarrow> magnet_state \<Rightarrow> magnet_error + magnet_state" where
  "magnet_loop [] s = Inr s"
| "magnet_loop (pair # pairs) s =
     (case split_once 61 pair of
        None \<Rightarrow> magnet_loop pairs s
      | Some (key, val) \<Rightarrow> (case magnet_param key val s of Inl e \<Rightarrow> Inl e | Inr s' \<Rightarrow> magnet_loop pairs s'))"

definition magnet_parse :: "rstr \<Rightarrow> magnet_error + magnet" where
  "magnet_parse uri =
     (case strip_prefix (str ''magnet:?'') uri of
        None \<Rightarrow> Inl NotMagnet
      | Some query \<Rightarrow>
          (case magnet_loop (split_on 38 query) \<lparr>ms_info_hash = None, ms_display_name = None, ms_trackers = [], ms_skipped = 0\<rparr> of
             Inl e \<Rightarrow> Inl e
           | Inr s \<Rightarrow>
               (case ms_info_hash s of
                  None \<Rightarrow> Inl NoInfoHash
                | Some h \<Rightarrow> Inr \<lparr>mg_info_hash = h, mg_display_name = ms_display_name s, mg_trackers = ms_trackers s,
                    mg_skipped_trackers = ms_skipped s\<rparr>)))"

subsection \<open>The info-hash\<close>

definition hex_lower :: bytes where
  "hex_lower = ascii ''0123456789abcdef''"

text \<open>A hash in hexadecimal, as everyone prints it.\<close>

definition hex_text :: "bytes \<Rightarrow> bytes" where
  "hex_text h = concat (map (\<lambda>b. [hex_lower ! unat (drop_bit 4 b), hex_lower ! unat (b AND 0x0F)]) h)"

lemma hex_lower_list: "hex_lower = [48, 49, 50, 51, 52, 53, 54, 55, 56, 57, 97, 98, 99, 100, 101, 102]"
  by (simp add: hex_lower_def ascii_def)

lemma unat_hex_lower: "k < 16 \<Longrightarrow> unat (hex_lower ! k) = (if k < 10 then 48 + k else 87 + k)"
proof -
  assume k: "k < 16"
  have l: "length hex_lower = 16" by (simp add: hex_lower_list)
  have "map unat hex_lower = map (\<lambda>k. if k < 10 then 48 + k else 87 + k) [0..<16]" unfolding hex_lower_list by code_simp
  from arg_cong [OF this, of "\<lambda>xs. xs ! k"] show ?thesis
    using k l nth_map [of k hex_lower unat] nth_map [of k "[0..<16]" "\<lambda>k. if k < 10 then 48 + k else 87 + k"] nth_upt [of 0 k 16]
    by (simp only: length_upt) simp
qed

lemma unat_ascii_lower: "unat (ascii_lower d) = (if 65 \<le> unat d \<and> unat d \<le> 90 then unat d + 32 else unat d)"
  by (auto simp: ascii_lower_def byte_in_def word_le_nat_alt unat_word_ariths)

lemma hex_nibble_unat:
  "hex_nibble d = Inr v \<longleftrightarrow> (48 \<le> unat d \<and> unat d \<le> 57 \<and> unat v = unat d - 48) \<or>
     (97 \<le> unat d \<and> unat d \<le> 102 \<and> unat v = unat d - 87) \<or> (65 \<le> unat d \<and> unat d \<le> 70 \<and> unat v = unat d - 55)"
proof -
  have s: "unat (d - of_nat k) = unat d - k" if "k \<le> unat d" "k < 256" for k
    using that unat_high [of k] by (simp add: unat_sub word_le_nat_alt)
  have 1: "unat (d - 48) = unat d - 48" if "48 \<le> unat d" using s [of 48] that by simp
  have 2: "unat (d - 97 + 10) = unat d - 87" if "97 \<le> unat d" "unat d \<le> 102" using s [of 87] that by simp
  have 3: "unat (d - 65 + 10) = unat d - 55" if "65 \<le> unat d" "unat d \<le> 70" using s [of 55] that by simp
  show ?thesis unfolding hex_nibble_def byte_in_def using 1 2 3
    by (auto simp: word_le_nat_alt word_unat_eq_iff)
qed

lemma hex_nibble_range: "hex_nibble d = Inr v \<longleftrightarrow> unat v < 16 \<and> ascii_lower d = hex_lower ! unat v"
proof -
  have "ascii_lower d = hex_lower ! unat v \<longleftrightarrow> unat (ascii_lower d) = unat (hex_lower ! unat v)" by (simp add: word_unat_eq_iff)
  then show ?thesis unfolding hex_nibble_unat unat_ascii_lower using unat_hex_lower [of "unat v"] by (cases "unat v < 16") auto
qed

lemma hex_nibble_error: "hex_nibble d = Inl e \<Longrightarrow> e = BadInfoHash"
  by (simp add: hex_nibble_def split: if_splits)

lemma nibble_pair: "unat hi < 16 \<Longrightarrow> unat lo < 16 \<Longrightarrow> drop_bit 4 (push_bit 4 hi OR lo) = hi \<and> (push_bit 4 hi OR lo) AND 0x0F = lo" for hi lo :: byte
proof -
  assume a: "unat hi < 16" "unat lo < 16"
  have low: "\<not> bit x i" if "unat x < 16" "4 \<le> i" for x :: byte and i
    using high_bits [of "unat x" 4 i] that by (simp add: bit_unsigned_iff)
  have m: "(0x0F :: byte) = mask 4" by (simp add: mask_eq_exp_minus_1)
  show ?thesis unfolding m using low [OF a(1)] low [OF a(2)]
    by (intro conjI bit_eqI) (auto simp: bit_simps dest: bit_imp_le_length intro: ccontr simp flip: not_le)
qed

lemma hex_loop_exact: "length ds = 2 * n \<Longrightarrow> hex_loop ds = Inr h \<longleftrightarrow> length h = n \<and> map ascii_lower ds = hex_text h"
proof (induction ds arbitrary: h n rule: hex_loop.induct)
  case (1 a b ds)
  then obtain m where m: "n = Suc m" "length ds = 2 * m" by (cases n) auto
  show ?case
  proof
    assume l: "hex_loop (a # b # ds) = Inr h"
    then obtain hi lo out where o1: "hex_nibble a = Inr hi" "hex_nibble b = Inr lo" "hex_loop ds = Inr out" "h = (push_bit 4 hi OR lo) # out"
      by (auto split: sum.splits)
    have "unat hi < 16" "ascii_lower a = hex_lower ! unat hi" "unat lo < 16" "ascii_lower b = hex_lower ! unat lo"
      using o1(1,2) hex_nibble_range by auto
    moreover have "length out = m \<and> map ascii_lower ds = hex_text out" using "1.IH" [OF o1(1,2) m(2), of out] o1(3) by simp
    ultimately show "length h = n \<and> map ascii_lower (a # b # ds) = hex_text h"
      using nibble_pair [of hi lo] o1(4) m(1) by (simp add: hex_text_def)
  next
    assume r: "length h = n \<and> map ascii_lower (a # b # ds) = hex_text h"
    then obtain c out where h: "h = c # out" using m(1) by (cases h) auto
    let ?hi = "drop_bit 4 c" and ?lo = "c AND 0x0F"
    have "hex_nibble a = Inr ?hi" "hex_nibble b = Inr ?lo" using r h nibbles [of c] by (simp_all add: hex_nibble_range hex_text_def)
    moreover from this have "hex_loop ds = Inr out" using "1.IH" [OF _ _ m(2), of ?hi ?lo out] r h m(1) by (simp add: hex_text_def)
    ultimately show "hex_loop (a # b # ds) = Inr h" using hex_pair [of c] h by simp
  qed
qed (auto simp: hex_text_def)

lemma length_hex_text: "length (hex_text h) = 2 * length h"
  by (induction h) (simp_all add: hex_text_def)

text \<open>Both spellings of an info-hash: forty hexadecimal digits or thirty-two base32 symbols, in either case.\<close>

lemma parse_btih_exact:
  "parse_btih v = Inr h \<longleftrightarrow> length h = 20 \<and> (map ascii_lower (str_bytes v) = hex_text h \<or> map ascii_lower (str_bytes v) = base32_encode h)"
proof -
  let ?b = "str_bytes v" and ?l = "map ascii_lower (str_bytes v)"
  consider (hex) "length ?b = 40" | (b32) "length ?b = 32" | (bad) "length ?b \<noteq> 40" "length ?b \<noteq> 32" by blast
  then show ?thesis
  proof cases
    case hex
    have "?l \<noteq> base32_encode h" if "length h = 20" using hex that length_base32_encode [of h] by (auto dest: arg_cong [of _ _ length])
    then show ?thesis using hex hex_loop_exact [of ?b 20 h] by (auto simp: parse_btih_def)
  next
    case b32
    have "base32_decode ?l = Some h \<longleftrightarrow> ?l = base32_encode h" if "length h = 20"
      using b32 that base32_canonical [of ?l h] base32_roundtrip by (auto simp: length_base32_encode)
    moreover have "?l \<noteq> hex_text h" if "length h = 20" using b32 that length_hex_text [of h] by (auto dest: arg_cong [of _ _ length])
    ultimately show ?thesis using b32 by (auto simp: parse_btih_def split: option.splits)
  next
    case bad
    then show ?thesis by (auto simp: parse_btih_def length_hex_text length_base32_encode dest!: arg_cong [of _ _ length])
  qed
qed

subsection \<open>The whole link\<close>

text \<open>The parameters of a query, and the values of those that matter.\<close>

definition params :: "rstr \<Rightarrow> (rstr \<times> rstr) list" where
  "params query = List.map_filter (split_once 61) (split_on 38 query)"

definition values_of :: "string \<Rightarrow> (rstr \<times> rstr) list \<Rightarrow> rstr list" where
  "values_of key ps = map snd (filter (\<lambda>p. fst p = str key) ps)"

definition btih_values :: "(rstr \<times> rstr) list \<Rightarrow> rstr list" where
  "btih_values ps = List.map_filter (strip_prefix (str ''urn:btih:'')) (values_of ''xt'' ps)"

definition kept_trackers :: "nat \<Rightarrow> (rstr \<times> rstr) list \<Rightarrow> rstr list" where
  "kept_trackers n ps = take n (filter (\<lambda>u. is_i2p_tracker (str_bytes u)) (map decode_text (values_of ''tr'' ps)))"

fun step_params :: "(rstr \<times> rstr) list \<Rightarrow> magnet_state \<Rightarrow> magnet_error + magnet_state" where
  "step_params [] s = Inr s"
| "step_params ((k, v) # ps) s = (case magnet_param k v s of Inl e \<Rightarrow> Inl e | Inr s' \<Rightarrow> step_params ps s')"

lemma magnet_loop_params: "magnet_loop pairs s = step_params (List.map_filter (split_once 61) pairs) s"
proof (induction pairs arbitrary: s)
  case (Cons p pairs)
  then show ?case by (cases "split_once 61 p") (auto simp: map_filter_simps simp del: split_once_None split: sum.splits)
qed (simp add: map_filter_simps)

lemma keys_distinct: "str ''xt'' \<noteq> str ''dn''" "str ''xt'' \<noteq> str ''tr''" "str ''dn'' \<noteq> str ''tr''"
  by code_simp+

lemma values_of_Nil [simp]: "values_of key [] = []" "btih_values [] = []" "kept_trackers n [] = []"
  by (simp_all add: values_of_def btih_values_def kept_trackers_def map_filter_simps)

lemma values_of_Cons: "values_of key ((k, v) # ps) = (if k = str key then [v] else []) @ values_of key ps"
  by (simp add: values_of_def)

lemma btih_values_Cons: "btih_values ((k, v) # ps) =
    (if k = str ''xt'' then case strip_prefix (str ''urn:btih:'') v of None \<Rightarrow> [] | Some h \<Rightarrow> [h] else []) @ btih_values ps"
  by (simp add: btih_values_def values_of_Cons map_filter_simps split: option.split)

lemma kept_trackers_Cons: "kept_trackers n ((k, v) # ps) =
    (if k = str ''tr'' \<and> is_i2p_tracker (str_bytes (decode_text v)) \<and> 0 < n then decode_text v # kept_trackers (n - 1) ps else kept_trackers n ps)"
  by (cases n) (simp_all add: kept_trackers_def values_of_Cons)

lemma step_params_others:
  "step_params ps s = Inr s' \<Longrightarrow> length (ms_trackers s) \<le> MAX_TRACKERS \<Longrightarrow>
   ms_display_name s' = (if values_of ''dn'' ps = [] then ms_display_name s else Some (decode_text (last (values_of ''dn'' ps)))) \<and>
   ms_trackers s' = ms_trackers s @ kept_trackers (MAX_TRACKERS - length (ms_trackers s)) ps \<and>
   ms_skipped s' + length (ms_trackers s') = ms_skipped s + length (ms_trackers s) + length (values_of ''tr'' ps)"
proof (induction ps arbitrary: s)
  case (Cons p ps)
  obtain k v where p: "p = (k, v)" by fastforce
  then obtain t where t: "magnet_param k v s = Inr t" "step_params ps t = Inr s'" using Cons.prems(1) by (auto split: sum.splits)
  show ?case
  proof (cases "k = str ''tr'' \<and> is_i2p_tracker (str_bytes (decode_text v)) \<and> length (ms_trackers s) < MAX_TRACKERS")
    case True
    then have "t = s\<lparr>ms_trackers := ms_trackers s @ [decode_text v]\<rparr>" using t(1) keys_distinct by (simp add: magnet_param_def Let_def)
    then show ?thesis using Cons.IH [OF t(2)] True p keys_distinct by (auto simp: values_of_Cons kept_trackers_Cons)
  next
    case False
    then have "ms_trackers t = ms_trackers s" "ms_skipped t = ms_skipped s + (if k = str ''tr'' then 1 else 0)"
      "ms_display_name t = (if k = str ''dn'' then Some (decode_text v) else ms_display_name s)"
      using t(1) keys_distinct by (auto simp: magnet_param_def Let_def split: option.splits sum.splits if_splits)
    then show ?thesis using Cons.IH [OF t(2)] False p keys_distinct Cons.prems(2) by (auto simp: values_of_Cons kept_trackers_Cons)
  qed
qed simp

lemma step_params_hash:
  "(\<exists>s'. step_params ps s = Inr s' \<and> ms_info_hash s' = h) \<longleftrightarrow>
   (\<forall>v \<in> set (btih_values ps). \<exists>x. parse_btih v = Inr x \<and> h = Some x) \<and> (ms_info_hash s \<noteq> None \<or> btih_values ps = [] \<longrightarrow> h = ms_info_hash s)"
proof (induction ps arbitrary: s)
  case (Cons p ps)
  obtain k v where p: "p = (k, v)" by fastforce
  show ?case
  proof (cases "k = str ''xt'' \<and> strip_prefix (str ''urn:btih:'') v \<noteq> None")
    case True
    then obtain w where w: "strip_prefix (str ''urn:btih:'') v = Some w" by auto
    show ?thesis
    proof (cases "parse_btih w")
      case (Inl e)
      then show ?thesis using True w p by (auto simp: magnet_param_def btih_values_Cons)
    next
      case (Inr x)
      then show ?thesis using True w p Cons.IH [of "s\<lparr>ms_info_hash := Some x\<rparr>"]
        by (cases "ms_info_hash s") (auto simp: magnet_param_def btih_values_Cons)
    qed
  next
    case False
    then have "\<exists>t. magnet_param k v s = Inr t \<and> ms_info_hash t = ms_info_hash s" by (auto simp: magnet_param_def Let_def)
    then obtain t where t: "magnet_param k v s = Inr t" "ms_info_hash t = ms_info_hash s" by blast
    have "btih_values (p # ps) = btih_values ps" using False p by (auto simp: btih_values_Cons)
    then show ?thesis using t p Cons.IH [of t] by simp
  qed
qed auto

text \<open>C28. A magnet link means one torrent. A link is accepted exactly when it starts with \<^verbatim>\<open>magnet:?\<close>, has an
  info-hash, and all its info-hashes denote the same twenty bytes, in hexadecimal or base32 of either case; the
  result has that hash, the last display name, the first sixteen I2P trackers in order and nothing else as a tracker, and
  every other tracker is counted as skipped.\<close>

theorem magnet_parse_exact:
  "magnet_parse uri = Inr m \<longleftrightarrow>
   (\<exists>query. uri = str ''magnet:?'' @ query \<and> btih_values (params query) \<noteq> [] \<and> length (mg_info_hash m) = 20 \<and>
     (\<forall>v \<in> set (btih_values (params query)). map ascii_lower (str_bytes v) \<in> {hex_text (mg_info_hash m), base32_encode (mg_info_hash m)}) \<and>
     mg_display_name m = (if values_of ''dn'' (params query) = [] then None else Some (decode_text (last (values_of ''dn'' (params query))))) \<and>
     mg_trackers m = kept_trackers MAX_TRACKERS (params query) \<and>
     mg_skipped_trackers m + length (mg_trackers m) = length (values_of ''tr'' (params query)))"
proof -
  let ?s = "\<lparr>ms_info_hash = None, ms_display_name = None, ms_trackers = [], ms_skipped = 0\<rparr>"
  show ?thesis
  proof (cases "strip_prefix (str ''magnet:?'') uri")
    case None
    then have "uri \<noteq> str ''magnet:?'' @ q" for q by (auto simp: strip_prefix_def)
    then show ?thesis using None by (simp add: magnet_parse_def)
  next
    case (Some q)
    have u: "uri = str ''magnet:?'' @ query \<longleftrightarrow> query = q" for query using strip_prefix_SomeD [OF Some] by auto
    let ?ps = "params q" and ?h = "Some (mg_info_hash m)"
    have loop: "magnet_loop (split_on 38 q) ?s = step_params ?ps ?s" by (simp add: magnet_loop_params params_def)
    have res: "magnet_parse uri = Inr m \<longleftrightarrow>
        (\<exists>s'. step_params ?ps ?s = Inr s' \<and> ms_info_hash s' = ?h \<and> mg_display_name m = ms_display_name s' \<and>
          mg_trackers m = ms_trackers s' \<and> mg_skipped_trackers m = ms_skipped s')"
      using Some loop by (cases m) (auto simp: magnet_parse_def split: sum.splits option.splits)
    have oth: "ms_display_name s' = (if values_of ''dn'' ?ps = [] then None else Some (decode_text (last (values_of ''dn'' ?ps)))) \<and>
        ms_trackers s' = kept_trackers MAX_TRACKERS ?ps \<and> ms_skipped s' + length (ms_trackers s') = length (values_of ''tr'' ?ps)"
      if "step_params ?ps ?s = Inr s'" for s' using step_params_others [OF that] by auto
    have hash: "(\<exists>s'. step_params ?ps ?s = Inr s' \<and> ms_info_hash s' = ?h) \<longleftrightarrow>
        btih_values ?ps \<noteq> [] \<and> (\<forall>v \<in> set (btih_values ?ps). parse_btih v = Inr (mg_info_hash m))"
      unfolding step_params_hash by auto
    have btih: "btih_values ?ps \<noteq> [] \<and> (\<forall>v \<in> set (btih_values ?ps). parse_btih v = Inr (mg_info_hash m)) \<longleftrightarrow>
        btih_values ?ps \<noteq> [] \<and> length (mg_info_hash m) = 20 \<and>
        (\<forall>v \<in> set (btih_values ?ps). map ascii_lower (str_bytes v) \<in> {hex_text (mg_info_hash m), base32_encode (mg_info_hash m)})"
      unfolding parse_btih_exact by (cases "btih_values ?ps") auto
    show ?thesis unfolding res u using hash btih oth by auto
  qed
qed

definition sample_link :: rstr where
  "sample_link = str ''magnet:?xt=urn:btih:AAAAAAAAAAAAAAAAAAAAAAAAAAAAAAAA&dn=a%20b&tr=http://t.i2p/a&tr=http://t.com/a''"

definition sample_magnet :: magnet where
  "sample_magnet = \<lparr>mg_info_hash = replicate 20 0, mg_display_name = Some (str ''a b''), mg_trackers = [str ''http://t.i2p/a''], mg_skipped_trackers = 1\<rparr>"

theorem magnet_parse_exact_witness:
  "magnet_parse sample_link = Inr sample_magnet \<and>
   (\<exists>query. sample_link = str ''magnet:?'' @ query \<and> btih_values (params query) \<noteq> [] \<and> mg_trackers sample_magnet = kept_trackers MAX_TRACKERS (params query))"
proof -
  have "magnet_parse sample_link = Inr sample_magnet" by code_simp
  then show ?thesis using magnet_parse_exact [of sample_link sample_magnet] by blast
qed

end
