(* ===== verification/Tracker.thy ===== *)
theory Tracker
  imports Bencode Metainfo Http Addr
begin

text \<open>
  Tracker announces (\<^verbatim>\<open>crates/clove-core/src/tracker.rs\<close>): building the request, reading the reply, the announce
  timetable, and the wording of what goes into a log. Times are seconds; a URL or a header is its
  characters. SHA-256 is a parameter, and so is \<^verbatim>\<open>char::escape_debug\<close>, whose Unicode tables the standard
  library keeps.
\<close>

subsection \<open>Building an announce\<close>

definition USER_AGENT :: rstr where "USER_AGENT = str ''clove/2026.08''"
definition MIN_ANNOUNCE_INTERVAL :: nat where "MIN_ANNOUNCE_INTERVAL = 60"
definition MAX_ANNOUNCE_INTERVAL :: nat where "MAX_ANNOUNCE_INTERVAL = 4 * 60 * 60"

datatype event = Started | Stopped | Completed | Periodic

fun query_value :: "event \<Rightarrow> rstr option" where
  "query_value Started = Some (str ''started'')"
| "query_value Stopped = Some (str ''stopped'')"
| "query_value Completed = Some (str ''completed'')"
| "query_value Periodic = None"

record announce_params =
  ap_info_hash :: bytes
  ap_peer_id :: bytes
  ap_uploaded :: nat
  ap_downloaded :: nat
  ap_left :: nat
  ap_event :: event
  ap_numwant :: nat
  ap_our_dest_b64 :: rstr

datatype tracker_error =
    BadUrl
  | TrIo io_kind
  | TrHttp http_error
  | HttpStatus nat
  | TrackerFailure rstr
  | TrBadResponse string
  | NotBencode "rstr option" nat rstr

text \<open>The characters of a string that is given by its bytes.\<close>

abbreviation as_text :: "bytes \<Rightarrow> rstr" where
  "as_text \<equiv> from_utf8_lossy"

definition dec :: "nat \<Rightarrow> rstr" where
  "dec n = chars (dec_digits n)"

definition announce_target :: "rstr \<Rightarrow> announce_params \<Rightarrow> rstr" where
  "announce_target path p =
     path @ [if 63 \<in> set path then 38 else 63] @
     str ''info_hash='' @ chars (percent_encode (ap_info_hash p)) @ str ''&peer_id='' @ chars (percent_encode (ap_peer_id p)) @
     str ''&port=6881&uploaded='' @ dec (ap_uploaded p) @ str ''&downloaded='' @ dec (ap_downloaded p) @
     str ''&left='' @ dec (ap_left p) @ str ''&numwant='' @ dec (ap_numwant p) @
     str ''&compact=1&ip='' @ chars (percent_encode (str_bytes (ap_our_dest_b64 p))) @
     (case query_value (ap_event p) of None \<Rightarrow> [] | Some e \<Rightarrow> str ''&event='' @ e)"

definition announce_request :: "tracker_url \<Rightarrow> announce_params \<Rightarrow> http_request" where
  "announce_request parsed p =
     \<lparr>rq_method = str ''GET'', rq_target = announce_target (as_text (tu_path_and_query parsed)) p,
      rq_host = as_text (tu_authority parsed), rq_headers = [(str ''User-Agent'', USER_AGENT)], rq_body = []\<rparr>"

definition build_announce :: "rstr \<Rightarrow> announce_params \<Rightarrow> tracker_error + rstr \<times> bytes" where
  "build_announce url p =
     (case tracker_url_parse (str_bytes url) of
        None \<Rightarrow> Inl BadUrl
      | Some parsed \<Rightarrow>
          (case rq_encode (announce_request parsed p) of
             None \<Rightarrow> Inl BadUrl
           | Some encoded \<Rightarrow> Inr (as_text (tu_host parsed), encoded)))"

subsection \<open>What is logged\<close>

definition redact_field :: "rstr \<Rightarrow> rstr" where
  "redact_field field =
     (case split_once 61 field of
        Some (k, _) \<Rightarrow> if k = str ''ip'' then str ''ip=<redacted>'' else field
      | None \<Rightarrow> field)"

definition redact_ip_param :: "rstr \<Rightarrow> rstr" where
  "redact_ip_param target =
     (case split_once 63 target of
        None \<Rightarrow> target
      | Some (path, query) \<Rightarrow> path @ 63 # join_on 38 (map redact_field (split_on 38 query)))"

definition announced_url :: "rstr \<Rightarrow> bytes \<Rightarrow> rstr" where
  "announced_url host request =
     (let line = takeWhile (\<lambda>b. b \<noteq> 13 \<and> b \<noteq> 10) request;
          target = (case from_utf8 line of
                      None \<Rightarrow> str ''/''
                    | Some l \<Rightarrow> (case split_on 32 l of _ # t # _ \<Rightarrow> t | _ \<Rightarrow> str ''/'')) in
      str ''http://'' @ host @ redact_ip_param target)"

definition MAX_TRACKER_TEXT :: nat where "MAX_TRACKER_TEXT = 512"

definition sanitise :: "rstr \<Rightarrow> rstr" where
  "sanitise s = scrub_bounded s MAX_TRACKER_TEXT"

subsection \<open>Previews of what is not bencode\<close>

definition PREVIEW_LEN :: nat where "PREVIEW_LEN = 512"

definition is_ascii_whitespace :: "byte \<Rightarrow> bool" where
  "is_ascii_whitespace b \<longleftrightarrow> b = 32 \<or> b = 9 \<or> b = 10 \<or> b = 12 \<or> b = 13"

definition looks_like_html :: "bytes \<Rightarrow> bool" where
  "looks_like_html body =
     (let start = take 16 (dropWhile is_ascii_whitespace body) in
      starts_with (ascii ''<!DOCTYPE'') start \<or> starts_with (ascii ''<!doctype'') start \<or>
      starts_with (ascii ''<html'') start \<or> starts_with (ascii ''<HTML'') start)"

text \<open>\<^verbatim>\<open>str::find\<close> of a string: what is before its first occurrence, and the occurrence with what follows.\<close>

fun find_sub :: "'a list \<Rightarrow> 'a list \<Rightarrow> ('a list \<times> 'a list) option" where
  "find_sub p [] = (if p = [] then Some ([], []) else None)"
| "find_sub p (c # s) = (if starts_with p (c # s) then Some ([], c # s) else map_option (\<lambda>(a, b). (c # a, b)) (find_sub p s))"

definition between :: "rstr \<Rightarrow> rstr \<Rightarrow> rstr \<Rightarrow> rstr option" where
  "between s open_s close_s =
     (case find_sub open_s s of
        None \<Rightarrow> None
      | Some (_, rest) \<Rightarrow> map_option fst (find_sub close_s rest))"

definition opens_tag :: "rstr \<Rightarrow> string \<Rightarrow> bool" where
  "opens_tag rest name =
     (let after = tl rest; n = length name in
      length after > n \<and> to_lower (take n after) = str name \<and> after ! n \<in> set [32, 62, 9, 10, 13])"

definition skip_to :: "rstr \<Rightarrow> rstr" where
  "skip_to rest =
     (if opens_tag rest ''head'' then str ''</head>''
      else if opens_tag rest ''style'' then str ''</style>''
      else if opens_tag rest ''script'' then str ''</script>''
      else str ''>'')"

text \<open>The loop of \<^verbatim>\<open>strip_markup\<close>, as one that might not return.\<close>

partial_function (option) strip_loop :: "rstr \<Rightarrow> rstr \<Rightarrow> rstr option" where
  "strip_loop out rest =
     (case find_sub [60] rest of
        None \<Rightarrow> Some (out @ rest)
      | Some (before, rest') \<Rightarrow>
          (case find_sub (skip_to rest') rest' of
             None \<Rightarrow> Some (out @ before)
           | Some (_, found) \<Rightarrow> strip_loop (out @ before) (drop (length (skip_to rest')) found)))"

declare strip_loop.simps [code]

definition strip_markup :: "rstr \<Rightarrow> rstr option" where
  "strip_markup s = strip_loop [] s"

function split_whitespace :: "rstr \<Rightarrow> rstr list" where
  "split_whitespace [] = []"
| "split_whitespace (c # s) =
     (if is_whitespace c then split_whitespace s
      else (c # takeWhile (\<lambda>d. \<not> is_whitespace d) s) # split_whitespace (dropWhile (\<lambda>d. \<not> is_whitespace d) s))"
  by pat_completeness auto
termination
  by (relation "measure length") (auto simp: less_Suc_eq_le length_dropWhile_le)

definition collapse :: "rstr \<Rightarrow> rstr" where
  "collapse s = join_on 32 (split_whitespace s)"

definition debug_str :: "(rchar \<Rightarrow> rstr) \<Rightarrow> rstr \<Rightarrow> rstr" where
  "debug_str escape_debug s = [34] @ concat (map escape_debug s) @ [34]"

definition summarise_html :: "(rchar \<Rightarrow> rstr) \<Rightarrow> rstr \<Rightarrow> rstr" where
  "summarise_html escape_debug s =
     (let out = str ''HTML page'';
          out = (case between s (str ''<title'') (str ''</title>'') of
                   None \<Rightarrow> out
                 | Some t \<Rightarrow>
                     (case split_once 62 t of
                        None \<Rightarrow> out
                      | Some (_, inner) \<Rightarrow>
                          if collapse inner \<noteq> [] then out @ str '' titled '' @ debug_str escape_debug (collapse inner) else out));
          words = collapse (case strip_markup s of Some t \<Rightarrow> t | None \<Rightarrow> []) in
      if words \<noteq> [] then out @ str ''; text begins '' @ debug_str escape_debug (take (PREVIEW_LEN div 2) words) else out)"

definition preview :: "(rchar \<Rightarrow> rstr) \<Rightarrow> bytes \<Rightarrow> rstr" where
  "preview escape_debug body =
     (if body = [] then str ''<empty body>''
      else if looks_like_html body \<and> from_utf8 body \<noteq> None then summarise_html escape_debug (the (from_utf8 body))
      else map (\<lambda>b. if 0x20 \<le> b \<and> b < 0x7F then unat b else 46) (take PREVIEW_LEN body) @
        (if length body > PREVIEW_LEN then [0x2026] else []))"

subsection \<open>Reading the reply\<close>

record announce_response =
  ar_interval :: nat
  ar_min_interval :: "nat option"
  ar_peers :: "bytes list"

definition MAX_RESPONSE_BYTES :: nat where "MAX_RESPONSE_BYTES = 64 * 1024"

text \<open>\<^verbatim>\<open>chunks_exact(32)\<close>.\<close>

function chunks32 :: "bytes \<Rightarrow> bytes list" where
  "chunks32 bs = (if length bs < 32 then [] else take 32 bs # chunks32 (drop 32 bs))"
  by pat_completeness auto
termination
  by (relation "measure length") auto

declare chunks32.simps [simp del]

definition parse_compact_peers :: "bytes \<Rightarrow> tracker_error + bytes list" where
  "parse_compact_peers bs =
     (if length bs mod 32 \<noteq> 0 then Inl (TrBadResponse ''compact peers not a multiple of 32'') else Inr (chunks32 bs))"

fun dict_peers_loop :: "(bytes \<Rightarrow> bytes) \<Rightarrow> bvalue list \<Rightarrow> bytes list \<Rightarrow> tracker_error + bytes list" where
  "dict_peers_loop sha256 [] peers = Inr peers"
| "dict_peers_loop sha256 (entry # list) peers =
     (case Option.bind (bget entry (ascii ''ip'')) as_str of
        None \<Rightarrow> Inl (TrBadResponse ''peer dict without ip'')
      | Some dest \<Rightarrow>
          (case from_b64_destination sha256 (as_text dest) of
             Some hash \<Rightarrow> dict_peers_loop sha256 list (peers @ [hash])
           | None \<Rightarrow> dict_peers_loop sha256 list peers))"

definition parse_dict_peers :: "(bytes \<Rightarrow> bytes) \<Rightarrow> bvalue list \<Rightarrow> tracker_error + bytes list" where
  "parse_dict_peers sha256 list = dict_peers_loop sha256 list []"

definition parse_peers :: "(bytes \<Rightarrow> bytes) \<Rightarrow> bvalue option \<Rightarrow> tracker_error + bytes list" where
  "parse_peers sha256 v =
     (case v of
        None \<Rightarrow> Inr []
      | Some (BBytes bytes) \<Rightarrow> parse_compact_peers bytes
      | Some (BList list) \<Rightarrow> parse_dict_peers sha256 list
      | Some _ \<Rightarrow> Inl (TrBadResponse ''peers has an unexpected type''))"

definition parse_response :: "(bytes \<Rightarrow> bytes) \<Rightarrow> (rchar \<Rightarrow> rstr) \<Rightarrow> bytes \<Rightarrow> tracker_error + announce_response" where
  "parse_response sha256 escape_debug body =
     (case decode body of
        Inl e \<Rightarrow> Inl (NotBencode None (length body) (preview escape_debug body))
      | Inr root \<Rightarrow>
          (case Option.bind (bget root (ascii ''failure reason'')) as_str of
             Some reason_text \<Rightarrow> Inl (TrackerFailure (sanitise (as_text reason_text)))
           | None \<Rightarrow>
               (case Option.bind (Option.bind (bget root (ascii ''interval'')) as_int) u32_of_i64 of
                  None \<Rightarrow> Inl (TrBadResponse ''missing interval'')
                | Some interval \<Rightarrow>
                    (let min_interval = Option.bind (Option.bind (bget root (ascii ''min interval'')) as_int) u32_of_i64 in
                     case parse_peers sha256 (bget root (ascii ''peers'')) of
                       Inl e \<Rightarrow> Inl e
                     | Inr peers \<Rightarrow> Inr \<lparr>ar_interval = interval, ar_min_interval = min_interval, ar_peers = peers\<rparr>))))"

subsection \<open>The timetable\<close>

record announce_state =
  as_next_due :: nat
  as_started :: bool
  as_completed :: bool
  as_failures :: nat
  as_max_backoff :: nat

definition as_new :: announce_state where
  "as_new = \<lparr>as_next_due = 0, as_started = False, as_completed = False, as_failures = 0, as_max_backoff = 30 * 60\<rparr>"

definition already_complete :: announce_state where
  "already_complete = as_new\<lparr>as_completed := True\<rparr>"

definition due :: "announce_state \<Rightarrow> nat \<Rightarrow> bool" where
  "due s now \<longleftrightarrow> now \<ge> as_next_due s"

definition completion_due :: "announce_state \<Rightarrow> announce_state" where
  "completion_due s = (if as_started s \<and> \<not> as_completed s then s\<lparr>as_next_due := 0\<rparr> else s)"

definition next_event :: "announce_state \<Rightarrow> bool \<Rightarrow> event" where
  "next_event s complete =
     (if \<not> as_started s then Started else if complete \<and> \<not> as_completed s then Completed else Periodic)"

definition on_success_with_min :: "nat \<Rightarrow> nat \<Rightarrow> nat option \<Rightarrow> event \<Rightarrow> announce_state \<Rightarrow> announce_state" where
  "on_success_with_min now interval min_interval sent s =
     (let s = s\<lparr>as_started := True\<rparr>;
          s = (if sent = Completed then s\<lparr>as_completed := True\<rparr> else s);
          s = s\<lparr>as_failures := 0\<rparr>;
          wait = min (max (max interval (case min_interval of None \<Rightarrow> 0 | Some m \<Rightarrow> m)) MIN_ANNOUNCE_INTERVAL) MAX_ANNOUNCE_INTERVAL in
      s\<lparr>as_next_due := u64_sat_add now wait\<rparr>)"

definition on_success :: "nat \<Rightarrow> nat \<Rightarrow> event \<Rightarrow> announce_state \<Rightarrow> announce_state" where
  "on_success now interval sent s = on_success_with_min now interval None sent s"

definition on_failure :: "nat \<Rightarrow> announce_state \<Rightarrow> announce_state" where
  "on_failure now s =
     (let failures = u32_sat_add (as_failures s) 1;
          shift = min (failures - 1) 6;
          delay = min (min (30 * 2 ^ shift) u64_max) (as_max_backoff s) in
      s\<lparr>as_failures := failures, as_next_due := u64_sat_add now delay\<rparr>)"

subsection \<open>One announce over a stream\<close>

definition ANNOUNCE_DEADLINE :: nat where "ANNOUNCE_DEADLINE = 120"

text \<open>A stream to a tracker: whether writing the request succeeds, what comes back, and how many bytes have come
  when the deadline passes. A read after that fails with a timeout.\<close>

record tracker_stream =
  ts_write :: "io_kind option"
  ts_reader :: reader
  ts_in_time :: "nat option"

definition deadline_reader :: "tracker_stream \<Rightarrow> reader" where
  "deadline_reader ts =
     (case ts_in_time ts of
        None \<Rightarrow> ts_reader ts
      | Some k \<Rightarrow> (ts_reader ts)\<lparr>rd_bytes := take k (rd_bytes (ts_reader ts)), rd_end := Some TimedOutKind\<rparr>)"

definition announce_over_until ::
  "(bytes \<Rightarrow> bytes) \<Rightarrow> (rchar \<Rightarrow> rstr) \<Rightarrow> tracker_stream \<Rightarrow> bytes \<Rightarrow> tracker_error + announce_response" where
  "announce_over_until sha256 escape_debug ts request =
     (case ts_write ts of
        Some e \<Rightarrow> Inl (TrIo e)
      | None \<Rightarrow>
          (case read_response (deadline_reader ts) MAX_RESPONSE_BYTES of
             Inl e \<Rightarrow> Inl (TrHttp e)
           | Inr (response, _) \<Rightarrow>
               if rs_status response \<noteq> 200 then Inl (HttpStatus (rs_status response))
               else
                 (case parse_response sha256 escape_debug (rs_body response) of
                    Inl (NotBencode _ len pre) \<Rightarrow> Inl (NotBencode (header (rs_headers response) (str ''content-type'')) len pre)
                  | Inl e \<Rightarrow> Inl e
                  | Inr r \<Rightarrow> Inr r)))"

subsection \<open>Markup\<close>

lemma find_sub_Some: "find_sub p s = Some (a, b) \<Longrightarrow> s = a @ b \<and> starts_with p b"
  by (induction s arbitrary: a) (auto simp: starts_with_def split: if_splits)

lemma find_sub_char_None: "find_sub [c] s = None \<longleftrightarrow> c \<notin> set s"
  by (induction s) (auto simp: starts_with_def)

lemma find_sub_char: "find_sub [c] s = Some (a, b) \<Longrightarrow> s = a @ b \<and> c \<notin> set a \<and> b \<noteq> []"
  by (induction s arbitrary: a) (auto simp: starts_with_def split: if_splits)

lemma skip_to_nonempty [simp]: "skip_to rest \<noteq> []"
  by (simp add: skip_to_def)

text \<open>Each round of the loop drops at least the tag it found.\<close>

lemma strip_loop_returns:
  "\<exists>t. strip_loop out rest = Some (out @ t) \<and> 60 \<notin> set t \<and> set t \<subseteq> set rest \<and> length t \<le> length rest"
proof (induction "length rest" arbitrary: out rest rule: less_induct)
  case less
  show ?case
  proof (cases "find_sub [60] rest")
    case None
    then have "60 \<notin> set rest" by (simp add: find_sub_char_None)
    then show ?thesis using None by (intro exI [of _ rest]) (simp add: strip_loop.simps [of out])
  next
    case (Some p)
    then obtain a b where p: "find_sub [60] rest = Some (a, b)" by (cases p) auto
    from find_sub_char [OF this] have ab: "rest = a @ b" "60 \<notin> set a" "b \<noteq> []" by auto
    show ?thesis
    proof (cases "find_sub (skip_to b) b")
      case None
      then show ?thesis using p ab by (auto simp: strip_loop.simps [of out])
    next
      case (Some q)
      then obtain x f where q: "find_sub (skip_to b) b = Some (x, f)" by (cases q) auto
      let ?n = "length (skip_to b)"
      have xf: "b = x @ f" "take ?n f = skip_to b" using find_sub_Some [OF q] by (auto simp: starts_with_def)
      then have "f \<noteq> []" using skip_to_nonempty [of b] by (metis take_Nil)
      moreover have "0 < ?n" using skip_to_nonempty [of b] by blast
      ultimately have "length (drop ?n f) < length f" by simp
      then have lt: "length (drop ?n f) < length rest" using ab(1) xf(1) by (simp only: length_append)
      obtain t where t: "strip_loop (out @ a) (drop ?n f) = Some ((out @ a) @ t)" "60 \<notin> set t" "set t \<subseteq> set (drop ?n f)" "length t \<le> length (drop ?n f)"
        using less [OF lt] by blast
      have "set (drop ?n f) \<subseteq> set rest" using ab(1) xf(1) set_drop_subset [of ?n f] by auto
      moreover have "length a + length t \<le> length rest" using t(4) ab(1) xf(1) by simp
      ultimately show ?thesis using p q t ab by (intro exI [of _ "a @ t"]) (auto simp: strip_loop.simps [of out])
    qed
  qed
qed

lemma split_whitespace_set: "w \<in> set (split_whitespace s) \<Longrightarrow> w \<noteq> [] \<and> (\<forall>c \<in> set w. \<not> is_whitespace c \<and> c \<in> set s)"
proof (induction s rule: split_whitespace.induct)
  case (2 c s)
  show ?case
  proof (cases "is_whitespace c")
    case True
    then show ?thesis using "2.IH"(1) [OF True] "2.prems" by simp
  next
    case False
    let ?d = "dropWhile (\<lambda>d. \<not> is_whitespace d) s"
    have "w = c # takeWhile (\<lambda>d. \<not> is_whitespace d) s \<or> w \<in> set (split_whitespace ?d)" using "2.prems" False by simp
    then show ?thesis
    proof
      assume "w = c # takeWhile (\<lambda>d. \<not> is_whitespace d) s"
      then show ?thesis using False set_takeWhileD [of _ "\<lambda>d. \<not> is_whitespace d" s] by auto
    next
      assume "w \<in> set (split_whitespace ?d)"
      then have "w \<noteq> [] \<and> (\<forall>c \<in> set w. \<not> is_whitespace c \<and> c \<in> set ?d)" by (rule "2.IH"(2) [OF False])
      moreover have "set ?d \<subseteq> set (c # s)" by (auto dest: set_dropWhileD)
      ultimately show ?thesis by blast
    qed
  qed
qed simp

lemma join_on_set: "set (join_on c ls) \<subseteq> insert c (\<Union>l \<in> set ls. set l)"
  by (induction c ls rule: join_on.induct) auto

lemma collapse_set: "c \<in> set (collapse s) \<Longrightarrow> c = 32 \<or> \<not> is_whitespace c \<and> c \<in> set s"
  using join_on_set [of 32 "split_whitespace s"] split_whitespace_set by (fastforce simp: collapse_def)

lemma str_not_control: "\<forall>c \<in> set (str ''HTML page'' @ str '' titled '' @ str ''; text begins '' @ str ''<empty body>''). \<not> is_control c"
  by code_simp

lemma summarise_html_printable:
  assumes "\<forall>c. \<forall>d \<in> set (escape_debug c). \<not> is_control d"
  shows "\<forall>d \<in> set (summarise_html escape_debug s). \<not> is_control d"
proof -
  have dbg: "\<not> is_control d" if "d \<in> set (debug_str escape_debug w)" for d w
    using that assms by (auto simp: debug_str_def is_control_def)
  show ?thesis unfolding summarise_html_def Let_def using str_not_control dbg by (auto split: option.splits if_splits)
qed

text \<open>A page that is not an announce cannot hang or scramble the log: the loop that strips markup from it
  returns on every text, with no tag left in the result and no more text than there was, and the
  preview that is logged holds no control character (given that the library's escaping of characters, which
  quotes page text, writes none).\<close>

theorem strip_markup_returns:
  assumes "\<forall>c. \<forall>d \<in> set (escape_debug c). \<not> is_control d"
  shows "(\<exists>t. strip_markup s = Some t \<and> 60 \<notin> set t \<and> set t \<subseteq> set s \<and> length t \<le> length s) \<and>
    (\<forall>d \<in> set (preview escape_debug body). \<not> is_control d)"
proof -
  have "\<not> is_control (unat b)" if "0x20 \<le> b" "b < 0x7F" for b :: byte
    using that by (auto simp: is_control_def word_le_nat_alt word_less_nat_alt)
  moreover have "\<not> is_control 46" "\<not> is_control 0x2026" by (simp_all add: is_control_def)
  ultimately have "\<forall>d \<in> set (preview escape_debug body). \<not> is_control d"
    using summarise_html_printable [OF assms] str_not_control by (auto simp: preview_def split: if_splits)
  moreover have "\<exists>t. strip_markup s = Some t \<and> 60 \<notin> set t \<and> set t \<subseteq> set s \<and> length t \<le> length s"
    using strip_loop_returns [of "[]" s] by (simp add: strip_markup_def)
  ultimately show ?thesis by blast
qed

definition plain_escape :: "rchar \<Rightarrow> rstr" where
  "plain_escape c = (if is_control c then str ''?'' else [c])"

theorem strip_markup_returns_witness:
  "(\<exists>t. strip_markup (str ''<b>x<'') = Some t \<and> 60 \<notin> set t) \<and> list_all (\<lambda>d. \<not> is_control d) (preview plain_escape (ascii ''<html>a''))"
proof -
  have "\<forall>c. \<forall>d \<in> set (plain_escape c). \<not> is_control d"
    by (auto simp: plain_escape_def str_def is_control_def split: if_splits)
  from strip_markup_returns [of plain_escape "str ''<b>x<''" "ascii ''<html>a''", OF this] show ?thesis
    by (auto simp: list_all_iff)
qed

subsection \<open>The destination is not logged\<close>

definition target_before :: "rstr \<Rightarrow> announce_params \<Rightarrow> rstr" where
  "target_before path p =
     path @ [if 63 \<in> set path then 38 else 63] @
     str ''info_hash='' @ chars (percent_encode (ap_info_hash p)) @ str ''&peer_id='' @ chars (percent_encode (ap_peer_id p)) @
     str ''&port=6881&uploaded='' @ dec (ap_uploaded p) @ str ''&downloaded='' @ dec (ap_downloaded p) @
     str ''&left='' @ dec (ap_left p) @ str ''&numwant='' @ dec (ap_numwant p) @ str ''&compact=1''"

definition target_after :: "announce_params \<Rightarrow> rstr" where
  "target_after p = (case query_value (ap_event p) of None \<Rightarrow> [] | Some e \<Rightarrow> str ''&event='' @ e)"

definition dest_field :: "rstr \<Rightarrow> rstr" where
  "dest_field d = str ''ip='' @ chars (percent_encode (str_bytes d))"

lemma announce_target_split: "announce_target path p = target_before path p @ 38 # dest_field (ap_our_dest_b64 p) @ target_after p"
  by (simp add: announce_target_def target_before_def target_after_def dest_field_def str_def)

lemma target_before_query: "63 \<in> set (target_before path p)"
  by (simp add: target_before_def)

lemma dest_field_chars:
  assumes "c \<in> set (dest_field d)"
  shows "c \<noteq> 38 \<and> c \<noteq> 32 \<and> c \<noteq> 13 \<and> c \<noteq> 10 \<and> c \<noteq> 0 \<and> c < 0x80"
proof (cases "c \<in> set (str ''ip='')")
  case True
  then show ?thesis by (auto simp: str_def)
next
  case False
  then obtain b where b: "b \<in> set (percent_encode (str_bytes d))" "c = unat b" using assms by (auto simp: dest_field_def chars_def)
  have "unat b \<noteq> k" if "b \<noteq> of_nat k" for k using that by (metis of_nat_unat ucast_id)
  then show ?thesis using url_safe_not [OF percent_encode_safe [OF b(1)]] b(2) by (simp add: word_less_nat_alt)
qed

lemma redact_dest_field: "redact_field (dest_field d) = str ''ip=<redacted>''"
proof -
  have "dest_field d = str ''ip'' @ 61 # chars (percent_encode (str_bytes d))" by (simp add: dest_field_def str_def)
  moreover have "61 \<notin> set (str ''ip'')" by code_simp
  ultimately have "split_once 61 (dest_field d) = Some (str ''ip'', chars (percent_encode (str_bytes d)))" by (simp add: split_once_Some)
  then show ?thesis by (simp add: redact_field_def)
qed

lemma split_dest_field: "split_on 38 (dest_field d @ target_after p) = dest_field d # (if target_after p = [] then [] else split_on 38 (tl (target_after p)))"
proof -
  have f: "38 \<notin> set (dest_field d)" using dest_field_chars by blast
  show ?thesis
  proof (cases "query_value (ap_event p)")
    case None
    then show ?thesis using split_on_join [of "[dest_field d]" 38] f by (simp add: target_after_def)
  next
    case (Some e)
    then have "target_after p = 38 # str ''event='' @ e" by (simp add: target_after_def str_def)
    then show ?thesis using split_on_append [OF f] by simp
  qed
qed

lemma redact_independent: "redact_ip_param (before @ 38 # dest_field d @ target_after p) = redact_ip_param (before @ 38 # dest_field e @ target_after p)"
  if "63 \<in> set before"
proof -
  from that obtain a b where b: "before = a @ 63 # b" "63 \<notin> set a" by (meson split_list_first)
  have "split_once 63 (before @ 38 # s) = Some (a, b @ 38 # s)" for s using b by (simp add: split_once_Some)
  then show ?thesis by (simp add: redact_ip_param_def split_on_append_both split_dest_field redact_dest_field)
qed

lemma announced_line:
  assumes "rq_encode r = Some out" "32 \<notin> set (rq_method r)" "32 \<notin> set (rq_target r)" "rust_str (rq_method r)" "rust_str (rq_target r)"
  shows "announced_url host out = str ''http://'' @ host @ redact_ip_param (rq_target r)"
proof -
  let ?l = "rq_method r @ str '' '' @ rq_target r @ str '' HTTP/1.1''"
  have c: "clean (rq_method r)" "clean (rq_target r)" using assms(1) by (auto simp: rq_encode_def split: if_splits)
  have g: "good_line ?l" using clean_good [OF assms(4) c(1)] clean_good [OF assms(5) c(2)] good_line_lits by (simp add: good_line_append)
  have "out = str_bytes ?l @ 13 # 10 # str_bytes (concat (map (\<lambda>l. l @ crlf) (tl (request_lines r))) @ crlf) @ rq_body r"
    using rq_encode_msg [OF assms(1)] by (simp add: msg_bytes_def request_lines_def crlf_def utf8_char_def)
  moreover have "\<forall>b \<in> set (str_bytes ?l). b \<noteq> 13 \<and> b \<noteq> 10"
    using g str_bytes_low [of ?l 13] str_bytes_low [of ?l 10] by (auto simp: good_line_def simp del: str_bytes_append)
  ultimately have "takeWhile (\<lambda>b. b \<noteq> 13 \<and> b \<noteq> 10) out = str_bytes ?l" by (simp add: takeWhile_append2 del: str_bytes_append)
  moreover have "from_utf8 (str_bytes ?l) = Some ?l" using g by (simp add: from_utf8_iff good_line_def del: str_bytes_append)
  ultimately show ?thesis using split_request_line [OF assms(2,3)] by (simp add: announced_url_def Let_def)
qed

lemma clean_append: "clean (a @ b) \<longleftrightarrow> clean a \<and> clean b"
  by (simp add: clean_def)

lemma clean_dest_field: "clean (dest_field d)"
proof -
  have "is_scalar c" if "c \<in> set (dest_field d)" for c using dest_field_chars [OF that] by (simp add: is_scalar_def)
  then show ?thesis using clean_iff [of "dest_field d"] dest_field_chars by blast
qed

lemma rust_str_append: "rust_str (a @ b) \<longleftrightarrow> rust_str a \<and> rust_str b"
  by (auto simp: rust_str_def)

lemma rust_str_Cons: "rust_str (c # s) \<longleftrightarrow> is_scalar c \<and> rust_str s"
  by (simp add: rust_str_def)

lemma rust_str_chars: "rust_str (chars bs)"
proof -
  have "unat b < 0xD800" for b :: byte using unat_byte_less [of b] by simp
  then show ?thesis by (auto simp: rust_str_def chars_def is_scalar_def)
qed

lemma rust_str_str: "rust_str (str s)"
  by (simp add: str_chars_ascii rust_str_chars)

lemma percent_chars: "c \<in> set (chars (percent_encode bs)) \<Longrightarrow> c \<noteq> 32"
proof -
  assume "c \<in> set (chars (percent_encode bs))"
  then obtain b where b: "b \<in> set (percent_encode bs)" "c = unat b" by (auto simp: chars_def)
  have "unat b \<noteq> 32" using url_safe_not [OF percent_encode_safe [OF b(1)]] by (metis of_nat_numeral of_nat_unat ucast_id)
  then show ?thesis using b(2) by simp
qed

lemma target_text:
  assumes "rust_str path" "32 \<notin> set path"
  shows "rust_str (announce_target path p)" "32 \<notin> set (announce_target path p)"
proof -
  have d: "c \<noteq> 32" if "c \<in> set (dec n)" for c n using dec_chars [of c n] that by (auto simp: dec_def)
  have lits: "32 \<notin> set (str ''info_hash='') \<union> set (str ''&peer_id='') \<union> set (str ''&port=6881&uploaded='') \<union> set (str ''&downloaded='') \<union>
      set (str ''&left='') \<union> set (str ''&numwant='') \<union> set (str ''&compact=1&ip='') \<union> set (str ''&event='') \<union>
      set (str ''started'') \<union> set (str ''stopped'') \<union> set (str ''completed'')" by (simp add: str_def)
  have "is_scalar 38" "is_scalar 63" by (simp_all add: is_scalar_def)
  then show "rust_str (announce_target path p)"
    using assms(1) by (cases "ap_event p") (simp_all add: announce_target_def rust_str_append rust_str_Cons rust_str_chars rust_str_str dec_def)
  show "32 \<notin> set (announce_target path p)"
    using assms(2) lits percent_chars d by (cases "ap_event p") (auto simp: announce_target_def)
qed

text \<open>C25. Our own destination never reaches a log through an announce URL: the URL logged for an announce is the
  same whatever destination the announce carried, and an announce that can be built for one destination
  can be built for any other.\<close>

theorem announce_hides_destination:
  assumes "build_announce url p = Inr (host, request)"
  shows "\<exists>request'. build_announce url (p\<lparr>ap_our_dest_b64 := d\<rparr>) = Inr (host, request') \<and>
    announced_url host request' = announced_url host request"
proof -
  let ?q = "p\<lparr>ap_our_dest_b64 := d\<rparr>"
  obtain u where u: "tracker_url_parse (str_bytes url) = Some u" "rq_encode (announce_request u p) = Some request" "host = as_text (tu_host u)"
    using assms by (auto simp: build_announce_def split: option.splits)
  let ?path = "as_text (tu_path_and_query u)"
  have path: "rust_str ?path" "32 \<notin> set ?path"
  proof -
    show "rust_str ?path" using from_utf8_lossy_char by (auto simp: rust_str_def)
    show "32 \<notin> set ?path"
    proof
      assume "32 \<in> set ?path"
      then have "(32 :: byte) \<in> set (tu_path_and_query u)" using from_utf8_lossy_char [of 32 "tu_path_and_query u"] by simp
      then have "(0x20 :: byte) < 32" using tracker_url_safe_facts(3) [OF u(1), of 32] by simp
      then show False by simp
    qed
  qed
  have t: "rq_target (announce_request u p) = target_before ?path p @ 38 # dest_field (ap_our_dest_b64 p) @ target_after p"
    "rq_target (announce_request u ?q) = target_before ?path p @ 38 # dest_field d @ target_after p"
    by (simp_all add: announce_request_def announce_target_split target_before_def target_after_def)
  let ?r = "announce_request u p" and ?s = "announce_request u ?q"
  have c: "clean (rq_method ?r)" "clean (rq_target ?r)" "clean (rq_host ?r)" "\<not> list_ex (\<lambda>(name, val). \<not> clean name \<or> \<not> clean val) (rq_headers ?r)"
    using u(2) by (auto simp: rq_encode_def split: if_splits)
  have amp: "clean (38 # x) \<longleftrightarrow> clean x" for x by (simp add: clean_def utf8_char_def)
  have "clean (rq_target ?s)" using c(2) clean_dest_field unfolding t by (simp add: clean_append amp)
  then obtain request' where r': "rq_encode ?s = Some request'"
    using c by (simp add: rq_encode_def announce_request_def)
  have m: "32 \<notin> set (rq_method ?r)" "rust_str (rq_method ?r)" "rq_method ?s = rq_method ?r"
    using rust_str_str [of "''GET''"] by (auto simp: announce_request_def str_def)
  have tt: "rust_str (rq_target (announce_request u p))" "32 \<notin> set (rq_target (announce_request u p))" for p
    using target_text [OF path, of p] by (simp_all add: announce_request_def)
  have "announced_url host request' = announced_url host request"
    using announced_line [OF u(2) m(1) tt(2) m(2) tt(1)] announced_line [OF r', unfolded m(3), OF m(1) tt(2) m(2) tt(1)]
      redact_independent [OF target_before_query] by (simp add: t)
  moreover have "build_announce url ?q = Inr (host, request')" using u r' by (simp add: build_announce_def)
  ultimately show ?thesis by blast
qed

definition sample_params :: announce_params where
  "sample_params = \<lparr>ap_info_hash = [1, 255], ap_peer_id = [65], ap_uploaded = 7, ap_downloaded = 0, ap_left = 12, ap_event = Started,
     ap_numwant = 50, ap_our_dest_b64 = str ''secret''\<rparr>"

theorem announce_hides_destination_witness:
  "\<exists>host r r'. build_announce (str ''http://t.i2p/a?k=1'') sample_params = Inr (host, r) \<and>
     build_announce (str ''http://t.i2p/a?k=1'') (sample_params\<lparr>ap_our_dest_b64 := str ''other''\<rparr>) = Inr (host, r') \<and>
     announced_url host r' = announced_url host r"
proof -
  have "(case build_announce (str ''http://t.i2p/a?k=1'') sample_params of Inl e \<Rightarrow> False | Inr x \<Rightarrow> True)" by code_simp
  then obtain host r where b: "build_announce (str ''http://t.i2p/a?k=1'') sample_params = Inr (host, r)" by (auto split: sum.splits)
  from announce_hides_destination [OF b, of "str ''other''"] b show ?thesis by blast
qed

subsection \<open>The timetable\<close>

text \<open>A tracker is neither hammered nor forgotten. After a successful announce the next one is due in the tracker's
  interval or its minimum, whichever is longer, but never sooner than a minute nor later than four hours; after
  the n-th failure in a row it is due in thirty seconds doubled n - 1 times, at most half an hour.\<close>

theorem announce_schedule_bounds:
  assumes "now + MAX_ANNOUNCE_INTERVAL \<le> u64_max" "as_max_backoff s = 30 * 60" "as_failures s < u32_max"
  shows "\<exists>wait delay. as_next_due (on_success_with_min now interval min_interval sent s) = now + wait \<and> 60 \<le> wait \<and> wait \<le> 14400 \<and>
      (interval \<in> {60..14400} \<and> min_interval = None \<longrightarrow> wait = interval) \<and>
      (\<forall>m. min_interval = Some m \<longrightarrow> wait \<ge> min m 14400) \<and> as_failures (on_success_with_min now interval min_interval sent s) = 0 \<and>
    as_next_due (on_failure now s) = now + delay \<and> 30 \<le> delay \<and> delay \<le> 1800 \<and> delay = min (30 * 2 ^ as_failures s) 1800 \<and>
    as_failures (on_failure now s) = as_failures s + 1"
proof -
  let ?m = "case min_interval of None \<Rightarrow> 0 | Some m \<Rightarrow> m"
  let ?w = "min (max (max interval ?m) MIN_ANNOUNCE_INTERVAL) MAX_ANNOUNCE_INTERVAL"
  let ?d = "min (30 * 2 ^ as_failures s) (1800 :: nat)"
  have c: "MIN_ANNOUNCE_INTERVAL = 60" "MAX_ANNOUNCE_INTERVAL = 14400" by (simp_all add: MIN_ANNOUNCE_INTERVAL_def MAX_ANNOUNCE_INTERVAL_def)
  have s: "as_next_due (on_success_with_min now interval min_interval sent s) = now + ?w"
    "as_failures (on_success_with_min now interval min_interval sent s) = 0"
    using assms(1) by (simp_all add: on_success_with_min_def Let_def u64_sat_add_def c)
  have f: "u32_sat_add (as_failures s) 1 = as_failures s + 1" using assms(3) by (simp add: u32_sat_add_def)
  have one: "(1 :: nat) \<le> 2 ^ as_failures s" by simp
  have d: "min (min (30 * 2 ^ min (as_failures s) 6) u64_max) 1800 = ?d"
  proof (cases "as_failures s \<le> 6")
    case True
    have "2 ^ as_failures s \<le> (2 :: nat) ^ 6" using True by (rule power_increasing) simp
    then have "30 * 2 ^ as_failures s \<le> u64_max" by (simp add: u64_max_def)
    then show ?thesis using True by (simp add: min_absorb1)
  next
    case False
    then have "(2 :: nat) ^ 6 \<le> 2 ^ as_failures s" by (intro power_increasing) simp_all
    then show ?thesis using False by (simp add: u64_max_def)
  qed
  have "as_next_due (on_failure now s) = now + ?d" "as_failures (on_failure now s) = as_failures s + 1"
    using assms(1,2) f d by (simp_all add: on_failure_def Let_def u64_sat_add_def c)
  then show ?thesis using s one by (intro exI [of _ ?w] exI [of _ ?d]) (auto simp: c)
qed

theorem announce_schedule_bounds_witness:
  "\<exists>wait delay. as_next_due (on_success_with_min 100 (5 :: nat) (Some 90) Started as_new) = 100 + wait \<and> 60 \<le> wait \<and>
     as_next_due (on_failure 100 as_new) = 100 + delay \<and> delay = min (30 * 2 ^ as_failures as_new) (1800 :: nat)"
proof -
  have "100 + MAX_ANNOUNCE_INTERVAL \<le> u64_max" "as_max_backoff as_new = 30 * 60" "as_failures as_new < u32_max" by code_simp+
  from announce_schedule_bounds [OF this, of 5 "Some 90" Started] show ?thesis by blast
qed

text \<open>One round of \<^verbatim>\<open>swarm::announce_loop\<close> for one tracker: completion is noticed by its edge, the announce is made only
  when due, with the completion state read again, and its outcome recorded. The log has the events that reached the tracker.\<close>

record announcer =
  an_was_complete :: bool
  an_state :: announce_state
  an_log :: "event list"

definition announcer_start :: "bool \<Rightarrow> announcer" where
  "announcer_start complete =
     \<lparr>an_was_complete = complete, an_state = (if complete then already_complete else as_new), an_log = []\<rparr>"

text \<open>The outcome of an attempt: the tracker's two intervals, or a failure; and the time it was over.\<close>

definition announcer_round :: "bool \<Rightarrow> nat \<Rightarrow> bool \<Rightarrow> (nat \<times> nat option) option \<Rightarrow> nat \<Rightarrow> announcer \<Rightarrow> announcer" where
  "announcer_round complete now complete_now outcome later a =
     (let st = (if complete \<and> \<not> an_was_complete a then completion_due (an_state a) else an_state a);
          a = a\<lparr>an_was_complete := complete, an_state := st\<rparr> in
      if \<not> due st now then a
      else
        let sent = next_event st complete_now in
        case outcome of
          Some (interval, min_interval) \<Rightarrow>
            a\<lparr>an_state := on_success_with_min later interval min_interval sent st, an_log := an_log a @ [sent]\<rparr>
        | None \<Rightarrow> a\<lparr>an_state := on_failure later st\<rparr>)"

inductive announcer_step :: "announcer \<Rightarrow> announcer \<Rightarrow> bool" where
  "announcer_step a (announcer_round complete now complete_now outcome later a)"

definition announcer_inv :: "bool \<Rightarrow> announcer \<Rightarrow> bool" where
  "announcer_inv complete0 a \<longleftrightarrow>
     (as_started (an_state a) \<longleftrightarrow> an_log a \<noteq> []) \<and>
     (an_log a \<noteq> [] \<longrightarrow> hd (an_log a) = Started \<and> Started \<notin> set (tl (an_log a))) \<and> Stopped \<notin> set (an_log a) \<and>
     count_list (an_log a) Completed = (if as_completed (an_state a) \<and> \<not> complete0 then 1 else 0) \<and>
     (complete0 \<longrightarrow> as_completed (an_state a)) \<and> as_max_backoff (an_state a) = 30 * 60"

lemma completion_due_keeps [simp]:
  "as_started (completion_due s) = as_started s" "as_completed (completion_due s) = as_completed s"
  "as_max_backoff (completion_due s) = as_max_backoff s"
  by (simp_all add: completion_due_def)

lemma on_failure_keeps [simp]:
  "as_started (on_failure now s) = as_started s" "as_completed (on_failure now s) = as_completed s"
  "as_max_backoff (on_failure now s) = as_max_backoff s"
  by (simp_all add: on_failure_def Let_def)

lemma on_success_sets [simp]:
  "as_started (on_success_with_min now i m sent s)" "as_completed (on_success_with_min now i m sent s) \<longleftrightarrow> as_completed s \<or> sent = Completed"
  "as_max_backoff (on_success_with_min now i m sent s) = as_max_backoff s"
  by (simp_all add: on_success_with_min_def Let_def)

lemma announcer_success_inv:
  assumes "announcer_inv c0 a" "as_started st = as_started (an_state a)" "as_completed st = as_completed (an_state a)"
    "as_max_backoff st = as_max_backoff (an_state a)"
  shows "announcer_inv c0 (a\<lparr>an_was_complete := c, an_state := on_success_with_min later i m (next_event st cn) st, an_log := an_log a @ [next_event st cn]\<rparr>)"
proof (cases "as_started st")
  case False
  then have "an_log a = []" "next_event st cn = Started" using assms by (simp_all add: announcer_inv_def next_event_def)
  then show ?thesis using assms by (simp add: announcer_inv_def)
next
  case True
  then obtain e es where "an_log a = e # es" using assms(1,2) by (cases "an_log a") (simp_all add: announcer_inv_def)
  then show ?thesis using assms True by (cases "cn \<and> \<not> as_completed st") (auto simp: announcer_inv_def next_event_def)
qed

lemma announcer_round_inv:
  assumes "announcer_inv c0 a"
  shows "announcer_inv c0 (announcer_round complete now complete_now outcome later a)"
proof -
  let ?st = "if complete \<and> \<not> an_was_complete a then completion_due (an_state a) else an_state a"
  let ?sent = "next_event ?st complete_now"
  have k: "as_started ?st = as_started (an_state a)" "as_completed ?st = as_completed (an_state a)" "as_max_backoff ?st = as_max_backoff (an_state a)" by auto
  have inv: "announcer_inv c0 (a\<lparr>an_was_complete := complete, an_state := ?st\<rparr>)" using assms k by (simp add: announcer_inv_def)
  show ?thesis
  proof (cases "due ?st now \<and> outcome \<noteq> None")
    case True
    then obtain i m where im: "outcome = Some (i, m)" by auto
    have "announcer_round complete now complete_now outcome later a =
        a\<lparr>an_was_complete := complete, an_state := on_success_with_min later i m ?sent ?st, an_log := an_log a @ [?sent]\<rparr>"
      using True im by (simp add: announcer_round_def Let_def)
    then show ?thesis by (simp only:) (rule announcer_success_inv [OF assms k])
  next
    case False
    then have "announcer_round complete now complete_now outcome later a =
        a\<lparr>an_was_complete := complete, an_state := if due ?st now then on_failure later ?st else ?st\<rparr>"
      by (cases outcome) (auto simp: announcer_round_def Let_def)
    moreover have "announcer_inv c0 (a\<lparr>an_was_complete := complete, an_state := on_failure later ?st\<rparr>)"
      using assms k by (simp add: announcer_inv_def)
    ultimately show ?thesis using inv by (cases "due ?st now") (simp_all only: if_True if_False)
  qed
qed

interpretation announcing: transition_system "\<lambda>a. a = announcer_start c0" announcer_step "announcer_inv c0" for c0
proof
  show "announcer_inv c0 a" if "a = announcer_start c0" for a
    using that by (simp add: announcer_inv_def announcer_start_def as_new_def already_complete_def)
  show "announcer_inv c0 a'" if "announcer_inv c0 a" "announcer_step a a'" for a a'
    using that(2,1) by (cases rule: announcer_step.cases) (simp add: announcer_round_inv)
qed

text \<open>C27. A tracker hears about a download once. Over any run of the announce loop, whatever the clock, the outcomes
  and the moments at which the torrent is seen complete, the first announce that gets through is a start and no
  later one is; a completion gets through at most once, and never for a torrent that was complete when the
  loop began.\<close>

theorem announce_events_once:
  assumes "announcer_step\<^sup>*\<^sup>* (announcer_start complete0) a"
  shows "(an_log a \<noteq> [] \<longrightarrow> hd (an_log a) = Started \<and> Started \<notin> set (tl (an_log a))) \<and> Stopped \<notin> set (an_log a) \<and>
    count_list (an_log a) Completed \<le> (if complete0 then 0 else 1)"
  using announcing.inv_reachable [OF refl assms] by (auto simp: announcer_inv_def)

theorem announce_events_once_witness:
  "\<exists>a. announcer_step\<^sup>*\<^sup>* (announcer_start False) a \<and> an_log a = [Started, Completed, Periodic] \<and> count_list (an_log a) Completed \<le> 1"
proof -
  let ?a = "announcer_start False"
  let ?b = "announcer_round False 5 False (Some (1800, None)) 6 ?a"
  let ?c = "announcer_round True 20 True (Some (1800, None)) 21 ?b"
  let ?d = "announcer_round True 9000 True (Some (1800, None)) 9001 ?c"
  have "announcer_step\<^sup>*\<^sup>* ?a ?d"
    by (rule rtranclp.rtrancl_into_rtrancl, rule rtranclp.rtrancl_into_rtrancl, rule rtranclp.rtrancl_into_rtrancl, rule rtranclp.rtrancl_refl)
      (rule announcer_step.intros)+
  moreover have "an_log ?d = [Started, Completed, Periodic]" by code_simp
  ultimately show ?thesis using announce_events_once [of False ?d] by auto
qed

subsection \<open>Replies\<close>

lemma chunks32_exact: "length bs mod 32 = 0 \<Longrightarrow> concat (chunks32 bs) = bs \<and> (\<forall>h \<in> set (chunks32 bs). length h = 32)"
proof (induction bs rule: chunks32.induct)
  case (1 bs)
  show ?case
  proof (cases "length bs < 32")
    case True
    then have "bs = []" using "1.prems" by simp
    then show ?thesis by (simp add: chunks32.simps [of "[]"])
  next
    case False
    have "length (drop 32 bs) mod 32 = 0" using "1.prems" False by (metis le_mod_geq length_drop not_le)
    note IH = "1.IH" [OF False this]
    have c: "chunks32 bs = take 32 bs # chunks32 (drop 32 bs)" using False by (subst chunks32.simps) simp
    have "length (take 32 bs) = 32" using False by simp
    then show ?thesis using IH unfolding c by simp
  qed
qed

lemma dict_peers_length:
  "dict_peers_loop sha256 list peers = Inr ps \<Longrightarrow> \<forall>b. length (sha256 b) = 32 \<Longrightarrow> \<forall>h \<in> set peers. length h = 32 \<Longrightarrow>
   (\<forall>h \<in> set ps. length h = 32) \<and> length ps \<le> length peers + length list"
proof (induction list arbitrary: peers)
  case (Cons e list)
  obtain dest where d: "Option.bind (bget e (ascii ''ip'')) as_str = Some dest" using Cons.prems(1) by (auto split: option.splits)
  show ?case
  proof (cases "from_b64_destination sha256 (as_text dest)")
    case None
    then show ?thesis using Cons.prems d Cons.IH [of peers] by auto
  next
    case (Some h)
    then have "length h = 32" using Cons.prems(2) by (auto simp: from_b64_destination_def)
    then have "\<forall>x \<in> set (peers @ [h]). length x = 32" using Cons.prems(3) by simp
    moreover have "dict_peers_loop sha256 list (peers @ [h]) = Inr ps" using Cons.prems(1) d Some by simp
    ultimately have "(\<forall>h \<in> set ps. length h = 32) \<and> length ps \<le> length (peers @ [h]) + length list" using Cons.IH Cons.prems(2) by blast
    then show ?thesis by simp
  qed
qed simp

lemma u32_of_i64_bound: "Option.bind x u32_of_i64 = Some m \<Longrightarrow> m \<le> u32_max"
  by (auto simp: bind_eq_Some_conv u32_of_i64_def split: if_splits)

lemma parse_peers_typed:
  assumes "parse_peers sha256 v = Inr ps" "\<forall>b. length (sha256 b) = 32"
  shows "(\<forall>h \<in> set ps. length h = 32) \<and> (\<forall>bs. v = Some (BBytes bs) \<longrightarrow> concat ps = bs)"
proof (cases v)
  case (Some w)
  show ?thesis
  proof (cases w)
    case (BBytes bs)
    then have "ps = chunks32 bs" "length bs mod 32 = 0"
      using assms(1) Some by (simp_all add: parse_peers_def parse_compact_peers_def split: if_splits)
    moreover from this have "concat ps = bs" "\<forall>h \<in> set ps. length h = 32" using chunks32_exact [of bs] by (metis, metis)
    ultimately show ?thesis using BBytes Some by (metis bvalue.inject(1) option.inject)
  next
    case (BList l)
    then show ?thesis using assms Some dict_peers_length [of sha256 l "[]" ps] by (simp add: parse_peers_def parse_dict_peers_def)
  qed (use assms(1) Some in \<open>simp_all add: parse_peers_def\<close>)
qed (use assms(1) in \<open>simp add: parse_peers_def\<close>)

lemma dict_peers_error: "dict_peers_loop sha256 list peers = Inl e \<Longrightarrow> e = TrBadResponse ''peer dict without ip''"
  by (induction list arbitrary: peers) (auto split: option.splits)

lemma parse_peers_error: "parse_peers sha256 v = Inl e \<Longrightarrow> \<exists>what. e = TrBadResponse what"
  by (auto simp: parse_peers_def parse_compact_peers_def parse_dict_peers_def dest: dict_peers_error split: option.splits bvalue.splits if_splits)

text \<open>C32. Whatever a tracker sends, an accepted reply is well typed: the intervals are 32-bit numbers, every peer is a
  hash of 32 bytes, and a compact list of peers is exactly the concatenation of what was read from it. A
  refusal's reason is scrubbed and cut to its limit. The reply was read from a response whose status is 200 and whose body is within the limit; and
  when the response states a length and is not chunked, the body has exactly that length, so that one cut short is not accepted. (A
  response that states no length ends where the stream does.)\<close>

theorem announce_reply_typed:
  assumes "announce_over_until sha256 escape_debug ts request = reply" "\<forall>b. length (sha256 b) = 32"
  shows "case reply of
      Inr r \<Rightarrow> ar_interval r \<le> u32_max \<and> (\<forall>m. ar_min_interval r = Some m \<longrightarrow> m \<le> u32_max) \<and> (\<forall>h \<in> set (ar_peers r). length h = 32) \<and>
        (\<exists>body root rs s. read_response (deadline_reader ts) MAX_RESPONSE_BYTES = Inr (rs, s) \<and> rs_status rs = 200 \<and> rs_body rs = body \<and>
          length body \<le> MAX_RESPONSE_BYTES \<and>
          (\<forall>v. (str ''content-length'', v) \<in> set (rs_headers rs) \<longrightarrow>
            (\<nexists>e. (str ''transfer-encoding'', e) \<in> set (rs_headers rs) \<and> to_lower (trim (last (split_on 44 e))) = str ''chunked'') \<longrightarrow>
            decimal v = Some (length body)) \<and>
          decode body = Inr root \<and> (\<forall>bs. bget root (ascii ''peers'') = Some (BBytes bs) \<longrightarrow> concat (ar_peers r) = bs))
    | Inl (TrackerFailure reason_text) \<Rightarrow> (\<forall>c \<in> set reason_text. harmless c) \<and> length reason_text \<le> MAX_TRACKER_TEXT + 1
    | Inl e \<Rightarrow> True"
proof (cases reply)
  case (Inl e)
  show ?thesis
  proof (cases e)
    case (TrackerFailure txt0)
    then have "\<exists>s. txt0 = sanitise s" using assms(1) Inl
      by (auto simp: announce_over_until_def parse_response_def Let_def dest!: parse_peers_error
          split: option.splits sum.splits if_splits tracker_error.splits prod.splits)
    then show ?thesis using Inl TrackerFailure scrub_bounded_harmless by (auto simp: sanitise_def)
  qed (use Inl in simp_all)
next
  case (Inr r)
  then obtain rs s where rs: "read_response (deadline_reader ts) MAX_RESPONSE_BYTES = Inr (rs, s)" "rs_status rs = 200"
      "parse_response sha256 escape_debug (rs_body rs) = Inr r"
    using assms(1) by (auto simp: announce_over_until_def split: option.splits sum.splits if_splits tracker_error.splits prod.splits)
  have small: "MAX_RESPONSE_BYTES < usize_max" by (simp add: MAX_RESPONSE_BYTES_def usize_max_def)
  have "length (rs_body rs) \<le> MAX_RESPONSE_BYTES" using read_response_bound [OF rs(1) small] by simp
  moreover have "\<forall>v. (str ''content-length'', v) \<in> set (rs_headers rs) \<longrightarrow>
      (\<nexists>e. (str ''transfer-encoding'', e) \<in> set (rs_headers rs) \<and> to_lower (trim (last (split_on 44 e))) = str ''chunked'') \<longrightarrow>
      decimal v = Some (length (rs_body rs))" using read_response_bound [OF rs(1) small] by blast
  moreover obtain root where root: "decode (rs_body rs) = Inr root" "parse_peers sha256 (bget root (ascii ''peers'')) = Inr (ar_peers r)"
      "Option.bind (Option.bind (bget root (ascii ''interval'')) as_int) u32_of_i64 = Some (ar_interval r)"
      "ar_min_interval r = Option.bind (Option.bind (bget root (ascii ''min interval'')) as_int) u32_of_i64"
    using rs(3) by (auto simp: parse_response_def Let_def split: sum.splits option.splits)
  moreover have "ar_interval r \<le> u32_max" "\<forall>m. ar_min_interval r = Some m \<longrightarrow> m \<le> u32_max"
    using u32_of_i64_bound [OF root(3)] u32_of_i64_bound by (blast, metis root(4))
  moreover have "\<forall>h \<in> set (ar_peers r). length h = 32" "\<forall>bs. bget root (ascii ''peers'') = Some (BBytes bs) \<longrightarrow> concat (ar_peers r) = bs"
    using parse_peers_typed [OF root(2) assms(2)] by auto
  ultimately show ?thesis unfolding Inr sum.case using rs(1,2) by blast
qed

definition sample_reply :: bytes where
  "sample_reply = ascii ''HTTP/1.0 200 OK'' @ [13, 10] @ ascii ''Content-Length: 60'' @ [13, 10, 13, 10] @
     ascii ''d8:intervali1800e5:peers32:'' @ replicate 32 7 @ ascii ''e''"

definition sample_stream :: tracker_stream where
  "sample_stream = \<lparr>ts_write = None, ts_reader = \<lparr>rd_bytes = sample_reply, rd_sizes = [], rd_end = None\<rparr>, ts_in_time = None\<rparr>"

theorem announce_reply_typed_witness:
  "\<exists>r. announce_over_until (\<lambda>b. replicate 32 0) plain_escape sample_stream [] = Inr r \<and> ar_interval r = 1800 \<and> list_all (\<lambda>h. length h = 32) (ar_peers r)"
proof -
  let ?reply = "announce_over_until (\<lambda>b. replicate 32 0) plain_escape sample_stream []"
  have "case ?reply of Inr r \<Rightarrow> ar_interval r = 1800 | Inl e \<Rightarrow> False" by code_simp
  then obtain r where r: "?reply = Inr r" "ar_interval r = 1800" by (auto split: sum.splits)
  from announce_reply_typed [OF r(1)] show ?thesis using r by (auto simp: list_all_iff)
qed

end
