(* ===== verification/Json.thy ===== *)
theory Json
  imports Text
begin

text \<open>
  The JSON of the control API (\<^verbatim>\<open>crates/clove-core/src/json.rs\<close>): the encoder, on characters, and the parser, on the bytes of its
  text. Floating-point numbers are a type parameter with the library's printing and reading as arguments. The parser's position is the
  suffix still to be read; an error carries its length, from which \<open>json_parse\<close> computes the offset. The
  recursive descent runs on fuel, of which twice the length of the text is shown to be enough.
\<close>

subsection \<open>Values and the encoder\<close>

datatype 'f json = JNull | JBool bool | JInt int | JUInt nat | JFloat 'f | JStr rstr | JArray "'f json list" | JObject "(rstr \<times> 'f json) list"

text \<open>What the code uses of \<^verbatim>\<open>f64\<close>: \<^verbatim>\<open>is_finite\<close>, whether \<^verbatim>\<open>fract()\<close> is zero, printing by \<^verbatim>\<open>{f}\<close> and with one decimal by \<^verbatim>\<open>{f:.1}\<close>,
  \<^verbatim>\<open>str::parse\<close> and the conversion of integers.\<close>

record 'f fops =
  f_finite :: "'f \<Rightarrow> bool"
  f_whole :: "'f \<Rightarrow> bool"
  f_display :: "'f \<Rightarrow> rstr"
  f_display1 :: "'f \<Rightarrow> rstr"
  f_parse :: "bytes \<Rightarrow> 'f option"
  f_of_int :: "int \<Rightarrow> 'f"

definition hex_digit :: "nat \<Rightarrow> rchar" where
  "hex_digit n = (if n < 10 then 48 + n else 87 + n)"

definition u_escape :: "rchar \<Rightarrow> rstr" where
  "u_escape c = [92, 117, hex_digit (c div 4096 mod 16), hex_digit (c div 256 mod 16), hex_digit (c div 16 mod 16), hex_digit (c mod 16)]"

definition write_char :: "rchar \<Rightarrow> rstr" where
  "write_char c =
     (if c = 34 then [92, 34]
      else if c = 92 then [92, 92]
      else if c = 8 then [92, 98]
      else if c = 9 then [92, 116]
      else if c = 10 then [92, 110]
      else if c = 12 then [92, 102]
      else if c = 13 then [92, 114]
      else if c < 0x20 \<or> (0x7f \<le> c \<and> c \<le> 0x9f) then u_escape c
      else if c = 0x2028 \<or> c = 0x2029 then u_escape c
      else [c])"

definition write_string :: "rstr \<Rightarrow> rstr" where
  "write_string s = [34] @ concat (map write_char s) @ [34]"

text \<open>A whole float would print as an integer, which reads back as one; it keeps its fraction.\<close>

definition write_float :: "'f fops \<Rightarrow> 'f \<Rightarrow> rstr" where
  "write_float ops f =
     (if f_finite ops f then (if f_whole ops f then f_display1 ops f else f_display ops f) else str ''null'')"

lemma write_float_null [simp]: "\<not> f_finite ops f \<Longrightarrow> write_float ops f = str ''null''"
  by (simp add: write_float_def)

fun json_encode :: "'f fops \<Rightarrow> 'f json \<Rightarrow> rstr" where
  "json_encode ops JNull = str ''null''"
| "json_encode ops (JBool True) = str ''true''"
| "json_encode ops (JBool False) = str ''false''"
| "json_encode ops (JInt n) = chars (dec_int n)"
| "json_encode ops (JUInt n) = chars (dec_digits n)"
| "json_encode ops (JFloat f) = write_float ops f"
| "json_encode ops (JStr s) = write_string s"
| "json_encode ops (JArray items) = [91] @ join_on 44 (map (json_encode ops) items) @ [93]"
| "json_encode ops (JObject members) = [123] @ join_on 44 (map (\<lambda>(key, val). write_string key @ [58] @ json_encode ops val) members) @ [125]"

subsection \<open>Accessors\<close>

fun json_get :: "'f json \<Rightarrow> rstr \<Rightarrow> 'f json option" where
  "json_get (JObject members) key = map_of members key"
| "json_get _ key = None"

fun json_as_str :: "'f json \<Rightarrow> rstr option" where
  "json_as_str (JStr s) = Some s"
| "json_as_str _ = None"

fun json_as_bool :: "'f json \<Rightarrow> bool option" where
  "json_as_bool (JBool b) = Some b"
| "json_as_bool _ = None"

fun json_as_array :: "'f json \<Rightarrow> 'f json list option" where
  "json_as_array (JArray items) = Some items"
| "json_as_array _ = None"

fun json_as_u64 :: "'f json \<Rightarrow> nat option" where
  "json_as_u64 (JUInt n) = Some n"
| "json_as_u64 (JInt n) = u64_of_i64 n"
| "json_as_u64 _ = None"

fun json_as_f64 :: "'f fops \<Rightarrow> 'f json \<Rightarrow> 'f option" where
  "json_as_f64 ops (JInt n) = Some (f_of_int ops n)"
| "json_as_f64 ops (JUInt n) = Some (f_of_int ops (int n))"
| "json_as_f64 ops (JFloat f) = Some f"
| "json_as_f64 ops _ = None"

definition json_to_line :: "'f fops \<Rightarrow> 'f json \<Rightarrow> rstr" where
  "json_to_line ops v = (case v of JStr s \<Rightarrow> s | JNull \<Rightarrow> str ''-'' | other \<Rightarrow> json_encode ops other)"

subsection \<open>The parser\<close>

definition JSON_MAX_DEPTH :: nat where "JSON_MAX_DEPTH = 128"

text \<open>What went wrong, and how many bytes were left.\<close>

datatype jreason = TrailingData | ExpectedValue | InvalidLiteral | ExpectedKey | ExpectedColon | ExpectedCommaBrace | ExpectedCommaBracket
  | TooDeep | BadUtf8 | Unterminated | ControlChar | BadEscape | LoneHigh | BadLow | LoneLow | BadUnicode | ExpectedHex | BadNumber | OutOfRange
  | OutOfFuel

type_synonym jerr = "nat \<times> jreason"

definition jfail :: "bytes \<Rightarrow> jreason \<Rightarrow> jerr + 'a" where
  "jfail rest what = Inl (length rest, what)"

definition next_is :: "bytes \<Rightarrow> byte \<Rightarrow> bool" where
  "next_is bs c \<longleftrightarrow> bs \<noteq> [] \<and> hd bs = c"

definition json_ws :: "byte \<Rightarrow> bool" where
  "json_ws b \<longleftrightarrow> b = 32 \<or> b = 9 \<or> b = 10 \<or> b = 13"

definition skip_ws :: "bytes \<Rightarrow> bytes" where
  "skip_ws bs = dropWhile json_ws bs"

definition hex_value :: "byte \<Rightarrow> nat option" where
  "hex_value c =
     (if byte_in 48 57 c then Some (unat (c - 48))
      else if byte_in 97 102 c then Some (unat (c - 97 + 10))
      else if byte_in 65 70 c then Some (unat (c - 65 + 10))
      else None)"

fun hex_loop4 :: "nat \<Rightarrow> nat \<Rightarrow> bytes \<Rightarrow> jerr + nat \<times> bytes" where
  "hex_loop4 0 v bs = Inr (v, bs)"
| "hex_loop4 (Suc k) v bs =
     (case bs of
        [] \<Rightarrow> jfail bs ExpectedHex
      | c # bs' \<Rightarrow> (case hex_value c of Some d \<Rightarrow> hex_loop4 k (v * 16 + d) bs' | None \<Rightarrow> jfail bs ExpectedHex))"

definition hex4 :: "bytes \<Rightarrow> jerr + nat \<times> bytes" where
  "hex4 bs = hex_loop4 4 0 bs"

text \<open>After the \<^verbatim>\<open>u\<close>: the scalar value written in one or two groups of hexadecimal digits.\<close>

definition unicode_escape :: "bytes \<Rightarrow> jerr + rchar \<times> bytes" where
  "unicode_escape bs =
     bindE (hex4 bs) (\<lambda>(hi, bs1).
     bindE
       (if 0xD800 \<le> hi \<and> hi \<le> 0xDBFF then
          if \<not> next_is bs1 92 then jfail bs1 LoneHigh
          else if \<not> next_is (tl bs1) 117 then jfail (tl bs1) LoneHigh
          else
            bindE (hex4 (tl (tl bs1))) (\<lambda>(lo, bs2).
              if \<not> (0xDC00 \<le> lo \<and> lo \<le> 0xDFFF) then jfail bs2 BadLow
              else Inr (0x10000 + (hi - 0xD800) * 1024 + (lo - 0xDC00), bs2))
        else if 0xDC00 \<le> hi \<and> hi \<le> 0xDFFF then jfail bs1 LoneLow
        else Inr (hi, bs1)) (\<lambda>(code, bs3).
     if is_scalar code then Inr (code, bs3) else jfail bs3 BadUnicode))"

text \<open>After the backslash.\<close>

definition escape :: "bytes \<Rightarrow> jerr + rchar \<times> bytes" where
  "escape bs =
     (case bs of
        [] \<Rightarrow> jfail bs BadEscape
      | c # r \<Rightarrow>
          if c = 34 then Inr (34, r)
          else if c = 92 then Inr (92, r)
          else if c = 47 then Inr (47, r)
          else if c = 98 then Inr (8, r)
          else if c = 102 then Inr (12, r)
          else if c = 110 then Inr (10, r)
          else if c = 114 then Inr (13, r)
          else if c = 116 then Inr (9, r)
          else if c = 117 then unicode_escape r
          else jfail bs BadEscape)"

definition ordinary :: "byte \<Rightarrow> bool" where
  "ordinary c \<longleftrightarrow> c \<noteq> 34 \<and> c \<noteq> 92 \<and> \<not> c < 0x20"

lemma hex_loop4_shorter: "hex_loop4 k v bs = Inr (w, r) \<Longrightarrow> length r + k = length bs"
  by (induction k v bs rule: hex_loop4.induct) (auto simp: jfail_def split: list.splits option.splits)

lemma hex4_shorter: "hex4 bs = Inr (w, r) \<Longrightarrow> length r < length bs"
  using hex_loop4_shorter [of 4 0 bs w r] by (simp add: hex4_def)

lemma escape_shorter: "escape bs = Inr (c, r) \<Longrightarrow> length r < length bs"
proof -
  have u: "length r < length x" if "unicode_escape x = Inr (c, r)" for x
    using that
    by (auto simp: unicode_escape_def bindE_Inr jfail_def split: if_splits prod.splits dest!: hex4_shorter)
  assume "escape bs = Inr (c, r)"
  then show ?thesis by (auto simp: escape_def jfail_def split: list.splits if_splits dest!: u)
qed

text \<open>After the opening quote.\<close>

function json_string :: "bytes \<Rightarrow> rstr \<Rightarrow> jerr + rstr \<times> bytes" where
  "json_string bs out =
     (case from_utf8 (takeWhile ordinary bs) of
        None \<Rightarrow> jfail (dropWhile ordinary bs) BadUtf8
      | Some chunk \<Rightarrow>
          (case dropWhile ordinary bs of
             [] \<Rightarrow> jfail [] Unterminated
           | c # r \<Rightarrow>
               if c = 34 then Inr (out @ chunk, r)
               else if c = 92 then
                 (case escape r of
                    Inl e \<Rightarrow> Inl e
                  | Inr (x, r') \<Rightarrow> json_string r' (out @ chunk @ [x]))
               else jfail (c # r) ControlChar))"
  by pat_completeness auto
termination
proof (relation "measure (\<lambda>(bs, out). length bs)")
  fix bs :: bytes and out chunk c r y x r'
  assume "dropWhile ordinary bs = c # r" "escape r = Inr y" "(x, r') = y"
  then have "length r' < length r" "length (c # r) \<le> length bs" using escape_shorter length_dropWhile_le by metis+
  then show "((r', out @ chunk @ [x]), bs, out) \<in> measure (\<lambda>(bs, out). length bs)" by simp
qed simp

declare json_string.simps [simp del]

text \<open>A number: the text it takes up, and whether it has a fraction or an exponent.\<close>

definition scan_fraction :: "bytes \<Rightarrow> bytes \<times> bytes" where
  "scan_fraction bs = (if next_is bs 46 then (46 # takeWhile is_digit (tl bs), dropWhile is_digit (tl bs)) else ([], bs))"

definition scan_exponent :: "bytes \<Rightarrow> bytes \<times> bytes" where
  "scan_exponent bs =
     (if next_is bs 101 \<or> next_is bs 69 then
        (let r = tl bs;
             sign = (if next_is r 43 \<or> next_is r 45 then [hd r] else []);
             r = drop (length sign) r in
         (hd bs # sign @ takeWhile is_digit r, dropWhile is_digit r))
      else ([], bs))"

definition scan_number :: "bytes \<Rightarrow> bytes \<times> bool \<times> bytes" where
  "scan_number bs =
     (let sign = (if next_is bs 45 then [45] else []);
          r = drop (length sign) bs;
          whole = takeWhile is_digit r;
          (frac, r1) = scan_fraction (dropWhile is_digit r);
          (expo, r2) = scan_exponent r1 in
      (sign @ whole @ frac @ expo, frac \<noteq> [] \<or> expo \<noteq> [], r2))"

definition parse_i64 :: "bytes \<Rightarrow> int option" where
  "parse_i64 t =
     (let ds = (if next_is t 45 then tl t else t);
          n = int (digits_val 0 ds);
          n = (if next_is t 45 then - n else n) in
      if ds \<noteq> [] \<and> list_all is_digit ds \<and> in_i64 n then Some n else None)"

definition parse_u64 :: "bytes \<Rightarrow> nat option" where
  "parse_u64 t = (if t \<noteq> [] \<and> list_all is_digit t \<and> digits_val 0 t \<le> u64_max then Some (digits_val 0 t) else None)"

definition json_number :: "'f fops \<Rightarrow> bytes \<Rightarrow> jerr + 'f json \<times> bytes" where
  "json_number ops bs =
     (case scan_number bs of
        (t, is_float, rest) \<Rightarrow>
          if \<not> is_float \<and> parse_i64 t \<noteq> None then Inr (JInt (the (parse_i64 t)), rest)
          else if \<not> is_float \<and> parse_u64 t \<noteq> None then Inr (JUInt (the (parse_u64 t)), rest)
          else
            (case f_parse ops t of
               None \<Rightarrow> jfail rest BadNumber
             | Some v \<Rightarrow> if f_finite ops v then Inr (JFloat v, rest) else jfail rest OutOfRange))"

definition json_literal :: "bytes \<Rightarrow> 'f json \<Rightarrow> bytes \<Rightarrow> jerr + 'f json \<times> bytes" where
  "json_literal word v bs = (case strip_prefix word bs of Some rest \<Rightarrow> Inr (v, rest) | None \<Rightarrow> jfail bs InvalidLiteral)"

text \<open>\<^verbatim>\<open>value\<close>, and the loops of \<^verbatim>\<open>array\<close> and \<^verbatim>\<open>object\<close> with what they have read so far; \<open>depth\<close> is the nesting on entry.\<close>

fun json_value :: "'f fops \<Rightarrow> nat \<Rightarrow> nat \<Rightarrow> bytes \<Rightarrow> jerr + 'f json \<times> bytes"
  and array_loop :: "'f fops \<Rightarrow> nat \<Rightarrow> nat \<Rightarrow> bytes \<Rightarrow> 'f json list \<Rightarrow> jerr + 'f json \<times> bytes"
  and object_loop :: "'f fops \<Rightarrow> nat \<Rightarrow> nat \<Rightarrow> bytes \<Rightarrow> (rstr \<times> 'f json) list \<Rightarrow> jerr + 'f json \<times> bytes" where
  "json_value ops 0 depth bs = jfail bs OutOfFuel"
| "json_value ops (Suc fuel) depth bs =
     (if next_is bs 123 then
        if depth \<ge> JSON_MAX_DEPTH then jfail bs TooDeep
        else
          let r = skip_ws (tl bs) in
          if next_is r 125 then Inr (JObject [], tl r) else object_loop ops fuel (depth + 1) r []
      else if next_is bs 91 then
        if depth \<ge> JSON_MAX_DEPTH then jfail bs TooDeep
        else
          let r = skip_ws (tl bs) in
          if next_is r 93 then Inr (JArray [], tl r) else array_loop ops fuel (depth + 1) r []
      else if next_is bs 34 then bindE (json_string (tl bs) []) (\<lambda>(s, r). Inr (JStr s, r))
      else if next_is bs 116 then json_literal (ascii ''true'') (JBool True) bs
      else if next_is bs 102 then json_literal (ascii ''false'') (JBool False) bs
      else if next_is bs 110 then json_literal (ascii ''null'') JNull bs
      else if bs \<noteq> [] \<and> (hd bs = 45 \<or> is_digit (hd bs)) then json_number ops bs
      else jfail bs ExpectedValue)"
| "array_loop ops 0 depth bs items = jfail bs OutOfFuel"
| "array_loop ops (Suc fuel) depth bs items =
     (case json_value ops fuel depth (skip_ws bs) of
        Inl e \<Rightarrow> Inl e
      | Inr (v, r) \<Rightarrow>
          (let r = skip_ws r in
           if next_is r 44 then array_loop ops fuel depth (tl r) (items @ [v])
           else if next_is r 93 then Inr (JArray (items @ [v]), tl r)
           else jfail r ExpectedCommaBracket))"
| "object_loop ops 0 depth bs members = jfail bs OutOfFuel"
| "object_loop ops (Suc fuel) depth bs members =
     (let r = skip_ws bs in
      if \<not> next_is r 34 then jfail r ExpectedKey
      else
        (case json_string (tl r) [] of
           Inl e \<Rightarrow> Inl e
         | Inr (key, r) \<Rightarrow>
             (let r = skip_ws r in
              if \<not> next_is r 58 then jfail r ExpectedColon
              else
                (case json_value ops fuel depth (skip_ws (tl r)) of
                   Inl e \<Rightarrow> Inl e
                 | Inr (v, r) \<Rightarrow>
                     (let r = skip_ws r in
                      if next_is r 44 then object_loop ops fuel depth (tl r) (members @ [(key, v)])
                      else if next_is r 125 then Inr (JObject (members @ [(key, v)]), tl r)
                      else jfail r ExpectedCommaBrace)))))"

declare json_value.simps(2) [simp del] array_loop.simps(2) [simp del] object_loop.simps(2) [simp del]

record parse_error =
  je_at :: nat
  je_what :: jreason

definition json_parse :: "'f fops \<Rightarrow> rstr \<Rightarrow> parse_error + 'f json" where
  "json_parse ops input =
     (let bs = str_bytes input;
          fail = (\<lambda>(left, what). Inl \<lparr>je_at = length bs - left, je_what = what\<rparr>) in
      case json_value ops (2 * length bs + 2) 0 (skip_ws bs) of
        Inl e \<Rightarrow> fail e
      | Inr (v, r) \<Rightarrow>
          (let r = skip_ws r in
           if r \<noteq> [] then fail (length r, TrailingData) else Inr v))"

subsection \<open>Lemmas: strings\<close>

definition plain :: "rchar \<Rightarrow> bool" where
  "plain c \<longleftrightarrow> 0x20 \<le> c \<and> c \<noteq> 34 \<and> c \<noteq> 92 \<and> \<not> (0x7f \<le> c \<and> c \<le> 0x9f) \<and> c \<noteq> 0x2028 \<and> c \<noteq> 0x2029"

lemma write_plain: "plain c \<Longrightarrow> write_char c = [c]"
  by (auto simp: plain_def write_char_def)

lemma utf8_high:
  assumes "0x80 \<le> c" "b \<in> set (utf8_char c)" "is_scalar c"
  shows "0x80 \<le> b"
proof (rule ccontr)
  assume "\<not> 0x80 \<le> b"
  then have b: "b < 0x80" by simp
  then have "unat b = c" using str_bytes_low [of "[c]" b] assms by (simp add: str_bytes_def)
  then show False using b assms(1) by (simp add: word_less_nat_alt)
qed

lemma plain_ordinary: "plain c \<Longrightarrow> is_scalar c \<Longrightarrow> b \<in> set (utf8_char c) \<Longrightarrow> ordinary b"
proof (cases "c < 0x80")
  case True
  assume "plain c" "b \<in> set (utf8_char c)"
  then show ?thesis using True
    by (auto simp: plain_def utf8_char_def ordinary_def word_less_nat_alt unat_of_nat word_unat_eq_iff)
next
  case False
  assume "is_scalar c" "b \<in> set (utf8_char c)"
  then have "0x80 \<le> b" using False utf8_high by (meson not_less)
  then show ?thesis by (auto simp: ordinary_def word_le_nat_alt word_less_nat_alt)
qed

lemma hex_value_digit: "n < 16 \<Longrightarrow> hex_value (of_nat (hex_digit n)) = Some n"
proof -
  assume "n < 16"
  then have "n \<in> set [0..<16]" by simp
  moreover have "list_all (\<lambda>n. hex_value (of_nat (hex_digit n)) = Some n) [0..<16]" by code_simp
  ultimately show ?thesis by (simp only: list_all_iff)
qed

lemma hex4_digits:
  "a < 16 \<Longrightarrow> b < 16 \<Longrightarrow> c < 16 \<Longrightarrow> d < 16 \<Longrightarrow>
    hex4 (of_nat (hex_digit a) # of_nat (hex_digit b) # of_nat (hex_digit c) # of_nat (hex_digit d) # r) =
      Inr (((a * 16 + b) * 16 + c) * 16 + d, r)"
  by (simp add: hex4_def hex_value_digit numeral_eq_Suc)

lemma hex_digit_ascii: "n < 16 \<Longrightarrow> hex_digit n < 0x80"
  by (simp add: hex_digit_def)

lemma split_hex:
  fixes c :: nat
  assumes "c < 65536"
  shows "((c div 4096 mod 16 * 16 + c div 256 mod 16) * 16 + c div 16 mod 16) * 16 + c mod 16 = c"
proof -
  have "c div 4096 < 16" using assms by (simp add: less_mult_imp_div_less)
  then have "c div 4096 mod 16 = c div 256 div 16" by (simp add: div_mult2_eq [symmetric])
  moreover have "c div 256 = c div 16 div 16" by (simp add: div_mult2_eq [symmetric])
  ultimately show ?thesis by presburger
qed

lemma escape_u:
  assumes "c < 65536" "is_scalar c"
  shows "escape (tl (str_bytes (u_escape c)) @ r) = Inr (c, r)"
proof -
  have "hex4 (of_nat (hex_digit (c div 4096 mod 16)) # of_nat (hex_digit (c div 256 mod 16)) # of_nat (hex_digit (c div 16 mod 16)) #
      of_nat (hex_digit (c mod 16)) # r) = Inr (c, r)"
    by (subst hex4_digits) (simp_all only: split_hex [OF assms(1)] mod_less_divisor zero_less_numeral)
  then have "unicode_escape (of_nat (hex_digit (c div 4096 mod 16)) # of_nat (hex_digit (c div 256 mod 16)) # of_nat (hex_digit (c div 16 mod 16)) #
      of_nat (hex_digit (c mod 16)) # r) = Inr (c, r)"
    using assms by (auto simp: unicode_escape_def is_scalar_def)
  moreover have "str_bytes (u_escape c) = map of_nat (u_escape c)"
    by (rule str_bytes_ascii) (simp add: u_escape_def hex_digit_ascii)
  ultimately show ?thesis by (simp add: u_escape_def escape_def)
qed

lemma write_escaped:
  assumes "\<not> plain c" "is_scalar c"
  shows "\<exists>e. str_bytes (write_char c) = 92 # e \<and> (\<forall>r. escape (e @ r) = Inr (c, r))"
proof -
  consider "c = 34 \<or> c = 92 \<or> c = 8 \<or> c = 9 \<or> c = 10 \<or> c = 12 \<or> c = 13" | "write_char c = u_escape c" "c < 65536"
    using assms(1) unfolding plain_def write_char_def by (cases "c < 32") (force split: if_splits)+
  then show ?thesis
  proof cases
    case 1
    then show ?thesis by (elim disjE) (simp_all add: write_char_def utf8_char_def escape_def)
  next
    case 2
    have "str_bytes (u_escape c) = 92 # tl (str_bytes (u_escape c))" by (simp add: u_escape_def utf8_char_def)
    then show ?thesis using 2 escape_u [OF 2(2) assms(2)] by metis
  qed
qed

lemma json_string_step:
  assumes "list_all plain p" "list_all is_scalar p" "rest \<noteq> [] \<Longrightarrow> \<not> ordinary (hd rest)"
  shows "json_string (str_bytes p @ rest) out =
    (case rest of
       [] \<Rightarrow> jfail [] Unterminated
     | c # r \<Rightarrow>
         if c = 34 then Inr (out @ p, r)
         else if c = 92 then (case escape r of Inl e \<Rightarrow> Inl e | Inr (x, r') \<Rightarrow> json_string r' (out @ p @ [x]))
         else jfail (c # r) ControlChar)"
proof -
  have "\<forall>b \<in> set (str_bytes p). ordinary b"
    using assms(1,2) plain_ordinary by (auto simp: str_bytes_def list_all_iff)
  then have "takeWhile ordinary (str_bytes p @ rest) = str_bytes p" "dropWhile ordinary (str_bytes p @ rest) = rest"
    using assms(3) by (cases rest; auto simp: takeWhile_append2 dropWhile_append2)+
  moreover have "from_utf8 (str_bytes p) = Some p" using assms(2) by (simp add: from_utf8_iff list_all_iff)
  ultimately show ?thesis by (simp add: json_string.simps [of "str_bytes p @ rest"])
qed

lemma json_string_written:
  "list_all is_scalar s \<Longrightarrow> json_string (str_bytes (concat (map write_char s)) @ 34 # rest) out = Inr (out @ s, rest)"
proof (induction "length s" arbitrary: s out rule: less_induct)
  case less
  define p q where "p = takeWhile plain s" and "q = dropWhile plain s"
  have s: "s = p @ q" and p: "list_all plain p" by (auto simp: p_def q_def list_all_iff dest: set_takeWhileD)
  have sc: "list_all is_scalar p" "list_all is_scalar q" using less.prems s by auto
  have wp: "concat (map write_char p) = p" using p by (induction p) (simp_all add: write_plain)
  show ?case
  proof (cases q)
    case Nil
    have "json_string (str_bytes p @ 34 # rest) out = Inr (out @ p, rest)"
      by (subst json_string_step [OF p sc(1)]) (simp_all add: ordinary_def)
    then show ?thesis using s wp Nil by simp
  next
    case (Cons c q')
    then have "\<not> plain c" by (metis q_def hd_dropWhile list.distinct(1) list.sel(1))
    then obtain e where e: "str_bytes (write_char c) = 92 # e" "\<And>r. escape (e @ r) = Inr (c, r)"
      using write_escaped sc(2) Cons by fastforce
    have "json_string (str_bytes p @ 92 # e @ str_bytes (concat (map write_char q')) @ 34 # rest) out =
        json_string (str_bytes (concat (map write_char q')) @ 34 # rest) (out @ p @ [c])"
      by (subst json_string_step [OF p sc(1)]) (simp_all add: ordinary_def e(2))
    moreover have "\<dots> = Inr ((out @ p @ [c]) @ q', rest)"
      by (rule less.hyps) (use s Cons sc(2) in auto)
    ultimately show ?thesis using s wp Cons e(1) by simp
  qed
qed

subsection \<open>Lemmas: numbers\<close>

text \<open>What may follow a value inside a document the encoder wrote.\<close>

definition stop :: "bytes \<Rightarrow> bool" where
  "stop rest \<longleftrightarrow> rest = [] \<or> hd rest \<in> {44, 93, 125}"

lemma stop_simps [simp]: "stop []" "stop (44 # r)" "stop (93 # r)" "stop (125 # r)"
  by (simp_all add: stop_def)

lemma stop_not:
  assumes "stop rest"
  shows "\<not> next_is rest 46" "\<not> next_is rest 101" "\<not> next_is rest 69" "rest \<noteq> [] \<Longrightarrow> \<not> is_digit (hd rest)"
    and "skip_ws rest = rest"
  using assms by (cases rest; auto simp: stop_def next_is_def is_digit_def byte_in_def skip_ws_def json_ws_def)+

lemma digits_split:
  assumes "list_all is_digit ds" "rest \<noteq> [] \<Longrightarrow> \<not> is_digit (hd rest)"
  shows "takeWhile is_digit (ds @ rest) = ds" "dropWhile is_digit (ds @ rest) = rest"
  using assms by (cases rest; auto simp: list_all_iff takeWhile_append2 dropWhile_append2)+

lemma digit_not_minus [simp]: "is_digit b \<Longrightarrow> b \<noteq> 45"
  by (auto simp: is_digit_def byte_in_def)

definition minus_sign :: "bool \<Rightarrow> bytes" where
  "minus_sign neg = (if neg then [45] else [])"

lemma scan_sign:
  assumes "list_all is_digit ds" "ds \<noteq> []"
  shows "next_is (minus_sign neg @ ds @ r) 45 = neg"
  using assms by (cases ds) (auto simp: minus_sign_def next_is_def)

lemma scan_whole:
  assumes "list_all is_digit ds" "ds \<noteq> []" "stop rest"
  shows "scan_number (minus_sign neg @ ds @ rest) = (minus_sign neg @ ds, False, rest)"
  using assms scan_sign [OF assms(1,2), of neg rest] stop_not [OF assms(3)] digits_split [OF assms(1), of rest]
  by (simp add: scan_number_def scan_fraction_def scan_exponent_def minus_sign_def)

lemma scan_float:
  assumes "list_all is_digit ds" "ds \<noteq> []" "list_all is_digit fs" "stop rest"
  shows "scan_number (minus_sign neg @ ds @ 46 # fs @ rest) = (minus_sign neg @ ds @ 46 # fs, True, rest)"
proof -
  have "takeWhile is_digit (ds @ 46 # fs @ rest) = ds" "dropWhile is_digit (ds @ 46 # fs @ rest) = 46 # fs @ rest"
    using digits_split [OF assms(1), of "46 # fs @ rest"] by (simp_all add: is_digit_def byte_in_def)
  moreover have "scan_fraction (46 # fs @ rest) = (46 # fs, rest)"
    using stop_not [OF assms(4)] digits_split [OF assms(3), of rest] by (simp add: scan_fraction_def next_is_def)
  moreover have "scan_exponent rest = ([], rest)" using stop_not [OF assms(4)] by (simp add: scan_exponent_def)
  moreover have "drop (length (minus_sign neg)) (minus_sign neg @ ds @ 46 # fs @ rest) = ds @ 46 # fs @ rest" by simp
  ultimately show ?thesis
    using scan_sign [OF assms(1,2), of neg "46 # fs @ rest"]
    unfolding scan_number_def minus_sign_def [symmetric] by (simp add: Let_def minus_sign_def [symmetric])
qed

lemma dec_digits_all: "list_all is_digit (dec_digits n)"
  by (auto simp: list_all_iff dest: dec_digits_is_digit)

lemma parse_i64_signed:
  assumes "list_all is_digit ds" "ds \<noteq> []"
  shows "parse_i64 (minus_sign neg @ ds) = checked_i64 (if neg then - int (digits_val 0 ds) else int (digits_val 0 ds))"
  using assms scan_sign [OF assms, of neg "[]"] by (auto simp: parse_i64_def checked_i64_def minus_sign_def)

lemma number_int:
  assumes "in_i64 n" "stop rest"
  shows "json_number ops (dec_int n @ rest) = Inr (JInt n, rest)"
proof -
  have d: "dec_int n = minus_sign (n < 0) @ dec_digits (nat \<bar>n\<bar>)" by (simp add: dec_int_def minus_sign_def)
  have "parse_i64 (dec_int n) = Some n" using assms(1) unfolding d by (simp add: parse_i64_signed [OF dec_digits_all] checked_i64_def)
  then show ?thesis using scan_whole [OF dec_digits_all _ assms(2)] unfolding d by (simp add: json_number_def)
qed

lemma number_uint:
  assumes "n \<le> u64_max" "stop rest"
  shows "json_number ops (dec_digits n @ rest) = Inr (if int n \<le> i64_max then JInt (int n) else JUInt n, rest)"
proof -
  have "parse_i64 (dec_digits n) = (if int n \<le> i64_max then Some (int n) else None)"
    using parse_i64_signed [OF dec_digits_all, of n False] by (simp add: minus_sign_def checked_i64_def in_i64_def i64_min_def)
  moreover have "parse_u64 (dec_digits n) = Some n" using assms(1) by (simp add: parse_u64_def dec_digits_all)
  moreover have "scan_number (dec_digits n @ rest) = (dec_digits n, False, rest)"
    using scan_whole [OF dec_digits_all _ assms(2), of n False] by (simp add: minus_sign_def)
  ultimately show ?thesis by (simp add: json_number_def)
qed

text \<open>What the standard library documents of finite floats: \<^verbatim>\<open>{f}\<close> never uses an exponent, and prints a whole number as bare
  digits and any other with a point; \<^verbatim>\<open>{f:.1}\<close> always prints a point; and reading gives a number back from its \<^verbatim>\<open>{f}\<close>, and a whole one from its
  \<^verbatim>\<open>{f:.1}\<close>, which is exact.\<close>

definition float_text :: "rstr \<Rightarrow> bool" where
  "float_text t \<longleftrightarrow> (\<exists>neg ds fs. t = chars (minus_sign neg @ ds @ 46 # fs) \<and> list_all is_digit ds \<and> list_all is_digit fs \<and> ds \<noteq> [])"

definition whole_text :: "rstr \<Rightarrow> bool" where
  "whole_text t \<longleftrightarrow> (\<exists>neg ds. t = chars (minus_sign neg @ ds) \<and> list_all is_digit ds \<and> ds \<noteq> [])"

definition float_laws :: "'f fops \<Rightarrow> bool" where
  "float_laws ops \<longleftrightarrow>
     (\<forall>f. f_finite ops f \<longrightarrow>
        f_parse ops (str_bytes (f_display ops f)) = Some f \<and> float_text (f_display1 ops f) \<and>
        (if f_whole ops f then whole_text (f_display ops f) \<and> f_parse ops (str_bytes (f_display1 ops f)) = Some f
         else float_text (f_display ops f)))"

text \<open>So whatever the encoder writes of a finite float is a sign, digits, a point and digits that read back.\<close>

lemma float_written:
  assumes "float_laws ops" "f_finite ops f"
  shows "float_text (write_float ops f)" "f_parse ops (str_bytes (write_float ops f)) = Some f"
  using assms by (auto simp: write_float_def float_laws_def split: if_splits)

lemma number_bytes_ascii: "list_all is_digit ds \<Longrightarrow> list_all is_digit fs \<Longrightarrow> str_bytes (chars (minus_sign neg @ ds @ 46 # fs)) = minus_sign neg @ ds @ 46 # fs"
  by (rule str_bytes_chars) (auto simp: minus_sign_def list_all_iff is_digit_def byte_in_def word_le_nat_alt word_less_nat_alt)

lemma number_float:
  assumes "float_laws ops" "f_finite ops f" "stop rest"
  shows "json_number ops (str_bytes (write_float ops f) @ rest) = Inr (JFloat f, rest)"
proof -
  obtain neg ds fs where t: "write_float ops f = chars (minus_sign neg @ ds @ 46 # fs)" and d: "list_all is_digit ds" "list_all is_digit fs" "ds \<noteq> []"
    using float_written(1) [OF assms(1,2)] unfolding float_text_def by blast
  have b: "str_bytes (write_float ops f) = minus_sign neg @ ds @ 46 # fs" using t d number_bytes_ascii by simp
  then have "f_parse ops (minus_sign neg @ ds @ 46 # fs) = Some f" using float_written(2) [OF assms(1,2)] by simp
  then show ?thesis using scan_float [OF d(1,3,2) assms(3), of neg] assms(2) unfolding b by (simp add: json_number_def)
qed

subsection \<open>Lemmas: the encoder's documents are read back\<close>

fun json_norm :: "'f fops \<Rightarrow> 'f json \<Rightarrow> 'f json" where
  "json_norm ops (JUInt n) = (if int n \<le> i64_max then JInt (int n) else JUInt n)"
| "json_norm ops (JFloat f) = (if f_finite ops f then JFloat f else JNull)"
| "json_norm ops (JArray items) = JArray (map (json_norm ops) items)"
| "json_norm ops (JObject members) = JObject (map (\<lambda>(key, val). (key, json_norm ops val)) members)"
| "json_norm ops v = v"

text \<open>The values the Rust types can hold.\<close>

fun json_good :: "'f json \<Rightarrow> bool" where
  "json_good (JInt n) = in_i64 n"
| "json_good (JUInt n) = (n \<le> u64_max)"
| "json_good (JStr s) = list_all is_scalar s"
| "json_good (JArray items) = list_all json_good items"
| "json_good (JObject members) = list_all (\<lambda>(key, val). list_all is_scalar key \<and> json_good val) members"
| "json_good v = True"

fun json_depth :: "'f json \<Rightarrow> nat" where
  "json_depth (JArray items) = Suc (foldr max (map json_depth items) 0)"
| "json_depth (JObject members) = Suc (foldr max (map (\<lambda>(key, val). json_depth val) members) 0)"
| "json_depth v = 0"

lemma foldr_max_le: "foldr max ns 0 \<le> (n :: nat) \<longleftrightarrow> (\<forall>m \<in> set ns. m \<le> n)"
  by (induction ns) auto

definition json_bytes :: "'f fops \<Rightarrow> 'f json \<Rightarrow> bytes" where
  "json_bytes ops v = str_bytes (json_encode ops v)"

definition member_bytes :: "'f fops \<Rightarrow> rstr \<times> 'f json \<Rightarrow> bytes" where
  "member_bytes ops = (\<lambda>(key, val). str_bytes (write_string key) @ 58 # json_bytes ops val)"

lemma utf8_low [simp]: "c < 0x80 \<Longrightarrow> utf8_char c = [of_nat c]"
  by (simp add: utf8_char_def)

lemma str_bytes_join: "sep < 0x80 \<Longrightarrow> str_bytes (join_on sep ls) = join_on (of_nat sep) (map str_bytes ls)"
  by (induction sep ls rule: join_on.induct) simp_all

lemma str_bytes_number: "list_all is_digit ds \<Longrightarrow> str_bytes (chars (minus_sign neg @ ds)) = minus_sign neg @ ds"
  by (rule str_bytes_chars) (auto simp: minus_sign_def list_all_iff is_digit_def byte_in_def word_le_nat_alt word_less_nat_alt)

lemma dec_int_signed: "dec_int n = minus_sign (n < 0) @ dec_digits (nat \<bar>n\<bar>)"
  by (simp add: dec_int_def minus_sign_def)

lemma json_bytes_simps:
  "json_bytes ops (JInt n) = dec_int n"
  "json_bytes ops (JUInt m) = dec_digits m"
  "json_bytes ops (JStr s) = 34 # str_bytes (concat (map write_char s)) @ [34]"
  "json_bytes ops (JArray items) = 91 # join_on 44 (map (json_bytes ops) items) @ [93]"
  "json_bytes ops (JObject members) = 123 # join_on 44 (map (member_bytes ops) members) @ [125]"
proof -
  show "json_bytes ops (JInt n) = dec_int n"
    using str_bytes_number [OF dec_digits_all] by (simp add: json_bytes_def dec_int_signed)
  show "json_bytes ops (JUInt m) = dec_digits m"
    using str_bytes_number [OF dec_digits_all, of False m] by (simp add: json_bytes_def minus_sign_def)
  show "json_bytes ops (JObject members) = 123 # join_on 44 (map (member_bytes ops) members) @ [125]"
    by (simp add: json_bytes_def str_bytes_join comp_def member_bytes_def case_prod_unfold)
  have "(\<lambda>x. str_bytes (json_encode ops x)) = json_bytes ops" by (simp add: json_bytes_def fun_eq_iff)
  then show "json_bytes ops (JArray items) = 91 # join_on 44 (map (json_bytes ops) items) @ [93]"
    by (simp add: json_bytes_def [of ops "JArray items"] str_bytes_join comp_def)
qed (simp add: json_bytes_def write_string_def)

text \<open>The first byte of a document is not a space and not the end of a list, and decides the branch of \<^verbatim>\<open>value\<close>.\<close>

definition numeric_start :: "bytes \<Rightarrow> bool" where
  "numeric_start bs \<longleftrightarrow> bs \<noteq> [] \<and> (hd bs = 45 \<or> is_digit (hd bs))"

definition jstart :: "bytes \<Rightarrow> bool" where
  "jstart bs \<longleftrightarrow> bs \<noteq> [] \<and> (hd bs \<in> {34, 91, 123, 116, 102, 110} \<or> numeric_start bs)"

lemma numeric_signed: "list_all is_digit ds \<Longrightarrow> ds \<noteq> [] \<Longrightarrow> numeric_start (minus_sign neg @ ds @ r)"
  by (cases ds) (auto simp: numeric_start_def minus_sign_def)

lemma numeric_value:
  assumes "numeric_start bs"
  shows "json_value ops (Suc fuel) depth bs = json_number ops bs"
  using assms by (cases bs) (auto simp: json_value.simps numeric_start_def next_is_def is_digit_def byte_in_def)

lemma jstart_skip:
  assumes "jstart bs"
  shows "skip_ws (bs @ r) = bs @ r" "\<not> next_is (bs @ r) 93" "\<not> next_is (bs @ r) 125"
  using assms by (cases bs; auto simp: jstart_def numeric_start_def next_is_def skip_ws_def json_ws_def is_digit_def byte_in_def)+

lemma jstart_append: "jstart bs \<Longrightarrow> jstart (bs @ r)"
  by (cases bs) (auto simp: jstart_def numeric_start_def)

lemma json_bytes_start:
  assumes "float_laws ops"
  shows "jstart (json_bytes ops v)"
proof (cases v)
  case (JBool b)
  then show ?thesis by (cases b) (simp_all add: json_bytes_def jstart_def str_def)
next
  case (JInt n)
  have "numeric_start (dec_int n)" using numeric_signed [OF dec_digits_all, of _ _ "[]"] by (simp add: dec_int_signed)
  then show ?thesis using JInt by (simp add: json_bytes_simps jstart_def numeric_start_def)
next
  case (JUInt n)
  have "numeric_start (dec_digits n)" using numeric_signed [OF dec_digits_all, of n False "[]"] by (simp add: minus_sign_def)
  then show ?thesis using JUInt by (simp add: json_bytes_simps jstart_def numeric_start_def)
next
  case (JFloat f)
  show ?thesis
  proof (cases "f_finite ops f")
    case True
    then have "numeric_start (str_bytes (write_float ops f))"
      using float_written(1) [OF assms] numeric_signed unfolding float_text_def by (metis number_bytes_ascii)
    then show ?thesis using JFloat True by (simp add: json_bytes_def jstart_def numeric_start_def)
  qed (simp add: JFloat json_bytes_def jstart_def str_def)
qed (simp_all add: json_bytes_simps json_bytes_def jstart_def str_def write_string_def)

text \<open>A value is read back from its document, at nesting \<open>depth\<close>, whatever may follow it in a list.\<close>

definition reads_back :: "'f fops \<Rightarrow> nat \<Rightarrow> 'f json \<Rightarrow> bool" where
  "reads_back ops depth v \<longleftrightarrow>
     (\<forall>fuel rest. 2 * length (json_bytes ops v) \<le> fuel \<longrightarrow> stop rest \<longrightarrow> json_value ops fuel depth (json_bytes ops v @ rest) = Inr (json_norm ops v, rest))"

lemma skip_ws_sep [simp]: "skip_ws (44 # r) = 44 # r" "skip_ws (93 # r) = 93 # r" "skip_ws (125 # r) = 125 # r" "skip_ws (58 # r) = 58 # r" "skip_ws (34 # r) = 34 # r"
  by (simp_all add: skip_ws_def json_ws_def)

lemma next_is_Cons [simp]: "next_is (a # r) b \<longleftrightarrow> a = b"
  by (simp add: next_is_def)

lemma array_loop_reads:
  assumes "float_laws ops"
  shows "items \<noteq> [] \<Longrightarrow> \<forall>v \<in> set items. reads_back ops depth v \<Longrightarrow> 2 * length (join_on 44 (map (json_bytes ops) items)) < fuel \<Longrightarrow>
    array_loop ops fuel depth (join_on 44 (map (json_bytes ops) items) @ 93 # rest) acc = Inr (JArray (acc @ map (json_norm ops) items), rest)"
proof (induction items arbitrary: fuel acc rule: list_nonempty_induct)
  case (single v)
  then obtain f where "fuel = Suc f" "2 * length (json_bytes ops v) \<le> f" by (cases fuel) auto
  then show ?case using single jstart_skip(1) [OF json_bytes_start [OF assms]] by (simp add: array_loop.simps reads_back_def)
next
  case (cons v items)
  let ?j = "join_on 44 (map (json_bytes ops) items)"
  have j: "join_on 44 (map (json_bytes ops) (v # items)) = json_bytes ops v @ 44 # ?j" using cons.hyps by (cases items) simp_all
  then obtain f where f: "fuel = Suc f" "2 * length (json_bytes ops v) \<le> f" "2 * length ?j < f" using cons.prems(2) by (cases fuel) auto
  have "json_value ops f depth (json_bytes ops v @ 44 # ?j @ 93 # rest) = Inr (json_norm ops v, 44 # ?j @ 93 # rest)"
    using cons.prems(1) f(2) by (simp add: reads_back_def)
  moreover have "array_loop ops f depth (?j @ 93 # rest) (acc @ [json_norm ops v]) = Inr (JArray ((acc @ [json_norm ops v]) @ map (json_norm ops) items), rest)"
    using cons.IH cons.prems(1) f(3) by simp
  ultimately show ?case unfolding j f(1) using jstart_skip(1) [OF json_bytes_start [OF assms]] by (simp add: array_loop.simps)
qed

lemma member_bytes_eq: "member_bytes ops (key, val) = 34 # str_bytes (concat (map write_char key)) @ 34 # 58 # json_bytes ops val"
  by (simp add: member_bytes_def write_string_def)

lemma object_loop_reads:
  assumes "float_laws ops"
  shows "members \<noteq> [] \<Longrightarrow> \<forall>(key, val) \<in> set members. list_all is_scalar key \<and> reads_back ops depth val \<Longrightarrow>
    2 * length (join_on 44 (map (member_bytes ops) members)) < fuel \<Longrightarrow>
    object_loop ops fuel depth (join_on 44 (map (member_bytes ops) members) @ 125 # rest) acc =
      Inr (JObject (acc @ map (\<lambda>(key, val). (key, json_norm ops val)) members), rest)"
proof (induction members arbitrary: fuel acc rule: list_nonempty_induct)
  case (single m)
  obtain key val where m: "m = (key, val)" by fastforce
  obtain f where "fuel = Suc f" "2 * length (json_bytes ops val) \<le> f" using single m by (cases fuel) (auto simp: member_bytes_eq)
  then show ?case using single jstart_skip(1) [OF json_bytes_start [OF assms]] unfolding m
    by (simp add: object_loop.simps member_bytes_eq reads_back_def json_string_written)
next
  case (cons m members)
  let ?j = "join_on 44 (map (member_bytes ops) members)"
  obtain key val where m: "m = (key, val)" by fastforce
  have b: "member_bytes ops m = 34 # str_bytes (concat (map write_char key)) @ 34 # 58 # json_bytes ops val" by (simp add: m member_bytes_eq)
  have j: "join_on 44 (map (member_bytes ops) (m # members)) = member_bytes ops m @ 44 # ?j" using cons.hyps by (cases members) simp_all
  then obtain f where f: "fuel = Suc f" "2 * length (json_bytes ops val) \<le> f" "2 * length ?j < f" using cons.prems(2) b by (cases fuel) auto
  have "json_value ops f depth (json_bytes ops val @ 44 # ?j @ 125 # rest) = Inr (json_norm ops val, 44 # ?j @ 125 # rest)"
    using cons.prems(1) f(2) m by (simp add: reads_back_def)
  moreover have "object_loop ops f depth (?j @ 125 # rest) (acc @ [(key, json_norm ops val)]) =
      Inr (JObject ((acc @ [(key, json_norm ops val)]) @ map (\<lambda>(key, val). (key, json_norm ops val)) members), rest)"
    using cons.IH cons.prems(1) f(3) by simp
  moreover have "list_all is_scalar key" using cons.prems(1) m by simp
  ultimately show ?case unfolding j f(1) b using jstart_skip(1) [OF json_bytes_start [OF assms]] m by (simp add: object_loop.simps json_string_written)
qed

lemma reads_back_scalar:
  assumes "float_laws ops" "json_good v" "\<forall>items. v \<noteq> JArray items" "\<forall>members. v \<noteq> JObject members"
  shows "reads_back ops depth v"
  unfolding reads_back_def
proof (intro allI impI)
  fix fuel rest
  assume fuel: "2 * length (json_bytes ops v) \<le> fuel" and st: "stop rest"
  then obtain f where f: "fuel = Suc f" using json_bytes_start [OF assms(1), of v] by (cases fuel) (auto simp: jstart_def)
  show "json_value ops fuel depth (json_bytes ops v @ rest) = Inr (json_norm ops v, rest)"
  proof (cases v)
    case (JBool b)
    then show ?thesis by (cases b) (simp_all add: f json_value.simps json_bytes_def str_def json_literal_def strip_prefix_def ascii_def)
  next
    case (JInt n)
    have "numeric_start (dec_int n @ rest)" using numeric_signed [OF dec_digits_all] by (simp add: dec_int_signed)
    then show ?thesis using JInt st assms(2) by (simp add: f json_bytes_simps numeric_value number_int)
  next
    case (JUInt n)
    have "numeric_start (dec_digits n @ rest)" using numeric_signed [OF dec_digits_all, of n False] by (simp add: minus_sign_def)
    then show ?thesis using JUInt st assms(2) by (simp add: f json_bytes_simps numeric_value number_uint)
  next
    case (JFloat x)
    show ?thesis
    proof (cases "f_finite ops x")
      case True
      then have "numeric_start (str_bytes (write_float ops x) @ rest)"
        using float_written(1) [OF assms(1)] numeric_signed unfolding float_text_def by (metis number_bytes_ascii append.assoc append_Cons)
      then show ?thesis using JFloat True st assms(1) by (simp add: f json_bytes_def numeric_value number_float)
    next
      case False
      then show ?thesis using JFloat by (simp add: f json_value.simps json_bytes_def str_def json_literal_def strip_prefix_def ascii_def)
    qed
  next
    case (JStr s)
    then show ?thesis using assms(2) by (simp add: f json_value.simps json_bytes_simps json_string_written)
  next
    case JNull
    then show ?thesis by (simp add: f json_value.simps json_bytes_def str_def json_literal_def strip_prefix_def ascii_def)
  qed (use assms(3,4) in auto)
qed

lemma join_start: "ls \<noteq> [] \<Longrightarrow> jstart (hd ls) \<Longrightarrow> jstart (join_on c ls)"
  by (cases "(c, ls)" rule: join_on.cases) (auto intro: jstart_append)

lemma member_start: "jstart (member_bytes ops m)"
  by (cases m) (simp add: member_bytes_eq jstart_def)

lemma reads_back_array:
  assumes "float_laws ops" "depth < JSON_MAX_DEPTH" "\<forall>v \<in> set items. reads_back ops (Suc depth) v"
  shows "reads_back ops depth (JArray items)"
  unfolding reads_back_def
proof (intro allI impI)
  fix fuel rest
  let ?j = "join_on 44 (map (json_bytes ops) items)"
  assume "2 * length (json_bytes ops (JArray items)) \<le> fuel"
  then obtain f where f: "fuel = Suc f" "2 * length ?j < f" by (cases fuel) (auto simp: json_bytes_simps)
  show "json_value ops fuel depth (json_bytes ops (JArray items) @ rest) = Inr (json_norm ops (JArray items), rest)"
  proof (cases "items = []")
    case False
    then have "jstart ?j" using json_bytes_start [OF assms(1)] by (intro join_start) (simp_all add: hd_map)
    then show ?thesis
      using f assms(2,3) False jstart_skip [of ?j "93 # rest"] by (simp add: json_value.simps json_bytes_simps array_loop_reads [OF assms(1)])
  qed (use f assms(2) in \<open>simp add: json_value.simps json_bytes_simps\<close>)
qed

lemma reads_back_object:
  assumes "float_laws ops" "depth < JSON_MAX_DEPTH"
    and "\<forall>(key, val) \<in> set members. list_all is_scalar key \<and> reads_back ops (Suc depth) val"
  shows "reads_back ops depth (JObject members)"
  unfolding reads_back_def
proof (intro allI impI)
  fix fuel rest
  let ?j = "join_on 44 (map (member_bytes ops) members)"
  assume "2 * length (json_bytes ops (JObject members)) \<le> fuel"
  then obtain f where f: "fuel = Suc f" "2 * length ?j < f" by (cases fuel) (auto simp: json_bytes_simps)
  show "json_value ops fuel depth (json_bytes ops (JObject members) @ rest) = Inr (json_norm ops (JObject members), rest)"
  proof (cases "members = []")
    case False
    then have "jstart ?j" by (intro join_start) (simp_all add: hd_map member_start)
    then show ?thesis
      using f assms(2,3) False jstart_skip [of ?j "125 # rest"] by (simp add: json_value.simps json_bytes_simps object_loop_reads [OF assms(1)])
  qed (use f assms(2) in \<open>simp add: json_value.simps json_bytes_simps\<close>)
qed

lemma reads_back_good:
  assumes "float_laws ops"
  shows "json_good v \<Longrightarrow> depth + json_depth v \<le> JSON_MAX_DEPTH \<Longrightarrow> reads_back ops depth v"
proof (induction v arbitrary: depth)
  case (JArray items)
  have "reads_back ops (Suc depth) v" if v: "v \<in> set items" for v
  proof (rule JArray.IH [OF v])
    show "json_good v" using JArray.prems(1) v by (simp add: list_all_iff)
    have "json_depth v \<le> foldr max (map json_depth items) 0" using foldr_max_le [of "map json_depth items"] v by auto
    then show "Suc depth + json_depth v \<le> JSON_MAX_DEPTH" using JArray.prems(2) by simp
  qed
  then show ?case using JArray.prems(2) by (intro reads_back_array [OF assms]) auto
next
  case (JObject members)
  have "list_all is_scalar key \<and> reads_back ops (Suc depth) val" if m: "(key, val) \<in> set members" for key val
  proof (intro conjI JObject.IH [OF m])
    show "list_all is_scalar key" "json_good val" using JObject.prems(1) m by (auto simp: list_all_iff)
    have "json_depth val \<le> foldr max (map (\<lambda>(key, val). json_depth val) members) 0"
      using foldr_max_le [of "map (\<lambda>(key, val). json_depth val) members"] m by force
    then show "Suc depth + json_depth val \<le> JSON_MAX_DEPTH" using JObject.prems(2) by simp
  qed simp
  then show ?case using JObject.prems(2) by (intro reads_back_object [OF assms]) auto
qed (rule reads_back_scalar [OF assms]; simp)+

subsection \<open>Lemmas: what the parser returns\<close>

text \<open>An error lies inside the text, and is never that the fuel ran out; a result is a value of the Rust types within the nesting allowed,
  in the form reading produces, and some text was read.\<close>

definition err_ok :: "bytes \<Rightarrow> jerr \<Rightarrow> bool" where
  "err_ok bs e \<longleftrightarrow> fst e \<le> length bs \<and> snd e \<noteq> OutOfFuel"

definition val_ok :: "'f fops \<Rightarrow> nat \<Rightarrow> 'f json \<Rightarrow> bool" where
  "val_ok ops depth v \<longleftrightarrow> json_good v \<and> json_norm ops v = v \<and> depth + json_depth v \<le> JSON_MAX_DEPTH"

definition result_ok :: "'f fops \<Rightarrow> nat \<Rightarrow> bytes \<Rightarrow> jerr + 'f json \<times> bytes \<Rightarrow> bool" where
  "result_ok ops depth bs x =
     (case x of Inl e \<Rightarrow> err_ok bs e | Inr (v, r) \<Rightarrow> length r < length bs \<and> val_ok ops depth v)"

lemma err_ok_mono: "err_ok r e \<Longrightarrow> length r \<le> length bs \<Longrightarrow> err_ok bs e"
  by (simp add: err_ok_def)

lemma result_ok_mono: "result_ok ops depth r x \<Longrightarrow> length r \<le> length bs \<Longrightarrow> result_ok ops depth bs x"
  by (auto simp: result_ok_def err_ok_def split: sum.splits)

lemma result_ok_fail: "length r \<le> length bs \<Longrightarrow> what \<noteq> OutOfFuel \<Longrightarrow> result_ok ops depth bs (jfail r what)"
  by (simp add: result_ok_def jfail_def err_ok_def)

lemma skip_ws_length: "length (skip_ws bs) \<le> length bs"
  by (simp add: skip_ws_def length_dropWhile_le)

lemma next_is_length: "next_is bs c \<Longrightarrow> Suc (length (tl bs)) = length bs"
  by (cases bs) (simp_all add: next_is_def)

lemma hex_loop4_err: "hex_loop4 k v bs = Inl e \<Longrightarrow> err_ok bs e"
  by (induction k v bs rule: hex_loop4.induct) (force simp: jfail_def err_ok_def split: list.splits option.splits)+

lemma unicode_escape_err:
  assumes "unicode_escape bs = Inl e"
  shows "err_ok bs e"
proof (cases "hex4 bs")
  case (Inl a)
  then show ?thesis using assms hex_loop4_err by (auto simp: unicode_escape_def hex4_def)
next
  case (Inr p)
  obtain hi bs1 where p: "p = (hi, bs1)" by fastforce
  have l: "length bs1 < length bs" using Inr p hex4_shorter by simp
  show ?thesis
  proof (cases "hex4 (tl (tl bs1))")
    case (Inl b)
    then have "err_ok (tl (tl bs1)) b" using hex_loop4_err by (simp add: hex4_def)
    then have "err_ok bs b" using l by (auto elim!: err_ok_mono)
    then show ?thesis using assms Inr p Inl l by (auto simp: unicode_escape_def jfail_def err_ok_def split: if_splits)
  next
    case q: (Inr q)
    obtain lo bs2 where "q = (lo, bs2)" by fastforce
    moreover from this have "length bs2 < length bs" using q l hex4_shorter [of "tl (tl bs1)" lo bs2] by simp
    ultimately show ?thesis using assms Inr p q l by (auto simp: unicode_escape_def jfail_def err_ok_def split: if_splits)
  qed
qed

lemma escape_err: "escape bs = Inl e \<Longrightarrow> err_ok bs e"
  by (cases bs) (auto simp: escape_def jfail_def err_ok_def split: if_splits dest!: unicode_escape_err)

lemma escape_scalar: "escape bs = Inr (c, r) \<Longrightarrow> is_scalar c"
proof -
  have u: "is_scalar c" if "unicode_escape x = Inr (c, r)" for x
    using that by (auto simp: unicode_escape_def bindE_Inr jfail_def split: if_splits prod.splits)
  assume "escape bs = Inr (c, r)"
  then show ?thesis by (auto simp: escape_def jfail_def is_scalar_def split: list.splits if_splits dest!: u)
qed

lemma json_string_result:
  "(\<forall>e. json_string bs out = Inl e \<longrightarrow> err_ok bs e) \<and>
   (\<forall>s r. json_string bs out = Inr (s, r) \<longrightarrow> length r < length bs \<and> (list_all is_scalar out \<longrightarrow> list_all is_scalar s))"
proof (induction bs out rule: json_string.induct)
  case (1 bs out)
  have l: "length (dropWhile ordinary bs) \<le> length bs" by (rule length_dropWhile_le)
  show ?case
  proof (cases "from_utf8 (takeWhile ordinary bs)")
    case None
    then show ?thesis using l by (simp add: json_string.simps [of bs] jfail_def err_ok_def)
  next
    case (Some chunk)
    then have sc: "list_all is_scalar chunk" by (simp add: from_utf8_iff list_all_iff)
    show ?thesis
    proof (cases "dropWhile ordinary bs")
      case Nil
      have "json_string bs out = jfail [] Unterminated" unfolding json_string.simps [of bs] Some Nil by simp
      then show ?thesis by (simp add: jfail_def err_ok_def)
    next
      case (Cons c r)
      show ?thesis
      proof (cases "c = 92")
        case esc: True
        show ?thesis
        proof (cases "escape r")
          case (Inl e)
          then show ?thesis using Some Cons esc l escape_err [OF Inl] by (simp add: json_string.simps [of bs] err_ok_def)
        next
          case (Inr p)
          obtain x r' where p: "p = (x, r')" by fastforce
          have "length r' < length r" "is_scalar x" using Inr p escape_shorter escape_scalar by blast+
          moreover have "json_string bs out = json_string r' (out @ chunk @ [x])"
            using Some Cons esc Inr p by (simp add: json_string.simps [of bs])
          ultimately show ?thesis using "1.IH" [OF Some Cons _ esc Inr p [symmetric]] esc sc l Cons by (auto simp: err_ok_def)
        qed
      qed (use Some Cons sc l in \<open>auto simp: json_string.simps [of bs] jfail_def err_ok_def\<close>)
    qed
  qed
qed

lemma drop_digits: "length (dropWhile is_digit bs) \<le> length bs"
  by (rule length_dropWhile_le)

lemma scan_fraction_length: "length (snd (scan_fraction bs)) \<le> length bs"
  using drop_digits [of "tl bs"] by (auto simp: scan_fraction_def)

lemma scan_exponent_length: "length (snd (scan_exponent bs)) \<le> length bs"
proof -
  have "length (dropWhile is_digit (drop k (tl bs))) \<le> length bs" for k using drop_digits [of "drop k (tl bs)"] by simp
  then show ?thesis by (auto simp: scan_exponent_def Let_def)
qed

lemma scan_number_rest:
  "snd (snd (scan_number bs)) = snd (scan_exponent (snd (scan_fraction (dropWhile is_digit (drop (length (minus_sign (next_is bs 45))) bs)))))"
  unfolding scan_number_def minus_sign_def Let_def case_prod_unfold snd_conv ..

lemma scan_number_shorter:
  assumes "numeric_start bs" "scan_number bs = (t, b, r)"
  shows "length r < length bs"
proof -
  let ?r = "drop (length (minus_sign (next_is bs 45))) bs"
  have "length (dropWhile is_digit ?r) < length bs"
  proof (cases bs)
    case (Cons c bs')
    then show ?thesis using assms(1) drop_digits [of bs'] by (auto simp: numeric_start_def minus_sign_def)
  qed (use assms(1) in \<open>simp add: numeric_start_def\<close>)
  moreover have "length r \<le> length (dropWhile is_digit ?r)"
  proof -
    have "r = snd (scan_exponent (snd (scan_fraction (dropWhile is_digit ?r))))" using scan_number_rest [of bs] assms(2) by simp
    then show ?thesis using order_trans [OF scan_exponent_length scan_fraction_length] by simp
  qed
  ultimately show ?thesis by simp
qed

lemma parse_u64_not_i64:
  assumes "parse_i64 t = None" "parse_u64 t = Some n"
  shows "n \<le> u64_max \<and> \<not> int n \<le> i64_max"
proof -
  have t: "list_all is_digit t" "t \<noteq> []" "n = digits_val 0 t" "n \<le> u64_max" using assms(2) by (simp_all add: parse_u64_def split: if_splits)
  have "parse_i64 t = checked_i64 (int n)" using parse_i64_signed [OF t(1,2), of False] t(3) by (simp add: minus_sign_def)
  then show ?thesis using assms(1) t(4) by (auto simp: checked_i64_def in_i64_def i64_min_def split: if_splits)
qed

lemma json_number_result:
  assumes "numeric_start bs" "depth \<le> JSON_MAX_DEPTH"
  shows "result_ok ops depth bs (json_number ops bs)"
proof -
  obtain t b r where s: "scan_number bs = (t, b, r)" by (cases "scan_number bs")
  have l: "length r < length bs" using scan_number_shorter [OF assms(1) s] .
  have "in_i64 n" if "parse_i64 t = Some n" for n using that by (auto simp: parse_i64_def Let_def split: if_splits)
  then have i: "val_ok ops depth (JInt n)" if "parse_i64 t = Some n" for n using that assms(2) by (simp add: val_ok_def)
  have u: "val_ok ops depth (JUInt n)" if "parse_i64 t = None" "parse_u64 t = Some n" for n
    using parse_u64_not_i64 [OF that] assms(2) by (simp add: val_ok_def)
  have f: "result_ok ops depth bs (case f_parse ops t of None \<Rightarrow> jfail r BadNumber | Some v \<Rightarrow> if f_finite ops v then Inr (JFloat v, r) else jfail r OutOfRange)"
    using l assms(2) by (cases "f_parse ops t") (simp_all add: result_ok_def val_ok_def jfail_def err_ok_def)
  show ?thesis
    using i u f l by (cases "parse_i64 t"; cases "parse_u64 t"; cases b) (simp_all add: json_number_def s result_ok_def)
qed

lemma json_literal_result:
  assumes "word \<noteq> []" "val_ok ops depth v"
  shows "result_ok ops depth bs (json_literal word v bs)"
  using assms by (auto simp: json_literal_def result_ok_def jfail_def err_ok_def split: option.splits dest!: strip_prefix_SomeD)

definition value_spec :: "'f fops \<Rightarrow> nat \<Rightarrow> bool" where
  "value_spec ops fuel \<longleftrightarrow> (\<forall>depth bs. 2 * length bs < fuel \<longrightarrow> depth \<le> JSON_MAX_DEPTH \<longrightarrow> result_ok ops depth bs (json_value ops fuel depth bs))"

definition array_spec :: "'f fops \<Rightarrow> nat \<Rightarrow> bool" where
  "array_spec ops fuel \<longleftrightarrow>
     (\<forall>depth bs items. 2 * length bs + 1 < fuel \<longrightarrow> Suc depth \<le> JSON_MAX_DEPTH \<longrightarrow> list_all (val_ok ops (Suc depth)) items \<longrightarrow>
       result_ok ops depth bs (array_loop ops fuel (Suc depth) bs items))"

definition object_spec :: "'f fops \<Rightarrow> nat \<Rightarrow> bool" where
  "object_spec ops fuel \<longleftrightarrow>
     (\<forall>depth bs members. 2 * length bs + 1 < fuel \<longrightarrow> Suc depth \<le> JSON_MAX_DEPTH \<longrightarrow>
       list_all (\<lambda>(key, val). list_all is_scalar key \<and> val_ok ops (Suc depth) val) members \<longrightarrow>
       result_ok ops depth bs (object_loop ops fuel (Suc depth) bs members))"

lemma val_ok_array: "Suc depth \<le> JSON_MAX_DEPTH \<Longrightarrow> list_all (val_ok ops (Suc depth)) items \<Longrightarrow> val_ok ops depth (JArray items)"
  using foldr_max_le [of "map json_depth items" "JSON_MAX_DEPTH - Suc depth"] by (fastforce simp: val_ok_def list_all_iff map_idI)

lemma val_ok_object:
  assumes "Suc depth \<le> JSON_MAX_DEPTH" "list_all (\<lambda>(key, val). list_all is_scalar key \<and> val_ok ops (Suc depth) val) members"
  shows "val_ok ops depth (JObject members)"
proof -
  have "map (\<lambda>(key, val). (key, json_norm ops val)) members = members" using assms(2) by (intro map_idI) (auto simp: list_all_iff val_ok_def)
  moreover have "foldr max (map (\<lambda>(key, val). json_depth val) members) 0 \<le> JSON_MAX_DEPTH - Suc depth"
    using assms(2) unfolding foldr_max_le by (fastforce simp: list_all_iff val_ok_def)
  ultimately show ?thesis using assms by (auto simp: val_ok_def list_all_iff)
qed

lemma json_string_value:
  assumes "next_is bs 34" "depth \<le> JSON_MAX_DEPTH"
  shows "result_ok ops depth bs (bindE (json_string (tl bs) []) (\<lambda>(s, r). Inr (JStr s, r)))"
  using json_string_result [of "tl bs" "[]"] next_is_length [OF assms(1)] assms(2)
  by (cases "json_string (tl bs) []") (auto simp: result_ok_def err_ok_def val_ok_def)

lemma value_step:
  assumes "array_spec ops fuel" "object_spec ops fuel"
  shows "value_spec ops (Suc fuel)"
  unfolding value_spec_def
proof (intro allI impI)
  fix depth and bs :: bytes
  assume l: "2 * length bs < Suc fuel" and d: "depth \<le> JSON_MAX_DEPTH"
  let ?r = "skip_ws (tl bs)"
  have r: "Suc (length ?r) \<le> length bs" if "next_is bs c" for c
    using skip_ws_length [of "tl bs"] next_is_length [OF that] by simp
  have a: "result_ok ops depth ?r (array_loop ops fuel (Suc depth) ?r [])" if "next_is bs 91" "depth < JSON_MAX_DEPTH"
    using assms(1) r [OF that(1)] l that(2) by (simp add: array_spec_def)
  have o': "result_ok ops depth ?r (object_loop ops fuel (Suc depth) ?r [])" if "next_is bs 123" "depth < JSON_MAX_DEPTH"
    using assms(2) r [OF that(1)] l that(2) by (simp add: object_spec_def)
  have e: "result_ok ops depth bs (Inr (JArray [], tl ?r))" "result_ok ops depth bs (Inr (JObject [], tl ?r))" if "next_is bs c" "depth < JSON_MAX_DEPTH" for c
    using r [OF that(1)] that(2) by (simp_all add: result_ok_def val_ok_def)
  have lit: "result_ok ops depth bs (json_literal (ascii w) v bs)" if "w \<noteq> []" "v \<in> {JNull, JBool True, JBool False}" for w v
    using that d by (intro json_literal_result) (auto simp: val_ok_def ascii_def)
  have fail: "result_ok ops depth bs (jfail bs TooDeep)" "result_ok ops depth bs (jfail bs ExpectedValue)" by (simp_all add: result_ok_fail)
  have num: "result_ok ops depth bs (json_number ops bs)" if "bs \<noteq> [] \<and> (hd bs = 45 \<or> is_digit (hd bs))"
    using json_number_result [OF _ d] that by (simp add: numeric_start_def)
  have m: "result_ok ops depth bs x" if "result_ok ops depth ?r x" "next_is bs c" for x c
    using result_ok_mono [OF that(1)] r [OF that(2)] by simp
  have ad: "result_ok ops depth bs (array_loop ops fuel (Suc depth) ?r [])" if "next_is bs 91" "depth < JSON_MAX_DEPTH" using a m that by blast
  have od: "result_ok ops depth bs (object_loop ops fuel (Suc depth) ?r [])" if "next_is bs 123" "depth < JSON_MAX_DEPTH" using o' m that by blast
  show "result_ok ops depth bs (json_value ops (Suc fuel) depth bs)"
    unfolding json_value.simps(2) Let_def
    using ad od e fail num json_string_value [OF _ d, of bs ops] lit by (simp add: not_le)
qed

lemma array_step:
  assumes "value_spec ops fuel" "array_spec ops fuel"
  shows "array_spec ops (Suc fuel)"
  unfolding array_spec_def
proof (intro allI impI)
  fix depth and bs :: bytes and items
  assume l: "2 * length bs + 1 < Suc fuel" and d: "Suc depth \<le> JSON_MAX_DEPTH" and items: "list_all (val_ok ops (Suc depth)) items"
  have "result_ok ops (Suc depth) (skip_ws bs) (json_value ops fuel (Suc depth) (skip_ws bs))"
    using assms(1) l d skip_ws_length [of bs] by (simp add: value_spec_def)
  then have v: "result_ok ops (Suc depth) bs (json_value ops fuel (Suc depth) (skip_ws bs))" using result_ok_mono skip_ws_length by blast
  show "result_ok ops depth bs (array_loop ops (Suc fuel) (Suc depth) bs items)"
  proof (cases "json_value ops fuel (Suc depth) (skip_ws bs)")
    case (Inl e)
    then show ?thesis using v by (simp add: array_loop.simps result_ok_def)
  next
    case (Inr p)
    obtain x r where p: "p = (x, r)" by fastforce
    let ?r = "skip_ws r"
    have x: "list_all (val_ok ops (Suc depth)) (items @ [x])" "length ?r < length bs"
      using v Inr p items skip_ws_length [of r] by (simp_all add: result_ok_def)
    have "result_ok ops depth (tl ?r) (array_loop ops fuel (Suc depth) (tl ?r) (items @ [x]))" if "next_is ?r 44"
      using assms(2) next_is_length [OF that] l d x unfolding array_spec_def by simp
    then have "result_ok ops depth bs (array_loop ops fuel (Suc depth) (tl ?r) (items @ [x]))" if "next_is ?r 44"
      using that x(2) by (auto elim: result_ok_mono)
    moreover have "result_ok ops depth bs (Inr (JArray (items @ [x]), tl ?r))"
      using val_ok_array [OF d x(1)] x(2) by (simp add: result_ok_def)
    ultimately show ?thesis using Inr p x(2) by (simp add: array_loop.simps Let_def result_ok_fail)
  qed
qed

lemma object_step:
  assumes "value_spec ops fuel" "object_spec ops fuel"
  shows "object_spec ops (Suc fuel)"
  unfolding object_spec_def
proof (intro allI impI)
  fix depth and bs :: bytes and members
  let ?ok = "\<lambda>(key, val). list_all is_scalar key \<and> val_ok ops (Suc depth) val"
  assume l: "2 * length bs + 1 < Suc fuel" and d: "Suc depth \<le> JSON_MAX_DEPTH" and members: "list_all ?ok members"
  let ?r0 = "skip_ws bs"
  have r0: "length ?r0 \<le> length bs" by (rule skip_ws_length)
  show "result_ok ops depth bs (object_loop ops (Suc fuel) (Suc depth) bs members)"
  proof (cases "next_is ?r0 34")
    case False
    then show ?thesis using r0 by (simp add: object_loop.simps Let_def result_ok_fail)
  next
    case q: True
    note t0 = next_is_length [OF q]
    show ?thesis
    proof (cases "json_string (tl ?r0) []")
      case (Inl e)
      then have "err_ok bs e" using json_string_result [of "tl ?r0" "[]"] t0 r0 by (auto simp: err_ok_def)
      then show ?thesis using q Inl by (simp add: object_loop.simps Let_def result_ok_def)
    next
      case k: (Inr p)
      obtain key r where p: "p = (key, r)" by fastforce
      let ?r1 = "skip_ws r"
      have key: "list_all is_scalar key" and r1: "Suc (length ?r1) \<le> length bs"
        using json_string_result [of "tl ?r0" "[]"] k p t0 r0 skip_ws_length [of r] by auto
      let ?v = "json_value ops fuel (Suc depth) (skip_ws (tl ?r1))"
      have r2: "length (skip_ws (tl ?r1)) \<le> length ?r1" using skip_ws_length [of "tl ?r1"] by simp
      then have "result_ok ops (Suc depth) (skip_ws (tl ?r1)) ?v" using assms(1) l d r1 unfolding value_spec_def by simp
      then have v: "result_ok ops (Suc depth) bs ?v" using r1 r2 by (auto elim: result_ok_mono)
      have eq: "object_loop ops (Suc fuel) (Suc depth) bs members =
          (if \<not> next_is ?r1 58 then jfail ?r1 ExpectedColon
           else case ?v of Inl e \<Rightarrow> Inl e | Inr (x, r) \<Rightarrow>
             (let r = skip_ws r in
              if next_is r 44 then object_loop ops fuel (Suc depth) (tl r) (members @ [(key, x)])
              else if next_is r 125 then Inr (JObject (members @ [(key, x)]), tl r)
              else jfail r ExpectedCommaBrace))"
        using q k p by (simp add: object_loop.simps Let_def)
      show ?thesis
      proof (cases ?v)
        case (Inl e)
        then show ?thesis unfolding eq using v r1 by (simp add: result_ok_fail) (simp add: result_ok_def)
      next
        case (Inr p)
        obtain x r' where p: "p = (x, r')" by fastforce
        let ?r = "skip_ws r'"
        have x: "list_all ?ok (members @ [(key, x)])" "length ?r < length bs"
          using v Inr p members key skip_ws_length [of r'] by (simp_all add: result_ok_def)
        have "result_ok ops depth (tl ?r) (object_loop ops fuel (Suc depth) (tl ?r) (members @ [(key, x)]))" if "next_is ?r 44"
          using assms(2) next_is_length [OF that] l d x unfolding object_spec_def by simp
        then have "result_ok ops depth bs (object_loop ops fuel (Suc depth) (tl ?r) (members @ [(key, x)]))" if "next_is ?r 44"
          using that x(2) by (auto elim: result_ok_mono)
        moreover have "result_ok ops depth bs (Inr (JObject (members @ [(key, x)]), tl ?r))"
          using val_ok_object [OF d x(1)] x(2) by (simp add: result_ok_def)
        ultimately show ?thesis unfolding eq using Inr p x(2) r1 by (simp add: Let_def result_ok_fail)
      qed
    qed
  qed
qed

lemma value_spec_all: "value_spec ops fuel \<and> array_spec ops fuel \<and> object_spec ops fuel"
proof (induction fuel)
  case 0
  show ?case by (simp add: value_spec_def array_spec_def object_spec_def)
next
  case (Suc fuel)
  then show ?case using value_step array_step object_step by blast
qed

lemma json_parse_value:
  assumes "json_parse ops input = Inr v"
  shows "val_ok ops 0 v"
proof -
  let ?bs = "str_bytes input"
  have "result_ok ops 0 (skip_ws ?bs) (json_value ops (2 * length ?bs + 2) 0 (skip_ws ?bs))"
    using value_spec_all [of ops "2 * length ?bs + 2"] skip_ws_length [of ?bs] by (simp add: value_spec_def)
  then show ?thesis using assms by (auto simp: json_parse_def Let_def result_ok_def split: sum.splits if_splits)
qed

lemma json_parse_error:
  assumes "json_parse ops input = Inl e"
  shows "je_at e \<le> length (str_bytes input) \<and> je_what e \<noteq> OutOfFuel"
proof -
  let ?bs = "str_bytes input"
  have "result_ok ops 0 (skip_ws ?bs) (json_value ops (2 * length ?bs + 2) 0 (skip_ws ?bs))"
    using value_spec_all [of ops "2 * length ?bs + 2"] skip_ws_length [of ?bs] by (simp add: value_spec_def)
  then show ?thesis using assms by (auto simp: json_parse_def Let_def result_ok_def err_ok_def split: sum.splits if_splits)
qed

lemma json_parse_encoded:
  assumes "float_laws ops" "json_good v" "json_depth v \<le> JSON_MAX_DEPTH"
  shows "json_parse ops (json_encode ops v) = Inr (json_norm ops v)"
proof -
  have b: "skip_ws (json_bytes ops v) = json_bytes ops v" using jstart_skip(1) [OF json_bytes_start [OF assms(1)], of v "[]"] by simp
  have "reads_back ops 0 v" using reads_back_good [OF assms(1,2), of 0] assms(3) by simp
  then have "json_value ops (2 * length (json_bytes ops v) + 2) 0 (json_bytes ops v) = Inr (json_norm ops v, [])"
    unfolding reads_back_def by (metis append_Nil2 le_add1 stop_simps(1))
  then show ?thesis using b by (simp add: json_parse_def json_bytes_def skip_ws_def)
qed

lemma json_encode_norm: "json_encode ops (json_norm ops v) = json_encode ops v"
proof (induction v)
  case (JUInt n)
  then show ?case by (simp add: dec_int_def)
next
  case (JBool b)
  then show ?case by (cases b) simp_all
next
  case (JArray items)
  then have "map (json_encode ops) (map (json_norm ops) items) = map (json_encode ops) items" by simp
  then show ?case by (simp del: map_map)
next
  case (JObject members)
  have "map (\<lambda>(key, val). write_string key @ [58] @ json_encode ops val) (map (\<lambda>(key, val). (key, json_norm ops val)) members) =
      map (\<lambda>(key, val). write_string key @ [58] @ json_encode ops val) members"
    using JObject by (auto simp: snds.simps)
  then show ?case by (simp only: json_norm.simps json_encode.simps)
qed simp_all

text \<open>A character that may be printed to a terminal or pasted into a script as it is.\<close>

definition raw_safe :: "rchar \<Rightarrow> bool" where
  "raw_safe c \<longleftrightarrow> 0x20 \<le> c \<and> \<not> (0x7f \<le> c \<and> c \<le> 0x9f) \<and> c \<noteq> 0x2028 \<and> c \<noteq> 0x2029"

lemma raw_safe_punct: "raw_safe 91" "raw_safe 93" "raw_safe 123" "raw_safe 125" "raw_safe 58"
  by (simp_all add: raw_safe_def)

lemma u_escape_safe: "list_all raw_safe (u_escape c)"
proof -
  have "raw_safe (hex_digit (n mod 16))" for n using mod_less_divisor [of 16 n] by (auto simp: hex_digit_def raw_safe_def)
  then show ?thesis by (simp add: u_escape_def raw_safe_def)
qed

lemma write_string_safe: "list_all raw_safe (write_string s)"
proof -
  have "list_all raw_safe (write_char c)" for c using u_escape_safe by (auto simp: write_char_def raw_safe_def)
  then show ?thesis by (auto simp: write_string_def list_all_iff raw_safe_def)
qed

lemma number_safe:
  assumes "list_all is_digit ds" "list_all is_digit fs"
  shows "list_all raw_safe (chars (minus_sign neg @ ds))" "list_all raw_safe (chars (minus_sign neg @ ds @ 46 # fs))"
proof -
  have d: "list_all raw_safe (chars ds)" if "list_all is_digit ds" for ds
    using that by (auto simp: chars_def list_all_iff raw_safe_def is_digit_def byte_in_def word_le_nat_alt)
  show "list_all raw_safe (chars (minus_sign neg @ ds))" using d [OF assms(1)] by (simp add: chars_def minus_sign_def raw_safe_def)
  show "list_all raw_safe (chars (minus_sign neg @ ds @ 46 # fs))"
    using d [OF assms(1)] d [OF assms(2)] by (simp add: chars_def minus_sign_def raw_safe_def)
qed

lemma join_safe: "list_all (list_all raw_safe) ls \<Longrightarrow> list_all raw_safe (join_on 44 ls)"
  by (induction "44 :: rchar" ls rule: join_on.induct) (simp_all add: raw_safe_def)

lemma json_encode_safe:
  assumes "float_laws ops"
  shows "list_all raw_safe (json_encode ops v)"
proof (induction v)
  case (JBool b)
  then show ?case by (cases b) (simp_all add: str_def raw_safe_def)
next
  case (JInt n)
  then show ?case using number_safe(1) [OF dec_digits_all dec_digits_all] by (simp add: dec_int_signed)
next
  case (JUInt n)
  then show ?case using number_safe(1) [OF dec_digits_all dec_digits_all, of False] by (simp add: minus_sign_def)
next
  case (JFloat f)
  have "list_all raw_safe (write_float ops f)" if "f_finite ops f"
    using float_written(1) [OF assms that] number_safe(2) unfolding float_text_def by metis
  moreover have "list_all raw_safe (str ''null'')" by (simp add: str_def raw_safe_def)
  ultimately show ?case by (cases "f_finite ops f") simp_all
next
  case (JArray items)
  then have "list_all raw_safe (join_on 44 (map (json_encode ops) items))" by (intro join_safe) (simp add: list_all_iff)
  then show ?case by (simp add: raw_safe_punct)
next
  case (JObject members)
  have "list_all raw_safe (join_on 44 (map (\<lambda>(key, val). write_string key @ [58] @ json_encode ops val) members))"
  proof (rule join_safe, unfold list_all_iff [of "list_all raw_safe"], clarsimp)
    fix key val assume "(key, val) \<in> set members"
    then show "list_all raw_safe (write_string key) \<and> raw_safe 58 \<and> list_all raw_safe (json_encode ops val)"
      using JObject write_string_safe by (force simp: raw_safe_punct)
  qed
  then show ?case by (simp add: raw_safe_punct)
next
  case JNull
  show ?case by (simp add: str_def raw_safe_def)
qed (simp add: write_string_safe)

text \<open>A reading of the float type on which the laws hold: the halves, of which \<open>Some n\<close> is \<open>n / 2\<close>, and a value that is not a number.\<close>

definition half_text :: "int \<Rightarrow> bytes \<Rightarrow> bytes" where
  "half_text n fraction = minus_sign (n < 0) @ dec_digits (nat \<bar>n\<bar> div 2) @ fraction"

definition half_parse :: "bytes \<Rightarrow> int option option" where
  "half_parse t =
     (let neg = next_is t 45;
          u = (if neg then tl t else t);
          ds = takeWhile is_digit u;
          r = dropWhile is_digit u;
          n = 2 * int (digits_val 0 ds) + (if r = [46, 53] then 1 else 0) in
      if ds \<noteq> [] \<and> r \<in> {[], [46, 48], [46, 53]} then Some (Some (if neg then - n else n)) else None)"

definition half_floats :: "int option fops" where
  "half_floats = \<lparr>f_finite = (\<lambda>f. f \<noteq> None), f_whole = (\<lambda>f. even (the f)),
     f_display = (\<lambda>f. chars (half_text (the f) (if even (the f) then [] else [46, 53]))),
     f_display1 = (\<lambda>f. chars (half_text (the f) (if even (the f) then [46, 48] else [46, 53]))), f_parse = half_parse, f_of_int = (\<lambda>n. Some (2 * n))\<rparr>"

lemma half_parse_text:
  assumes "fr \<in> {[], [46, 48], [46, 53]}" "fr = [46, 53] \<longleftrightarrow> odd n"
  shows "half_parse (half_text n fr) = Some (Some n)"
proof -
  let ?ds = "dec_digits (nat \<bar>n\<bar> div 2)"
  have neg: "next_is (half_text n fr) 45 \<longleftrightarrow> n < 0" unfolding half_text_def by (rule scan_sign [OF dec_digits_all]) simp
  have u: "(if n < 0 then tl (half_text n fr) else half_text n fr) = ?ds @ fr" by (simp add: half_text_def minus_sign_def)
  have "fr \<noteq> [] \<Longrightarrow> \<not> is_digit (hd fr)" using assms(1) by (auto simp: is_digit_def byte_in_def)
  then have d: "takeWhile is_digit (?ds @ fr) = ?ds" "dropWhile is_digit (?ds @ fr) = fr" using digits_split [OF dec_digits_all] by blast+
  have "half_parse (half_text n fr) = Some (Some (let m = 2 * int (digits_val 0 ?ds) + (if fr = [46, 53] then 1 else 0) in if n < 0 then - m else m))"
    using assms(1) by (simp only: half_parse_def Let_def neg u d dec_digits_nonempty simp_thms if_True)
  moreover have "2 * int (nat \<bar>n\<bar> div 2) + (if odd n then 1 else 0) = \<bar>n\<bar>" by (simp add: zdiv_int)
  ultimately show ?thesis using assms(2) by (cases "n < 0") (simp_all add: Let_def)
qed

lemma half_floats_laws: "float_laws half_floats"
proof -
  have b: "str_bytes (chars (half_text n fr)) = half_text n fr" if "fr \<in> {[], [46, 48], [46, 53]}" for n fr
    by (rule str_bytes_chars)
      (use that in \<open>auto simp: half_text_def minus_sign_def is_digit_def byte_in_def word_le_nat_alt word_less_nat_alt dest!: dec_digits_is_digit split: if_splits\<close>)
  have p: "half_parse (str_bytes (chars (half_text n fr))) = Some (Some n)" if "fr \<in> {[], [46, 48], [46, 53]}" "fr = [46, 53] \<longleftrightarrow> odd n" for n fr
    using b [OF that(1)] half_parse_text [OF that] by simp
  have t: "float_text (chars (half_text n [46, d]))" if "d \<in> {48, 53}" for n d
    unfolding float_text_def half_text_def
    by (intro exI [of _ "n < 0"] exI [of _ "dec_digits (nat \<bar>n\<bar> div 2)"] exI [of _ "[d]"]) (use that in \<open>auto simp: dec_digits_all is_digit_def byte_in_def\<close>)
  have w: "whole_text (chars (half_text n []))" for n
    unfolding whole_text_def half_text_def
    by (intro exI [of _ "n < 0"] exI [of _ "dec_digits (nat \<bar>n\<bar> div 2)"]) (simp add: dec_digits_all)
  show ?thesis
    unfolding float_laws_def
  proof (intro allI impI)
    fix f assume "f_finite half_floats f"
    then obtain n where f: "f = Some n" by (auto simp: half_floats_def)
    show "f_parse half_floats (str_bytes (f_display half_floats f)) = Some f \<and> float_text (f_display1 half_floats f) \<and>
        (if f_whole half_floats f then whole_text (f_display half_floats f) \<and> f_parse half_floats (str_bytes (f_display1 half_floats f)) = Some f
         else float_text (f_display half_floats f))"
      using p [of "if even n then [] else [46, 53]" n] p [of "[46, 48]" n] t [of 48 n] t [of 53 n] w [of n] by (simp add: half_floats_def f)
  qed
qed

text \<open>C20. What the encoder writes is read back: for every value the Rust types can hold, nested at most 128 deep, parsing the encoding
  gives the value itself, except that an unsigned number that fits an \<^verbatim>\<open>i64\<close> comes back as the signed one and a float that is not finite, which
  JSON cannot say, as null; encoding the result gives the same text; and no control character, C1 control or line separator
  stands raw in it. Floats keep their type because a whole one is written with a fraction. Of the standard library this uses what it documents: printing
  a float uses no exponent, \<^verbatim>\<open>{f:.1}\<close> prints a point, and a float reads back from its text.\<close>

theorem json_roundtrip:
  assumes "float_laws ops" "json_good v" "json_depth v \<le> JSON_MAX_DEPTH"
  shows "json_parse ops (json_encode ops v) = Inr (json_norm ops v) \<and> json_encode ops (json_norm ops v) = json_encode ops v \<and>
    list_all raw_safe (json_encode ops v)"
  using json_parse_encoded [OF assms] json_encode_norm json_encode_safe [OF assms(1)] by blast

theorem json_roundtrip_witness:
  "json_parse half_floats (json_encode half_floats (JObject [(str ''n'', JUInt 5), (str ''f'', JFloat (Some 6)), (str ''g'', JFloat (Some 7)), (str ''x'', JFloat None),
       (str ''s'', JStr [0x9b, 34, 0x2028]), (str ''a'', JArray [JInt (-7), JBool True, JObject []])])) =
     Inr (JObject [(str ''n'', JInt 5), (str ''f'', JFloat (Some 6)), (str ''g'', JFloat (Some 7)), (str ''x'', JNull),
       (str ''s'', JStr [0x9b, 34, 0x2028]), (str ''a'', JArray [JInt (-7), JBool True, JObject []])])"
  using json_roundtrip [OF half_floats_laws, of "JObject [(str ''n'', JUInt 5), (str ''f'', JFloat (Some 6)), (str ''g'', JFloat (Some 7)), (str ''x'', JFloat None),
       (str ''s'', JStr [0x9b, 34, 0x2028]), (str ''a'', JArray [JInt (-7), JBool True, JObject []])]"]
  by (simp add: half_floats_def in_i64_def i64_min_def i64_max_def u64_max_def is_scalar_def JSON_MAX_DEPTH_def str_def)

text \<open>C21. Parsing ends on every text, with the fuel the model gives it: either with an error at an offset inside the text, or with a value the Rust
  types can hold, nested at most 128 deep, that survives being written and read again unchanged.\<close>

theorem json_parse_sound:
  assumes "float_laws ops"
  shows "case json_parse ops input of
      Inl e \<Rightarrow> je_at e \<le> length (str_bytes input) \<and> je_what e \<noteq> OutOfFuel
    | Inr v \<Rightarrow> json_good v \<and> json_depth v \<le> JSON_MAX_DEPTH \<and> json_parse ops (json_encode ops v) = Inr v"
proof (cases "json_parse ops input")
  case (Inl e)
  then show ?thesis using json_parse_error [OF Inl] by simp
next
  case (Inr v)
  then show ?thesis using json_parse_value [OF Inr] json_parse_encoded [OF assms, of v] by (simp add: val_ok_def)
qed

theorem json_parse_sound_witness:
  "case json_parse half_floats (str ''[1, [], -2.0 ]'') of
      Inl e \<Rightarrow> je_at e \<le> 14 \<and> je_what e \<noteq> OutOfFuel
    | Inr v \<Rightarrow> json_good v \<and> json_depth v \<le> JSON_MAX_DEPTH \<and> json_parse half_floats (json_encode half_floats v) = Inr v"
proof -
  have "length (str_bytes (str ''[1, [], -2.0 ]'')) = 14" by (simp add: str_def)
  then show ?thesis using json_parse_sound [OF half_floats_laws, of "str ''[1, [], -2.0 ]''"] by (simp only:)
qed

end
