(* ===== verification/Sam.thy ===== *)
theory Sam
  imports Addr Tracker
begin

text \<open>
  Sessions with the router over SAMv3 (\<^verbatim>\<open>crates/i2pnet/src/sam.rs\<close>): one line read a byte at a time, the
  \<^verbatim>\<open>HELLO\<close> exchange every socket begins with, creating a session, dialling, forwarding and accepting, name lookups, the watchdog on the
  control connection, and the text of every error, from which key material is kept out. A socket is a
  script: the clock before each read and what the read gives, and the outcome of every other call on it; a read beyond the end of the
  script is still waiting, the value \<open>None\<close>.
\<close>

subsection \<open>Sockets\<close>

datatype err_kind = EWouldBlock | ETimedOut | EInterrupted | EUnexpectedEof | EInvalidData | EInvalidInput | EConnectionRefused
  | EConnectionAborted | EOutOfMemory | ENotFound | EOther

record serr =
  se_kind :: err_kind
  se_os :: "int option"
  se_text :: rstr

definition err :: "err_kind \<Rightarrow> rstr \<Rightarrow> serr" where
  "err k t = \<lparr>se_kind = k, se_os = None, se_text = t\<rparr>"

datatype rx = Byte byte | Eof | Fail serr

record rturn =
  rt_now :: nat
  rt_rx :: rx

text \<open>A call other than a read succeeds, or fails after so many bytes of a write have left; when the script of calls ends, they succeed.\<close>

record sock =
  sk_in :: "rturn list"
  sk_calls :: "(serr \<times> nat) option list"
  sk_out :: bytes
  sk_rto :: "nat option"
  sk_wto :: "nat option"

type_synonym 'a io = "sock \<Rightarrow> ((serr + 'a) \<times> sock) option"

definition ret :: "'a \<Rightarrow> 'a io" where
  "ret a s = Some (Inr a, s)"

definition raise :: "serr \<Rightarrow> 'a io" where
  "raise e s = Some (Inl e, s)"

definition bind_io :: "'a io \<Rightarrow> ('a \<Rightarrow> 'b io) \<Rightarrow> 'b io" where
  "bind_io m f s =
     (case m s of
        None \<Rightarrow> None
      | Some (Inl e, s') \<Rightarrow> Some (Inl e, s')
      | Some (Inr a, s') \<Rightarrow> f a s')"

definition lift_io :: "serr + 'a \<Rightarrow> 'a io" where
  "lift_io r s = Some (r, s)"

definition next_call :: "sock \<Rightarrow> (serr \<times> nat) option \<times> sock" where
  "next_call s = (case sk_calls s of [] \<Rightarrow> (None, s) | c # cs \<Rightarrow> (c, s\<lparr>sk_calls := cs\<rparr>))"

text \<open>\<^verbatim>\<open>TcpStream::connect_timeout\<close>, \<^verbatim>\<open>try_clone\<close>.\<close>

definition syscall :: "unit io" where
  "syscall s = (case next_call s of (None, s') \<Rightarrow> Some (Inr (), s') | (Some (e, _), s') \<Rightarrow> Some (Inl e, s'))"

definition write_all :: "bytes \<Rightarrow> unit io" where
  "write_all bs s =
     (case next_call s of
        (None, s') \<Rightarrow> Some (Inr (), s'\<lparr>sk_out := sk_out s' @ bs\<rparr>)
      | (Some (e, k), s') \<Rightarrow> Some (Inl e, s'\<lparr>sk_out := sk_out s' @ take k bs\<rparr>))"

definition set_read_timeout :: "nat option \<Rightarrow> unit io" where
  "set_read_timeout t = bind_io syscall (\<lambda>_ s. Some (Inr (), s\<lparr>sk_rto := t\<rparr>))"

definition set_write_timeout :: "nat option \<Rightarrow> unit io" where
  "set_write_timeout t = bind_io syscall (\<lambda>_ s. Some (Inr (), s\<lparr>sk_wto := t\<rparr>))"

subsection \<open>Reading a line\<close>

definition MAX_HELLO_LINE :: nat where "MAX_HELLO_LINE = 512"
definition MAX_SESSION_LINE :: nat where "MAX_SESSION_LINE = 8192"
definition MAX_CONTROL_LINE :: nat where "MAX_CONTROL_LINE = 8192"
definition MAX_STATUS_LINE :: nat where "MAX_STATUS_LINE = 1024"
definition MAX_NAMING_LINE :: nat where "MAX_NAMING_LINE = 8192"
definition MAX_DEST_LINE :: nat where "MAX_DEST_LINE = 4096"
definition MAX_LOOKUP_NAME :: nat where "MAX_LOOKUP_NAME = 255"
definition PONG_WRITE_TIMEOUT :: nat where "PONG_WRITE_TIMEOUT = secs 10"
definition DEST_LINE_TIMEOUT :: nat where "DEST_LINE_TIMEOUT = secs 30"

text \<open>The errors of one line reader: too late, a failed read, the end of the stream, no newline in time.\<close>

record line_errs =
  le_late :: serr
  le_read :: "serr \<Rightarrow> serr"
  le_closed :: serr
  le_long :: serr

primrec line_loop :: "line_errs \<Rightarrow> nat \<Rightarrow> nat option \<Rightarrow> rturn list \<Rightarrow> bytes \<Rightarrow> ((serr + bytes) \<times> rturn list) option" where
  "line_loop errs cap deadline [] line = None"
| "line_loop errs cap deadline (u # us) line =
     (if (case deadline of None \<Rightarrow> False | Some at \<Rightarrow> rt_now u \<ge> at) then Some (Inl (le_late errs), u # us)
      else
        (case rt_rx u of
           Fail e \<Rightarrow> Some (Inl (le_read errs e), us)
         | Eof \<Rightarrow> Some (Inl (le_closed errs), us)
         | Byte b \<Rightarrow>
             if b = 10 then Some (Inr line, us)
             else if length line \<ge> cap then Some (Inl (le_long errs), us)
             else line_loop errs cap deadline us (line @ [b])))"

definition run_line :: "line_errs \<Rightarrow> nat \<Rightarrow> nat option \<Rightarrow> bytes io" where
  "run_line errs cap deadline s =
     (case line_loop errs cap deadline (sk_in s) [] of None \<Rightarrow> None | Some (r, us) \<Rightarrow> Some (r, s\<lparr>sk_in := us\<rparr>))"

definition at_port :: "nat \<Rightarrow> rstr" where
  "at_port port = str ''127.0.0.1:'' @ chars (dec_digits port)"

definition sam_line_errs :: "nat \<Rightarrow> nat \<Rightarrow> rstr \<Rightarrow> line_errs" where
  "sam_line_errs port cap what =
     \<lparr>le_late = err ETimedOut (str ''SAM bridge on '' @ at_port port @ str '' did not finish its '' @ what @ str '' reply in time''),
      le_read = (\<lambda>e. if se_kind e = EWouldBlock \<or> se_kind e = ETimedOut
        then err ETimedOut (at_port port @ str '' accepted the connection but did not answer '' @ what @
          str '' in time; is the router still starting, or is something else on that port?'')
        else e),
      le_closed = err EUnexpectedEof (str ''SAM bridge on '' @ at_port port @ str '' closed the connection during '' @ what),
      le_long = err EInvalidData (at_port port @ str '' answered '' @ what @ str '' with '' @ chars (dec_digits cap) @
        str ''+ bytes and no newline; this does not look like a SAM bridge'')\<rparr>"

definition trim_end_cr :: "rstr \<Rightarrow> rstr" where
  "trim_end_cr s = rev (dropWhile (\<lambda>c. c = 13) (rev s))"

definition read_sam_line :: "nat \<Rightarrow> nat \<Rightarrow> nat option \<Rightarrow> rstr \<Rightarrow> rstr io" where
  "read_sam_line port cap deadline what =
     bind_io (run_line (sam_line_errs port cap what) cap deadline) (\<lambda>line. ret (trim_end_cr (from_utf8_lossy line)))"

text \<open>\<^verbatim>\<open>Instant::checked_add\<close>: seconds are an \<^verbatim>\<open>i64\<close>.\<close>

definition INSTANT_MAX :: nat where "INSTANT_MAX = (2 ^ 63 - 1) * 1000000000 + 999999999"

definition deadline_after :: "nat \<Rightarrow> nat \<Rightarrow> nat option" where
  "deadline_after now timeout = (if now + timeout \<le> INSTANT_MAX then Some (now + timeout) else None)"

subsection \<open>What may be said of a control line\<close>

definition sam_scrub_char :: "rchar \<Rightarrow> rchar" where
  "sam_scrub_char c =
     (if is_control c then 0x2E
      else if c = 0xAD \<or> c = 0x61C \<or> c = 0x180E \<or> (0x200B \<le> c \<and> c \<le> 0x200F) \<or> c = 0x2028 \<or> c = 0x2029 \<or>
        (0x202A \<le> c \<and> c \<le> 0x202E) \<or> (0x2060 \<le> c \<and> c \<le> 0x2064) \<or> (0x2066 \<le> c \<and> c \<le> 0x206F) \<or>
        (0xFE00 \<le> c \<and> c \<le> 0xFE0F) \<or> c = 0xFEFF \<or> (0xFFF9 \<le> c \<and> c \<le> 0xFFFB) \<or> (0xE0000 \<le> c \<and> c \<le> 0xE007F)
      then 0x2E else c)"

definition SECRET_FIELDS :: "rstr list" where
  "SECRET_FIELDS = [str ''DESTINATION'', str ''PRIVKEY'', str ''PRIVATEKEY'', str ''KEY'']"

definition BLOB :: nat where "BLOB = 64"

definition key_char :: "rchar \<Rightarrow> bool" where
  "key_char c \<longleftrightarrow> (48 \<le> c \<and> c \<le> 57) \<or> (65 \<le> c \<and> c \<le> 90) \<or> (97 \<le> c \<and> c \<le> 122) \<or> c = 45 \<or> c = 126 \<or> c = 61"

primrec key_run :: "nat \<Rightarrow> nat \<Rightarrow> rstr \<Rightarrow> bool" where
  "key_run min_run run [] = False"
| "key_run min_run run (c # s) =
     (if key_char c then (if run + 1 \<ge> min_run then True else key_run min_run (run + 1) s)
      else key_run min_run 0 s)"

definition looks_like_key_material :: "rstr \<Rightarrow> nat \<Rightarrow> bool" where
  "looks_like_key_material field min_run = key_run min_run 0 field"

definition ascii_upper :: "rchar \<Rightarrow> rchar" where
  "ascii_upper c = (if 97 \<le> c \<and> c \<le> 122 then c - 32 else c)"

definition scrub_field :: "rstr \<Rightarrow> rstr" where
  "scrub_field field =
     (case split_once 61 field of
        Some (key, _) \<Rightarrow>
          if map ascii_upper key \<in> set SECRET_FIELDS then map sam_scrub_char key @ str ''=<redacted>''
          else if looks_like_key_material field BLOB then str ''<redacted>''
          else map sam_scrub_char field
      | None \<Rightarrow> if looks_like_key_material field BLOB then str ''<redacted>'' else map sam_scrub_char field)"

definition scrub_control_line :: "rstr \<Rightarrow> rstr" where
  "scrub_control_line line = join_on 32 (map scrub_field (split_on 32 line))"

primrec find_map :: "('a \<Rightarrow> 'b option) \<Rightarrow> 'a list \<Rightarrow> 'b option" where
  "find_map f [] = None"
| "find_map f (x # xs) = (case f x of Some y \<Rightarrow> Some y | None \<Rightarrow> find_map f xs)"

text \<open>\<^verbatim>\<open>split_whitespace().find_map(|f| f.strip_prefix(name))\<close>, and the result word.\<close>

definition find_field :: "rstr \<Rightarrow> rstr \<Rightarrow> rstr option" where
  "find_field name line = find_map (strip_prefix name) (split_whitespace line)"

definition result_word :: "rstr \<Rightarrow> rstr" where
  "result_word line = (case find_field (str ''RESULT='') line of Some r \<Rightarrow> r | None \<Rightarrow> str ''MISSING'')"

definition trim_quotes :: "rstr \<Rightarrow> rstr" where
  "trim_quotes s = rev (dropWhile (\<lambda>c. c = 34) (rev (dropWhile (\<lambda>c. c = 34) s)))"

text \<open>The router's \<^verbatim>\<open>MESSAGE=\<close>, to the end of the line, in brackets.\<close>

definition message_part :: "rstr \<Rightarrow> rstr" where
  "message_part status =
     (case find_sub (str ''MESSAGE='') status of
        None \<Rightarrow> []
      | Some (_, m) \<Rightarrow> str '' ('' @ scrub_control_line (trim_quotes (drop (length (str ''MESSAGE='')) m)) @ str '')'')"

subsection \<open>The exchanges\<close>

definition HELLO_LINE :: rstr where "HELLO_LINE = str ''HELLO VERSION MIN=3.1 MAX=3.3'' @ [10]"

definition hello_err :: "nat \<Rightarrow> rstr \<Rightarrow> serr" where
  "hello_err port reply = err EInvalidData (str ''SAM bridge on '' @ at_port port @ str '' refused HELLO: '' @ scrub_control_line reply)"

definition sam_hello :: "nat \<Rightarrow> nat \<Rightarrow> nat \<Rightarrow> rstr \<Rightarrow> rstr io" where
  "sam_hello port now timeout what =
     bind_io syscall (\<lambda>_.
     bind_io (set_read_timeout (Some timeout)) (\<lambda>_.
     bind_io (set_write_timeout (Some timeout)) (\<lambda>_.
     bind_io (write_all (str_bytes HELLO_LINE)) (\<lambda>_.
     bind_io (read_sam_line port MAX_HELLO_LINE (deadline_after now timeout) what) (\<lambda>reply.
     if \<not> starts_with (str ''HELLO REPLY'') reply \<or> result_word reply \<noteq> str ''OK'' then raise (hello_err port reply)
     else ret reply)))))"

datatype dial_failed = SessionGone serr | DialPeer serr

definition dial_error :: "dial_failed \<Rightarrow> serr" where
  "dial_error f = (case f of SessionGone e \<Rightarrow> e | DialPeer e \<Rightarrow> e)"

definition INVALID_ID :: rstr where "INVALID_ID = str ''INVALID_ID''"

definition not_status_err :: "(rchar \<Rightarrow> rstr) \<Rightarrow> rstr \<Rightarrow> serr" where
  "not_status_err escape_debug status =
     err EInvalidData (str ''SAM bridge answered with '' @ debug_str escape_debug (scrub_control_line status) @ str '' where a STREAM STATUS belongs'')"

definition refused_err :: "rstr \<Rightarrow> rstr \<Rightarrow> serr" where
  "refused_err status what =
     err EConnectionRefused (str ''router refused '' @ what @ str '': '' @ map sam_scrub_char (result_word status) @ message_part status)"

definition expect_stream_ok :: "(rchar \<Rightarrow> rstr) \<Rightarrow> rstr \<Rightarrow> rstr \<Rightarrow> dial_failed + unit" where
  "expect_stream_ok escape_debug status what =
     (if \<not> starts_with (str ''STREAM STATUS'') status then Inl (DialPeer (not_status_err escape_debug status))
      else if result_word status \<noteq> str ''OK'' then
        Inl (if result_word status = INVALID_ID then SessionGone (refused_err status what) else DialPeer (refused_err status what))
      else Inr ())"

definition connect_line :: "rstr \<Rightarrow> bytes \<Rightarrow> rstr" where
  "connect_line nickname peer = str ''STREAM CONNECT ID='' @ nickname @ str '' DESTINATION='' @ chars (to_b32 peer) @ str '' SILENT=false'' @ [10]"

text \<open>Up to the status line every failure is the dial's; the clock is read before each of the two replies.\<close>

definition dial_exchange :: "nat \<Rightarrow> rstr \<Rightarrow> bytes \<Rightarrow> nat \<times> nat \<Rightarrow> nat \<Rightarrow> rstr io" where
  "dial_exchange port nickname peer clock timeout =
     bind_io (sam_hello port (fst clock) timeout (str ''HELLO (for STREAM CONNECT)'')) (\<lambda>_.
     bind_io (write_all (str_bytes (connect_line nickname peer))) (\<lambda>_.
     bind_io (set_read_timeout (Some timeout)) (\<lambda>_.
     read_sam_line port MAX_STATUS_LINE (deadline_after (snd clock) timeout) (str ''STREAM CONNECT''))))"

definition clear_timeouts :: "unit io" where
  "clear_timeouts = bind_io (set_read_timeout None) (\<lambda>_. set_write_timeout None)"

definition dial_stream :: "(rchar \<Rightarrow> rstr) \<Rightarrow> nat \<Rightarrow> rstr \<Rightarrow> bytes \<Rightarrow> nat \<times> nat \<Rightarrow> nat \<Rightarrow> sock \<Rightarrow> ((dial_failed + unit) \<times> sock) option" where
  "dial_stream escape_debug port nickname peer clock timeout s =
     (case dial_exchange port nickname peer clock timeout s of
        None \<Rightarrow> None
      | Some (Inl e, s') \<Rightarrow> Some (Inl (DialPeer e), s')
      | Some (Inr status, s') \<Rightarrow>
          (case expect_stream_ok escape_debug status (str ''the stream to '' @ chars (to_b32 peer)) of
             Inl f \<Rightarrow> Some (Inl f, s')
           | Inr _ \<Rightarrow>
               (case clear_timeouts s' of
                  None \<Rightarrow> None
                | Some (Inl e, s'') \<Rightarrow> Some (Inl (DialPeer e), s'')
                | Some (Inr _, s'') \<Rightarrow> Some (Inr (), s''))))"

subsection \<open>The life of a session\<close>

record life =
  lf_ended :: "rstr option"
  lf_last :: "rstr option"

definition life_new :: life where
  "life_new = \<lparr>lf_ended = None, lf_last = None\<rparr>"

definition alive :: "life \<Rightarrow> bool" where
  "alive l \<longleftrightarrow> lf_ended l = None"

definition life_note :: "rstr \<Rightarrow> life \<Rightarrow> life" where
  "life_note line l = l\<lparr>lf_last := Some (scrub_control_line line)\<rparr>"

definition life_end :: "(rchar \<Rightarrow> rstr) \<Rightarrow> rstr \<Rightarrow> life \<Rightarrow> life" where
  "life_end escape_debug why l =
     (if lf_ended l = None then
        l\<lparr>lf_ended := Some (case lf_last l of
            Some line \<Rightarrow> why @ str ''; the router's last words were '' @ debug_str escape_debug line
          | None \<Rightarrow> why)\<rparr>
      else l)"

text \<open>What \<^verbatim>\<open>wait_end\<close> returns; \<open>None\<close> while it waits.\<close>

definition wait_end :: "life \<Rightarrow> rstr option" where
  "wait_end l = lf_ended l"

definition session_status_result :: "rstr \<Rightarrow> rstr option" where
  "session_status_result line =
     Option.bind (strip_prefix (str ''SESSION STATUS'') line) (\<lambda>rest.
       if \<not> (rest = [] \<or> starts_with [32] rest) then None else Some (result_word rest))"

definition ping_token :: "rstr \<Rightarrow> rstr option" where
  "ping_token line = Option.bind (strip_prefix (str ''PING'') line) (\<lambda>rest. if rest = [] \<or> starts_with [32] rest then Some rest else None)"

definition pong_line :: "rstr \<Rightarrow> rstr" where
  "pong_line token = str ''PONG'' @ token @ [10]"

definition fatal_status :: "rstr \<Rightarrow> bool" where
  "fatal_status line \<longleftrightarrow> (case session_status_result line of None \<Rightarrow> False | Some r \<Rightarrow> r \<noteq> str ''OK'' \<and> r \<noteq> str ''MISSING'')"

lemma line_loop_shorter: "line_loop errs cap deadline us line = Some (Inr l, us') \<Longrightarrow> length us' < length us"
  by (induction us arbitrary: line) (auto split: if_splits rx.splits option.splits intro: less_SucI)

lemma read_sam_line_shorter: "read_sam_line port cap deadline what s = Some (Inr l, s') \<Longrightarrow> length (sk_in s') < length (sk_in s)"
  by (auto simp: read_sam_line_def bind_io_def run_line_def ret_def split: option.splits sum.splits dest!: line_loop_shorter)

lemma write_all_in: "write_all bs s = Some (r, s') \<Longrightarrow> sk_in s' = sk_in s"
  by (auto simp: write_all_def next_call_def split: list.splits option.splits)

text \<open>The loop of \<^verbatim>\<open>watch_control\<close>: the session's life and the socket when it returns, or with \<open>False\<close> when it is still waiting.\<close>

function watch_loop :: "(rchar \<Rightarrow> rstr) \<Rightarrow> nat \<Rightarrow> sock \<Rightarrow> life \<Rightarrow> life \<times> sock \<times> bool" where
  "watch_loop escape_debug port s l =
     (case read_sam_line port MAX_CONTROL_LINE None (str ''the session control connection'') s of
        None \<Rightarrow> (l, s, False)
      | Some (Inl e, s') \<Rightarrow> (life_end escape_debug (str ''the SAM control connection ended: '' @ se_text e) l, s', True)
      | Some (Inr said, s') \<Rightarrow>
          (case ping_token said of
             Some token \<Rightarrow>
               (case write_all (str_bytes (pong_line token)) s' of
                  Some (Inr _, s'') \<Rightarrow> watch_loop escape_debug port s'' l
                | Some (Inl _, s'') \<Rightarrow> (life_end escape_debug (str ''the SAM control connection would not take a PONG'') l, s'', True)
                | None \<Rightarrow> (l, s', False))
           | None \<Rightarrow>
               if fatal_status said then (life_end escape_debug (str ''the router ended the session'') (life_note said l), s', True)
               else watch_loop escape_debug port s' (life_note said l)))"
  by pat_completeness auto
termination
  by (relation "measure (\<lambda>(escape_debug, port, s, l). length (sk_in s))") (auto dest!: read_sam_line_shorter write_all_in)

declare watch_loop.simps [simp del]

definition watch_control :: "(rchar \<Rightarrow> rstr) \<Rightarrow> nat \<Rightarrow> sock \<Rightarrow> life \<Rightarrow> life \<times> sock \<times> bool" where
  "watch_control escape_debug port s l =
     (case set_write_timeout (Some PONG_WRITE_TIMEOUT) s of
        Some (_, s') \<Rightarrow> watch_loop escape_debug port s' l
      | None \<Rightarrow> (l, s, False))"

text \<open>The thread around it.\<close>

definition watchdog :: "(rchar \<Rightarrow> rstr) \<Rightarrow> nat \<Rightarrow> sock \<Rightarrow> life \<Rightarrow> life \<times> sock \<times> bool" where
  "watchdog escape_debug port s l =
     (case watch_control escape_debug port s l of
        (l', s', fin) \<Rightarrow> (if fin then life_end escape_debug (str ''the session watchdog stopped'') l' else l', s', fin))"

subsection \<open>Creating a session\<close>

definition has_unsendable_byte :: "rstr \<Rightarrow> bool" where
  "has_unsendable_byte field = list_ex (\<lambda>b. b \<le> 0x20 \<or> b = 0x7f) (str_bytes field)"

record sam_config =
  sc_port :: nat
  sc_nickname :: rstr
  sc_key :: "rstr option"
  sc_probe_timeout :: nat
  sc_session_timeout :: nat

definition sam_config_default :: sam_config where
  "sam_config_default = \<lparr>sc_port = 7656, sc_nickname = str ''clove'', sc_key = None, sc_probe_timeout = secs 10, sc_session_timeout = secs 180\<rparr>"

text \<open>\<^verbatim>\<open>SamListener\<close> and dialling use the session's port, nickname, probe timeout and life; its control socket is kept beside it.\<close>

record sam_session =
  ss_life :: life
  ss_local :: bytes
  ss_local_b64 :: bytes
  ss_private :: rstr
  ss_port :: nat
  ss_probe_timeout :: nat
  ss_nickname :: rstr

definition parse_session_status :: "(rchar \<Rightarrow> rstr) \<Rightarrow> rstr \<Rightarrow> serr + rstr" where
  "parse_session_status escape_debug status =
     (if \<not> starts_with (str ''SESSION STATUS'') status then
        Inl (err EInvalidData (str ''SAM bridge answered SESSION CREATE with '' @ debug_str escape_debug (scrub_control_line status)))
      else if result_word status \<noteq> str ''OK'' then
        Inl (err EOther (str ''router refused the session: '' @ map sam_scrub_char (result_word status) @ message_part status))
      else
        (case find_field (str ''DESTINATION='') status of
           Some d \<Rightarrow> Inr d
         | None \<Rightarrow> Inl (err EInvalidData (str ''SESSION STATUS said OK but carried no DESTINATION''))))"

definition bad_nickname_err :: "(rchar \<Rightarrow> rstr) \<Rightarrow> rstr \<Rightarrow> serr" where
  "bad_nickname_err escape_debug nickname =
     err EInvalidInput (str ''not a nickname clove will put in a SAM command (contains a space or a control character): '' @
       debug_str escape_debug (map sam_scrub_char nickname))"

definition bad_key_err :: serr where
  "bad_key_err = err EInvalidInput (str ''the persistent key contains a space or a control character, which cannot go into a SAM command; is destination.key intact?'')"

definition create_line :: "sam_config \<Rightarrow> rstr" where
  "create_line config =
     str ''SESSION CREATE STYLE=STREAM ID='' @ sc_nickname config @ str '' DESTINATION='' @
     (case sc_key config of Some k \<Rightarrow> k | None \<Rightarrow> str ''TRANSIENT'') @
     str '' i2cp.leaseSetEncType=6,4 inbound.length=3 inbound.quantity=2 outbound.length=3 outbound.quantity=2 SIGNATURE_TYPE=7'' @ [10]"

definition new_session :: "sam_config \<Rightarrow> bytes \<Rightarrow> bytes \<Rightarrow> rstr \<Rightarrow> sam_session" where
  "new_session config dest_hash public_bytes blob =
     \<lparr>ss_life = life_new, ss_local = dest_hash, ss_local_b64 = i2p_base64_encode public_bytes, ss_private = blob, ss_port = sc_port config,
      ss_probe_timeout = sc_probe_timeout config, ss_nickname = sc_nickname config\<rparr>"

definition open_session :: "(rchar \<Rightarrow> rstr) \<Rightarrow> (bytes \<Rightarrow> bytes) \<Rightarrow> sam_config \<Rightarrow> rstr \<Rightarrow> sam_session io" where
  "open_session escape_debug sha256 config status =
     bind_io (lift_io (parse_session_status escape_debug status)) (\<lambda>blob.
     bind_io (lift_io (ok_or (err EInvalidData (str ''SAM returned a destination clove cannot parse'')) (destination_bytes blob))) (\<lambda>public_bytes.
     bind_io (lift_io (ok_or (err EInvalidData (str ''SAM returned an unparseable destination'')) (from_b64_destination sha256 blob))) (\<lambda>dest_hash.
     bind_io (set_read_timeout None) (\<lambda>_.
     bind_io syscall (\<lambda>_.
     ret (new_session config dest_hash public_bytes blob))))))"

definition sam_connect :: "(rchar \<Rightarrow> rstr) \<Rightarrow> (bytes \<Rightarrow> bytes) \<Rightarrow> sam_config \<Rightarrow> nat \<times> nat \<Rightarrow> sam_session io" where
  "sam_connect escape_debug sha256 config clock =
     (if has_unsendable_byte (sc_nickname config) then raise (bad_nickname_err escape_debug (sc_nickname config))
      else if (case sc_key config of None \<Rightarrow> False | Some k \<Rightarrow> has_unsendable_byte k) then raise bad_key_err
      else
        bind_io (sam_hello (sc_port config) (fst clock) (sc_probe_timeout config) (str ''HELLO'')) (\<lambda>_.
        bind_io (write_all (str_bytes (create_line config))) (\<lambda>_.
        bind_io (set_read_timeout (Some (sc_session_timeout config))) (\<lambda>_.
        bind_io (read_sam_line (sc_port config) MAX_SESSION_LINE (deadline_after (snd clock) (sc_session_timeout config)) (str ''SESSION CREATE'')) (\<lambda>status.
        open_session escape_debug sha256 config status)))))"

definition healthy :: "sam_session \<Rightarrow> bool" where
  "healthy ss = alive (ss_life ss)"

definition wait_until_lost :: "sam_session \<Rightarrow> rstr option" where
  "wait_until_lost ss = wait_end (ss_life ss)"

subsection \<open>Dialling and listening on a session\<close>

definition dial :: "(rchar \<Rightarrow> rstr) \<Rightarrow> sam_session \<Rightarrow> bytes \<Rightarrow> nat \<times> nat \<Rightarrow> nat \<Rightarrow> sock \<Rightarrow> ((serr + unit) \<times> sam_session \<times> sock) option" where
  "dial escape_debug ss peer clock timeout s =
     (case dial_stream escape_debug (ss_port ss) (ss_nickname ss) peer clock timeout s of
        None \<Rightarrow> None
      | Some (Inr _, s') \<Rightarrow> Some (Inr (), ss, s')
      | Some (Inl f, s') \<Rightarrow>
          Some (Inl (dial_error f),
            (case f of
               SessionGone e \<Rightarrow> ss\<lparr>ss_life := life_end escape_debug (str ''the router no longer has our session ('' @ se_text e @ str '')'') (ss_life ss)\<rparr>
             | DialPeer _ \<Rightarrow> ss), s'))"

definition forward_line :: "rstr \<Rightarrow> nat \<Rightarrow> rstr" where
  "forward_line nickname port = str ''STREAM FORWARD ID='' @ nickname @ str '' PORT='' @ chars (dec_digits port) @ str '' SILENT=false'' @ [10]"

text \<open>\<open>bound\<close> is the port of the fresh loopback listener; the result is the listener's own port.\<close>

definition sam_forward :: "(rchar \<Rightarrow> rstr) \<Rightarrow> sam_session \<Rightarrow> serr + nat \<Rightarrow> nat \<times> nat \<Rightarrow> nat io" where
  "sam_forward escape_debug ss bound clock =
     bind_io (lift_io bound) (\<lambda>port.
     bind_io (sam_hello (ss_port ss) (fst clock) (ss_probe_timeout ss) (str ''HELLO (for STREAM FORWARD)'')) (\<lambda>_.
     bind_io (write_all (str_bytes (forward_line (ss_nickname ss) port))) (\<lambda>_.
     bind_io (read_sam_line (ss_port ss) MAX_STATUS_LINE (deadline_after (snd clock) (ss_probe_timeout ss)) (str ''STREAM FORWARD'')) (\<lambda>status.
     bind_io (lift_io (case expect_stream_ok escape_debug status (str ''STREAM FORWARD'') of Inl f \<Rightarrow> Inl (dial_error f) | Inr u \<Rightarrow> Inr u)) (\<lambda>_.
     bind_io (set_read_timeout None) (\<lambda>_.
     ret port))))))"

definition ENFILE :: int where "ENFILE = 23"
definition EMFILE :: int where "EMFILE = 24"
definition ENOBUFS :: int where "ENOBUFS = 105"

definition out_of_descriptors :: "serr \<Rightarrow> bool" where
  "out_of_descriptors e \<longleftrightarrow> se_os e = Some EMFILE \<or> se_os e = Some ENFILE"

definition transient_accept :: "serr \<Rightarrow> bool" where
  "transient_accept e \<longleftrightarrow>
     out_of_descriptors e \<or> se_os e = Some ENOBUFS \<or>
     se_kind e = EInterrupted \<or> se_kind e = EConnectionAborted \<or> se_kind e = EOutOfMemory"

text \<open>The second component says that the acceptor pauses.\<close>

definition usable_accept :: "serr + sock \<Rightarrow> (serr + sock option) \<times> bool" where
  "usable_accept accepted =
     (case accepted of
        Inr socket \<Rightarrow> (Inr (Some socket), False)
      | Inl e \<Rightarrow> if \<not> transient_accept e then (Inl e, False) else (Inr None, out_of_descriptors e))"

definition dest_line_errs :: line_errs where
  "dest_line_errs =
     \<lparr>le_late = err ETimedOut (str ''forwarded stream did not finish its destination line in time''),
      le_read = (\<lambda>e. e),
      le_closed = err EUnexpectedEof (str ''forwarded stream closed before its destination line''),
      le_long = err EInvalidData (str ''forwarded destination line exceeds the maximum length'')\<rparr>"

definition read_dest_line :: "(bytes \<Rightarrow> bytes) \<Rightarrow> nat \<Rightarrow> nat option \<Rightarrow> bytes io" where
  "read_dest_line sha256 max_len deadline =
     bind_io (run_line dest_line_errs max_len deadline) (\<lambda>line.
     bind_io (lift_io (ok_or (err EInvalidData (str ''destination line is not UTF-8'')) (from_utf8 line))) (\<lambda>dest_text.
     lift_io (ok_or (err EInvalidData (str ''forwarded destination line is not a parseable I2P destination'')) (from_b64_destination sha256 dest_text))))"

definition accept_forwarded :: "(bytes \<Rightarrow> bytes) \<Rightarrow> nat \<Rightarrow> serr + sock \<Rightarrow> (serr + (sock \<times> bytes) option) option" where
  "accept_forwarded sha256 now accepted =
     (case fst (usable_accept accepted) of
        Inl e \<Rightarrow> Some (Inl e)
      | Inr None \<Rightarrow> Some (Inr None)
      | Inr (Some stream) \<Rightarrow>
          (case set_read_timeout (Some DEST_LINE_TIMEOUT) stream of
             Some (Inr _, s1) \<Rightarrow>
               (case read_dest_line sha256 MAX_DEST_LINE (deadline_after now DEST_LINE_TIMEOUT) s1 of
                  None \<Rightarrow> None
                | Some (Inl _, _) \<Rightarrow> Some (Inr None)
                | Some (Inr dest, s2) \<Rightarrow>
                    (case set_read_timeout None s2 of Some (Inr _, s3) \<Rightarrow> Some (Inr (Some (s3, dest))) | _ \<Rightarrow> Some (Inr None)))
           | _ \<Rightarrow> Some (Inr None)))"

definition sam_accept ::
  "(rchar \<Rightarrow> rstr) \<Rightarrow> (bytes \<Rightarrow> bytes) \<Rightarrow> sam_session \<Rightarrow> nat \<Rightarrow> serr + sock \<Rightarrow> ((serr + (sock \<times> bytes) option) \<times> sam_session) option" where
  "sam_accept escape_debug sha256 ss now accepted =
     map_option (\<lambda>r. (r, case r of
         Inl e \<Rightarrow> ss\<lparr>ss_life := life_end escape_debug (str ''the forward listener failed: '' @ se_text e) (ss_life ss)\<rparr>
       | Inr _ \<Rightarrow> ss)) (accept_forwarded sha256 now accepted)"

subsection \<open>Name lookups\<close>

definition bad_name_err :: "(rchar \<Rightarrow> rstr) \<Rightarrow> rstr \<Rightarrow> string \<Rightarrow> serr" where
  "bad_name_err escape_debug name why =
     err EInvalidInput (str ''not a name clove will look up ('' @ str why @ str ''): '' @ debug_str escape_debug (map sam_scrub_char name))"

definition check_lookup_name :: "(rchar \<Rightarrow> rstr) \<Rightarrow> rstr \<Rightarrow> serr + unit" where
  "check_lookup_name escape_debug name =
     (if name = [] then Inl (bad_name_err escape_debug name ''empty'')
      else if length (str_bytes name) > MAX_LOOKUP_NAME then Inl (bad_name_err escape_debug name ''longer than a hostname'')
      else if has_unsendable_byte name then Inl (bad_name_err escape_debug name ''contains a space or a control character'')
      else Inr ())"

definition parse_naming_reply :: "(rchar \<Rightarrow> rstr) \<Rightarrow> rstr \<Rightarrow> rstr \<Rightarrow> serr + rstr" where
  "parse_naming_reply escape_debug reply name =
     (if \<not> starts_with (str ''NAMING REPLY'') reply then
        Inl (err EInvalidData (str ''SAM bridge answered '' @ debug_str escape_debug (scrub_control_line reply) @ str '' where a NAMING REPLY belongs''))
      else if result_word reply \<noteq> str ''OK'' then
        Inl (err ENotFound (str ''router could not resolve '' @ map sam_scrub_char name @ str '': '' @ map sam_scrub_char (result_word reply)))
      else
        (case find_field (str ''VALUE='') reply of
           Some v \<Rightarrow> if v \<noteq> [] then Inr v else Inl (err EInvalidData (str ''router resolved '' @ map sam_scrub_char name @ str '' but sent no destination''))
         | None \<Rightarrow> Inl (err EInvalidData (str ''router resolved '' @ map sam_scrub_char name @ str '' but sent no destination''))))"

definition naming_line :: "rstr \<Rightarrow> rstr" where
  "naming_line name = str ''NAMING LOOKUP NAME='' @ name @ [10]"

definition naming_lookup :: "(rchar \<Rightarrow> rstr) \<Rightarrow> (bytes \<Rightarrow> bytes) \<Rightarrow> nat \<Rightarrow> rstr \<Rightarrow> nat \<times> nat \<Rightarrow> nat \<Rightarrow> bytes io" where
  "naming_lookup escape_debug sha256 port name clock timeout =
     bind_io (lift_io (check_lookup_name escape_debug name)) (\<lambda>_.
     bind_io (sam_hello port (fst clock) timeout (str ''HELLO (for NAMING LOOKUP)'')) (\<lambda>_.
     bind_io (write_all (str_bytes (naming_line name))) (\<lambda>_.
     bind_io (read_sam_line port MAX_NAMING_LINE (deadline_after (snd clock) timeout) (str ''NAMING LOOKUP'')) (\<lambda>reply.
     bind_io (lift_io (parse_naming_reply escape_debug reply name)) (\<lambda>v.
     lift_io (ok_or (err EInvalidData (str ''router resolved '' @ map sam_scrub_char name @ str '' to something that is not a destination''))
       (from_b64_destination sha256 v)))))))"

subsection \<open>Lemmas: redaction\<close>

lemma sam_scrub_char_eq: "sam_scrub_char = scrub_char"
  by (simp add: fun_eq_iff sam_scrub_char_def scrub_char_def)

lemma key_char_scrub: "key_char (sam_scrub_char c) = key_char c"
  by (simp add: sam_scrub_char_def key_char_def is_control_def)

lemma key_run_scrub: "key_run n r (map sam_scrub_char s) = key_run n r s"
  by (induction s arbitrary: r) (simp_all add: key_char_scrub)

lemma key_run_length: "key_run n r s \<Longrightarrow> n \<le> r + length s"
proof (induction s arbitrary: r)
  case (Cons c s)
  then show ?case by (cases "key_char c"; cases "n \<le> r + 1") (auto dest: Cons.IH)
qed simp

lemma key_run_break: "\<not> key_char c \<Longrightarrow> key_run n r (a @ c # b) \<longleftrightarrow> key_run n r a \<or> key_run n 0 b"
  by (induction a arbitrary: r) simp_all

lemma key_run_join: "\<not> key_char c \<Longrightarrow> key_run n 0 (join_on c ls) \<longleftrightarrow> (\<exists>l \<in> set ls. key_run n 0 l)"
  by (induction c ls rule: join_on.induct) (simp_all add: key_run_break)

lemma secret_length: "map ascii_upper key \<in> set SECRET_FIELDS \<Longrightarrow> length key \<le> 11"
  by (auto simp: SECRET_FIELDS_def str_def dest!: arg_cong [where f = length])

lemma redacted_short: "\<not> key_run BLOB 0 s" if "length s < 64" for s
  using key_run_length [of BLOB 0 s] that by (auto simp: BLOB_def)

lemma scrub_field_no_key: "\<not> looks_like_key_material (scrub_field f) BLOB"
proof -
  have r: "\<not> key_run BLOB 0 (str ''<redacted>'')" by (rule redacted_short) (simp add: str_def)
  have k: "\<not> key_run BLOB 0 (map sam_scrub_char key @ str ''=<redacted>'')" if "map ascii_upper key \<in> set SECRET_FIELDS" for key
    by (rule redacted_short) (use secret_length [OF that] in \<open>simp add: str_def\<close>)
  show ?thesis using r k by (auto simp: scrub_field_def looks_like_key_material_def key_run_scrub split: option.splits)
qed

lemma scrub_line_no_key: "\<not> looks_like_key_material (scrub_control_line line) BLOB"
proof -
  have "\<not> key_char 32" by (simp add: key_char_def)
  then show ?thesis using scrub_field_no_key by (simp add: scrub_control_line_def looks_like_key_material_def key_run_join)
qed

lemma scrub_field_harmless: "list_all harmless (scrub_field f)"
proof -
  have "list_all harmless (str ''<redacted>'')" "list_all harmless (str ''=<redacted>'')" by (simp_all add: str_def harmless_iff is_control_def)
  moreover have "list_all harmless (map sam_scrub_char s)" for s by (simp add: list_all_iff sam_scrub_char_eq scrub_char_harmless)
  ultimately show ?thesis by (auto simp: scrub_field_def split: option.splits)
qed

lemma join_harmless: "list_all (list_all harmless) ls \<Longrightarrow> list_all harmless (join_on 32 ls)"
proof -
  have "harmless 32" by (simp add: harmless_iff is_control_def)
  then show "list_all (list_all harmless) ls \<Longrightarrow> list_all harmless (join_on 32 ls)"
    by (induction "32 :: rchar" ls rule: join_on.induct) simp_all
qed

lemma scrub_line_harmless: "list_all harmless (scrub_control_line line)"
  unfolding scrub_control_line_def by (rule join_harmless) (simp add: list_all_iff scrub_field_harmless [unfolded list_all_iff])

lemma scrub_line_fields:
  "fs \<noteq> [] \<Longrightarrow> \<forall>f \<in> set fs. 32 \<notin> set f \<Longrightarrow> scrub_control_line (join_on 32 fs) = join_on 32 (map scrub_field fs)"
  by (simp add: scrub_control_line_def split_on_join)

lemma secret_no_equals:
  assumes "map ascii_upper key \<in> set SECRET_FIELDS"
  shows "61 \<notin> set key"
proof
  assume "61 \<in> set key"
  then have "61 \<in> set (map ascii_upper key)" by (force simp: ascii_upper_def)
  moreover have "\<forall>f \<in> set SECRET_FIELDS. 61 \<notin> set f" by (simp add: SECRET_FIELDS_def str_def)
  ultimately show False using assms by blast
qed

lemma split_once_found: "c \<notin> set a \<Longrightarrow> split_once c (a @ c # b) = Some (a, b)"
  by (induction a) (auto simp: split_once_def cut_at_def)

lemma scrub_field_secret:
  assumes "map ascii_upper key \<in> set SECRET_FIELDS"
  shows "scrub_field (key @ 61 # v) = map sam_scrub_char key @ str ''=<redacted>''"
  using assms by (simp add: scrub_field_def split_once_found [OF secret_no_equals])

subsection \<open>Lemmas: what is written\<close>

text \<open>However the calls turn out, what \<open>m\<close> has written is a beginning of \<open>w\<close>, and all of it when it succeeds.\<close>

definition writes :: "'a io \<Rightarrow> bytes \<Rightarrow> bool" where
  "writes m w \<longleftrightarrow>
     (\<forall>s r s'. m s = Some (r, s') \<longrightarrow>
       (\<exists>p q. sk_out s' = sk_out s @ p \<and> w = p @ q \<and> (case r of Inl _ \<Rightarrow> True | Inr _ \<Rightarrow> q = [])))"

lemma writes_bind [intro]:
  assumes "writes m v" "\<And>a. writes (f a) w"
  shows "writes (bind_io m f) (v @ w)"
  unfolding writes_def
proof (intro allI impI)
  fix s r s' assume b: "bind_io m f s = Some (r, s')"
  then obtain x s1 where x: "m s = Some (x, s1)" by (auto simp: bind_io_def split: option.splits)
  with assms(1) obtain p q where p: "sk_out s1 = sk_out s @ p" "v = p @ q" "case x of Inl _ \<Rightarrow> True | Inr _ \<Rightarrow> q = []"
    unfolding writes_def by blast
  show "\<exists>p q. sk_out s' = sk_out s @ p \<and> v @ w = p @ q \<and> (case r of Inl _ \<Rightarrow> True | Inr _ \<Rightarrow> q = [])"
  proof (cases x)
    case (Inl e)
    then show ?thesis using b x p by (auto simp: bind_io_def)
  next
    case (Inr a)
    then have "f a s1 = Some (r, s')" using b x by (simp add: bind_io_def)
    then obtain p' q' where "sk_out s' = sk_out s1 @ p'" "w = p' @ q'" "case r of Inl _ \<Rightarrow> True | Inr _ \<Rightarrow> q' = []"
      using assms(2) [of a] unfolding writes_def by blast
    then show ?thesis using p Inr by (intro exI [of _ "p @ p'"] exI [of _ q']) simp
  qed
qed

lemma writes_bind_nil [intro]: "writes m [] \<Longrightarrow> (\<And>a. writes (f a) w) \<Longrightarrow> writes (bind_io m f) w"
  using writes_bind [of m "[]" f w] by simp

lemma writes_weaken: "writes m [] \<Longrightarrow> (\<And>s r s'. m s = Some (r, s') \<Longrightarrow> \<exists>e. r = Inl e) \<Longrightarrow> writes m w"
  unfolding writes_def by fastforce

lemma writes_ret [intro]: "writes (ret a) []" "writes (lift_io r) []" "writes (raise e) w"
  by (auto simp: writes_def ret_def lift_io_def raise_def split: sum.splits)

lemma writes_call [intro]: "writes syscall []" "writes (set_read_timeout t) []" "writes (set_write_timeout t) []"
  by (auto simp: writes_def syscall_def set_read_timeout_def set_write_timeout_def bind_io_def next_call_def
      split: list.splits option.splits prod.splits sum.splits)

lemma writes_all [intro]: "writes (write_all bs) bs"
  unfolding writes_def
proof (intro allI impI)
  fix s r s' assume "write_all bs s = Some (r, s')"
  then show "\<exists>p q. sk_out s' = sk_out s @ p \<and> bs = p @ q \<and> (case r of Inl _ \<Rightarrow> True | Inr _ \<Rightarrow> q = [])"
    by (auto simp: write_all_def next_call_def split: list.splits option.splits) (metis append_take_drop_id)
qed

lemma writes_line [intro]: "writes (run_line errs cap deadline) []"
  by (auto simp: writes_def run_line_def split: option.splits sum.splits)

lemma writes_sam_line [intro]: "writes (read_sam_line port cap deadline what) []"
  unfolding read_sam_line_def by (intro writes_bind_nil writes_line writes_ret)

lemma writes_hello: "writes (sam_hello port now timeout what) (str_bytes HELLO_LINE)"
proof -
  have "writes (sam_hello port now timeout what) (str_bytes HELLO_LINE @ [])"
    unfolding sam_hello_def by (intro writes_bind_nil writes_bind writes_call writes_all writes_sam_line) (auto simp: writes_ret)
  then show ?thesis by simp
qed

lemma writes_naming: "writes (naming_lookup escape_debug sha256 port name clock timeout) (str_bytes HELLO_LINE @ str_bytes (naming_line name))"
proof -
  have "writes (naming_lookup escape_debug sha256 port name clock timeout) (str_bytes HELLO_LINE @ str_bytes (naming_line name) @ [])"
    unfolding naming_lookup_def by (intro writes_bind_nil [OF writes_ret(2)] writes_bind writes_hello writes_all writes_bind_nil writes_sam_line writes_ret(2))
  then show ?thesis by simp
qed

lemma writes_dial: "writes (dial_exchange port nickname peer clock timeout) (str_bytes HELLO_LINE @ str_bytes (connect_line nickname peer))"
proof -
  have "writes (dial_exchange port nickname peer clock timeout) (str_bytes HELLO_LINE @ str_bytes (connect_line nickname peer) @ [])"
    unfolding dial_exchange_def by (intro writes_bind writes_hello writes_all writes_bind_nil writes_call writes_sam_line)
  then show ?thesis by simp
qed

lemma writes_open: "writes (open_session escape_debug sha256 config status) []"
  unfolding open_session_def by (intro writes_bind_nil writes_call writes_ret)

lemma writes_connect: "writes (sam_connect escape_debug sha256 config clock) (str_bytes HELLO_LINE @ str_bytes (create_line config))"
proof -
  have "writes (bind_io (sam_hello (sc_port config) (fst clock) (sc_probe_timeout config) (str ''HELLO'')) (\<lambda>_.
      bind_io (write_all (str_bytes (create_line config))) (\<lambda>_.
      bind_io (set_read_timeout (Some (sc_session_timeout config))) (\<lambda>_.
      bind_io (read_sam_line (sc_port config) MAX_SESSION_LINE (deadline_after (snd clock) (sc_session_timeout config)) (str ''SESSION CREATE'')) (\<lambda>status.
      open_session escape_debug sha256 config status))))) (str_bytes HELLO_LINE @ str_bytes (create_line config) @ [])"
    by (intro writes_bind writes_hello writes_all writes_bind_nil writes_call writes_sam_line writes_open)
  then show ?thesis by (simp add: sam_connect_def writes_ret)
qed

subsection \<open>Lemmas: commands are single lines\<close>

lemma unsendable: "c \<in> set s \<Longrightarrow> c \<le> 0x20 \<Longrightarrow> has_unsendable_byte s"
  unfolding has_unsendable_byte_def list_ex_iff
  by (rule bexI [of _ "of_nat c"]) (auto simp: str_bytes_def word_le_nat_alt unat_of_nat utf8_char_def intro!: bexI [of _ c])

text \<open>A line that splits into exactly these fields, with one newline, at its end.\<close>

definition command_of :: "rstr list \<Rightarrow> rstr \<Rightarrow> bool" where
  "command_of fs line \<longleftrightarrow> line = join_on 32 fs @ [10] \<and> split_on 32 (butlast line) = fs \<and> 10 \<notin> set (butlast line)"

lemma command_ofI:
  assumes "line = join_on 32 fs @ [10]" "fs \<noteq> []" "\<forall>f \<in> set fs. 32 \<notin> set f \<and> 10 \<notin> set f"
  shows "command_of fs line"
proof -
  have "10 \<notin> set (join_on 32 fs)" using join_on_set [of 32 fs] assms(3) by auto
  then show ?thesis using assms by (simp add: command_of_def split_on_join)
qed

definition sendable :: "rstr \<Rightarrow> bool" where
  "sendable s \<longleftrightarrow> \<not> has_unsendable_byte s"

lemma sendable_free: "sendable s \<Longrightarrow> 32 \<notin> set s \<and> 10 \<notin> set s"
  using unsendable [of 32 s] unsendable [of 10 s] by (auto simp: sendable_def)

lemma naming_command: "sendable name \<Longrightarrow> command_of [str ''NAMING'', str ''LOOKUP'', str ''NAME='' @ name] (naming_line name)"
  by (rule command_ofI) (auto simp: naming_line_def str_def dest: sendable_free)

lemma b32_sendable: "32 \<notin> set (chars (to_b32 peer)) \<and> 10 \<notin> set (chars (to_b32 peer))"
proof -
  have "set (to_b32 peer) \<subseteq> set B32_ALPHABET \<union> set (ascii ''.b32.i2p'')" using base32_encode_set [of peer] by (auto simp: to_b32_def)
  moreover have "32 \<notin> set B32_ALPHABET \<union> set (ascii ''.b32.i2p'')" "10 \<notin> set B32_ALPHABET \<union> set (ascii ''.b32.i2p'')"
    by (simp_all add: B32_ALPHABET_def ascii_def)
  ultimately have "32 \<notin> set (to_b32 peer)" "10 \<notin> set (to_b32 peer)" by blast+
  moreover have "32 = unat b \<longleftrightarrow> b = 32" "10 = unat b \<longleftrightarrow> b = 10" for b :: byte by (auto simp: word_unat_eq_iff)
  ultimately show ?thesis by (auto simp: chars_def)
qed

lemma connect_command:
  assumes "sendable nickname"
  shows "command_of [str ''STREAM'', str ''CONNECT'', str ''ID='' @ nickname, str ''DESTINATION='' @ chars (to_b32 peer), str ''SILENT=false''] (connect_line nickname peer)"
  using b32_sendable [of peer] sendable_free [OF assms] by (intro command_ofI) (auto simp: connect_line_def str_def)

definition session_fields :: "sam_config \<Rightarrow> rstr list" where
  "session_fields config =
     [str ''SESSION'', str ''CREATE'', str ''STYLE=STREAM'', str ''ID='' @ sc_nickname config,
      str ''DESTINATION='' @ (case sc_key config of Some k \<Rightarrow> k | None \<Rightarrow> str ''TRANSIENT''), str ''i2cp.leaseSetEncType=6,4'',
      str ''inbound.length=3'', str ''inbound.quantity=2'', str ''outbound.length=3'', str ''outbound.quantity=2'', str ''SIGNATURE_TYPE=7'']"

lemma create_command:
  assumes "sendable (sc_nickname config)" "case sc_key config of None \<Rightarrow> True | Some k \<Rightarrow> sendable k"
  shows "command_of (session_fields config) (create_line config)"
  using assms sendable_free
  by (intro command_ofI) (auto simp: create_line_def session_fields_def str_def split: option.splits)

lemma naming_sent:
  assumes "naming_lookup escape_debug sha256 port name clock timeout s = Some (r, s')"
  shows "s' = s \<or> sendable name \<and> (\<exists>p q. sk_out s' = sk_out s @ p \<and> str_bytes HELLO_LINE @ str_bytes (naming_line name) = p @ q)"
proof (cases "check_lookup_name escape_debug name")
  case (Inl e)
  then show ?thesis using assms by (simp add: naming_lookup_def bind_io_def lift_io_def)
next
  case (Inr u)
  then have "sendable name" by (auto simp: check_lookup_name_def sendable_def split: if_splits)
  then show ?thesis using writes_naming assms unfolding writes_def by blast
qed

lemma connect_sent:
  assumes "sam_connect escape_debug sha256 config clock s = Some (r, s')"
  shows "s' = s \<or> sendable (sc_nickname config) \<and> (case sc_key config of None \<Rightarrow> True | Some k \<Rightarrow> sendable k) \<and>
    (\<exists>p q. sk_out s' = sk_out s @ p \<and> str_bytes HELLO_LINE @ str_bytes (create_line config) = p @ q)"
proof (cases "has_unsendable_byte (sc_nickname config) \<or> (case sc_key config of None \<Rightarrow> False | Some k \<Rightarrow> has_unsendable_byte k)")
  case True
  then show ?thesis using assms by (auto simp: sam_connect_def raise_def split: if_splits)
next
  case False
  then have "sendable (sc_nickname config) \<and> (case sc_key config of None \<Rightarrow> True | Some k \<Rightarrow> sendable k)"
    by (auto simp: sendable_def split: option.splits)
  then show ?thesis using writes_connect assms unfolding writes_def by blast
qed

lemma open_session_nickname: "open_session escape_debug sha256 config status s = Some (Inr ss, s') \<Longrightarrow> ss_nickname ss = sc_nickname config"
  by (auto simp: open_session_def bind_io_def ret_def new_session_def split: option.splits sum.splits)

lemma connect_nickname:
  assumes "sam_connect escape_debug sha256 config clock s = Some (Inr ss, s')"
  shows "ss_nickname ss = sc_nickname config \<and> sendable (sc_nickname config)"
  using assms by (auto simp: sam_connect_def raise_def sendable_def bind_io_def split: if_splits option.splits sum.splits dest!: open_session_nickname)

lemma writes_clear: "writes clear_timeouts []"
  unfolding clear_timeouts_def by (intro writes_bind_nil writes_call)

lemma dial_sent:
  assumes "dial escape_debug ss peer clock timeout s = Some (r, ss', s')"
  shows "\<exists>p q. sk_out s' = sk_out s @ p \<and> str_bytes HELLO_LINE @ str_bytes (connect_line (ss_nickname ss) peer) = p @ q"
proof -
  obtain x where d: "dial_stream escape_debug (ss_port ss) (ss_nickname ss) peer clock timeout s = Some (x, s')"
    using assms by (auto simp: dial_def split: option.splits sum.splits)
  then obtain y s1 where e: "dial_exchange (ss_port ss) (ss_nickname ss) peer clock timeout s = Some (y, s1)"
    by (auto simp: dial_stream_def split: option.splits)
  obtain p q where p: "sk_out s1 = sk_out s @ p" "str_bytes HELLO_LINE @ str_bytes (connect_line (ss_nickname ss) peer) = p @ q"
    using writes_dial e unfolding writes_def by blast
  have "sk_out s' = sk_out s1"
  proof -
    have "sk_out s2 = sk_out s1" if "clear_timeouts s1 = Some (z, s2)" for z s2 using writes_clear that unfolding writes_def by fastforce
    then show ?thesis using d e by (auto simp: dial_stream_def split: sum.splits option.splits)
  qed
  then show ?thesis using p by auto
qed

subsection \<open>Lemmas: lines that arrive whole\<close>

definition in_time :: "nat option \<Rightarrow> nat \<Rightarrow> bool" where
  "in_time deadline now \<longleftrightarrow> (case deadline of None \<Rightarrow> True | Some at \<Rightarrow> now < at)"

definition spoken :: "rstr \<Rightarrow> bool" where
  "spoken line \<longleftrightarrow> list_all is_scalar line \<and> 10 \<notin> set line \<and> (line = [] \<or> last line \<noteq> 13)"

text \<open>The turns \<open>us\<close> bring the line and its newline, before the deadline.\<close>

definition says :: "nat option \<Rightarrow> rstr \<Rightarrow> rturn list \<Rightarrow> bool" where
  "says deadline line us \<longleftrightarrow> map rt_rx us = map Byte (str_bytes line @ [10]) \<and> spoken line \<and> list_all (\<lambda>u. in_time deadline (rt_now u)) us"

lemma line_loop_heard:
  "map rt_rx us = map Byte (bs @ [10]) \<Longrightarrow> 10 \<notin> set bs \<Longrightarrow> length acc + length bs \<le> cap \<Longrightarrow> list_all (\<lambda>u. in_time deadline (rt_now u)) us \<Longrightarrow>
    line_loop errs cap deadline (us @ rest) acc = Some (Inr (acc @ bs), rest)"
proof (induction bs arbitrary: us acc)
  case Nil
  then obtain u where "us = [u]" "rt_rx u = Byte 10" by auto
  then show ?case using Nil.prems(4) by (auto simp: in_time_def split: option.splits)
next
  case (Cons b bs)
  then obtain u us' where u: "us = u # us'" "rt_rx u = Byte b" "map rt_rx us' = map Byte (bs @ [10])" by auto
  then have "line_loop errs cap deadline (us' @ rest) (acc @ [b]) = Some (Inr ((acc @ [b]) @ bs), rest)"
    using Cons by (intro Cons.IH) auto
  then show ?case using Cons.prems u by (auto simp: in_time_def split: option.splits)
qed

lemma newline_free: "list_all is_scalar line \<Longrightarrow> 10 \<notin> set line \<Longrightarrow> 10 \<notin> set (str_bytes line)"
  using str_bytes_low [of line 10] by (auto simp: list_all_iff)

lemma trim_end_cr_id: "line = [] \<or> last line \<noteq> 13 \<Longrightarrow> trim_end_cr line = line"
  by (cases line rule: rev_cases) (simp_all add: trim_end_cr_def)

lemma read_line_heard:
  assumes "says deadline line us" "length (str_bytes line) \<le> cap" "sk_in s = us @ rest"
  shows "read_sam_line port cap deadline what s = Some (Inr line, s\<lparr>sk_in := rest\<rparr>)"
proof -
  have "line_loop (sam_line_errs port cap what) cap deadline (us @ rest) [] = Some (Inr (str_bytes line), rest)"
    using line_loop_heard [of us "str_bytes line" "[]" cap deadline "sam_line_errs port cap what" rest] assms newline_free
    by (simp add: says_def spoken_def)
  moreover have "from_utf8_lossy (str_bytes line) = line"
    using assms(1) by (intro from_utf8_lossy_valid) (simp add: from_utf8_iff says_def spoken_def list_all_iff)
  moreover have "trim_end_cr line = line" using assms(1) by (intro trim_end_cr_id) (simp add: says_def spoken_def)
  ultimately show ?thesis using assms(3) by (simp add: read_sam_line_def bind_io_def run_line_def ret_def)
qed

lemma calls_succeed:
  assumes "sk_calls s = []"
  shows "syscall s = Some (Inr (), s)" "write_all bs s = Some (Inr (), s\<lparr>sk_out := sk_out s @ bs\<rparr>)"
    "set_read_timeout t s = Some (Inr (), s\<lparr>sk_rto := t\<rparr>)" "set_write_timeout t s = Some (Inr (), s\<lparr>sk_wto := t\<rparr>)"
  using assms by (simp_all add: syscall_def write_all_def next_call_def set_read_timeout_def set_write_timeout_def bind_io_def)

definition hello_ok :: "rstr \<Rightarrow> bool" where
  "hello_ok reply \<longleftrightarrow> starts_with (str ''HELLO REPLY'') reply \<and> result_word reply = str ''OK'' \<and> length (str_bytes reply) \<le> MAX_HELLO_LINE"

lemma hello_heard:
  assumes "sk_calls s = []" "sk_in s = us @ rest" "says (deadline_after now timeout) reply us" "hello_ok reply"
  shows "sam_hello port now timeout what s =
    Some (Inr reply, s\<lparr>sk_in := rest, sk_out := sk_out s @ str_bytes HELLO_LINE, sk_rto := Some timeout, sk_wto := Some timeout\<rparr>)"
proof -
  let ?s = "s\<lparr>sk_rto := Some timeout, sk_wto := Some timeout, sk_out := sk_out s @ str_bytes HELLO_LINE\<rparr>"
  have "read_sam_line port MAX_HELLO_LINE (deadline_after now timeout) what ?s = Some (Inr reply, ?s\<lparr>sk_in := rest\<rparr>)"
    using assms by (intro read_line_heard [of _ _ us]) (auto simp: hello_ok_def)
  then show ?thesis using assms(1,4) by (simp add: sam_hello_def bind_io_def calls_succeed ret_def hello_ok_def)
qed

lemma dial_exchange_heard:
  assumes "sk_calls s = []" "sk_in s = h @ t @ rest" "says (deadline_after (fst clock) timeout) reply h" "hello_ok reply"
    and "says (deadline_after (snd clock) timeout) status t" "length (str_bytes status) \<le> MAX_STATUS_LINE"
  shows "dial_exchange port nickname peer clock timeout s =
    Some (Inr status, s\<lparr>sk_in := rest, sk_out := sk_out s @ str_bytes HELLO_LINE @ str_bytes (connect_line nickname peer),
      sk_rto := Some timeout, sk_wto := Some timeout\<rparr>)"
proof -
  have "sam_hello port (fst clock) timeout (str ''HELLO (for STREAM CONNECT)'') s =
      Some (Inr reply, s\<lparr>sk_in := t @ rest, sk_out := sk_out s @ str_bytes HELLO_LINE, sk_rto := Some timeout, sk_wto := Some timeout\<rparr>)"
    using hello_heard [OF assms(1,2,3,4)] .
  then show ?thesis
    using assms(1) by (cases s) (simp add: dial_exchange_def bind_io_def calls_succeed read_line_heard [OF assms(5,6), of _ rest])
qed

text \<open>C18. Dialling a peer does exactly what the router's status line says. When the bridge has answered the greeting and the status line arrives,
  both in time, the dial ends: it has sent the greeting and one request; it succeeds exactly when the
  line is a \<^verbatim>\<open>STREAM STATUS\<close> whose result is \<^verbatim>\<open>OK\<close>, with both time-outs cleared; in every case the bytes after the status line are still
  unread, so nothing of the peer's is lost; and the session is given up exactly when the router says it does not know it.\<close>

theorem sam_dial_exact:
  assumes "sk_calls s = []" "sk_in s = h @ t @ rest" "says (deadline_after (fst clock) timeout) reply h" "hello_ok reply"
    and "says (deadline_after (snd clock) timeout) status t" "length (str_bytes status) \<le> MAX_STATUS_LINE"
  shows "\<exists>r ss' s'. dial escape_debug ss peer clock timeout s = Some (r, ss', s') \<and> sk_in s' = rest \<and>
    sk_out s' = sk_out s @ str_bytes HELLO_LINE @ str_bytes (connect_line (ss_nickname ss) peer) \<and>
    (r = Inr () \<longleftrightarrow> starts_with (str ''STREAM STATUS'') status \<and> result_word status = str ''OK'') \<and>
    (if r = Inr () then sk_rto s' = None \<and> sk_wto s' = None else sk_rto s' = Some timeout) \<and>
    (if starts_with (str ''STREAM STATUS'') status \<and> result_word status = INVALID_ID then \<not> healthy ss' else ss' = ss)"
proof -
  have "INVALID_ID \<noteq> str ''OK''" by (simp add: INVALID_ID_def str_def)
  moreover note dial_exchange_heard [OF assms, of "ss_port ss" "ss_nickname ss" peer]
  ultimately show ?thesis
    using assms(1)
    by (auto simp: dial_def dial_stream_def expect_stream_ok_def clear_timeouts_def bind_io_def calls_succeed dial_error_def healthy_def alive_def life_end_def)
qed

definition sample_turns :: "rstr \<Rightarrow> rturn list" where
  "sample_turns line = map (\<lambda>b. \<lparr>rt_now = 1, rt_rx = Byte b\<rparr>) (str_bytes line @ [10])"

lemma sample_turns_says: "spoken line \<Longrightarrow> in_time deadline 1 \<Longrightarrow> says deadline line (sample_turns line)"
  by (simp add: says_def sample_turns_def list_all_iff)

definition sample_session :: sam_session where
  "sample_session = new_session sam_config_default [] [] []"

definition sample_sock :: "rstr list \<Rightarrow> bytes \<Rightarrow> sock" where
  "sample_sock lines payload =
     \<lparr>sk_in = concat (map sample_turns lines) @ map (\<lambda>b. \<lparr>rt_now = 1, rt_rx = Byte b\<rparr>) payload, sk_calls = [], sk_out = [], sk_rto = None, sk_wto = None\<rparr>"

lemma sample_lines:
  "hello_ok (str ''HELLO REPLY RESULT=OK VERSION=3.3'')" "spoken (str ''HELLO REPLY RESULT=OK VERSION=3.3'')"
  "spoken (str ''STREAM STATUS RESULT=INVALID_ID'')" "in_time (deadline_after 0 10) 1"
  "length (str_bytes (str ''STREAM STATUS RESULT=INVALID_ID'')) \<le> MAX_STATUS_LINE"
  "starts_with (str ''STREAM STATUS'') (str ''STREAM STATUS RESULT=INVALID_ID'')" "result_word (str ''STREAM STATUS RESULT=INVALID_ID'') = INVALID_ID"
  by code_simp+

theorem sam_dial_exact_witness:
  "\<exists>r ss' s'. dial (\<lambda>c. [c]) sample_session (replicate 32 7) (0, 0) 10
      (sample_sock [str ''HELLO REPLY RESULT=OK VERSION=3.3'', str ''STREAM STATUS RESULT=INVALID_ID''] [19]) = Some (r, ss', s') \<and>
    map rt_rx (sk_in s') = [Byte 19] \<and> \<not> healthy ss'"
proof -
  let ?s = "sample_sock [str ''HELLO REPLY RESULT=OK VERSION=3.3'', str ''STREAM STATUS RESULT=INVALID_ID''] [19]"
  have c: "sk_calls ?s = []" by (simp add: sample_sock_def)
  have i: "sk_in ?s = sample_turns (str ''HELLO REPLY RESULT=OK VERSION=3.3'') @ sample_turns (str ''STREAM STATUS RESULT=INVALID_ID'') @ [\<lparr>rt_now = 1, rt_rx = Byte 19\<rparr>]"
    by (simp add: sample_sock_def)
  have d: "deadline_after (fst (0, 0)) 10 = deadline_after 0 10" "deadline_after (snd (0, 0)) 10 = deadline_after 0 10" by simp_all
  from sam_dial_exact [OF c i _ sample_lines(1) _ sample_lines(5), of "(0, 0)" 10 "\<lambda>c. [c]" sample_session "replicate 32 7"]
  show ?thesis unfolding d using sample_turns_says sample_lines by (fastforce simp: prod_eq_iff)
qed

subsection \<open>Lemmas: the watchdog\<close>

text \<open>What the watchdog makes of the lines the router sends, and of its hanging up after them: the session's life, what is written, and
  whether the watchdog has returned.\<close>

definition hung_up_reason :: "nat \<Rightarrow> rstr" where
  "hung_up_reason port = str ''the SAM control connection ended: SAM bridge on '' @ at_port port @ str '' closed the connection during the session control connection''"

primrec watch_spec :: "(rchar \<Rightarrow> rstr) \<Rightarrow> nat \<Rightarrow> bool \<Rightarrow> rstr list \<Rightarrow> life \<Rightarrow> life \<times> bytes \<times> bool" where
  "watch_spec escape_debug port hung [] l = (if hung then (life_end escape_debug (hung_up_reason port) l, [], True) else (l, [], False))"
| "watch_spec escape_debug port hung (line # lines) l =
     (case ping_token line of
        Some token \<Rightarrow> (case watch_spec escape_debug port hung lines l of (l', out, fin) \<Rightarrow> (l', str_bytes (pong_line token) @ out, fin))
      | None \<Rightarrow>
          if fatal_status line then (life_end escape_debug (str ''the router ended the session'') (life_note line l), [], True)
          else watch_spec escape_debug port hung lines (life_note line l))"

definition hangs_up :: "bool \<Rightarrow> rturn list \<Rightarrow> bool" where
  "hangs_up hung us \<longleftrightarrow> (if hung then map rt_rx us = [Eof] else us = [])"

lemma watch_end:
  assumes "hangs_up hung (sk_in s)"
  shows "\<exists>s'. watch_loop escape_debug port s l = (fst (watch_spec escape_debug port hung [] l), s', hung) \<and> sk_out s' = sk_out s"
proof (cases hung)
  case True
  then obtain u where u: "sk_in s = [u]" "rt_rx u = Eof" using assms by (auto simp: hangs_up_def)
  have r: "read_sam_line port MAX_CONTROL_LINE None (str ''the session control connection'') s =
      Some (Inl (le_closed (sam_line_errs port MAX_CONTROL_LINE (str ''the session control connection''))), s\<lparr>sk_in := []\<rparr>)"
    using u by (simp add: read_sam_line_def bind_io_def run_line_def)
  show ?thesis
    using True r by (simp add: watch_loop.simps [of escape_debug port s] sam_line_errs_def hung_up_reason_def err_def str_def)
next
  case False
  then have "sk_in s = []" using assms by (simp add: hangs_up_def)
  then have "read_sam_line port MAX_CONTROL_LINE None (str ''the session control connection'') s = None"
    by (simp add: read_sam_line_def bind_io_def run_line_def)
  then show ?thesis using False by (simp add: watch_loop.simps [of escape_debug port s])
qed

lemma watch_lines:
  assumes "list_all2 (says None) lines uss" "list_all (\<lambda>line. length (str_bytes line) \<le> MAX_CONTROL_LINE) lines" "hangs_up hung tail"
    and "sk_in s = concat uss @ tail" "sk_calls s = []"
  shows "case watch_spec escape_debug port hung lines l of (l', out, fin) \<Rightarrow>
    \<exists>s'. watch_loop escape_debug port s l = (l', s', fin) \<and> sk_out s' = sk_out s @ out"
  using assms
proof (induction lines arbitrary: uss s l)
  case Nil
  then show ?case using watch_end [of hung s escape_debug port l] by auto
next
  case (Cons line lines)
  obtain us uss' where us: "uss = us # uss'" "says None line us" "list_all2 (says None) lines uss'"
    using Cons.prems(1) by (auto simp: list_all2_Cons1)
  let ?s = "s\<lparr>sk_in := concat uss' @ tail\<rparr>"
  have r: "read_sam_line port MAX_CONTROL_LINE None (str ''the session control connection'') s = Some (Inr line, ?s)"
    using Cons.prems us by (intro read_line_heard [OF us(2)]) simp_all
  show ?case
  proof (cases "ping_token line")
    case (Some token)
    let ?t = "?s\<lparr>sk_out := sk_out s @ str_bytes (pong_line token)\<rparr>"
    have "watch_loop escape_debug port s l = watch_loop escape_debug port ?t l"
      using r Some Cons.prems(5) by (simp add: watch_loop.simps [of escape_debug port s] calls_succeed)
    moreover have "case watch_spec escape_debug port hung lines l of (l', out, fin) \<Rightarrow>
        \<exists>s'. watch_loop escape_debug port ?t l = (l', s', fin) \<and> sk_out s' = sk_out ?t @ out"
      by (rule Cons.IH [OF us(3)]) (use Cons.prems in auto)
    ultimately show ?thesis using Some by (auto split: prod.splits)
  next
    case None
    show ?thesis
    proof (cases "fatal_status line")
      case True
      then show ?thesis using r None by (simp add: watch_loop.simps [of escape_debug port s])
    next
      case False
      have "watch_loop escape_debug port s l = watch_loop escape_debug port ?s (life_note line l)"
        using r None False by (simp add: watch_loop.simps [of escape_debug port s])
      moreover have "case watch_spec escape_debug port hung lines (life_note line l) of (l', out, fin) \<Rightarrow>
          \<exists>s'. watch_loop escape_debug port ?s (life_note line l) = (l', s', fin) \<and> sk_out s' = sk_out ?s @ out"
        by (rule Cons.IH [OF us(3)]) (use Cons.prems in auto)
      ultimately show ?thesis using None False by simp
    qed
  qed
qed

lemma life_end_ended: "\<not> alive (life_end escape_debug why l)"
  by (simp add: life_end_def alive_def)

lemma life_end_idem: "\<not> alive l \<Longrightarrow> life_end escape_debug why l = l"
  by (simp add: life_end_def alive_def)

lemma watch_spec_ended: "watch_spec escape_debug port hung lines l = (l', out, True) \<Longrightarrow> \<not> alive l'"
  by (induction lines arbitrary: l out) (auto simp: life_end_ended split: option.splits if_splits prod.splits)

lemma watch_spec_waiting: "watch_spec escape_debug port hung lines l = (l', out, False) \<Longrightarrow> \<not> hung \<and> lf_ended l' = lf_ended l"
  by (induction lines arbitrary: l out) (auto simp: life_note_def split: option.splits if_splits prod.splits)

lemma life_end_clean: "lf_last (life_end escape_debug why l) = lf_last l"
  by (simp add: life_end_def)

definition clean_life :: "life \<Rightarrow> bool" where
  "clean_life l \<longleftrightarrow> (case lf_last l of None \<Rightarrow> True | Some w \<Rightarrow> list_all harmless w \<and> \<not> looks_like_key_material w BLOB)"

lemma watch_spec_clean: "watch_spec escape_debug port hung lines l = (l', out, fin) \<Longrightarrow> clean_life l \<Longrightarrow> clean_life l'"
proof (induction lines arbitrary: l out)
  case Nil
  then show ?case by (auto simp: clean_life_def life_end_clean split: if_splits)
next
  case (Cons line lines)
  have "clean_life (life_note line l)" by (simp add: clean_life_def life_note_def scrub_line_harmless scrub_line_no_key)
  moreover from this have "clean_life (life_end escape_debug why (life_note line l))" for why by (simp add: clean_life_def life_end_clean)
  ultimately show ?case using Cons by (auto split: option.splits if_splits prod.splits)
qed

text \<open>C17. The watchdog on the control connection implements the reaction to whole lines, from the bytes as they trickle in: each ping is answered
  by its pong with the same token, a status that is not OK ends the session there, any other line is only remembered, redacted; and when the
  router hangs up the session ends. Whenever the watchdog has returned the session has ended, so nobody waits for its end in vain; while it has not,
  nothing it read has ended the session. The remembered words hold no run of key material and nothing a terminal would act on.\<close>

theorem sam_watchdog_refines:
  assumes "list_all2 (says None) lines uss" "list_all (\<lambda>line. length (str_bytes line) \<le> MAX_CONTROL_LINE) lines" "hangs_up hung tail"
    and "sk_in s = concat uss @ tail" "sk_calls s = []" "clean_life l"
  shows "\<exists>l' out fin s'. watch_spec escape_debug port hung lines l = (l', out, fin) \<and>
    watchdog escape_debug port s l = (l', s', fin) \<and> sk_out s' = sk_out s @ out \<and> clean_life l' \<and>
    (if fin then wait_end l' \<noteq> None else \<not> hung \<and> wait_end l' = wait_end l)"
proof -
  obtain l' out fin where w: "watch_spec escape_debug port hung lines l = (l', out, fin)" by (cases "watch_spec escape_debug port hung lines l")
  obtain s' where s': "watch_loop escape_debug port (s\<lparr>sk_wto := Some PONG_WRITE_TIMEOUT\<rparr>) l = (l', s', fin)" "sk_out s' = sk_out s @ out"
    using watch_lines [OF assms(1,2,3), of "s\<lparr>sk_wto := Some PONG_WRITE_TIMEOUT\<rparr>" escape_debug port l] assms(4,5) w by auto
  have "\<not> alive l'" if fin using watch_spec_ended [of escape_debug port hung lines l l' out] w that by simp
  moreover have "\<not> hung \<and> lf_ended l' = lf_ended l" if "\<not> fin" using watch_spec_waiting [of escape_debug port hung lines l l' out] w that by simp
  ultimately show ?thesis
    using w s' watch_spec_clean [OF w assms(6)]
    by (auto simp: watchdog_def watch_control_def calls_succeed [OF assms(5)] life_end_idem wait_end_def alive_def)
qed

lemma sample_control_lines:
  "spoken (str ''PING 42'')" "spoken (str ''SESSION STATUS RESULT=I2P_ERROR'')" "length (str_bytes (str ''PING 42'')) \<le> MAX_CONTROL_LINE"
  "length (str_bytes (str ''SESSION STATUS RESULT=I2P_ERROR'')) \<le> MAX_CONTROL_LINE" "ping_token (str ''PING 42'') = Some (str '' 42'')"
  "ping_token (str ''SESSION STATUS RESULT=I2P_ERROR'') = None" "fatal_status (str ''SESSION STATUS RESULT=I2P_ERROR'')"
  "str_bytes (pong_line (str '' 42'')) = ascii ''PONG 42'' @ [10]"
  by code_simp+

theorem sam_watchdog_refines_witness:
  "\<exists>l' s'. watchdog (\<lambda>c. [c]) 7656 (sample_sock [str ''PING 42'', str ''SESSION STATUS RESULT=I2P_ERROR''] []) life_new = (l', s', True) \<and>
    sk_out s' = ascii ''PONG 42'' @ [10] \<and> wait_end l' \<noteq> None"
proof -
  let ?lines = "[str ''PING 42'', str ''SESSION STATUS RESULT=I2P_ERROR'']"
  have says: "list_all2 (says None) ?lines (map sample_turns ?lines)"
    by (simp add: sample_turns_says sample_control_lines in_time_def)
  have len: "list_all (\<lambda>line. length (str_bytes line) \<le> MAX_CONTROL_LINE) ?lines"
    by (simp only: list.pred_inject sample_control_lines simp_thms)
  have "hangs_up False []" "sk_in (sample_sock ?lines []) = concat (map sample_turns ?lines) @ []" "sk_calls (sample_sock ?lines []) = []" "clean_life life_new"
    by (simp_all add: hangs_up_def sample_sock_def clean_life_def life_new_def)
  from sam_watchdog_refines [OF says len this, of "\<lambda>c. [c]" 7656] show ?thesis
    by (auto simp: sample_control_lines sample_sock_def)
qed

subsection \<open>Lemmas: errors do not depend on secrets\<close>

lemma join_on_append: "ls \<noteq> [] \<Longrightarrow> ms \<noteq> [] \<Longrightarrow> join_on c (ls @ ms) = join_on c ls @ c # join_on c ms"
  by (induction c ls rule: join_on.induct) (auto simp: neq_Nil_conv)

lemma scrub_line_mid: "scrub_control_line (a @ 32 # b) = scrub_control_line a @ 32 # scrub_control_line b"
  by (simp add: scrub_control_line_def split_on_append_both join_on_append)

lemma scrub_line_secret:
  assumes "map ascii_upper key \<in> set SECRET_FIELDS" "32 \<notin> set x"
  shows "scrub_control_line (key @ 61 # x) = map sam_scrub_char key @ str ''=<redacted>''"
proof -
  have "32 \<notin> set (map ascii_upper key)" using assms(1) by (auto simp: SECRET_FIELDS_def str_def)
  then have "32 \<notin> set key" by (force simp: ascii_upper_def)
  then have "split_on 32 (key @ 61 # x) = [key @ 61 # x]" using assms(2) by (intro split_on_id) simp
  then show ?thesis by (simp add: scrub_control_line_def scrub_field_secret [OF assms(1)])
qed

text \<open>A field stands between spaces, or at an end of the line.\<close>

definition ends_field :: "rstr \<Rightarrow> bool" where
  "ends_field pre \<longleftrightarrow> pre = [] \<or> (\<exists>a. pre = a @ [32])"

definition starts_field :: "rstr \<Rightarrow> bool" where
  "starts_field post \<longleftrightarrow> post = [] \<or> (\<exists>b. post = 32 # b)"

lemma scrub_independent:
  assumes "map ascii_upper key \<in> set SECRET_FIELDS" "ends_field pre" "starts_field post" "32 \<notin> set v" "32 \<notin> set w"
  shows "scrub_control_line (pre @ key @ 61 # v @ post) = scrub_control_line (pre @ key @ 61 # w @ post)"
proof -
  have e: "scrub_control_line (key @ 61 # v @ post) = scrub_control_line (key @ 61 # w @ post)"
    using assms(3) scrub_line_secret [OF assms(1,4)] scrub_line_secret [OF assms(1,5)]
      scrub_line_mid [of "key @ 61 # v"] scrub_line_mid [of "key @ 61 # w"] by (auto simp: starts_field_def)
  show ?thesis using assms(2) e by (auto simp: ends_field_def scrub_line_mid)
qed

lemma starts_with_sep: "c \<notin> set p \<Longrightarrow> starts_with p (s @ c # b) \<longleftrightarrow> starts_with p s"
proof (induction p arbitrary: s)
  case (Cons x p)
  then show ?case by (cases s) (auto simp: starts_with_def)
qed (simp add: starts_with_def)

lemma find_sub_mid:
  assumes "c \<notin> set p" "p \<noteq> []"
  shows "find_sub p (a @ c # b) =
    (case find_sub p a of Some (x, y) \<Rightarrow> Some (x, y @ c # b) | None \<Rightarrow> map_option (\<lambda>(x, y). (a @ c # x, y)) (find_sub p b))"
proof (induction a)
  case Nil
  have "\<not> starts_with p (c # b)" using assms starts_with_sep [of c p "[]" b] by (simp add: starts_with_def)
  then show ?case using assms(2) by (cases "find_sub p b") auto
next
  case (Cons d a)
  have "starts_with p ((d # a) @ c # b) \<longleftrightarrow> starts_with p (d # a)" by (rule starts_with_sep [OF assms(1)])
  then show ?case using Cons by (cases "find_sub p b") (auto split: option.splits)
qed

definition rtrim_quotes :: "rstr \<Rightarrow> rstr" where
  "rtrim_quotes s = rev (dropWhile (\<lambda>c. c = 34) (rev s))"

lemma rtrim_mid: "c \<noteq> 34 \<Longrightarrow> rtrim_quotes (a @ c # b) = a @ c # rtrim_quotes b"
  by (induction b rule: rev_induct) (auto simp: rtrim_quotes_def dropWhile_append)

lemma rtrim_set: "set (rtrim_quotes s) \<subseteq> set s"
  using set_dropWhileD [of _ "\<lambda>c. c = 34" "rev s"] by (auto simp: rtrim_quotes_def)

lemma trim_quotes_mid: "trim_quotes (a @ 32 # b) = dropWhile (\<lambda>c. c = 34) a @ 32 # rtrim_quotes b"
proof -
  have "dropWhile (\<lambda>c. c = 34) (a @ 32 # b) = dropWhile (\<lambda>c. c = 34) a @ 32 # b" by (induction a) auto
  then show ?thesis using rtrim_mid [of 32] by (simp add: trim_quotes_def rtrim_quotes_def)
qed

lemma message_independent:
  assumes "map ascii_upper key \<in> set SECRET_FIELDS" "ends_field pre" "starts_field post" "32 \<notin> set v" "32 \<notin> set w"
    and "find_sub (str ''MESSAGE='') (key @ 61 # v) = None" "find_sub (str ''MESSAGE='') (key @ 61 # w) = None"
  shows "message_part (pre @ key @ 61 # v @ post) = message_part (pre @ key @ 61 # w @ post)"
proof -
  let ?p = "str ''MESSAGE=''"
  have p: "32 \<notin> set ?p" "?p \<noteq> []" by (simp_all add: str_def)
  have mid: "message_part (a @ 32 # b) = (case find_sub ?p a of
      Some (x, y) \<Rightarrow> str '' ('' @ scrub_control_line (trim_quotes (drop (length ?p) y @ 32 # b)) @ str '')'' | None \<Rightarrow> message_part b)" for a b
  proof (cases "find_sub ?p a")
    case (Some xy)
    obtain x y where xy: "xy = (x, y)" by fastforce
    then have "length ?p \<le> length y" using Some find_sub_Some [of ?p a x y] by (auto simp: starts_with_def dest!: arg_cong [where f = length])
    then show ?thesis using Some xy by (simp add: message_part_def find_sub_mid [OF p])
  qed (auto simp: message_part_def find_sub_mid [OF p] split: option.splits)
  have s: "message_part (key @ 61 # x @ post) = (case post of [] \<Rightarrow> [] | c # b \<Rightarrow> message_part b)" if "find_sub ?p (key @ 61 # x) = None" for x
    using assms(3) mid [of "key @ 61 # x"] that by (auto simp: starts_field_def message_part_def)
  have q: "scrub_control_line (trim_quotes (a @ 32 # key @ 61 # v @ post)) = scrub_control_line (trim_quotes (a @ 32 # key @ 61 # w @ post))" for a
  proof (cases "post = []")
    case True
    have r: "32 \<notin> set (rtrim_quotes v)" "32 \<notin> set (rtrim_quotes w)" using rtrim_set assms(4,5) by blast+
    have "scrub_control_line ((dropWhile (\<lambda>c. c = 34) a @ [32]) @ key @ 61 # rtrim_quotes v @ []) =
        scrub_control_line ((dropWhile (\<lambda>c. c = 34) a @ [32]) @ key @ 61 # rtrim_quotes w @ [])"
      by (rule scrub_independent [OF assms(1) _ _ r]) (auto simp: ends_field_def starts_field_def)
    then show ?thesis using True by (simp add: trim_quotes_mid rtrim_mid)
  next
    case False
    then obtain b where b: "post = 32 # b" using assms(3) by (auto simp: starts_field_def)
    have "rtrim_quotes (key @ 61 # x @ 32 # b) = key @ 61 # x @ 32 # rtrim_quotes b" for x
      using rtrim_mid [of 32 "key @ 61 # x" b] by simp
    moreover have "scrub_control_line ((dropWhile (\<lambda>c. c = 34) a @ [32]) @ key @ 61 # v @ 32 # rtrim_quotes b) =
        scrub_control_line ((dropWhile (\<lambda>c. c = 34) a @ [32]) @ key @ 61 # w @ 32 # rtrim_quotes b)"
      by (rule scrub_independent [OF assms(1) _ _ assms(4,5)]) (auto simp: ends_field_def starts_field_def)
    ultimately show ?thesis using b by (simp add: trim_quotes_mid)
  qed
  show ?thesis using assms(2) s [OF assms(6)] s [OF assms(7)] q by (auto simp: ends_field_def mid split: option.splits)
qed

lemma split_whitespace_word: "w \<noteq> [] \<Longrightarrow> \<forall>c \<in> set w. \<not> is_whitespace c \<Longrightarrow> split_whitespace w = [w]"
  by (cases w) (auto simp: takeWhile_eq_all_conv [THEN iffD2] dropWhile_eq_Nil_conv [THEN iffD2])

lemma split_whitespace_step:
  assumes "w \<noteq> []" "\<forall>c \<in> set w. \<not> is_whitespace c" "is_whitespace d"
  shows "split_whitespace (w @ d # r) = w # split_whitespace r"
proof -
  obtain c w' where w: "w = c # w'" using assms(1) by (cases w) auto
  have "takeWhile (\<lambda>d. \<not> is_whitespace d) (w' @ d # r) = w'" "dropWhile (\<lambda>d. \<not> is_whitespace d) (w' @ d # r) = d # r"
    using assms(2,3) w by (simp_all add: takeWhile_append2 dropWhile_append2)
  then show ?thesis using assms w by simp
qed

lemma split_whitespace_mid: "is_whitespace d \<Longrightarrow> split_whitespace (a @ d # b) = split_whitespace a @ split_whitespace b"
proof (induction a rule: split_whitespace.induct)
  case (2 c a)
  show ?case
  proof (cases "is_whitespace c")
    case True
    then show ?thesis using 2 by simp
  next
    case False
    let ?W = "\<lambda>d. \<not> is_whitespace d"
    have "takeWhile ?W (a @ d # b) = takeWhile ?W a" using 2(3) by (induction a) auto
    moreover have "split_whitespace (dropWhile ?W (a @ d # b)) = split_whitespace (dropWhile ?W a) @ split_whitespace b"
    proof -
      have "dropWhile ?W (a @ d # b) = dropWhile ?W a @ d # b" using 2(3) by (induction a) auto
      then show ?thesis using "2.IH"(2) [OF False 2(3)] by simp
    qed
    ultimately show ?thesis using False by simp
  qed
qed simp

lemma find_map_append: "find_map f (xs @ ys) = (case find_map f xs of Some y \<Rightarrow> Some y | None \<Rightarrow> find_map f ys)"
  by (induction xs) (auto split: option.splits)

lemma strip_prefix_key: "61 \<notin> set p \<Longrightarrow> 61 \<notin> set key \<Longrightarrow> strip_prefix (p @ [61]) (key @ 61 # x) = (if p = key then Some x else None)"
proof (induction p arbitrary: key)
  case Nil
  then show ?case by (cases key) (auto simp: strip_prefix_def)
next
  case (Cons c p)
  have step: "strip_prefix (a # as) (b # bs) = (if a = b then strip_prefix as bs else None)" for a b :: 'a and as bs by (simp add: strip_prefix_def)
  show ?case
  proof (cases key)
    case (Cons d k)
    then show ?thesis using Cons.IH [of k] Cons.prems by (cases "c = d"; cases "p = k") (simp_all add: step)
  qed (use Cons.prems in \<open>simp add: step\<close>)
qed

text \<open>The words of a line around a secret field.\<close>

lemma words_around:
  assumes "ends_field pre" "starts_field post" "\<forall>c \<in> set key. \<not> is_whitespace c" "\<forall>c \<in> set x. \<not> is_whitespace c"
  shows "split_whitespace (pre @ key @ 61 # x @ post) = split_whitespace pre @ [key @ 61 # x] @ split_whitespace post"
proof -
  have sp: "is_whitespace 32" "\<not> is_whitespace 61" by (simp_all add: is_whitespace_def)
  have w: "split_whitespace (key @ 61 # x) = [key @ 61 # x]" using assms(3,4) sp by (intro split_whitespace_word) auto
  have "split_whitespace (key @ 61 # x @ post) = (key @ 61 # x) # split_whitespace post"
    using assms(2) w split_whitespace_mid [OF sp(1), of "key @ 61 # x"] split_whitespace_mid [OF sp(1), of "[]"] by (auto simp: starts_field_def sp)
  then show ?thesis
    using assms(1) split_whitespace_mid [OF sp(1)] split_whitespace_mid [OF sp(1), of _ "[]"] by (auto simp: ends_field_def)
qed

lemma secret_key_plain:
  assumes "map ascii_upper key \<in> set SECRET_FIELDS"
  shows "\<forall>c \<in> set key. \<not> is_whitespace c" "key \<noteq> str ''RESULT''" "key \<noteq> str ''VALUE''"
proof -
  have up: "is_whitespace c \<Longrightarrow> ascii_upper c = c" for c by (auto simp: is_whitespace_def ascii_upper_def)
  have "\<forall>f \<in> set SECRET_FIELDS. \<forall>c \<in> set f. \<not> is_whitespace c" by (simp add: SECRET_FIELDS_def str_def is_whitespace_def)
  then have m: "\<forall>c \<in> set (map ascii_upper key). \<not> is_whitespace c" using assms by blast
  then show "\<forall>c \<in> set key. \<not> is_whitespace c" using up by fastforce
  have "map ascii_upper (str ''RESULT'') \<notin> set SECRET_FIELDS" "map ascii_upper (str ''VALUE'') \<notin> set SECRET_FIELDS" by code_simp+
  then show "key \<noteq> str ''RESULT''" "key \<noteq> str ''VALUE''" using assms by blast+
qed

lemma field_independent:
  assumes "map ascii_upper key \<in> set SECRET_FIELDS" "ends_field pre" "starts_field post"
    and "\<forall>c \<in> set v. \<not> is_whitespace c" "\<forall>c \<in> set w. \<not> is_whitespace c" "61 \<notin> set name"
  shows "name \<noteq> key \<Longrightarrow> find_field (name @ [61]) (pre @ key @ 61 # v @ post) = find_field (name @ [61]) (pre @ key @ 61 # w @ post)"
    and "find_field (name @ [61]) (pre @ key @ 61 # v @ post) = None \<longleftrightarrow> find_field (name @ [61]) (pre @ key @ 61 # w @ post) = None"
  using words_around [OF assms(2,3) secret_key_plain(1) [OF assms(1)] assms(4)] words_around [OF assms(2,3) secret_key_plain(1) [OF assms(1)] assms(5)]
    strip_prefix_key [OF assms(6) secret_no_equals [OF assms(1)]]
  by (simp_all add: find_field_def find_map_append split: option.splits)

lemma result_independent:
  assumes "map ascii_upper key \<in> set SECRET_FIELDS" "ends_field pre" "starts_field post"
    and "\<forall>c \<in> set v. \<not> is_whitespace c" "\<forall>c \<in> set w. \<not> is_whitespace c"
  shows "result_word (pre @ key @ 61 # v @ post) = result_word (pre @ key @ 61 # w @ post)"
proof -
  have "str ''RESULT='' = str ''RESULT'' @ [61]" "61 \<notin> set (str ''RESULT'')" by (simp_all add: str_def)
  then show ?thesis using field_independent(1) [OF assms, of "str ''RESULT''"] secret_key_plain(2) [OF assms(1)] by (auto simp: result_word_def)
qed

lemma start_independent: "61 \<notin> set p \<Longrightarrow> starts_with p (pre @ key @ 61 # v @ post) = starts_with p (pre @ key @ 61 # w @ post)"
  using starts_with_sep [of 61 p "pre @ key"] by simp

lemma message_no_key: "\<not> looks_like_key_material (message_part status) BLOB"
proof -
  have "key_run n 0 (str '' ('' @ x @ str '')'') = key_run n 0 x" for n x
    using key_run_break [of 41 n 0 x "[]"] by (simp add: str_def key_char_def)
  moreover have "\<not> key_run BLOB 0 []" by simp
  ultimately show ?thesis using scrub_line_no_key by (auto simp: message_part_def looks_like_key_material_def split: option.splits)
qed

lemma message_start: "message_part status = [] \<or> (\<exists>m. message_part status = 32 # m)"
  by (auto simp: message_part_def str_def split: option.splits)

text \<open>A run of key characters in a refused session's error is one of the result word.\<close>

lemma refusal_key_run:
  assumes "parse_session_status escape_debug status = Inl e" "starts_with (str ''SESSION STATUS'') status"
  shows "looks_like_key_material (se_text e) BLOB \<longrightarrow> looks_like_key_material (result_word status) BLOB"
proof (cases "result_word status = str ''OK''")
  case True
  then have "e = err EInvalidData (str ''SESSION STATUS said OK but carried no DESTINATION'')"
    using assms by (simp add: parse_session_status_def split: option.splits)
  moreover have "\<not> key_run BLOB 0 (str ''SESSION STATUS said OK but carried no DESTINATION'')" by (rule redacted_short) (simp add: str_def)
  ultimately show ?thesis by (simp add: looks_like_key_material_def err_def)
next
  case False
  let ?r = "map sam_scrub_char (result_word status)"
  have "se_text e = str ''router refused the session: '' @ ?r @ message_part status"
    using assms False by (auto simp: parse_session_status_def err_def)
  moreover have "str ''router refused the session: '' = str ''router refused the session:'' @ [32]" by (simp add: str_def)
  ultimately have e: "se_text e = str ''router refused the session:'' @ 32 # ?r @ message_part status" by simp
  have sp: "\<not> key_char 32" by (simp add: key_char_def)
  have short: "\<not> key_run BLOB 0 (str ''router refused the session:'')" by (rule redacted_short) (simp add: str_def)
  have r: "key_run BLOB 0 (?r @ message_part status) \<Longrightarrow> key_run BLOB 0 ?r"
    using message_start [of status]
  proof (elim disjE exE)
    fix m assume m: "message_part status = 32 # m"
    then have "\<not> key_run BLOB 0 m" using message_no_key [of status] sp by (simp add: looks_like_key_material_def)
    then show "key_run BLOB 0 (?r @ message_part status) \<Longrightarrow> key_run BLOB 0 ?r" unfolding m key_run_break [OF sp] by blast
  qed simp
  show ?thesis
    using short r unfolding e looks_like_key_material_def key_run_break [OF sp] key_run_scrub by blast
qed

subsection \<open>What leaves the session\<close>

definition clean_field :: "rstr \<Rightarrow> bool" where
  "clean_field f \<longleftrightarrow> list_all harmless f \<and> \<not> looks_like_key_material f BLOB \<and>
     (case split_once 61 f of None \<Rightarrow> True | Some (key, _) \<Rightarrow> map ascii_upper key \<notin> set SECRET_FIELDS)"

lemma clean_field_kept: "clean_field f \<Longrightarrow> scrub_field f = f"
  by (cases "split_once 61 f") (auto simp: clean_field_def scrub_field_def list_all_iff harmless_def sam_scrub_char_eq map_idI simp del: split_once_None)

text \<open>C16. The value of a field of the router's that is named like a key reaches no error and no log: whatever it is, so long as it is one word
  that does not itself pretend to be a message, the error made of a status line, of a naming reply or of a greeting is
  the same, and so are the words remembered for the reason a session ended. A line passed through the redaction holds no run of 64 characters of
  I2P base64 in any field and nothing a terminal would act on, and a line with nothing to hide is unchanged; the error of a refused session holds such a run
  only when the router put it into the result word, which is repeated as it is but for control characters.\<close>

theorem sam_line_redacted:
  assumes "map ascii_upper key \<in> set SECRET_FIELDS" "ends_field pre" "starts_field post"
    and "list_all (\<lambda>c. \<not> is_whitespace c) v" "list_all (\<lambda>c. \<not> is_whitespace c) w"
    and "find_sub (str ''MESSAGE='') (key @ 61 # v) = None" "find_sub (str ''MESSAGE='') (key @ 61 # w) = None"
    and "s1 = pre @ key @ 61 # v @ post" "s2 = pre @ key @ 61 # w @ post"
  shows "(\<forall>e. parse_session_status escape_debug s1 = Inl e \<longrightarrow> parse_session_status escape_debug s2 = Inl e) \<and>
    expect_stream_ok escape_debug s1 what = expect_stream_ok escape_debug s2 what \<and>
    parse_naming_reply escape_debug s1 name = parse_naming_reply escape_debug s2 name \<and>
    hello_err port s1 = hello_err port s2 \<and> life_note s1 l = life_note s2 l \<and>
    (\<forall>line. \<not> looks_like_key_material (scrub_control_line line) BLOB \<and> list_all harmless (scrub_control_line line) \<and>
      (list_all clean_field (split_on 32 line) \<longrightarrow> scrub_control_line line = line)) \<and>
    (\<forall>line e. parse_session_status escape_debug line = Inl e \<longrightarrow> starts_with (str ''SESSION STATUS'') line \<longrightarrow>
      looks_like_key_material (se_text e) BLOB \<longrightarrow> looks_like_key_material (result_word line) BLOB)"
proof -
  have ws: "\<forall>c \<in> set v. \<not> is_whitespace c" "\<forall>c \<in> set w. \<not> is_whitespace c" using assms(4,5) by (simp_all add: list_all_iff)
  have "is_whitespace 32" by (simp add: is_whitespace_def)
  then have sp: "32 \<notin> set v" "32 \<notin> set w" using ws by blast+
  have scrub: "scrub_control_line s1 = scrub_control_line s2" unfolding assms(8,9) by (rule scrub_independent [OF assms(1-3) sp])
  have msg: "message_part s1 = message_part s2" unfolding assms(8,9) by (rule message_independent [OF assms(1-3) sp assms(6,7)])
  have result: "result_word s1 = result_word s2" unfolding assms(8,9) by (rule result_independent [OF assms(1-3) ws])
  have start: "starts_with q s1 = starts_with q s2" if "61 \<notin> set q" for q unfolding assms(8,9) by (rule start_independent [OF that])
  have q: "61 \<notin> set (str ''SESSION STATUS'')" "61 \<notin> set (str ''STREAM STATUS'')" "61 \<notin> set (str ''NAMING REPLY'')" by (simp_all add: str_def)
  have names: "str ''DESTINATION='' = str ''DESTINATION'' @ [61]" "61 \<notin> set (str ''DESTINATION'')"
    "str ''VALUE='' = str ''VALUE'' @ [61]" "61 \<notin> set (str ''VALUE'')" by (simp_all add: str_def)
  have dest: "find_field (str ''DESTINATION='') s1 = None \<longleftrightarrow> find_field (str ''DESTINATION='') s2 = None"
    unfolding names(1) assms(8,9) by (rule field_independent(2) [OF assms(1-3) ws names(2)])
  have val: "find_field (str ''VALUE='') s1 = find_field (str ''VALUE='') s2"
    unfolding names(3) assms(8,9) by (rule field_independent(1) [OF assms(1-3) ws names(4)]) (use secret_key_plain(3) [OF assms(1)] in blast)
  have session: "parse_session_status escape_debug s2 = Inl e" if "parse_session_status escape_debug s1 = Inl e" for e
    using that dest by (auto simp: parse_session_status_def scrub msg result start [OF q(1)] split: if_splits option.splits)
  have stream: "expect_stream_ok escape_debug s1 what = expect_stream_ok escape_debug s2 what"
    by (simp add: expect_stream_ok_def not_status_err_def refused_err_def scrub msg result start [OF q(2)])
  have naming: "parse_naming_reply escape_debug s1 name = parse_naming_reply escape_debug s2 name"
    by (simp add: parse_naming_reply_def scrub result val start [OF q(3)])
  have kept: "scrub_control_line line = line" if "list_all clean_field (split_on 32 line)" for line
    using that by (auto simp: scrub_control_line_def list_all_iff clean_field_kept map_idI join_split_on)
  show ?thesis
    using session stream naming scrub kept scrub_line_no_key scrub_line_harmless refusal_key_run
    by (simp add: hello_err_def life_note_def)
qed

theorem sam_line_redacted_witness:
  "\<exists>e. parse_session_status (\<lambda>c. [c]) (str ''SESSION STATUS RESULT=I2P_ERROR PrivKey=AAAA MESSAGE=gone'') = Inl e \<and>
     parse_session_status (\<lambda>c. [c]) (str ''SESSION STATUS RESULT=I2P_ERROR PrivKey=BBBB MESSAGE=gone'') = Inl e \<and> \<not> looks_like_key_material (se_text e) BLOB"
proof -
  let ?pre = "str ''SESSION STATUS RESULT=I2P_ERROR ''" and ?post = "str '' MESSAGE=gone''" and ?ed = "\<lambda>c :: rchar. [c]"
  let ?s1 = "str ''SESSION STATUS RESULT=I2P_ERROR PrivKey=AAAA MESSAGE=gone''" and ?s2 = "str ''SESSION STATUS RESULT=I2P_ERROR PrivKey=BBBB MESSAGE=gone''"
  have key: "map ascii_upper (str ''PrivKey'') \<in> set SECRET_FIELDS" by code_simp
  have ends: "ends_field ?pre" "starts_field ?post" by (simp_all add: ends_field_def starts_field_def str_def)
  have ws: "list_all (\<lambda>c. \<not> is_whitespace c) (str ''AAAA'')" "list_all (\<lambda>c. \<not> is_whitespace c) (str ''BBBB'')" by code_simp+
  have msg: "find_sub (str ''MESSAGE='') (str ''PrivKey'' @ 61 # str ''AAAA'') = None" "find_sub (str ''MESSAGE='') (str ''PrivKey'' @ 61 # str ''BBBB'') = None"
    by code_simp+
  have s: "?s1 = ?pre @ str ''PrivKey'' @ 61 # str ''AAAA'' @ ?post" "?s2 = ?pre @ str ''PrivKey'' @ 61 # str ''BBBB'' @ ?post" by (simp_all add: str_def)
  have "case parse_session_status ?ed ?s1 of Inl e \<Rightarrow> \<not> looks_like_key_material (se_text e) BLOB | Inr _ \<Rightarrow> False" by code_simp
  then obtain e where "parse_session_status ?ed ?s1 = Inl e" "\<not> looks_like_key_material (se_text e) BLOB" by (auto split: sum.splits)
  then show ?thesis using sam_line_redacted [OF key ends ws msg s, of ?ed] by blast
qed

text \<open>The result word of a refusal is not redacted, though: a router that puts a key there finds it in the error.\<close>

lemma result_word_not_redacted:
  "case parse_session_status (\<lambda>c. [c]) (str ''SESSION STATUS RESULT='' @ replicate 70 65) of Inl e \<Rightarrow> looks_like_key_material (se_text e) BLOB | Inr _ \<Rightarrow> False"
  by code_simp

subsection \<open>Lemmas: a session comes about\<close>

lemma connect_heard:
  assumes "sk_calls s = []" "sk_in s = h @ t @ rest" "says (deadline_after (fst clock) (sc_probe_timeout config)) reply h" "hello_ok reply"
    and "says (deadline_after (snd clock) (sc_session_timeout config)) status t" "length (str_bytes status) \<le> MAX_SESSION_LINE"
    and "sendable (sc_nickname config)" "case sc_key config of None \<Rightarrow> True | Some k \<Rightarrow> sendable k"
  shows "sam_connect escape_debug sha256 config clock s =
    open_session escape_debug sha256 config status (s\<lparr>sk_in := rest, sk_out := sk_out s @ str_bytes HELLO_LINE @ str_bytes (create_line config),
      sk_rto := Some (sc_session_timeout config), sk_wto := Some (sc_probe_timeout config)\<rparr>)"
proof -
  have "sam_hello (sc_port config) (fst clock) (sc_probe_timeout config) (str ''HELLO'') s =
      Some (Inr reply, s\<lparr>sk_in := t @ rest, sk_out := sk_out s @ str_bytes HELLO_LINE, sk_rto := Some (sc_probe_timeout config), sk_wto := Some (sc_probe_timeout config)\<rparr>)"
    using hello_heard [OF assms(1,2,3,4)] .
  moreover have "\<not> (case sc_key config of None \<Rightarrow> False | Some k \<Rightarrow> has_unsendable_byte k)"
    using assms(8) by (simp add: sendable_def split: option.splits)
  ultimately show ?thesis
    using assms(1,7) by (cases s) (simp add: sam_connect_def bind_io_def calls_succeed read_line_heard [OF assms(5,6), of _ rest] sendable_def)
qed

definition status_line :: "rstr \<Rightarrow> rstr" where
  "status_line blob = str ''SESSION STATUS RESULT=OK DESTINATION='' @ blob"

lemma status_words:
  assumes "\<forall>c \<in> set blob. \<not> is_whitespace c"
  shows "split_whitespace (status_line blob) = [str ''SESSION'', str ''STATUS'', str ''RESULT=OK'', str ''DESTINATION='' @ blob]"
proof -
  have "status_line blob = str ''SESSION'' @ 32 # str ''STATUS'' @ 32 # str ''RESULT=OK'' @ 32 # str ''DESTINATION='' @ blob"
    by (simp add: status_line_def str_def)
  moreover have "is_whitespace 32" "\<forall>c \<in> set (str ''SESSION''). \<not> is_whitespace c" "\<forall>c \<in> set (str ''STATUS''). \<not> is_whitespace c"
    "\<forall>c \<in> set (str ''RESULT=OK''). \<not> is_whitespace c" "\<forall>c \<in> set (str ''DESTINATION='' @ blob). \<not> is_whitespace c"
    using assms by (auto simp: str_def is_whitespace_def)
  moreover have "str ''SESSION'' \<noteq> []" "str ''STATUS'' \<noteq> []" "str ''RESULT=OK'' \<noteq> []" "str ''DESTINATION='' @ blob \<noteq> []" by (simp_all add: str_def)
  ultimately show ?thesis by (simp add: split_whitespace_step split_whitespace_word)
qed

lemma session_status_parsed:
  assumes "\<forall>c \<in> set blob. \<not> is_whitespace c"
  shows "parse_session_status escape_debug (status_line blob) = Inr blob"
proof -
  have "starts_with (str ''SESSION STATUS'') (status_line blob)" by (simp add: status_line_def str_def starts_with_def)
  moreover have "result_word (status_line blob) = str ''OK''" "find_field (str ''DESTINATION='') (status_line blob) = Some blob"
    by (simp_all add: result_word_def find_field_def status_words [OF assms]) (simp_all add: str_def strip_prefix_def)
  ultimately show ?thesis by (simp add: parse_session_status_def)
qed

lemma base64_spoken: "spoken (status_line (chars (i2p_base64_encode d)))"
proof -
  let ?b = "chars (i2p_base64_encode d)"
  have "\<forall>c \<in> set ?b. c \<noteq> 10 \<and> c \<noteq> 13" using base64_text(2) [of _ d] by (force simp: is_whitespace_def)
  moreover have "\<forall>c \<in> set ?b. is_scalar c" using base64_encode_ascii [of d] by (auto simp: chars_def is_scalar_def word_less_nat_alt)
  moreover have "last (str ''SESSION STATUS RESULT=OK DESTINATION='' @ ?b) \<noteq> 13"
    using calculation(1) by (cases "?b = []") (auto simp: str_def last_append)
  ultimately show ?thesis by (auto simp: spoken_def status_line_def str_def list_all_iff is_scalar_def)
qed

lemma open_granted:
  assumes "sk_calls s = []" "destination_len dest = Some (length dest)"
  shows "open_session escape_debug sha256 config (status_line (chars (i2p_base64_encode (dest @ keys)))) s =
    Some (Inr (new_session config (sha256 dest) dest (chars (i2p_base64_encode (dest @ keys)))), s\<lparr>sk_rto := None\<rparr>)"
proof -
  let ?b = "chars (i2p_base64_encode (dest @ keys))"
  have p: "parse_session_status escape_debug (status_line ?b) = Inr ?b" using base64_text(2) by (intro session_status_parsed) blast
  have d: "destination_bytes ?b = Some dest" using destination_bytes_encode [OF assms(2), of "[]" keys] by simp
  then have "from_b64_destination sha256 ?b = Some (sha256 dest)" by (simp add: from_b64_destination_def)
  then show ?thesis using p d assms(1) by (simp add: open_session_def bind_io_def lift_io_def calls_succeed ret_def)
qed

text \<open>C19. Of the key blob the router hands over, what is published is the public destination alone: when the router grants the session, its name is the
  hash of the public part and the destination it announces is the base64 of the public part, neither depending on the private keys behind
  it; the whole blob is kept only as the private key. The session is alive, and its control connection has no time-out left.\<close>

theorem sam_publishes_public:
  assumes "sk_calls s = []" "sk_in s = h @ t @ rest" "says (deadline_after (fst clock) (sc_probe_timeout config)) reply h" "hello_ok reply"
    and "says (deadline_after (snd clock) (sc_session_timeout config)) (status_line (chars (i2p_base64_encode (dest @ keys)))) t"
    and "length (str_bytes (status_line (chars (i2p_base64_encode (dest @ keys))))) \<le> MAX_SESSION_LINE"
    and "sendable (sc_nickname config)" "case sc_key config of None \<Rightarrow> True | Some k \<Rightarrow> sendable k"
    and "destination_len dest = Some (length dest)"
  shows "\<exists>ss s'. sam_connect escape_debug sha256 config clock s = Some (Inr ss, s') \<and> ss_local ss = sha256 dest \<and>
    ss_local_b64 ss = i2p_base64_encode dest \<and> ss_private ss = chars (i2p_base64_encode (dest @ keys)) \<and>
    ss_nickname ss = sc_nickname config \<and> healthy ss \<and> sk_in s' = rest \<and> sk_rto s' = None"
proof -
  show ?thesis
    unfolding connect_heard [OF assms(1-8)] using open_granted [OF _ assms(9)] assms(1)
    by (simp add: new_session_def healthy_def life_new_def alive_def)
qed

definition sample_blob :: rstr where
  "sample_blob = chars (i2p_base64_encode (replicate 387 0 @ [1, 2, 3]))"

definition sample_control :: sock where
  "sample_control = sample_sock [str ''HELLO REPLY RESULT=OK VERSION=3.3'', status_line sample_blob] [19]"

lemma sample_control_in:
  "sk_in sample_control = sample_turns (str ''HELLO REPLY RESULT=OK VERSION=3.3'') @ sample_turns (status_line (chars (i2p_base64_encode (replicate 387 0 @ [1, 2, 3])))) @
     [\<lparr>rt_now = 1, rt_rx = Byte 19\<rparr>]"
  "sk_calls sample_control = []" "sk_out sample_control = []"
  by (simp_all add: sample_control_def sample_sock_def sample_blob_def)

lemma sample_config_ok:
  "in_time (deadline_after 0 (sc_probe_timeout sam_config_default)) 1" "in_time (deadline_after 0 (sc_session_timeout sam_config_default)) 1"
  "sendable (sc_nickname sam_config_default)" "case sc_key sam_config_default of None \<Rightarrow> True | Some k \<Rightarrow> sendable k"
  by code_simp+

lemma base64_length: "length (i2p_base64_encode d) \<le> 4 * length d"
  by (induction d rule: i2p_base64_encode.induct) (simp_all add: b64_chunk_def Let_def)

lemma sample_blob_length: "length (str_bytes (status_line (chars (i2p_base64_encode (replicate 387 0 @ [1, 2, 3]))))) \<le> MAX_SESSION_LINE"
proof -
  let ?e = "i2p_base64_encode (replicate 387 0 @ [1, 2, 3 :: byte])"
  have "length ?e \<le> 4 * 390" using base64_length [of "replicate 387 0 @ [1, 2, 3]"] by simp
  moreover have "length (str_bytes (str ''SESSION STATUS RESULT=OK DESTINATION='')) = 37" by code_simp
  ultimately show ?thesis by (simp add: status_line_def str_bytes_chars [OF base64_encode_ascii] MAX_SESSION_LINE_def)
qed

theorem sam_publishes_public_witness:
  "\<exists>ss s'. sam_connect (\<lambda>c. [c]) (take 32) sam_config_default (0, 0) sample_control = Some (Inr ss, s') \<and> ss_local ss = replicate 32 0 \<and>
    ss_local_b64 ss = i2p_base64_encode (replicate 387 0) \<and> healthy ss"
proof -
  have d: "deadline_after (fst (0, 0)) = deadline_after 0" "deadline_after (snd (0, 0)) = deadline_after 0" by simp_all
  note says = sample_turns_says [OF sample_lines(2) sample_config_ok(1)] sample_turns_says [OF base64_spoken sample_config_ok(2)]
  from sam_publishes_public [OF sample_control_in(2,1), of "(0, 0)" sam_config_default, unfolded d, OF says(1) sample_lines(1) says(2)
      sample_blob_length sample_config_ok(3,4) sample_destination, of "\<lambda>c. [c]" "take 32"]
  show ?thesis by auto
qed

text \<open>C15. No text chosen by a stranger becomes a command of its own. Whatever happens to the socket, what a lookup or a session's creation has
  sent is nothing, or a beginning of the greeting followed by one more line, which splits at its spaces into exactly the fields intended and
  has its only newline at its end: a name, nickname or key that cannot go into one field is refused before anything is sent. A session that came about
  has a nickname that can, so that the same holds of its dials.\<close>

theorem sam_commands_single:
  assumes "sk_out s = []" "naming_lookup escape_debug sha256 port name clock timeout s = Some (r1, s1)"
    and "sk_out t = []" "sam_connect escape_debug sha256 config clock t = Some (r2, t1)"
    and "sk_out u = []" "dial escape_debug ss peer clock timeout u = Some (r3, ss', u1)"
  shows "(sk_out s1 = [] \<or> command_of [str ''NAMING'', str ''LOOKUP'', str ''NAME='' @ name] (naming_line name) \<and>
        (\<exists>q. str_bytes (HELLO_LINE @ naming_line name) = sk_out s1 @ q)) \<and>
    (sk_out t1 = [] \<or> command_of (session_fields config) (create_line config) \<and> (\<exists>q. str_bytes (HELLO_LINE @ create_line config) = sk_out t1 @ q)) \<and>
    (r2 = Inr ss \<longrightarrow>
      command_of [str ''STREAM'', str ''CONNECT'', str ''ID='' @ sc_nickname config, str ''DESTINATION='' @ chars (to_b32 peer), str ''SILENT=false'']
        (connect_line (ss_nickname ss) peer) \<and> (\<exists>q. str_bytes (HELLO_LINE @ connect_line (ss_nickname ss) peer) = sk_out u1 @ q))"
proof (intro conjI impI)
  show "sk_out s1 = [] \<or> command_of [str ''NAMING'', str ''LOOKUP'', str ''NAME='' @ name] (naming_line name) \<and>
      (\<exists>q. str_bytes (HELLO_LINE @ naming_line name) = sk_out s1 @ q)"
    using naming_sent [OF assms(2)] assms(1) naming_command by auto
  show "sk_out t1 = [] \<or> command_of (session_fields config) (create_line config) \<and> (\<exists>q. str_bytes (HELLO_LINE @ create_line config) = sk_out t1 @ q)"
    using connect_sent [OF assms(4)] assms(3) create_command by auto
  assume r: "r2 = Inr ss"
  have n: "ss_nickname ss = sc_nickname config" "sendable (sc_nickname config)" using connect_nickname [OF assms(4) [unfolded r]] by auto
  show "command_of [str ''STREAM'', str ''CONNECT'', str ''ID='' @ sc_nickname config, str ''DESTINATION='' @ chars (to_b32 peer), str ''SILENT=false'']
      (connect_line (ss_nickname ss) peer)" using connect_command n by simp
  show "\<exists>q. str_bytes (HELLO_LINE @ connect_line (ss_nickname ss) peer) = sk_out u1 @ q" using dial_sent [OF assms(6)] assms(5) by simp
qed

lemma sample_lookup:
  "case naming_lookup (\<lambda>c. [c]) id 7656 (str ''tracker.i2p'') (0, 0) 10
      (sample_sock [str ''HELLO REPLY RESULT=OK VERSION=3.3'', str ''NAMING REPLY RESULT=KEY_NOT_FOUND''] []) of
     Some (r, s1) \<Rightarrow> sk_out s1 \<noteq> [] | None \<Rightarrow> False"
  by code_simp

lemma hello_nonempty: "str_bytes HELLO_LINE \<noteq> []"
  by code_simp

lemma dial_returns:
  assumes "dial_exchange (ss_port ss) (ss_nickname ss) peer clock timeout s = Some (Inr status, s1)" "sk_calls s1 = []"
  shows "\<exists>r ss' s'. dial escape_debug ss peer clock timeout s = Some (r, ss', s')"
  using assms by (auto simp: dial_def dial_stream_def clear_timeouts_def bind_io_def calls_succeed split: sum.splits)

theorem sam_commands_single_witness:
  "command_of [str ''NAMING'', str ''LOOKUP'', str ''NAME='' @ str ''tracker.i2p''] (naming_line (str ''tracker.i2p'')) \<and>
   command_of (session_fields sam_config_default) (create_line sam_config_default) \<and>
   command_of [str ''STREAM'', str ''CONNECT'', str ''ID='' @ str ''clove'', str ''DESTINATION='' @ chars (to_b32 (replicate 32 7)), str ''SILENT=false'']
     (connect_line (str ''clove'') (replicate 32 7))"
proof -
  let ?hello = "str ''HELLO REPLY RESULT=OK VERSION=3.3''" and ?gone = "str ''STREAM STATUS RESULT=INVALID_ID''" and ?ed = "\<lambda>c :: rchar. [c]"
  let ?s = "sample_sock [?hello, str ''NAMING REPLY RESULT=KEY_NOT_FOUND''] []" and ?u = "sample_sock [?hello, ?gone] []"
  let ?ss = "new_session sam_config_default (id (replicate 387 0)) (replicate 387 0) sample_blob"
  have d: "deadline_after (fst (0, 0)) = deadline_after 0" "deadline_after (snd (0, 0)) = deadline_after 0" by simp_all
  obtain r1 s1 where s1: "naming_lookup ?ed id 7656 (str ''tracker.i2p'') (0, 0) 10 ?s = Some (r1, s1)" "sk_out s1 \<noteq> []"
    using sample_lookup by (auto split: option.splits)
  note says = sample_turns_says [OF sample_lines(2) sample_config_ok(1)] sample_turns_says [OF base64_spoken sample_config_ok(2)]
  obtain t1 where t1: "sam_connect ?ed id sam_config_default (0, 0) sample_control = Some (Inr ?ss, t1)" "sk_out t1 \<noteq> []"
    using connect_heard [OF sample_control_in(2,1), of "(0, 0)" sam_config_default, unfolded d, OF says(1) sample_lines(1) says(2)
      sample_blob_length sample_config_ok(3,4), of ?ed id] open_granted [OF _ sample_destination] sample_control_in(2)
      hello_nonempty by (simp add: sample_blob_def)
  have "sk_in ?u = sample_turns ?hello @ sample_turns ?gone @ []" "sk_calls ?u = []" "sk_out ?u = []" "sk_out ?s = []" by (simp_all add: sample_sock_def)
  note u = this
  note say = sample_turns_says [OF sample_lines(2) sample_lines(4)] sample_turns_says [OF sample_lines(3,4)]
  obtain r3 ss' u1 where u1: "dial ?ed ?ss (replicate 32 7) (0, 0) 10 ?u = Some (r3, ss', u1)"
    using dial_returns [OF dial_exchange_heard [OF u(2,1), of "(0, 0)" 10, unfolded d, OF say(1) sample_lines(1) say(2) sample_lines(5)]] u(2) by fastforce
  have "ss_nickname ?ss = str ''clove''" "sc_nickname sam_config_default = str ''clove''" by (simp_all add: new_session_def sam_config_default_def)
  then show ?thesis
    using sam_commands_single [OF u(4) s1(1) sample_control_in(3) t1(1) u(3) u1] s1(2) t1(2) by simp
qed

end
