(* ===== verification/Naming.thy ===== *)
theory Naming
  imports Text
begin

text \<open>
  The lookup cache of \<^verbatim>\<open>crates/i2pnet/src/naming.rs\<close>. The cache behind the mutex is a record; a
  lookup is its two critical sections with the resolver's answer between them, so that lookups of
  other threads may run in the gap. The resolver is a parameter: whatever it answers. An
  \<^verbatim>\<open>Instant\<close> counts nanoseconds.
\<close>

subsection \<open>The cache\<close>

definition NEGATIVE_INITIAL :: nat where "NEGATIVE_INITIAL = secs 30"
definition NEGATIVE_MAX :: nat where "NEGATIVE_MAX = secs (30 * 60)"
definition MAX_ENTRIES :: nat where "MAX_ENTRIES = 4096"

datatype entry = Hit bytes nat | Miss nat nat nat

fun entry_since :: "entry \<Rightarrow> nat" where
  "entry_since (Hit _ since) = since"
| "entry_since (Miss _ _ since) = since"

fun is_miss :: "entry \<Rightarrow> bool" where
  "is_miss (Miss _ _ _) = True"
| "is_miss (Hit _ _) = False"

record cache =
  by_name :: "(rstr, entry) hashmap"
  inserted :: nat

definition cache_default :: cache where
  "cache_default = \<lparr>by_name = [], inserted = 0\<rparr>"

fun min_by_key :: "('a \<Rightarrow> nat) \<Rightarrow> 'a list \<Rightarrow> 'a option" where
  "min_by_key f [] = None"
| "min_by_key f (x # xs) =
     (case min_by_key f xs of None \<Rightarrow> Some x | Some y \<Rightarrow> Some (if f x \<le> f y then x else y))"

definition oldest :: "(entry \<Rightarrow> bool) \<Rightarrow> cache \<Rightarrow> rstr option" where
  "oldest q c = map_option fst (min_by_key (\<lambda>(_, e). entry_since e) (filter (\<lambda>(_, e). q e) (by_name c)))"

definition cache_insert :: "rstr \<Rightarrow> (nat \<Rightarrow> entry) \<Rightarrow> cache \<Rightarrow> cache" where
  "cache_insert name entry c =
     (let m =
        (if length (by_name c) \<ge> MAX_ENTRIES \<and> map_of (by_name c) name = None then
           (case (case oldest is_miss c of Some v \<Rightarrow> Some v | None \<Rightarrow> oldest (\<lambda>_. True) c) of
              Some victim \<Rightarrow> hm_remove victim (by_name c)
            | None \<Rightarrow> by_name c)
         else by_name c);
        n = u64_add (inserted c) 1
      in c\<lparr>by_name := hm_insert name (entry n) m, inserted := n\<rparr>)"

subsection \<open>Lookups\<close>

datatype error_kind = NotFound | InvalidInput | OtherKind string

datatype lookup_error = LookupError (err_kind: error_kind) (err_text: rstr)

type_synonym resolution = "lookup_error + bytes"

text \<open>What the first critical section decides: an answer, or how many failures came before.\<close>

datatype lookup_decision = Answer resolution | Ask nat

definition held_error :: "rstr \<Rightarrow> nat \<Rightarrow> nat \<Rightarrow> lookup_error" where
  "held_error name failures left =
     LookupError NotFound
       (str ''naming: '' @ map scrub_char name @ str '' is negative-cached after '' @ chars (dec_digits failures) @
        str '' failed lookup(s); not asking the router again for '' @ chars (dec_digits (left div secs 1)) @ str ''s'')"

definition lookup_begin :: "rstr \<Rightarrow> nat \<Rightarrow> cache \<Rightarrow> lookup_decision" where
  "lookup_begin name now c =
     (case map_of (by_name c) name of
        Some (Hit dest _) \<Rightarrow> Answer (Inr dest)
      | Some (Miss until failures _) \<Rightarrow>
          if until > now then Answer (Inl (held_error name failures (until - now))) else Ask failures
      | None \<Rightarrow> Ask 0)"

definition negative_hold :: "nat \<Rightarrow> nat" where
  "negative_hold failures = min (NEGATIVE_INITIAL * 2 ^ min (failures - 1) 6) NEGATIVE_MAX"

definition lookup_end :: "rstr \<Rightarrow> nat \<Rightarrow> nat \<Rightarrow> resolution \<Rightarrow> cache \<Rightarrow> resolution \<times> cache" where
  "lookup_end name now prior_failures r c =
     (case r of
        Inr dest \<Rightarrow> (Inr dest, cache_insert name (Hit dest) c)
      | Inl e \<Rightarrow>
          if err_kind e = InvalidInput then (Inl e, c)
          else
            let failures = u32_sat_add prior_failures 1;
                hold = negative_hold failures in
            (Inl e,
             (case map_of (by_name c) name of
                Some (Hit _ _) \<Rightarrow> c
              | _ \<Rightarrow> cache_insert name (Miss (now + hold) failures) c)))"

definition lookup :: "(rstr \<Rightarrow> resolution) \<Rightarrow> rstr \<Rightarrow> nat \<Rightarrow> cache \<Rightarrow> resolution \<times> cache" where
  "lookup resolver name now c =
     (case lookup_begin name now c of
        Answer r \<Rightarrow> (r, c)
      | Ask prior \<Rightarrow> lookup_end name now prior (resolver name) c)"

subsection \<open>Concurrent lookups\<close>

text \<open>Any number of callers share the cache. A lookup that asks the resolver is in flight until the
  resolver answers, and answers may come in any order. Two logs record what the resolver said and
  what the callers were told.\<close>

record nsys =
  ns_cache :: cache
  ns_clock :: nat
  ns_calls :: "(rstr \<times> nat \<times> nat) list"
  ns_said :: "(rstr \<times> resolution) list"
  ns_told :: "(rstr \<times> resolution) list"

definition nsys_init :: "nat \<Rightarrow> nsys" where
  "nsys_init now = \<lparr>ns_cache = cache_default, ns_clock = now, ns_calls = [], ns_said = [], ns_told = []\<rparr>"

inductive nstep :: "nsys \<Rightarrow> nsys \<Rightarrow> bool" where
  tick: "nstep s (s\<lparr>ns_clock := ns_clock s + d\<rparr>)"
| known: "lookup_begin name (ns_clock s) (ns_cache s) = Answer r \<Longrightarrow>
    nstep s (s\<lparr>ns_told := (name, r) # ns_told s\<rparr>)"
| ask: "lookup_begin name (ns_clock s) (ns_cache s) = Ask prior \<Longrightarrow>
    nstep s (s\<lparr>ns_calls := (name, ns_clock s, prior) # ns_calls s\<rparr>)"
| reply: "(name, now, prior) \<in> set (ns_calls s) \<Longrightarrow> lookup_end name now prior r (ns_cache s) = (r', c') \<Longrightarrow>
    nstep s (s\<lparr>ns_cache := c', ns_calls := remove1 (name, now, prior) (ns_calls s),
               ns_said := (name, r) # ns_said s, ns_told := (name, r') # ns_told s\<rparr>)"

inductive_cases nstepE: "nstep s s'"

subsection \<open>Lemmas\<close>

lemma min_by_key_None [simp]: "min_by_key f xs = None \<longleftrightarrow> xs = []"
  by (cases xs) (auto split: option.splits)

lemma min_by_key_Some: "min_by_key f xs = Some x \<Longrightarrow> x \<in> set xs \<and> (\<forall>y \<in> set xs. f x \<le> f y)"
proof (induction xs arbitrary: x)
  case (Cons a xs)
  then show ?case by (cases "min_by_key f xs") (fastforce split: if_splits)+
qed simp

lemma oldest_None [simp]: "oldest q c = None \<longleftrightarrow> (\<forall>(n, e) \<in> set (by_name c). \<not> q e)"
  by (auto simp: oldest_def filter_empty_conv)

lemma oldest_Some:
  assumes "oldest q c = Some v"
  obtains e where "(v, e) \<in> set (by_name c)" "q e"
    "\<And>n e'. (n, e') \<in> set (by_name c) \<Longrightarrow> q e' \<Longrightarrow> entry_since e \<le> entry_since e'"
proof -
  from assms obtain e where m: "min_by_key (\<lambda>(_, e). entry_since e) (filter (\<lambda>(_, e). q e) (by_name c)) = Some (v, e)"
    by (auto simp: oldest_def)
  from min_by_key_Some [OF m] show thesis by (intro that [of e]) auto
qed

text \<open>The entries an insertion keeps: all but a victim, and the name itself.\<close>

definition evicted :: "rstr \<Rightarrow> cache \<Rightarrow> rstr option" where
  "evicted name c =
     (if length (by_name c) \<ge> MAX_ENTRIES \<and> map_of (by_name c) name = None
      then (case oldest is_miss c of Some v \<Rightarrow> Some v | None \<Rightarrow> oldest (\<lambda>_. True) c) else None)"

lemma cache_insert_alt:
  "cache_insert name entry c =
     c\<lparr>by_name := hm_insert name (entry (u64_add (inserted c) 1))
         (case evicted name c of Some v \<Rightarrow> hm_remove v (by_name c) | None \<Rightarrow> by_name c),
       inserted := u64_add (inserted c) 1\<rparr>"
  by (simp add: cache_insert_def evicted_def Let_def)

lemma map_of_cache_insert:
  "map_of (by_name (cache_insert name entry c)) n =
     (if n = name then Some (entry (u64_add (inserted c) 1))
      else if evicted name c = Some n then None else map_of (by_name c) n)"
  by (simp add: cache_insert_alt split: option.split)

lemma evicted_exact:
  assumes "evicted name c = Some v"
  obtains e where "(v, e) \<in> set (by_name c)" "MAX_ENTRIES \<le> length (by_name c)"
    "is_miss e \<or> (\<forall>(n, e') \<in> set (by_name c). \<not> is_miss e')"
    "\<And>n e'. (n, e') \<in> set (by_name c) \<Longrightarrow> is_miss e' = is_miss e \<Longrightarrow> entry_since e \<le> entry_since e'"
proof (cases "oldest is_miss c")
  case (Some w)
  from this obtain e where "(w, e) \<in> set (by_name c)" "is_miss e"
    "\<And>n e'. (n, e') \<in> set (by_name c) \<Longrightarrow> is_miss e' \<Longrightarrow> entry_since e \<le> entry_since e'"
    by (rule oldest_Some) blast
  then show thesis using Some assms by (intro that [of e]) (auto simp: evicted_def split: if_splits)
next
  case None
  then have o: "oldest (\<lambda>_. True) c = Some v" and m: "MAX_ENTRIES \<le> length (by_name c)"
    using assms by (simp_all add: evicted_def split: if_splits del: oldest_None)
  from o obtain e where "(v, e) \<in> set (by_name c)"
    "\<And>n e'. (n, e') \<in> set (by_name c) \<Longrightarrow> True \<Longrightarrow> entry_since e \<le> entry_since e'"
    by (rule oldest_Some) blast
  then show thesis using None m by (intro that [of e]) simp_all
qed

text \<open>What holds of the shared cache: it is bounded, and every entry records something the resolver
  said of that name. Stamps stay distinct as long as the 64-bit counter has not come round.\<close>

definition said_failed :: "(rstr \<times> resolution) list \<Rightarrow> rstr \<Rightarrow> bool" where
  "said_failed said n \<longleftrightarrow> (\<exists>e. (n, Inl e) \<in> set said \<and> err_kind e \<noteq> InvalidInput)"

definition entry_ok :: "(rstr \<times> resolution) list \<Rightarrow> nat \<Rightarrow> rstr \<Rightarrow> entry \<Rightarrow> bool" where
  "entry_ok said clock n e =
     (case e of
        Hit d _ \<Rightarrow> (n, Inr d) \<in> set said
      | Miss until failures _ \<Rightarrow> said_failed said n \<and> 0 < failures \<and> failures \<le> u32_max \<and> until \<le> clock + NEGATIVE_MAX)"

definition stamps_ok :: "nat \<Rightarrow> cache \<Rightarrow> bool" where
  "stamps_ok k c \<longleftrightarrow> inserted c \<le> k \<and> (\<forall>(n, e) \<in> set (by_name c). entry_since e \<le> inserted c) \<and>
     inj_on (\<lambda>(n, e). entry_since e) (set (by_name c))"

definition naming_inv :: "nsys \<Rightarrow> bool" where
  "naming_inv s \<longleftrightarrow>
     distinct (map fst (by_name (ns_cache s))) \<and> length (by_name (ns_cache s)) \<le> MAX_ENTRIES \<and>
     (\<forall>(n, e) \<in> set (by_name (ns_cache s)). entry_ok (ns_said s) (ns_clock s) n e) \<and>
     (\<forall>(n, t, p) \<in> set (ns_calls s). t \<le> ns_clock s \<and> p \<le> u32_max) \<and>
     (\<forall>n d. (n, Inr d) \<in> set (ns_told s) \<longrightarrow> (n, Inr d) \<in> set (ns_said s)) \<and>
     (length (ns_said s) < 2 ^ 64 \<longrightarrow> stamps_ok (length (ns_said s)) (ns_cache s))"

lemma negative_hold_bounds: "NEGATIVE_INITIAL \<le> negative_hold f \<and> negative_hold f \<le> NEGATIVE_MAX"
proof -
  have "NEGATIVE_INITIAL * 1 \<le> NEGATIVE_INITIAL * 2 ^ min (f - 1) 6" by (intro mult_le_mono2) simp
  moreover have "NEGATIVE_INITIAL \<le> NEGATIVE_MAX" by (simp add: NEGATIVE_INITIAL_def NEGATIVE_MAX_def secs_def)
  ultimately show ?thesis by (simp add: negative_hold_def)
qed

lemma evicted_in: "evicted name c = Some v \<Longrightarrow> v \<in> fst ` set (by_name c)"
  by (metis evicted_exact fst_conv image_eqI)

lemma evicted_None:
  "evicted name c = None \<Longrightarrow> length (by_name c) < MAX_ENTRIES \<or> map_of (by_name c) name \<noteq> None"
  by (cases "by_name c") (auto simp: evicted_def MAX_ENTRIES_def oldest_None split: if_splits option.splits)

lemma set_hm_insert: "distinct (map fst m) \<Longrightarrow> set (hm_insert k v m) = insert (k, v) {e \<in> set m. fst e \<noteq> k}"
  by (induction m) (auto simp: hm_insert_def, force+)

lemma set_cache_insert:
  assumes "distinct (map fst (by_name c))"
  shows "set (by_name (cache_insert name entry c)) =
    insert (name, entry (u64_add (inserted c) 1)) {e \<in> set (by_name c). fst e \<noteq> name \<and> evicted name c \<noteq> Some (fst e)}"
  using assms by (auto simp: cache_insert_alt set_hm_insert hm_remove_distinct split: option.split)

lemma length_hm_remove:
  "distinct (map fst m) \<Longrightarrow> k \<in> fst ` set m \<Longrightarrow> Suc (length (hm_remove k m)) = length m"
proof (induction m)
  case (Cons e m)
  have "fst e = k \<Longrightarrow> filter (\<lambda>e. fst e \<noteq> k) m = m" using Cons.prems(1) by (simp add: filter_id_conv) (metis image_eqI)
  then show ?case using Cons by (auto simp: bt_remove_def)
qed simp

lemma cache_insert_wf:
  assumes "distinct (map fst (by_name c))" "length (by_name c) \<le> MAX_ENTRIES"
  shows "distinct (map fst (by_name (cache_insert name entry c)))"
    and "length (by_name (cache_insert name entry c)) \<le> MAX_ENTRIES"
proof -
  show "distinct (map fst (by_name (cache_insert name entry c)))"
    using assms(1) by (simp add: cache_insert_alt hm_insert_distinct hm_remove_distinct split: option.split)
  show "length (by_name (cache_insert name entry c)) \<le> MAX_ENTRIES"
  proof (cases "evicted name c")
    case None
    then show ?thesis using evicted_None [OF None] assms(2)
      by (auto simp: cache_insert_alt hm_insert_length map_of_eq_None_iff)
  next
    case (Some v)
    then show ?thesis using length_hm_remove [OF assms(1) evicted_in [OF Some]] assms(2)
      by (simp add: cache_insert_alt hm_insert_length)
  qed
qed

lemma stamps_ok_mono: "stamps_ok k c \<Longrightarrow> k \<le> k' \<Longrightarrow> stamps_ok k' c"
  by (auto simp: stamps_ok_def)

lemma cache_insert_stamps:
  assumes "distinct (map fst (by_name c))" "stamps_ok k c" "Suc k < 2 ^ 64" "\<And>n. entry_since (entry n) = n"
  shows "stamps_ok (Suc k) (cache_insert name entry c)"
proof -
  let ?i = "Suc (inserted c)" and ?old = "{e \<in> set (by_name c). fst e \<noteq> name \<and> evicted name c \<noteq> Some (fst e)}"
  have k: "inserted c \<le> k" "\<And>n e. (n, e) \<in> set (by_name c) \<Longrightarrow> entry_since e < ?i"
    and inj: "inj_on (\<lambda>(n, e). entry_since e) (set (by_name c))"
    using assms(2) by (force simp: stamps_ok_def)+
  have i: "u64_add (inserted c) 1 = ?i" using k(1) assms(3) by (simp add: u64_add_def)
  have "inj_on (\<lambda>(n, e). entry_since e) (insert (name, entry ?i) ?old)"
    unfolding inj_on_insert using inj_on_subset [OF inj, of ?old] k(2) assms(4) by force
  moreover have "entry_since e \<le> ?i" if "(n, e) \<in> insert (name, entry ?i) ?old" for n e
    using that k(2) [of n e] assms(4) by (auto simp: less_Suc_eq_le intro: le_SucI)
  ultimately show ?thesis
    using k(1) i set_cache_insert [OF assms(1), of name entry] by (auto simp: stamps_ok_def cache_insert_alt)
qed

lemma entry_ok_mono:
  "entry_ok said clock n e \<Longrightarrow> set said \<subseteq> set said' \<Longrightarrow> clock \<le> clock' \<Longrightarrow> entry_ok said' clock' n e"
  by (auto simp: entry_ok_def said_failed_def split: entry.splits)

lemma lookup_end_cases:
  assumes "lookup_end name now p r c = (r', c')"
  obtains (kept) "r' = r" "c' = c"
  | (hit) d where "r' = r" "r = Inr d" "c' = cache_insert name (Hit d) c"
  | (miss) e f where "r' = r" "r = Inl e" "err_kind e \<noteq> InvalidInput" "f = u32_sat_add p 1"
      "\<And>d k. map_of (by_name c) name \<noteq> Some (Hit d k)" "c' = cache_insert name (Miss (now + negative_hold f) f) c"
proof (cases r)
  case (Inr d)
  then show thesis using assms by (intro hit [of d]) (auto simp: lookup_end_def)
next
  case (Inl e)
  show thesis
  proof (cases "err_kind e = InvalidInput \<or> (\<exists>d k. map_of (by_name c) name = Some (Hit d k))")
    case True
    then show thesis using Inl assms by (intro kept) (auto simp: lookup_end_def Let_def split: if_splits)
  next
    case False
    then have "lookup_end name now p r c =
        (r, cache_insert name (Miss (now + negative_hold (u32_sat_add p 1)) (u32_sat_add p 1)) c)"
      using Inl by (auto simp: lookup_end_def Let_def split: option.split entry.split)
    then show thesis using False Inl assms by (intro miss [of e "u32_sat_add p 1"]) auto
  qed
qed

lemma lookup_begin_hit: "lookup_begin n now c = Answer (Inr d) \<longleftrightarrow> (\<exists>k. map_of (by_name c) n = Some (Hit d k))"
  by (auto simp: lookup_begin_def split: option.splits entry.splits if_splits)

lemma lookup_begin_ask:
  "lookup_begin n now c = Ask p \<longleftrightarrow>
     (map_of (by_name c) n = None \<and> p = 0 \<or> (\<exists>u k. map_of (by_name c) n = Some (Miss u p k) \<and> u \<le> now))"
  by (auto simp: lookup_begin_def split: option.splits entry.splits if_splits)

lemma cache_insert_entries:
  assumes "distinct (map fst (by_name c))" "\<And>n e. (n, e) \<in> set (by_name c) \<Longrightarrow> P n e" "\<And>i. P name (entry i)"
    "(n, e) \<in> set (by_name (cache_insert name entry c))"
  shows "P n e"
  using assms(2,3,4) by (auto simp: set_cache_insert [OF assms(1)])

lemma naming_inv_init: "naming_inv (nsys_init now)"
  by (simp add: naming_inv_def nsys_init_def cache_default_def stamps_ok_def)

lemma naming_inv_insert:
  assumes inv: "naming_inv s" and new: "\<And>i. entry_ok ((name, r) # ns_said s) (ns_clock s) name (entry i)"
    and since: "\<And>i. entry_since (entry i) = i"
    and s': "s' = s\<lparr>ns_cache := cache_insert name entry (ns_cache s), ns_calls := remove1 x (ns_calls s),
               ns_said := (name, r) # ns_said s, ns_told := (name, r) # ns_told s\<rparr>"
  shows "naming_inv s'"
proof -
  let ?c = "cache_insert name entry (ns_cache s)" and ?said = "(name, r) # ns_said s"
  have wf: "distinct (map fst (by_name (ns_cache s)))" "length (by_name (ns_cache s)) \<le> MAX_ENTRIES"
    and ok: "\<And>n e. (n, e) \<in> set (by_name (ns_cache s)) \<Longrightarrow> entry_ok (ns_said s) (ns_clock s) n e"
    and calls: "\<And>n t p. (n, t, p) \<in> set (ns_calls s) \<Longrightarrow> t \<le> ns_clock s \<and> p \<le> u32_max"
    and told: "\<And>n d. (n, Inr d) \<in> set (ns_told s) \<Longrightarrow> (n, Inr d) \<in> set (ns_said s)"
    and st: "length (ns_said s) < 2 ^ 64 \<Longrightarrow> stamps_ok (length (ns_said s)) (ns_cache s)"
    using inv by (auto simp: naming_inv_def)
  have "entry_ok ?said (ns_clock s) n e" if "(n, e) \<in> set (by_name ?c)" for n e
    by (rule cache_insert_entries [OF wf(1) _ _ that]) (auto intro: new entry_ok_mono [OF ok])
  moreover have "stamps_ok (length ?said) ?c" if "length ?said < 2 ^ 64"
    using cache_insert_stamps [OF wf(1) st _ since, of name] that by simp
  moreover have "t \<le> ns_clock s \<and> p \<le> u32_max" if "(n, t, p) \<in> set (remove1 x (ns_calls s))" for n t p
    using that calls notin_set_remove1 by fast
  moreover have "(n, Inr d) \<in> set ?said" if "(n, Inr d) \<in> set ((name, r) # ns_told s)" for n d
    using that told by auto
  ultimately show ?thesis
    unfolding s' naming_inv_def using cache_insert_wf [OF wf, of name entry]
    by (auto simp del: length_Cons list.set)
qed

lemma naming_invI:
  assumes "distinct (map fst (by_name (ns_cache s)))" "length (by_name (ns_cache s)) \<le> MAX_ENTRIES"
    "\<And>n e. (n, e) \<in> set (by_name (ns_cache s)) \<Longrightarrow> entry_ok (ns_said s) (ns_clock s) n e"
    "\<And>n t p. (n, t, p) \<in> set (ns_calls s) \<Longrightarrow> t \<le> ns_clock s \<and> p \<le> u32_max"
    "\<And>n d. (n, Inr d) \<in> set (ns_told s) \<Longrightarrow> (n, Inr d) \<in> set (ns_said s)"
    "length (ns_said s) < 2 ^ 64 \<Longrightarrow> stamps_ok (length (ns_said s)) (ns_cache s)"
  shows "naming_inv s"
  using assms by (auto simp: naming_inv_def)

lemma naming_invD:
  assumes "naming_inv s"
  shows "distinct (map fst (by_name (ns_cache s)))" "length (by_name (ns_cache s)) \<le> MAX_ENTRIES"
    "(n, e) \<in> set (by_name (ns_cache s)) \<Longrightarrow> entry_ok (ns_said s) (ns_clock s) n e"
    "(n, t, p) \<in> set (ns_calls s) \<Longrightarrow> t \<le> ns_clock s \<and> p \<le> u32_max"
    "(n, Inr d) \<in> set (ns_told s) \<Longrightarrow> (n, Inr d) \<in> set (ns_said s)"
    "length (ns_said s) < 2 ^ 64 \<Longrightarrow> stamps_ok (length (ns_said s)) (ns_cache s)"
  using assms by (auto simp: naming_inv_def)

lemma naming_inv_step:
  assumes inv: "naming_inv s" and step: "nstep s s'"
  shows "naming_inv s'"
  using step
proof cases
  case (tick d)
  show ?thesis unfolding tick
    by (rule naming_invI) (auto dest!: naming_invD(3,4) [OF inv] intro: naming_invD [OF inv] entry_ok_mono)
next
  case (known name r)
  have "(n, Inr d) \<in> set (ns_said s)" if q: "n = name" "r = Inr d" for n d
  proof -
    obtain k where "map_of (by_name (ns_cache s)) n = Some (Hit d k)" using known(2) q lookup_begin_hit by blast
    then have "(n, Hit d k) \<in> set (by_name (ns_cache s))" by (rule map_of_SomeD)
    from naming_invD(3) [OF inv this] show ?thesis by (simp add: entry_ok_def)
  qed
  then show ?thesis unfolding known(1)
    by (intro naming_invI) (auto intro: naming_invD [OF inv] dest: naming_invD(4,5) [OF inv])
next
  case (ask name prior)
  have "prior \<le> u32_max"
    using ask(2) naming_invD(3) [OF inv, OF map_of_SomeD] by (fastforce simp: lookup_begin_ask entry_ok_def)
  then show ?thesis unfolding ask(1)
    by (intro naming_invI) (auto intro: naming_invD [OF inv] dest: naming_invD(4) [OF inv])
next
  case (reply name now prior r r' c')
  have call: "now \<le> ns_clock s" "prior \<le> u32_max" using naming_invD(4) [OF inv reply(2)] by auto
  from reply(3) show ?thesis
  proof (cases rule: lookup_end_cases)
    case kept
    have "entry_ok ((name, r) # ns_said s) (ns_clock s) n e" if "(n, e) \<in> set (by_name (ns_cache s))" for n e
      by (rule entry_ok_mono [OF naming_invD(3) [OF inv that]]) auto
    moreover have "t \<le> ns_clock s \<and> p \<le> u32_max"
      if "(n, t, p) \<in> set (remove1 (name, now, prior) (ns_calls s))" for n t p
      using that set_remove1_subset naming_invD(4) [OF inv, of n t p] by fast
    ultimately show ?thesis unfolding reply(1) using kept
      by (intro naming_invI) (auto intro: naming_invD [OF inv] stamps_ok_mono [OF naming_invD(6) [OF inv]]
        dest: naming_invD(5) [OF inv])
  next
    case (hit d)
    then show ?thesis using reply(1)
      by (intro naming_inv_insert [OF inv, where entry = "Hit d" and r = r and name = name]) (auto simp: entry_ok_def)
  next
    case (miss e f)
    then have "0 < f" "f \<le> u32_max" using call(2) by (auto simp: u32_sat_add_def u32_max_def)
    then show ?thesis using reply(1) miss call(1) negative_hold_bounds [of f]
      by (intro naming_inv_insert [OF inv, where entry = "Miss (now + negative_hold f) f" and r = r and name = name])
        (auto simp: entry_ok_def said_failed_def)
  qed
qed

interpretation nsysi: transition_system "\<lambda>s. \<exists>now. s = nsys_init now" nstep naming_inv
  by unfold_locales (auto intro: naming_inv_init naming_inv_step)

subsection \<open>Properties\<close>

lemma evicted_hit:
  assumes "distinct (map fst (by_name c))" "stamps_ok k c" "length (by_name c) \<le> MAX_ENTRIES"
    "evicted name c = Some n" "map_of (by_name c) n = Some (Hit d i)"
  shows "length (by_name c) = MAX_ENTRIES"
    and "(m, e) \<in> set (by_name c) \<Longrightarrow> m \<noteq> n \<Longrightarrow> \<not> is_miss e \<and> i < entry_since e"
proof -
  have n: "(n, Hit d i) \<in> set (by_name c)" using assms(5) by (rule map_of_SomeD)
  obtain e' where v: "(n, e') \<in> set (by_name c)" "MAX_ENTRIES \<le> length (by_name c)"
    "is_miss e' \<or> (\<forall>(n, e') \<in> set (by_name c). \<not> is_miss e')"
    "\<And>n e''. (n, e'') \<in> set (by_name c) \<Longrightarrow> is_miss e'' = is_miss e' \<Longrightarrow> entry_since e' \<le> entry_since e''"
    using evicted_exact [OF assms(4)] by blast
  have e': "e' = Hit d i" using assms(5) map_of_is_SomeI [OF assms(1) v(1)] by simp
  show "length (by_name c) = MAX_ENTRIES" using assms(3) v(2) by simp
  show "\<not> is_miss e \<and> i < entry_since e" if m: "(m, e) \<in> set (by_name c)" "m \<noteq> n"
  proof -
    have "\<not> is_miss e" using v(3) e' m by auto
    moreover have "entry_since e \<noteq> i"
      using inj_onD [of "\<lambda>(n, e). entry_since e" _ "(m, e)" "(n, Hit d i)"] assms(2) m n by (auto simp: stamps_ok_def)
    ultimately show ?thesis using v(4) [OF m(1)] e' by simp
  qed
qed

lemma hit_survives:
  assumes inv: "naming_inv s" and n: "length (ns_said s) < 2 ^ 64" and step: "nstep s s'"
    and hit: "map_of (by_name (ns_cache s)) name = Some (Hit d i)"
  shows "(\<exists>d' i'. map_of (by_name (ns_cache s')) name = Some (Hit d' i') \<and> (d' = d \<or> hd (ns_said s') = (name, Inr d'))) \<or>
    (length (by_name (ns_cache s)) = MAX_ENTRIES \<and>
     (\<forall>m e. (m, e) \<in> set (by_name (ns_cache s)) \<longrightarrow> m \<noteq> name \<longrightarrow> \<not> is_miss e \<and> i < entry_since e))"
  using step
proof cases
  case (reply q now prior r r' c')
  have evict: ?thesis if "evicted q (ns_cache s) = Some name"
    using evicted_hit [OF _ _ _ that hit] inv n by (auto simp: naming_inv_def)
  from reply(3) show ?thesis
  proof (cases rule: lookup_end_cases)
    case (hit d')
    then show ?thesis using reply(1) evict assms(4) by (cases "evicted q (ns_cache s) = Some name") (auto simp: map_of_cache_insert)
  next
    case (miss e f)
    then have "q \<noteq> name" using hit by auto
    then show ?thesis using miss reply(1) evict hit by (cases "evicted q (ns_cache s) = Some name") (auto simp: map_of_cache_insert)
  qed (use hit reply in auto)
qed (use hit in auto)

text \<open>C12. Lookups of any number of callers may overlap, and the resolver's answers may arrive in any order:
  the cache never holds more than its bound; no caller is told a destination the resolver did not give
  for that very name; only a name that failed to resolve is held back, never one refused as malformed, and
  for at most half an hour from now; and a remembered destination is displaced only by a newer answer for its name,
  or when the cache is full of destinations of which it is the oldest (as long as fewer than 2^64 answers came).\<close>

theorem naming_cache_sound:
  assumes "nstep\<^sup>*\<^sup>* (nsys_init now) s"
  shows "length (by_name (ns_cache s)) \<le> MAX_ENTRIES \<and>
    (\<forall>n d. (n, Inr d) \<in> set (ns_told s) \<longrightarrow> (n, Inr d) \<in> set (ns_said s)) \<and>
    (\<forall>n u f i. map_of (by_name (ns_cache s)) n = Some (Miss u f i) \<longrightarrow>
       said_failed (ns_said s) n \<and> u \<le> ns_clock s + NEGATIVE_MAX) \<and>
    (\<forall>s' n d i. length (ns_said s) < 2 ^ 64 \<longrightarrow> nstep s s' \<longrightarrow> map_of (by_name (ns_cache s)) n = Some (Hit d i) \<longrightarrow>
       (\<exists>d' i'. map_of (by_name (ns_cache s')) n = Some (Hit d' i') \<and> (d' = d \<or> hd (ns_said s') = (n, Inr d'))) \<or>
       (length (by_name (ns_cache s)) = MAX_ENTRIES \<and>
        (\<forall>m e. (m, e) \<in> set (by_name (ns_cache s)) \<longrightarrow> m \<noteq> n \<longrightarrow> \<not> is_miss e \<and> i < entry_since e)))"
proof -
  have inv: "naming_inv s" using nsysi.inv_reachable [OF _ assms] by blast
  have "said_failed (ns_said s) n \<and> u \<le> ns_clock s + NEGATIVE_MAX"
    if "map_of (by_name (ns_cache s)) n = Some (Miss u f i)" for n u f i
    using map_of_SomeD [OF that] inv by (fastforce simp: naming_inv_def entry_ok_def)
  then show ?thesis using inv hit_survives [OF inv] by (simp add: naming_inv_def)
qed

definition sample_dest :: bytes where "sample_dest = replicate 32 7"

theorem naming_cache_sound_witness:
  "\<exists>s. nstep\<^sup>*\<^sup>* (nsys_init 0) s \<and> ns_told s = [(str ''t.i2p'', Inr sample_dest), (str ''t.i2p'', Inr sample_dest)] \<and>
    length (by_name (ns_cache s)) \<le> MAX_ENTRIES \<and> (str ''t.i2p'', Inr sample_dest) \<in> set (ns_said s)"
proof -
  let ?n = "str ''t.i2p''" and ?s0 = "nsys_init 0"
  define s1 where "s1 = ?s0\<lparr>ns_calls := (?n, ns_clock ?s0, 0) # ns_calls ?s0\<rparr>"
  define s2 where "s2 = s1\<lparr>ns_cache := snd (lookup_end ?n 0 0 (Inr sample_dest) (ns_cache s1)), ns_calls := remove1 (?n, 0, 0) (ns_calls s1),
      ns_said := (?n, Inr sample_dest) # ns_said s1, ns_told := (?n, Inr sample_dest) # ns_told s1\<rparr>"
  define s3 where "s3 = s2\<lparr>ns_told := (?n, Inr sample_dest) # ns_told s2\<rparr>"
  have "nstep ?s0 s1"
    unfolding s1_def by (rule nstep.ask) (simp add: nsys_init_def cache_default_def lookup_begin_def)
  moreover have "nstep s1 s2"
    unfolding s2_def by (rule nstep.reply) (simp_all add: s1_def nsys_init_def lookup_end_def)
  moreover have "nstep s2 s3"
    unfolding s3_def by (rule nstep.known) (simp add: s2_def s1_def lookup_end_def lookup_begin_def map_of_cache_insert)
  ultimately have r: "nstep\<^sup>*\<^sup>* ?s0 s3" by (meson converse_rtranclp_into_rtranclp rtranclp.rtrancl_refl)
  have t: "ns_told s3 = [(?n, Inr sample_dest), (?n, Inr sample_dest)]"
    by (simp add: s3_def s2_def s1_def nsys_init_def)
  then have "(?n, Inr sample_dest) \<in> set (ns_told s3)" by simp
  with naming_cache_sound [OF r] show ?thesis using r t by blast
qed

text \<open>When a name may next be asked for, and how often it has failed in a row.\<close>

definition held :: "rstr \<Rightarrow> cache \<Rightarrow> nat \<times> nat" where
  "held n c = (case map_of (by_name c) n of Some (Miss u f _) \<Rightarrow> (u, f) | _ \<Rightarrow> (0, 0))"

lemma negative_hold_Suc: "negative_hold (Suc f) = min (secs (30 * 2 ^ f)) (secs 1800)"
proof (cases "f \<le> 6")
  case True
  then show ?thesis by (simp add: negative_hold_def NEGATIVE_INITIAL_def NEGATIVE_MAX_def secs_def min_absorb1)
next
  case False
  then have "(2 :: nat) ^ 6 \<le> 2 ^ f" by (intro power_increasing) auto
  then show ?thesis using False by (simp add: negative_hold_def NEGATIVE_INITIAL_def NEGATIVE_MAX_def secs_def min_absorb2)
qed

text \<open>The router is spared: for a name that is not known, held until \<open>u\<close> after \<open>f\<close> failures in a row, a lookup before \<open>u\<close>
  is refused without asking the resolver; from \<open>u\<close> on it is asked, and a failure holds the name for thirty seconds doubled once for each
  earlier failure, at most half an hour. A name refused as malformed leaves no trace, and once resolved a name
  is answered from the cache at any time.\<close>

theorem naming_backoff:
  assumes "\<forall>d i. map_of (by_name c) n \<noteq> Some (Hit d i)" "held n c = (u, f)" "f < u32_max"
  shows "(now < u \<longrightarrow> lookup resolver n now c = (Inl (held_error n f (u - now)), c)) \<and>
    (u \<le> now \<longrightarrow>
      (case resolver n of
         Inr d \<Rightarrow> fst (lookup resolver n now c) = Inr d \<and>
           (\<forall>resolver' now'. lookup resolver' n now' (snd (lookup resolver n now c)) = (Inr d, snd (lookup resolver n now c)))
       | Inl e \<Rightarrow> fst (lookup resolver n now c) = Inl e \<and>
           (if err_kind e = InvalidInput then snd (lookup resolver n now c) = c
            else held n (snd (lookup resolver n now c)) = (now + min (secs (30 * 2 ^ f)) (secs 1800), Suc f))))"
proof (intro conjI impI)
  assume "now < u"
  then show "lookup resolver n now c = (Inl (held_error n f (u - now)), c)"
    using assms(1,2) by (auto simp: lookup_def lookup_begin_def held_def split: option.splits entry.splits)
next
  assume "u \<le> now"
  then have "lookup_begin n now c = Ask f"
    using assms(1,2) by (auto simp: lookup_begin_ask held_def split: option.splits entry.splits)
  then have l: "lookup resolver n now c = lookup_end n now f (resolver n) c" by (simp add: lookup_def)
  have s: "u32_sat_add f 1 = Suc f" using assms(3) by (simp add: u32_sat_add_def u32_max_def)
  show "case resolver n of
         Inr d \<Rightarrow> fst (lookup resolver n now c) = Inr d \<and>
           (\<forall>resolver' now'. lookup resolver' n now' (snd (lookup resolver n now c)) = (Inr d, snd (lookup resolver n now c)))
       | Inl e \<Rightarrow> fst (lookup resolver n now c) = Inl e \<and>
           (if err_kind e = InvalidInput then snd (lookup resolver n now c) = c
            else held n (snd (lookup resolver n now c)) = (now + min (secs (30 * 2 ^ f)) (secs 1800), Suc f))"
  proof (cases "resolver n")
    case (Inl e)
    then show ?thesis using l s assms(1)
      by (auto simp: lookup_end_def Let_def negative_hold_Suc held_def map_of_cache_insert split: option.splits entry.splits)
  next
    case (Inr d)
    then show ?thesis unfolding l
      by (auto simp: lookup_end_def lookup_def lookup_begin_def map_of_cache_insert)
  qed
qed

theorem naming_backoff_witness:
  "fst (lookup (\<lambda>_. Inl (LookupError NotFound [])) (str ''a'') 5 cache_default) = Inl (LookupError NotFound []) \<and>
   held (str ''a'') (snd (lookup (\<lambda>_. Inl (LookupError NotFound [])) (str ''a'') 5 cache_default)) = (5 + secs 30, 1)"
proof -
  have h: "\<forall>d i. map_of (by_name cache_default) (str ''a'') \<noteq> Some (Hit d i)" "held (str ''a'') cache_default = (0, 0)"
    "0 < u32_max"
    by (simp_all add: cache_default_def held_def u32_max_def)
  from naming_backoff [OF h, of 5 "\<lambda>_. Inl (LookupError NotFound [])"] show ?thesis
    by (simp add: secs_def)
qed

end
