(* ===== verification/Config.thy ===== *)
theory Config
  imports Text
begin

text \<open>
  The daemon's configuration file (\<^verbatim>\<open>crates/clove-core/src/config.rs\<close>): \<^verbatim>\<open>key value\<close> lines into a draft,
  the draft into a validated configuration. Text is a list of characters; a path is its text. The
  environment is an argument, as in \<^verbatim>\<open>from_vars\<close>.
\<close>

subsection \<open>Paths, numbers and lines\<close>

text \<open>\<^verbatim>\<open>Path::is_absolute\<close> and \<^verbatim>\<open>PathBuf::join\<close> on Unix.\<close>

definition is_absolute :: "rstr \<Rightarrow> bool" where
  "is_absolute p \<longleftrightarrow> p \<noteq> [] \<and> hd p = 47"

definition path_join :: "rstr \<Rightarrow> rstr \<Rightarrow> rstr" where
  "path_join p q = (if is_absolute q then q else if p = [] \<or> last p = 47 then p @ q else p @ 47 # q)"

text \<open>\<^verbatim>\<open>str::parse\<close> for an unsigned integer type with the given maximum: an optional plus sign and digits.\<close>

definition ascii_digit :: "rchar \<Rightarrow> bool" where
  "ascii_digit c \<longleftrightarrow> 48 \<le> c \<and> c \<le> 57"

definition number_of :: "rstr \<Rightarrow> nat" where
  "number_of s = foldl (\<lambda>n c. n * 10 + (c - 48)) 0 s"

definition parse_unsigned :: "nat \<Rightarrow> rstr \<Rightarrow> nat option" where
  "parse_unsigned limit s =
     (let ds = (if s \<noteq> [] \<and> hd s = 43 then tl s else s) in
      if ds \<noteq> [] \<and> list_all ascii_digit ds \<and> number_of ds \<le> limit then Some (number_of ds) else None)"

text \<open>\<^verbatim>\<open>str::lines\<close>: a line ends with a line feed, which a carriage return may precede.\<close>

definition str_lines :: "rstr \<Rightarrow> rstr list" where
  "str_lines s =
     (let parts = split_on 10 s in
      map (\<lambda>l. if l \<noteq> [] \<and> last l = 13 then butlast l else l) (butlast parts) @
      (if last parts = [] then [] else [last parts]))"

definition split_once_ws :: "rstr \<Rightarrow> (rstr \<times> rstr) option" where
  "split_once_ws s =
     (case dropWhile (\<lambda>c. \<not> is_whitespace c) s of
        [] \<Rightarrow> None
      | _ # r \<Rightarrow> Some (takeWhile (\<lambda>c. \<not> is_whitespace c) s, r))"

subsection \<open>Defaults from the environment\<close>

definition DEFAULT_SAM_ADDRESS :: rstr where "DEFAULT_SAM_ADDRESS = str ''127.0.0.1:7656''"
definition DEFAULT_PEER_LIMIT :: nat where "DEFAULT_PEER_LIMIT = 200"
definition DEFAULT_TORRENT_PEER_LIMIT :: nat where "DEFAULT_TORRENT_PEER_LIMIT = 50"
definition MAX_SEED_RATIO_MILLI :: nat where "MAX_SEED_RATIO_MILLI = 1000000"
definition MAX_SEED_IDLE_MINUTES :: nat where "MAX_SEED_IDLE_MINUTES = 100000"
definition MAX_PEER_LIMIT :: nat where "MAX_PEER_LIMIT = 10000"

datatype sandbox_policy = BestEffort | Require

datatype problem = UnknownKey rstr | MissingValue | DuplicateKey | BadBool | BadSandboxPolicy | BadCount
  | BadRatio | BadSamAddress | RelativePath | UnsupportedSamTransport rstr

datatype config_error = NoHome | Line nat problem

record defaults =
  df_data_home :: rstr
  df_runtime_dir :: "rstr option"
  df_config_home :: rstr

definition env_nonempty :: "(string \<Rightarrow> rstr option) \<Rightarrow> string \<Rightarrow> rstr option" where
  "env_nonempty get key = (case get key of Some v \<Rightarrow> if v \<noteq> [] then Some v else None | None \<Rightarrow> None)"

definition env_xdg :: "(string \<Rightarrow> rstr option) \<Rightarrow> string \<Rightarrow> rstr option" where
  "env_xdg get key = (case env_nonempty get key of Some v \<Rightarrow> if is_absolute v then Some v else None | None \<Rightarrow> None)"

definition env_home :: "(string \<Rightarrow> rstr option) \<Rightarrow> string \<Rightarrow> rstr \<Rightarrow> config_error + rstr" where
  "env_home get key sub =
     (case env_xdg get key of
        Some dir \<Rightarrow> Inr dir
      | None \<Rightarrow> (case env_nonempty get ''HOME'' of Some h \<Rightarrow> Inr (path_join h sub) | None \<Rightarrow> Inl NoHome))"

definition from_vars :: "(string \<Rightarrow> rstr option) \<Rightarrow> config_error + defaults" where
  "from_vars get =
     bindE (env_home get ''XDG_DATA_HOME'' (str ''.local/share'')) (\<lambda>data_home.
     let runtime_dir = env_xdg get ''XDG_RUNTIME_DIR'' in
     bindE (env_home get ''XDG_CONFIG_HOME'' (str ''.config'')) (\<lambda>config_home.
     Inr \<lparr>df_data_home = data_home, df_runtime_dir = runtime_dir, df_config_home = config_home\<rparr>))"

definition config_path :: "defaults \<Rightarrow> rstr" where
  "config_path d = path_join (df_config_home d) (str ''clove/clove.conf'')"

subsection \<open>Messages\<close>

fun problem_text :: "problem \<Rightarrow> rstr" where
  "problem_text (UnknownKey key) = str ''unknown key '' @ [34] @ key @ [34]"
| "problem_text MissingValue = str ''key has no value''"
| "problem_text DuplicateKey = str ''key already set earlier in the file''"
| "problem_text BadBool = str ''expected '' @ [34] @ str ''yes'' @ [34] @ str '' or '' @ [34] @ str ''no'' @ [34]"
| "problem_text BadSandboxPolicy =
     str ''expected '' @ [34] @ str ''best-effort'' @ [34] @ str '' or '' @ [34] @ str ''require'' @ [34]"
| "problem_text BadCount = str ''expected a number from 1 to '' @ chars (dec_digits MAX_PEER_LIMIT)"
| "problem_text BadRatio =
     str ''expected a ratio like 2 or 1.75, from 0 (unlimited) to '' @ chars (dec_digits (MAX_SEED_RATIO_MILLI div 1000))"
| "problem_text BadSamAddress = str ''sam_address must be host:port or an absolute socket path''"
| "problem_text (UnsupportedSamTransport what) =
     str ''sam_address: '' @ what @ str '' (this build dials 127.0.0.1 only; see clove.conf(5))''"
| "problem_text RelativePath = str ''path must be absolute''"

fun error_text :: "config_error \<Rightarrow> rstr" where
  "error_text NoHome = str ''config: neither XDG_DATA_HOME nor HOME is set; set one or use data_dir''"
| "error_text (Line line problem) = str ''config: line '' @ chars (dec_digits line) @ str '': '' @ problem_text problem"

subsection \<open>The value of a key\<close>

definition parse_seed_ratio :: "rstr \<Rightarrow> nat option" where
  "parse_seed_ratio value =
     (case (case split_once 46 value of Some (w, f) \<Rightarrow> (w, f) | None \<Rightarrow> (value, [])) of
        (whole, frac) \<Rightarrow>
          if whole = [] \<and> frac = [] then None
          else if \<not> list_all ascii_digit whole \<or> \<not> list_all ascii_digit frac then None
          else if length frac > 3 then None
          else
            Option.bind (if whole = [] then Some 0 else parse_unsigned u64_max whole) (\<lambda>w.
              let digit = (\<lambda>i. if i < length frac then frac ! i - 48 else 0);
                  milli = foldl (\<lambda>m i. m * 10 + digit i) 0 [0..<3] in
              Option.bind (checked_u64 (w * 1000)) (\<lambda>t.
              Option.bind (checked_u64 (t + milli)) (\<lambda>total.
                if total \<le> MAX_SEED_RATIO_MILLI then Some total else None))))"

definition parse_count :: "rstr \<Rightarrow> nat option" where
  "parse_count value =
     (case parse_unsigned usize_max value of
        Some n \<Rightarrow> if 1 \<le> n \<and> n \<le> MAX_PEER_LIMIT then Some n else None
      | None \<Rightarrow> None)"

definition parse_idle_minutes :: "rstr \<Rightarrow> nat option" where
  "parse_idle_minutes value =
     (case parse_unsigned u64_max value of
        Some n \<Rightarrow> if n \<le> MAX_SEED_IDLE_MINUTES then Some n else None
      | None \<Rightarrow> None)"

definition parse_bool :: "rstr \<Rightarrow> bool option" where
  "parse_bool value = (if value = str ''yes'' then Some True else if value = str ''no'' then Some False else None)"

definition parse_policy :: "rstr \<Rightarrow> sandbox_policy option" where
  "parse_policy value =
     (if value = str ''best-effort'' then Some BestEffort else if value = str ''require'' then Some Require else None)"

definition absolute :: "rstr \<Rightarrow> nat \<Rightarrow> config_error + rstr" where
  "absolute value line = (if is_absolute value then Inr value else Inl (Line line RelativePath))"

definition looks_like_sam_address :: "rstr \<Rightarrow> bool" where
  "looks_like_sam_address value \<longleftrightarrow>
     is_absolute value \<or>
     (case rsplit_once 58 value of
        Some (host, port) \<Rightarrow>
          host \<noteq> [] \<and>
          (case parse_unsigned 65535 port of Some p \<Rightarrow> p \<noteq> 0 \<and> \<not> (port \<noteq> [] \<and> hd port = 43) | None \<Rightarrow> False)
      | None \<Rightarrow> False)"

definition is_loopback_sam :: "rstr \<Rightarrow> bool" where
  "is_loopback_sam value \<longleftrightarrow>
     is_absolute value \<or>
     (case rsplit_once 58 value of
        Some (host, _) \<Rightarrow> host = str ''127.0.0.1'' \<or> host = str ''localhost'' \<or> host = str ''[::1]''
      | None \<Rightarrow> False)"

definition unsupported_sam_transport :: "rstr \<Rightarrow> rstr option" where
  "unsupported_sam_transport value =
     (if is_absolute value then Some (str ''a unix-socket SAM address is not supported; use host:port'')
      else if \<not> is_loopback_sam value then Some (str ''a remote SAM bridge is not supported'')
      else None)"

subsection \<open>The draft\<close>

record draft =
  dr_sam_address :: "(nat \<times> rstr) option"
  dr_data_dir :: "(nat \<times> rstr) option"
  dr_api_socket :: "(nat \<times> rstr) option"
  dr_ephemeral :: "(nat \<times> bool) option"
  dr_preallocate :: "(nat \<times> bool) option"
  dr_peer_limit :: "(nat \<times> nat) option"
  dr_torrent_peer_limit :: "(nat \<times> nat) option"
  dr_seed_ratio_milli :: "(nat \<times> nat) option"
  dr_seed_idle_minutes :: "(nat \<times> nat) option"
  dr_sandbox :: "(nat \<times> sandbox_policy) option"

definition draft_default :: draft where
  "draft_default =
     \<lparr>dr_sam_address = None, dr_data_dir = None, dr_api_socket = None, dr_ephemeral = None, dr_preallocate = None,
      dr_peer_limit = None, dr_torrent_peer_limit = None, dr_seed_ratio_milli = None, dr_seed_idle_minutes = None,
      dr_sandbox = None\<rparr>"

definition set_slot :: "(nat \<times> 'a) option \<Rightarrow> nat \<Rightarrow> 'a \<Rightarrow> config_error + (nat \<times> 'a) option" where
  "set_slot slot line v = (case slot of Some _ \<Rightarrow> Inl (Line line DuplicateKey) | None \<Rightarrow> Inr (Some (line, v)))"

definition accept :: "nat \<Rightarrow> rstr \<Rightarrow> rstr \<Rightarrow> draft \<Rightarrow> config_error + draft" where
  "accept line key value d =
     (let at = Line line in
      if key = str ''sam_address'' then
        (if \<not> looks_like_sam_address value then Inl (at BadSamAddress)
         else bindE (set_slot (dr_sam_address d) line value) (\<lambda>s. Inr (d\<lparr>dr_sam_address := s\<rparr>)))
      else if key = str ''data_dir'' then
        bindE (absolute value line) (\<lambda>p. bindE (set_slot (dr_data_dir d) line p) (\<lambda>s. Inr (d\<lparr>dr_data_dir := s\<rparr>)))
      else if key = str ''api_socket'' then
        bindE (absolute value line) (\<lambda>p. bindE (set_slot (dr_api_socket d) line p) (\<lambda>s. Inr (d\<lparr>dr_api_socket := s\<rparr>)))
      else if key = str ''ephemeral'' then
        bindE (ok_or (at BadBool) (parse_bool value)) (\<lambda>b. bindE (set_slot (dr_ephemeral d) line b) (\<lambda>s. Inr (d\<lparr>dr_ephemeral := s\<rparr>)))
      else if key = str ''preallocate'' then
        bindE (ok_or (at BadBool) (parse_bool value)) (\<lambda>b. bindE (set_slot (dr_preallocate d) line b) (\<lambda>s. Inr (d\<lparr>dr_preallocate := s\<rparr>)))
      else if key = str ''peer_limit'' then
        bindE (ok_or (at BadCount) (parse_count value)) (\<lambda>n. bindE (set_slot (dr_peer_limit d) line n) (\<lambda>s. Inr (d\<lparr>dr_peer_limit := s\<rparr>)))
      else if key = str ''torrent_peer_limit'' then
        bindE (ok_or (at BadCount) (parse_count value)) (\<lambda>n. bindE (set_slot (dr_torrent_peer_limit d) line n) (\<lambda>s. Inr (d\<lparr>dr_torrent_peer_limit := s\<rparr>)))
      else if key = str ''seed_ratio'' then
        bindE (ok_or (at BadRatio) (parse_seed_ratio value)) (\<lambda>n. bindE (set_slot (dr_seed_ratio_milli d) line n) (\<lambda>s. Inr (d\<lparr>dr_seed_ratio_milli := s\<rparr>)))
      else if key = str ''sandbox'' then
        bindE (ok_or (at BadSandboxPolicy) (parse_policy value)) (\<lambda>p. bindE (set_slot (dr_sandbox d) line p) (\<lambda>s. Inr (d\<lparr>dr_sandbox := s\<rparr>)))
      else if key = str ''seed_idle_minutes'' then
        bindE (ok_or (at BadCount) (parse_idle_minutes value)) (\<lambda>n. bindE (set_slot (dr_seed_idle_minutes d) line n) (\<lambda>s. Inr (d\<lparr>dr_seed_idle_minutes := s\<rparr>)))
      else Inl (at (UnknownKey key)))"

subsection \<open>Parsing\<close>

record config =
  cf_sam_address :: rstr
  cf_data_dir :: rstr
  cf_api_socket :: rstr
  cf_ephemeral :: bool
  cf_preallocate :: bool
  cf_peer_limit :: nat
  cf_torrent_peer_limit :: nat
  cf_seed_ratio_milli :: nat
  cf_seed_idle_minutes :: nat
  cf_sandbox :: sandbox_policy

fun read_lines :: "nat \<Rightarrow> rstr list \<Rightarrow> draft \<Rightarrow> config_error + draft" where
  "read_lines index [] d = Inr d"
| "read_lines index (raw # raws) d =
     (let line = index + 1; trimmed = trim raw in
      if trimmed = [] \<or> hd trimmed = 35 then read_lines (index + 1) raws d
      else
        (case split_once_ws trimmed of
           Some (k, v) \<Rightarrow>
             if trim v \<noteq> [] then bindE (accept line k (trim v) d) (read_lines (index + 1) raws)
             else Inl (Line line MissingValue)
         | None \<Rightarrow> Inl (Line line MissingValue)))"

definition map_or :: "'b \<Rightarrow> (nat \<times> 'a) option \<Rightarrow> ('a \<Rightarrow> 'b) \<Rightarrow> 'b" where
  "map_or b x f = (case x of Some (_, v) \<Rightarrow> f v | None \<Rightarrow> b)"

definition finish_draft :: "defaults \<Rightarrow> draft \<Rightarrow> config_error + config" where
  "finish_draft df d =
     (case (case dr_sam_address d of Some p \<Rightarrow> p | None \<Rightarrow> (0, DEFAULT_SAM_ADDRESS)) of
        (sam_line, sam_address) \<Rightarrow>
          (case unsupported_sam_transport sam_address of
             Some what \<Rightarrow> Inl (Line sam_line (UnsupportedSamTransport what))
           | None \<Rightarrow>
               (let data_dir = map_or (path_join (df_data_home df) (str ''clove'')) (dr_data_dir d) (\<lambda>v. v);
                    api_socket = map_or (case df_runtime_dir df of
                        None \<Rightarrow> path_join data_dir (str ''clove.sock'')
                      | Some dir \<Rightarrow> path_join dir (str ''clove.sock'')) (dr_api_socket d) (\<lambda>v. v)
                in Inr \<lparr>cf_sam_address = sam_address, cf_data_dir = data_dir, cf_api_socket = api_socket,
                        cf_ephemeral = map_or False (dr_ephemeral d) (\<lambda>v. v),
                        cf_preallocate = map_or False (dr_preallocate d) (\<lambda>v. v),
                        cf_peer_limit = map_or DEFAULT_PEER_LIMIT (dr_peer_limit d) (\<lambda>v. v),
                        cf_torrent_peer_limit = map_or DEFAULT_TORRENT_PEER_LIMIT (dr_torrent_peer_limit d) (\<lambda>v. v),
                        cf_seed_ratio_milli = map_or 0 (dr_seed_ratio_milli d) (\<lambda>v. v),
                        cf_seed_idle_minutes = map_or 0 (dr_seed_idle_minutes d) (\<lambda>v. v),
                        cf_sandbox = map_or BestEffort (dr_sandbox d) (\<lambda>v. v)\<rparr>)))"

definition config_parse :: "rstr \<Rightarrow> defaults \<Rightarrow> config_error + config" where
  "config_parse t df = bindE (read_lines 0 (str_lines t) draft_default) (finish_draft df)"

subsection \<open>The configuration as a set of settings\<close>

text \<open>A reference reading of the file: each line is nothing, malformed, or a setting; the settings
  must be valid and have different keys; the configuration is a function of the key-value map.\<close>

definition line_entry :: "rstr \<Rightarrow> (rstr \<times> rstr) option option" where
  "line_entry raw =
     (let t = trim raw in
      if t = [] \<or> hd t = 35 then None
      else Some (case split_once_ws t of
             Some (k, v) \<Rightarrow> if trim v \<noteq> [] then Some (k, trim v) else None
           | None \<Rightarrow> None))"

definition line_entries :: "rstr list \<Rightarrow> (rstr \<times> rstr) option list" where
  "line_entries raws = List.map_filter line_entry raws"

definition valid_setting :: "rstr \<Rightarrow> rstr \<Rightarrow> bool" where
  "valid_setting k v \<longleftrightarrow>
     (k = str ''sam_address'' \<and> looks_like_sam_address v) \<or>
     ((k = str ''data_dir'' \<or> k = str ''api_socket'') \<and> is_absolute v) \<or>
     ((k = str ''ephemeral'' \<or> k = str ''preallocate'') \<and> parse_bool v \<noteq> None) \<or>
     ((k = str ''peer_limit'' \<or> k = str ''torrent_peer_limit'') \<and> parse_count v \<noteq> None) \<or>
     (k = str ''seed_ratio'' \<and> parse_seed_ratio v \<noteq> None) \<or>
     (k = str ''sandbox'' \<and> parse_policy v \<noteq> None) \<or>
     (k = str ''seed_idle_minutes'' \<and> parse_idle_minutes v \<noteq> None)"

definition setting :: "(rstr \<rightharpoonup> rstr) \<Rightarrow> string \<Rightarrow> (rstr \<Rightarrow> 'a option) \<Rightarrow> 'a \<Rightarrow> 'a" where
  "setting m key parse absent = (case m (str key) of Some v \<Rightarrow> the (parse v) | None \<Rightarrow> absent)"

definition config_of :: "defaults \<Rightarrow> (rstr \<rightharpoonup> rstr) \<Rightarrow> config" where
  "config_of df m =
     (let data_dir = setting m ''data_dir'' Some (path_join (df_data_home df) (str ''clove''));
          run_dir = (case df_runtime_dir df of None \<Rightarrow> data_dir | Some dir \<Rightarrow> dir)
      in \<lparr>cf_sam_address = setting m ''sam_address'' Some DEFAULT_SAM_ADDRESS, cf_data_dir = data_dir,
          cf_api_socket = setting m ''api_socket'' Some (path_join run_dir (str ''clove.sock'')),
          cf_ephemeral = setting m ''ephemeral'' parse_bool False,
          cf_preallocate = setting m ''preallocate'' parse_bool False,
          cf_peer_limit = setting m ''peer_limit'' parse_count DEFAULT_PEER_LIMIT,
          cf_torrent_peer_limit = setting m ''torrent_peer_limit'' parse_count DEFAULT_TORRENT_PEER_LIMIT,
          cf_seed_ratio_milli = setting m ''seed_ratio'' parse_seed_ratio 0,
          cf_seed_idle_minutes = setting m ''seed_idle_minutes'' parse_idle_minutes 0,
          cf_sandbox = setting m ''sandbox'' parse_policy BestEffort\<rparr>)"

fun gather :: "(rstr \<rightharpoonup> rstr) \<Rightarrow> (rstr \<times> rstr) option list \<Rightarrow> (rstr \<rightharpoonup> rstr) option" where
  "gather m [] = Some m"
| "gather m (None # es) = None"
| "gather m (Some (k, v) # es) = (if valid_setting k v \<and> m k = None then gather (m(k \<mapsto> v)) es else None)"

lemma str_inj [simp]: "str a = str b \<longleftrightarrow> a = b"
  by (simp add: str_def inj_map_eq_map inj_def)

definition draft_rel :: "draft \<Rightarrow> (rstr \<rightharpoonup> rstr) \<Rightarrow> bool" where
  "draft_rel d m \<longleftrightarrow>
     map_option snd (dr_sam_address d) = m (str ''sam_address'') \<and>
     map_option snd (dr_data_dir d) = m (str ''data_dir'') \<and>
     map_option snd (dr_api_socket d) = m (str ''api_socket'') \<and>
     map_option snd (dr_ephemeral d) = map_option (\<lambda>v. the (parse_bool v)) (m (str ''ephemeral'')) \<and>
     map_option snd (dr_preallocate d) = map_option (\<lambda>v. the (parse_bool v)) (m (str ''preallocate'')) \<and>
     map_option snd (dr_peer_limit d) = map_option (\<lambda>v. the (parse_count v)) (m (str ''peer_limit'')) \<and>
     map_option snd (dr_torrent_peer_limit d) = map_option (\<lambda>v. the (parse_count v)) (m (str ''torrent_peer_limit'')) \<and>
     map_option snd (dr_seed_ratio_milli d) = map_option (\<lambda>v. the (parse_seed_ratio v)) (m (str ''seed_ratio'')) \<and>
     map_option snd (dr_seed_idle_minutes d) = map_option (\<lambda>v. the (parse_idle_minutes v)) (m (str ''seed_idle_minutes'')) \<and>
     map_option snd (dr_sandbox d) = map_option (\<lambda>v. the (parse_policy v)) (m (str ''sandbox''))"

lemma draft_rel_default: "draft_rel draft_default Map.empty"
  by (simp add: draft_rel_def draft_default_def)

lemma set_slot_Inr: "set_slot slot line v = Inr s \<longleftrightarrow> slot = None \<and> s = Some (line, v)"
  by (auto simp: set_slot_def split: option.splits)

definition config_keys :: "rstr list" where
  "config_keys = map str [''sam_address'', ''data_dir'', ''api_socket'', ''ephemeral'', ''preallocate'', ''peer_limit'',
     ''torrent_peer_limit'', ''seed_ratio'', ''sandbox'', ''seed_idle_minutes'']"

lemma accept_unknown: "k \<notin> set config_keys \<Longrightarrow> accept line k v d = Inl (Line line (UnknownKey k))"
  by (simp add: accept_def config_keys_def)

lemma known_key: "k \<in> set config_keys \<Longrightarrow>
  k = str ''sam_address'' \<or> k = str ''data_dir'' \<or> k = str ''api_socket'' \<or> k = str ''ephemeral'' \<or> k = str ''preallocate'' \<or>
  k = str ''peer_limit'' \<or> k = str ''torrent_peer_limit'' \<or> k = str ''seed_ratio'' \<or> k = str ''sandbox'' \<or> k = str ''seed_idle_minutes''"
  by (simp add: config_keys_def)

lemmas accept_simps = accept_def Let_def bindE_Inr set_slot_Inr absolute_def

lemma accept_Inr:
  assumes "draft_rel d m" "accept line k v d = Inr d'"
  shows "valid_setting k v \<and> m k = None \<and> draft_rel d' (m(k \<mapsto> v))"
proof -
  have "k \<in> set config_keys" using assms(2) accept_unknown by (metis Inl_Inr_False)
  from known_key [OF this] assms show ?thesis
    by (elim disjE) (auto simp: accept_simps draft_rel_def valid_setting_def split: if_splits)
qed

lemma accept_total:
  assumes "draft_rel d m" "valid_setting k v" "m k = None"
  shows "\<exists>d'. accept line k v d = Inr d'"
proof -
  have "k \<in> set config_keys" using assms(2) by (auto simp: valid_setting_def config_keys_def)
  from known_key [OF this] assms show ?thesis
    by (elim disjE) (auto simp: accept_def set_slot_def absolute_def draft_rel_def valid_setting_def)
qed

lemma line_entries_Nil [simp]: "line_entries [] = []"
  by (simp add: line_entries_def List.map_filter_def)

lemma line_entries_Cons:
  "line_entries (raw # raws) = (case line_entry raw of None \<Rightarrow> line_entries raws | Some e \<Rightarrow> e # line_entries raws)"
  by (simp add: line_entries_def List.map_filter_def split: option.split)

text \<open>One line: it is passed over, recorded, or the error is at its number.\<close>

lemma read_lines_Cons:
  "read_lines index (raw # raws) d =
     (case line_entry raw of
        None \<Rightarrow> read_lines (index + 1) raws d
      | Some None \<Rightarrow> Inl (Line (index + 1) MissingValue)
      | Some (Some (k, v)) \<Rightarrow> bindE (accept (index + 1) k v d) (read_lines (index + 1) raws))"
  by (simp add: line_entry_def Let_def split: option.split)

declare read_lines.simps(2) [simp del]

lemma accept_Inl: "accept line k v d = Inl e \<Longrightarrow> \<exists>p. e = Line line p"
proof -
  assume a: "accept line k v d = Inl e"
  show ?thesis
  proof (cases "k \<in> set config_keys")
    case True
    from known_key [OF this] a show ?thesis
      by (elim disjE) (auto simp: accept_def set_slot_def absolute_def ok_or_def split: if_splits option.splits)
  qed (use a in \<open>auto simp: accept_unknown\<close>)
qed

definition located :: "nat \<Rightarrow> rstr list \<Rightarrow> (rstr \<rightharpoonup> rstr) \<Rightarrow> nat \<Rightarrow> bool" where
  "located index raws m n \<longleftrightarrow> index < n \<and> n \<le> index + length raws \<and>
     gather m (line_entries (take (n - index - 1) raws)) \<noteq> None \<and> gather m (line_entries (take (n - index) raws)) = None"

lemma located_here:
  "gather m (line_entries [raw]) = None \<Longrightarrow> located index (raw # raws) m (Suc index)"
  by (simp add: located_def)

lemma located_there:
  assumes "located (Suc index) raws m' n"
    "\<And>es. gather m (line_entries (raw # es)) = gather m' (line_entries es)"
  shows "located index (raw # raws) m n"
proof -
  have "n - index = Suc (n - Suc index)" "n - index - 1 = Suc (n - Suc index - 1)"
    using assms(1) by (auto simp: located_def)
  then show ?thesis using assms(1) by (auto simp: located_def assms(2))
qed

lemma read_lines_gather:
  assumes "draft_rel d m"
  shows "case gather m (line_entries raws) of
      Some m' \<Rightarrow> (\<exists>d'. read_lines index raws d = Inr d' \<and> draft_rel d' m')
    | None \<Rightarrow> (\<exists>n p. read_lines index raws d = Inl (Line n p) \<and> located index raws m n)"
  using assms
proof (induction raws arbitrary: index d m)
  case (Cons raw raws)
  note lines = line_entries_Cons [of raw] read_lines_Cons [of index raw raws d]
  show ?case
  proof (cases "line_entry raw")
    case None
    then show ?thesis using Cons.IH [OF Cons.prems, of "Suc index"] located_there [of index raws m _ m raw]
      by (auto simp: lines split: option.splits)
  next
    case (Some e)
    show ?thesis
    proof (cases e)
      case None
      then show ?thesis using Some located_here [of m raw index raws] by (simp add: lines)
    next
      case e: (Some kv)
      obtain k v where kv: "kv = (k, v)" by (cases kv)
      show ?thesis
      proof (cases "valid_setting k v \<and> m k = None")
        case True
        then obtain d' where d': "accept (Suc index) k v d = Inr d'" using accept_total [OF Cons.prems] by blast
        then have "draft_rel d' (m(k \<mapsto> v))" using accept_Inr [OF Cons.prems] by blast
        note ih = Cons.IH [OF this, of "Suc index"]
        define m' where "m' = m(k \<mapsto> v)"
        have g: "gather m (line_entries (raw # es)) = gather m' (line_entries es)" for es
          using True Some e kv by (simp add: line_entries_Cons m'_def)
        have "read_lines index (raw # raws) d = read_lines (Suc index) raws d'" using Some e kv d' by (simp add: lines)
        then show ?thesis using ih located_there [of index raws m' _ m raw, OF _ g]
          by (auto simp: g simp flip: m'_def split: option.splits)
      next
        case False
        then obtain err where err: "accept (Suc index) k v d = Inl err"
          using accept_Inr [OF Cons.prems] by (cases "accept (Suc index) k v d") auto
        from accept_Inl [OF this] obtain p where "err = Line (Suc index) p" by blast
        then show ?thesis using False Some e kv err located_here [of m raw index raws] by (auto simp: lines)
      qed
    qed
  qed
qed simp

definition settled :: "(rstr \<rightharpoonup> rstr) \<Rightarrow> (rstr \<times> rstr) list \<Rightarrow> bool" where
  "settled m kvs \<longleftrightarrow> distinct (map fst kvs) \<and> (\<forall>(k, v) \<in> set kvs. valid_setting k v \<and> m k = None)"

lemma settled_Cons: "settled m ((k, v) # kvs) \<longleftrightarrow> valid_setting k v \<and> m k = None \<and> settled (m(k \<mapsto> v)) kvs"
  unfolding settled_def by (force split: if_splits)

lemma map_add_Cons: "settled (m(k \<mapsto> v)) kvs \<Longrightarrow> m ++ map_of ((k, v) # kvs) = m(k \<mapsto> v) ++ map_of kvs"
proof -
  assume "settled (m(k \<mapsto> v)) kvs"
  then have "map_of kvs k = None" by (force simp: settled_def map_of_eq_None_iff)
  then show ?thesis by (auto simp: map_add_def fun_eq_iff split: option.split)
qed

lemma map_Some_Cons: "(\<exists>kvs. Some x # es = map Some kvs \<and> P kvs) \<longleftrightarrow> (\<exists>kvs. es = map Some kvs \<and> P (x # kvs))"
  by (auto simp: Cons_eq_map_conv)

lemma gather_iff: "gather m es = Some m' \<longleftrightarrow> (\<exists>kvs. es = map Some kvs \<and> settled m kvs \<and> m' = m ++ map_of kvs)"
proof (induction m es rule: gather.induct)
  case (1 m)
  then show ?case by (auto simp: settled_def)
next
  case (3 m k v es)
  show ?case
  proof (cases "valid_setting k v \<and> m k = None")
    case True
    then have "gather m (Some (k, v) # es) = Some m' \<longleftrightarrow>
        (\<exists>kvs. es = map Some kvs \<and> settled (m(k \<mapsto> v)) kvs \<and> m' = m(k \<mapsto> v) ++ map_of kvs)"
      using 3 by (simp add: fun_upd_def)
    moreover have "settled m ((k, v) # kvs) \<and> m' = m ++ map_of ((k, v) # kvs) \<longleftrightarrow>
        settled (m(k \<mapsto> v)) kvs \<and> m' = m(k \<mapsto> v) ++ map_of kvs" for kvs
      using True map_add_Cons [of m k v kvs] settled_Cons [of m k v kvs] by argo
    ultimately show ?thesis unfolding map_Some_Cons by (simp only:)
  qed (auto simp: Cons_eq_map_conv settled_Cons)
qed auto

lemma map_or_setting: "map_option snd x = map_option (\<lambda>v. the (parse v)) (m (str key)) \<Longrightarrow> map_or b x (\<lambda>v. v) = setting m key parse b"
  by (cases x; cases "m (str key)") (auto simp: map_or_def setting_def)

lemma map_or_setting_id: "map_option snd x = m (str key) \<Longrightarrow> map_or b x (\<lambda>v. v) = setting m key Some b"
  by (cases x; cases "m (str key)") (auto simp: map_or_def setting_def)

lemma finish_draft_rel:
  assumes "draft_rel d m"
  shows "finish_draft df d =
    (case unsupported_sam_transport (setting m ''sam_address'' Some DEFAULT_SAM_ADDRESS) of
       Some what \<Rightarrow> Inl (Line (case dr_sam_address d of Some (n, _) \<Rightarrow> n | None \<Rightarrow> 0) (UnsupportedSamTransport what))
     | None \<Rightarrow> Inr (config_of df m))"
proof -
  obtain n a where a: "(case dr_sam_address d of Some p \<Rightarrow> p | None \<Rightarrow> (0, DEFAULT_SAM_ADDRESS)) = (n, a)" by fastforce
  then have "a = setting m ''sam_address'' Some DEFAULT_SAM_ADDRESS" "n = (case dr_sam_address d of Some (n, _) \<Rightarrow> n | None \<Rightarrow> 0)"
    using assms by (auto simp: draft_rel_def setting_def split: option.splits)
  moreover have "map_or b (dr_data_dir d) (\<lambda>v. v) = setting m ''data_dir'' Some b" "map_or b (dr_api_socket d) (\<lambda>v. v) = setting m ''api_socket'' Some b"
    "map_or c (dr_ephemeral d) (\<lambda>v. v) = setting m ''ephemeral'' parse_bool c" "map_or c (dr_preallocate d) (\<lambda>v. v) = setting m ''preallocate'' parse_bool c"
    "map_or n (dr_peer_limit d) (\<lambda>v. v) = setting m ''peer_limit'' parse_count n"
    "map_or n (dr_torrent_peer_limit d) (\<lambda>v. v) = setting m ''torrent_peer_limit'' parse_count n"
    "map_or n (dr_seed_ratio_milli d) (\<lambda>v. v) = setting m ''seed_ratio'' parse_seed_ratio n"
    "map_or n (dr_seed_idle_minutes d) (\<lambda>v. v) = setting m ''seed_idle_minutes'' parse_idle_minutes n"
    "map_or p (dr_sandbox d) (\<lambda>v. v) = setting m ''sandbox'' parse_policy p" for b c n p
    using assms unfolding draft_rel_def by - (elim conjE, rule map_or_setting_id map_or_setting, assumption)+
  ultimately show ?thesis using a
    by (auto simp: finish_draft_def config_of_def Let_def split: option.split)
qed

lemma config_parse_gather:
  "config_parse t df = Inr c \<longleftrightarrow>
     (\<exists>m. gather Map.empty (line_entries (str_lines t)) = Some m \<and>
        unsupported_sam_transport (cf_sam_address (config_of df m)) = None \<and> c = config_of df m)"
proof (cases "gather Map.empty (line_entries (str_lines t))")
  case None
  then obtain e where "read_lines 0 (str_lines t) draft_default = Inl e"
    using read_lines_gather [OF draft_rel_default, where raws = "str_lines t" and index = 0] by auto
  then show ?thesis using None by (simp add: config_parse_def)
next
  case (Some m)
  then obtain d where d: "read_lines 0 (str_lines t) draft_default = Inr d" "draft_rel d m"
    using read_lines_gather [OF draft_rel_default, where raws = "str_lines t" and index = 0] by auto
  have "cf_sam_address (config_of df m) = setting m ''sam_address'' Some DEFAULT_SAM_ADDRESS"
    by (simp add: config_of_def Let_def)
  then show ?thesis using Some d finish_draft_rel [OF d(2), of df]
    by (auto simp: config_parse_def split: option.splits)
qed

subsection \<open>Properties\<close>

text \<open>C13. The parser accepts exactly the files whose lines are blank, comments or settings, with valid values, no key
  twice and a SAM address this build can dial; and the configuration is a function of the settings as a map from keys to
  values, with the documented defaults, whatever their order and spacing.\<close>

theorem config_parse_exact:
  "config_parse t df = Inr c \<longleftrightarrow>
     (\<exists>kvs. line_entries (str_lines t) = map Some kvs \<and> distinct (map fst kvs) \<and> list_all (\<lambda>(k, v). valid_setting k v) kvs \<and>
        unsupported_sam_transport (cf_sam_address (config_of df (map_of kvs))) = None \<and> c = config_of df (map_of kvs))"
  by (auto simp: config_parse_gather gather_iff settled_def list_all_iff)

lemma accept_sam: "accept line k v d = Inr d' \<Longrightarrow> dr_sam_address d' = (if k = str ''sam_address'' then Some (line, v) else dr_sam_address d)"
proof -
  assume a: "accept line k v d = Inr d'"
  then have "k \<in> set config_keys" using accept_unknown by (metis Inl_Inr_False)
  from known_key [OF this] a show ?thesis by (elim disjE) (auto simp: accept_simps split: if_splits)
qed

lemma sam_line:
  "read_lines index raws d = Inr d' \<Longrightarrow> dr_sam_address d' = Some (n, a) \<Longrightarrow>
    dr_sam_address d = Some (n, a) \<or>
    (index < n \<and> n \<le> index + length raws \<and> line_entry (raws ! (n - index - 1)) = Some (Some (str ''sam_address'', a)))"
proof (induction raws arbitrary: index d)
  case (Cons raw raws)
  have there: "index < n \<and> n \<le> index + length (raw # raws) \<and> line_entry ((raw # raws) ! (n - index - 1)) = Some (Some (str ''sam_address'', a))"
    if "Suc index < n \<and> n \<le> Suc index + length raws \<and> line_entry (raws ! (n - Suc index - 1)) = Some (Some (str ''sam_address'', a))"
    using that by (auto simp: nth_Cons')
  show ?case
  proof (cases "line_entry raw")
    case None
    then have "read_lines (Suc index) raws d = Inr d'" using Cons.prems(1) by (simp add: read_lines_Cons)
    from Cons.IH [OF this Cons.prems(2)] show ?thesis using there by blast
  next
    case (Some e)
    then obtain k v where e: "e = Some (k, v)" using Cons.prems(1) by (cases e) (auto simp: read_lines_Cons)
    then obtain d1 where d1: "accept (Suc index) k v d = Inr d1" "read_lines (Suc index) raws d1 = Inr d'"
      using Some Cons.prems(1) by (auto simp: read_lines_Cons bindE_Inr)
    from Cons.IH [OF d1(2) Cons.prems(2)] show ?thesis
      using there accept_sam [OF d1(1)] Some e by (auto split: if_splits)
  qed
qed simp

lemma default_supported: "unsupported_sam_transport DEFAULT_SAM_ADDRESS = None"
  by code_simp

text \<open>A refused file is refused at a line that is there: either the first line that cannot be taken, all those before it
  making a valid file, or the line whose SAM address this build cannot dial.\<close>

theorem config_error_located:
  assumes "config_parse t df = Inl e"
  shows "\<exists>n p. e = Line n p \<and> 0 < n \<and> n \<le> length (str_lines t) \<and>
    ((gather Map.empty (line_entries (take (n - 1) (str_lines t))) \<noteq> None \<and>
      gather Map.empty (line_entries (take n (str_lines t))) = None) \<or>
     (\<exists>a what. line_entry (str_lines t ! (n - 1)) = Some (Some (str ''sam_address'', a)) \<and>
        unsupported_sam_transport a = Some what \<and> p = UnsupportedSamTransport what))"
proof (cases "gather Map.empty (line_entries (str_lines t))")
  case None
  then obtain n p where "read_lines 0 (str_lines t) draft_default = Inl (Line n p)" "located 0 (str_lines t) Map.empty n"
    using read_lines_gather [OF draft_rel_default, where raws = "str_lines t" and index = 0] by auto
  then show ?thesis using assms by (auto simp: config_parse_def located_def)
next
  case (Some m)
  then obtain d where d: "read_lines 0 (str_lines t) draft_default = Inr d" "draft_rel d m"
    using read_lines_gather [OF draft_rel_default, where raws = "str_lines t" and index = 0] by auto
  then have f: "finish_draft df d = Inl e" using assms by (simp add: config_parse_def)
  obtain n a where a: "dr_sam_address d = Some (n, a)"
    using f d(2) default_supported
    by (cases "dr_sam_address d") (auto simp: finish_draft_rel [OF d(2)] setting_def draft_rel_def)
  then have "setting m ''sam_address'' Some DEFAULT_SAM_ADDRESS = a" using d(2) by (auto simp: draft_rel_def setting_def split: option.splits)
  then obtain what where "unsupported_sam_transport a = Some what" "e = Line n (UnsupportedSamTransport what)"
    using f a by (auto simp: finish_draft_rel [OF d(2)] split: option.splits)
  then show ?thesis using sam_line [OF d(1) a] by (auto simp: draft_default_def)
qed

definition sample_defaults :: defaults where
  "sample_defaults = \<lparr>df_data_home = str ''/d'', df_runtime_dir = None, df_config_home = str ''/c''\<rparr>"

theorem config_error_located_witness:
  "config_parse (str ''ephemeral yes'' @ [10] @ str ''ephemeral no'') sample_defaults = Inl (Line 2 DuplicateKey) \<and>
   gather Map.empty (line_entries (take 2 (str_lines (str ''ephemeral yes'' @ [10] @ str ''ephemeral no'')))) = None"
proof -
  have e: "config_parse (str ''ephemeral yes'' @ [10] @ str ''ephemeral no'') sample_defaults = Inl (Line 2 DuplicateKey)"
    by code_simp
  from config_error_located [OF e] e show ?thesis by auto
qed

lemma parse_unsigned_digits:
  "list_all ascii_digit s \<Longrightarrow> s \<noteq> [] \<Longrightarrow> parse_unsigned limit s = (if number_of s \<le> limit then Some (number_of s) else None)"
  by (cases s) (auto simp: parse_unsigned_def ascii_digit_def)

lemma number_of_pad: "length f \<le> 3 \<Longrightarrow>
  foldl (\<lambda>m i. m * 10 + (if i < length f then f ! i - 48 else 0)) 0 [0..<3] = number_of (f @ replicate (3 - length f) 48)"
proof -
  assume "length f \<le> 3"
  then consider "f = []" | a where "f = [a]" | a b where "f = [a, b]" | a b c where "f = [a, b, c]"
    by (cases f; cases "tl f"; cases "tl (tl f)"; cases "tl (tl (tl f))") auto
  then show ?thesis by cases (simp_all add: number_of_def upt_rec numeral_3_eq_3)
qed

lemma split_ratio:
  assumes "list_all ascii_digit w" "v = w \<and> f = [] \<or> v = w @ 46 # f"
  shows "(case split_once 46 v of Some (w, f) \<Rightarrow> (w, f) | None \<Rightarrow> (v, [])) = (w, f)"
proof -
  have "46 \<notin> set w" using assms(1) by (auto simp: list_all_iff ascii_digit_def)
  then have "split_once 46 v = (if v = w \<and> f = [] then None else Some (w, f))"
    using assms(2) by (auto simp: split_once_Some)
  then show ?thesis using assms(2) by auto
qed

lemma split_ratio_cases:
  "(case split_once 46 v of Some (w, f) \<Rightarrow> (w, f) | None \<Rightarrow> (v, [])) = (w, f) \<Longrightarrow> v = w \<and> f = [] \<or> v = w @ 46 # f"
  by (auto simp: split_once_Some split: option.splits)

text \<open>A ratio is read in thousandths without rounding.\<close>

lemma parse_seed_ratio_exact:
  "parse_seed_ratio v = Some t \<longleftrightarrow>
     (\<exists>w f. (v = w \<and> f = [] \<or> v = w @ 46 # f) \<and> w @ f \<noteq> [] \<and> list_all ascii_digit (w @ f) \<and> length f \<le> 3 \<and>
        t = number_of w * 1000 + number_of (f @ replicate (3 - length f) 48) \<and> t \<le> MAX_SEED_RATIO_MILLI)"
proof -
  have core: "Option.bind (if w = [] then Some 0 else parse_unsigned u64_max w) (\<lambda>n.
      Option.bind (checked_u64 (n * 1000)) (\<lambda>x. Option.bind (checked_u64 (x + k)) (\<lambda>y. if y \<le> MAX_SEED_RATIO_MILLI then Some y else None))) = Some t \<longleftrightarrow>
      t = number_of w * 1000 + k \<and> t \<le> MAX_SEED_RATIO_MILLI" if "list_all ascii_digit w" for w k
    using parse_unsigned_digits [OF that, of u64_max]
    by (cases "w = []") (auto simp: checked_u64_def u64_max_def MAX_SEED_RATIO_MILLI_def number_of_def)
  obtain w f where wf: "(case split_once 46 v of Some (w, f) \<Rightarrow> (w, f) | None \<Rightarrow> (v, [])) = (w, f)" by fastforce
  have v: "v = w \<and> f = [] \<or> v = w @ 46 # f" using wf by (rule split_ratio_cases)
  have "parse_seed_ratio v = Some t \<longleftrightarrow> w @ f \<noteq> [] \<and> list_all ascii_digit (w @ f) \<and> length f \<le> 3 \<and>
      t = number_of w * 1000 + number_of (f @ replicate (3 - length f) 48) \<and> t \<le> MAX_SEED_RATIO_MILLI"
    unfolding parse_seed_ratio_def wf prod.case Let_def using core [of w] number_of_pad [of f] by auto
  moreover have "w' = w \<and> f' = f" if "v = w' \<and> f' = [] \<or> v = w' @ 46 # f'" "list_all ascii_digit (w' @ f')" for w' f'
    using split_ratio [of w' v f'] that wf by auto
  ultimately show ?thesis using v by blast
qed

lemma setting_cases:
  assumes "\<And>v. m (str key) = Some v \<Longrightarrow> \<exists>x. parse v = Some x \<and> P x" "P absent"
  shows "P (setting m key parse absent)"
  using assms(2) assms(1) by (cases "m (str key)") (force simp: setting_def)+

lemma map_of_valid: "list_all (\<lambda>(k, v). valid_setting k v) kvs \<Longrightarrow> map_of kvs k = Some v \<Longrightarrow> valid_setting k v"
  by (auto simp: list_all_iff dest!: map_of_SomeD)

lemma path_join_absolute: "is_absolute p \<Longrightarrow> is_absolute (path_join p q)"
  by (auto simp: is_absolute_def path_join_def)

lemma env_xdg_absolute: "env_xdg get key = Some dir \<Longrightarrow> is_absolute dir"
  by (auto simp: env_xdg_def split: option.splits if_splits)

lemma env_home_absolute:
  "env_home get key sub = Inr dir \<Longrightarrow> \<forall>h. get ''HOME'' = Some h \<longrightarrow> h = [] \<or> is_absolute h \<Longrightarrow> is_absolute dir"
  by (auto simp: env_home_def env_nonempty_def path_join_absolute split: option.splits if_splits dest: env_xdg_absolute)

lemma from_vars_absolute:
  assumes "from_vars get = Inr df" "\<forall>h. get ''HOME'' = Some h \<longrightarrow> h = [] \<or> is_absolute h"
  shows "is_absolute (df_data_home df)" "is_absolute (df_config_home df)" "df_runtime_dir df = Some dir \<Longrightarrow> is_absolute dir"
  using assms(1) env_home_absolute [of get, OF _ assms(2)] env_xdg_absolute by (auto simp: from_vars_def Let_def bindE_Inr)

definition dialable :: "rstr \<Rightarrow> bool" where
  "dialable a \<longleftrightarrow> (\<exists>host port p. a = host @ 58 # port \<and> host \<in> {str ''127.0.0.1'', str ''localhost'', str ''[::1]''} \<and>
     parse_unsigned 65535 port = Some p \<and> 0 < p)"

lemma sam_dialable: "looks_like_sam_address a \<Longrightarrow> unsupported_sam_transport a = None \<Longrightarrow> dialable a"
  by (fastforce simp: looks_like_sam_address_def unsupported_sam_transport_def is_loopback_sam_def dialable_def
    split: if_splits option.splits prod.splits dest: rsplit_once_SomeD)

lemma default_dialable: "dialable DEFAULT_SAM_ADDRESS"
proof -
  have "looks_like_sam_address DEFAULT_SAM_ADDRESS" by code_simp
  then show ?thesis using default_supported by (rule sam_dialable)
qed

text \<open>C14. A configuration that is accepted is one the daemon can run with: its router is on this host at a port that is one,
  its paths are absolute if the home directory is, and its limits are within their documented ranges.\<close>

theorem config_accepted_safe:
  assumes "from_vars get = Inr df" "\<forall>h. get ''HOME'' = Some h \<longrightarrow> h = [] \<or> is_absolute h" "config_parse t df = Inr c"
  shows "dialable (cf_sam_address c) \<and> is_absolute (cf_data_dir c) \<and> is_absolute (cf_api_socket c) \<and>
    cf_peer_limit c \<in> {1..MAX_PEER_LIMIT} \<and> cf_torrent_peer_limit c \<in> {1..MAX_PEER_LIMIT} \<and>
    cf_seed_ratio_milli c \<le> MAX_SEED_RATIO_MILLI \<and> cf_seed_idle_minutes c \<le> MAX_SEED_IDLE_MINUTES"
proof -
  obtain m where valid: "\<And>k v. m k = Some v \<Longrightarrow> valid_setting k v"
    and sam: "unsupported_sam_transport (cf_sam_address (config_of df m)) = None" and c: "c = config_of df m"
    using assms(3) map_of_valid by (auto simp: config_parse_gather gather_iff settled_def list_all_iff)
  note df = from_vars_absolute [OF assms(1,2)]
  have valid: "valid_setting (str k) v" if "m (str k) = Some v" for k v using valid that by blast
  have "\<exists>x. parse_count v = Some x \<and> x \<in> {1..MAX_PEER_LIMIT}"
    if "m (str k) = Some v" "k = ''peer_limit'' \<or> k = ''torrent_peer_limit''" for k v
    using valid [OF that(1)] that(2) by (auto simp: valid_setting_def parse_count_def split: option.splits if_splits)
  note count = setting_cases [of m _ parse_count "\<lambda>x. x \<in> {1..MAX_PEER_LIMIT}", OF this]
  have "cf_peer_limit c \<in> {1..MAX_PEER_LIMIT}"
    unfolding c config_of_def Let_def config.select_convs by (rule count, assumption, blast) (simp add: DEFAULT_PEER_LIMIT_def MAX_PEER_LIMIT_def)
  moreover have "cf_torrent_peer_limit c \<in> {1..MAX_PEER_LIMIT}"
    unfolding c config_of_def Let_def config.select_convs by (rule count, assumption, blast) (simp add: DEFAULT_TORRENT_PEER_LIMIT_def MAX_PEER_LIMIT_def)
  moreover have "\<exists>x. parse_seed_ratio v = Some x \<and> x \<le> MAX_SEED_RATIO_MILLI" if "m (str ''seed_ratio'') = Some v" for v
    using valid [OF that] parse_seed_ratio_exact [of v] by (auto simp: valid_setting_def)
  then have "cf_seed_ratio_milli c \<le> MAX_SEED_RATIO_MILLI"
    unfolding c config_of_def Let_def config.select_convs by (rule setting_cases) simp_all
  moreover have "cf_seed_idle_minutes c \<le> MAX_SEED_IDLE_MINUTES"
    using valid [of "''seed_idle_minutes''"]
    by (auto simp: c config_of_def Let_def valid_setting_def parse_idle_minutes_def split: option.splits if_splits
      intro!: setting_cases [of _ _ _ "\<lambda>x. x \<le> MAX_SEED_IDLE_MINUTES"])
  moreover have dir: "is_absolute (cf_data_dir c)"
    using valid [of "''data_dir''"] path_join_absolute [OF df(1)]
    by (auto simp: c config_of_def Let_def valid_setting_def intro!: setting_cases [of _ _ _ is_absolute])
  moreover have "is_absolute (cf_api_socket c)"
    using valid [of "''api_socket''"] path_join_absolute [OF dir] path_join_absolute [OF df(3)]
    by (auto simp: c config_of_def Let_def valid_setting_def split: option.splits intro!: setting_cases [of _ _ _ is_absolute])
  moreover have "dialable (cf_sam_address c)"
    using valid [of "''sam_address''"] sam sam_dialable default_dialable
    by (cases "m (str ''sam_address'')") (auto simp: c config_of_def Let_def valid_setting_def setting_def)
  ultimately show ?thesis by blast
qed

definition sample_env :: "string \<Rightarrow> rstr option" where
  "sample_env key = (if key = ''HOME'' then Some (str ''/h'') else None)"

definition sample_config_text :: rstr where
  "sample_config_text = str ''# demo'' @ [10] @ str ''sam_address localhost:7656'' @ [13, 10] @ str ''  seed_ratio   1.5'' @ [10]"

theorem config_accepted_safe_witness:
  "\<exists>df c. from_vars sample_env = Inr df \<and> config_parse sample_config_text df = Inr c \<and> cf_seed_ratio_milli c = 1500 \<and>
     cf_data_dir c = str ''/h/.local/share/clove'' \<and> dialable (cf_sam_address c)"
proof -
  define df where "df = \<lparr>df_data_home = str ''/h/.local/share'', df_runtime_dir = None, df_config_home = str ''/h/.config''\<rparr>"
  have v: "from_vars sample_env = Inr df" unfolding df_def by code_simp
  have h: "\<forall>h. sample_env ''HOME'' = Some h \<longrightarrow> h = [] \<or> is_absolute h" by (simp add: sample_env_def is_absolute_def str_def)
  have "case config_parse sample_config_text df of
      Inr c \<Rightarrow> cf_seed_ratio_milli c = 1500 \<and> cf_data_dir c = str ''/h/.local/share/clove'' | Inl e \<Rightarrow> False"
    unfolding df_def by code_simp
  then obtain c where c: "config_parse sample_config_text df = Inr c" "cf_seed_ratio_milli c = 1500" "cf_data_dir c = str ''/h/.local/share/clove''"
    by (auto split: sum.splits)
  from config_accepted_safe [OF v h c(1)] show ?thesis using v c by blast
qed

end
