(* ===== verification/Attach.thy ===== *)
theory Attach
  imports Torrent_Limits Budget Tracker
begin

text \<open>
  How a connection becomes a peer (\<^verbatim>\<open>crates/clove-core/src/torrent.rs\<close>): the handshake exchange under one deadline,
  the initiator's and the acceptor's attach, the common path that claims a slot of the client's budget,
  registers the peer and starts its threads, and the reader thread's loop. What the outside world does at each
  blocking call is an argument: the clock, the caller's stop flag, and how the stream answers. A loop that has
  used up its arguments is still waiting, the value \<open>None\<close>.
\<close>

subsection \<open>The handshake exchange\<close>

definition HANDSHAKE_TIMEOUT :: nat where "HANDSHAKE_TIMEOUT = secs 60"
definition HANDSHAKE_POLL :: nat where "HANDSHAKE_POLL = secs 1"

datatype net_kind = KWouldBlock | KTimedOut | KInterrupted | KUnexpectedEof | KWriteZero | KInvalidData
  | KPermissionDenied | KAlreadyExists | KOther string

type_synonym io_err = "net_kind \<times> string"

text \<open>One blocking call: the clock and the stop flag before it, and its outcome: at most so many bytes are moved,
  or an error.\<close>

record turn =
  tn_now :: nat
  tn_abort :: bool
  tn_outcome :: "io_err + nat"

definition handshake_slice :: "nat \<Rightarrow> turn \<Rightarrow> io_err + nat" where
  "handshake_slice deadline u =
     (if tn_abort u then Inl (KInterrupted, ''handshake abandoned: the swarm is stopping'')
      else
        let left = deadline - tn_now u in
        if left = 0 then Inl (KTimedOut, ''peer did not complete the handshake in time'')
        else Inr (min left HANDSHAKE_POLL))"

definition timed_out :: "io_err \<Rightarrow> bool" where
  "timed_out e \<longleftrightarrow> fst e = KWouldBlock \<or> fst e = KTimedOut \<or> fst e = KInterrupted"

text \<open>The state is the peer's bytes still to come and the part of the buffer that is filled.\<close>

definition hung_up_err :: io_err where
  "hung_up_err = (KUnexpectedEof, ''peer hung up during the handshake'')"

definition write_zero_err :: io_err where
  "write_zero_err = (KWriteZero, ''write zero'')"

definition handshake_of :: "bytes \<Rightarrow> io_err + handshake" where
  "handshake_of buf = (case hs_parse buf of Inl _ \<Rightarrow> Inl (KInvalidData, ''bad protocol'') | Inr h \<Rightarrow> Inr h)"

primrec read_handshake_until :: "nat \<Rightarrow> turn list \<Rightarrow> bytes \<Rightarrow> bytes \<Rightarrow> ((io_err + handshake) \<times> bytes) option" where
  "read_handshake_until deadline [] stream buf =
     (if length buf < HANDSHAKE_LEN then None else Some (handshake_of buf, stream))"
| "read_handshake_until deadline (u # us) stream buf =
     (if length buf < HANDSHAKE_LEN then
        (case handshake_slice deadline u of
           Inl e \<Rightarrow> Some (Inl e, stream)
         | Inr _ \<Rightarrow>
             (case tn_outcome u of
                Inr k \<Rightarrow>
                  (let n = min k (min (HANDSHAKE_LEN - length buf) (length stream)) in
                   if n = 0 then Some (Inl hung_up_err, stream)
                   else read_handshake_until deadline us (drop n stream) (buf @ take n stream))
              | Inl e \<Rightarrow> if timed_out e then read_handshake_until deadline us stream buf else Some (Inl e, stream)))
      else Some (handshake_of buf, stream))"

primrec write_handshake_until :: "nat \<Rightarrow> turn list \<Rightarrow> bytes \<Rightarrow> nat \<Rightarrow> ((io_err + unit) \<times> turn list \<times> nat) option" where
  "write_handshake_until deadline [] bs written =
     (if written < length bs then None else Some (Inr (), [], written))"
| "write_handshake_until deadline (u # us) bs written =
     (if written < length bs then
        (case handshake_slice deadline u of
           Inl e \<Rightarrow> Some (Inl e, us, written)
         | Inr _ \<Rightarrow>
             (case tn_outcome u of
                Inr k \<Rightarrow>
                  (let n = min k (length bs - written) in
                   if n = 0 then Some (Inl write_zero_err, us, written)
                   else write_handshake_until deadline us bs (written + n))
              | Inl e \<Rightarrow> if timed_out e then write_handshake_until deadline us bs written else Some (Inl e, us, written)))
      else Some (Inr (), u # us, written))"

subsection \<open>Attaching\<close>

definition banned_err :: io_err where
  "banned_err = (KPermissionDenied, ''this destination is banned for the rest of the run'')"

definition ourselves_err :: io_err where
  "ourselves_err = (KAlreadyExists, ''the peer is this client: same peer id'')"

definition other_torrent_err :: io_err where
  "other_torrent_err = (KInvalidData, ''peer handshaked a different torrent'')"

definition our_handshake :: "shared \<Rightarrow> handshake" where
  "our_handshake sh =
     \<lparr>hs_info_hash = sh_info_hash sh, hs_peer_id = sh_peer_id sh, hs_extensions = \<lparr>ext_extended = True, ext_fast = False\<rparr>\<rparr>"

definition our_extension_handshake :: "shared \<Rightarrow> bytes" where
  "our_extension_handshake sh =
     (let ids = (if \<not> sh_private sh then bt_insert I2P_PEX (unat OUR_PEX_ID) [] else []);
          ids = bt_insert UT_METADATA (unat OUR_METADATA_ID) ids in
      ext_encode \<lparr>eh_ids = ids,
        eh_metadata_size = (if sh_raw_info sh \<noteq> [] then Some (length (sh_raw_info sh)) else None),
        eh_client = Some (str_bytes USER_AGENT)\<rparr>)"

definition opening_messages :: "shared \<Rightarrow> handshake \<Rightarrow> torrent \<Rightarrow> message list" where
  "opening_messages sh theirs t =
     BitfieldMsg (bf_as_bytes (pk_have (ts_picker t))) #
     (if ext_extended (hs_extensions theirs) then [Extended 0 (our_extension_handshake sh)] else [])"

text \<open>What the system grants a connection: a closer, two halves, a writer thread and a reader thread; and the clock at
  registration and at a removal.\<close>

record conn =
  cn_closer :: "io_err + unit"
  cn_split :: "io_err + unit"
  cn_writer :: "io_err + unit"
  cn_reader :: "io_err + unit"
  cn_now :: nat

definition refusal_err :: "refusal \<Rightarrow> io_err" where
  "refusal_err r =
     (case r of
        Banned \<Rightarrow> banned_err
      | DestFull \<Rightarrow> (KWouldBlock, ''this destination already holds its share of connections'')
      | TorrentFull \<Rightarrow> (KWouldBlock, ''this torrent is at its peer limit''))"

text \<open>\<^verbatim>\<open>finish_attach\<close>: the slot is given back on every path that does not keep the peer.\<close>

definition finish_attach ::
  "shared \<Rightarrow> conn \<Rightarrow> dest \<Rightarrow> handshake \<Rightarrow> budget \<Rightarrow> torrent \<Rightarrow> (io_err + nat) \<times> budget \<times> torrent" where
  "finish_attach sh cn remote theirs b t =
     (case claim b of
        (b1, False) \<Rightarrow> (Inl (KWouldBlock, ''no room in the client's peer budget''), b1, t)
      | (b1, True) \<Rightarrow>
          (case cn_closer cn of
             Inl e \<Rightarrow> (Inl e, slot_drop b1, t)
           | Inr _ \<Rightarrow>
          (case cn_split cn of
             Inl e \<Rightarrow> (Inl e, slot_drop b1, t)
           | Inr _ \<Rightarrow>
               (let queue = opening_messages sh theirs t;
                    fast = (ext_fast (hs_extensions theirs) \<and> ext_fast (hs_extensions (our_handshake sh))) in
                (case register_peer sh (cn_now cn) queue remote fast t of
                   (t1, Inl r) \<Rightarrow> (Inl (refusal_err r), slot_drop b1, t1)
                 | (t1, Inr i) \<Rightarrow>
                     (case cn_writer cn of
                        Inl e \<Rightarrow> (Inl e, slot_drop b1, drop_peer (cn_now cn) i False t1)
                      | Inr _ \<Rightarrow>
                     (case cn_reader cn of
                        Inl e \<Rightarrow> (Inl e, slot_drop b1, drop_peer (cn_now cn) i False t1)
                      | Inr _ \<Rightarrow> (Inr i, b1, t1))))))))"

definition attach_abortable ::
  "shared \<Rightarrow> nat \<Rightarrow> turn list \<Rightarrow> bytes \<Rightarrow> conn \<Rightarrow> dest \<Rightarrow> budget \<Rightarrow> torrent \<Rightarrow> ((io_err + nat) \<times> budget \<times> torrent) option" where
  "attach_abortable sh now us stream cn remote b t =
     (if remote \<in> ts_banned t then Some (Inl banned_err, b, t)
      else
        let deadline = now + HANDSHAKE_TIMEOUT in
        (case write_handshake_until deadline us (hs_encode (our_handshake sh)) 0 of
           None \<Rightarrow> None
         | Some (Inl e, _) \<Rightarrow> Some (Inl e, b, t)
         | Some (Inr _, us', _) \<Rightarrow>
             (case read_handshake_until deadline us' stream [] of
                None \<Rightarrow> None
              | Some (Inl e, _) \<Rightarrow> Some (Inl e, b, t)
              | Some (Inr theirs, _) \<Rightarrow>
                  if hs_info_hash theirs \<noteq> sh_info_hash sh then Some (Inl other_torrent_err, b, t)
                  else if hs_peer_id theirs = sh_peer_id sh then Some (Inl ourselves_err, b, t)
                  else Some (finish_attach sh cn remote theirs b t))))"

definition attach_accepted ::
  "shared \<Rightarrow> nat \<Rightarrow> turn list \<Rightarrow> conn \<Rightarrow> dest \<Rightarrow> handshake \<Rightarrow> budget \<Rightarrow> torrent \<Rightarrow> ((io_err + nat) \<times> budget \<times> torrent) option" where
  "attach_accepted sh now us cn remote theirs b t =
     (if hs_info_hash theirs \<noteq> sh_info_hash sh then Some (Inl other_torrent_err, b, t)
      else if remote \<in> ts_banned t then Some (Inl banned_err, b, t)
      else if hs_peer_id theirs = sh_peer_id sh then Some (Inl ourselves_err, b, t)
      else
        (case write_handshake_until (now + HANDSHAKE_TIMEOUT) us (hs_encode (our_handshake sh)) 0 of
           None \<Rightarrow> None
         | Some (Inl e, _) \<Rightarrow> Some (Inl e, b, t)
         | Some (Inr _, _) \<Rightarrow> Some (finish_attach sh cn remote theirs b (t\<lparr>ts_inbound := u64_add (ts_inbound t) 1\<rparr>))))"

subsection \<open>The reader thread\<close>

text \<open>Each call of \<^verbatim>\<open>read_frame_into\<close> ends with a frame or an error; the guard removes the peer at the end.\<close>

record arrival =
  ar_now :: nat
  ar_faults :: faults
  ar_writing :: "nat \<Rightarrow> bool"
  ar_frame :: "io_err + bytes"

primrec spawn_reader :: "(bytes \<Rightarrow> bytes) \<Rightarrow> shared \<Rightarrow> nat \<Rightarrow> arrival list \<Rightarrow> torrent \<Rightarrow> torrent \<times> bool option" where
  "spawn_reader sha1 sh i [] t = (t, None)"
| "spawn_reader sha1 sh i (a # arrivals) t =
     (case ar_frame a of
        Inl e \<Rightarrow> (drop_peer (ar_now a) i (fst e = KInvalidData) t, Some (fst e = KInvalidData))
      | Inr body \<Rightarrow>
          (case msg_parse body of
             Inl _ \<Rightarrow> (drop_peer (ar_now a) i True t, Some True)
           | Inr msg \<Rightarrow> spawn_reader sha1 sh i arrivals (on_message sha1 (ar_faults a) (ar_writing a) sh (ar_now a) i msg t)))"

subsection \<open>Lemmas: the handshake\<close>

lemma handshake_of_Inr [simp]: "handshake_of buf = Inr h \<longleftrightarrow> hs_parse buf = Inr h"
  by (auto simp: handshake_of_def split: sum.splits)

lemma read_handshake_reads:
  "read_handshake_until deadline us stream buf = Some (r, rest) \<Longrightarrow> length buf \<le> HANDSHAKE_LEN \<Longrightarrow>
    (\<exists>k \<le> HANDSHAKE_LEN - length buf. rest = drop k stream \<and>
       (\<forall>h. r = Inr h \<longrightarrow> k = HANDSHAKE_LEN - length buf \<and> k \<le> length stream \<and> handshake_of (buf @ take k stream) = Inr h))"
proof (induction us arbitrary: stream buf)
  case Nil
  then show ?case by (intro exI [of _ 0]) (auto split: if_splits)
next
  case (Cons u us)
  show ?case
  proof (cases "length buf < HANDSHAKE_LEN \<and> (\<exists>l. handshake_slice deadline u = Inr l)")
    case False
    then show ?thesis using Cons.prems by (intro exI [of _ 0]) (auto split: sum.splits if_splits)
  next
    case go: True
    show ?thesis
    proof (cases "tn_outcome u")
      case (Inl e)
      show ?thesis
      proof (cases "timed_out e")
        case True
        then have "read_handshake_until deadline us stream buf = Some (r, rest)" using Cons.prems go Inl by auto
        then show ?thesis using Cons.IH Cons.prems(2) by blast
      next
        case False
        then show ?thesis using Cons.prems go Inl by (intro exI [of _ 0]) auto
      qed
    next
      case (Inr k)
      define n where "n = min k (min (HANDSHAKE_LEN - length buf) (length stream))"
      show ?thesis
      proof (cases "n = 0")
        case True
        then show ?thesis using Cons.prems go Inr by (intro exI [of _ 0]) (auto simp: n_def [symmetric])
      next
        case False
        then have r: "read_handshake_until deadline us (drop n stream) (buf @ take n stream) = Some (r, rest)"
          using Cons.prems go Inr by (auto simp: n_def [symmetric])
        have n: "n \<le> HANDSHAKE_LEN - length buf" "n \<le> length stream" by (simp_all add: n_def)
        then have len: "length (buf @ take n stream) = length buf + n" by simp
        then have le: "length (buf @ take n stream) \<le> HANDSHAKE_LEN" using n(1) Cons.prems(2) by linarith
        from Cons.IH [OF r le] obtain j where j: "j \<le> HANDSHAKE_LEN - length (buf @ take n stream)" "rest = drop j (drop n stream)"
          "\<And>h. r = Inr h \<Longrightarrow> j = HANDSHAKE_LEN - length (buf @ take n stream) \<and> j \<le> length (drop n stream) \<and>
             handshake_of ((buf @ take n stream) @ take j (drop n stream)) = Inr h"
          by blast
        have "buf @ take (n + j) stream = (buf @ take n stream) @ take j (drop n stream)" by (simp add: take_add)
        then show ?thesis using j n len
          by (intro exI [of _ "n + j"]) (auto simp: add.commute simp del: append_assoc)
      qed
    qed
  qed
qed

lemma read_handshake_ends:
  "u \<in> set us \<Longrightarrow> tn_abort u \<or> deadline \<le> tn_now u \<Longrightarrow> read_handshake_until deadline us stream buf \<noteq> None"
  by (induction us arbitrary: stream buf) (auto simp: handshake_slice_def Let_def split: sum.splits)

text \<open>C11. A peer gets exactly one deadline for its whole handshake, however it dribbles: once a turn of the loop finds the deadline passed, or
  the stop flag raised, the read has returned. Whatever the sizes of the pieces, a handshake that is returned is the parse of the first 68 bytes
  sent, and not a byte more is taken off the stream, which belongs to the peer protocol.\<close>

theorem handshake_read_bounded:
  "((\<exists>u \<in> set us. tn_abort u \<or> deadline \<le> tn_now u) \<longrightarrow> (\<exists>r rest. read_handshake_until deadline us stream [] = Some (r, rest))) \<and>
   (\<forall>r rest. read_handshake_until deadline us stream [] = Some (r, rest) \<longrightarrow>
      length stream - 68 \<le> length rest \<and>
      (\<forall>h. r = Inr h \<longrightarrow> 68 \<le> length stream \<and> rest = drop 68 stream \<and> hs_parse (take 68 stream) = Inr h))"
proof -
  have "\<exists>r rest. read_handshake_until deadline us stream [] = Some (r, rest)" if "u \<in> set us" "tn_abort u \<or> deadline \<le> tn_now u" for u
    using read_handshake_ends [OF that, of stream "[]"] by (metis not_None_eq surj_pair)
  moreover have "length stream - 68 \<le> length rest \<and>
      (\<forall>h. r = Inr h \<longrightarrow> 68 \<le> length stream \<and> rest = drop 68 stream \<and> hs_parse (take 68 stream) = Inr h)"
    if "read_handshake_until deadline us stream [] = Some (r, rest)" for r rest
    using read_handshake_reads [OF that] by (auto simp: HANDSHAKE_LEN_def)
  ultimately show ?thesis by blast
qed

definition sample_hs :: handshake where
  "sample_hs = \<lparr>hs_info_hash = replicate 20 1, hs_peer_id = replicate 20 2, hs_extensions = \<lparr>ext_extended = True, ext_fast = False\<rparr>\<rparr>"

theorem handshake_read_bounded_witness:
  "read_handshake_until (secs 60) [\<lparr>tn_now = 0, tn_abort = False, tn_outcome = Inr 30\<rparr>, \<lparr>tn_now = 5, tn_abort = False, tn_outcome = Inl (KTimedOut, [])\<rparr>,
      \<lparr>tn_now = 6, tn_abort = False, tn_outcome = Inr 100\<rparr>] (hs_encode sample_hs @ [9]) [] = Some (Inr sample_hs, [9]) \<and>
   hs_parse (take 68 (hs_encode sample_hs @ [9])) = Inr sample_hs"
proof -
  have r: "read_handshake_until (secs 60) [\<lparr>tn_now = 0, tn_abort = False, tn_outcome = Inr 30\<rparr>, \<lparr>tn_now = 5, tn_abort = False, tn_outcome = Inl (KTimedOut, [])\<rparr>,
      \<lparr>tn_now = 6, tn_abort = False, tn_outcome = Inr 100\<rparr>] (hs_encode sample_hs @ [9]) [] = Some (Inr sample_hs, [9])"
    by code_simp
  with handshake_read_bounded [of "[\<lparr>tn_now = 0, tn_abort = False, tn_outcome = Inr 30\<rparr>, \<lparr>tn_now = 5, tn_abort = False, tn_outcome = Inl (KTimedOut, [])\<rparr>,
      \<lparr>tn_now = 6, tn_abort = False, tn_outcome = Inr 100\<rparr>]" "secs 60" "hs_encode sample_hs @ [9]"]
  show ?thesis by blast
qed

subsection \<open>Lemmas: seats and slots\<close>

lemma claim_dropped:
  assumes "bg_limit b \<le> usize_max" "claim b = (b1, True)"
  shows "b1 = b\<lparr>bg_taken := bg_taken b + 1\<rparr>" "bg_taken b < bg_limit b" "slot_drop b1 = b"
proof -
  show b1: "b1 = b\<lparr>bg_taken := bg_taken b + 1\<rparr>" "bg_taken b < bg_limit b"
    using assms(2) by (auto simp: claim_def split: if_splits)
  then show "slot_drop b1 = b" using assms(1) by (subst slot_drop_taken) simp_all
qed

lemma claim_refused: "claim b = (b1, False) \<Longrightarrow> b1 = b"
  by (auto simp: claim_def split: if_splits)

lemma remember_peers [simp]: "ts_peers (fst (remember_peer_from d src t)) = ts_peers t"
  by (auto simp: remember_peer_from_def Let_def split: option.splits)

lemma register_peer_cases:
  assumes "register_peer sh now queue d fast t = (t1, r)"
  obtains (no) e where "r = Inl e" "t1 = t"
  | (yes) "r = Inr (ts_next_id t)" "ts_peers t1 = ts_peers t @ [new_peer (ts_next_id t) d queue fast (sh_num_pieces sh) now]"
      "d \<notin> ts_banned t" "length (filter (\<lambda>p. pe_dest p = d) (ts_peers t)) < MAX_CONNECTIONS_PER_DEST" "length (ts_peers t) < ts_max_peers t"
  using assms by (auto simp: register_peer_def Let_def split: if_splits)

lemma swap_remove_last [simp]: "swap_remove (length xs) (xs @ [x]) = xs"
  by (simp add: swap_remove_def)

lemma position_of_last: "i \<notin> pe_id ` set ps \<Longrightarrow> pe_id p = i \<Longrightarrow> position_of i (ps @ [p]) = Some (length ps)"
  by (induction ps) auto

lemma penalise_peers [simp]: "ts_peers (penalise d now t) = ts_peers t"
  by (simp add: penalise_def Let_def split: option.split prod.split)

lemma drop_last:
  "ts_peers t1 = ps @ [p] \<Longrightarrow> pe_id p = i \<Longrightarrow> i \<notin> pe_id ` set ps \<Longrightarrow> ts_peers (drop_peer now i c t1) = ps"
  using position_of_last [of i ps p] by (simp add: drop_peer_def Let_def)

text \<open>What a finished attach may have done to the table and to the budget.\<close>

definition seated :: "shared \<Rightarrow> nat \<Rightarrow> dest \<Rightarrow> handshake \<Rightarrow> budget \<Rightarrow> torrent \<Rightarrow> (io_err + nat) \<times> budget \<times> torrent \<Rightarrow> bool" where
  "seated sh now remote theirs b t out \<longleftrightarrow>
     (case out of
        (Inl e, b', t') \<Rightarrow> b' = b \<and> ts_peers t' = ts_peers t
      | (Inr i, b', t') \<Rightarrow>
          b' = b\<lparr>bg_taken := bg_taken b + 1\<rparr> \<and> bg_taken b < bg_limit b \<and>
          ts_peers t' = ts_peers t @ [new_peer i remote (opening_messages sh theirs t) False (sh_num_pieces sh) now] \<and>
          i \<notin> pe_id ` set (ts_peers t) \<and> remote \<notin> ts_banned t \<and> length (ts_peers t) < ts_max_peers t \<and>
          length (filter (\<lambda>p. pe_dest p = remote) (ts_peers t)) < MAX_CONNECTIONS_PER_DEST)"

lemma finish_attach_seated:
  assumes "bg_limit b \<le> usize_max" "ts_next_id t \<notin> pe_id ` set (ts_peers t)"
  shows "seated sh (cn_now cn) remote theirs b t (finish_attach sh cn remote theirs b t)"
proof (cases "snd (claim b)")
  case False
  then obtain b1 where "claim b = (b1, False)" by (metis prod.collapse)
  then show ?thesis using claim_refused [of b b1] by (simp add: finish_attach_def seated_def)
next
  case True
  then obtain b1 where b1: "claim b = (b1, True)" by (metis prod.collapse)
  note c = claim_dropped [OF assms(1) b1]
  have fast: "\<not> ext_fast (hs_extensions (our_handshake sh))" by (simp add: our_handshake_def)
  obtain t1 r where reg: "register_peer sh (cn_now cn) (opening_messages sh theirs t) remote False t = (t1, r)" by fastforce
  then show ?thesis
  proof (cases rule: register_peer_cases)
    case (no e)
    then show ?thesis using b1 c reg fast
      by (simp add: finish_attach_def seated_def Let_def split: sum.split)
  next
    case yes
    let ?p = "new_peer (ts_next_id t) remote (opening_messages sh theirs t) False (sh_num_pieces sh) (cn_now cn)"
    have "ts_peers (drop_peer (cn_now cn) (ts_next_id t) False t1) = ts_peers t"
      by (rule drop_last [OF yes(2)]) (use assms(2) in \<open>simp_all add: new_peer_def\<close>)
    then show ?thesis using b1 c reg fast yes assms(2)
      by (simp add: finish_attach_def seated_def Let_def split: sum.split)
  qed
qed

lemma fresh_id: "table_inv n t \<Longrightarrow> ts_next_id t \<notin> pe_id ` set (ts_peers t)"
  by (force simp: table_inv_def peer_ok_def)

lemma seated_refused: "seated sh now remote theirs b t (Inl e, b, t)"
  by (simp add: seated_def)

lemma attach_seated:
  assumes lim: "bg_limit b \<le> usize_max" and id: "ts_next_id t \<notin> pe_id ` set (ts_peers t)"
    and a: "attach_abortable sh now us stream cn remote b t = Some out"
  shows "\<exists>theirs. seated sh (cn_now cn) remote theirs b t out \<and>
    (\<forall>i. fst out = Inr i \<longrightarrow> hs_parse (take 68 stream) = Inr theirs \<and> hs_info_hash theirs = sh_info_hash sh \<and> hs_peer_id theirs \<noteq> sh_peer_id sh)"
proof (cases "\<exists>e. out = (Inl e, b, t)")
  case True
  then show ?thesis using seated_refused by auto
next
  case False
  then obtain us' n theirs rest where w: "write_handshake_until (now + HANDSHAKE_TIMEOUT) us (hs_encode (our_handshake sh)) 0 = Some (Inr (), us', n)"
    and r: "read_handshake_until (now + HANDSHAKE_TIMEOUT) us' stream [] = Some (Inr theirs, rest)"
    and h: "hs_info_hash theirs = sh_info_hash sh" "hs_peer_id theirs \<noteq> sh_peer_id sh"
    and out: "out = finish_attach sh cn remote theirs b t"
    using a by (auto simp: attach_abortable_def Let_def banned_err_def other_torrent_err_def ourselves_err_def
      split: if_splits option.splits prod.splits sum.splits)
  have "hs_parse (take 68 stream) = Inr theirs" using read_handshake_reads [OF r] by (auto simp: HANDSHAKE_LEN_def)
  then show ?thesis using finish_attach_seated [OF lim id] out h by (intro exI [of _ theirs]) auto
qed

lemma attach_accepted_seated:
  assumes lim: "bg_limit b \<le> usize_max" and id: "ts_next_id t \<notin> pe_id ` set (ts_peers t)"
    and a: "attach_accepted sh now us cn remote theirs b t = Some out"
  shows "seated sh (cn_now cn) remote theirs b t out \<and>
    (\<forall>i. fst out = Inr i \<longrightarrow> hs_info_hash theirs = sh_info_hash sh \<and> hs_peer_id theirs \<noteq> sh_peer_id sh)"
proof (cases "\<exists>e. out = (Inl e, b, t)")
  case True
  then show ?thesis using seated_refused by auto
next
  case False
  let ?t = "t\<lparr>ts_inbound := u64_add (ts_inbound t) 1\<rparr>"
  from False have h: "hs_info_hash theirs = sh_info_hash sh" "hs_peer_id theirs \<noteq> sh_peer_id sh"
    and out: "out = finish_attach sh cn remote theirs b ?t"
    using a by (auto simp: attach_accepted_def banned_err_def other_torrent_err_def ourselves_err_def
      split: if_splits option.splits prod.splits sum.splits)
  have "opening_messages sh theirs ?t = opening_messages sh theirs t" by (simp add: opening_messages_def)
  then have "seated sh (cn_now cn) remote theirs b t out"
    using finish_attach_seated [OF lim, of ?t sh cn remote theirs] id out
    by (simp add: seated_def split: prod.splits sum.splits)
  then show ?thesis using h by blast
qed

lemma reachable_fresh:
  assumes "launched sha1 meta st have_set disk"
    and "(torrent_step sha1 (shared_new meta st pid))\<^sup>*\<^sup>* (torrent_new meta have_set mode now0 disk) t"
  shows "ts_next_id t \<notin> pe_id ` set (ts_peers t)" "distinct (map pe_id (ts_peers t))"
proof -
  have "safe (length (mi_pieces meta)) sha1 (shared_new meta st pid) t"
    using tbook.inv_reachable [OF _ assms(2)] assms(1) by blast
  then have "table_inv (length (mi_pieces meta)) t" by (simp add: safe_def)
  then show "ts_next_id t \<notin> pe_id ` set (ts_peers t)" "distinct (map pe_id (ts_peers t))"
    using fresh_id by (blast, simp add: table_inv_def)
qed

text \<open>C7. Attaching is all or nothing, dialled or accepted, on every path through it. On failure, a thread the system would not
  give included, no peer stays in the table and no slot of the client's budget is lost. On success exactly one peer is added, under a fresh id, a slot
  was free and is now taken, our piece set is the first message queued to it, the destination is not banned and had room, and the peer had shaken
  hands for this torrent and is not ourselves.\<close>

theorem attach_all_or_nothing:
  assumes "launched sha1 meta st have_set disk"
    and "(torrent_step sha1 (shared_new meta st pid))\<^sup>*\<^sup>* (torrent_new meta have_set mode now0 disk) t"
    and "sh = shared_new meta st pid" "bg_limit b \<le> usize_max"
    and "attach_abortable sh now us stream cn remote b t = Some out \<and> parsed = hs_parse (take 68 stream) \<or>
      attach_accepted sh now us cn remote hs b t = Some out \<and> parsed = Inr hs"
  shows "case out of
      (Inl e, b', t') \<Rightarrow> b' = b \<and> ts_peers t' = ts_peers t
    | (Inr i, b', t') \<Rightarrow>
        in_use b' = in_use b + 1 \<and> in_use b' \<le> bg_limit b' \<and> bg_limit b' = bg_limit b \<and>
        (\<exists>theirs p. parsed = Inr theirs \<and> hs_info_hash theirs = mi_info_hash meta \<and> hs_peer_id theirs \<noteq> pid \<and>
           ts_peers t' = ts_peers t @ [p] \<and> pe_id p = i \<and> i \<notin> pe_id ` set (ts_peers t) \<and> pe_dest p = remote \<and>
           hd (pe_out p) = BitfieldMsg (bf_as_bytes (pk_have (ts_picker t))) \<and> remote \<notin> ts_banned t \<and>
           length (ts_peers t) < ts_max_peers t \<and> length (filter (\<lambda>p. pe_dest p = remote) (ts_peers t)) < 2)"
proof -
  obtain theirs where s: "seated sh (cn_now cn) remote theirs b t out"
    "\<And>i. fst out = Inr i \<Longrightarrow> parsed = Inr theirs \<and> hs_info_hash theirs = sh_info_hash sh \<and> hs_peer_id theirs \<noteq> sh_peer_id sh"
    using attach_seated [OF assms(4) reachable_fresh(1) [OF assms(1,2)]]
      attach_accepted_seated [OF assms(4) reachable_fresh(1) [OF assms(1,2)]] assms(5) by metis
  obtain r b' t' where out: "out = (r, b', t')" by (cases out)
  show ?thesis
  proof (cases r)
    case (Inl e)
    then show ?thesis using s out by (simp add: seated_def)
  next
    case (Inr i)
    let ?p = "new_peer i remote (opening_messages sh theirs t) False (sh_num_pieces sh) (cn_now cn)"
    have "pe_id ?p = i" "pe_dest ?p = remote" "hd (pe_out ?p) = BitfieldMsg (bf_as_bytes (pk_have (ts_picker t)))"
      by (simp_all add: new_peer_def opening_messages_def)
    moreover have "sh_info_hash sh = mi_info_hash meta" "sh_peer_id sh = pid"
      by (simp_all add: assms(3) shared_new_def Let_def)
    ultimately show ?thesis using s Inr out
      by (auto simp: seated_def in_use_def MAX_CONNECTIONS_PER_DEST_def)
  qed
qed

definition sample_conn :: conn where
  "sample_conn = \<lparr>cn_closer = Inr (), cn_split = Inr (), cn_writer = Inr (), cn_reader = Inr (), cn_now = 3\<rparr>"

definition sample_theirs :: handshake where
  "sample_theirs = \<lparr>hs_info_hash = [], hs_peer_id = [2], hs_extensions = \<lparr>ext_extended = False, ext_fast = True\<rparr>\<rparr>"

definition sample_outcome :: "(io_err + nat) \<times> budget \<times> torrent" where
  "sample_outcome = finish_attach sample_shared sample_conn [9] sample_theirs (budget_new 1) (sample_start\<lparr>ts_inbound := u64_add (ts_inbound sample_start) 1\<rparr>)"

theorem attach_all_or_nothing_witness:
  "attach_accepted sample_shared 0 [\<lparr>tn_now = 0, tn_abort = False, tn_outcome = Inr 68\<rparr>] sample_conn [9] sample_theirs (budget_new 1) sample_start =
     Some sample_outcome \<and>
   (case sample_outcome of
      (Inl e, b', t') \<Rightarrow> False
    | (Inr i, b', t') \<Rightarrow> in_use b' = 1 \<and> (\<exists>p. ts_peers t' = ts_peers sample_start @ [p] \<and> pe_id p = i \<and> pe_dest p = [9]))"
proof -
  have a: "attach_accepted sample_shared 0 [\<lparr>tn_now = 0, tn_abort = False, tn_outcome = Inr 68\<rparr>] sample_conn [9] sample_theirs (budget_new 1) sample_start =
     Some sample_outcome"
  proof -
    have "write_handshake_until (0 + HANDSHAKE_TIMEOUT) [\<lparr>tn_now = 0, tn_abort = False, tn_outcome = Inr 68\<rparr>] (hs_encode (our_handshake sample_shared)) 0 = Some (Inr (), [], 68)"
      by code_simp
    then show ?thesis
      by (simp add: attach_accepted_def sample_outcome_def sample_shared_def shared_new_def sample_meta_def sample_theirs_def
        sample_start_def torrent_new_def Let_def)
  qed
  have ok: "case sample_outcome of (Inl e, b', t') \<Rightarrow> False | (Inr i, b', t') \<Rightarrow> in_use b' = 1" by code_simp
  have lim: "bg_limit (budget_new 1) \<le> usize_max" by (simp add: budget_new_def usize_max_def)
  have r: "(torrent_step sample_sha1 (shared_new sample_meta sample_storage []))\<^sup>*\<^sup>*
      (torrent_new sample_meta (bf_empty 2) RarestFirst 0 (\<lambda>_. [])) sample_start"
    by (simp add: sample_start_def)
  obtain i b' t' where so: "sample_outcome = (Inr i, b', t')" "in_use b' = 1"
    using ok by (auto split: prod.splits sum.splits)
  from attach_all_or_nothing [OF sample_launched r sample_shared_def lim disjI2, OF conjI, OF a refl] a
  show ?thesis unfolding so(1) using so(2) by auto
qed

subsection \<open>The reader thread\<close>

lemma fold_steps: "(\<And>x t. torrent_step sha1 sh t (f x t)) \<Longrightarrow> (torrent_step sha1 sh)\<^sup>*\<^sup>* t (fold f xs t)"
  by (induction xs arbitrary: t) (auto intro: converse_rtranclp_into_rtranclp)

lemma on_message_steps: "(torrent_step sha1 sh)\<^sup>*\<^sup>* t (on_message sha1 flt writing sh now i msg t)"
proof -
  obtain t1 out evict where m: "message_section sha1 flt sh now i msg t = (t1, out, evict)" by (cases "message_section sha1 flt sh now i msg t")
  let ?t2 = "drop_all now evict t1" and ?t3 = "send_all writing now out (drop_all now evict t1)"
  have "torrent_step sha1 sh t t1" using torrent_step.message [of sha1 sh t flt now i msg] m by simp
  also have "(torrent_step sha1 sh)\<^sup>*\<^sup>* t1 ?t2"
    unfolding drop_all_def by (rule fold_steps) (auto intro: torrent_step.remove split: prod.split)
  also have "(torrent_step sha1 sh)\<^sup>*\<^sup>* ?t2 ?t3"
    unfolding send_all_def by (rule fold_steps) (rule torrent_step.send)
  also have "torrent_step sha1 sh ?t3 (check_done ?t3)" by (rule torrent_step.finished)
  finally show ?thesis using m by (simp add: on_message_def)
qed

lemma drop_peer_gone: "distinct (map pe_id (ts_peers t)) \<Longrightarrow> i \<notin> pe_id ` set (ts_peers (drop_peer now i c t))"
proof (cases "position_of i (ts_peers t)")
  case None
  then have "i \<notin> pe_id ` set (ts_peers t)" using position_of_None by blast
  then show ?thesis using None by (simp add: drop_peer_def)
next
  case (Some pos)
  assume d: "distinct (map pe_id (ts_peers t))"
  have p: "pos < length (ts_peers t)" "pe_id (ts_peers t ! pos) = i" using position_of_Some [OF Some] by auto
  have "mset (i # map pe_id (swap_remove pos (ts_peers t))) = mset (map pe_id (ts_peers t))"
    using arg_cong [OF swap_remove_add [OF p(1)], of "image_mset pe_id"] p(2) by simp
  then have "i \<notin> set (map pe_id (swap_remove pos (ts_peers t)))"
    using d mset_eq_imp_distinct_iff by fastforce
  then show ?thesis using Some by (simp add: drop_peer_def Let_def)
qed

definition well_framed :: "arrival \<Rightarrow> bool" where
  "well_framed a \<longleftrightarrow> (\<exists>body m. ar_frame a = Inr body \<and> msg_parse body = Inr m)"

definition peers_doing :: "arrival \<Rightarrow> bool" where
  "peers_doing a \<longleftrightarrow> (case ar_frame a of Inl e \<Rightarrow> fst e = KInvalidData | Inr body \<Rightarrow> \<exists>e. msg_parse body = Inl e)"

lemma spawn_reader_end:
  "spawn_reader sha1 sh i arrivals t = (t', Some cause) \<Longrightarrow>
    \<exists>pre a post t1. arrivals = pre @ a # post \<and> list_all well_framed pre \<and> \<not> well_framed a \<and> cause = peers_doing a \<and>
      (torrent_step sha1 sh)\<^sup>*\<^sup>* t t1 \<and> t' = drop_peer (ar_now a) i cause t1"
proof (induction arrivals arbitrary: t)
  case (Cons a arrivals)
  show ?case
  proof (cases "well_framed a")
    case True
    then obtain body m where b: "ar_frame a = Inr body" "msg_parse body = Inr m" by (auto simp: well_framed_def)
    let ?t = "on_message sha1 (ar_faults a) (ar_writing a) sh (ar_now a) i m t"
    from Cons b have "spawn_reader sha1 sh i arrivals ?t = (t', Some cause)" by simp
    from Cons.IH [OF this] obtain pre a' post t1 where h: "arrivals = pre @ a' # post" "list_all well_framed pre"
      "\<not> well_framed a'" "cause = peers_doing a'" "(torrent_step sha1 sh)\<^sup>*\<^sup>* ?t t1" "t' = drop_peer (ar_now a') i cause t1"
      by blast
    show ?thesis using True h on_message_steps [of sha1 sh t "ar_faults a" "ar_writing a" "ar_now a" i m]
      by (intro exI [of _ "a # pre"] exI [of _ a'] exI [of _ post] exI [of _ t1]) auto
  next
    case False
    then have "t' = drop_peer (ar_now a) i cause t \<and> cause = peers_doing a"
      using Cons.prems by (auto simp: well_framed_def peers_doing_def split: sum.splits)
    then show ?thesis using False by (intro exI [of _ "[]"] exI [of _ a] exI [of _ arrivals] exI [of _ t]) simp
  qed
qed simp

text \<open>C8. However a peer's connection ends, its reader leaves nothing behind: the thread runs nothing but the torrent's own
  critical sections, stops at the first frame that is not a message, and when it is over the peer is out of the table; the removal is for cause
  exactly when that frame was the peer's doing, an oversized frame or one that does not parse, and not when the connection was lost.\<close>

theorem reader_thread_cleans_up:
  assumes "launched sha1 meta st have_set disk"
    and "(torrent_step sha1 (shared_new meta st pid))\<^sup>*\<^sup>* (torrent_new meta have_set mode now disk) t"
    and "spawn_reader sha1 (shared_new meta st pid) i arrivals t = (t', Some cause)"
  shows "(torrent_step sha1 (shared_new meta st pid))\<^sup>*\<^sup>* t t' \<and> i \<notin> pe_id ` set (ts_peers t') \<and>
    (\<exists>pre a post. arrivals = pre @ a # post \<and> list_all well_framed pre \<and> \<not> well_framed a \<and> cause = peers_doing a)"
proof -
  obtain pre a post t1 where h: "arrivals = pre @ a # post" "list_all well_framed pre" "\<not> well_framed a" "cause = peers_doing a"
    "(torrent_step sha1 (shared_new meta st pid))\<^sup>*\<^sup>* t t1" "t' = drop_peer (ar_now a) i cause t1"
    using spawn_reader_end [OF assms(3)] by blast
  have "distinct (map pe_id (ts_peers t1))"
    using reachable_fresh(2) [OF assms(1)] rtranclp_trans [OF assms(2) h(5)] by blast
  then have "i \<notin> pe_id ` set (ts_peers t')" unfolding h(6) by (rule drop_peer_gone)
  moreover have "(torrent_step sha1 (shared_new meta st pid))\<^sup>*\<^sup>* t t'"
    unfolding h(6) using h(5) by (rule rtranclp.rtrancl_into_rtrancl) (rule torrent_step.remove)
  ultimately show ?thesis using h(1-4) by blast
qed

definition sample_arrivals :: "arrival list" where
  "sample_arrivals = [\<lparr>ar_now = 1, ar_faults = no_faults, ar_writing = (\<lambda>_. True), ar_frame = Inr [2]\<rparr>,
     \<lparr>ar_now = 2, ar_faults = no_faults, ar_writing = (\<lambda>_. True), ar_frame = Inr [77, 1]\<rparr>]"

theorem reader_thread_cleans_up_witness:
  "snd (spawn_reader sample_sha1 sample_shared 0 sample_arrivals sample_downloaded) = Some True \<and>
   0 \<notin> pe_id ` set (ts_peers (fst (spawn_reader sample_sha1 sample_shared 0 sample_arrivals sample_downloaded)))"
proof -
  have "snd (spawn_reader sample_sha1 sample_shared 0 sample_arrivals sample_downloaded) = Some True" by code_simp
  then obtain t' where t': "spawn_reader sample_sha1 sample_shared 0 sample_arrivals sample_downloaded = (t', Some True)"
    by (metis prod.collapse)
  from reader_thread_cleans_up [OF sample_launched sample_reachable [unfolded sample_shared_def sample_start_def] t' [unfolded sample_shared_def]]
  show ?thesis using t' by simp
qed

end
