(* ===== verification/Swarm.thy ===== *)
theory Swarm
  imports Attach
begin

text \<open>
  Peer acquisition (\<^verbatim>\<open>crates/clove-core/src/swarm.rs\<close>): the dial sweep with its retry back-off and the workers of one
  wave, the demultiplexer of inbound connections with its bounds on half-open handshakes, and the announce to a tracker.
  Threads are step relations; the dialer, the name resolver and the streams are arguments.
\<close>

subsection \<open>The dial sweep\<close>

record swarm_config =
  sc_dial_timeout :: nat
  sc_sweep_interval :: nat
  sc_retry_backoff :: nat
  sc_max_peers :: nat
  sc_dial_concurrency :: nat

definition swarm_config_default :: swarm_config where
  "swarm_config_default =
     \<lparr>sc_dial_timeout = secs 120, sc_sweep_interval = secs 10, sc_retry_backoff = secs 30, sc_max_peers = 50, sc_dial_concurrency = 8\<rparr>"

definition connected_peers :: "torrent \<Rightarrow> dest list" where
  "connected_peers t = map pe_dest (ts_peers t)"

text \<open>The start of \<^verbatim>\<open>sweep\<close>: the retry table with what has run out removed, and whom to dial; \<open>None\<close> when there is no room. The
  torrent is read twice, and may have changed in between.\<close>

definition sweep_plan ::
  "swarm_config \<Rightarrow> nat \<Rightarrow> (dest, nat) hashmap \<Rightarrow> budget \<Rightarrow> torrent \<Rightarrow> torrent \<Rightarrow> ((dest, nat) hashmap \<times> dest list) option" where
  "sweep_plan cfg now retry b t t' =
     (let connected = connected_peers t;
          room = min (sc_max_peers cfg - length connected) (available b) in
      if room = 0 then None
      else
        let retry = filter (\<lambda>(_, at). at > now) retry in
        Some (retry, take room (filter (\<lambda>p. p \<notin> set connected \<and> map_of retry p = None) (dial_candidates now t'))))"

text \<open>One wave: workers are started one after the other, while those already running draw indices from a shared counter until the candidates
  run out or the swarm is stopped. \<open>wv_left\<close> counts the workers still to be started; when one cannot be started no more are.\<close>

datatype worker = Ready | Go | Dialing dest | Finished

record wave =
  wv_next :: nat
  wv_left :: nat
  wv_workers :: "worker list"
  wv_stop :: bool
  wv_failed :: "dest list"
  wv_dialed :: "dest list"
  wv_attached :: "dest list"

definition wave_start :: "nat \<Rightarrow> bool \<Rightarrow> wave" where
  "wave_start workers stop =
     \<lparr>wv_next = 0, wv_left = workers, wv_workers = [], wv_stop = stop, wv_failed = [], wv_dialed = [], wv_attached = []\<rparr>"

definition worker_count :: "swarm_config \<Rightarrow> dest list \<Rightarrow> nat" where
  "worker_count cfg candidates = min (max (sc_dial_concurrency cfg) 1) (length candidates)"

inductive wave_step :: "dest list \<Rightarrow> wave \<Rightarrow> wave \<Rightarrow> bool" for candidates where
  raise_stop: "wave_step candidates w (w\<lparr>wv_stop := True\<rparr>)"
| spawned: "0 < wv_left w \<Longrightarrow> wave_step candidates w (w\<lparr>wv_left := wv_left w - 1, wv_workers := wv_workers w @ [Ready]\<rparr>)"
| not_spawned: "0 < wv_left w \<Longrightarrow> wave_step candidates w (w\<lparr>wv_left := 0\<rparr>)"
| stopped: "i < length (wv_workers w) \<Longrightarrow> wv_workers w ! i = Ready \<Longrightarrow> wv_stop w \<Longrightarrow>
    wave_step candidates w (w\<lparr>wv_workers := (wv_workers w)[i := Finished]\<rparr>)"
| going: "i < length (wv_workers w) \<Longrightarrow> wv_workers w ! i = Ready \<Longrightarrow> \<not> wv_stop w \<Longrightarrow>
    wave_step candidates w (w\<lparr>wv_workers := (wv_workers w)[i := Go]\<rparr>)"
| take_one: "i < length (wv_workers w) \<Longrightarrow> wv_workers w ! i = Go \<Longrightarrow> wv_next w < length candidates \<Longrightarrow>
    wave_step candidates w (w\<lparr>wv_next := wv_next w + 1, wv_workers := (wv_workers w)[i := Dialing (candidates ! wv_next w)],
      wv_dialed := wv_dialed w @ [candidates ! wv_next w]\<rparr>)"
| exhausted: "i < length (wv_workers w) \<Longrightarrow> wv_workers w ! i = Go \<Longrightarrow> length candidates \<le> wv_next w \<Longrightarrow>
    wave_step candidates w (w\<lparr>wv_next := wv_next w + 1, wv_workers := (wv_workers w)[i := Finished]\<rparr>)"
| attached: "i < length (wv_workers w) \<Longrightarrow> wv_workers w ! i = Dialing p \<Longrightarrow>
    wave_step candidates w (w\<lparr>wv_workers := (wv_workers w)[i := Ready], wv_attached := p # wv_attached w\<rparr>)"
| failed: "i < length (wv_workers w) \<Longrightarrow> wv_workers w ! i = Dialing p \<Longrightarrow>
    wave_step candidates w (w\<lparr>wv_workers := (wv_workers w)[i := Ready], wv_failed := wv_failed w @ [p]\<rparr>)"

inductive_cases wave_stepE: "wave_step candidates w w'"

definition wave_over :: "wave \<Rightarrow> bool" where
  "wave_over w \<longleftrightarrow> wv_left w = 0 \<and> list_all (\<lambda>x. x = Finished) (wv_workers w)"

text \<open>The end of \<^verbatim>\<open>sweep\<close>.\<close>

definition sweep_record :: "swarm_config \<Rightarrow> nat \<Rightarrow> dest list \<Rightarrow> (dest, nat) hashmap \<Rightarrow> (dest, nat) hashmap" where
  "sweep_record cfg now failed retry = fold (\<lambda>p. hm_insert p (now + sc_retry_backoff cfg)) failed retry"

subsection \<open>Inbound connections\<close>

definition MAX_PENDING_HANDSHAKES :: nat where "MAX_PENDING_HANDSHAKES = 64"
definition INBOUND_HANDSHAKE_TIMEOUT :: nat where "INBOUND_HANDSHAKE_TIMEOUT = secs 30"

record demux =
  dm_torrents :: "(bytes, torrent) hashmap"
  dm_max_peers :: nat
  dm_stopped :: bool
  dm_local_dest :: "dest option"
  dm_pending :: nat
  dm_by_dest :: "(dest, nat) hashmap"

definition demux_new :: "nat \<Rightarrow> demux" where
  "demux_new max_peers =
     \<lparr>dm_torrents = [], dm_max_peers = max_peers, dm_stopped = False, dm_local_dest = None, dm_pending = 0, dm_by_dest = []\<rparr>"

text \<open>The part of \<^verbatim>\<open>admit_pending\<close> under the per-destination lock; the global count was read before it.\<close>

definition admit_locked :: "dest \<Rightarrow> demux \<Rightarrow> demux \<times> bool" where
  "admit_locked frm d =
     (let c = (case map_of (dm_by_dest d) frm of Some n \<Rightarrow> n | None \<Rightarrow> 0);
          d = d\<lparr>dm_by_dest := hm_insert frm c (dm_by_dest d)\<rparr> in
      if c \<ge> MAX_CONNECTIONS_PER_DEST then
        (if c = 0 then d\<lparr>dm_by_dest := hm_remove frm (dm_by_dest d)\<rparr> else d, False)
      else (d\<lparr>dm_by_dest := hm_insert frm (c + 1) (dm_by_dest d), dm_pending := u64_add (dm_pending d) 1\<rparr>, True))"

definition admit_pending :: "dest \<Rightarrow> demux \<Rightarrow> demux \<times> bool" where
  "admit_pending frm d = (if dm_pending d \<ge> MAX_PENDING_HANDSHAKES then (d, False) else admit_locked frm d)"

text \<open>\<^verbatim>\<open>PendingGuard::drop\<close>: first the global count, then the destination's, under its lock.\<close>

definition guard_drop_global :: "demux \<Rightarrow> demux" where
  "guard_drop_global d = d\<lparr>dm_pending := (dm_pending d + 2 ^ 64 - 1) mod 2 ^ 64\<rparr>"

definition guard_drop_dest :: "dest \<Rightarrow> demux \<Rightarrow> demux" where
  "guard_drop_dest frm d =
     (case map_of (dm_by_dest d) frm of
        Some n \<Rightarrow>
          (let c = n - 1 in
           if c = 0 then d\<lparr>dm_by_dest := hm_remove frm (dm_by_dest d)\<rparr>
           else d\<lparr>dm_by_dest := hm_insert frm c (dm_by_dest d)\<rparr>)
      | None \<Rightarrow> d)"

definition demux_register :: "bytes \<Rightarrow> torrent \<Rightarrow> demux \<Rightarrow> demux" where
  "demux_register info_hash t d =
     (let t = (case dm_local_dest d of Some dest \<Rightarrow> set_local_dest dest t | None \<Rightarrow> t);
          t = set_max_peers (dm_max_peers d) t in
      d\<lparr>dm_torrents := hm_insert info_hash t (dm_torrents d)\<rparr>)"

definition demux_unregister :: "bytes \<Rightarrow> demux \<Rightarrow> demux" where
  "demux_unregister info_hash d = d\<lparr>dm_torrents := hm_remove info_hash (dm_torrents d)\<rparr>"

definition demux_stop :: "demux \<Rightarrow> demux" where
  "demux_stop d = d\<lparr>dm_stopped := True\<rparr>"

definition demux_listen :: "dest \<Rightarrow> demux \<Rightarrow> demux" where
  "demux_listen local d =
     d\<lparr>dm_local_dest := Some local, dm_torrents := map (\<lambda>(h, t). (h, set_local_dest local t)) (dm_torrents d)\<rparr>"

text \<open>\<^verbatim>\<open>route\<close>, once the handshake has been read: the torrent to attach to, if any. The attach itself is \<open>attach_accepted\<close>.\<close>

definition route :: "(io_err + handshake) \<Rightarrow> dest \<Rightarrow> budget \<Rightarrow> demux \<Rightarrow> (torrent \<times> handshake) option" where
  "route hs frm b d =
     (case hs of
        Inl _ \<Rightarrow> None
      | Inr theirs \<Rightarrow>
          (case map_of (dm_torrents d) (hs_info_hash theirs) of
             None \<Rightarrow> None
           | Some t \<Rightarrow>
               if frm \<in> ts_banned t then None
               else
                 let connected = connected_peers t in
                 if length connected \<ge> dm_max_peers d \<or> available b = 0 then None
                 else if length (filter (\<lambda>x. x = frm) connected) \<ge> MAX_CONNECTIONS_PER_DEST then None
                 else Some (t, theirs)))"

text \<open>The accept loop and the routing threads. The loop reads the global count and then takes the lock; a routing thread's
  guard is live, then has given back its global count, then is gone.\<close>

datatype guard = Live dest | Half dest

record dsys =
  ds_demux :: demux
  ds_guards :: "guard list"
  ds_admitting :: "dest option"

definition dsys_init :: "nat \<Rightarrow> dsys" where
  "dsys_init max_peers = \<lparr>ds_demux = demux_new max_peers, ds_guards = [], ds_admitting = None\<rparr>"

inductive dstep :: "dsys \<Rightarrow> dsys \<Rightarrow> bool" where
  refuse_global: "ds_admitting s = None \<Longrightarrow> dm_pending (ds_demux s) \<ge> MAX_PENDING_HANDSHAKES \<Longrightarrow> dstep s s"
| check_global: "ds_admitting s = None \<Longrightarrow> dm_pending (ds_demux s) < MAX_PENDING_HANDSHAKES \<Longrightarrow>
    dstep s (s\<lparr>ds_admitting := Some frm\<rparr>)"
| refuse_dest: "ds_admitting s = Some frm \<Longrightarrow> admit_locked frm (ds_demux s) = (d, False) \<Longrightarrow>
    dstep s (s\<lparr>ds_demux := d, ds_admitting := None\<rparr>)"
| admit: "ds_admitting s = Some frm \<Longrightarrow> admit_locked frm (ds_demux s) = (d, True) \<Longrightarrow>
    dstep s (s\<lparr>ds_demux := d, ds_admitting := None, ds_guards := Live frm # ds_guards s\<rparr>)"
| drop_global: "Live frm \<in> set (ds_guards s) \<Longrightarrow>
    dstep s (s\<lparr>ds_demux := guard_drop_global (ds_demux s), ds_guards := Half frm # remove1 (Live frm) (ds_guards s)\<rparr>)"
| drop_dest: "Half frm \<in> set (ds_guards s) \<Longrightarrow>
    dstep s (s\<lparr>ds_demux := guard_drop_dest frm (ds_demux s), ds_guards := remove1 (Half frm) (ds_guards s)\<rparr>)"
| register: "dstep s (s\<lparr>ds_demux := demux_register h t (ds_demux s)\<rparr>)"
| unregister: "dstep s (s\<lparr>ds_demux := demux_unregister h (ds_demux s)\<rparr>)"
| stop: "dstep s (s\<lparr>ds_demux := demux_stop (ds_demux s)\<rparr>)"
| listen: "dstep s (s\<lparr>ds_demux := demux_listen l (ds_demux s)\<rparr>)"

inductive_cases dstepE: "dstep s s'"

subsection \<open>Lemmas: the wave\<close>

definition dialing :: "wave \<Rightarrow> dest list" where
  "dialing w = List.map_filter (\<lambda>x. case x of Dialing p \<Rightarrow> Some p | _ \<Rightarrow> None) (wv_workers w)"

definition wave_inv :: "dest list \<Rightarrow> nat \<Rightarrow> wave \<Rightarrow> bool" where
  "wave_inv candidates n w \<longleftrightarrow>
     length (wv_workers w) + wv_left w \<le> n \<and> wv_dialed w = take (wv_next w) candidates \<and>
     mset (wv_dialed w) = mset (wv_attached w) + mset (wv_failed w) + mset (dialing w) \<and>
     (\<not> wv_stop w \<longrightarrow> Finished \<in> set (wv_workers w) \<longrightarrow> length candidates \<le> wv_next w)"

lemma dialing_Nil: "wave_over w \<Longrightarrow> dialing w = []"
  by (auto simp: wave_over_def dialing_def List.map_filter_def filter_empty_conv list_all_iff split: worker.splits)

lemma length_map_filter: "length (List.map_filter f xs) \<le> length xs"
  by (simp add: List.map_filter_def)

lemma mset_map_filter_update:
  "i < length xs \<Longrightarrow> mset (List.map_filter f (xs[i := x])) + (case f (xs ! i) of Some p \<Rightarrow> {#p#} | None \<Rightarrow> {#}) =
     mset (List.map_filter f xs) + (case f x of Some p \<Rightarrow> {#p#} | None \<Rightarrow> {#})"
proof (induction xs arbitrary: i)
  case (Cons y xs)
  show ?case
  proof (cases i)
    case 0
    then show ?thesis by (auto simp: List.map_filter_def split: option.splits)
  next
    case (Suc j)
    then have "mset (List.map_filter f (xs[j := x])) + (case f (xs ! j) of Some p \<Rightarrow> {#p#} | None \<Rightarrow> {#}) =
        mset (List.map_filter f xs) + (case f x of Some p \<Rightarrow> {#p#} | None \<Rightarrow> {#})"
      using Cons by simp
    then show ?thesis using Suc by (cases "f y") (auto simp: List.map_filter_def)
  qed
qed simp

lemma dialing_update:
  assumes "i < length (wv_workers w)"
  shows "mset (dialing (w\<lparr>wv_workers := (wv_workers w)[i := x]\<rparr>)) + (case wv_workers w ! i of Dialing p \<Rightarrow> {#p#} | _ \<Rightarrow> {#}) =
    mset (dialing w) + (case x of Dialing p \<Rightarrow> {#p#} | _ \<Rightarrow> {#})"
  using mset_map_filter_update [OF assms, of "\<lambda>x. case x of Dialing p \<Rightarrow> Some p | _ \<Rightarrow> None" x]
  by (simp add: dialing_def split: worker.splits)

lemma dialing_cong: "wv_workers w' = wv_workers w \<Longrightarrow> dialing w' = dialing w"
  by (simp add: dialing_def)

lemma set_update_Finished:
  "x \<noteq> Finished \<Longrightarrow> Finished \<in> set (ws[i := x]) \<Longrightarrow> Finished \<in> set ws"
  using set_update_subset_insert [of ws i x] by auto

lemma wave_inv_step:
  assumes inv: "wave_inv candidates n w" and step: "wave_step candidates w w'"
  shows "wave_inv candidates n w'"
proof -
  have i: "length (wv_workers w) + wv_left w \<le> n" "wv_dialed w = take (wv_next w) candidates"
    "mset (wv_dialed w) = mset (wv_attached w) + mset (wv_failed w) + mset (dialing w)"
    "\<not> wv_stop w \<Longrightarrow> Finished \<in> set (wv_workers w) \<Longrightarrow> length candidates \<le> wv_next w"
    using inv by (auto simp: wave_inv_def)
  have d: "mset (dialing w') + (case wv_workers w ! j of Dialing p \<Rightarrow> {#p#} | _ \<Rightarrow> {#}) = mset (dialing w) + (case x of Dialing p \<Rightarrow> {#p#} | _ \<Rightarrow> {#})"
    if "j < length (wv_workers w)" "wv_workers w' = (wv_workers w)[j := x]" for j x
    using dialing_update [OF that(1), of x] dialing_cong [of w' "w\<lparr>wv_workers := (wv_workers w)[j := x]\<rparr>"] that(2) by simp
  from step show ?thesis
  proof cases
    case raise_stop
    then show ?thesis using i dialing_cong [of w' w] by (simp add: wave_inv_def)
  next
    case spawned
    then show ?thesis using i by (auto simp: wave_inv_def dialing_def List.map_filter_def)
  next
    case not_spawned
    then show ?thesis using i dialing_cong [of w' w] by (simp add: wave_inv_def)
  next
    case (stopped j)
    then show ?thesis using i d [of j Finished] by (simp add: wave_inv_def)
  next
    case (going j)
    then show ?thesis using i d [of j Go] set_update_Finished [of Go "wv_workers w" j] by (simp add: wave_inv_def)
  next
    case (take_one j)
    then show ?thesis using i d [of j "Dialing (candidates ! wv_next w)"] set_update_Finished [of "Dialing (candidates ! wv_next w)" "wv_workers w" j]
      by (auto simp: wave_inv_def take_Suc_conv_app_nth)
  next
    case (exhausted j)
    then show ?thesis using i d [of j Finished] by (simp add: wave_inv_def)
  next
    case (attached j p)
    then show ?thesis using i d [of j Ready] set_update_Finished [of Ready "wv_workers w" j] by (simp add: wave_inv_def)
  next
    case (failed j p)
    then show ?thesis using i d [of j Ready] set_update_Finished [of Ready "wv_workers w" j] by (simp add: wave_inv_def)
  qed
qed

lemma wave_inv_start: "wave_inv candidates n (wave_start n stop)"
  by (auto simp: wave_inv_def wave_start_def dialing_def List.map_filter_def)

interpretation waves: transition_system "\<lambda>w. \<exists>stop. w = wave_start n stop" "wave_step candidates" "wave_inv candidates n"
  for candidates n
  by unfold_locales (auto intro: wave_inv_start wave_inv_step)

lemma sweep_record_get:
  "map_of (sweep_record cfg now failed retry) p = (if p \<in> set failed then Some (now + sc_retry_backoff cfg) else map_of retry p)"
  unfolding sweep_record_def by (induction failed arbitrary: retry) auto

lemma sweep_plan_chosen:
  assumes "sweep_plan cfg now retry b t t' = Some (retry', candidates)" "p \<in> set candidates"
  shows "p \<in> set (dial_candidates now t')" "p \<notin> set (connected_peers t)" "(p, at) \<in> set retry \<Longrightarrow> at \<le> now"
proof -
  have c: "retry' = filter (\<lambda>(_, at). at > now) retry"
    "candidates = take (min (sc_max_peers cfg - length (connected_peers t)) (available b))
       (filter (\<lambda>p. p \<notin> set (connected_peers t) \<and> map_of retry' p = None) (dial_candidates now t'))"
    using assms(1) by (auto simp: sweep_plan_def Let_def split: if_splits)
  have p: "p \<in> set (filter (\<lambda>p. p \<notin> set (connected_peers t) \<and> map_of retry' p = None) (dial_candidates now t'))"
    using assms(2) unfolding c(2) by (rule in_set_takeD)
  then show "p \<in> set (dial_candidates now t')" "p \<notin> set (connected_peers t)" by auto
  assume "(p, at) \<in> set retry"
  moreover have "map_of retry' p = None" using p by simp
  ultimately show "at \<le> now" unfolding c(1) by (force simp: map_of_eq_None_iff image_iff)
qed

lemma sweep_plan_fresh:
  assumes "sweep_plan cfg now retry b t t' = Some (retry', candidates)" "p \<in> set candidates"
  shows "map_of retry' p = None"
  using assms by (auto simp: sweep_plan_def Let_def split: if_splits dest: in_set_takeD)

text \<open>C9. The dial sweep is bounded and patient. However the workers of a wave interleave, each candidate is dialled at most once, no more than there is
  room for and no more than the configured number at a time; nobody is dialled who is banned, held off, ourselves, connected already, or whose
  retry time has not come. When the wave is over every dial is accounted for as an attached peer or a failure; and unless it was told to stop, or not
  even one worker could be started, every candidate was dialled, however many workers could not be. A peer that failed is not chosen by the
  next sweep before its back-off is over, while a candidate nobody reached is not held off.\<close>

theorem sweep_discipline:
  assumes "distinct (map fst (ts_known_peers t'))" "sweep_plan cfg now retry b t t' = Some (retry', candidates)"
    and "(wave_step candidates)\<^sup>*\<^sup>* (wave_start (worker_count cfg candidates) stop) w"
  shows "distinct (wv_dialed w) \<and> length (wv_dialed w) \<le> sc_max_peers cfg - length (ts_peers t) \<and> length (wv_dialed w) \<le> available b \<and>
    length (dialing w) \<le> max (sc_dial_concurrency cfg) 1 \<and>
    (\<forall>p \<in> set (wv_dialed w). p \<notin> ts_banned t' \<and> ts_local_dest t' \<noteq> Some p \<and> held_for p now t' = None \<and>
       p \<notin> pe_dest ` set (ts_peers t) \<and> (\<forall>at. (p, at) \<in> set retry \<longrightarrow> at \<le> now)) \<and>
    (wave_over w \<longrightarrow> mset (wv_dialed w) = mset (wv_attached w) + mset (wv_failed w) \<and> (\<not> wv_stop w \<longrightarrow> wv_workers w \<noteq> [] \<longrightarrow> wv_dialed w = candidates)) \<and>
    (\<forall>p now1. p \<in> set candidates \<longrightarrow> p \<notin> set (wv_failed w) \<longrightarrow> map_of (sweep_record cfg now1 (wv_failed w) retry') p = None) \<and>
    (\<forall>p now1 now2 b2 t2 t2' retry2 candidates2. p \<in> set (wv_failed w) \<longrightarrow> now2 < now1 + sc_retry_backoff cfg \<longrightarrow>
       sweep_plan cfg now2 (sweep_record cfg now1 (wv_failed w) retry') b2 t2 t2' = Some (retry2, candidates2) \<longrightarrow> p \<notin> set candidates2)"
proof -
  have inv: "wave_inv candidates (worker_count cfg candidates) w" using waves.inv_reachable [OF _ assms(3)] by blast
  then have i: "length (wv_workers w) + wv_left w \<le> worker_count cfg candidates" "wv_dialed w = take (wv_next w) candidates"
    "mset (wv_dialed w) = mset (wv_attached w) + mset (wv_failed w) + mset (dialing w)"
    "\<not> wv_stop w \<Longrightarrow> Finished \<in> set (wv_workers w) \<Longrightarrow> length candidates \<le> wv_next w"
    by (auto simp: wave_inv_def)
  have room: "length candidates \<le> sc_max_peers cfg - length (ts_peers t)" "length candidates \<le> available b" "distinct candidates"
    using assms(1,2) by (auto simp: sweep_plan_def Let_def connected_peers_def dial_candidates_def split: if_splits)
  have sub: "set (wv_dialed w) \<subseteq> set candidates" unfolding i(2) by (rule set_take_subset)
  have "distinct (wv_dialed w) \<and> length (wv_dialed w) \<le> length candidates" using room(3) by (simp add: i(2))
  moreover have "length (dialing w) \<le> max (sc_dial_concurrency cfg) 1"
  proof -
    have "length (dialing w) \<le> length (wv_workers w)" unfolding dialing_def by (rule length_map_filter)
    then show ?thesis using i(1) unfolding worker_count_def by linarith
  qed
  moreover have "p \<notin> ts_banned t' \<and> ts_local_dest t' \<noteq> Some p \<and> held_for p now t' = None \<and>
       p \<notin> pe_dest ` set (ts_peers t) \<and> (\<forall>at. (p, at) \<in> set retry \<longrightarrow> at \<le> now)" if "p \<in> set (wv_dialed w)" for p
    using sweep_plan_chosen [OF assms(2), of p] that sub by (auto simp: dial_candidates_def connected_peers_def)
  moreover have "wv_dialed w = candidates" if "wave_over w" "\<not> wv_stop w" "wv_workers w \<noteq> []"
  proof -
    have "Finished \<in> set (wv_workers w)" using that(1,3) by (cases "wv_workers w") (auto simp: wave_over_def)
    then show ?thesis using i(2,4) that(2) by simp
  qed
  moreover have "map_of (sweep_record cfg now1 (wv_failed w) retry') p = None" if "p \<in> set candidates" "p \<notin> set (wv_failed w)" for p now1
    using sweep_plan_fresh [OF assms(2) that(1)] that(2) by (simp add: sweep_record_get)
  moreover have "mset (wv_dialed w) = mset (wv_attached w) + mset (wv_failed w)" if "wave_over w"
    using i(3) dialing_Nil [OF that] by simp
  moreover have "p \<notin> set candidates2"
    if p: "p \<in> set (wv_failed w)" and late: "now2 < now1 + sc_retry_backoff cfg"
      and plan: "sweep_plan cfg now2 (sweep_record cfg now1 (wv_failed w) retry') b2 t2 t2' = Some (retry2, candidates2)"
    for p now1 now2 b2 t2 t2' retry2 candidates2
  proof
    assume "p \<in> set candidates2"
    note at = sweep_plan_chosen(3) [OF plan this]
    have "(p, now1 + sc_retry_backoff cfg) \<in> set (sweep_record cfg now1 (wv_failed w) retry')"
      using sweep_record_get [of cfg now1 "wv_failed w" retry' p] p by (intro map_of_SomeD) simp
    from at [OF this] late show False by simp
  qed
  ultimately show ?thesis using room by auto
qed

definition sample_swarm :: torrent where
  "sample_swarm = add_peers [[5], [6]] sample_start"

theorem sweep_discipline_witness:
  "\<exists>w. (wave_step [[5], [6]])\<^sup>*\<^sup>* (wave_start 2 False) w \<and> wv_failed w = [[5]] \<and> distinct (wv_dialed w) \<and> length (wv_dialed w) \<le> available (budget_new 9)"
proof -
  have d: "distinct (map fst (ts_known_peers sample_swarm))" by code_simp
  have p: "sweep_plan swarm_config_default 0 [] (budget_new 9) sample_swarm sample_swarm = Some ([], [[5], [6]])" by code_simp
  have n: "worker_count swarm_config_default [[5], [6]] = 2" by code_simp
  define w0 where "w0 = (wave_start 2 False)\<lparr>wv_left := 1, wv_workers := [Ready]\<rparr>"
  define w1 where "w1 = w0\<lparr>wv_workers := (wv_workers w0)[0 := Go]\<rparr>"
  define w2 where "w2 = w1\<lparr>wv_next := wv_next w1 + 1, wv_workers := (wv_workers w1)[0 := Dialing ([[5], [6]] ! wv_next w1)],
      wv_dialed := wv_dialed w1 @ [[[5], [6]] ! wv_next w1]\<rparr>"
  define w3 where "w3 = w2\<lparr>wv_workers := (wv_workers w2)[0 := Ready], wv_failed := wv_failed w2 @ [[5]]\<rparr>"
  have "wave_step [[5], [6]] (wave_start 2 False) w0"
    using spawned [of "wave_start 2 False" "[[5], [6]]"] by (simp add: w0_def wave_start_def)
  moreover have "wave_step [[5], [6]] w0 w1" unfolding w1_def by (rule going) (simp_all add: w0_def wave_start_def)
  moreover have "wave_step [[5], [6]] w1 w2" unfolding w2_def by (rule take_one) (simp_all add: w1_def w0_def wave_start_def)
  moreover have "wave_step [[5], [6]] w2 w3" unfolding w3_def by (rule failed) (simp_all add: w2_def w1_def w0_def wave_start_def)
  ultimately have r: "(wave_step [[5], [6]])\<^sup>*\<^sup>* (wave_start 2 False) w3" by (meson converse_rtranclp_into_rtranclp rtranclp.rtrancl_refl)
  have f: "wv_failed w3 = [[5]]" by (simp add: w3_def w2_def w1_def w0_def wave_start_def)
  from sweep_discipline [OF d p, unfolded n, OF r] r f show ?thesis by blast
qed

subsection \<open>Lemmas: half-open connections\<close>

fun is_live :: "guard \<Rightarrow> bool" where
  "is_live (Live _) = True"
| "is_live (Half _) = False"

fun guard_dest :: "guard \<Rightarrow> dest" where
  "guard_dest (Live d) = d"
| "guard_dest (Half d) = d"

definition live_count :: "dsys \<Rightarrow> nat" where
  "live_count s = length (filter is_live (ds_guards s))"

definition dest_count :: "dest \<Rightarrow> dsys \<Rightarrow> nat" where
  "dest_count d s = length (filter (\<lambda>g. guard_dest g = d) (ds_guards s))"

definition recorded :: "dest \<Rightarrow> demux \<Rightarrow> nat" where
  "recorded d m = (case map_of (dm_by_dest m) d of Some n \<Rightarrow> n | None \<Rightarrow> 0)"

definition demux_inv :: "dsys \<Rightarrow> bool" where
  "demux_inv s \<longleftrightarrow>
     dm_pending (ds_demux s) = live_count s \<and> live_count s + (if ds_admitting s = None then 0 else 1) \<le> MAX_PENDING_HANDSHAKES \<and>
     (\<forall>d. recorded d (ds_demux s) = dest_count d s \<and> map_of (dm_by_dest (ds_demux s)) d \<noteq> Some 0 \<and> dest_count d s \<le> MAX_CONNECTIONS_PER_DEST)"

lemma filter_remove1_length:
  "x \<in> set xs \<Longrightarrow> length (filter P (remove1 x xs)) + (if P x then 1 else 0) = length (filter P xs)"
  by (induction xs) auto

lemma admit_locked_cases:
  assumes "admit_locked frm m = (m', ok)" "map_of (dm_by_dest m) frm \<noteq> Some 0"
  shows "recorded x m' = (if ok \<and> x = frm then Suc (recorded frm m) else recorded x m)"
    and "map_of (dm_by_dest m) x \<noteq> Some 0 \<Longrightarrow> map_of (dm_by_dest m') x \<noteq> Some 0"
    and "ok \<longleftrightarrow> recorded frm m < MAX_CONNECTIONS_PER_DEST"
    and "dm_pending m' = (if ok then u64_add (dm_pending m) 1 else dm_pending m)"
  using assms by (auto simp: recorded_def admit_locked_def Let_def MAX_CONNECTIONS_PER_DEST_def split: if_splits option.splits)

lemma guard_drop_dest_recorded:
  assumes "\<And>d. map_of (dm_by_dest m) d \<noteq> Some 0"
  shows "recorded x (guard_drop_dest frm m) = (if x = frm then recorded frm m - 1 else recorded x m)"
    and "map_of (dm_by_dest (guard_drop_dest frm m)) x \<noteq> Some 0"
    and "dm_pending (guard_drop_dest frm m) = dm_pending m"
  using assms by (auto simp: recorded_def guard_drop_dest_def Let_def split: option.splits)

lemma demux_inv_settings:
  "demux_inv s \<Longrightarrow> dm_pending d = dm_pending (ds_demux s) \<Longrightarrow> dm_by_dest d = dm_by_dest (ds_demux s) \<Longrightarrow> demux_inv (s\<lparr>ds_demux := d\<rparr>)"
  by (simp add: demux_inv_def live_count_def dest_count_def recorded_def)

lemma demux_inv_step:
  assumes inv: "demux_inv s" and step: "dstep s s'"
  shows "demux_inv s'"
proof -
  have i: "dm_pending (ds_demux s) = live_count s" "live_count s + (if ds_admitting s = None then 0 else 1) \<le> MAX_PENDING_HANDSHAKES"
    "\<And>d. recorded d (ds_demux s) = dest_count d s" "\<And>d. map_of (dm_by_dest (ds_demux s)) d \<noteq> Some 0"
    "\<And>d. dest_count d s \<le> MAX_CONNECTIONS_PER_DEST"
    using inv by (auto simp: demux_inv_def)
  from step show ?thesis
  proof cases
    case refuse_global
    then show ?thesis using inv by simp
  next
    case (check_global frm)
    then show ?thesis using i by (simp add: demux_inv_def live_count_def dest_count_def)
  next
    case (refuse_dest frm d)
    note a = admit_locked_cases [OF refuse_dest(3) i(4)]
    then show ?thesis using refuse_dest(1,2) i by (simp add: demux_inv_def live_count_def dest_count_def)
  next
    case (admit frm d)
    note a = admit_locked_cases [OF admit(3) i(4)]
    have "u64_add (live_count s) 1 = Suc (live_count s)" using i(2) by (simp add: u64_add_def MAX_PENDING_HANDSHAKES_def)
    then have "dm_pending d = live_count s'" using a(4) admit(1) i(1) by (simp add: live_count_def)
    moreover have "live_count s' \<le> MAX_PENDING_HANDSHAKES" using i(2) admit(1,2) by (simp add: live_count_def)
    moreover have "recorded x d = dest_count x s' \<and> map_of (dm_by_dest d) x \<noteq> Some 0 \<and> dest_count x s' \<le> MAX_CONNECTIONS_PER_DEST" for x
      using a(1) [of x] a(2) [of x] a(3) i(3,4,5) [of x] i(3) [of frm] admit(1) by (auto simp: dest_count_def)
    ultimately show ?thesis using admit(1) by (simp add: demux_inv_def)
  next
    case (drop_global frm)
    have l: "live_count s = Suc (live_count s')"
      using filter_remove1_length [OF drop_global(2), of is_live] drop_global(1) by (simp add: live_count_def)
    have dc: "dest_count x s' = dest_count x s" for x
      using filter_remove1_length [OF drop_global(2), of "\<lambda>g. guard_dest g = x"] drop_global(1) by (auto simp: dest_count_def)
    have "live_count s' < 2 ^ 64" using l i(2) by (simp add: MAX_PENDING_HANDSHAKES_def)
    then have "(live_count s + 2 ^ 64 - 1) mod 2 ^ 64 = live_count s'" unfolding l by simp
    then have "dm_pending (ds_demux s') = live_count s'" "dm_by_dest (ds_demux s') = dm_by_dest (ds_demux s)" "ds_admitting s' = ds_admitting s"
      using i(1) drop_global(1) by (simp_all add: guard_drop_global_def)
    then show ?thesis using i(2-5) l dc unfolding demux_inv_def recorded_def by auto
  next
    case (drop_dest frm)
    note g = guard_drop_dest_recorded [OF i(4)]
    have lc: "live_count s' = live_count s"
      using filter_remove1_length [OF drop_dest(2), of is_live] drop_dest(1) by (simp add: live_count_def)
    have dc: "dest_count x s = dest_count x s' + (if x = frm then 1 else 0)" for x
      using filter_remove1_length [OF drop_dest(2), of "\<lambda>g. guard_dest g = x"] drop_dest(1) by (auto simp: dest_count_def)
    have "recorded x (guard_drop_dest frm (ds_demux s)) = dest_count x s' \<and> dest_count x s' \<le> MAX_CONNECTIONS_PER_DEST" for x
      using g(1) [of x frm] i(3) [of x] i(3) [of frm] i(5) [of x] dc [of x] by (simp split: if_splits)
    then show ?thesis using i(1,2) g(2,3) drop_dest(1) lc by (simp add: demux_inv_def)
  qed (simp_all add: demux_inv_settings inv demux_register_def demux_unregister_def demux_stop_def demux_listen_def Let_def)
qed

lemma demux_inv_init: "demux_inv (dsys_init n)"
  by (simp add: demux_inv_def dsys_init_def demux_new_def live_count_def dest_count_def recorded_def MAX_PENDING_HANDSHAKES_def)

interpretation demuxes: transition_system "\<lambda>s. \<exists>n. s = dsys_init n" dstep demux_inv
  by unfold_locales (auto intro: demux_inv_init demux_inv_step)

text \<open>C10. A flood of connections that never speak is bounded, and nothing is leaked. Whatever the interleaving of the accept loop with the routing threads ending,
  at most 64 connections wait for their handshake, of which at most two are from one destination; both counts are exactly what is outstanding, so that when all threads are done the table is empty; and a connection is
  refused only when one of the two bounds is met.\<close>

theorem pending_handshakes_bounded:
  assumes "dstep\<^sup>*\<^sup>* (dsys_init n) s"
  shows "dm_pending (ds_demux s) = length (filter is_live (ds_guards s)) \<and> dm_pending (ds_demux s) \<le> 64 \<and>
    (\<forall>d. recorded d (ds_demux s) = length (filter (\<lambda>g. guard_dest g = d) (ds_guards s)) \<and>
       length (filter (\<lambda>g. guard_dest g = d) (ds_guards s)) \<le> 2) \<and>
    (ds_guards s = [] \<longrightarrow> dm_pending (ds_demux s) = 0 \<and> dm_by_dest (ds_demux s) = []) \<and>
    (\<forall>d. snd (admit_pending d (ds_demux s)) \<longleftrightarrow>
       length (filter is_live (ds_guards s)) < 64 \<and> length (filter (\<lambda>g. guard_dest g = d) (ds_guards s)) < 2)"
proof -
  have inv: "demux_inv s" using demuxes.inv_reachable [OF _ assms] by blast
  then have i: "dm_pending (ds_demux s) = live_count s" "live_count s \<le> 64" "\<And>d. recorded d (ds_demux s) = dest_count d s"
    "\<And>d. map_of (dm_by_dest (ds_demux s)) d \<noteq> Some 0" "\<And>d. dest_count d s \<le> 2"
    by (auto simp: demux_inv_def MAX_PENDING_HANDSHAKES_def MAX_CONNECTIONS_PER_DEST_def split: if_splits)
  have "dm_by_dest (ds_demux s) = []" if "ds_guards s = []"
  proof (rule ccontr)
    assume "dm_by_dest (ds_demux s) \<noteq> []"
    then obtain d k rest where e: "dm_by_dest (ds_demux s) = (d, k) # rest" by (metis list.exhaust surj_pair)
    then show False using i(3,4) [of d] that by (simp add: dest_count_def recorded_def)
  qed
  moreover have "snd (admit_pending d (ds_demux s)) \<longleftrightarrow> live_count s < 64 \<and> dest_count d s < 2" for d
  proof -
    obtain m' ok where a: "admit_locked d (ds_demux s) = (m', ok)" by fastforce
    show ?thesis using admit_locked_cases(3) [OF a i(4)] a i(1,3)
      by (auto simp: admit_pending_def MAX_PENDING_HANDSHAKES_def MAX_CONNECTIONS_PER_DEST_def)
  qed
  ultimately show ?thesis using i by (auto simp: live_count_def dest_count_def)
qed

theorem pending_handshakes_bounded_witness:
  "\<exists>s. dstep\<^sup>*\<^sup>* (dsys_init 50) s \<and> ds_guards s = [Live [1]] \<and> dm_pending (ds_demux s) = 1 \<and> recorded [1] (ds_demux s) = 1"
proof -
  define s1 where "s1 = (dsys_init 50)\<lparr>ds_admitting := Some [1]\<rparr>"
  define s2 where "s2 = s1\<lparr>ds_demux := fst (admit_locked [1] (ds_demux s1)), ds_admitting := None, ds_guards := Live [1] # ds_guards s1\<rparr>"
  have "dstep (dsys_init 50) s1"
    unfolding s1_def by (rule check_global) (simp_all add: dsys_init_def demux_new_def MAX_PENDING_HANDSHAKES_def)
  moreover have "dstep s1 s2"
    unfolding s2_def by (rule admit) (simp_all add: s1_def dsys_init_def demux_new_def admit_locked_def MAX_CONNECTIONS_PER_DEST_def)
  ultimately have r: "dstep\<^sup>*\<^sup>* (dsys_init 50) s2" by (meson converse_rtranclp_into_rtranclp rtranclp.rtrancl_refl)
  have g: "ds_guards s2 = [Live [1]]" by (simp add: s2_def s1_def dsys_init_def)
  from pending_handshakes_bounded [OF r] have "dm_pending (ds_demux s2) = 1" "recorded [1] (ds_demux s2) = 1"
    by (simp_all add: g)
  then show ?thesis using r g by blast
qed

subsection \<open>Announcing\<close>

datatype stage = StageUrl | StageResolving | StageDialing | StageAnnouncing

fun stage_as_str :: "stage \<Rightarrow> rstr" where
  "stage_as_str StageUrl = str ''tracker URL''"
| "stage_as_str StageResolving = str ''resolving tracker''"
| "stage_as_str StageDialing = str ''dialing tracker''"
| "stage_as_str StageAnnouncing = str ''announcing to''"

text \<open>The resolver and the dialer are arguments, as are the hash of a destination and the library's character escapes.\<close>

definition contact_tracker ::
  "(bytes \<Rightarrow> bytes) \<Rightarrow> (rchar \<Rightarrow> rstr) \<Rightarrow> (rstr \<Rightarrow> Http.io_kind + dest) \<Rightarrow> (dest \<Rightarrow> Http.io_kind + tracker_stream) \<Rightarrow>
     rstr \<Rightarrow> announce_params \<Rightarrow> stage \<times> tracker_error + announce_response" where
  "contact_tracker sha256 escape naming dialer url params =
     (case build_announce url params of
        Inl e \<Rightarrow> Inl (StageUrl, e)
      | Inr (host, request) \<Rightarrow>
          (case naming host of
             Inl e \<Rightarrow> Inl (StageResolving, TrIo e)
           | Inr dest \<Rightarrow>
               (case dialer dest of
                  Inl e \<Rightarrow> Inl (StageDialing, TrIo e)
                | Inr stream \<Rightarrow>
                    (case announce_over_until sha256 escape stream request of
                       Inl e \<Rightarrow> Inl (StageAnnouncing, e)
                     | Inr r \<Rightarrow> Inr r))))"

definition once_params :: "shared \<Rightarrow> announce_state \<Rightarrow> rstr \<Rightarrow> nat \<Rightarrow> torrent \<Rightarrow> announce_params" where
  "once_params sh st our_dest_b64 numwant t =
     \<lparr>ap_info_hash = sh_info_hash sh, ap_peer_id = sh_peer_id sh, ap_uploaded = ts_uploaded t, ap_downloaded = ts_downloaded t,
      ap_left = bytes_left (ts_picker t), ap_event = next_event st (is_complete (ts_picker t)), ap_numwant = numwant,
      ap_our_dest_b64 = our_dest_b64\<rparr>"

definition announce_once ::
  "(announce_params \<Rightarrow> stage \<times> tracker_error + announce_response) \<Rightarrow> shared \<Rightarrow> announce_state \<Rightarrow> rstr \<Rightarrow> nat \<Rightarrow> torrent \<Rightarrow>
     torrent \<times> (tracker_error + nat \<times> nat option \<times> event)" where
  "announce_once contact sh st our_dest_b64 numwant t =
     (let params = once_params sh st our_dest_b64 numwant t in
      case contact params of
        Inl (_, e) \<Rightarrow> (t, Inl e)
      | Inr r \<Rightarrow> (add_peers (ar_peers r) t, Inr (ar_interval r, ar_min_interval r, ap_event params)))"

text \<open>\<^verbatim>\<open>announce_stopped\<close>: the goodbyes that are sent, each to a destination; what fails is passed over.\<close>

definition stopped_params :: "bytes \<Rightarrow> bytes \<Rightarrow> rstr \<Rightarrow> announce_params" where
  "stopped_params info_hash peer_id our_dest_b64 =
     \<lparr>ap_info_hash = info_hash, ap_peer_id = peer_id, ap_uploaded = 0, ap_downloaded = 0, ap_left = 0, ap_event = Stopped, ap_numwant = 0,
      ap_our_dest_b64 = our_dest_b64\<rparr>"

fun announce_stopped ::
  "(rstr \<Rightarrow> Http.io_kind + dest) \<Rightarrow> (dest \<Rightarrow> Http.io_kind + tracker_stream) \<Rightarrow> announce_params \<Rightarrow> rstr list \<Rightarrow> (dest \<times> bytes) list" where
  "announce_stopped naming dialer params [] = []"
| "announce_stopped naming dialer params (url # urls) =
     (case build_announce url params of
        Inl _ \<Rightarrow> []
      | Inr (host, request) \<Rightarrow>
          (case naming host of
             Inl _ \<Rightarrow> []
           | Inr dest \<Rightarrow> (case dialer dest of Inl _ \<Rightarrow> [] | Inr _ \<Rightarrow> [(dest, request)]))) @
     announce_stopped naming dialer params urls"

lemma announce_stopped_in:
  "(d, q) \<in> set (announce_stopped naming dialer params urls) \<longleftrightarrow>
     (\<exists>url host stream. url \<in> set urls \<and> build_announce url params = Inr (host, q) \<and> naming host = Inr d \<and> dialer d = Inr stream)"
  by (induction urls) (auto split: sum.splits, metis+)

end
