(* ===== verification/Spec2Isabelle.thy ===== *)
theory Spec2Isabelle
  imports Bencode Bitfield Wire Picker Choker Budget Pex Extension Metadata Resume Metainfo Storage Torrent Torrent_Inv Torrent_Steps Torrent_Limits Torrent_Conduct
    Text Addr Http Magnet Tracker Json Sam Naming Config Attach Swarm
begin

text \<open>
  clove is a BitTorrent client that talks to peers and trackers over I2P only. Its engine,
  \<^verbatim>\<open>crates/clove-core\<close>, parses hostile input (torrent files, peer messages, extension payloads),
  keeps one shared state per torrent behind a mutex, and writes verified pieces to disk. This
  development models the engine in HOL and proves the properties its design rests on.

  \<^bold>\<open>Theories and the code they model\<close> (paths under \<^verbatim>\<open>src/crates/clove-core/src\<close>)

  \<^item> \<open>Prelude\<close>: bytes, the arithmetic of Rust's \<^verbatim>\<open>u8\<close>, \<^verbatim>\<open>u32\<close>, \<^verbatim>\<open>u64\<close> and \<^verbatim>\<open>usize\<close> (wrapping, saturating,
    checked), the error monad, \<^verbatim>\<open>BTreeMap\<close> as sorted association lists, and the interfaces
    \<open>codec\<close>, \<open>canonical_codec\<close>, \<open>prefix_codec\<close> and \<open>transition_system\<close>.
  \<^item> \<open>Bencode\<close>: \<^verbatim>\<open>bencode.rs\<close>. The decoder is a recursion on fuel bounded by the input; it accepts exactly an
    inductively defined grammar, within the depth cap and node budget, and inverts the encoder.
  \<^item> \<open>Bitfield\<close>: \<^verbatim>\<open>bitfield.rs\<close>, a refinement of sets of piece indices (interface \<open>piece_set\<close>).
  \<^item> \<open>Wire\<close>: \<^verbatim>\<open>wire.rs\<close>, messages, frames and the handshake; a canonical codec and a stream of frames.
  \<^item> \<open>Picker\<close>: \<^verbatim>\<open>picker.rs\<close>, which block to ask for next; its debug check is an invariant, and \<open>pick\<close> equals a
    declarative reference.
  \<^item> \<open>Choker\<close>: \<^verbatim>\<open>choker.rs\<close>, who is unchoked; slots, rates and freedom from starvation.
  \<^item> \<open>Budget\<close>: \<^verbatim>\<open>budget.rs\<close>, the lock-free connection budget, with every interleaving of its compare-exchange loop.
  \<^item> \<open>Pex\<close>, \<open>Extension\<close>, \<open>Metadata\<close>: \<^verbatim>\<open>pex.rs\<close>, \<^verbatim>\<open>extension.rs\<close>, \<^verbatim>\<open>metadata.rs\<close>, the BEP 10 payloads, the metadata
    assembler and its request budget.
  \<^item> \<open>Metainfo\<close>: \<^verbatim>\<open>metainfo.rs\<close>, torrent files: what an accepted file guarantees, announce URLs, path collisions,
    piece priorities.
  \<^item> \<open>Storage\<close>: \<^verbatim>\<open>storage.rs\<close>, one linear byte space over many files, verification from disk, and the directory
    walk that follows no symbolic link.
  \<^item> \<open>Resume\<close>: \<^verbatim>\<open>resume.rs\<close>, the resume file.
  \<^item> \<open>Torrent\<close>: \<^verbatim>\<open>torrent.rs\<close>, the coordinator: the peer table wired to picker, choker, storage and the extensions.
    \<^verbatim>\<open>State\<close>, the atomic counters and the disk are the record \<open>torrent\<close>, the immutable \<^verbatim>\<open>Shared\<close> is \<open>shared\<close>; each
    critical section is a function on it (\<open>message_section\<close>, \<open>maintain_section\<close>, \<open>drop_peer\<close>, \<open>register_peer\<close>,
    \<open>send_one\<close>, the settings), and \<open>on_message\<close> and \<open>maintain\<close> compose them as the code does.
  \<^item> \<open>Torrent_Inv\<close> and \<open>Torrent_Steps\<close>: the accounting between peer table and picker (interface \<open>ledger\<close>), the
    content invariant, and the torrent as a transition system whose steps are the critical sections in any order.
  \<^item> \<open>Torrent_Limits\<close> and \<open>Torrent_Conduct\<close>: what peers can make the torrent remember, and how it treats them: only verified
    data is served, blame for bad data is exact, hearsay displaces nothing, misbehaviour is held off.

  \<^item> \<open>Text\<close>: \<^verbatim>\<open>text.rs\<close>, scrubbing a stranger's text for the terminal; and UTF-8, decoded strictly or with replacement.
  \<^item> \<open>Addr\<close>: \<^verbatim>\<open>addr.rs\<close> of \<^verbatim>\<open>crates/i2pnet\<close>, base32 and base64 as bit streams, \<^verbatim>\<open>.b32.i2p\<close> names, the public destination
    inside a key blob.
  \<^item> \<open>Http\<close>: \<^verbatim>\<open>http.rs\<close>, both ends of HTTP/1.1 over streams that deliver in portions and may fail, chunked bodies, percent coding.
  \<^item> \<open>Magnet\<close>: \<^verbatim>\<open>magnet.rs\<close>, magnet links, exactly what is accepted and what of them is kept.
  \<^item> \<open>Tracker\<close>: \<^verbatim>\<open>tracker.rs\<close>, announces: the request, what is logged of it, the reply, the timetable; and the announce loop
    of \<^verbatim>\<open>swarm.rs\<close> for one tracker as a transition system.
  \<^item> \<open>Json\<close>: \<^verbatim>\<open>json.rs\<close>, the JSON of the control API: the encoder and the parser, inverse to each other.
  \<^item> \<open>Config\<close>: \<^verbatim>\<open>config.rs\<close>, the configuration file and its defaults from the environment; the parser equals a reference on
    the list of lines, and an accepted configuration is safe.
  \<^item> \<open>Naming\<close>: \<^verbatim>\<open>naming.rs\<close> of \<^verbatim>\<open>crates/i2pnet\<close>, the cache of name lookups as a transition system: a lookup takes the lock twice, and the
    router answers in between.
  \<^item> \<open>Sam\<close>: \<^verbatim>\<open>sam.rs\<close> of \<^verbatim>\<open>crates/i2pnet\<close>, sessions with the router: lines read a byte at a time from a scripted socket, the exchanges, the watchdog
    and the life of a session; what is sent, what is published and what is kept out of logs.
  \<^item> \<open>Attach\<close>: the connection side of \<^verbatim>\<open>torrent.rs\<close>: reading a handshake by a deadline, attaching a stream to the torrent, the reader
    thread to its end.
  \<^item> \<open>Swarm\<close>: \<^verbatim>\<open>swarm.rs\<close>: the dial sweep with its waves of workers, the demultiplexer of inbound connections with its admission
    bounds, announcing to a tracker.

  \<^bold>\<open>What the lemmas show\<close>

  Codecs: round trips, exact acceptance, bounds on what hostile input can make the program hold.
  Data structures: invariants under every operation, refinement of sets and of a byte space.
  Algorithms: equality with reference definitions, preference orders, no starvation.
  Concurrency: the connection budget, the torrent's bookkeeping, name lookups, the workers of a sweep and inbound admissions
  under every interleaving.
  Privacy and injection: no stranger's text adds a line to a request, and our destination reaches no log.
  Integrity: held pieces are on disk with the right hash, whatever peers send and whatever I/O fails.

  \<^bold>\<open>Conventions\<close>

  Integers are naturals kept in range by the wrapping, saturating or checked operation the code
  uses; release builds wrap. \<^verbatim>\<open>usize\<close> is 64 bits wide. Lengths of buffers in memory are assumed
  to fit a \<^verbatim>\<open>usize\<close> where a statement says so. A \<^verbatim>\<open>HashMap\<close> is an association list with distinct
  keys, in an arbitrary order that may change. An \<^verbatim>\<open>Instant\<close> counts nanoseconds and every operation takes the
  clock it reads as an argument, one reading per critical section. SHA-1, SHA-256, Unicode
  lower-casing, \<^verbatim>\<open>char::escape_debug\<close>, the printing and reading of \<^verbatim>\<open>f64\<close>, the router's answers, the outcomes of dialling, the system calls and
  the faults of reads and writes are parameters. Errors are values of sum
  types; the text of an error message is kept only where the code compares it. Fuel appears in the bencode decoder,
  where the length of the input is enough, and in the JSON parser, where twice the length plus two is; the loop that strips markup in \<open>Tracker\<close> is a partial function proved to
  return; every other loop is structural or has a measure.

  \<^bold>\<open>Not modelled\<close>

  Of \<^verbatim>\<open>torrent.rs\<close>: \<^verbatim>\<open>fetch_metadata\<close>, the writer thread's blocking, and accessors that copy fields out for display. Of \<^verbatim>\<open>swarm.rs\<close>: starting and
  joining threads, but for the workers of a sweep. An attach and a reader thread run on one torrent state without others in between, and unwinding
  from a panic is left out; the interleavings of the critical sections are those of \<open>Torrent_Steps\<close>. That the kernel honours
  \<^verbatim>\<open>O_NOFOLLOW\<close> is a hypothesis of \<open>Storage\<close>. The reconnection delays, the control socket and the trait definitions of \<^verbatim>\<open>crates/i2pnet\<close>, the daemon (process setup, control socket,
  sandbox, registry) and the command line client: they are system calls, scheduling, and calls into the parts above.
  The in-memory network \<^verbatim>\<open>mock.rs\<close> serves tests only.
\<close>

end
